(* ===== verification/Prelude.thy ===== *)
theory Prelude
  imports Main "HOL-Library.Word"
begin

text \<open>
  Shared vocabulary of the development: bytes and machine words, C memory blocks as lists of
  bytes with \<open>memcpy\<close>, out-of-bounds-aware reads, and the lemma collections the component
  theories feed.

  \<^item> \<open>mem_simps\<close>: reading back what \<open>memcpy\<close> wrote;
  \<^item> \<open>inv_intros\<close>: preservation of component invariants;
  \<^item> \<open>abs_simps\<close>: how the abstraction of a component's state changes under its operations.
\<close>

named_theorems mem_simps \<open>reads of a block after a memcpy\<close>
named_theorems inv_intros \<open>operations keep their component's invariant\<close>
named_theorems abs_simps \<open>operations seen through the abstraction function\<close>

type_synonym byte = "8 word"
type_synonym u16 = "16 word"
type_synonym u32 = "32 word"
type_synonym u64 = "64 word"

section \<open>Blocks of memory\<close>

text \<open>
  A block of memory is the list of its bytes. \<open>mem_read b p n\<close> are the \<open>n\<close> bytes at offset
  \<open>p\<close>; \<open>memcpy b p xs\<close> stores the bytes \<open>xs\<close> at offset \<open>p\<close>. Both are used by the models only
  within the bounds of the block, which is what the components' invariants establish.
\<close>

definition mem_read :: "'a list \<Rightarrow> nat \<Rightarrow> nat \<Rightarrow> 'a list" where
  "mem_read b p n = take n (drop p b)"

definition memcpy :: "'a list \<Rightarrow> nat \<Rightarrow> 'a list \<Rightarrow> 'a list" where
  "memcpy b p xs = take p b @ xs @ drop (p + length xs) b"

lemma length_mem_read [simp]: "p + n \<le> length b \<Longrightarrow> length (mem_read b p n) = n"
  by (simp add: mem_read_def)

lemma mem_read_0 [simp]: "mem_read b p 0 = []"
  by (simp add: mem_read_def)

lemma length_memcpy [simp]: "p + length xs \<le> length b \<Longrightarrow> length (memcpy b p xs) = length b"
  by (simp add: memcpy_def)

lemma memcpy_Nil [simp]: "p \<le> length b \<Longrightarrow> memcpy b p [] = b"
  by (simp add: memcpy_def)

lemma mem_read_memcpy_same [mem_simps]:
  "p + length xs \<le> length b \<Longrightarrow> mem_read (memcpy b p xs) p (length xs) = xs"
  by (simp add: mem_read_def memcpy_def)

lemma mem_read_memcpy_before [mem_simps]:
  "q + n \<le> p \<Longrightarrow> p \<le> length b \<Longrightarrow> mem_read (memcpy b p xs) q n = mem_read b q n"
  by (simp add: mem_read_def memcpy_def take_drop)

lemma mem_read_memcpy_after [mem_simps]:
  "p + length xs \<le> q \<Longrightarrow> p + length xs \<le> length b \<Longrightarrow> mem_read (memcpy b p xs) q n = mem_read b q n"
  by (simp add: mem_read_def memcpy_def)

lemma mem_read_split:
  "mem_read b p (m + n) = mem_read b p m @ mem_read b (p + m) n"
  by (simp add: mem_read_def take_add add.commute)

lemma mem_read_memcpy_end [mem_simps]:
  assumes "q + n = p" "p + length xs \<le> length b"
  shows "mem_read (memcpy b p xs) q (n + length xs) = mem_read b q n @ xs"
  using assms by (simp add: mem_read_split mem_simps)

lemma mem_read_memcpy_front [mem_simps]:
  assumes "p + length xs \<le> length b"
  shows "mem_read (memcpy b p xs) p (length xs + n) = xs @ mem_read b (p + length xs) n"
  using assms by (simp add: mem_read_split mem_simps)

lemma mem_read_drop: "m \<le> n \<Longrightarrow> mem_read b (p + m) (n - m) = drop m (mem_read b p n)"
  by (simp add: mem_read_def drop_take add.commute)

lemma mem_read_take: "m \<le> n \<Longrightarrow> mem_read b p m = take m (mem_read b p n)"
  by (simp add: mem_read_def min_def)

lemma mem_read_full [simp]: "mem_read b 0 (length b) = b"
  by (simp add: mem_read_def)

text \<open>The value of a plain \<open>char\<close>, which is signed or not as the platform has it.\<close>

definition char_val :: "bool \<Rightarrow> byte \<Rightarrow> int" where
  "char_val char_signed b = (if char_signed then sint b else uint b)"

section \<open>Lists\<close>

lemma takeWhile_dropWhile_pos:
  "i \<le> length xs \<Longrightarrow> i + length (takeWhile P (drop i xs)) \<le> length xs"
proof -
  assume "i \<le> length xs"
  moreover have "length (takeWhile P (drop i xs)) \<le> length (drop i xs)"
    by (rule length_takeWhile_le)
  ultimately show ?thesis by simp
qed

lemma drop_nth_Cons: "i < length xs \<Longrightarrow> drop i xs = xs ! i # drop (Suc i) xs"
  by (rule Cons_nth_drop_Suc [symmetric])

lemma in_set_drop_snoc: "x \<in> set (drop n (xs @ [y])) \<Longrightarrow> x \<in> set (drop n xs) \<or> x = y"
  by (cases "n - length xs") auto

lemma sum_list_concat_length: "length (concat xss) = sum_list (map length xss)"
  by (rule length_concat)

section \<open>Results of fallible operations\<close>

text \<open>The results of a call that may fail: \<open>Inl\<close> the error, \<open>Inr\<close> the value.\<close>

definition result_bind :: "'e + 'a \<Rightarrow> ('a \<Rightarrow> 'e + 'b) \<Rightarrow> 'e + 'b" where
  "result_bind r f = (case r of Inl e \<Rightarrow> Inl e | Inr a \<Rightarrow> f a)"

lemma result_bind_simps [simp]:
  "result_bind (Inl e) f = Inl e"
  "result_bind (Inr a) f = f a"
  by (simp_all add: result_bind_def)

lemma result_bind_Inr_iff:
  "result_bind r f = Inr b \<longleftrightarrow> (\<exists>a. r = Inr a \<and> f a = Inr b)"
  by (cases r) simp_all


text \<open>
  How a piece of a program ends: normally with a value, by \<open>exit\<close> with a status, or in
  behaviour the C standard does not define (a \<open>NULL\<close> dereference, an access out of bounds).
\<close>

datatype 'a run = Done 'a | Exits int | Undefined

fun run_bind :: "'a run \<Rightarrow> ('a \<Rightarrow> 'b run) \<Rightarrow> 'b run" where
  "run_bind (Done a) f = f a"
| "run_bind (Exits n) f = Exits n"
| "run_bind Undefined f = Undefined"

definition run_of_option :: "'a option \<Rightarrow> 'a run" where
  "run_of_option r = (case r of None \<Rightarrow> Undefined | Some a \<Rightarrow> Done a)"

lemma run_of_option_simps [simp]:
  "run_of_option None = Undefined" "run_of_option (Some a) = Done a"
  by (simp_all add: run_of_option_def)

text \<open>A list cut into blocks of a fixed size, the last one possibly shorter.\<close>

function blocks_of :: "nat \<Rightarrow> 'a list \<Rightarrow> 'a list list" where
  "blocks_of n xs = (if n = 0 \<or> xs = [] then [] else take n xs # blocks_of n (drop n xs))"
  by auto
termination by (relation "measure (length \<circ> snd)") auto

declare blocks_of.simps [simp del]

lemma blocks_of_Nil [simp]: "blocks_of n [] = []"
  by (simp add: blocks_of.simps)

lemma concat_blocks_of: "0 < n \<Longrightarrow> concat (blocks_of n xs) = xs"
  by (induction n xs rule: blocks_of.induct) (subst blocks_of.simps, auto)

end
