(* ===== verification/Hpack_Static.thy ===== *)
theory Hpack_Static
  imports Prelude
begin

text \<open>
  The static table of HPACK in HAProxy (\<open>hpack_sht\<close> in \<open>hpack-tbl.c\<close>) and the stream in which the encoder looks a
  name up (\<open>hpack_enc_stream\<close> and \<open>hpack_pos_len\<close> in \<open>hpack-enc.c\<close>): the names by length, each with its length and
  its index before it.

  The lemmas show that what the search finds is the index of the name in the static table, and that it reads
  nothing behind the stream.
\<close>

section \<open>The tables\<close>

definition ascii :: "string \<Rightarrow> byte list" where "ascii s = map of_char s"

definition hpack_sht :: "(byte list \<times> byte list) list" where
  "hpack_sht = [
     ([], []), (ascii '':authority'', []), (ascii '':method'', ascii ''GET''), (ascii '':method'', ascii ''POST''),
     (ascii '':path'', ascii ''/''), (ascii '':path'', ascii ''/index.html''), (ascii '':scheme'', ascii ''http''),
     (ascii '':scheme'', ascii ''https''), (ascii '':status'', ascii ''200''), (ascii '':status'', ascii ''204''),
     (ascii '':status'', ascii ''206''), (ascii '':status'', ascii ''304''), (ascii '':status'', ascii ''400''),
     (ascii '':status'', ascii ''404''), (ascii '':status'', ascii ''500''), (ascii ''accept-charset'', []),
     (ascii ''accept-encoding'', ascii ''gzip, deflate''), (ascii ''accept-language'', []), (ascii ''accept-ranges'', []),
     (ascii ''accept'', []), (ascii ''access-control-allow-origin'', []), (ascii ''age'', []), (ascii ''allow'', []),
     (ascii ''authorization'', []), (ascii ''cache-control'', []), (ascii ''content-disposition'', []),
     (ascii ''content-encoding'', []), (ascii ''content-language'', []), (ascii ''content-length'', []),
     (ascii ''content-location'', []), (ascii ''content-range'', []), (ascii ''content-type'', []), (ascii ''cookie'', []),
     (ascii ''date'', []), (ascii ''etag'', []), (ascii ''expect'', []), (ascii ''expires'', []), (ascii ''from'', []),
     (ascii ''host'', []), (ascii ''if-match'', []), (ascii ''if-modified-since'', []), (ascii ''if-none-match'', []),
     (ascii ''if-range'', []), (ascii ''if-unmodified-since'', []), (ascii ''last-modified'', []), (ascii ''link'', []),
     (ascii ''location'', []), (ascii ''max-forwards'', []), (ascii ''proxy-authenticate'', []),
     (ascii ''proxy-authorization'', []), (ascii ''range'', []), (ascii ''referer'', []), (ascii ''refresh'', []),
     (ascii ''retry-after'', []), (ascii ''server'', []), (ascii ''set-cookie'', []), (ascii ''strict-transport-security'', []),
     (ascii ''transfer-encoding'', []), (ascii ''user-agent'', []), (ascii ''vary'', []), (ascii ''via'', []),
     (ascii ''www-authenticate'', [])]"

text \<open>For evaluation, the same as bytes.\<close>

lemma hpack_sht_bytes [code]:
  "hpack_sht = [
     ([], []), ([58, 97, 117, 116, 104, 111, 114, 105, 116, 121], []), ([58, 109, 101, 116, 104, 111, 100], [71, 69, 84]),
     ([58, 109, 101, 116, 104, 111, 100], [80, 79, 83, 84]), ([58, 112, 97, 116, 104], [47]),
     ([58, 112, 97, 116, 104], [47, 105, 110, 100, 101, 120, 46, 104, 116, 109, 108]),
     ([58, 115, 99, 104, 101, 109, 101], [104, 116, 116, 112]), ([58, 115, 99, 104, 101, 109, 101], [104, 116, 116, 112, 115]),
     ([58, 115, 116, 97, 116, 117, 115], [50, 48, 48]), ([58, 115, 116, 97, 116, 117, 115], [50, 48, 52]),
     ([58, 115, 116, 97, 116, 117, 115], [50, 48, 54]), ([58, 115, 116, 97, 116, 117, 115], [51, 48, 52]),
     ([58, 115, 116, 97, 116, 117, 115], [52, 48, 48]), ([58, 115, 116, 97, 116, 117, 115], [52, 48, 52]),
     ([58, 115, 116, 97, 116, 117, 115], [53, 48, 48]), ([97, 99, 99, 101, 112, 116, 45, 99, 104, 97, 114, 115, 101, 116], []),
     ([97, 99, 99, 101, 112, 116, 45, 101, 110, 99, 111, 100, 105, 110, 103], [103, 122, 105, 112, 44, 32, 100, 101, 102, 108, 97, 116, 101]),
     ([97, 99, 99, 101, 112, 116, 45, 108, 97, 110, 103, 117, 97, 103, 101], []),
     ([97, 99, 99, 101, 112, 116, 45, 114, 97, 110, 103, 101, 115], []), ([97, 99, 99, 101, 112, 116], []),
     ([97, 99, 99, 101, 115, 115, 45, 99, 111, 110, 116, 114, 111, 108, 45, 97, 108, 108, 111, 119, 45, 111, 114, 105, 103, 105, 110], []),
     ([97, 103, 101], []), ([97, 108, 108, 111, 119], []), ([97, 117, 116, 104, 111, 114, 105, 122, 97, 116, 105, 111, 110], []),
     ([99, 97, 99, 104, 101, 45, 99, 111, 110, 116, 114, 111, 108], []),
     ([99, 111, 110, 116, 101, 110, 116, 45, 100, 105, 115, 112, 111, 115, 105, 116, 105, 111, 110], []),
     ([99, 111, 110, 116, 101, 110, 116, 45, 101, 110, 99, 111, 100, 105, 110, 103], []),
     ([99, 111, 110, 116, 101, 110, 116, 45, 108, 97, 110, 103, 117, 97, 103, 101], []),
     ([99, 111, 110, 116, 101, 110, 116, 45, 108, 101, 110, 103, 116, 104], []),
     ([99, 111, 110, 116, 101, 110, 116, 45, 108, 111, 99, 97, 116, 105, 111, 110], []),
     ([99, 111, 110, 116, 101, 110, 116, 45, 114, 97, 110, 103, 101], []),
     ([99, 111, 110, 116, 101, 110, 116, 45, 116, 121, 112, 101], []), ([99, 111, 111, 107, 105, 101], []),
     ([100, 97, 116, 101], []), ([101, 116, 97, 103], []), ([101, 120, 112, 101, 99, 116], []),
     ([101, 120, 112, 105, 114, 101, 115], []), ([102, 114, 111, 109], []), ([104, 111, 115, 116], []),
     ([105, 102, 45, 109, 97, 116, 99, 104], []),
     ([105, 102, 45, 109, 111, 100, 105, 102, 105, 101, 100, 45, 115, 105, 110, 99, 101], []),
     ([105, 102, 45, 110, 111, 110, 101, 45, 109, 97, 116, 99, 104], []), ([105, 102, 45, 114, 97, 110, 103, 101], []),
     ([105, 102, 45, 117, 110, 109, 111, 100, 105, 102, 105, 101, 100, 45, 115, 105, 110, 99, 101], []),
     ([108, 97, 115, 116, 45, 109, 111, 100, 105, 102, 105, 101, 100], []), ([108, 105, 110, 107], []),
     ([108, 111, 99, 97, 116, 105, 111, 110], []), ([109, 97, 120, 45, 102, 111, 114, 119, 97, 114, 100, 115], []),
     ([112, 114, 111, 120, 121, 45, 97, 117, 116, 104, 101, 110, 116, 105, 99, 97, 116, 101], []),
     ([112, 114, 111, 120, 121, 45, 97, 117, 116, 104, 111, 114, 105, 122, 97, 116, 105, 111, 110], []),
     ([114, 97, 110, 103, 101], []), ([114, 101, 102, 101, 114, 101, 114], []), ([114, 101, 102, 114, 101, 115, 104], []),
     ([114, 101, 116, 114, 121, 45, 97, 102, 116, 101, 114], []), ([115, 101, 114, 118, 101, 114], []),
     ([115, 101, 116, 45, 99, 111, 111, 107, 105, 101], []),
     ([115, 116, 114, 105, 99, 116, 45, 116, 114, 97, 110, 115, 112, 111, 114, 116, 45, 115, 101, 99, 117, 114, 105, 116, 121], []),
     ([116, 114, 97, 110, 115, 102, 101, 114, 45, 101, 110, 99, 111, 100, 105, 110, 103], []),
     ([117, 115, 101, 114, 45, 97, 103, 101, 110, 116], []), ([118, 97, 114, 121], []), ([118, 105, 97], []),
     ([119, 119, 119, 45, 97, 117, 116, 104, 101, 110, 116, 105, 99, 97, 116, 101], [])]"
  by (simp add: hpack_sht_def ascii_def)

definition hpack_enc_stream :: "byte list" where
  "hpack_enc_stream = [
     0x03, 0x15, 0x61, 0x67, 0x65, 0x03, 0x3c, 0x76, 0x69, 0x61, 0x04, 0x21, 0x64, 0x61, 0x74, 0x65, 0x04, 0x26, 0x68, 0x6f, 0x73, 0x74, 0x04, 0x22,
     0x65, 0x74, 0x61, 0x67, 0x04, 0x25, 0x66, 0x72, 0x6f, 0x6d, 0x04, 0x2d, 0x6c, 0x69, 0x6e, 0x6b, 0x04, 0x3b, 0x76, 0x61, 0x72, 0x79, 0x05, 0x04,
     0x3a, 0x70, 0x61, 0x74, 0x68, 0x05, 0x16, 0x61, 0x6c, 0x6c, 0x6f, 0x77, 0x05, 0x32, 0x72, 0x61, 0x6e, 0x67, 0x65, 0x06, 0x13, 0x61, 0x63, 0x63,
     0x65, 0x70, 0x74, 0x06, 0x36, 0x73, 0x65, 0x72, 0x76, 0x65, 0x72, 0x06, 0x20, 0x63, 0x6f, 0x6f, 0x6b, 0x69, 0x65, 0x06, 0x23, 0x65, 0x78, 0x70,
     0x65, 0x63, 0x74, 0x07, 0x33, 0x72, 0x65, 0x66, 0x65, 0x72, 0x65, 0x72, 0x07, 0x24, 0x65, 0x78, 0x70, 0x69, 0x72, 0x65, 0x73, 0x07, 0x02, 0x3a,
     0x6d, 0x65, 0x74, 0x68, 0x6f, 0x64, 0x07, 0x06, 0x3a, 0x73, 0x63, 0x68, 0x65, 0x6d, 0x65, 0x07, 0x08, 0x3a, 0x73, 0x74, 0x61, 0x74, 0x75, 0x73,
     0x07, 0x34, 0x72, 0x65, 0x66, 0x72, 0x65, 0x73, 0x68, 0x08, 0x2e, 0x6c, 0x6f, 0x63, 0x61, 0x74, 0x69, 0x6f, 0x6e, 0x08, 0x27, 0x69, 0x66, 0x2d,
     0x6d, 0x61, 0x74, 0x63, 0x68, 0x08, 0x2a, 0x69, 0x66, 0x2d, 0x72, 0x61, 0x6e, 0x67, 0x65, 0x0a, 0x3a, 0x75, 0x73, 0x65, 0x72, 0x2d, 0x61, 0x67,
     0x65, 0x6e, 0x74, 0x0a, 0x37, 0x73, 0x65, 0x74, 0x2d, 0x63, 0x6f, 0x6f, 0x6b, 0x69, 0x65, 0x0a, 0x01, 0x3a, 0x61, 0x75, 0x74, 0x68, 0x6f, 0x72,
     0x69, 0x74, 0x79, 0x0b, 0x35, 0x72, 0x65, 0x74, 0x72, 0x79, 0x2d, 0x61, 0x66, 0x74, 0x65, 0x72, 0x0c, 0x1f, 0x63, 0x6f, 0x6e, 0x74, 0x65, 0x6e,
     0x74, 0x2d, 0x74, 0x79, 0x70, 0x65, 0x0c, 0x2f, 0x6d, 0x61, 0x78, 0x2d, 0x66, 0x6f, 0x72, 0x77, 0x61, 0x72, 0x64, 0x73, 0x0d, 0x18, 0x63, 0x61,
     0x63, 0x68, 0x65, 0x2d, 0x63, 0x6f, 0x6e, 0x74, 0x72, 0x6f, 0x6c, 0x0d, 0x2c, 0x6c, 0x61, 0x73, 0x74, 0x2d, 0x6d, 0x6f, 0x64, 0x69, 0x66, 0x69,
     0x65, 0x64, 0x0d, 0x12, 0x61, 0x63, 0x63, 0x65, 0x70, 0x74, 0x2d, 0x72, 0x61, 0x6e, 0x67, 0x65, 0x73, 0x0d, 0x29, 0x69, 0x66, 0x2d, 0x6e, 0x6f,
     0x6e, 0x65, 0x2d, 0x6d, 0x61, 0x74, 0x63, 0x68, 0x0d, 0x17, 0x61, 0x75, 0x74, 0x68, 0x6f, 0x72, 0x69, 0x7a, 0x61, 0x74, 0x69, 0x6f, 0x6e, 0x0d,
     0x1e, 0x63, 0x6f, 0x6e, 0x74, 0x65, 0x6e, 0x74, 0x2d, 0x72, 0x61, 0x6e, 0x67, 0x65, 0x0e, 0x1c, 0x63, 0x6f, 0x6e, 0x74, 0x65, 0x6e, 0x74, 0x2d,
     0x6c, 0x65, 0x6e, 0x67, 0x74, 0x68, 0x0e, 0x0f, 0x61, 0x63, 0x63, 0x65, 0x70, 0x74, 0x2d, 0x63, 0x68, 0x61, 0x72, 0x73, 0x65, 0x74, 0x0f, 0x10,
     0x61, 0x63, 0x63, 0x65, 0x70, 0x74, 0x2d, 0x65, 0x6e, 0x63, 0x6f, 0x64, 0x69, 0x6e, 0x67, 0x0f, 0x11, 0x61, 0x63, 0x63, 0x65, 0x70, 0x74, 0x2d,
     0x6c, 0x61, 0x6e, 0x67, 0x75, 0x61, 0x67, 0x65, 0x10, 0x1a, 0x63, 0x6f, 0x6e, 0x74, 0x65, 0x6e, 0x74, 0x2d, 0x65, 0x6e, 0x63, 0x6f, 0x64, 0x69,
     0x6e, 0x67, 0x10, 0x1b, 0x63, 0x6f, 0x6e, 0x74, 0x65, 0x6e, 0x74, 0x2d, 0x6c, 0x61, 0x6e, 0x67, 0x75, 0x61, 0x67, 0x65, 0x10, 0x1d, 0x63, 0x6f,
     0x6e, 0x74, 0x65, 0x6e, 0x74, 0x2d, 0x6c, 0x6f, 0x63, 0x61, 0x74, 0x69, 0x6f, 0x6e, 0x10, 0x3d, 0x77, 0x77, 0x77, 0x2d, 0x61, 0x75, 0x74, 0x68,
     0x65, 0x6e, 0x74, 0x69, 0x63, 0x61, 0x74, 0x65, 0x11, 0x39, 0x74, 0x72, 0x61, 0x6e, 0x73, 0x66, 0x65, 0x72, 0x2d, 0x65, 0x6e, 0x63, 0x6f, 0x64,
     0x69, 0x6e, 0x67, 0x11, 0x28, 0x69, 0x66, 0x2d, 0x6d, 0x6f, 0x64, 0x69, 0x66, 0x69, 0x65, 0x64, 0x2d, 0x73, 0x69, 0x6e, 0x63, 0x65, 0x12, 0x30,
     0x70, 0x72, 0x6f, 0x78, 0x79, 0x2d, 0x61, 0x75, 0x74, 0x68, 0x65, 0x6e, 0x74, 0x69, 0x63, 0x61, 0x74, 0x65, 0x13, 0x19, 0x63, 0x6f, 0x6e, 0x74,
     0x65, 0x6e, 0x74, 0x2d, 0x64, 0x69, 0x73, 0x70, 0x6f, 0x73, 0x69, 0x74, 0x69, 0x6f, 0x6e, 0x13, 0x2b, 0x69, 0x66, 0x2d, 0x75, 0x6e, 0x6d, 0x6f,
     0x64, 0x69, 0x66, 0x69, 0x65, 0x64, 0x2d, 0x73, 0x69, 0x6e, 0x63, 0x65, 0x13, 0x31, 0x70, 0x72, 0x6f, 0x78, 0x79, 0x2d, 0x61, 0x75, 0x74, 0x68,
     0x6f, 0x72, 0x69, 0x7a, 0x61, 0x74, 0x69, 0x6f, 0x6e, 0x19, 0x38, 0x73, 0x74, 0x72, 0x69, 0x63, 0x74, 0x2d, 0x74, 0x72, 0x61, 0x6e, 0x73, 0x70,
     0x6f, 0x72, 0x74, 0x2d, 0x73, 0x65, 0x63, 0x75, 0x72, 0x69, 0x74, 0x79, 0x1b, 0x14, 0x61, 0x63, 0x63, 0x65, 0x73, 0x73, 0x2d, 0x63, 0x6f, 0x6e,
     0x74, 0x72, 0x6f, 0x6c, 0x2d, 0x61, 0x6c, 0x6c, 0x6f, 0x77, 0x2d, 0x6f, 0x72, 0x69, 0x67, 0x69, 0x6e, 0x00]"

definition hpack_pos_len :: "int list" where
  "hpack_pos_len = [
     -1, -1, -1, 0, 10, 46, 67, 99, 153, -1, 183, 219, 232, 260, 350, 382,
     416, 488, 526, 546, -1, -1, -1, -1, -1, 609, -1, 636, -1, -1, -1, -1]"


section \<open>The search\<close>

text \<open>
  The loop of \<open>hpack_encode_header\<close> over the names of one length: \<open>None\<close> for a read behind the stream, otherwise the
  index that was found.
\<close>

function enc_search :: "byte list \<Rightarrow> nat \<Rightarrow> byte option option" where
  "enc_search n pos =
     (if length hpack_enc_stream \<le> pos + 2 + length n then None
      else if mem_read hpack_enc_stream (pos + 2) (length n) = n then Some (Some (hpack_enc_stream ! (pos + 1)))
      else if unat (hpack_enc_stream ! (pos + 2 + length n)) = length n then enc_search n (pos + 2 + length n)
      else Some None)"
  by auto
termination by (relation "measure (\<lambda>(n, pos). length hpack_enc_stream - pos)") auto

declare enc_search.simps [simp del]

definition enc_find :: "byte list \<Rightarrow> byte option option" where
  "enc_find n =
     (if length n \<ge> length hpack_pos_len then Some None
      else if hpack_pos_len ! length n < 0 then Some None
      else enc_search n (nat (hpack_pos_len ! length n)))"

text \<open>What is left of the stream is a list of entries, all of them right, and a zero.\<close>

fun walk_ok :: "byte list \<Rightarrow> bool" where
  "walk_ok [] \<longleftrightarrow> False"
| "walk_ok (l # xs) \<longleftrightarrow>
     l = 0 \<or> (unat l + 1 < length xs \<and> 0 < unat (hd xs) \<and> unat (hd xs) < 62
       \<and> fst (hpack_sht ! unat (hd xs)) = take (unat l) (tl xs) \<and> walk_ok (drop (unat l + 1) xs))"

lemma stream_ok: "walk_ok hpack_enc_stream" by code_simp

text \<open>Every start in the table of lengths is one of an entry of that length: the entries, by their length and what is left.\<close>

fun entries :: "byte list \<Rightarrow> (int \<times> int) list" where
  "entries [] = []"
| "entries (l # xs) = (if l = 0 then [] else (uint l, int (length xs)) # entries (drop (unat l + 1) xs))"

lemma walk_ok_drop: "walk_ok (l # xs) \<Longrightarrow> l \<noteq> 0 \<Longrightarrow> walk_ok (drop (unat l + 1) xs) \<and> unat l + 1 < length xs"
  by simp

lemma entries_walk:
  "(k, m) \<in> set (entries xs) \<Longrightarrow> walk_ok xs \<Longrightarrow>
   \<exists>j l ys. j \<le> length xs \<and> drop j xs = l # ys \<and> uint l = k \<and> int (length ys) = m \<and> walk_ok (l # ys) \<and> l \<noteq> 0"
proof (induction xs rule: entries.induct)
  case (2 l xs)
  then have l: "l \<noteq> 0" by (auto split: if_splits)
  from walk_ok_drop [OF 2(3) l] have w: "walk_ok (drop (unat l + 1) xs)" "unat l + 1 < length xs" by simp_all
  show ?case
  proof (cases "(k, m) = (uint l, int (length xs))")
    case True
    with 2(3) l show ?thesis by (intro exI [of _ 0] exI [of _ l] exI [of _ xs]) simp
  next
    case False
    with 2(2) l have "(k, m) \<in> set (entries (drop (unat l + 1) xs))" by (auto split: if_splits)
    from 2(1) [OF l this w(1)] obtain j h ys where j: "j \<le> length xs - (unat l + 1)" "drop (j + (unat l + 1)) xs = h # ys"
      "uint h = k" "int (length ys) = m" "walk_ok (h # ys)" "h \<noteq> 0" by auto
    then show ?thesis using w(2) by (intro exI [of _ "j + (unat l + 1) + 1"] exI [of _ h] exI [of _ ys]) simp
  qed
qed simp

fun starts_ok :: "int \<Rightarrow> int list \<Rightarrow> (int \<times> int) list \<Rightarrow> bool" where
  "starts_ok k [] es \<longleftrightarrow> True"
| "starts_ok k (p # ps) es \<longleftrightarrow> (p < 0 \<or> (k, 665 - p) \<in> set es) \<and> starts_ok (k + 1) ps es"

lemma all_starts_ok: "starts_ok 0 hpack_pos_len (entries hpack_enc_stream)" by code_simp

lemma stream_length: "int (length hpack_enc_stream) = 666" by code_simp

lemma starts_ok_nth: "starts_ok k ps es \<Longrightarrow> i < length ps \<Longrightarrow> 0 \<le> ps ! i \<Longrightarrow> (k + int i, 665 - ps ! i) \<in> set es"
proof (induction k ps es arbitrary: i rule: starts_ok.induct)
  case (2 k p ps es)
  then show ?case by (cases i) (auto simp: algebra_simps)
qed simp

lemma search_start:
  assumes "i < length hpack_pos_len" "0 \<le> hpack_pos_len ! i"
  obtains l ys where "drop (nat (hpack_pos_len ! i)) hpack_enc_stream = l # ys" "unat l = i" "l \<noteq> 0" "walk_ok (l # ys)"
proof -
  have "(int i, 665 - hpack_pos_len ! i) \<in> set (entries hpack_enc_stream)"
    using starts_ok_nth [OF all_starts_ok assms] by simp
  from entries_walk [OF this stream_ok] obtain j l ys where j: "j \<le> length hpack_enc_stream" "drop j hpack_enc_stream = l # ys"
    "uint l = int i" "int (length ys) = 665 - hpack_pos_len ! i" "walk_ok (l # ys)" "l \<noteq> 0" by blast
  have "int (length (drop j hpack_enc_stream)) = 666 - int j" using j(1) stream_length by (simp add: of_nat_diff)
  then have p: "nat (hpack_pos_len ! i) = j" using j(2,4) by simp
  have "unat l = i" using j(3) by (metis nat_int unat_eq_nat_uint)
  then show ?thesis using that [of l ys] j(2,5,6) unfolding p by blast
qed

lemma enc_search_ok:
  assumes "drop pos hpack_enc_stream = l # ys" "walk_ok (l # ys)" "unat l = length n" "l \<noteq> 0"
  shows "\<exists>r. enc_search n pos = Some r \<and> (\<forall>i. r = Some i \<longrightarrow> 0 < unat i \<and> unat i < 62 \<and> fst (hpack_sht ! unat i) = n)"
  using assms
proof (induction n pos arbitrary: l ys rule: enc_search.induct)
  case (1 n pos)
  have w: "length n + 1 < length ys" "0 < unat (hd ys)" "unat (hd ys) < 62" "fst (hpack_sht ! unat (hd ys)) = take (length n) (tl ys)"
    "walk_ok (drop (length n + 1) ys)" using walk_ok_drop [OF 1(3,5)] 1(3,4,5) by simp_all
  have len: "length hpack_enc_stream = pos + Suc (length ys)" using arg_cong [OF 1(2), of length] by simp
  have y: "drop (pos + 1) hpack_enc_stream = ys" using arg_cong [OF 1(2), of "drop 1"] by simp
  obtain i zs where ys: "ys = i # zs" using w(1) by (cases ys) auto
  have i: "hpack_enc_stream ! (pos + 1) = i" using y ys len by (metis nth_via_drop)
  have z: "drop (pos + 2) hpack_enc_stream = zs" using arg_cong [OF y, of "drop 1"] ys by simp
  have name: "mem_read hpack_enc_stream (pos + 2) (length n) = take (length n) zs" unfolding mem_read_def z ..
  obtain m ms where m: "drop (length n) zs = m # ms" using w(1) ys by (cases "drop (length n) zs") auto
  have d: "drop (pos + 2 + length n) hpack_enc_stream = m # ms" using m z by (metis add.commute drop_drop)
  have nx: "hpack_enc_stream ! (pos + 2 + length n) = m" by (rule nth_via_drop [OF d])
  have inside: "\<not> length hpack_enc_stream \<le> pos + 2 + length n" using len w(1) ys by simp
  show ?case
  proof (cases "take (length n) zs = n")
    case True
    then show ?thesis using inside name i w(2-4) ys by (simp add: enc_search.simps [of n pos])
  next
    case False
    show ?thesis
    proof (cases "unat m = length n")
      case True
      have "m \<noteq> 0" using True 1(4,5) by (metis unsigned_0 unat_eq_zero)
      with 1(1) [of m ms] inside False True name nx d w(5) m ys show ?thesis by (simp add: enc_search.simps [of n pos])
    next
      case False
      with \<open>take (length n) zs \<noteq> n\<close> inside name nx show ?thesis by (simp add: enc_search.simps [of n pos])
    qed
  qed
qed

text \<open>What the encoder finds for a name is the index of that name, and it always finds an answer.\<close>

lemma enc_find_ok:
  "\<exists>r. enc_find n = Some r \<and> (\<forall>i. r = Some i \<longrightarrow> 0 < unat i \<and> unat i < 62 \<and> fst (hpack_sht ! unat i) = n)"
proof (cases "length n < length hpack_pos_len \<and> 0 \<le> hpack_pos_len ! length n")
  case True
  then obtain l ys where "drop (nat (hpack_pos_len ! length n)) hpack_enc_stream = l # ys" "unat l = length n" "l \<noteq> 0" "walk_ok (l # ys)"
    using search_start by blast
  from enc_search_ok [OF this(1,4,2,3)] True show ?thesis by (auto simp: enc_find_def)
qed (auto simp: enc_find_def)

end
