(* ===== verification/Ring_Buffer.thy ===== *)
theory Ring_Buffer
  imports Prelude
begin

text \<open>
  HAProxy's \<open>struct buffer\<close> (\<open>include/common/buf.h\<close>): a ring of bytes of fixed size with the
  offset of its first byte and the number of bytes in it. Pointers into the area are offsets;
  \<open>size_t\<close> differences that the code takes are natural numbers where its comments bound them, and
  integers where it reads them as \<open>ssize_t\<close>. A copy that leaves the area is \<open>None\<close>.
\<close>

record ring =
  b_size :: nat
  b_area :: "byte list"
  b_data :: nat
  b_head :: nat

definition b_is_null :: "ring \<Rightarrow> bool" where "b_is_null b \<longleftrightarrow> b_size b = 0"
definition b_wrap :: "ring \<Rightarrow> nat" where "b_wrap b = b_size b"
definition b_room :: "ring \<Rightarrow> nat" where "b_room b = b_size b - b_data b"
definition b_full :: "ring \<Rightarrow> bool" where "b_full b \<longleftrightarrow> b_room b = 0"

definition b_stop_ofs :: "ring \<Rightarrow> nat" where
  "b_stop_ofs b = (let stop = b_head b + b_data b in if stop > b_size b then stop - b_size b else stop)"

definition b_peek_ofs :: "ring \<Rightarrow> nat \<Rightarrow> nat" where
  "b_peek_ofs b ofs = (let ret = b_head b + ofs in if ret \<ge> b_size b then ret - b_size b else ret)"

definition b_tail_ofs :: "ring \<Rightarrow> nat" where
  "b_tail_ofs b = b_peek_ofs b (b_data b)"

definition b_next_ofs :: "ring \<Rightarrow> nat \<Rightarrow> nat" where
  "b_next_ofs b o1 = (if o1 + 1 = b_size b then 0 else o1 + 1)"

definition b_dist :: "ring \<Rightarrow> nat \<Rightarrow> nat \<Rightarrow> int" where
  "b_dist b p q = (let dist = int q - int p in dist + (if dist < 0 then int (b_size b) else 0))"

definition b_almost_full :: "ring \<Rightarrow> bool" where
  "b_almost_full b \<longleftrightarrow> b_data b \<ge> b_size b * 3 div 4"

definition b_space_wraps :: "ring \<Rightarrow> bool" where
  "b_space_wraps b \<longleftrightarrow> \<not> b_head b \<le> 0 \<and> \<not> b_head b + b_data b \<ge> b_size b"

definition b_contig_data :: "ring \<Rightarrow> nat \<Rightarrow> nat" where
  "b_contig_data b start =
     (let data = b_wrap b - b_peek_ofs b start; limit = b_data b - start
      in if data > limit then limit else data)"

definition b_contig_space :: "ring \<Rightarrow> nat" where
  "b_contig_space b =
     (let right = int (b_head b); left = int (b_size b) - (right + int (b_data b))
      in nat (if left \<le> 0 then left + right else left))"

definition b_getblk :: "ring \<Rightarrow> nat \<Rightarrow> nat \<Rightarrow> byte list" where
  "b_getblk b len offset =
     (if len + offset > b_data b then []
      else let firstblock = b_wrap b - b_head b
           in if firstblock > offset then
                (if firstblock \<ge> len + offset then mem_read (b_area b) (b_head b + offset) len
                 else mem_read (b_area b) (b_head b + offset) (firstblock - offset)
                      @ mem_read (b_area b) 0 (len + offset - firstblock))
              else mem_read (b_area b) (offset - firstblock) len)"

text \<open>\<open>b_getblk_nc\<close>: the one or two pieces, as offset and length.\<close>

definition b_getblk_nc :: "ring \<Rightarrow> nat \<Rightarrow> nat \<Rightarrow> (nat \<times> nat) list" where
  "b_getblk_nc b ofs most =
     (if most = 0 then []
      else let blk1 = b_peek_ofs b ofs; l1 = b_wrap b - blk1
           in if l1 < most then [(blk1, l1), (0, most - l1)] else [(blk1, most)])"

definition b_reset :: "ring \<Rightarrow> ring" where
  "b_reset b = b\<lparr>b_head := 0, b_data := 0\<rparr>"

definition b_del :: "ring \<Rightarrow> nat \<Rightarrow> ring" where
  "b_del b del = (let h = b_head b + del
     in b\<lparr>b_data := b_data b - del, b_head := if h \<ge> b_size b then h - b_size b else h\<rparr>)"

definition b_realign_if_empty :: "ring \<Rightarrow> ring" where
  "b_realign_if_empty b = (if b_data b = 0 then b\<lparr>b_head := 0\<rparr> else b)"

text \<open>Copies between two areas, checked.\<close>

definition copy :: "byte list \<Rightarrow> nat \<Rightarrow> byte list \<Rightarrow> nat \<Rightarrow> nat \<Rightarrow> byte list option" where
  "copy dst d src s n = (if d + n \<le> length dst \<and> s + n \<le> length src then Some (memcpy dst d (mem_read src s n)) else None)"

text \<open>The two halves of \<open>b_slow_realign\<close> that fill the swap area.\<close>

definition b_realign_output :: "ring \<Rightarrow> byte list \<Rightarrow> nat \<Rightarrow> byte list option" where
  "b_realign_output b swap output =
     (let block1 = output; block2 = 0;
          (block1, block2) = (if block1 > b_size b - b_head b
             then (block1 - (b_size b - b_head b), b_size b - b_head b) else (block1, block2))
      in Option.bind (copy swap (b_size b - output) (b_area b) (b_head b) block1) (\<lambda>swap.
         copy swap (b_size b - block2) (b_area b) 0 block2))"

definition b_realign_input :: "ring \<Rightarrow> byte list \<Rightarrow> nat \<Rightarrow> byte list option" where
  "b_realign_input b swap output =
     (let block1 = b_data b - output; block2 = 0;
          (block1, block2) = (if block1 > b_tail_ofs b then (block1 - b_tail_ofs b, b_tail_ofs b) else (block1, block2))
      in Option.bind (copy swap 0 (b_area b) (b_peek_ofs b output) block1) (\<lambda>swap.
         copy swap block1 (b_area b) 0 block2))"

definition b_slow_realign :: "ring \<Rightarrow> byte list \<Rightarrow> nat \<Rightarrow> ring option" where
  "b_slow_realign b swap output =
     Option.bind (b_realign_output b swap output) (\<lambda>swap.
     Option.bind (b_realign_input b swap output) (\<lambda>swap.
     Option.bind (copy (b_area b) 0 swap 0 (b_data b - output)) (\<lambda>area.
     Option.bind (copy area (b_wrap b - output) swap (b_size b - output) output) (\<lambda>area.
       Some (b\<lparr>b_area := area, b_head := if output \<noteq> 0 then b_size b - output else 0\<rparr>)))))"

definition b_putchr :: "ring \<Rightarrow> byte \<Rightarrow> ring" where
  "b_putchr b c = (if b_full b then b
     else b\<lparr>b_area := (b_area b)[b_tail_ofs b := c], b_data := b_data b + 1\<rparr>)"

text \<open>\<open>__b_putblk\<close>\<close>

definition b_putblk_unchecked :: "ring \<Rightarrow> byte list \<Rightarrow> ring" where
  "b_putblk_unchecked b blk =
     (let half = b_contig_space b; half = (if half > length blk then length blk else half);
          area = memcpy (b_area b) (b_tail_ofs b) (take half blk);
          area = (if length blk > half then memcpy area (b_peek_ofs b (b_data b + half)) (drop half blk) else area)
      in b\<lparr>b_area := area, b_data := b_data b + length blk\<rparr>)"

definition b_putblk :: "ring \<Rightarrow> byte list \<Rightarrow> nat \<times> ring" where
  "b_putblk b blk =
     (let len = (if length blk > b_room b then b_room b else length blk)
      in (len, if len \<noteq> 0 then b_putblk_unchecked b (take len blk) else b))"

definition b_xfer :: "ring \<Rightarrow> ring \<Rightarrow> nat \<Rightarrow> nat \<times> ring \<times> ring" where
  "b_xfer dst src count =
     (if count = 0 then (0, dst, src)
      else let ret = b_data src
           in if ret = 0 then (ret, dst, src)
              else if \<not> ret > count \<and> b_data dst = 0 then (ret, src, dst)
              else let ret = (if ret > count then count else ret);
                       block1 = b_contig_data src 0; block1 = (if block1 > ret then ret else block1);
                       block2 = ret - block1;
                       dst1 = (if block1 \<noteq> 0 then b_putblk_unchecked dst (mem_read (b_area src) (b_head src) block1) else dst);
                       dst2 = (if block2 \<noteq> 0 then b_putblk_unchecked dst1 (mem_read (b_area src) (b_peek_ofs src block1) block2) else dst1)
                   in (ret, dst2, b_del src ret))"

text \<open>\<open>b_rep_blk\<close> with \<open>pos\<close> and \<open>end\<close> as offsets. The number of bytes to move is the difference of
  two pointers, converted to \<open>size_t\<close>: negative, it is an access far outside the area (\<open>None\<close>).\<close>

definition b_rep_blk :: "ring \<Rightarrow> nat \<Rightarrow> nat \<Rightarrow> byte list \<Rightarrow> (int \<times> ring) option" where
  "b_rep_blk b pos stop blk =
     (let delta = int (length blk) - (int stop - int pos); tail = int (b_tail_ofs b)
      in if int (b_head b + b_data b) + delta > int (b_wrap b) then Some (0, b)
         else if b_data b \<noteq> 0 \<and> tail + delta > int (b_head b) \<and> b_head b \<ge> b_tail_ofs b then Some (0, b)
         else if tail < int stop then None
         else Option.bind (copy (b_area b) (nat (int stop + delta)) (b_area b) stop (nat (tail - int stop))) (\<lambda>area.
              Option.bind (if length blk \<noteq> 0 then copy area pos blk 0 (length blk) else Some area) (\<lambda>area.
              Some (delta, b_realign_if_empty (b\<lparr>b_area := area, b_data := nat (int (b_data b) + delta)\<rparr>)))))"

section \<open>Content\<close>

text \<open>The bytes of the ring in order, by position; the invariant keeps all offsets inside the area.\<close>

definition ring_ok :: "ring \<Rightarrow> bool" where
  "ring_ok b \<longleftrightarrow> length (b_area b) = b_size b \<and> b_data b \<le> b_size b \<and> b_head b < b_size b"

definition b_bytes :: "ring \<Rightarrow> byte list" where
  "b_bytes b = map (\<lambda>i. b_area b ! b_peek_ofs b i) [0..<b_data b]"

lemma length_b_bytes [simp]: "length (b_bytes b) = b_data b"
  by (simp add: b_bytes_def)

lemma nth_b_bytes: "i < b_data b \<Longrightarrow> b_bytes b ! i = b_area b ! b_peek_ofs b i"
  by (simp add: b_bytes_def)

lemma nth_memcpy: "p + length xs \<le> length b \<Longrightarrow> j < length b \<Longrightarrow>
    memcpy b p xs ! j = (if p \<le> j \<and> j < p + length xs then xs ! (j - p) else b ! j)"
  by (auto simp: memcpy_def nth_append min_def)

lemma nth_mem_read: "p + n \<le> length b \<Longrightarrow> i < n \<Longrightarrow> mem_read b p n ! i = b ! (p + i)"
  by (simp add: mem_read_def)

lemma peek_eq: "b_peek_ofs b i = (if b_head b + i < b_size b then b_head b + i else b_head b + i - b_size b)"
  by (simp add: b_peek_ofs_def Let_def)

lemma b_bytes_eqI:
  assumes "b_data b = length xs" "\<And>i. i < length xs \<Longrightarrow> b_area b ! b_peek_ofs b i = xs ! i"
  shows "b_bytes b = xs"
  using assms by (auto intro: nth_equalityI simp: nth_b_bytes)

text \<open>Reading.\<close>

lemma getblk_bytes:
  assumes ok: "ring_ok b" and len: "off + n \<le> b_data b"
  shows "b_getblk b n off = take n (drop off (b_bytes b))"
proof (rule nth_equalityI)
  show l: "length (b_getblk b n off) = length (take n (drop off (b_bytes b)))"
    using ok len by (auto simp: b_getblk_def Let_def ring_ok_def b_wrap_def mem_read_def)
  fix i
  assume "i < length (b_getblk b n off)"
  then have i: "i < n" using l len by simp
  then show "b_getblk b n off ! i = take n (drop off (b_bytes b)) ! i"
    using ok len by (auto simp: b_getblk_def Let_def ring_ok_def b_wrap_def nth_b_bytes peek_eq nth_append nth_mem_read ac_simps)
qed

text \<open>Skipping.\<close>

lemma del_bytes:
  assumes ok: "ring_ok b" and n: "n \<le> b_data b"
  shows "ring_ok (b_del b n) \<and> b_bytes (b_del b n) = drop n (b_bytes b)"
proof
  show "ring_ok (b_del b n)" using ok n by (auto simp: ring_ok_def b_del_def Let_def)
  show "b_bytes (b_del b n) = drop n (b_bytes b)"
    by (rule b_bytes_eqI) (use ok n in \<open>auto simp: nth_b_bytes b_del_def Let_def peek_eq ring_ok_def add.assoc\<close>)
qed

text \<open>Appending.\<close>

lemma contig_space:
  assumes "ring_ok b"
  shows "b_contig_space b = (if b_head b + b_data b < b_size b then b_size b - (b_head b + b_data b) else b_size b - b_data b)"
  using assms by (auto simp: b_contig_space_def Let_def ring_ok_def)

lemma putblk_bytes:
  assumes ok: "ring_ok b" and len: "length blk \<le> b_room b"
  shows "ring_ok (b_putblk_unchecked b blk) \<and> b_bytes (b_putblk_unchecked b blk) = b_bytes b @ blk
    \<and> b_size (b_putblk_unchecked b blk) = b_size b"
proof (intro conjI)
  have space: "b_data b + length blk \<le> b_size b" using len ok by (auto simp: b_room_def ring_ok_def)
  show "ring_ok (b_putblk_unchecked b blk)"
    using ok space by (auto simp: ring_ok_def b_putblk_unchecked_def Let_def contig_space [OF ok] b_tail_ofs_def peek_eq)
  show "b_size (b_putblk_unchecked b blk) = b_size b" by (simp add: b_putblk_unchecked_def Let_def)
  show "b_bytes (b_putblk_unchecked b blk) = b_bytes b @ blk"
  proof (rule b_bytes_eqI)
    show "b_data (b_putblk_unchecked b blk) = length (b_bytes b @ blk)" by (simp add: b_putblk_unchecked_def Let_def)
    fix i
    assume "i < length (b_bytes b @ blk)"
    then have i: "i < b_data b + length blk" by simp
    show "b_area (b_putblk_unchecked b blk) ! b_peek_ofs (b_putblk_unchecked b blk) i = (b_bytes b @ blk) ! i"
      using ok space i
      by (auto simp: ring_ok_def b_putblk_unchecked_def Let_def contig_space [OF ok] b_tail_ofs_def peek_eq
          nth_append nth_b_bytes nth_memcpy)
  qed
qed

lemma putblk_truncates:
  assumes ok: "ring_ok b" and eq: "b_putblk b blk = (n, b')"
  shows "n = min (length blk) (b_room b) \<and> ring_ok b' \<and> b_bytes b' = b_bytes b @ take n blk \<and> b_size b' = b_size b"
  using putblk_bytes [OF ok, of "take n blk"] eq ok by (auto simp: b_putblk_def Let_def min_def split: if_splits)

lemma putchr_putblk:
  assumes ok: "ring_ok b"
  shows "b_putchr b c = snd (b_putblk b [c])"
proof (cases "b_full b")
  case True
  then show ?thesis by (simp add: b_putchr_def b_putblk_def b_full_def Let_def)
next
  case False
  then have "b_contig_space b \<ge> 1" using ok by (auto simp: contig_space [OF ok] b_full_def b_room_def ring_ok_def)
  then have "b_putblk_unchecked b [c] = b\<lparr>b_area := memcpy (b_area b) (b_tail_ofs b) [c], b_data := b_data b + 1\<rparr>"
    by (simp add: b_putblk_unchecked_def Let_def)
  moreover have "b_tail_ofs b < length (b_area b)"
    using ok False by (auto simp: b_tail_ofs_def peek_eq ring_ok_def b_full_def b_room_def)
  then have "memcpy (b_area b) (b_tail_ofs b) [c] = (b_area b)[b_tail_ofs b := c]"
    by (simp add: memcpy_def upd_conv_take_nth_drop)
  ultimately show ?thesis using False by (auto simp: b_putchr_def b_putblk_def b_full_def Let_def)
qed

text \<open>Moving bytes from one ring to another.\<close>

lemma contig_read:
  assumes ok: "ring_ok b" and n: "n \<le> b_contig_data b 0"
  shows "mem_read (b_area b) (b_head b) n = take n (b_bytes b)" "n \<le> b_data b"
proof -
  have le: "n \<le> b_data b" "b_head b + n \<le> b_size b"
    using n ok by (auto simp: b_contig_data_def Let_def b_wrap_def peek_eq ring_ok_def split: if_splits)
  then show "n \<le> b_data b" by simp
  show "mem_read (b_area b) (b_head b) n = take n (b_bytes b)"
    by (rule nth_equalityI) (use le ok in \<open>auto simp: nth_mem_read nth_b_bytes peek_eq ring_ok_def\<close>)
qed

lemma wrapped_read:
  assumes ok: "ring_ok b" and n: "k + n \<le> b_data b" "b_head b + k = b_size b \<or> n = 0"
  shows "mem_read (b_area b) (b_peek_ofs b k) n = take n (drop k (b_bytes b))"
  by (rule nth_equalityI) (use n ok in \<open>auto simp: nth_mem_read nth_b_bytes peek_eq ring_ok_def mem_read_def simp flip: add.assoc\<close>)

lemma xfer_bytes:
  assumes ok: "ring_ok dst" "ring_ok src" and room: "count \<le> b_room dst"
    and eq: "b_xfer dst src count = (n, dst', src')"
  shows "n = min count (b_data src) \<and> ring_ok dst' \<and> ring_ok src'
    \<and> b_bytes dst' = b_bytes dst @ take n (b_bytes src) \<and> b_bytes src' = drop n (b_bytes src)"
proof -
  consider "count = 0 \<or> b_data src = 0" | "count \<noteq> 0" "b_data src \<noteq> 0" "b_data src \<le> count" "b_data dst = 0"
    | "count \<noteq> 0" "b_data src \<noteq> 0" "\<not> (b_data src \<le> count \<and> b_data dst = 0)" by auto
  then show ?thesis
  proof cases
    case 1
    then have "b_xfer dst src count = (0, dst, src)" by (cases "count = 0") (simp_all add: b_xfer_def)
    with 1 eq ok show ?thesis by (auto simp: b_bytes_def)
  next
    case 2
    then have "b_xfer dst src count = (b_data src, src, dst)" by (simp add: b_xfer_def Let_def)
    with 2 eq ok show ?thesis by (auto simp: b_bytes_def)
  next
    case 3
    define ret where "ret = (if b_data src > count then count else b_data src)"
    define k1 where "k1 = (if b_contig_data src 0 > ret then ret else b_contig_data src 0)"
    define d1 where "d1 = (if k1 \<noteq> 0 then b_putblk_unchecked dst (mem_read (b_area src) (b_head src) k1) else dst)"
    define d2 where "d2 = (if ret - k1 \<noteq> 0 then b_putblk_unchecked d1 (mem_read (b_area src) (b_peek_ofs src k1) (ret - k1)) else d1)"
    have e: "n = ret" "dst' = d2" "src' = b_del src ret"
      using eq 3 by (auto simp: b_xfer_def Let_def ret_def k1_def d1_def d2_def split: if_splits)
    have ret: "ret \<le> b_data src" "ret = min count (b_data src)" "ret \<le> b_room dst"
      using room by (auto simp: ret_def min_def)
    have k1: "k1 \<le> ret" "k1 \<le> b_contig_data src 0" by (auto simp: k1_def)
    note r1 = contig_read [OF ok(2) k1(2)]
    have cd: "b_contig_data src 0 = (if b_size src - b_head src > b_data src then b_data src else b_size src - b_head src)"
      using ok(2) by (simp add: b_contig_data_def Let_def b_wrap_def peek_eq ring_ok_def)
    have "b_head src + k1 = b_size src \<or> ret - k1 = 0"
      using k1 ret(1) ok(2) unfolding cd k1_def by (auto simp: ring_ok_def cd split: if_splits)
    then have r2: "mem_read (b_area src) (b_peek_ofs src k1) (ret - k1) = take (ret - k1) (drop k1 (b_bytes src))"
      by (intro wrapped_read [OF ok(2)]) (use k1 ret in auto)
    have d1: "ring_ok d1 \<and> b_bytes d1 = b_bytes dst @ take k1 (b_bytes src) \<and> b_size d1 = b_size dst"
      using putblk_bytes [OF ok(1), of "take k1 (b_bytes src)"] r1 k1(1) ret ok(1) by (auto simp: d1_def)
    then have "b_data d1 = b_data dst + k1" using r1(2) by (metis length_append length_b_bytes length_take min.absorb2)
    then have "ret - k1 \<le> b_room d1" using ret k1 d1 by (simp add: b_room_def)
    then have d2: "ring_ok d2 \<and> b_bytes d2 = b_bytes dst @ take k1 (b_bytes src) @ take (ret - k1) (drop k1 (b_bytes src))"
      using putblk_bytes [of d1 "take (ret - k1) (drop k1 (b_bytes src))"] r2 d1 by (auto simp: d2_def)
    have "take k1 (b_bytes src) @ take (ret - k1) (drop k1 (b_bytes src)) = take ret (b_bytes src)"
      using k1(1) by (metis le_add_diff_inverse take_add)
    with d2 e ret del_bytes [OF ok(2) ret(1)] show ?thesis by auto
  qed
qed

text \<open>Realigning.\<close>

lemma copy_Some: "d + n \<le> length dst \<Longrightarrow> s + n \<le> length src \<Longrightarrow>
    copy dst d src s n = Some (memcpy dst d (mem_read src s n))"
  by (simp add: copy_def)

lemma copy_0: "d \<le> length dst \<Longrightarrow> s \<le> length src \<Longrightarrow> copy dst d src s 0 = Some dst"
  by (simp add: copy_def mem_read_def)

lemma peek_read:
  assumes ok: "ring_ok b" and n: "k + n \<le> b_data b"
    and c: "b_head b + k + n \<le> b_size b \<or> b_size b \<le> b_head b + k"
  shows "mem_read (b_area b) (b_peek_ofs b k) n = take n (drop k (b_bytes b))" "b_peek_ofs b k + n \<le> b_size b"
proof -
  show le: "b_peek_ofs b k + n \<le> b_size b" using assms by (auto simp: peek_eq ring_ok_def)
  show "mem_read (b_area b) (b_peek_ofs b k) n = take n (drop k (b_bytes b))"
  proof (rule nth_equalityI)
    show "length (mem_read (b_area b) (b_peek_ofs b k) n) = length (take n (drop k (b_bytes b)))"
      using le n ok by (simp add: ring_ok_def)
    fix i
    assume "i < length (mem_read (b_area b) (b_peek_ofs b k) n)"
    then have i: "i < n" using le ok by (simp add: ring_ok_def)
    have "b_peek_ofs b k + i = b_peek_ofs b (k + i)"
      using c i by (auto simp: peek_eq)
    then show "mem_read (b_area b) (b_peek_ofs b k) n ! i = take n (drop k (b_bytes b)) ! i"
      using i le n ok by (simp add: nth_mem_read nth_b_bytes ring_ok_def)
  qed
qed

text \<open>The input part is copied right in every case.\<close>

lemma realign_input:
  assumes ok: "ring_ok b" and out: "output \<le> b_data b" and sw: "b_size b \<le> length swap"
  shows "b_realign_input b swap output = Some (memcpy swap 0 (drop output (b_bytes b)))"
proof -
  let ?n = "b_data b - output"
  have t: "b_tail_ofs b = (if b_head b + b_data b < b_size b then b_head b + b_data b else b_head b + b_data b - b_size b)"
    by (simp add: b_tail_ofs_def peek_eq)
  have len: "length (b_area b) = b_size b" "b_data b \<le> b_size b" "b_head b < b_size b" using ok by (simp_all add: ring_ok_def)
  show ?thesis
  proof (cases "?n > b_tail_ofs b")
    case False
    have c: "b_head b + output + ?n \<le> b_size b \<or> b_size b \<le> b_head b + output"
      using False out len by (auto simp: t split: if_splits)
    note r = peek_read [OF ok _ c]
    have "take ?n (drop output (b_bytes b)) = drop output (b_bytes b)" by simp
    then show ?thesis using False r out len sw by (auto simp: b_realign_input_def Let_def copy_def mem_read_def)
  next
    case True
    let ?k = "?n - b_tail_ofs b"
    have w: "b_head b + output + ?k \<le> b_size b \<or> b_size b \<le> b_head b + output" "output + ?k \<le> b_data b"
      "b_tail_ofs b = 0 \<or> b_head b + (output + ?k) = b_size b"
      using True out len by (auto simp: t split: if_splits)
    note r1 = peek_read [OF ok w(2) w(1)]
    have pk: "b_tail_ofs b = 0 \<or> b_peek_ofs b (output + ?k) = 0" using w(3) by (auto simp: peek_eq)
    have r2: "mem_read (b_area b) 0 (b_tail_ofs b) = drop ?k (drop output (b_bytes b))"
    proof (cases "b_tail_ofs b = 0")
      case t0: True
      then show ?thesis using out by (simp add: mem_read_def)
    next
      case f: False
      then have p0: "b_peek_ofs b (output + ?k) = 0" using pk by simp
      have "(output + ?k) + b_tail_ofs b \<le> b_data b" "b_size b \<le> b_head b + (output + ?k)" using True out f w(3) by auto
      from peek_read(1) [OF ok this(1)] this(2) p0
      have "mem_read (b_area b) 0 (b_tail_ofs b) = take (b_tail_ofs b) (drop (output + ?k) (b_bytes b))" by simp
      moreover have "b_data b - (output + ?k) = b_tail_ofs b" using True out by simp
      ultimately show ?thesis by (simp add: add.commute)
    qed
    have m: "memcpy (memcpy swap 0 xs) (length xs) ys = memcpy swap 0 (xs @ ys)" for xs ys :: "byte list"
      by (simp add: memcpy_def add.commute)
    have "copy (memcpy swap 0 (take ?k (drop output (b_bytes b)))) ?k (b_area b) 0 (b_tail_ofs b)
        = Some (memcpy swap 0 (drop output (b_bytes b)))"
    proof -
      have l: "length (take ?k (drop output (b_bytes b))) = ?k" using True by simp
      have "b_tail_ofs b \<le> b_size b" using len by (auto simp: t)
      then have "copy (memcpy swap 0 (take ?k (drop output (b_bytes b)))) ?k (b_area b) 0 (b_tail_ofs b)
          = Some (memcpy (memcpy swap 0 (take ?k (drop output (b_bytes b)))) ?k (drop ?k (drop output (b_bytes b))))"
        using r2 True sw len out by (subst copy_Some) auto
      also have "memcpy (memcpy swap 0 (take ?k (drop output (b_bytes b)))) ?k (drop ?k (drop output (b_bytes b)))
          = memcpy swap 0 (drop output (b_bytes b))"
        using m [of "take ?k (drop output (b_bytes b))" "drop ?k (drop output (b_bytes b))"] unfolding l append_take_drop_id .
      finally show ?thesis .
    qed
    then show ?thesis using True r1 len sw out by (simp add: b_realign_input_def Let_def copy_Some)
  qed
qed

lemma realign_output:
  assumes ok: "ring_ok b" and out: "output \<le> b_data b" and sw: "b_size b \<le> length swap"
    and nw: "b_head b + output \<le> b_size b"
  shows "b_realign_output b swap output = Some (memcpy swap (b_size b - output) (take output (b_bytes b)))"
proof -
  have len: "length (b_area b) = b_size b" "b_data b \<le> b_size b" "b_head b < b_size b" using ok by (simp_all add: ring_ok_def)
  have "mem_read (b_area b) (b_head b) output = take output (b_bytes b)"
    using peek_read(1) [OF ok, where k = 0 and n = "output"] out nw len by (simp add: peek_eq)
  then show ?thesis using len out sw nw by (simp add: b_realign_output_def Let_def copy_Some copy_0)
qed

lemma slow_realign_bytes:
  assumes ok: "ring_ok b" and out: "output \<le> b_data b" and sw: "b_size b \<le> length swap"
    and nw: "b_head b + output \<le> b_size b"
  shows "\<exists>b'. b_slow_realign b swap output = Some b' \<and> ring_ok b' \<and> b_bytes b' = b_bytes b
    \<and> b_head b' = (if output \<noteq> 0 then b_size b - output else 0)"
proof -
  have len: "length (b_area b) = b_size b" "b_data b \<le> b_size b" "b_head b < b_size b" using ok by (simp_all add: ring_ok_def)
  let ?o = "take output (b_bytes b)" and ?i = "drop output (b_bytes b)"
  define s1 where "s1 = memcpy swap (b_size b - output) ?o"
  define s2 where "s2 = memcpy s1 0 ?i"
  have ls: "length s1 = length swap" "length s2 = length swap" using out len sw by (simp_all add: s1_def s2_def)
  have r1: "mem_read s2 0 (b_data b - output) = ?i"
    using mem_read_memcpy_same [of 0 ?i s1] ls out len sw by (simp add: s2_def)
  have r2: "mem_read s2 (b_size b - output) output = ?o"
  proof -
    have "mem_read s2 (b_size b - output) output = mem_read s1 (b_size b - output) output"
      unfolding s2_def using ls out len sw by (simp add: mem_read_def memcpy_def)
    also have "\<dots> = ?o" using mem_read_memcpy_same [of "b_size b - output" ?o swap] out len sw by (simp add: s1_def)
    finally show ?thesis .
  qed
  define a1 where "a1 = memcpy (b_area b) 0 ?i"
  define a2 where "a2 = memcpy a1 (b_size b - output) ?o"
  have la: "length a1 = b_size b" "length a2 = b_size b" using out len by (simp_all add: a1_def a2_def)
  define b' where "b' = b\<lparr>b_area := a2, b_head := if output \<noteq> 0 then b_size b - output else 0\<rparr>"
  have "b_slow_realign b swap output = Some b'"
    using realign_output [OF ok out sw nw] realign_input [OF ok out, of s1] ls sw out len r1 r2 la
    by (simp add: b_slow_realign_def copy_Some b_wrap_def b'_def a1_def a2_def flip: s1_def s2_def)
  moreover have "ring_ok b'" using len la by (auto simp: ring_ok_def b'_def)
  moreover have "b_bytes b' = b_bytes b"
  proof (rule b_bytes_eqI)
    show "b_data b' = length (b_bytes b)" by (simp add: b'_def)
    fix i
    assume "i < length (b_bytes b)"
    then have i: "i < b_data b" by simp
    show "b_area b' ! b_peek_ofs b' i = b_bytes b ! i"
      using i out len la by (auto simp: b'_def peek_eq a2_def a1_def nth_memcpy)
  qed
  ultimately show ?thesis by (auto simp: b'_def)
qed

text \<open>Replacing a block inside the data.\<close>

lemma rep_blk_bytes:
  assumes ok: "ring_ok b" and p: "b_head b \<le> pos" "pos \<le> stop" "stop \<le> b_head b + b_data b"
    and tail: "b_head b + b_data b < b_size b"
    and fits: "b_head b + b_data b + length blk \<le> b_size b + (stop - pos)"
  shows "\<exists>b'. b_rep_blk b pos stop blk = Some (int (length blk) - int (stop - pos), b') \<and> ring_ok b'
    \<and> b_bytes b' = take (pos - b_head b) (b_bytes b) @ blk @ drop (stop - b_head b) (b_bytes b)"
proof -
  have len: "length (b_area b) = b_size b" using ok by (simp add: ring_ok_def)
  let ?n = "length blk" and ?d = "b_data b + length blk - (stop - pos)"
  have t: "b_tail_ofs b = b_head b + b_data b" using tail by (simp add: b_tail_ofs_def peek_eq)
  define rest where "rest = mem_read (b_area b) stop (b_head b + b_data b - stop)"
  define a1 where "a1 = memcpy (b_area b) (pos + ?n) rest"
  define a2 where "a2 = memcpy a1 pos blk"
  have lr: "length rest = b_head b + b_data b - stop" using tail len p by (simp add: rest_def)
  have la: "length a1 = b_size b" "length a2 = b_size b" using lr len p tail fits by (auto simp: a1_def a2_def)
  define b1 where "b1 = b\<lparr>b_area := a2, b_data := ?d\<rparr>"
  define D where "D = int ?n - (int stop - int pos)"
  have D: "nat (int (b_data b) + D) = ?d" "nat (int stop + D) = pos + ?n" "D = int ?n - int (stop - pos)"
    using p by (auto simp: D_def)
  have "\<not> int (b_head b + b_data b) + D > int (b_wrap b)"
    using fits p by (simp add: b_wrap_def D_def)
  moreover have "\<not> (b_data b \<noteq> 0 \<and> int (b_tail_ofs b) + D > int (b_head b) \<and> b_head b \<ge> b_tail_ofs b)"
    using D(1) p by (auto simp: t D_def)
  moreover have "copy (b_area b) (pos + ?n) (b_area b) stop (nat (int (b_tail_ofs b) - int stop)) = Some a1"
  proof -
    have "nat (int (b_tail_ofs b) - int stop) = b_head b + b_data b - stop" unfolding t by arith
    then show ?thesis using p tail len fits by (simp add: copy_def a1_def rest_def)
  qed
  moreover have "(if ?n \<noteq> 0 then copy a1 pos blk 0 ?n else Some a1) = Some a2"
    using p fits tail la by (auto simp: a2_def copy_def mem_read_def)
  moreover have "\<not> int (b_tail_ofs b) < int stop" using p by (simp add: t)
  ultimately have "b_rep_blk b pos stop blk = Some (D, b_realign_if_empty b1)"
    unfolding b_rep_blk_def Let_def D_def [symmetric] D(1,2) by (simp only: if_False bind.bind_lunit b1_def refl)
  then have "b_rep_blk b pos stop blk = Some (int ?n - int (stop - pos), b_realign_if_empty b1)"
    using D(3) by simp
  moreover have "ring_ok b1" using ok la p fits tail by (auto simp: ring_ok_def b1_def)
  then have "ring_ok (b_realign_if_empty b1)" by (auto simp: ring_ok_def b_realign_if_empty_def)
  moreover have "b_bytes b1 = take (pos - b_head b) (b_bytes b) @ blk @ drop (stop - b_head b) (b_bytes b)"
  proof (rule b_bytes_eqI)
    show "b_data b1 = length (take (pos - b_head b) (b_bytes b) @ blk @ drop (stop - b_head b) (b_bytes b))"
      using p by (simp add: b1_def)
    fix i
    assume "i < length (take (pos - b_head b) (b_bytes b) @ blk @ drop (stop - b_head b) (b_bytes b))"
    then have i: "i < ?d" using p by simp
    then have pk: "b_peek_ofs b1 i = b_head b + i" using fits p tail by (auto simp: b1_def peek_eq)
    have le: "b_head b + i < b_size b" using i fits p by linarith
    have a1i: "a1 ! (b_head b + i) = (if pos + ?n \<le> b_head b + i then b_area b ! (b_head b + i + (stop - pos) - ?n) else b_area b ! (b_head b + i))"
      using i le lr len p tail fits by (auto simp: a1_def nth_memcpy rest_def nth_mem_read intro!: arg_cong2 [where f = nth])
    have a2i: "a2 ! (b_head b + i) = (if pos \<le> b_head b + i \<and> b_head b + i < pos + ?n then blk ! (b_head b + i - pos) else a1 ! (b_head b + i))"
      using le la p fits tail by (auto simp: a2_def nth_memcpy)
    consider "b_head b + i < pos" | "pos \<le> b_head b + i" "b_head b + i < pos + ?n" | "pos + ?n \<le> b_head b + i" by linarith
    then show "b_area b1 ! b_peek_ofs b1 i = (take (pos - b_head b) (b_bytes b) @ blk @ drop (stop - b_head b) (b_bytes b)) ! i"
    proof cases
      case 1
      then have "i < pos - b_head b" "i < b_data b" using p by auto
      then show ?thesis using 1 p tail unfolding pk by (simp add: b1_def a2i a1i nth_append nth_b_bytes peek_eq)
    next
      case 2
      define k where "k = i - (pos - b_head b)"
      have k: "i = (pos - b_head b) + k" "k < ?n" "b_head b + i - pos = k" using 2 p by (auto simp: k_def)
      have "(take (pos - b_head b) (b_bytes b) @ blk @ drop (stop - b_head b) (b_bytes b)) ! ((pos - b_head b) + k) = blk ! k"
        using p k(2) by (auto simp: nth_append)
      moreover have "b_area b1 ! b_peek_ofs b1 i = blk ! k" using 2 k(3) unfolding pk by (simp add: b1_def a2i)
      ultimately show ?thesis using k(1) by simp
    next
      case 3
      define k where "k = i - (pos - b_head b) - ?n"
      have k: "i = (pos - b_head b) + ?n + k" "stop - b_head b + k < b_data b" using 3 p i by (auto simp: k_def)
      have "b_area b1 ! b_peek_ofs b1 i = b_area b ! (b_head b + i + (stop - pos) - ?n)"
        using 3 unfolding pk by (simp add: b1_def a2i a1i)
      also have "b_head b + i + (stop - pos) - ?n = b_head b + (stop - b_head b + k)" using k p by simp
      also have "b_area b ! \<dots> = b_bytes b ! (stop - b_head b + k)" using k(2) tail by (simp add: nth_b_bytes peek_eq)
      also have "\<dots> = (take (pos - b_head b) (b_bytes b) @ blk @ drop (stop - b_head b) (b_bytes b)) ! i"
        using k p by (auto simp: nth_append)
      finally show ?thesis .
    qed
  qed
  then have "b_bytes (b_realign_if_empty b1) = take (pos - b_head b) (b_bytes b) @ blk @ drop (stop - b_head b) (b_bytes b)"
    by (cases "b_data b1 = 0") (auto simp: b_realign_if_empty_def b_bytes_def)
  ultimately show ?thesis by blast
qed

text \<open>When the data ends exactly at the end of the area, its tail is offset 0, and shortening it is fatal.\<close>

lemma rep_blk_at_end:
  assumes "b_head b + b_data b = b_size b" "0 < stop" "pos + length blk \<le> stop"
  shows "b_rep_blk b pos stop blk = None"
  using assms by (simp add: b_rep_blk_def Let_def b_tail_ofs_def peek_eq b_wrap_def)

section \<open>A ring of buffers\<close>

text \<open>
  The second use of \<open>struct buffer\<close>: an array of buffers whose first entry holds the bounds. \<open>size\<close>
  counts the root; slots 1 to \<open>size - 1\<close> are used, from \<open>head\<close> to \<open>tail\<close>, both included.
\<close>

record buffer_ring =
  br_size :: nat
  br_head :: nat
  br_tail :: nat
  br_slots :: "ring list"

definition BUF_NULL :: ring where
  "BUF_NULL = \<lparr>b_size = 0, b_area = [], b_data = 0, b_head = 0\<rparr>"

definition br_init :: "ring list \<Rightarrow> nat \<Rightarrow> buffer_ring" where
  "br_init mem n = \<lparr>br_size = n, br_head = 1, br_tail = 1, br_slots = mem[1 := BUF_NULL]\<rparr>"

definition br_full :: "buffer_ring \<Rightarrow> bool" where
  "br_full r \<longleftrightarrow> br_tail r + 1 = br_head r \<or> br_tail r + 1 = br_head r - 1 + br_size r"

definition br_has_room :: "buffer_ring \<Rightarrow> bool" where
  "br_has_room r \<longleftrightarrow> \<not> br_full r \<or> b_room (br_slots r ! br_tail r) \<noteq> 0"

definition br_next :: "buffer_ring \<Rightarrow> nat \<Rightarrow> nat" where
  "br_next r i = (if i + 1 \<ge> br_size r then 1 else i + 1)"

text \<open>\<open>br_tail_add\<close>: the new tail, or \<open>None\<close> (\<open>NULL\<close>).\<close>

definition br_tail_add :: "buffer_ring \<Rightarrow> ring option \<times> buffer_ring" where
  "br_tail_add r =
     (if b_size (br_slots r ! br_tail r) = 0 then (None, r)
      else if br_full r then (None, r)
      else let t = br_next r (br_tail r)
           in (Some BUF_NULL, r\<lparr>br_tail := t, br_slots := (br_slots r)[t := BUF_NULL]\<rparr>))"

definition br_head_pick :: "buffer_ring \<Rightarrow> ring \<times> buffer_ring" where
  "br_head_pick r =
     (br_slots r ! br_head r, if br_head r \<noteq> br_tail r then r\<lparr>br_head := br_next r (br_head r)\<rparr> else r)"

definition br_del_head :: "buffer_ring \<Rightarrow> ring \<times> buffer_ring" where
  "br_del_head r =
     (let r1 = (if br_head r \<noteq> br_tail r then r\<lparr>br_head := br_next r (br_head r)\<rparr> else r)
      in (br_slots r1 ! br_head r1, r1))"

definition br_ok :: "buffer_ring \<Rightarrow> bool" where
  "br_ok r \<longleftrightarrow> 2 \<le> br_size r \<and> length (br_slots r) = br_size r
     \<and> 1 \<le> br_head r \<and> br_head r < br_size r \<and> 1 \<le> br_tail r \<and> br_tail r < br_size r"

definition br_count :: "buffer_ring \<Rightarrow> nat" where
  "br_count r = (if br_head r \<le> br_tail r then br_tail r - br_head r + 1 else br_tail r + br_size r - br_head r)"

definition br_buffers :: "buffer_ring \<Rightarrow> ring list" where
  "br_buffers r = (if br_head r \<le> br_tail r then map ((!) (br_slots r)) [br_head r..<Suc (br_tail r)]
     else map ((!) (br_slots r)) ([br_head r..<br_size r] @ [1..<Suc (br_tail r)]))"

lemma br_buffers_length: "br_ok r \<Longrightarrow> length (br_buffers r) = br_count r"
  by (auto simp: br_buffers_def br_count_def br_ok_def)

lemma br_full_count: "br_ok r \<Longrightarrow> br_full r \<longleftrightarrow> br_count r = br_size r - 1"
  by (auto simp: br_full_def br_count_def br_ok_def)

lemma br_tail_add_ok:
  assumes ok: "br_ok r" and sz: "b_size (br_slots r ! br_tail r) \<noteq> 0" "\<not> br_full r"
  shows "\<exists>r'. br_tail_add r = (Some BUF_NULL, r') \<and> br_ok r' \<and> br_buffers r' = br_buffers r @ [BUF_NULL]"
proof -
  let ?t = "br_next r (br_tail r)"
  define r' where "r' = r\<lparr>br_tail := ?t, br_slots := (br_slots r)[?t := BUF_NULL]\<rparr>"
  have "br_ok r'" using ok by (auto simp: br_ok_def r'_def br_next_def)
  moreover have "br_buffers r' = br_buffers r @ [BUF_NULL]"
  proof (cases "br_tail r + 1 < br_size r")
    case True
    then show ?thesis using ok sz(2)
      by (auto simp: br_ok_def r'_def br_next_def br_full_def br_buffers_def nth_list_update)
  next
    case False
    then have "br_tail r + 1 = br_size r" "br_head r \<noteq> 1" using ok sz(2) by (auto simp: br_ok_def br_full_def)
    then show ?thesis using ok False
      by (auto simp: br_ok_def r'_def br_next_def br_buffers_def nth_list_update)
  qed
  ultimately show ?thesis using sz by (simp add: br_tail_add_def r'_def Let_def)
qed

lemma br_del_head_ok:
  assumes ok: "br_ok r"
  shows "case br_del_head r of (b, r') \<Rightarrow> br_ok r' \<and> b = hd (br_buffers r')
    \<and> br_buffers r' = (if br_count r = 1 then br_buffers r else tl (br_buffers r))"
proof -
  consider "br_head r = br_tail r" | "br_head r < br_tail r" | "br_tail r < br_head r" by linarith
  then show ?thesis
  proof cases
    case 1
    then show ?thesis using ok by (simp add: br_del_head_def br_buffers_def br_count_def)
  next
    case 2
    then have "[br_head r..<Suc (br_tail r)] = br_head r # Suc (br_head r) # [Suc (Suc (br_head r))..<Suc (br_tail r)]"
      by (simp add: upt_conv_Cons)
    with 2 ok show ?thesis
      by (auto simp: br_del_head_def br_buffers_def br_count_def br_next_def br_ok_def upt_conv_Cons simp del: upt_Suc)
  next
    case 3
    with ok show ?thesis
      by (auto simp: br_del_head_def br_buffers_def br_count_def br_next_def br_ok_def upt_conv_Cons Suc_le_eq simp del: upt_Suc)
  qed
qed

section \<open>Properties\<close>

text \<open>C24: A ring refines a bounded byte queue: appending a block stores as much of it as there is room
  for, at the end, wrapping where needed; reading a block at an offset gives those bytes, skipping drops
  them, and appending one character is appending a block of one.\<close>
theorem ring_refines_queue:
  assumes ok: "ring_ok b"
  shows "(case b_putblk b blk of (n, b') \<Rightarrow> n = min (length blk) (b_room b) \<and> ring_ok b' \<and> b_size b' = b_size b
       \<and> b_bytes b' = b_bytes b @ take n blk)
    \<and> b_putchr b c = snd (b_putblk b [c])
    \<and> (off + k \<le> b_data b \<longrightarrow> b_getblk b k off = take k (drop off (b_bytes b)))
    \<and> (k \<le> b_data b \<longrightarrow> ring_ok (b_del b k) \<and> b_bytes (b_del b k) = drop k (b_bytes b))"
  using putblk_truncates [OF ok surjective_pairing, of blk] putchr_putblk [OF ok] getblk_bytes [OF ok] del_bytes [OF ok]
  by (simp add: case_prod_beta)

definition wrapped_ring :: ring where
  "wrapped_ring = \<lparr>b_size = 5, b_area = [4, 0, 1, 2, 3], b_data = 4, b_head = 2\<rparr>"

lemma wrapped_ring: "ring_ok wrapped_ring" "b_bytes wrapped_ring = [1, 2, 3, 4]"
  by (simp_all add: wrapped_ring_def ring_ok_def b_bytes_def peek_eq upt_rec)

theorem ring_refines_queue_witness:
  "b_getblk wrapped_ring 2 1 = [2, 3] \<and> fst (b_putblk wrapped_ring [7, 8]) = 1"
  using ring_refines_queue [OF wrapped_ring(1), of "[7, 8]" 0 1 2] wrapped_ring
  by (simp add: case_prod_beta wrapped_ring_def b_room_def)

text \<open>\<open>b_xfer\<close> moves the first bytes of one ring behind those of another, as many as asked for and
  present, whether it copies around two wrapping points or swaps the two rings.\<close>
lemma xfer_moves:
  assumes "ring_ok dst" "ring_ok src" "count \<le> b_room dst"
  shows "case b_xfer dst src count of (n, dst', src') \<Rightarrow> n = min count (b_data src) \<and> ring_ok dst' \<and> ring_ok src'
    \<and> b_bytes dst' = b_bytes dst @ take n (b_bytes src) \<and> b_bytes src' = drop n (b_bytes src)"
proof -
  obtain n dst' src' where e: "b_xfer dst src count = (n, dst', src')" by (cases "b_xfer dst src count") auto
  from xfer_bytes [OF assms e] e show ?thesis by simp
qed

lemma xfer_moves_witness:
  "b_bytes (snd (snd (b_xfer \<lparr>b_size = 3, b_area = [0, 9, 0], b_data = 1, b_head = 1\<rparr> wrapped_ring 2))) = [3, 4]"
  using xfer_moves [of "\<lparr>b_size = 3, b_area = [0, 9, 0], b_data = 1, b_head = 1\<rparr>" wrapped_ring 2] wrapped_ring
  by (auto simp: ring_ok_def b_room_def wrapped_ring_def case_prod_beta)

text \<open>C25: \<open>b_slow_realign\<close> keeps the content and puts the first \<open>output\<close> bytes at the end of the area and
  the rest at its start, provided the output part does not wrap. When it wraps and its second piece is
  longer than its first, the code reads past the area: it exchanges the lengths of the two pieces.\<close>
theorem slow_realign:
  assumes "ring_ok b" "output \<le> b_data b" "length swap = b_size b"
  shows "(b_head b + output \<le> b_size b \<longrightarrow> (\<exists>b'. b_slow_realign b swap output = Some b' \<and> ring_ok b'
       \<and> b_bytes b' = b_bytes b \<and> b_head b' = (if output \<noteq> 0 then b_size b - output else 0)))
    \<and> (b_size b - b_head b < output - (b_size b - b_head b) \<longrightarrow> b_slow_realign b swap output = None)"
proof (intro conjI impI)
  show "\<exists>b'. b_slow_realign b swap output = Some b' \<and> ring_ok b' \<and> b_bytes b' = b_bytes b
      \<and> b_head b' = (if output \<noteq> 0 then b_size b - output else 0)" if "b_head b + output \<le> b_size b"
    using slow_realign_bytes [OF assms(1,2) _ that, of swap] assms(3) by simp
  show "b_slow_realign b swap output = None" if "b_size b - b_head b < output - (b_size b - b_head b)"
    using that assms by (auto simp: b_slow_realign_def b_realign_output_def Let_def copy_def ring_ok_def)
qed

theorem slow_realign_witness:
  "(\<exists>b'. b_slow_realign wrapped_ring [0, 0, 0, 0, 0] 2 = Some b' \<and> b_bytes b' = [1, 2, 3, 4])
    \<and> map_option b_bytes (b_slow_realign wrapped_ring [0, 0, 0, 0, 0] 4) = Some [1, 4, 0, 1]"
proof
  show "\<exists>b'. b_slow_realign wrapped_ring [0, 0, 0, 0, 0] 2 = Some b' \<and> b_bytes b' = [1, 2, 3, 4]"
    using slow_realign [OF wrapped_ring(1), of 2 "[0, 0, 0, 0, 0]"] wrapped_ring by (auto simp: wrapped_ring_def)
  show "map_option b_bytes (b_slow_realign wrapped_ring [0, 0, 0, 0, 0] 4) = Some [1, 4, 0, 1]"
    by (simp add: wrapped_ring_def b_slow_realign_def b_realign_output_def b_realign_input_def Let_def copy_def
        memcpy_def mem_read_def b_tail_ofs_def peek_eq b_wrap_def b_bytes_def upt_rec)
qed

text \<open>\<open>b_rep_blk\<close> replaces the part between two positions of unwrapped data by a block of any length
  that fits, and moves the rest up or down. When the data ends exactly at the end of the area, though, the
  tail it computes has wrapped to offset 0, and shortening the data moves a block of negative size.\<close>
lemma rep_blk_replaces:
  assumes "ring_ok b" "b_head b \<le> pos" "pos \<le> stop" "stop \<le> b_head b + b_data b"
  shows "(b_head b + b_data b < b_size b \<and> b_head b + b_data b + length blk \<le> b_size b + (stop - pos) \<longrightarrow>
      (\<exists>b'. b_rep_blk b pos stop blk = Some (int (length blk) - int (stop - pos), b') \<and> ring_ok b'
        \<and> b_bytes b' = take (pos - b_head b) (b_bytes b) @ blk @ drop (stop - b_head b) (b_bytes b)))
    \<and> (b_head b + b_data b = b_size b \<and> pos + length blk < stop \<longrightarrow> b_rep_blk b pos stop blk = None)"
  using rep_blk_bytes [OF assms] rep_blk_at_end [of b stop pos blk] by auto

definition flat_ring :: ring where
  "flat_ring = \<lparr>b_size = 6, b_area = [0, 1, 2, 3, 4, 5], b_data = 4, b_head = 1\<rparr>"

lemma flat_ring: "ring_ok flat_ring" "b_bytes flat_ring = [1, 2, 3, 4]"
  by (simp_all add: flat_ring_def ring_ok_def b_bytes_def peek_eq upt_rec)

lemma rep_blk_replaces_witness:
  "\<exists>b'. b_rep_blk flat_ring 2 3 [8, 9] = Some (1, b') \<and> b_bytes b' = [1, 8, 9, 3, 4]"
  using rep_blk_replaces [OF flat_ring(1), of 2 3 "[8, 9]"] flat_ring(2) by (auto simp: flat_ring_def)

text \<open>A ring of buffers is full exactly when all slots but the root are in use; a buffer is added
  behind the tail only when the tail is allocated and the ring is not full, and deleting the head drops the
  first buffer but never the last one.\<close>
lemma buffer_ring_queue:
  assumes ok: "br_ok r"
  shows "length (br_buffers r) = br_count r \<and> (br_full r \<longleftrightarrow> br_count r = br_size r - 1)
    \<and> (case br_tail_add r of (b, r') \<Rightarrow>
         if b_size (br_slots r ! br_tail r) \<noteq> 0 \<and> \<not> br_full r
         then b = Some BUF_NULL \<and> br_ok r' \<and> br_buffers r' = br_buffers r @ [BUF_NULL]
         else b = None \<and> r' = r)
    \<and> (case br_del_head r of (b, r') \<Rightarrow> br_ok r' \<and> b = hd (br_buffers r')
         \<and> br_buffers r' = (if br_count r = 1 then br_buffers r else tl (br_buffers r)))"
  using br_buffers_length [OF ok] br_full_count [OF ok] br_tail_add_ok [OF ok] br_del_head_ok [OF ok]
  by (auto simp: br_tail_add_def)

lemma buffer_ring_queue_witness:
  "br_full (br_init [BUF_NULL, BUF_NULL] 2)"
proof -
  have "br_ok (br_init [BUF_NULL, BUF_NULL] 2)" by (simp add: br_init_def br_ok_def)
  from buffer_ring_queue [OF this] show ?thesis by (simp add: br_init_def br_count_def)
qed

end
