(* ===== verification/Hpack_Encode.thy ===== *)
theory Hpack_Encode
  imports Hpack_Static Ring_Buffer "HOL-Library.Monad_Syntax"
begin

unbundle bit_operations_syntax

text \<open>
  The HPACK encoder of HAProxy (\<open>hpack-enc.h\<close>, \<open>hpack-enc.c\<close>): headers are appended to an aligned buffer, with the
  index of the name when the static table has it and as a literal otherwise.

  The buffer is the one of \<open>buf.h\<close>; a write outside of its area is \<open>None\<close>. Strings are the lists of their bytes. The
  results of the encoders are the value they return and the buffer; on a failure the area may have changed behind
  the data. Sizes are within \<open>int\<close>, where the code compares with \<open>int\<close>.
\<close>

section \<open>Lengths\<close>

definition put :: "byte list \<Rightarrow> nat \<Rightarrow> byte list \<Rightarrow> byte list option" where
  "put a p xs = (if p + length xs \<le> length a then Some (memcpy a p xs) else None)"

definition hpack_len_to_bytes :: "nat \<Rightarrow> nat" where
  "hpack_len_to_bytes len =
     (let slen = int len - 127 in
      if slen < 0 then 1
      else if slen < 2 ^ 14 then if slen < 2 ^ 7 then 2 else 3
      else if slen < 2 ^ 21 then 4
      else 0)"

fun encode_code :: "byte list \<Rightarrow> nat \<Rightarrow> nat \<Rightarrow> (byte list \<times> nat) option" where
  "encode_code out pos code =
     (if code \<ge> 128 then do { out \<leftarrow> put out pos [word_of_nat code OR 128]; encode_code out (pos + 1) (code div 128) }
      else do { out \<leftarrow> put out pos [word_of_nat code]; Some (out, pos + 1) })"

declare encode_code.simps [simp del]

definition hpack_encode_len :: "byte list \<Rightarrow> nat \<Rightarrow> nat \<Rightarrow> (byte list \<times> nat) option" where
  "hpack_encode_len out pos len =
     (if len < 127 then do { out \<leftarrow> put out pos [word_of_nat len]; Some (out, pos + 1) }
      else do { out \<leftarrow> put out pos [127]; encode_code out (pos + 1) (len - 127) })"

section \<open>The encoders of one field\<close>

definition hpack_encode_short_idx :: "ring \<Rightarrow> byte \<Rightarrow> byte list \<Rightarrow> (bool \<times> ring) option" where
  "hpack_encode_short_idx out idx val =
     (if b_data out + 2 + length val > b_size out then Some (False, out)
      else do {
        a \<leftarrow> put (b_area out) (b_data out) [idx OR 0x40];
        a \<leftarrow> put a (b_data out + 1) [word_of_nat (length val)];
        a \<leftarrow> put a (b_data out + 2) val;
        Some (True, out\<lparr>b_area := a, b_data := b_data out + 2 + length val\<rparr>) })"

definition hpack_encode_long_idx :: "ring \<Rightarrow> byte \<Rightarrow> byte list \<Rightarrow> (bool \<times> ring) option" where
  "hpack_encode_long_idx out idx val =
     (if hpack_len_to_bytes (length val) = 0
         \<or> 1 + b_data out + hpack_len_to_bytes (length val) + length val > b_size out then Some (False, out)
      else do {
        a \<leftarrow> put (b_area out) (b_data out) [idx OR 0x40];
        (a, len) \<leftarrow> hpack_encode_len a (b_data out + 1) (length val);
        a \<leftarrow> put a len val;
        Some (True, out\<lparr>b_area := a, b_data := len + length val\<rparr>) })"

definition status_code :: "nat \<Rightarrow> byte" where
  "status_code status =
     (if status \<le> 304 then
        if status \<le> 204 then if status = 204 then 0x89 else if status = 200 then 0x88 else 0
        else if status = 304 then 0x8b else if status = 206 then 0x8a else 0
      else if status \<le> 404 then if status = 404 then 0x8d else if status = 400 then 0x8c else 0
      else if status = 500 then 0x8e else 0)"

definition hpack_encode_int_status :: "ring \<Rightarrow> nat \<Rightarrow> (bool \<times> ring) option" where
  "hpack_encode_int_status out status =
     (let len = b_data out + 1; c = status_code status in
      if len > b_size out then Some (False, out)
      else if c \<noteq> 0 then do { a \<leftarrow> put (b_area out) (len - 1) [c]; Some (True, out\<lparr>b_area := a, b_data := len\<rparr>) }
      else
        let len = len + 4 in
        if len > b_size out then Some (False, out)
        else do {
          a \<leftarrow> put (b_area out) (len - 5) [0x48];
          a \<leftarrow> put a (len - 4) [0x03];
          a \<leftarrow> put a (len - 3) [word_of_nat (48 + status div 100)];
          a \<leftarrow> put a (len - 2) [word_of_nat (48 + status div 10 mod 10)];
          a \<leftarrow> put a (len - 1) [word_of_nat (48 + status mod 10)];
          Some (True, out\<lparr>b_area := a, b_data := len\<rparr>) })"

definition put_index :: "ring \<Rightarrow> byte \<Rightarrow> (bool \<times> ring) option" where
  "put_index out c = do { a \<leftarrow> put (b_area out) (b_data out) [c]; Some (True, out\<lparr>b_area := a, b_data := b_data out + 1\<rparr>) }"

definition hpack_encode_str_status :: "ring \<Rightarrow> nat \<Rightarrow> byte list \<Rightarrow> (bool \<times> ring) option" where
  "hpack_encode_str_status out status str =
     (if status = 200 \<or> status = 304 then
        if b_data out \<ge> b_size out then Some (False, out)
        else put_index out (if status = 304 then 0x8b else 0x88)
      else hpack_encode_short_idx out 8 str)"

datatype http_meth_t = HTTP_METH_OPTIONS | HTTP_METH_GET | HTTP_METH_HEAD | HTTP_METH_POST | HTTP_METH_PUT
  | HTTP_METH_DELETE | HTTP_METH_TRACE | HTTP_METH_CONNECT | HTTP_METH_OTHER

definition hpack_encode_method :: "ring \<Rightarrow> http_meth_t \<Rightarrow> byte list \<Rightarrow> (bool \<times> ring) option" where
  "hpack_encode_method out meth str =
     (if b_data out < b_size out \<and> meth = HTTP_METH_GET then put_index out 0x82
      else if b_data out < b_size out \<and> meth = HTTP_METH_POST then put_index out 0x83
      else hpack_encode_short_idx out 2 str)"

definition hpack_encode_scheme :: "ring \<Rightarrow> byte list \<Rightarrow> (bool \<times> ring) option" where
  "hpack_encode_scheme out scheme =
     (if b_data out < b_size out \<and> scheme = ascii ''https'' then put_index out 0x87
      else if b_data out < b_size out \<and> scheme = ascii ''http'' then put_index out 0x86
      else hpack_encode_short_idx out 6 scheme)"

definition hpack_encode_path :: "ring \<Rightarrow> byte list \<Rightarrow> (bool \<times> ring) option" where
  "hpack_encode_path out path =
     (if b_data out < b_size out \<and> path = ascii ''/'' then put_index out 0x84
      else if b_data out < b_size out \<and> path = ascii ''/index.html'' then put_index out 0x85
      else if length path < 127 then hpack_encode_short_idx out 4 path
      else hpack_encode_long_idx out 4 path)"

text \<open>
  The three parts of \<open>hpack_encode_header\<close>: the literal name, the value, and the choice. \<open>len\<close> is where the next
  byte goes; the inner \<open>None\<close> is the return of 0.
\<close>

definition emit_name :: "byte list \<Rightarrow> nat \<Rightarrow> nat \<Rightarrow> byte list \<Rightarrow> (byte list \<times> nat) option option" where
  "emit_name a len sz n =
     (if length n < 127 \<and> len + 2 + length n \<le> sz then do {
        a \<leftarrow> put a len [0x00];
        a \<leftarrow> put a (len + 1) [word_of_nat (length n)];
        a \<leftarrow> put a (len + 2) n;
        Some (Some (a, len + 2 + length n)) }
      else if hpack_len_to_bytes (length n) \<noteq> 0 \<and> len + 1 + hpack_len_to_bytes (length n) + length n \<le> sz then do {
        a \<leftarrow> put a len [0x00];
        (a, len) \<leftarrow> hpack_encode_len a (len + 1) (length n);
        a \<leftarrow> put a len n;
        Some (Some (a, len + length n)) }
      else Some None)"

definition emit_value :: "ring \<Rightarrow> byte list \<Rightarrow> nat \<Rightarrow> byte list \<Rightarrow> (bool \<times> ring) option" where
  "emit_value out a len v =
     (if hpack_len_to_bytes (length v) = 0 \<or> len + hpack_len_to_bytes (length v) + length v > b_size out
      then Some (False, out\<lparr>b_area := a\<rparr>)
      else do {
        (a, len) \<leftarrow> hpack_encode_len a len (length v);
        a \<leftarrow> put a len v;
        Some (True, out\<lparr>b_area := a, b_data := len + length v\<rparr>) })"

definition hpack_encode_header :: "ring \<Rightarrow> byte list \<Rightarrow> byte list \<Rightarrow> (bool \<times> ring) option" where
  "hpack_encode_header out n v =
     (if b_data out \<ge> b_size out then Some (False, out)
      else do {
        r \<leftarrow> enc_find n;
        case r of
          Some idx \<Rightarrow> do {
            a \<leftarrow> put (b_area out) (b_data out) [idx OR 0x40];
            emit_value out a (b_data out + 1) v }
        | None \<Rightarrow> do {
            r \<leftarrow> emit_name (b_area out) (b_data out) (b_size out) n;
            case r of None \<Rightarrow> Some (False, out) | Some (a, len) \<Rightarrow> emit_value out a len v } })"

section \<open>What is appended\<close>

text \<open>The code of a length (RFC 7541, 5.1, with 7 bits).\<close>

fun code_bytes :: "nat \<Rightarrow> byte list" where
  "code_bytes c = (if c \<ge> 128 then (word_of_nat c OR 128) # code_bytes (c div 128) else [word_of_nat c])"

declare code_bytes.simps [simp del]

definition len_bytes :: "nat \<Rightarrow> byte list" where
  "len_bytes n = (if n < 127 then [word_of_nat n] else 127 # code_bytes (n - 127))"

lemma length_code_bytes:
  "c < 128 \<Longrightarrow> length (code_bytes c) = 1"
  "128 \<le> c \<Longrightarrow> c < 2 ^ 14 \<Longrightarrow> length (code_bytes c) = 2"
  "2 ^ 14 \<le> c \<Longrightarrow> c < 2 ^ 21 \<Longrightarrow> length (code_bytes c) = 3"
proof -
  show 1: "length (code_bytes c) = 1" if "c < 128" for c using that by (simp add: code_bytes.simps)
  show 2: "length (code_bytes c) = 2" if "128 \<le> c" "c < 2 ^ 14" for c
  proof -
    have "c div 128 < 128" using that(2) by (simp add: less_mult_imp_div_less)
    then show ?thesis using that 1 by (simp add: code_bytes.simps [of c])
  qed
  show "length (code_bytes c) = 3" if "2 ^ 14 \<le> c" "c < 2 ^ 21"
  proof -
    have "c div 128 < 2 ^ 14" "128 \<le> c div 128" using that by (simp_all add: less_mult_imp_div_less)
    then show ?thesis using that 2 by (simp add: code_bytes.simps [of c])
  qed
qed

lemma length_len_bytes: "n < 2 ^ 21 + 127 \<Longrightarrow> length (len_bytes n) = hpack_len_to_bytes n"
  using length_code_bytes [of "n - 127"] by (auto simp: len_bytes_def hpack_len_to_bytes_def Let_def not_less)

lemma len_to_bytes_0: "hpack_len_to_bytes n = 0 \<longleftrightarrow> 2 ^ 21 + 127 \<le> n"
  by (auto simp: hpack_len_to_bytes_def Let_def)

text \<open>Consecutive writes are one.\<close>

lemma put_put: "put a p xs = Some b \<Longrightarrow> put b (p + length xs) ys = put a p (xs @ ys)"
  by (auto simp: put_def memcpy_def ac_simps split: if_splits)

lemma put_next: "q = p + length xs \<Longrightarrow> Option.bind (put a p xs) (\<lambda>b. put b q ys) = put a p (xs @ ys)"
  by (cases "put a p xs") (auto simp: put_put, auto simp: put_def split: if_splits)

lemma put_more: "q = p + length xs \<Longrightarrow>
    Option.bind (put a p xs) (\<lambda>b. Option.bind (put b q ys) f) = Option.bind (put a p (xs @ ys)) f"
  using put_next [of q p xs a ys] by (metis Option.bind_assoc)

lemma encode_code_put: "encode_code a p c = Option.bind (put a p (code_bytes c)) (\<lambda>a. Some (a, p + length (code_bytes c)))"
proof (induction a p c rule: encode_code.induct)
  case (1 a p c)
  show ?case
  proof (cases "128 \<le> c")
    case True
    have "encode_code a p c = Option.bind (put a p [word_of_nat c OR 128]) (\<lambda>b. Option.bind (put b (p + 1) (code_bytes (c div 128)))
        (\<lambda>b. Some (b, p + 1 + length (code_bytes (c div 128)))))"
      using 1 True by (simp add: encode_code.simps [of a] cong: Option.bind_cong)
    also have "\<dots> = Option.bind (put a p (code_bytes c)) (\<lambda>a. Some (a, p + length (code_bytes c)))"
      using True by (subst put_more) (simp_all add: code_bytes.simps [of c])
    finally show ?thesis .
  next
    case False
    then show ?thesis by (simp add: encode_code.simps code_bytes.simps)
  qed
qed

lemma encode_len_put: "hpack_encode_len a p n = Option.bind (put a p (len_bytes n)) (\<lambda>a. Some (a, p + length (len_bytes n)))"
  by (simp add: hpack_encode_len_def len_bytes_def encode_code_put put_more)

lemma put_fits: "p + length xs \<le> length a \<Longrightarrow> put a p xs = Some (memcpy a p xs)"
  by (simp add: put_def)

definition flat :: "ring \<Rightarrow> bool" where
  "flat out \<longleftrightarrow> length (b_area out) = b_size out \<and> b_data out \<le> b_size out"

text \<open>An encoder appends \<open>bs\<close> to the data when \<open>fits\<close>, and otherwise leaves the data alone.\<close>

definition appends :: "(bool \<times> ring) option \<Rightarrow> ring \<Rightarrow> byte list \<Rightarrow> bool \<Rightarrow> bool" where
  "appends r out bs fits \<longleftrightarrow> (\<exists>out'. r = Some (fits, out') \<and> flat out' \<and> b_size out' = b_size out \<and> b_head out' = b_head out
     \<and> take (b_data out') (b_area out') = take (b_data out) (b_area out) @ (if fits then bs else []))"

lemma appendsI_written:
  assumes "flat out" "b_data out + length bs \<le> b_size out" "fits"
    and "r = Option.bind (put (b_area out) (b_data out) bs) (\<lambda>a. Some (True, out\<lparr>b_area := a, b_data := b_data out + length bs\<rparr>))"
  shows "appends r out bs fits"
  using assms by (auto simp: appends_def flat_def put_fits memcpy_def)

lemma appendsI_refused: "flat out \<Longrightarrow> r = Some (False, out) \<Longrightarrow> \<not> fits \<Longrightarrow> appends r out bs fits"
  by (auto simp: appends_def)

lemma appendsI_spoilt:
  assumes "flat out" "r = Option.bind (put (b_area out) (b_data out) xs) (\<lambda>a. Some (False, out\<lparr>b_area := a\<rparr>))"
    "b_data out + length xs \<le> b_size out" "\<not> fits"
  shows "appends r out bs fits"
  using assms by (auto simp: appends_def flat_def put_fits memcpy_def)

definition name_code :: "byte list \<Rightarrow> byte list" where
  "name_code n = (case the (enc_find n) of Some i \<Rightarrow> [i OR 0x40] | None \<Rightarrow> 0 # len_bytes (length n) @ n)"

definition header_code :: "byte list \<Rightarrow> byte list \<Rightarrow> byte list" where
  "header_code n v = name_code n @ len_bytes (length v) @ v"

lemma name_code_cases:
  "name_code n = 0 # len_bytes (length n) @ n \<or> (\<exists>i. name_code n = [i OR 0x40] \<and> 0 < unat i \<and> unat i < 62 \<and> fst (hpack_sht ! unat i) = n)"
proof -
  obtain r where "enc_find n = Some r" "\<forall>i. r = Some i \<longrightarrow> 0 < unat i \<and> unat i < 62 \<and> fst (hpack_sht ! unat i) = n"
    using enc_find_ok [of n] by blast
  then show ?thesis by (cases r) (auto simp: name_code_def)
qed

abbreviation codable :: "byte list \<Rightarrow> bool" where "codable s \<equiv> length s < 2 ^ 21 + 127"

lemma emit_value_put:
  assumes "codable v"
  shows "emit_value out a len v =
    (if len + length (len_bytes (length v) @ v) > b_size out then Some (False, out\<lparr>b_area := a\<rparr>)
     else Option.bind (put a len (len_bytes (length v) @ v)) (\<lambda>a. Some (True, out\<lparr>b_area := a, b_data := len + length (len_bytes (length v) @ v)\<rparr>)))"
  using assms by (auto simp: emit_value_def length_len_bytes len_to_bytes_0 encode_len_put put_more add.assoc)

lemma emit_name_put:
  "emit_name a len sz n =
    (if codable n \<and> len + length (0 # len_bytes (length n) @ n) \<le> sz
     then Option.bind (put a len (0 # len_bytes (length n) @ n)) (\<lambda>a. Some (Some (a, len + length (0 # len_bytes (length n) @ n))))
     else Some None)"
proof (cases "length n < 127")
  case True
  then show ?thesis by (auto simp: emit_name_def len_bytes_def hpack_len_to_bytes_def put_more Let_def)
next
  case False
  then show ?thesis by (auto simp: emit_name_def len_to_bytes_0 length_len_bytes encode_len_put put_more add.assoc)
qed

lemma header_too_long: "\<not> codable v \<Longrightarrow> emit_value out a len v = Some (False, out\<lparr>b_area := a\<rparr>)"
  by (simp add: emit_value_def len_to_bytes_0)

lemma found_codable: "enc_find n = Some (Some i) \<Longrightarrow> codable n"
  by (auto simp: enc_find_def hpack_pos_len_def split: if_splits)

lemma encode_header_appends:
  assumes "flat out"
  shows "appends (hpack_encode_header out n v) out (header_code n v)
    (b_data out < b_size out \<and> codable n \<and> codable v \<and> b_data out + length (header_code n v) \<le> b_size out)"
proof -
  obtain r where r: "enc_find n = Some r" using enc_find_ok [of n] by blast
  show ?thesis
  proof (cases "b_data out < b_size out")
    case False
    then show ?thesis using assms by (intro appendsI_refused) (auto simp: hpack_encode_header_def)
  next
    case room: True
    show ?thesis
    proof (cases r)
      case (Some i)
      then have c: "codable n" "name_code n = [i OR 0x40]" using r found_codable by (auto simp: name_code_def)
      have e: "hpack_encode_header out n v = Option.bind (put (b_area out) (b_data out) [i OR 0x40]) (\<lambda>a. emit_value out a (b_data out + 1) v)"
        using room r Some by (simp add: hpack_encode_header_def)
      show ?thesis
      proof (cases "codable v \<and> b_data out + length (header_code n v) \<le> b_size out")
        case True
        with room c show ?thesis
          by (intro appendsI_written [OF assms]) (auto simp: e emit_value_put put_more header_code_def)
      next
        case False
        have "hpack_encode_header out n v = Option.bind (put (b_area out) (b_data out) [i OR 0x40]) (\<lambda>a. Some (False, out\<lparr>b_area := a\<rparr>))"
          using False c by (cases "codable v") (auto simp: e emit_value_put header_too_long header_code_def)
        from appendsI_spoilt [OF assms this] show ?thesis using False room by auto
      qed
    next
      case None
      then have c: "name_code n = 0 # len_bytes (length n) @ n" using r by (auto simp: name_code_def)
      have e: "hpack_encode_header out n v = Option.bind (emit_name (b_area out) (b_data out) (b_size out) n)
          (\<lambda>r. case r of None \<Rightarrow> Some (False, out) | Some (a, len) \<Rightarrow> emit_value out a len v)"
        using room r None by (simp add: hpack_encode_header_def)
      show ?thesis
      proof (cases "codable n \<and> b_data out + length (name_code n) \<le> b_size out")
        case nameok: True
        have e: "hpack_encode_header out n v = Option.bind (put (b_area out) (b_data out) (name_code n))
            (\<lambda>a. emit_value out a (b_data out + length (name_code n)) v)"
          using nameok c by (simp add: e emit_name_put)
        show ?thesis
        proof (cases "codable v \<and> b_data out + length (header_code n v) \<le> b_size out")
          case True
          with room nameok show ?thesis
            by (intro appendsI_written [OF assms]) (auto simp: e emit_value_put put_more header_code_def add.assoc)
        next
          case False
          have "hpack_encode_header out n v = Option.bind (put (b_area out) (b_data out) (name_code n)) (\<lambda>a. Some (False, out\<lparr>b_area := a\<rparr>))"
            using False by (cases "codable v") (auto simp: e emit_value_put header_too_long header_code_def add.assoc)
          from appendsI_spoilt [OF assms this] show ?thesis using False nameok by auto
        qed
      next
        case False
        then have "hpack_encode_header out n v = Some (False, out)" using c by (auto simp: e emit_name_put)
        from appendsI_refused [OF assms this] show ?thesis using False by (auto simp: header_code_def)
      qed
    qed
  qed
qed

text \<open>C36: The encoder of a header appends exactly its code: the index under which the static table has the name, with the
  bit for a literal that is to
  be indexed, or a zero, the length of the name and the name, then the length of the value and the value. It does
  so when the code fits the buffer and both lengths can be coded; otherwise it returns 0 and the data of the
  buffer is what it was. Nothing is written outside of the buffer.\<close>

theorem encode_header_exact:
  assumes "flat out"
  shows "appends (hpack_encode_header out n v) out (header_code n v)
    (b_data out < b_size out \<and> codable n \<and> codable v \<and> b_data out + length (header_code n v) \<le> b_size out)
    \<and> (\<exists>name. header_code n v = name @ len_bytes (length v) @ v
        \<and> (name = 0 # len_bytes (length n) @ n \<or> (\<exists>i. name = [i OR 0x40] \<and> 0 < unat i \<and> unat i < 62 \<and> fst (hpack_sht ! unat i) = n)))"
  using encode_header_appends [OF assms] name_code_cases [of n] by (auto simp: header_code_def)

theorem encode_header_exact_witness:
  "\<exists>out'. hpack_encode_header \<lparr>b_size = 8, b_area = replicate 8 0, b_data = 1, b_head = 0\<rparr> [97] [98, 99] = Some (True, out')
     \<and> take (b_data out') (b_area out') = [0, 0, 1, 97, 2, 98, 99]"
proof -
  let ?out = "\<lparr>b_size = 8, b_area = replicate 8 0, b_data = 1, b_head = 0\<rparr> :: ring"
  have f: "flat ?out" by (simp add: flat_def)
  have c: "header_code [97] [98, 99] = [0, 1, 97, 2, 98, 99]" by code_simp
  have r: "take 1 (replicate 8 0 :: byte list) = [0]" by (simp add: numeral_eq_Suc)
  have "appends (hpack_encode_header ?out [97] [98, 99]) ?out (header_code [97] [98, 99]) True"
    using encode_header_exact [OF f, of "[97]" "[98, 99]"] by (simp add: c)
  then show ?thesis unfolding appends_def c by (auto simp: r)
qed

text \<open>The encoders of the fields that start a message.\<close>

definition short_code :: "byte \<Rightarrow> byte list \<Rightarrow> byte list" where
  "short_code idx val = [idx OR 0x40, word_of_nat (length val)] @ val"

lemma short_idx_appends:
  assumes "flat out"
  shows "appends (hpack_encode_short_idx out idx val) out (short_code idx val) (b_data out + length (short_code idx val) \<le> b_size out)"
proof (cases "b_data out + length (short_code idx val) \<le> b_size out")
  case True
  then show ?thesis by (intro appendsI_written [OF assms]) (simp_all add: hpack_encode_short_idx_def short_code_def put_more)
next
  case False
  then show ?thesis by (intro appendsI_refused [OF assms]) (simp_all add: hpack_encode_short_idx_def short_code_def)
qed

definition long_code :: "byte \<Rightarrow> byte list \<Rightarrow> byte list" where
  "long_code idx val = (idx OR 0x40) # len_bytes (length val) @ val"

lemma long_idx_appends:
  assumes "flat out"
  shows "appends (hpack_encode_long_idx out idx val) out (long_code idx val)
    (codable val \<and> b_data out + length (long_code idx val) \<le> b_size out)"
proof (cases "codable val \<and> b_data out + length (long_code idx val) \<le> b_size out")
  case True
  then show ?thesis
    by (intro appendsI_written [OF assms])
      (auto simp: hpack_encode_long_idx_def long_code_def put_more encode_len_put length_len_bytes len_to_bytes_0 add.assoc)
next
  case False
  then show ?thesis
    by (intro appendsI_refused [OF assms]) (auto simp: hpack_encode_long_idx_def long_code_def length_len_bytes len_to_bytes_0)
qed

lemma put_index_appends:
  "flat out \<Longrightarrow> b_data out < b_size out \<Longrightarrow> fits \<Longrightarrow> appends (put_index out c) out [c] fits"
  by (rule appendsI_written) (simp_all add: put_index_def)

definition digits3 :: "nat \<Rightarrow> byte list" where
  "digits3 n = [word_of_nat (48 + n div 100), word_of_nat (48 + n div 10 mod 10), word_of_nat (48 + n mod 10)]"

definition status_bytes :: "nat \<Rightarrow> byte list" where
  "status_bytes status = (if status_code status \<noteq> 0 then [status_code status] else short_code 8 (digits3 status))"

lemma int_status_appends:
  assumes "flat out"
  shows "appends (hpack_encode_int_status out status) out (status_bytes status) (b_data out + length (status_bytes status) \<le> b_size out)"
proof (cases "b_data out + length (status_bytes status) \<le> b_size out")
  case True
  have five: "Suc (Suc (Suc (Suc (Suc k)))) = 5 + k" for k by simp
  from True show ?thesis
    by (intro appendsI_written [OF assms])
      (auto simp: hpack_encode_int_status_def status_bytes_def short_code_def digits3_def put_more Let_def five add.commute)
next
  case False
  then show ?thesis
    by (intro appendsI_refused [OF assms]) (auto simp: hpack_encode_int_status_def status_bytes_def short_code_def digits3_def Let_def)
qed

definition method_bytes :: "http_meth_t \<Rightarrow> byte list \<Rightarrow> byte list" where
  "method_bytes meth str = (case meth of HTTP_METH_GET \<Rightarrow> [0x82] | HTTP_METH_POST \<Rightarrow> [0x83] | _ \<Rightarrow> short_code 2 str)"

lemma method_appends:
  assumes "flat out"
  shows "appends (hpack_encode_method out meth str) out (method_bytes meth str) (b_data out + length (method_bytes meth str) \<le> b_size out)"
proof (cases "b_data out < b_size out")
  case True
  then show ?thesis using assms
    by (cases meth) (auto simp: hpack_encode_method_def method_bytes_def intro!: put_index_appends short_idx_appends)
next
  case False
  then show ?thesis using assms
    by (intro appendsI_refused [OF assms]) (auto simp: hpack_encode_method_def hpack_encode_short_idx_def method_bytes_def short_code_def flat_def split: http_meth_t.splits)
qed

definition scheme_bytes :: "byte list \<Rightarrow> byte list" where
  "scheme_bytes s = (if s = ascii ''https'' then [0x87] else if s = ascii ''http'' then [0x86] else short_code 6 s)"

lemma scheme_appends:
  assumes "flat out"
  shows "appends (hpack_encode_scheme out s) out (scheme_bytes s) (b_data out + length (scheme_bytes s) \<le> b_size out)"
proof (cases "b_data out < b_size out")
  case True
  then show ?thesis using assms short_idx_appends [OF assms, of 6 s]
    by (auto simp: hpack_encode_scheme_def scheme_bytes_def intro!: put_index_appends)
next
  case False
  then show ?thesis using assms
    by (intro appendsI_refused [OF assms]) (auto simp: hpack_encode_scheme_def hpack_encode_short_idx_def scheme_bytes_def short_code_def flat_def)
qed

definition path_bytes :: "byte list \<Rightarrow> byte list" where
  "path_bytes p = (if p = ascii ''/'' then [0x84] else if p = ascii ''/index.html'' then [0x85] else long_code 4 p)"

lemma short_is_long: "length val < 127 \<Longrightarrow> short_code idx val = long_code idx val"
  by (simp add: short_code_def long_code_def len_bytes_def)

lemma path_appends:
  assumes "flat out"
  shows "appends (hpack_encode_path out p) out (path_bytes p) (codable p \<and> b_data out + length (path_bytes p) \<le> b_size out)"
proof (cases "b_data out < b_size out")
  case True
  then show ?thesis using assms short_idx_appends [OF assms, of 4 p] long_idx_appends [OF assms, of 4 p]
    by (auto simp: hpack_encode_path_def path_bytes_def short_is_long ascii_def intro!: put_index_appends)
next
  case False
  then show ?thesis using assms
    by (intro appendsI_refused [OF assms])
      (auto simp: hpack_encode_path_def hpack_encode_short_idx_def hpack_encode_long_idx_def path_bytes_def long_code_def flat_def)
qed

definition str_status_bytes :: "nat \<Rightarrow> byte list \<Rightarrow> byte list" where
  "str_status_bytes status str = (if status = 304 then [0x8b] else if status = 200 then [0x88] else short_code 8 str)"

lemma str_status_appends:
  assumes "flat out"
  shows "appends (hpack_encode_str_status out status str) out (str_status_bytes status str)
    (b_data out + length (str_status_bytes status str) \<le> b_size out)"
  using assms short_idx_appends [OF assms, of 8 str]
  by (auto simp: hpack_encode_str_status_def str_status_bytes_def intro!: put_index_appends intro: appendsI_refused)

end
