(* ===== verification/Huffman_Tables.thy ===== *)
theory Huffman_Tables
  imports Prelude "HOL-Library.Monad_Syntax"
begin

unbundle bit_operations_syntax

text \<open>
  The tables of HAProxy's Huffman coder and decoder for the strings of HTTP/2 headers (\<open>hpack-huff.c\<close>): the code
  of every byte, and the five tables the decoder looks a word of its input up in.

  The lemmas check each of the five tables against the codes.
\<close>

section \<open>The tables\<close>

definition ht :: "(u32 \<times> nat) list" where
  "ht = [
     (0x1ff8, 13), (0x7fffd8, 23), (0xfffffe2, 28), (0xfffffe3, 28), (0xfffffe4, 28), (0xfffffe5, 28), (0xfffffe6, 28), (0xfffffe7, 28),
     (0xfffffe8, 28), (0xffffea, 24), (0x3ffffffc, 30), (0xfffffe9, 28), (0xfffffea, 28), (0x3ffffffd, 30), (0xfffffeb, 28), (0xfffffec, 28),
     (0xfffffed, 28), (0xfffffee, 28), (0xfffffef, 28), (0xffffff0, 28), (0xffffff1, 28), (0xffffff2, 28), (0x3ffffffe, 30), (0xffffff3, 28),
     (0xffffff4, 28), (0xffffff5, 28), (0xffffff6, 28), (0xffffff7, 28), (0xffffff8, 28), (0xffffff9, 28), (0xffffffa, 28), (0xffffffb, 28),
     (0x14, 6), (0x3f8, 10), (0x3f9, 10), (0xffa, 12), (0x1ff9, 13), (0x15, 6), (0xf8, 8), (0x7fa, 11),
     (0x3fa, 10), (0x3fb, 10), (0xf9, 8), (0x7fb, 11), (0xfa, 8), (0x16, 6), (0x17, 6), (0x18, 6),
     (0x0, 5), (0x1, 5), (0x2, 5), (0x19, 6), (0x1a, 6), (0x1b, 6), (0x1c, 6), (0x1d, 6),
     (0x1e, 6), (0x1f, 6), (0x5c, 7), (0xfb, 8), (0x7ffc, 15), (0x20, 6), (0xffb, 12), (0x3fc, 10),
     (0x1ffa, 13), (0x21, 6), (0x5d, 7), (0x5e, 7), (0x5f, 7), (0x60, 7), (0x61, 7), (0x62, 7),
     (0x63, 7), (0x64, 7), (0x65, 7), (0x66, 7), (0x67, 7), (0x68, 7), (0x69, 7), (0x6a, 7),
     (0x6b, 7), (0x6c, 7), (0x6d, 7), (0x6e, 7), (0x6f, 7), (0x70, 7), (0x71, 7), (0x72, 7),
     (0xfc, 8), (0x73, 7), (0xfd, 8), (0x1ffb, 13), (0x7fff0, 19), (0x1ffc, 13), (0x3ffc, 14), (0x22, 6),
     (0x7ffd, 15), (0x3, 5), (0x23, 6), (0x4, 5), (0x24, 6), (0x5, 5), (0x25, 6), (0x26, 6),
     (0x27, 6), (0x6, 5), (0x74, 7), (0x75, 7), (0x28, 6), (0x29, 6), (0x2a, 6), (0x7, 5),
     (0x2b, 6), (0x76, 7), (0x2c, 6), (0x8, 5), (0x9, 5), (0x2d, 6), (0x77, 7), (0x78, 7),
     (0x79, 7), (0x7a, 7), (0x7b, 7), (0x7ffe, 15), (0x7fc, 11), (0x3ffd, 14), (0x1ffd, 13), (0xffffffc, 28),
     (0xfffe6, 20), (0x3fffd2, 22), (0xfffe7, 20), (0xfffe8, 20), (0x3fffd3, 22), (0x3fffd4, 22), (0x3fffd5, 22), (0x7fffd9, 23),
     (0x3fffd6, 22), (0x7fffda, 23), (0x7fffdb, 23), (0x7fffdc, 23), (0x7fffdd, 23), (0x7fffde, 23), (0xffffeb, 24), (0x7fffdf, 23),
     (0xffffec, 24), (0xffffed, 24), (0x3fffd7, 22), (0x7fffe0, 23), (0xffffee, 24), (0x7fffe1, 23), (0x7fffe2, 23), (0x7fffe3, 23),
     (0x7fffe4, 23), (0x1fffdc, 21), (0x3fffd8, 22), (0x7fffe5, 23), (0x3fffd9, 22), (0x7fffe6, 23), (0x7fffe7, 23), (0xffffef, 24),
     (0x3fffda, 22), (0x1fffdd, 21), (0xfffe9, 20), (0x3fffdb, 22), (0x3fffdc, 22), (0x7fffe8, 23), (0x7fffe9, 23), (0x1fffde, 21),
     (0x7fffea, 23), (0x3fffdd, 22), (0x3fffde, 22), (0xfffff0, 24), (0x1fffdf, 21), (0x3fffdf, 22), (0x7fffeb, 23), (0x7fffec, 23),
     (0x1fffe0, 21), (0x1fffe1, 21), (0x3fffe0, 22), (0x1fffe2, 21), (0x7fffed, 23), (0x3fffe1, 22), (0x7fffee, 23), (0x7fffef, 23),
     (0xfffea, 20), (0x3fffe2, 22), (0x3fffe3, 22), (0x3fffe4, 22), (0x7ffff0, 23), (0x3fffe5, 22), (0x3fffe6, 22), (0x7ffff1, 23),
     (0x3ffffe0, 26), (0x3ffffe1, 26), (0xfffeb, 20), (0x7fff1, 19), (0x3fffe7, 22), (0x7ffff2, 23), (0x3fffe8, 22), (0x1ffffec, 25),
     (0x3ffffe2, 26), (0x3ffffe3, 26), (0x3ffffe4, 26), (0x7ffffde, 27), (0x7ffffdf, 27), (0x3ffffe5, 26), (0xfffff1, 24), (0x1ffffed, 25),
     (0x7fff2, 19), (0x1fffe3, 21), (0x3ffffe6, 26), (0x7ffffe0, 27), (0x7ffffe1, 27), (0x3ffffe7, 26), (0x7ffffe2, 27), (0xfffff2, 24),
     (0x1fffe4, 21), (0x1fffe5, 21), (0x3ffffe8, 26), (0x3ffffe9, 26), (0xffffffd, 28), (0x7ffffe3, 27), (0x7ffffe4, 27), (0x7ffffe5, 27),
     (0xfffec, 20), (0xfffff3, 24), (0xfffed, 20), (0x1fffe6, 21), (0x3fffe9, 22), (0x1fffe7, 21), (0x1fffe8, 21), (0x7ffff3, 23),
     (0x3fffea, 22), (0x3fffeb, 22), (0x1ffffee, 25), (0x1ffffef, 25), (0xfffff4, 24), (0xfffff5, 24), (0x3ffffea, 26), (0x7ffff4, 23),
     (0x3ffffeb, 26), (0x7ffffe6, 27), (0x3ffffec, 26), (0x3ffffed, 26), (0x7ffffe7, 27), (0x7ffffe8, 27), (0x7ffffe9, 27), (0x7ffffea, 27),
     (0x7ffffeb, 27), (0xffffffe, 28), (0x7ffffec, 27), (0x7ffffed, 27), (0x7ffffee, 27), (0x7ffffef, 27), (0x7fffff0, 27), (0x3ffffee, 26),
     (0x3fffffff, 30)]"

definition rht_bit31_24 :: "(byte \<times> nat) list" where
  "rht_bit31_24 = [
     (0x30, 5), (0x30, 5), (0x30, 5), (0x30, 5), (0x30, 5), (0x30, 5), (0x30, 5), (0x30, 5),
     (0x31, 5), (0x31, 5), (0x31, 5), (0x31, 5), (0x31, 5), (0x31, 5), (0x31, 5), (0x31, 5),
     (0x32, 5), (0x32, 5), (0x32, 5), (0x32, 5), (0x32, 5), (0x32, 5), (0x32, 5), (0x32, 5),
     (0x61, 5), (0x61, 5), (0x61, 5), (0x61, 5), (0x61, 5), (0x61, 5), (0x61, 5), (0x61, 5),
     (0x63, 5), (0x63, 5), (0x63, 5), (0x63, 5), (0x63, 5), (0x63, 5), (0x63, 5), (0x63, 5),
     (0x65, 5), (0x65, 5), (0x65, 5), (0x65, 5), (0x65, 5), (0x65, 5), (0x65, 5), (0x65, 5),
     (0x69, 5), (0x69, 5), (0x69, 5), (0x69, 5), (0x69, 5), (0x69, 5), (0x69, 5), (0x69, 5),
     (0x6f, 5), (0x6f, 5), (0x6f, 5), (0x6f, 5), (0x6f, 5), (0x6f, 5), (0x6f, 5), (0x6f, 5),
     (0x73, 5), (0x73, 5), (0x73, 5), (0x73, 5), (0x73, 5), (0x73, 5), (0x73, 5), (0x73, 5),
     (0x74, 5), (0x74, 5), (0x74, 5), (0x74, 5), (0x74, 5), (0x74, 5), (0x74, 5), (0x74, 5),
     (0x20, 6), (0x20, 6), (0x20, 6), (0x20, 6), (0x25, 6), (0x25, 6), (0x25, 6), (0x25, 6),
     (0x2d, 6), (0x2d, 6), (0x2d, 6), (0x2d, 6), (0x2e, 6), (0x2e, 6), (0x2e, 6), (0x2e, 6),
     (0x2f, 6), (0x2f, 6), (0x2f, 6), (0x2f, 6), (0x33, 6), (0x33, 6), (0x33, 6), (0x33, 6),
     (0x34, 6), (0x34, 6), (0x34, 6), (0x34, 6), (0x35, 6), (0x35, 6), (0x35, 6), (0x35, 6),
     (0x36, 6), (0x36, 6), (0x36, 6), (0x36, 6), (0x37, 6), (0x37, 6), (0x37, 6), (0x37, 6),
     (0x38, 6), (0x38, 6), (0x38, 6), (0x38, 6), (0x39, 6), (0x39, 6), (0x39, 6), (0x39, 6),
     (0x3d, 6), (0x3d, 6), (0x3d, 6), (0x3d, 6), (0x41, 6), (0x41, 6), (0x41, 6), (0x41, 6),
     (0x5f, 6), (0x5f, 6), (0x5f, 6), (0x5f, 6), (0x62, 6), (0x62, 6), (0x62, 6), (0x62, 6),
     (0x64, 6), (0x64, 6), (0x64, 6), (0x64, 6), (0x66, 6), (0x66, 6), (0x66, 6), (0x66, 6),
     (0x67, 6), (0x67, 6), (0x67, 6), (0x67, 6), (0x68, 6), (0x68, 6), (0x68, 6), (0x68, 6),
     (0x6c, 6), (0x6c, 6), (0x6c, 6), (0x6c, 6), (0x6d, 6), (0x6d, 6), (0x6d, 6), (0x6d, 6),
     (0x6e, 6), (0x6e, 6), (0x6e, 6), (0x6e, 6), (0x70, 6), (0x70, 6), (0x70, 6), (0x70, 6),
     (0x72, 6), (0x72, 6), (0x72, 6), (0x72, 6), (0x75, 6), (0x75, 6), (0x75, 6), (0x75, 6),
     (0x3a, 7), (0x3a, 7), (0x42, 7), (0x42, 7), (0x43, 7), (0x43, 7), (0x44, 7), (0x44, 7),
     (0x45, 7), (0x45, 7), (0x46, 7), (0x46, 7), (0x47, 7), (0x47, 7), (0x48, 7), (0x48, 7),
     (0x49, 7), (0x49, 7), (0x4a, 7), (0x4a, 7), (0x4b, 7), (0x4b, 7), (0x4c, 7), (0x4c, 7),
     (0x4d, 7), (0x4d, 7), (0x4e, 7), (0x4e, 7), (0x4f, 7), (0x4f, 7), (0x50, 7), (0x50, 7),
     (0x51, 7), (0x51, 7), (0x52, 7), (0x52, 7), (0x53, 7), (0x53, 7), (0x54, 7), (0x54, 7),
     (0x55, 7), (0x55, 7), (0x56, 7), (0x56, 7), (0x57, 7), (0x57, 7), (0x59, 7), (0x59, 7),
     (0x6a, 7), (0x6a, 7), (0x6b, 7), (0x6b, 7), (0x71, 7), (0x71, 7), (0x76, 7), (0x76, 7),
     (0x77, 7), (0x77, 7), (0x78, 7), (0x78, 7), (0x79, 7), (0x79, 7), (0x7a, 7), (0x7a, 7),
     (0x26, 8), (0x2a, 8), (0x2c, 8), (0x3b, 8), (0x58, 8), (0x5a, 8), (0x0, 0), (0x0, 0)]"

definition rht_bit24_17 :: "(byte \<times> nat) list" where
  "rht_bit24_17 = [
     (0x21, 10), (0x21, 10), (0x21, 10), (0x21, 10), (0x21, 10), (0x21, 10), (0x21, 10), (0x21, 10),
     (0x21, 10), (0x21, 10), (0x21, 10), (0x21, 10), (0x21, 10), (0x21, 10), (0x21, 10), (0x21, 10),
     (0x21, 10), (0x21, 10), (0x21, 10), (0x21, 10), (0x21, 10), (0x21, 10), (0x21, 10), (0x21, 10),
     (0x21, 10), (0x21, 10), (0x21, 10), (0x21, 10), (0x21, 10), (0x21, 10), (0x21, 10), (0x21, 10),
     (0x22, 10), (0x22, 10), (0x22, 10), (0x22, 10), (0x22, 10), (0x22, 10), (0x22, 10), (0x22, 10),
     (0x22, 10), (0x22, 10), (0x22, 10), (0x22, 10), (0x22, 10), (0x22, 10), (0x22, 10), (0x22, 10),
     (0x22, 10), (0x22, 10), (0x22, 10), (0x22, 10), (0x22, 10), (0x22, 10), (0x22, 10), (0x22, 10),
     (0x22, 10), (0x22, 10), (0x22, 10), (0x22, 10), (0x22, 10), (0x22, 10), (0x22, 10), (0x22, 10),
     (0x28, 10), (0x28, 10), (0x28, 10), (0x28, 10), (0x28, 10), (0x28, 10), (0x28, 10), (0x28, 10),
     (0x28, 10), (0x28, 10), (0x28, 10), (0x28, 10), (0x28, 10), (0x28, 10), (0x28, 10), (0x28, 10),
     (0x28, 10), (0x28, 10), (0x28, 10), (0x28, 10), (0x28, 10), (0x28, 10), (0x28, 10), (0x28, 10),
     (0x28, 10), (0x28, 10), (0x28, 10), (0x28, 10), (0x28, 10), (0x28, 10), (0x28, 10), (0x28, 10),
     (0x29, 10), (0x29, 10), (0x29, 10), (0x29, 10), (0x29, 10), (0x29, 10), (0x29, 10), (0x29, 10),
     (0x29, 10), (0x29, 10), (0x29, 10), (0x29, 10), (0x29, 10), (0x29, 10), (0x29, 10), (0x29, 10),
     (0x29, 10), (0x29, 10), (0x29, 10), (0x29, 10), (0x29, 10), (0x29, 10), (0x29, 10), (0x29, 10),
     (0x29, 10), (0x29, 10), (0x29, 10), (0x29, 10), (0x29, 10), (0x29, 10), (0x29, 10), (0x29, 10),
     (0x3f, 10), (0x3f, 10), (0x3f, 10), (0x3f, 10), (0x3f, 10), (0x3f, 10), (0x3f, 10), (0x3f, 10),
     (0x3f, 10), (0x3f, 10), (0x3f, 10), (0x3f, 10), (0x3f, 10), (0x3f, 10), (0x3f, 10), (0x3f, 10),
     (0x3f, 10), (0x3f, 10), (0x3f, 10), (0x3f, 10), (0x3f, 10), (0x3f, 10), (0x3f, 10), (0x3f, 10),
     (0x3f, 10), (0x3f, 10), (0x3f, 10), (0x3f, 10), (0x3f, 10), (0x3f, 10), (0x3f, 10), (0x3f, 10),
     (0x27, 11), (0x27, 11), (0x27, 11), (0x27, 11), (0x27, 11), (0x27, 11), (0x27, 11), (0x27, 11),
     (0x27, 11), (0x27, 11), (0x27, 11), (0x27, 11), (0x27, 11), (0x27, 11), (0x27, 11), (0x27, 11),
     (0x2b, 11), (0x2b, 11), (0x2b, 11), (0x2b, 11), (0x2b, 11), (0x2b, 11), (0x2b, 11), (0x2b, 11),
     (0x2b, 11), (0x2b, 11), (0x2b, 11), (0x2b, 11), (0x2b, 11), (0x2b, 11), (0x2b, 11), (0x2b, 11),
     (0x7c, 11), (0x7c, 11), (0x7c, 11), (0x7c, 11), (0x7c, 11), (0x7c, 11), (0x7c, 11), (0x7c, 11),
     (0x7c, 11), (0x7c, 11), (0x7c, 11), (0x7c, 11), (0x7c, 11), (0x7c, 11), (0x7c, 11), (0x7c, 11),
     (0x23, 12), (0x23, 12), (0x23, 12), (0x23, 12), (0x23, 12), (0x23, 12), (0x23, 12), (0x23, 12),
     (0x3e, 12), (0x3e, 12), (0x3e, 12), (0x3e, 12), (0x3e, 12), (0x3e, 12), (0x3e, 12), (0x3e, 12),
     (0x0, 13), (0x0, 13), (0x0, 13), (0x0, 13), (0x24, 13), (0x24, 13), (0x24, 13), (0x24, 13),
     (0x40, 13), (0x40, 13), (0x40, 13), (0x40, 13), (0x5b, 13), (0x5b, 13), (0x5b, 13), (0x5b, 13),
     (0x5d, 13), (0x5d, 13), (0x5d, 13), (0x5d, 13), (0x7e, 13), (0x7e, 13), (0x7e, 13), (0x7e, 13),
     (0x5e, 14), (0x5e, 14), (0x7d, 14), (0x7d, 14), (0x3c, 15), (0x60, 15), (0x7b, 15), (0x0, 0)]"

definition rht_bit15_11_fe :: "(byte \<times> nat) list" where
  "rht_bit15_11_fe = [
     (0x5c, 19), (0x5c, 19), (0x5c, 19), (0x5c, 19), (0xc3, 19), (0xc3, 19), (0xc3, 19), (0xc3, 19),
     (0xd0, 19), (0xd0, 19), (0xd0, 19), (0xd0, 19), (0x80, 20), (0x80, 20), (0x82, 20), (0x82, 20),
     (0x83, 20), (0x83, 20), (0xa2, 20), (0xa2, 20), (0xb8, 20), (0xb8, 20), (0xc2, 20), (0xc2, 20),
     (0xe0, 20), (0xe0, 20), (0xe2, 20), (0xe2, 20), (0x99, 21), (0xa1, 21), (0xa7, 21), (0xac, 21)]"

definition rht_bit15_8 :: "(byte \<times> nat) list" where
  "rht_bit15_8 = [
     (0xb0, 21), (0xb0, 21), (0xb0, 21), (0xb0, 21), (0xb0, 21), (0xb0, 21), (0xb0, 21), (0xb0, 21),
     (0xb1, 21), (0xb1, 21), (0xb1, 21), (0xb1, 21), (0xb1, 21), (0xb1, 21), (0xb1, 21), (0xb1, 21),
     (0xb3, 21), (0xb3, 21), (0xb3, 21), (0xb3, 21), (0xb3, 21), (0xb3, 21), (0xb3, 21), (0xb3, 21),
     (0xd1, 21), (0xd1, 21), (0xd1, 21), (0xd1, 21), (0xd1, 21), (0xd1, 21), (0xd1, 21), (0xd1, 21),
     (0xd8, 21), (0xd8, 21), (0xd8, 21), (0xd8, 21), (0xd8, 21), (0xd8, 21), (0xd8, 21), (0xd8, 21),
     (0xd9, 21), (0xd9, 21), (0xd9, 21), (0xd9, 21), (0xd9, 21), (0xd9, 21), (0xd9, 21), (0xd9, 21),
     (0xe3, 21), (0xe3, 21), (0xe3, 21), (0xe3, 21), (0xe3, 21), (0xe3, 21), (0xe3, 21), (0xe3, 21),
     (0xe5, 21), (0xe5, 21), (0xe5, 21), (0xe5, 21), (0xe5, 21), (0xe5, 21), (0xe5, 21), (0xe5, 21),
     (0xe6, 21), (0xe6, 21), (0xe6, 21), (0xe6, 21), (0xe6, 21), (0xe6, 21), (0xe6, 21), (0xe6, 21),
     (0x81, 22), (0x81, 22), (0x81, 22), (0x81, 22), (0x84, 22), (0x84, 22), (0x84, 22), (0x84, 22),
     (0x85, 22), (0x85, 22), (0x85, 22), (0x85, 22), (0x86, 22), (0x86, 22), (0x86, 22), (0x86, 22),
     (0x88, 22), (0x88, 22), (0x88, 22), (0x88, 22), (0x92, 22), (0x92, 22), (0x92, 22), (0x92, 22),
     (0x9a, 22), (0x9a, 22), (0x9a, 22), (0x9a, 22), (0x9c, 22), (0x9c, 22), (0x9c, 22), (0x9c, 22),
     (0xa0, 22), (0xa0, 22), (0xa0, 22), (0xa0, 22), (0xa3, 22), (0xa3, 22), (0xa3, 22), (0xa3, 22),
     (0xa4, 22), (0xa4, 22), (0xa4, 22), (0xa4, 22), (0xa9, 22), (0xa9, 22), (0xa9, 22), (0xa9, 22),
     (0xaa, 22), (0xaa, 22), (0xaa, 22), (0xaa, 22), (0xad, 22), (0xad, 22), (0xad, 22), (0xad, 22),
     (0xb2, 22), (0xb2, 22), (0xb2, 22), (0xb2, 22), (0xb5, 22), (0xb5, 22), (0xb5, 22), (0xb5, 22),
     (0xb9, 22), (0xb9, 22), (0xb9, 22), (0xb9, 22), (0xba, 22), (0xba, 22), (0xba, 22), (0xba, 22),
     (0xbb, 22), (0xbb, 22), (0xbb, 22), (0xbb, 22), (0xbd, 22), (0xbd, 22), (0xbd, 22), (0xbd, 22),
     (0xbe, 22), (0xbe, 22), (0xbe, 22), (0xbe, 22), (0xc4, 22), (0xc4, 22), (0xc4, 22), (0xc4, 22),
     (0xc6, 22), (0xc6, 22), (0xc6, 22), (0xc6, 22), (0xe4, 22), (0xe4, 22), (0xe4, 22), (0xe4, 22),
     (0xe8, 22), (0xe8, 22), (0xe8, 22), (0xe8, 22), (0xe9, 22), (0xe9, 22), (0xe9, 22), (0xe9, 22),
     (0x1, 23), (0x1, 23), (0x87, 23), (0x87, 23), (0x89, 23), (0x89, 23), (0x8a, 23), (0x8a, 23),
     (0x8b, 23), (0x8b, 23), (0x8c, 23), (0x8c, 23), (0x8d, 23), (0x8d, 23), (0x8f, 23), (0x8f, 23),
     (0x93, 23), (0x93, 23), (0x95, 23), (0x95, 23), (0x96, 23), (0x96, 23), (0x97, 23), (0x97, 23),
     (0x98, 23), (0x98, 23), (0x9b, 23), (0x9b, 23), (0x9d, 23), (0x9d, 23), (0x9e, 23), (0x9e, 23),
     (0xa5, 23), (0xa5, 23), (0xa6, 23), (0xa6, 23), (0xa8, 23), (0xa8, 23), (0xae, 23), (0xae, 23),
     (0xaf, 23), (0xaf, 23), (0xb4, 23), (0xb4, 23), (0xb6, 23), (0xb6, 23), (0xb7, 23), (0xb7, 23),
     (0xbc, 23), (0xbc, 23), (0xbf, 23), (0xbf, 23), (0xc5, 23), (0xc5, 23), (0xe7, 23), (0xe7, 23),
     (0xef, 23), (0xef, 23), (0x9, 24), (0x8e, 24), (0x90, 24), (0x91, 24), (0x94, 24), (0x9f, 24),
     (0xab, 24), (0xce, 24), (0xd7, 24), (0xe1, 24), (0xec, 24), (0xed, 24), (0x0, 0), (0x0, 0),
     (0x0, 0), (0x0, 0), (0x0, 0), (0x0, 0), (0x0, 0), (0x0, 0), (0x0, 0), (0x0, 0)]"

definition rht_bit11_4 :: "(byte \<times> nat) list" where
  "rht_bit11_4 = [
     (0x0, 0), (0x0, 0), (0x0, 0), (0x0, 0), (0x0, 0), (0x0, 0), (0x0, 0), (0x0, 0),
     (0x0, 0), (0x0, 0), (0x0, 0), (0x0, 0), (0x0, 0), (0x0, 0), (0x0, 0), (0x0, 0),
     (0x0, 0), (0x0, 0), (0x0, 0), (0x0, 0), (0x0, 0), (0x0, 0), (0x0, 0), (0x0, 0),
     (0x0, 0), (0x0, 0), (0x0, 0), (0x0, 0), (0x0, 0), (0x0, 0), (0x0, 0), (0x0, 0),
     (0x0, 0), (0x0, 0), (0x0, 0), (0x0, 0), (0x0, 0), (0x0, 0), (0x0, 0), (0x0, 0),
     (0x0, 0), (0x0, 0), (0x0, 0), (0x0, 0), (0x0, 0), (0x0, 0), (0x0, 0), (0x0, 0),
     (0x0, 0), (0x0, 0), (0x0, 0), (0x0, 0), (0x0, 0), (0x0, 0), (0x0, 0), (0x0, 0),
     (0x0, 0), (0x0, 0), (0x0, 0), (0x0, 0), (0x0, 0), (0x0, 0), (0x0, 0), (0x0, 0),
     (0x0, 0), (0x0, 0), (0x0, 0), (0x0, 0), (0x0, 0), (0x0, 0), (0x0, 0), (0x0, 0),
     (0x0, 0), (0x0, 0), (0x0, 0), (0x0, 0), (0x0, 0), (0x0, 0), (0x0, 0), (0x0, 0),
     (0x0, 0), (0x0, 0), (0x0, 0), (0x0, 0), (0x0, 0), (0x0, 0), (0x0, 0), (0x0, 0),
     (0x0, 0), (0x0, 0), (0x0, 0), (0x0, 0), (0x0, 0), (0x0, 0), (0x0, 0), (0x0, 0),
     (0xc7, 25), (0xc7, 25), (0xc7, 25), (0xc7, 25), (0xc7, 25), (0xc7, 25), (0xc7, 25), (0xc7, 25),
     (0xcf, 25), (0xcf, 25), (0xcf, 25), (0xcf, 25), (0xcf, 25), (0xcf, 25), (0xcf, 25), (0xcf, 25),
     (0xea, 25), (0xea, 25), (0xea, 25), (0xea, 25), (0xea, 25), (0xea, 25), (0xea, 25), (0xea, 25),
     (0xeb, 25), (0xeb, 25), (0xeb, 25), (0xeb, 25), (0xeb, 25), (0xeb, 25), (0xeb, 25), (0xeb, 25),
     (0xc0, 26), (0xc0, 26), (0xc0, 26), (0xc0, 26), (0xc1, 26), (0xc1, 26), (0xc1, 26), (0xc1, 26),
     (0xc8, 26), (0xc8, 26), (0xc8, 26), (0xc8, 26), (0xc9, 26), (0xc9, 26), (0xc9, 26), (0xc9, 26),
     (0xca, 26), (0xca, 26), (0xca, 26), (0xca, 26), (0xcd, 26), (0xcd, 26), (0xcd, 26), (0xcd, 26),
     (0xd2, 26), (0xd2, 26), (0xd2, 26), (0xd2, 26), (0xd5, 26), (0xd5, 26), (0xd5, 26), (0xd5, 26),
     (0xda, 26), (0xda, 26), (0xda, 26), (0xda, 26), (0xdb, 26), (0xdb, 26), (0xdb, 26), (0xdb, 26),
     (0xee, 26), (0xee, 26), (0xee, 26), (0xee, 26), (0xf0, 26), (0xf0, 26), (0xf0, 26), (0xf0, 26),
     (0xf2, 26), (0xf2, 26), (0xf2, 26), (0xf2, 26), (0xf3, 26), (0xf3, 26), (0xf3, 26), (0xf3, 26),
     (0xff, 26), (0xff, 26), (0xff, 26), (0xff, 26), (0xcb, 27), (0xcb, 27), (0xcc, 27), (0xcc, 27),
     (0xd3, 27), (0xd3, 27), (0xd4, 27), (0xd4, 27), (0xd6, 27), (0xd6, 27), (0xdd, 27), (0xdd, 27),
     (0xde, 27), (0xde, 27), (0xdf, 27), (0xdf, 27), (0xf1, 27), (0xf1, 27), (0xf4, 27), (0xf4, 27),
     (0xf5, 27), (0xf5, 27), (0xf6, 27), (0xf6, 27), (0xf7, 27), (0xf7, 27), (0xf8, 27), (0xf8, 27),
     (0xfa, 27), (0xfa, 27), (0xfb, 27), (0xfb, 27), (0xfc, 27), (0xfc, 27), (0xfd, 27), (0xfd, 27),
     (0xfe, 27), (0xfe, 27), (0x2, 28), (0x3, 28), (0x4, 28), (0x5, 28), (0x6, 28), (0x7, 28),
     (0x8, 28), (0xb, 28), (0xc, 28), (0xe, 28), (0xf, 28), (0x10, 28), (0x11, 28), (0x12, 28),
     (0x13, 28), (0x14, 28), (0x15, 28), (0x17, 28), (0x18, 28), (0x19, 28), (0x1a, 28), (0x1b, 28),
     (0x1c, 28), (0x1d, 28), (0x1e, 28), (0x1f, 28), (0x7f, 28), (0xdc, 28), (0xf9, 28), (0xa, 30)]"

section \<open>The tables agree\<close>

text \<open>The symbols of each table, in the order of their codes.\<close>

definition syms_31_24 :: "byte list" where
  "syms_31_24 = [
     48, 49, 50, 97, 99, 101, 105, 111, 115, 116, 32, 37, 45, 46, 47, 51, 52, 53, 54, 55,
     56, 57, 61, 65, 95, 98, 100, 102, 103, 104, 108, 109, 110, 112, 114, 117, 58, 66, 67, 68,
     69, 70, 71, 72, 73, 74, 75, 76, 77, 78, 79, 80, 81, 82, 83, 84, 85, 86, 87, 89,
     106, 107, 113, 118, 119, 120, 121, 122, 38, 42, 44, 59, 88, 90]"

definition syms_24_17 :: "byte list" where
  "syms_24_17 = [
     33, 34, 40, 41, 63, 39, 43, 124, 35, 62, 0, 36, 64, 91, 93, 126, 94, 125, 60, 96,
     123]"

definition syms_fe :: "byte list" where
  "syms_fe = [
     92, 195, 208, 128, 130, 131, 162, 184, 194, 224, 226, 153, 161, 167, 172]"

definition syms_15_8 :: "byte list" where
  "syms_15_8 = [
     176, 177, 179, 209, 216, 217, 227, 229, 230, 129, 132, 133, 134, 136, 146, 154, 156, 160, 163, 164,
     169, 170, 173, 178, 181, 185, 186, 187, 189, 190, 196, 198, 228, 232, 233, 1, 135, 137, 138, 139,
     140, 141, 143, 147, 149, 150, 151, 152, 155, 157, 158, 165, 166, 168, 174, 175, 180, 182, 183, 188,
     191, 197, 231, 239, 9, 142, 144, 145, 148, 159, 171, 206, 215, 225, 236, 237]"

definition syms_11_4 :: "byte list" where
  "syms_11_4 = [
     199, 207, 234, 235, 192, 193, 200, 201, 202, 205, 210, 213, 218, 219, 238, 240, 242, 243, 255, 203,
     204, 211, 212, 214, 221, 222, 223, 241, 244, 245, 246, 247, 248, 250, 251, 252, 253, 254, 2, 3,
     4, 5, 6, 7, 8, 11, 12, 14, 15, 16, 17, 18, 19, 20, 21, 23, 24, 25, 26, 27,
     28, 29, 30, 31, 127, 220, 249]"

text \<open>
  The entries of \<open>tab\<close> from the place \<open>p\<close> on are those of the given symbols, each as often as there are
  continuations of its code to \<open>k\<close> bits.
\<close>

fun table_ok :: "nat \<Rightarrow> int \<Rightarrow> byte list \<Rightarrow> (byte \<times> nat) list \<Rightarrow> bool" where
  "table_ok k p [] tab \<longleftrightarrow> True"
| "table_ok k p (c # cs) tab \<longleftrightarrow>
     (let (code, b) = ht ! unat c; n = 2 ^ (k - b)
      in 0 < b \<and> b \<le> k \<and> uint code * 2 ^ (k - b) = p \<and> n \<le> length tab \<and> take n tab = replicate n (c, b)
           \<and> table_ok k (p + 2 ^ (k - b)) cs (drop n tab))"

lemma table_ok_lookup:
  assumes "table_ok k p cs tab" "c \<in> set cs" "ht ! unat c = (code, b)" "y div 2 ^ (k - b) = uint code"
  shows "p \<le> y \<and> nat (y - p) < length tab \<and> tab ! nat (y - p) = (c, b) \<and> 0 < b \<and> b \<le> k"
  using assms
proof (induction k p cs tab rule: table_ok.induct)
  case (2 k p d cs tab)
  obtain code' b' where h: "ht ! unat d = (code', b')" by (cases "ht ! unat d")
  let ?n = "2 ^ (k - b') :: nat"
  have t: "0 < b'" "b' \<le> k" "uint code' * 2 ^ (k - b') = p" "?n \<le> length tab" "take ?n tab = replicate ?n (d, b')"
      "table_ok k (p + 2 ^ (k - b')) cs (drop ?n tab)"
    using 2(2) h by (simp_all add: Let_def)
  show ?case
  proof (cases "c = d")
    case True
    then have e: "code = code'" "b = b'" using 2(4) h by simp_all
    have "y = p + y mod 2 ^ (k - b')" using 2(5) t(3) e div_mult_mod_eq [of y "2 ^ (k - b')"] by simp
    moreover have "0 \<le> y mod 2 ^ (k - b')" "y mod 2 ^ (k - b') < 2 ^ (k - b')" by simp_all
    ultimately have y: "p \<le> y" "y - p < 2 ^ (k - b')" by linarith+
    then have m: "nat (y - p) < ?n" by (simp add: nat_less_iff)
    then have "tab ! nat (y - p) = take ?n tab ! nat (y - p)" by simp
    with y t e True less_le_trans [OF m t(4)] show ?thesis by simp
  next
    case False
    then have "c \<in> set cs" using 2(3) by simp
    from 2(1) [OF refl h [symmetric] refl t(6) this 2(4,5)]
    have r: "p + 2 ^ (k - b') \<le> y" "nat (y - (p + 2 ^ (k - b'))) < length (drop ?n tab)"
      "drop ?n tab ! nat (y - (p + 2 ^ (k - b'))) = (c, b)" "0 < b" "b \<le> k" by simp_all
    have z: "(0 :: int) < 2 ^ (k - b')" by simp
    have n: "nat (y - p) = ?n + nat (y - (p + 2 ^ (k - b')))"
      using r(1) by (simp add: nat_eq_iff) (use z r(1) in linarith)
    have "p \<le> y" using r(1) z by linarith
    with r(2-5) t(4) show ?thesis unfolding n by (simp add: less_diff_conv2) 
  qed
qed simp

lemma table_31_24: "table_ok 8 0 syms_31_24 rht_bit31_24" by code_simp
lemma table_24_17: "table_ok 15 0x7f00 syms_24_17 rht_bit24_17" by code_simp
lemma table_fe: "table_ok 21 0x1fffc0 syms_fe rht_bit15_11_fe" by code_simp
lemma table_15_8: "table_ok 24 0xffff00 syms_15_8 rht_bit15_8" by code_simp
lemma table_11_4: "table_ok 28 0xfffff60 syms_11_4 (drop 0x60 rht_bit11_4)" by code_simp


text \<open>Every byte has a code of 5 to 30 bits, and every byte but three stands in one of the tables.\<close>

lemma ht_length: "length ht = 257" by code_simp

lemma ht_codes: "\<forall>(code, b) \<in> set ht. 5 \<le> b \<and> b \<le> 30 \<and> uint code < 2 ^ b" by code_simp

lemma ht_code:
  assumes "ht ! unat (c :: byte) = (code, b)"
  shows "5 \<le> b" "b \<le> 30" "uint code < 2 ^ b"
proof -
  have "(code, b) \<in> set ht" using nth_mem [of "unat c" ht] unsigned_less [of c, where 'a = nat] assms by (simp add: ht_length)
  with ht_codes show "5 \<le> b" "b \<le> 30" "uint code < 2 ^ b" by auto
qed

fun covers :: "int list \<Rightarrow> int \<Rightarrow> nat \<Rightarrow> bool" where
  "covers xs i 0 = True"
| "covers xs i (Suc n) = ((i = 10 \<or> i = 13 \<or> i = 22 \<or> i \<in> set xs) \<and> covers xs (i + 1) n)"

lemma covers_mem: "covers xs i n \<Longrightarrow> i \<le> j \<Longrightarrow> j < i + int n \<Longrightarrow> j = 10 \<or> j = 13 \<or> j = 22 \<or> j \<in> set xs"
proof (induction n arbitrary: i)
  case (Suc n)
  show ?case
  proof (cases "i = j")
    case True
    with Suc(2) show ?thesis by simp
  next
    case False
    with Suc show ?thesis by (intro Suc.IH [of "i + 1"]) simp_all
  qed
qed simp

lemma all_symbols: "covers (map uint (syms_31_24 @ syms_24_17 @ syms_fe @ syms_15_8 @ syms_11_4)) 0 256"
  by code_simp

lemma symbol_cases:
  assumes "c \<notin> {10, 13, 22 :: byte}"
  shows "c \<in> set syms_31_24 \<or> c \<in> set syms_24_17 \<or> c \<in> set syms_fe \<or> c \<in> set syms_15_8 \<or> c \<in> set syms_11_4"
proof -
  have "uint c \<noteq> uint (10 :: byte)" "uint c \<noteq> uint (13 :: byte)" "uint c \<noteq> uint (22 :: byte)"
    using assms by (simp_all add: word_uint_eq_iff)
  moreover have "uint c < 256" using uint_lt2p [of c] by simp
  ultimately have "uint c \<in> uint ` set (syms_31_24 @ syms_24_17 @ syms_fe @ syms_15_8 @ syms_11_4)"
    using covers_mem [OF all_symbols, of "uint c"] by (simp add: image_Un)
  then obtain d where d: "d \<in> set (syms_31_24 @ syms_24_17 @ syms_fe @ syms_15_8 @ syms_11_4)" "uint c = uint d" by blast
  then have "c = d" by (simp add: word_uint_eq_iff)
  with d show ?thesis by auto
qed

end
