(* ===== verification/Huffman_Lookup.thy ===== *)
theory Huffman_Lookup
  imports Huffman_Tables
begin

unbundle bit_operations_syntax

text \<open>
  The lookup of a code in the tables of HAProxy's Huffman decoder (\<open>hpack-huff.c\<close>, the first half of the loop
  of \<open>huff_dec\<close>): which of the five tables a word of the input is looked up in, and that the code of every byte
  but three is found there.
\<close>

section \<open>The lookup\<close>

text \<open>The length and the symbol of the code at the top of the word; \<open>None\<close> for the end of the string.\<close>

definition huff_symbol :: "u32 \<Rightarrow> (nat \<times> byte) option" where
  "huff_symbol code =
     (if drop_bit 24 code < 0xfe then
        let (c, l) = rht_bit31_24 ! unat (drop_bit 24 code) in Some (l, c)
      else if drop_bit 17 code AND 0xff < 0xff then
        let (c, l) = rht_bit24_17 ! unat (drop_bit 17 code AND 0xff) in Some (l, c)
      else if drop_bit 16 code AND 0xff < 0xff then
        let (c, l) = rht_bit15_11_fe ! unat (drop_bit 11 code AND 0x1f) in Some (l, c)
      else if drop_bit 8 code AND 0xff < 0xf6 then
        let (c, l) = rht_bit15_8 ! unat (drop_bit 8 code AND 0xff) in Some (l, c)
      else
        let (c, l) = rht_bit11_4 ! unat (drop_bit 4 code AND 0xff)
        in if l < 30 then Some (l, c)
           else if code AND 0xff = 0xf0 then Some (l, 10)
           else if code AND 0xff = 0xf4 then Some (l, 13)
           else if code AND 0xff = 0xf8 then Some (l, 22)
           else None)"

section \<open>The tables hold the codes\<close>

lemma and_low: "uint (x AND mask n :: u32) = uint x mod 2 ^ n"
  by (metis take_bit_eq_mask take_bit_eq_mod unsigned_take_bit_eq)

lemma top_bits: "uint (drop_bit n w :: u32) = uint w div 2 ^ n"
  using take_bit_int_eq_self [of "uint w" 32] uint_lt2p [of w] by (subst unsigned_drop_bit_eq) (simp add: drop_bit_eq_div)

lemma and_lows:
  "uint (x AND 0xff :: u32) = uint x mod 256" "uint (x AND 0x1f :: u32) = uint x mod 32"
  using and_low [of x 8] and_low [of x 5] by (simp_all add: mask_eq_exp_minus_1)

lemma symbol_parts:
  "unat (drop_bit 24 w) = nat (uint (w :: u32) div 2 ^ 24)"
  "drop_bit 24 w < 0xfe \<longleftrightarrow> uint w div 2 ^ 24 < 0xfe"
  "unat (drop_bit n w AND 0xff) = nat (uint w div 2 ^ n mod 256)"
  "unat (drop_bit n w AND 0x1f) = nat (uint w div 2 ^ n mod 32)"
  "drop_bit n w AND 0xff < 0xff \<longleftrightarrow> uint w div 2 ^ n mod 256 < 0xff"
  "drop_bit n w AND 0xff < 0xf6 \<longleftrightarrow> uint w div 2 ^ n mod 256 < 0xf6"
  by (simp_all add: word_less_def and_lows top_bits flip: nat_uint_eq)

lemma huff_symbol_int:
  "huff_symbol w =
     (if uint w div 2 ^ 24 < 0xfe then let (c, l) = rht_bit31_24 ! nat (uint w div 2 ^ 24) in Some (l, c)
      else if uint w div 2 ^ 17 mod 256 < 0xff then let (c, l) = rht_bit24_17 ! nat (uint w div 2 ^ 17 mod 256) in Some (l, c)
      else if uint w div 2 ^ 16 mod 256 < 0xff then let (c, l) = rht_bit15_11_fe ! nat (uint w div 2 ^ 11 mod 32) in Some (l, c)
      else if uint w div 2 ^ 8 mod 256 < 0xf6 then let (c, l) = rht_bit15_8 ! nat (uint w div 2 ^ 8 mod 256) in Some (l, c)
      else
        let (c, l) = rht_bit11_4 ! nat (uint w div 2 ^ 4 mod 256)
        in if l < 30 then Some (l, c)
           else if w AND 0xff = 0xf0 then Some (l, 10)
           else if w AND 0xff = 0xf4 then Some (l, 13)
           else if w AND 0xff = 0xf8 then Some (l, 22)
           else None)"
  unfolding huff_symbol_def symbol_parts by (rule refl)

lemma table_widths: "length rht_bit31_24 = 256" "length rht_bit24_17 = 256" "length rht_bit15_11_fe = 32"
    "length rht_bit15_8 = 256" "length rht_bit11_4 = 256"
  by code_simp+

lemma table_ends:
  "drop 254 rht_bit31_24 = [(0, 0), (0, 0)]" "drop 255 rht_bit24_17 = [(0, 0)]" "drop 0xf6 rht_bit15_8 = replicate 10 (0, 0)"
  by code_simp+

lemma table_ok_width:
  "table_ok k p cs tab \<Longrightarrow> c \<in> set cs \<Longrightarrow> ht ! unat c = (code, b) \<Longrightarrow> b \<le> k"
  by (induction k p cs tab rule: table_ok.induct) (auto simp: Let_def)

lemma high_bits:
  assumes "l \<le> u div 2 ^ k" "u div 2 ^ k < h" "q * 2 ^ m \<le> l" "h \<le> (q + 1) * 2 ^ m"
  shows "(u :: int) div 2 ^ (k + m) = q"
proof -
  define y where "y = u div 2 ^ k"
  have "y div 2 ^ m = q"
    using assms unfolding y_def [symmetric] by (intro int_div_pos_eq [of _ _ _ "y - q * 2 ^ m"]) (auto simp: algebra_simps)
  then show ?thesis by (simp add: y_def power_add zdiv_zmult2_eq)
qed

text \<open>The decoder finds the code at the top of the word.\<close>

lemma huff_symbol_code:
  assumes "c \<notin> {10, 13, 22}" "ht ! unat c = (code, b)" "uint w div 2 ^ (32 - b) = uint code"
  shows "huff_symbol w = Some (b, c)"
proof -
  have at: "p \<le> uint w div 2 ^ (32 - k) \<and> nat (uint w div 2 ^ (32 - k) - p) < length tab
      \<and> tab ! nat (uint w div 2 ^ (32 - k) - p) = (c, b) \<and> 0 < b \<and> b \<le> k"
    if "table_ok k p cs tab" "c \<in> set cs" "k \<le> 32" for k p cs tab
  proof -
    have "(32 - k) + (k - b) = 32 - b" using that(3) table_ok_width [OF that(1,2) assms(2)] by simp
    then have "uint w div 2 ^ (32 - k) div 2 ^ (k - b) = uint code"
      using assms(3) by (metis power_add zdiv_zmult2_eq zero_le_numeral zero_le_power)
    from table_ok_lookup [OF that(1,2) assms(2) this] show ?thesis .
  qed
  let ?u = "uint w"
  from symbol_cases [OF assms(1)] consider "c \<in> set syms_31_24" | "c \<in> set syms_24_17" | "c \<in> set syms_fe"
    | "c \<in> set syms_15_8" | "c \<in> set syms_11_4" by blast
  then show ?thesis
  proof cases
    case 1
    define y where "y = ?u div 2 ^ 24"
    from at [OF table_31_24 1] have y: "0 \<le> y" "y < 256" "rht_bit31_24 ! nat y = (c, b)" "0 < b"
      by (auto simp: y_def table_widths nat_less_iff)
    have "y \<noteq> 254" "y \<noteq> 255" using y(3,4) nth_drop [of 254 rht_bit31_24 0] nth_drop [of 254 rht_bit31_24 1]
      by (auto simp: table_ends table_widths)
    with y(2) have "y < 254" by linarith
    with y(3) show ?thesis unfolding huff_symbol_int y_def [symmetric] by simp
  next
    case 2
    define y where "y = ?u div 2 ^ 17"
    from at [OF table_24_17 2] have y: "0x7f00 \<le> y" "y < 0x8000" "rht_bit24_17 ! nat (y - 0x7f00) = (c, b)" "0 < b"
      by (auto simp: y_def table_widths nat_less_iff)
    have "y - 0x7f00 \<noteq> 255" using y(3,4) nth_drop [of 255 rht_bit24_17 0] by (auto simp: table_ends table_widths)
    moreover have "y mod 256 = y - 0x7f00" using y(1,2) by presburger
    moreover have "?u div 2 ^ 24 = y div 128" unfolding y_def by (simp flip: zdiv_zmult2_eq)
    moreover have "\<not> y div 128 < 0xfe" using y(1) by presburger
    ultimately have "y mod 256 < 255" "\<not> ?u div 2 ^ 24 < 0xfe" "y mod 256 = y - 0x7f00" using y(2) by linarith+
    with y(3) show ?thesis unfolding huff_symbol_int y_def [symmetric] by simp
  next
    case 3
    define y where "y = ?u div 2 ^ 11"
    from at [OF table_fe 3] have y: "0x1fffc0 \<le> y" "y < 0x1fffe0" "rht_bit15_11_fe ! nat (y - 0x1fffc0) = (c, b)"
      by (auto simp: y_def table_widths nat_less_iff)
    have "?u div 2 ^ (11 + 13) = 0xff" "?u div 2 ^ (11 + 6) = 0x7fff" "?u div 2 ^ (11 + 5) = 0xfffe"
      by (rule high_bits [OF y(1,2) [unfolded y_def]]; simp)+
    then have "?u div 2 ^ 24 = 0xff" "?u div 2 ^ 17 = 0x7fff" "?u div 2 ^ 16 = 0xfffe" by simp_all
    moreover have "y mod 32 = y - 0x1fffc0" using y(1,2) by presburger
    ultimately show ?thesis using y(3) unfolding huff_symbol_int y_def [symmetric] by simp
  next
    case 4
    define y where "y = ?u div 2 ^ 8"
    from at [OF table_15_8 4] have y: "0xffff00 \<le> y" "y < 0x1000000" "rht_bit15_8 ! nat (y - 0xffff00) = (c, b)" "0 < b"
      by (auto simp: y_def table_widths nat_less_iff)
    have n: "\<not> 0xf6 \<le> y - 0xffff00"
    proof
      assume l: "0xf6 \<le> y - 0xffff00"
      with y(2) have "rht_bit15_8 ! nat (y - 0xffff00) = drop 0xf6 rht_bit15_8 ! (nat (y - 0xffff00) - 0xf6)"
        by (simp add: table_widths)
      also have "\<dots> = (0, 0)" unfolding table_ends using l y(2) by (subst nth_replicate) auto
      finally show False using y(3,4) by simp
    qed
    have "?u div 2 ^ (8 + 16) = 0xff" "?u div 2 ^ (8 + 9) = 0x7fff" "?u div 2 ^ (8 + 8) = 0xffff"
      by (rule high_bits [OF y(1,2) [unfolded y_def]]; simp)+
    then have "?u div 2 ^ 24 = 0xff" "?u div 2 ^ 17 = 0x7fff" "?u div 2 ^ 16 = 0xffff" by simp_all
    moreover have "y mod 256 = y - 0xffff00" using y(1,2) by presburger
    ultimately show ?thesis using y(3) n unfolding huff_symbol_int y_def [symmetric] by simp
  next
    case 5
    define y where "y = ?u div 2 ^ 4"
    from at [OF table_11_4 5] have y: "0xfffff60 \<le> y" "y < 0x10000000" "rht_bit11_4 ! (0x60 + nat (y - 0xfffff60)) = (c, b)" "b \<le> 28"
      by (auto simp: y_def table_widths nat_less_iff)
    have "?u div 2 ^ (4 + 20) = 0xff" "?u div 2 ^ (4 + 13) = 0x7fff" "?u div 2 ^ (4 + 12) = 0xffff"
      by (rule high_bits [OF y(1,2) [unfolded y_def]]; simp)+
    then have "?u div 2 ^ 24 = 0xff" "?u div 2 ^ 17 = 0x7fff" "?u div 2 ^ 16 = 0xffff" by simp_all
    moreover have "\<not> ?u div 2 ^ 8 mod 256 < 0xf6"
    proof -
      define z where "z = y div 16"
      have u: "?u div 2 ^ 8 = z" unfolding z_def y_def by (simp flip: zdiv_zmult2_eq)
      have "0xfffff6 \<le> z" "z \<le> 0xffffff" using y(1,2) by (simp_all add: z_def)
      then have "\<not> z mod 256 < 0xf6" by presburger
      then show ?thesis unfolding u .
    qed
    moreover have "rht_bit11_4 ! nat (y mod 256) = (c, b)"
    proof -
      have "y mod 256 = 0x60 + (y - 0xfffff60)" using y(1,2) by presburger
      then have "nat (y mod 256) = 0x60 + nat (y - 0xfffff60)" using y(1) by simp
      with y(3) show ?thesis by simp
    qed
    ultimately show ?thesis using y(4) unfolding huff_symbol_int y_def [symmetric] by (simp only: if_False Let_def split) simp
  qed
qed

end
