(* ===== verification/Hpack_Huffman.thy ===== *)
theory Hpack_Huffman
  imports Huffman_Lookup
begin

unbundle bit_operations_syntax

text \<open>
  The Huffman coder and decoder of HAProxy (\<open>hpack-huff.c\<close>): the coder, which the program only counts bits
  with, the window of 64 bits the decoder keeps over its input, the refill of the window, and the check of the
  padding.

  The lemmas relate the window to the bits of the input; the property is that a string coded with the table decodes
  to itself, except for three control characters.
\<close>

section \<open>The decoder\<close>

text \<open>The number of bits \<open>huff_enc\<close> counts; it emits no code.\<close>

fun huff_enc_bits :: "byte list \<Rightarrow> nat" where
  "huff_enc_bits [] = 7"
| "huff_enc_bits (c # s) = (if c = 0 then 7 else snd (ht ! unat c) + huff_enc_bits s)"

definition huff_enc :: "byte list \<Rightarrow> nat" where
  "huff_enc s = huff_enc_bits s div 8"

text \<open>The next four bytes of the input at position \<open>p\<close>, with zeros behind its end, and the position behind them.\<close>

definition huff_byte :: "byte list \<Rightarrow> nat \<Rightarrow> u32" where
  "huff_byte huff p = (if p < length huff then ucast (huff ! p) else 0)"

definition huff_next :: "byte list \<Rightarrow> nat \<Rightarrow> u32 \<times> nat" where
  "huff_next huff p =
     (push_bit 24 (huff_byte huff p) + push_bit 16 (huff_byte huff (p + 1)) + push_bit 8 (huff_byte huff (p + 2)) + huff_byte huff (p + 3),
      if p + 4 \<le> length huff then p + 4 else length huff)"

function huff_refill :: "byte list \<Rightarrow> u32 \<Rightarrow> u32 \<Rightarrow> nat \<Rightarrow> nat \<Rightarrow> u32 \<times> u32 \<times> nat \<times> nat" where
  "huff_refill huff cur nxt p shift =
     (if shift \<ge> 32 then case huff_next huff p of (nxt', p') \<Rightarrow> huff_refill huff nxt nxt' p' (shift - 32)
      else (cur, nxt, p, shift))"
  by auto
termination by (relation "measure (\<lambda>(huff, cur, nxt, p, shift). shift)") auto

declare huff_refill.simps [simp del]

definition huff_code :: "u32 \<Rightarrow> u32 \<Rightarrow> nat \<Rightarrow> u32" where
  "huff_code cur nxt shift = (if shift \<noteq> 0 then push_bit shift cur + drop_bit (32 - shift) nxt else cur)"

text \<open>The loop: \<open>bleft\<close> bits are left, \<open>code\<close> is the word looked at last, \<open>out\<close> what has been written.\<close>

function huff_loop :: "byte list \<Rightarrow> nat \<Rightarrow> nat \<Rightarrow> u32 \<Rightarrow> u32 \<Rightarrow> nat \<Rightarrow> nat \<Rightarrow> u32 \<Rightarrow> byte list \<Rightarrow> nat \<times> u32 \<times> byte list" where
  "huff_loop huff olen bleft cur nxt p shift code out =
     (if bleft > 0 \<and> length out \<noteq> olen then
        let (cur, nxt, p, shift) = huff_refill huff cur nxt p shift;
            code = huff_code cur nxt shift
        in case huff_symbol code of
             None \<Rightarrow> (bleft, code, out)
           | Some (l, c) \<Rightarrow>
               if l = 0 \<or> bleft < l then (bleft, code, out)
               else huff_loop huff olen (bleft - l) cur nxt p (shift + l) code (out @ [c])
      else (bleft, code, out))"
  by auto
termination by (relation "measure (\<lambda>(huff, olen, bleft, _). bleft)") auto

declare huff_loop.simps [simp del]

text \<open>
  \<open>bleft = hlen << 3\<close>, an \<open>int\<close>: from \<open>2^28\<close> bytes on the product wraps. When the result is negative the loop
  is not entered and nothing is checked, as for 0.
\<close>

definition bits_left :: "nat \<Rightarrow> nat" where
  "bits_left hlen = nat (sint (word_of_int (int hlen * 8) :: u32))"

text \<open>What is written, or \<open>None\<close> for -1; the input is shorter than \<open>2^31\<close> bytes, as its length is an \<open>int\<close>.\<close>

definition huff_dec :: "byte list \<Rightarrow> nat \<Rightarrow> byte list option" where
  "huff_dec huff olen =
     (case huff_loop huff olen (bits_left (length huff)) 0 0 0 64 0 [] of
        (bleft, code, out) \<Rightarrow>
          let mask = - push_bit (32 - bleft) (1 :: u32)
          in if bleft > 0 \<and> (bleft > 7 \<or> code AND mask \<noteq> mask) then None else Some out)"


lemma bits_left_small: "n < 2 ^ 28 \<Longrightarrow> bits_left n = n * 8"
proof -
  assume "n < 2 ^ 28"
  then have "sint (word_of_int (int n * 8) :: u32) = int n * 8"
    unfolding sint_sbintrunc' by (intro signed_take_bit_int_eq_self) simp_all
  then show ?thesis unfolding bits_left_def by simp
qed

text \<open>The end of the range: half of the inputs of \<open>2^28\<close> bytes or more are taken for empty ones.\<close>

lemma bits_left_wraps: "bits_left (2 ^ 28 - 1) = 2 ^ 31 - 8" "bits_left (2 ^ 28) = 0" "bits_left (2 ^ 29) = 0" "bits_left (2 ^ 29 + 1) = 8"
  by (simp_all add: bits_left_def)

section \<open>The window over the bits of the input\<close>

text \<open>The bits of the input, 64 places further to the right; \<open>word_at\<close> is the word at a place.\<close>

definition stream :: "byte list \<Rightarrow> nat \<Rightarrow> bool" where
  "stream huff i \<longleftrightarrow> 64 \<le> i \<and> i - 64 < 8 * length huff \<and> bit (huff ! ((i - 64) div 8)) (7 - (i - 64) mod 8)"

definition word_at :: "byte list \<Rightarrow> nat \<Rightarrow> u32" where
  "word_at huff q = horner_sum of_bool 2 (map (\<lambda>j. stream huff (q + 31 - j)) [0..<32])"

lemma bit_word_at [simp]: "bit (word_at huff q) j \<longleftrightarrow> j < 32 \<and> stream huff (q + 31 - j)"
  by (auto simp: word_at_def bit_horner_sum_bit_word_iff)

lemma bit_huff_byte: "bit (huff_byte huff p) j \<longleftrightarrow> j < 8 \<and> stream huff (64 + 8 * p + 7 - j)"
proof (cases "j < 8")
  case True
  then have e: "64 + 8 * p + 7 - j - 64 = 8 * p + (7 - j)" by simp
  have "(8 * p + (7 - j)) div 8 = p" "(8 * p + (7 - j)) mod 8 = 7 - j" by simp_all
  moreover have "8 * p + (7 - j) < 8 * length huff \<longleftrightarrow> p < length huff" by linarith
  ultimately show ?thesis using True unfolding stream_def e by (auto simp: huff_byte_def bit_simps)
next
  case False
  then show ?thesis using bit_imp_le_length [of "huff ! p" j] by (auto simp: huff_byte_def bit_simps)
qed

lemma add_or: "(\<And>n. bit x n \<Longrightarrow> \<not> bit y n) \<Longrightarrow> (x :: u32) + y = x OR y"
  by (rule disjunctive_add_eq_or) (auto intro!: bit_eqI simp: bit_simps)

lemma bit_four_bytes:
  fixes a b c d :: u32
  assumes "\<And>j. bit a j \<Longrightarrow> j < 8" "\<And>j. bit b j \<Longrightarrow> j < 8" "\<And>j. bit c j \<Longrightarrow> j < 8" "\<And>j. bit d j \<Longrightarrow> j < 8"
  shows "bit (push_bit 24 a + push_bit 16 b + push_bit 8 c + d) j \<longleftrightarrow>
     (if j < 8 then bit d j else if j < 16 then bit c (j - 8) else if j < 24 then bit b (j - 16) else j < 32 \<and> bit a (j - 24))"
proof -
  have 1: "push_bit 24 a + push_bit 16 b = push_bit 24 a OR push_bit 16 b"
    by (rule add_or) (use assms(2) in \<open>fastforce simp: bit_simps\<close>)
  have 2: "push_bit 24 a + push_bit 16 b + push_bit 8 c = (push_bit 24 a OR push_bit 16 b) OR push_bit 8 c"
    unfolding 1 by (rule add_or) (use assms(3) in \<open>fastforce simp: bit_simps\<close>)
  have 3: "push_bit 24 a + push_bit 16 b + push_bit 8 c + d = ((push_bit 24 a OR push_bit 16 b) OR push_bit 8 c) OR d"
    unfolding 2 by (rule add_or) (use assms(4) in \<open>fastforce simp: bit_simps\<close>)
  consider "j < 8" | "8 \<le> j" "j < 16" | "16 \<le> j" "j < 24" | "24 \<le> j" by linarith
  then show ?thesis unfolding 3
    by cases (use assms(2) [of "j - 16"] assms(3) [of "j - 8"] assms(4) [of j] in \<open>auto simp: bit_simps\<close>)
qed

lemma huff_next_word:
  "fst (huff_next huff p) = word_at huff (64 + 8 * p)"
proof (rule bit_eqI)
  fix j :: nat
  have "j < 8 \<or> (8 \<le> j \<and> j < 16) \<or> (16 \<le> j \<and> j < 24) \<or> (24 \<le> j \<and> j < 32) \<or> 32 \<le> j" by linarith
  then show "bit (fst (huff_next huff p)) j \<longleftrightarrow> bit (word_at huff (64 + 8 * p)) j"
    unfolding huff_next_def fst_conv
    by (subst bit_four_bytes) (auto simp: bit_huff_byte algebra_simps intro!: arg_cong [of _ _ "stream huff"])
qed

lemma word_at_end: "64 + 8 * length huff \<le> q \<Longrightarrow> word_at huff q = 0"
  by (rule bit_eqI) (auto simp: stream_def)

lemma word_at_start: "q \<le> 32 \<Longrightarrow> word_at huff q = 0"
  by (rule bit_eqI) (auto simp: stream_def)

text \<open>The two words of the decoder are those at a multiple of 32, \<open>shift\<close> places before the place \<open>q\<close> it looks at.\<close>

definition window :: "byte list \<Rightarrow> nat \<Rightarrow> u32 \<Rightarrow> u32 \<Rightarrow> nat \<Rightarrow> nat \<Rightarrow> bool" where
  "window huff q cur nxt p shift \<longleftrightarrow>
     (\<exists>k. q = 32 * k + shift \<and> cur = word_at huff (32 * k) \<and> nxt = word_at huff (32 * k + 32) \<and> p = min (length huff) (4 * k))"

lemma window_start: "window huff 64 0 0 0 64"
  by (auto simp: window_def word_at_start intro!: exI [of _ 0])

lemma window_shift: "window huff q cur nxt p shift \<Longrightarrow> window huff (q + l) cur nxt p (shift + l)"
  by (auto simp: window_def)

lemma refill_window:
  "window huff q cur nxt p shift \<Longrightarrow> huff_refill huff cur nxt p shift = (cur', nxt', p', shift') \<Longrightarrow>
   window huff q cur' nxt' p' shift' \<and> shift' < 32"
proof (induction huff cur nxt p shift rule: huff_refill.induct)
  case (1 huff cur nxt p shift)
  show ?case
  proof (cases "32 \<le> shift")
    case True
    obtain k where k: "q = 32 * k + shift" "nxt = word_at huff (32 * k + 32)" "p = min (length huff) (4 * k)"
      using 1(2) by (auto simp: window_def)
    obtain w r where n: "huff_next huff p = (w, r)" by (cases "huff_next huff p")
    have "word_at huff (64 + 8 * p) = word_at huff (32 * k + 64)"
    proof (cases "4 * k \<le> length huff")
      case True
      then have "p = 4 * k" using k(3) by simp
      then show ?thesis by (simp add: algebra_simps)
    next
      case False
      then show ?thesis using k(3) by (simp add: word_at_end)
    qed
    then have w: "w = word_at huff (32 * k + 64)" using huff_next_word [of huff p] n by simp
    have r: "r = min (length huff) (4 * (k + 1))" using n k(3) by (auto simp: huff_next_def)
    have "window huff q nxt w r (shift - 32)"
      unfolding window_def using k w r True by (intro exI [of _ "k + 1"]) (simp add: algebra_simps)
    with 1(1) [OF True n [symmetric]] 1(3) n True show ?thesis by (simp add: huff_refill.simps [of huff cur])
  next
    case False
    with 1(2,3) show ?thesis by (simp add: huff_refill.simps)
  qed
qed

lemma code_window:
  assumes "window huff q cur nxt p shift" "shift < 32"
  shows "huff_code cur nxt shift = word_at huff q"
proof -
  obtain k where k: "q = 32 * k + shift" "cur = word_at huff (32 * k)" "nxt = word_at huff (32 * k + 32)"
    using assms(1) by (auto simp: window_def)
  have s: "push_bit shift cur + drop_bit (32 - shift) nxt = push_bit shift cur OR drop_bit (32 - shift) nxt" if "shift \<noteq> 0"
    by (rule add_or) (use that k assms(2) in \<open>auto simp: bit_simps\<close>)
  show ?thesis
  proof (cases "shift = 0")
    case False
    show ?thesis
      unfolding huff_code_def s [OF False] if_P [OF False]
      by (rule bit_eqI) (use k assms(2) False in \<open>auto simp: bit_simps algebra_simps intro!: arg_cong [of _ _ "stream huff"]\<close>)
  qed (use k in \<open>simp add: huff_code_def\<close>)
qed

lemma step_window:
  assumes "window huff q cur nxt p shift"
  obtains cur' nxt' p' shift' where "huff_refill huff cur nxt p shift = (cur', nxt', p', shift')" "window huff q cur' nxt' p' shift'"
    "huff_code cur' nxt' shift' = word_at huff q"
proof -
  obtain cur' nxt' p' shift' where r: "huff_refill huff cur nxt p shift = (cur', nxt', p', shift')" using prod_cases4 by blast
  from refill_window [OF assms r] have "window huff q cur' nxt' p' shift'" "shift' < 32" by simp_all
  with r code_window that show ?thesis by blast
qed

section \<open>A coded string decodes to itself\<close>

text \<open>
  The encoder of the table (RFC 7541, 5.2), which the source does not have: the codes of the bytes one after another,
  and ones up to the end of the last byte.
\<close>

definition code_bits :: "byte \<Rightarrow> bool list" where
  "code_bits c = (case ht ! unat c of (code, b) \<Rightarrow> map (\<lambda>j. bit code (b - 1 - j)) [0..<b])"

definition huff_bits :: "byte list \<Rightarrow> bool list" where
  "huff_bits s = concat (map code_bits s)"

definition huff_pad :: "byte list \<Rightarrow> nat" where
  "huff_pad s = (8 - length (huff_bits s) mod 8) mod 8"

definition pack :: "bool list \<Rightarrow> byte list" where
  "pack bs = map (\<lambda>i. horner_sum of_bool 2 (rev (take 8 (drop (8 * i) bs)))) [0..<length bs div 8]"

definition huff_encode :: "byte list \<Rightarrow> byte list" where
  "huff_encode s = pack (huff_bits s @ replicate (huff_pad s) True)"

lemma length_pack [simp]: "length (pack bs) = length bs div 8"
  by (simp add: pack_def)

lemma bit_pack:
  assumes "i < 8 * (length bs div 8)"
  shows "bit (pack bs ! (i div 8)) (7 - i mod 8) = bs ! i"
proof -
  have i: "i div 8 < length bs div 8" using assms by linarith
  then have l: "8 * (i div 8) + 8 \<le> length bs" by linarith
  have m: "i mod 8 < 8" "7 - i mod 8 < 8" "7 - (7 - i mod 8) = i mod 8" by simp_all
  have "8 * (i div 8) + i mod 8 = i" by simp
  with i l m show ?thesis
    by (simp add: pack_def bit_horner_sum_bit_word_iff rev_nth)
qed

lemma stream_pack:
  assumes "8 dvd length bs" "i < length bs"
  shows "stream (pack bs) (64 + i) = bs ! i"
  using assms bit_pack [of i bs] by (simp add: stream_def)

lemma stream_pack_end: "length bs \<le> i \<Longrightarrow> \<not> stream (pack bs) (64 + i)"
  by (auto simp: stream_def)

lemma huff_pad_less: "huff_pad s < 8"
  by (simp add: huff_pad_def)

lemma huff_pad_dvd: "8 dvd length (huff_bits s) + huff_pad s"
proof (cases "length (huff_bits s) mod 8 = 0")
  case False
  then have "length (huff_bits s) + huff_pad s = 8 * (length (huff_bits s) div 8) + 8"
    using mult_div_mod_eq [of 8 "length (huff_bits s)"] mod_less_divisor [of 8 "length (huff_bits s)"]
    unfolding huff_pad_def by (subst mod_less) linarith+
  then show ?thesis by simp
qed (simp add: huff_pad_def dvd_eq_mod_eq_0)

text \<open>A code at a place of the stream is the symbol the decoder finds there.\<close>

lemma stream_symbol:
  assumes "c \<notin> {10, 13, 22}" "ht ! unat c = (code, b)" "\<forall>j < b. stream huff (q + j) = bit code (b - 1 - j)"
  shows "huff_symbol (word_at huff q) = Some (b, c)"
proof (rule huff_symbol_code [OF assms(1,2)])
  have b: "5 \<le> b" "b \<le> 30" "uint code < 2 ^ b" using ht_code [OF assms(2)] by simp_all
  have z: "\<not> bit code j" if "b \<le> j" for j
  proof -
    have "take_bit b (uint code) = uint code" using b(3) by (simp add: take_bit_int_eq_self)
    then have "take_bit b code = code" by (metis unsigned_take_bit_eq word_uint_eq_iff)
    then have "bit code j \<longleftrightarrow> bit (take_bit b code) j" by simp
    with that show ?thesis by (simp add: bit_take_bit_iff)
  qed
  have "drop_bit (32 - b) (word_at huff q) = code"
  proof (rule bit_eqI)
    fix j
    show "bit (drop_bit (32 - b) (word_at huff q)) j \<longleftrightarrow> bit code j"
    proof (cases "j < b")
      case True
      then have "q + 31 - (32 - b + j) = q + (b - 1 - j)" "b - 1 - (b - 1 - j) = j" "32 - b + j < 32" using b(1,2) by linarith+
      moreover have "stream huff (q + (b - 1 - j)) = bit code (b - 1 - (b - 1 - j))" by (rule assms(3) [rule_format]) (use True in simp)
      ultimately show ?thesis unfolding bit_drop_bit_eq comp_def bit_word_at by metis
    next
      case False
      then have "\<not> 32 - b + j < 32" using b(2) by linarith
      with z [of j] False show ?thesis unfolding bit_drop_bit_eq comp_def bit_word_at by simp
    qed
  qed
  then show "uint (word_at huff q) div 2 ^ (32 - b) = uint code" by (simp flip: top_bits)
qed

text \<open>Seven ones or less followed by zeros are no code of that length.\<close>

definition ones :: "nat \<Rightarrow> u32" where
  "ones n = push_bit (32 - n) (mask n)"

lemma ones_symbol:
  assumes "0 < n" "n < 8"
  shows "case huff_symbol (ones n) of None \<Rightarrow> True | Some (l, c) \<Rightarrow> n < l"
proof -
  have "list_all (\<lambda>n. case huff_symbol (ones n) of None \<Rightarrow> True | Some (l, c) \<Rightarrow> n < l) [1, 2, 3, 4, 5, 6, 7]" by code_simp
  moreover have "n \<in> set [1, 2, 3, 4, 5, 6, 7]" using assms by auto
  ultimately show ?thesis unfolding list_all_iff by blast
qed

lemma ones_mask:
  assumes "0 < n" "n < 8"
  shows "ones n AND - push_bit (32 - n) 1 = - push_bit (32 - n) 1"
proof -
  have "list_all (\<lambda>n. ones n AND - push_bit (32 - n) 1 = - push_bit (32 - n) 1) [1, 2, 3, 4, 5, 6, 7]" by code_simp
  moreover have "n \<in> set [1, 2, 3, 4, 5, 6, 7]" using assms by auto
  ultimately show ?thesis unfolding list_all_iff by blast
qed

lemma ones_word:
  assumes "n < 8" "\<forall>j < n. stream huff (q + j)" "\<forall>j \<ge> n. \<not> stream huff (q + j)"
  shows "word_at huff q = ones n"
proof (rule bit_eqI)
  fix j
  show "bit (word_at huff q) j \<longleftrightarrow> bit (ones n) j"
  proof (cases "j < 32")
    case True
    then have "q + 31 - j = q + (31 - j)" "31 - j < n \<longleftrightarrow> 32 - n \<le> j" using assms(1) by linarith+
    moreover have "stream huff (q + (31 - j)) \<longleftrightarrow> 31 - j < n" using assms(2,3) by (metis not_less)
    ultimately show ?thesis using True by (auto simp: ones_def bit_simps)
  next
    case False
    then show ?thesis using bit_imp_le_length [of "ones n" j] by auto
  qed
qed

text \<open>The loop over what is left of the coded string.\<close>

lemma huff_loop_codes:
  assumes "window huff q cur nxt p shift" "n < 8" "length out + length s < olen" "set s \<inter> {10, 13, 22} = {}"
    "\<forall>j < length (huff_bits s). stream huff (q + j) = huff_bits s ! j"
    "\<forall>j < n. stream huff (q + length (huff_bits s) + j)" "\<forall>j \<ge> n. \<not> stream huff (q + length (huff_bits s) + j)"
  shows "\<exists>w. huff_loop huff olen (length (huff_bits s) + n) cur nxt p shift code out = (n, w, out @ s) \<and> (0 < n \<longrightarrow> w = ones n)"
  using assms
proof (induction s arbitrary: q cur nxt p shift code out)
  case Nil
  show ?case
  proof (cases "n = 0")
    case True
    then show ?thesis by (simp add: huff_loop.simps huff_bits_def)
  next
    case False
    obtain cur' nxt' p' shift' where r: "huff_refill huff cur nxt p shift = (cur', nxt', p', shift')"
      "huff_code cur' nxt' shift' = word_at huff q" using step_window [OF Nil(1)] by metis
    have w: "word_at huff q = ones n" using Nil(2,6,7) by (intro ones_word) (simp_all add: huff_bits_def)
    show ?thesis using False Nil(3) r w ones_symbol [of n] Nil(2)
      by (auto simp: huff_loop.simps [of huff olen] huff_bits_def split: option.splits)
  qed
next
  case (Cons c s)
  obtain cur' nxt' p' shift' where r: "huff_refill huff cur nxt p shift = (cur', nxt', p', shift')"
    "window huff q cur' nxt' p' shift'" "huff_code cur' nxt' shift' = word_at huff q" using step_window [OF Cons(2)] by metis
  obtain code' b where h: "ht ! unat c = (code', b)" by (cases "ht ! unat c")
  have b: "5 \<le> b" using ht_code [OF h] by simp
  have cb: "code_bits c = map (\<lambda>j. bit code' (b - 1 - j)) [0..<b]" "huff_bits (c # s) = code_bits c @ huff_bits s"
    by (simp_all add: code_bits_def h huff_bits_def)
  then have l: "length (huff_bits (c # s)) = b + length (huff_bits s)" by simp
  have f: "huff_symbol (word_at huff q) = Some (b, c)"
  proof (rule stream_symbol [OF _ h])
    show "c \<notin> {10, 13, 22}" using Cons(5) by auto
    show "\<forall>j < b. stream huff (q + j) = bit code' (b - 1 - j)"
    proof (intro allI impI)
      fix j assume j: "j < b"
      then have "stream huff (q + j) = huff_bits (c # s) ! j" using Cons(6) l by simp
      with j show "stream huff (q + j) = bit code' (b - 1 - j)" by (simp add: cb nth_append)
    qed
  qed
  have rest: "stream huff (q + b + j) = huff_bits s ! j" if "j < length (huff_bits s)" for j
    using Cons(6) l that by (auto simp: cb nth_append add.assoc dest: spec [of _ "b + j"])
  have "\<exists>w. huff_loop huff olen (length (huff_bits s) + n) cur' nxt' p' (shift' + b) (word_at huff q) (out @ [c]) = (n, w, (out @ [c]) @ s)
      \<and> (0 < n \<longrightarrow> w = ones n)"
    using Cons.IH [OF window_shift [OF r(2)] Cons(3), of "out @ [c]" b] Cons(4,5,7,8) rest l by (simp add: add.assoc add.left_commute) 
  then show ?case using Cons(4) b by (simp add: huff_loop.simps [of huff olen _ cur] r f l)
qed

text \<open>C35: The decoder gives back every string that was coded with the table of codes (RFC 7541, 5.2), whatever bytes it has
  except three control characters, and whatever place the codes have relative to the words and bytes of the input,
  when the coded string is shorter than \<open>2^28\<close> bytes, so that the number of its bits is an \<open>int\<close>, and the output
  has room for at least one byte more than the string: when it has room for exactly the string, the loop ends with the
  last byte, the padding is compared with a word that was looked at earlier, and the string is refused or accepted
  by chance.\<close>

theorem huff_roundtrip:
  assumes "set s \<inter> {10, 13, 22} = {}" "length s < olen" "length (huff_encode s) < 2 ^ 28"
  shows "huff_dec (huff_encode s) olen = Some s"
proof -
  let ?bs = "huff_bits s @ replicate (huff_pad s) True"
  have d: "8 dvd length ?bs" using huff_pad_dvd by simp
  have at: "stream (huff_encode s) (64 + i) \<longleftrightarrow> i < length ?bs \<and> ?bs ! i" for i
    using stream_pack [OF d, of i] stream_pack_end [of ?bs i] unfolding huff_encode_def by (cases "i < length ?bs") simp_all
  have "length (huff_encode s) * 8 = length (huff_bits s) + huff_pad s" using d by (simp add: huff_encode_def)
  moreover have "\<exists>w. huff_loop (huff_encode s) olen (length (huff_bits s) + huff_pad s) 0 0 0 64 0 [] = (huff_pad s, w, [] @ s)
      \<and> (0 < huff_pad s \<longrightarrow> w = ones (huff_pad s))"
    by (rule huff_loop_codes [OF window_start huff_pad_less]) (use assms in \<open>auto simp: at add.assoc nth_append\<close>)
  ultimately show ?thesis using ones_mask [of "huff_pad s"] huff_pad_less [of s] by (cases "huff_pad s = 0") (auto simp: huff_dec_def Let_def bits_left_small [OF assms(3)])
qed

theorem huff_roundtrip_witness:
  "huff_dec (huff_encode [119, 119, 119, 46, 0, 255]) 7 = Some [119, 119, 119, 46, 0, 255]"
proof (rule huff_roundtrip)
  have "length (huff_encode [119, 119, 119, 46, 0, 255]) \<le> 12" by code_simp
  also have "(12 :: nat) < 2 ^ 28" by simp
  finally show "length (huff_encode [119, 119, 119, 46, 0, 255]) < 2 ^ 28" .
qed simp_all

text \<open>With room for exactly the string, \<open>a\<close> is refused although it was coded correctly.\<close>

lemma full_output_refused:
  "huff_dec (huff_encode [97]) 1 = None" "huff_dec (huff_encode [97]) 2 = Some [97]"
  by code_simp+

text \<open>A newline, a carriage return or a byte 22 that was coded with the table is refused: the decoder compares eight bits
  with the code although only the upper six of them belong to it.\<close>

lemma control_refused:
  "map (\<lambda>c. huff_dec (huff_encode [c]) 16) [10, 13, 22] = [None, None, None]"
  by code_simp

lemma huff_enc_length:
  "0 \<notin> set s \<Longrightarrow> huff_enc s = length (huff_encode s)"
proof -
  assume "0 \<notin> set s"
  then have "huff_enc_bits s = length (huff_bits s) + 7"
    by (induction s) (auto simp: huff_bits_def code_bits_def split: prod.splits)
  moreover have "(n + 7) div 8 = (n + (8 - n mod 8) mod 8) div 8" for n :: nat
  proof (cases "n mod 8 = 0")
    case True
    then obtain m where "n = 8 * m" by (auto elim: dvdE)
    then show ?thesis by simp
  next
    case False
    then have "n + (8 - n mod 8) = 8 * (n div 8) + 8" "n + 7 = 8 * (n div 8) + 8 + (n mod 8 - 1)" "n mod 8 - 1 < 8"
      using mult_div_mod_eq [of 8 n] mod_less_divisor [of 8 n] by linarith+
    then show ?thesis using False by simp
  qed
  ultimately show ?thesis by (simp add: huff_enc_def huff_encode_def huff_pad_def)
qed

end
