(* ===== verification/Little_Endian.thy ===== *)
theory Little_Endian
  imports Prelude
begin

text \<open>
  Unsigned integers of C and their representation in a block of memory, least significant byte first: results
  reduced to 32 and 16 bits, the bytes of a number and the number that bytes represent.
\<close>

definition as_u32 :: "int \<Rightarrow> nat" where "as_u32 x = nat (x mod 2 ^ 32)"
definition as_u16 :: "int \<Rightarrow> nat" where "as_u16 x = nat (x mod 2 ^ 16)"

fun le_bytes :: "nat \<Rightarrow> nat \<Rightarrow> byte list" where
  "le_bytes 0 v = []"
| "le_bytes (Suc n) v = word_of_nat (v mod 256) # le_bytes n (v div 256)"

fun le_value :: "byte list \<Rightarrow> nat" where
  "le_value [] = 0"
| "le_value (b # bs) = unat b + 256 * le_value bs"

lemma le_value_bytes: "le_value (le_bytes n v) = v mod 256 ^ n"
proof (induction n arbitrary: v)
  case (Suc n)
  have "unat (word_of_nat (v mod 256) :: byte) = v mod 256" by (simp add: unsigned_of_nat take_bit_eq_mod)
  then show ?case using Suc mod_mult2_eq [of v 256 "256 ^ n"] by simp
qed simp

lemma length_le_bytes [simp]: "length (le_bytes n v) = n"
  by (induction n arbitrary: v) simp_all

lemma mem_read_apart [mem_simps]:
  "q + n \<le> p \<or> p + length xs \<le> q \<Longrightarrow> p + length xs \<le> length b \<Longrightarrow> mem_read (memcpy b p xs) q n = mem_read b q n"
  by (metis mem_read_memcpy_after mem_read_memcpy_before le_trans le_add1 add_leD1)

lemma mem_read_stored [simp]: "p + length xs \<le> length b \<Longrightarrow> length xs = k \<Longrightarrow> mem_read (memcpy b p xs) p k = xs"
  using mem_read_memcpy_same by blast

end
