(* ===== verification/Hpack_Table.thy ===== *)
theory Hpack_Table
  imports Little_Endian "HOL-Library.Monad_Syntax"
begin

text \<open>
  The table of recently used headers of an HTTP/2 connection in HAProxy (\<open>hpack-tbl.h\<close>, \<open>hpack-tbl.c\<close>): one
  block of memory with the descriptors at its start, used as a ring, and the names and values stored from
  its end downwards, which may wrap as well.

  The fields of \<open>struct hpack_dht\<close>, the first 16 bytes of the block, are those of the record; the rest of the
  block is \<open>dht_mem\<close>, the list of its bytes, in which descriptors and data really share the space. An access
  outside of the block, or to the bytes of the fields, is \<open>None\<close>. Descriptors are stored as on a little-endian
  machine. A string (\<open>struct ist\<close>) is the list of its bytes, \<open>None\<close> when its pointer is \<open>NULL\<close>.
\<close>

section \<open>The block of memory\<close>

definition fetch :: "byte list \<Rightarrow> nat \<Rightarrow> nat \<Rightarrow> byte list option" where
  "fetch m p n = (if 16 \<le> p \<and> p + n \<le> length m then Some (mem_read m p n) else None)"

definition store :: "byte list \<Rightarrow> nat \<Rightarrow> byte list \<Rightarrow> byte list option" where
  "store m p xs = (if 16 \<le> p \<and> p + length xs \<le> length m then Some (memcpy m p xs) else None)"

section \<open>The table\<close>

record dht =
  dht_size :: nat
  dht_total :: nat
  dht_front :: nat
  dht_wrap :: nat
  dht_head :: nat
  dht_used :: nat
  dht_mem :: "byte list"

definition dte_at :: "nat \<Rightarrow> nat" where "dte_at i = 16 + 8 * i"

definition dte_addr :: "byte list \<Rightarrow> nat \<Rightarrow> nat option" where "dte_addr m i = map_option le_value (fetch m (dte_at i) 4)"
definition dte_nlen :: "byte list \<Rightarrow> nat \<Rightarrow> nat option" where "dte_nlen m i = map_option le_value (fetch m (dte_at i + 4) 2)"
definition dte_vlen :: "byte list \<Rightarrow> nat \<Rightarrow> nat option" where "dte_vlen m i = map_option le_value (fetch m (dte_at i + 6) 2)"
definition set_addr :: "byte list \<Rightarrow> nat \<Rightarrow> nat \<Rightarrow> byte list option" where "set_addr m i v = store m (dte_at i) (le_bytes 4 v)"
definition set_nlen :: "byte list \<Rightarrow> nat \<Rightarrow> nat \<Rightarrow> byte list option" where "set_nlen m i v = store m (dte_at i + 4) (le_bytes 2 v)"
definition set_vlen :: "byte list \<Rightarrow> nat \<Rightarrow> nat \<Rightarrow> byte list option" where "set_vlen m i v = store m (dte_at i + 6) (le_bytes 2 v)"

definition HPACK_SHT_SIZE :: nat where "HPACK_SHT_SIZE = 62"

text \<open>\<open>fresh\<close> is what \<open>malloc\<close> returns: the contents of the block, or \<open>None\<close>.\<close>

definition hpack_dht_init :: "nat \<Rightarrow> byte list \<Rightarrow> nat \<Rightarrow> nat \<Rightarrow> nat \<Rightarrow> dht" where
  "hpack_dht_init sz m front wrap head =
     \<lparr>dht_size = sz, dht_total = 0, dht_front = front, dht_wrap = wrap, dht_head = head, dht_used = 0, dht_mem = m\<rparr>"

definition hpack_dht_alloc :: "(nat \<Rightarrow> byte) option \<Rightarrow> nat \<Rightarrow> dht option" where
  "hpack_dht_alloc fresh sz = (case fresh of None \<Rightarrow> None | Some f \<Rightarrow> Some (hpack_dht_init sz (map f [0..<sz])
     (unat (f 8) + 256 * unat (f 9)) (unat (f 10) + 256 * unat (f 11)) (unat (f 12) + 256 * unat (f 13))))"

text \<open>The slot of the entry with index \<open>idx\<close>, which starts at 1 with the newest.\<close>

definition hpack_get_dte :: "dht \<Rightarrow> nat \<Rightarrow> nat option" where
  "hpack_get_dte d idx =
     (let idx = as_u16 (int idx - 1) in
      if idx \<ge> dht_used d then None
      else if idx \<le> dht_head d then Some (dht_head d - idx)
      else Some (as_u16 (int (dht_head d) - int idx + int (dht_wrap d))))"

definition hpack_valid_idx :: "dht \<Rightarrow> nat \<Rightarrow> bool" where
  "hpack_valid_idx d idx \<longleftrightarrow> idx < dht_used d + HPACK_SHT_SIZE"

definition hpack_get_name :: "dht \<Rightarrow> nat \<Rightarrow> byte list option" where
  "hpack_get_name d i = do { a \<leftarrow> dte_addr (dht_mem d) i; n \<leftarrow> dte_nlen (dht_mem d) i; fetch (dht_mem d) a n }"

definition hpack_get_value :: "dht \<Rightarrow> nat \<Rightarrow> byte list option" where
  "hpack_get_value d i = do {
     a \<leftarrow> dte_addr (dht_mem d) i; n \<leftarrow> dte_nlen (dht_mem d) i; v \<leftarrow> dte_vlen (dht_mem d) i; fetch (dht_mem d) (a + n) v }"

definition hpack_dht_get_tail :: "nat \<Rightarrow> nat \<Rightarrow> nat \<Rightarrow> nat" where
  "hpack_dht_get_tail head wrap used = as_u32 ((if head + 1 < used then int wrap else 0) + int head + 1 - int used)"

text \<open>The copy of all entries into a new block, from the oldest on: \<open>k\<close> are left.\<close>

fun defrag_loop :: "byte list \<Rightarrow> nat \<Rightarrow> nat \<Rightarrow> nat \<Rightarrow> nat \<Rightarrow> nat \<Rightarrow> byte list \<Rightarrow> byte list option" where
  "defrag_loop m wrap 0 old new addr alt = Some alt"
| "defrag_loop m wrap (Suc k) old new addr alt = do {
     nlen \<leftarrow> dte_nlen m old;
     alt \<leftarrow> set_nlen alt new nlen;
     vlen \<leftarrow> dte_vlen m old;
     alt \<leftarrow> set_vlen alt new vlen;
     let addr = as_u32 (int addr - int (nlen + vlen));
     alt \<leftarrow> set_addr alt new addr;
     a \<leftarrow> dte_addr m old;
     xs \<leftarrow> fetch m a (nlen + vlen);
     alt \<leftarrow> store alt addr xs;
     defrag_loop m wrap k (if old + 1 \<ge> wrap then 0 else old + 1) (new + 1) addr alt }"

text \<open>The outer option is an undefined access, the inner one a failed allocation.\<close>

definition hpack_dht_defrag :: "(nat \<Rightarrow> byte) option \<Rightarrow> dht \<Rightarrow> dht option option" where
  "hpack_dht_defrag fresh d =
     (case hpack_dht_alloc fresh (dht_size d) of
        None \<Rightarrow> Some None
      | Some alt \<Rightarrow> do {
          m \<leftarrow> (if dht_used d = 0 then Some (dht_mem alt)
               else defrag_loop (dht_mem d) (dht_wrap d) (dht_used d)
                      (hpack_dht_get_tail (dht_head d) (dht_wrap d) (dht_used d)) 0 (dht_size alt) (dht_mem alt));
          let new = as_u16 (int (dht_used d) - 1);
          Some (Some (alt\<lparr>dht_total := dht_total d, dht_used := dht_used d, dht_wrap := dht_used d,
                          dht_front := new, dht_head := new, dht_mem := m\<rparr>)) })"

text \<open>The loop that gives up the oldest entries: \<open>used\<close> are left before the first test.\<close>

fun purge :: "dht \<Rightarrow> nat \<Rightarrow> nat \<Rightarrow> nat \<Rightarrow> nat \<Rightarrow> (nat \<times> nat \<times> nat) option" where
  "purge d needed 0 tot front = Some (0, tot, front)"
| "purge d needed (Suc used) tot front = do {
     let tail = hpack_dht_get_tail (dht_head d) (dht_wrap d) (Suc used);
     nlen \<leftarrow> dte_nlen (dht_mem d) tail;
     vlen \<leftarrow> dte_vlen (dht_mem d) tail;
     let tot = as_u32 (int tot - int (nlen + vlen));
     let front = (if tail = front then dht_head d else front);
     if used \<noteq> 0 \<and> as_u32 (int (used * 32 + tot + needed + 32)) > dht_size d
     then purge d needed used tot front
     else Some (used, tot, front) }"

definition hpack_dht_make_room_slow :: "dht \<Rightarrow> nat \<Rightarrow> (bool \<times> dht) option" where
  "hpack_dht_make_room_slow d needed = do {
     (used, tot, front) \<leftarrow> purge d needed (dht_used d) (dht_total d) (dht_front d);
     let d = d\<lparr>dht_total := tot, dht_front := front, dht_used := used\<rparr>;
     let d = (if used = 0 then d\<lparr>dht_front := 0, dht_head := 0\<rparr> else d);
     let d = (if dht_head d + 1 \<ge> used then d\<lparr>dht_wrap := as_u16 (int (dht_head d) + 1)\<rparr> else d);
     Some (as_u32 (int needed + 32) \<le> dht_size d, d) }"

definition hpack_dht_make_room :: "dht \<Rightarrow> nat \<Rightarrow> (bool \<times> dht) option" where
  "hpack_dht_make_room d needed =
     (if as_u32 (int (dht_used d * 32 + dht_total d + needed + 32)) \<le> dht_size d then Some (True, d)
      else if dht_used d = 0 then Some (False, d)
      else hpack_dht_make_room_slow d needed)"

text \<open>The end of \<open>hpack_dht_insert\<close>, from the label \<open>copy\<close> on.\<close>

definition dht_copy :: "dht \<Rightarrow> nat \<Rightarrow> byte list \<Rightarrow> byte list \<Rightarrow> (int \<times> dht) option" where
  "dht_copy d head name val = do {
     let d = d\<lparr>dht_total := as_u32 (int (dht_total d) + int (length name + length val))\<rparr>;
     m \<leftarrow> set_nlen (dht_mem d) head (length name);
     m \<leftarrow> set_vlen m head (length val);
     a \<leftarrow> dte_addr m head;
     m \<leftarrow> store m a name;
     a \<leftarrow> dte_addr m head;
     m \<leftarrow> store m (a + length name) val;
     Some (0, d\<lparr>dht_mem := m\<rparr>) }"

text \<open>The choice of the slot: the new \<open>wrap\<close>, \<open>head\<close>, \<open>prev\<close> and \<open>tail\<close>; \<open>None\<close> inside when the table cannot be realigned.\<close>

definition dht_slot :: "(nat \<Rightarrow> byte) option \<Rightarrow> dht \<Rightarrow> (dht \<times> nat \<times> nat \<times> nat \<times> nat) option option" where
  "dht_slot fresh d = do {
     let prev = dht_head d;
     let wrap = dht_wrap d;
     let tail = hpack_dht_get_tail (dht_head d) (dht_wrap d) (dht_used d);
     let used = dht_used d + 1;
     let head = dht_head d + 1;
     let realign = (do { r \<leftarrow> hpack_dht_defrag fresh d;
            Some (case r of None \<Rightarrow> None
              | Some d \<Rightarrow> Some (d, dht_wrap d + 1, dht_head d + 1, dht_head d, 0)) });
     if head \<ge> wrap then do {
       a \<leftarrow> dte_addr (dht_mem d) (dht_front d);
       if 16 + (wrap + 1) * 8 \<le> a then Some (Some (d, wrap + 1, head, prev, tail))
       else if head \<ge> used then Some (Some (d, wrap, 0, prev, tail))
       else realign }
     else if used \<ge> wrap then realign
     else Some (Some (d, wrap, head, prev, tail)) }"

text \<open>The place for the data. The second call of \<open>hpack_dht_defrag\<close> is not tested: \<open>NULL\<close> would be dereferenced.\<close>

definition dht_place :: "(nat \<Rightarrow> byte) option \<Rightarrow> dht \<Rightarrow> nat \<Rightarrow> nat \<Rightarrow> nat \<Rightarrow> nat \<Rightarrow> nat \<Rightarrow> nat \<Rightarrow> (dht \<times> nat) option" where
  "dht_place fresh d wrap head prev tail used needed = do {
     taddr \<leftarrow> dte_addr (dht_mem d) tail;
     tnlen \<leftarrow> dte_nlen (dht_mem d) tail;
     tvlen \<leftarrow> dte_vlen (dht_mem d) tail;
     (headroom, tailroom) \<leftarrow>
       (if prev = dht_front d then do {
          faddr \<leftarrow> dte_addr (dht_mem d) (dht_front d);
          Some (as_u32 (int faddr - int (16 + wrap * 8)), as_u32 (int (dht_size d) - int taddr - int tnlen - int tvlen)) }
        else do {
          paddr \<leftarrow> dte_addr (dht_mem d) prev;
          Some (0, as_u32 (int paddr - int taddr - int tnlen - int tvlen)) });
     if headroom \<ge> needed then do {
       faddr \<leftarrow> dte_addr (dht_mem d) (dht_front d);
       m \<leftarrow> set_addr (dht_mem d) head (as_u32 (int faddr - int needed));
       Some (d\<lparr>dht_mem := m, dht_front := as_u16 (int head), dht_wrap := as_u16 (int wrap), dht_head := as_u16 (int head), dht_used := as_u16 (int used)\<rparr>, head) }
     else if tailroom \<ge> needed then do {
       m \<leftarrow> set_addr (dht_mem d) head (as_u32 (int taddr + int tnlen + int tvlen + int tailroom - int needed));
       Some (d\<lparr>dht_mem := m, dht_wrap := as_u16 (int wrap), dht_head := as_u16 (int head), dht_used := as_u16 (int used)\<rparr>, head) }
     else do {
       r \<leftarrow> hpack_dht_defrag fresh d;
       d \<leftarrow> r;
       let wrap = dht_wrap d + 1;
       let head = dht_head d + 1;
       faddr \<leftarrow> dte_addr (dht_mem d) (dht_front d);
       m \<leftarrow> set_addr (dht_mem d) head (as_u32 (int faddr - int needed));
       Some (d\<lparr>dht_mem := m, dht_front := as_u16 (int head), dht_wrap := as_u16 (int wrap), dht_head := as_u16 (int head), dht_used := as_u16 (int used)\<rparr>, head) } }"

definition hpack_dht_insert :: "(nat \<Rightarrow> (nat \<Rightarrow> byte) option) \<Rightarrow> dht \<Rightarrow> byte list \<Rightarrow> byte list \<Rightarrow> (int \<times> dht) option" where
  "hpack_dht_insert malloc d name val = do {
     (ok, d) \<leftarrow> hpack_dht_make_room d (as_u32 (int (length name + length val)));
     if \<not> ok then Some (0, d)
     else if dht_used d = 0 then do {
       let d = d\<lparr>dht_front := 0, dht_head := 0, dht_wrap := 1, dht_used := 1, dht_total := 0\<rparr>;
       m \<leftarrow> set_addr (dht_mem d) 0 (as_u32 (int (dht_size d) - int (length name + length val)));
       dht_copy (d\<lparr>dht_mem := m\<rparr>) 0 name val }
     else do {
       s \<leftarrow> dht_slot (malloc 0) d;
       case s of
         None \<Rightarrow> Some (-1, d)
       | Some (d', wrap, head, prev, tail) \<Rightarrow> do {
           (d', head) \<leftarrow> dht_place (malloc 1) d' wrap head prev tail (dht_used d + 1) (length name + length val);
           dht_copy d' head name val } } }"


section \<open>Reading back\<close>

type_synonym entry = "nat \<times> byte list \<times> byte list"

abbreviation extent :: "entry \<Rightarrow> nat" where "extent e \<equiv> length (fst (snd e)) + length (snd (snd e))"

text \<open>The descriptor in slot \<open>i\<close> and the data it points to are those of the entry.\<close>

definition stored :: "byte list \<Rightarrow> nat \<Rightarrow> entry \<Rightarrow> bool" where
  "stored m i e \<longleftrightarrow> dte_at i + 8 \<le> length m \<and> 16 \<le> fst e \<and> fst e + extent e \<le> length m
     \<and> le_value (mem_read m (dte_at i) 4) = fst e
     \<and> le_value (mem_read m (dte_at i + 4) 2) = length (fst (snd e)) \<and> le_value (mem_read m (dte_at i + 6) 2) = length (snd (snd e))
     \<and> mem_read m (fst e) (extent e) = fst (snd e) @ snd (snd e)"

lemma storedD:
  assumes "stored m i (a, n, v)"
  shows "dte_addr m i = Some a" "dte_nlen m i = Some (length n)" "dte_vlen m i = Some (length v)"
    "fetch m a (length n + length v) = Some (n @ v)" "fetch m a (length n) = Some n" "fetch m (a + length n) (length v) = Some v"
    "dte_at i + 8 \<le> length m" "16 \<le> a" "a + length n + length v \<le> length m"
proof -
  have "mem_read m a (length n) @ mem_read m (a + length n) (length v) = n @ v"
    using assms by (simp add: stored_def mem_read_split)
  then have "mem_read m a (length n) = n \<and> mem_read m (a + length n) (length v) = v"
    using assms by (subst (asm) append_eq_append_conv) (simp_all add: stored_def)
  then show "dte_addr m i = Some a" "dte_nlen m i = Some (length n)" "dte_vlen m i = Some (length v)"
    "fetch m a (length n + length v) = Some (n @ v)" "fetch m a (length n) = Some n" "fetch m (a + length n) (length v) = Some v"
    "dte_at i + 8 \<le> length m" "16 \<le> a" "a + length n + length v \<le> length m"
    using assms by (auto simp: stored_def dte_addr_def dte_nlen_def dte_vlen_def fetch_def dte_at_def)
qed

lemma stored_apart:
  assumes "stored m i e" "p + length xs \<le> length m"
    and "p + length xs \<le> dte_at i \<or> dte_at i + 8 \<le> p" "p + length xs \<le> fst e \<or> fst e + extent e \<le> p"
  shows "stored (memcpy m p xs) i e"
proof -
  have "mem_read (memcpy m p xs) q k = mem_read m q k" if "dte_at i \<le> q" "q + k \<le> dte_at i + 8" for q k
    using assms(2,3) that by (intro mem_read_apart) auto
  moreover have "mem_read (memcpy m p xs) (fst e) (extent e) = mem_read m (fst e) (extent e)"
    using assms(2,4) by (intro mem_read_apart) auto
  ultimately show ?thesis using assms(1,2) by (simp add: stored_def)
qed

text \<open>Writing a descriptor and its data, in any of the orders of the code.\<close>

definition free_for :: "byte list \<Rightarrow> nat \<Rightarrow> nat \<Rightarrow> nat \<Rightarrow> bool" where
  "free_for m i a k \<longleftrightarrow> dte_at i + 8 \<le> length m \<and> dte_at i + 8 \<le> a \<and> a + k \<le> length m"

definition untouched :: "byte list \<Rightarrow> nat \<Rightarrow> nat \<Rightarrow> nat \<Rightarrow> byte list \<Rightarrow> bool" where
  "untouched m i a k m' \<longleftrightarrow> length m' = length m \<and> (\<forall>j e. stored m j e \<longrightarrow> j \<noteq> i \<longrightarrow> dte_at j + 8 \<le> a \<or> a + k \<le> dte_at j
     \<longrightarrow> dte_at i + 8 \<le> fst e \<longrightarrow> a + k \<le> fst e \<or> fst e + extent e \<le> a \<longrightarrow> stored m' j e)"

lemma dte_apart: "j \<noteq> i \<Longrightarrow> dte_at j + 8 \<le> dte_at i \<or> dte_at i + 8 \<le> dte_at j"
  by (auto simp: dte_at_def)


lemma untouchedD:
  "untouched m i a k m' \<Longrightarrow> stored m j e \<Longrightarrow> j \<noteq> i \<Longrightarrow> dte_at j + 8 \<le> a \<or> a + k \<le> dte_at j \<Longrightarrow> dte_at i + 8 \<le> fst e
    \<Longrightarrow> a + k \<le> fst e \<or> fst e + extent e \<le> a \<Longrightarrow> stored m' j e"
  unfolding untouched_def by blast

lemma untouched_refl: "untouched m i a k m"
  by (simp add: untouched_def)

lemma untouched_trans: "untouched m i a k m1 \<Longrightarrow> untouched m1 i a k m2 \<Longrightarrow> untouched m i a k m2"
  by (simp add: untouched_def)

lemma untouched_descriptor:
  assumes "dte_at i + 8 \<le> length m" "dte_at i \<le> p" "p + length xs \<le> dte_at i + 8"
  shows "untouched m i a k (memcpy m p xs)"
proof -
  have "stored (memcpy m p xs) j e" if "stored m j e" "j \<noteq> i" "dte_at i + 8 \<le> fst e" for j e
    using that assms dte_apart [OF that(2)] by (intro stored_apart) auto
  then show ?thesis using assms by (simp add: untouched_def)
qed

lemma untouched_data:
  assumes "a \<le> p" "p + length xs \<le> a + k" "a + k \<le> length m"
  shows "untouched m i a k (memcpy m p xs)"
proof -
  have "stored (memcpy m p xs) j e" if "stored m j e" "dte_at j + 8 \<le> a \<or> a + k \<le> dte_at j" "a + k \<le> fst e \<or> fst e + extent e \<le> a" for j e
    using that assms by (intro stored_apart) auto
  then show ?thesis using assms by (simp add: untouched_def)
qed

definition fields :: "byte list \<Rightarrow> nat \<Rightarrow> nat \<Rightarrow> nat \<Rightarrow> nat \<Rightarrow> bool" where
  "fields m i a n v \<longleftrightarrow> le_value (mem_read m (dte_at i) 4) = a \<and> le_value (mem_read m (dte_at i + 4) 2) = n
     \<and> le_value (mem_read m (dte_at i + 6) 2) = v"



lemma set_field_ok:
  assumes "dte_at i + 8 \<le> length m" "fields m i a n v"
  shows "x < 2 ^ 32 \<Longrightarrow> \<exists>m'. set_addr m i x = Some m' \<and> length m' = length m \<and> fields m' i x n v \<and> untouched m i b k m'"
    and "x < 2 ^ 16 \<Longrightarrow> \<exists>m'. set_nlen m i x = Some m' \<and> length m' = length m \<and> fields m' i a x v \<and> untouched m i b k m'"
    and "x < 2 ^ 16 \<Longrightarrow> \<exists>m'. set_vlen m i x = Some m' \<and> length m' = length m \<and> fields m' i a n x \<and> untouched m i b k m'"
proof -
  have le: "16 \<le> dte_at i" by (simp add: dte_at_def)
  show "\<exists>m'. set_addr m i x = Some m' \<and> length m' = length m \<and> fields m' i x n v \<and> untouched m i b k m'" if "x < 2 ^ 32"
    using assms le that untouched_descriptor [OF assms(1), of "dte_at i" "le_bytes 4 x" b k]
    by (simp add: set_addr_def store_def fields_def mem_read_apart le_value_bytes)
  show "\<exists>m'. set_nlen m i x = Some m' \<and> length m' = length m \<and> fields m' i a x v \<and> untouched m i b k m'" if "x < 2 ^ 16"
    using assms le that untouched_descriptor [OF assms(1), of "dte_at i + 4" "le_bytes 2 x" b k]
    by (simp add: set_nlen_def store_def fields_def mem_read_apart le_value_bytes)
  show "\<exists>m'. set_vlen m i x = Some m' \<and> length m' = length m \<and> fields m' i a n x \<and> untouched m i b k m'" if "x < 2 ^ 16"
    using assms le that untouched_descriptor [OF assms(1), of "dte_at i + 6" "le_bytes 2 x" b k]
    by (simp add: set_vlen_def store_def fields_def mem_read_apart le_value_bytes)
qed

lemma fields_data: "dte_at i + 8 \<le> p \<Longrightarrow> p + length xs \<le> length m \<Longrightarrow> fields (memcpy m p xs) i a n v = fields m i a n v"
  by (simp add: fields_def mem_read_apart)

lemma fields_addr: "dte_at i + 8 \<le> length m \<Longrightarrow> fields m i a n v \<Longrightarrow> dte_addr m i = Some a"
  by (auto simp: dte_addr_def fetch_def fields_def dte_at_def)

lemma dht_copy_ok:
  assumes f: "free_for (dht_mem d) i a (length n + length v)" and ad: "dte_addr (dht_mem d) i = Some a"
    and len: "length n < 2 ^ 16" "length v < 2 ^ 16"
  shows "\<exists>m'. dht_copy d i n v = Some (0, d\<lparr>dht_total := as_u32 (int (dht_total d) + int (length n + length v)), dht_mem := m'\<rparr>)
    \<and> stored m' i (a, n, v) \<and> untouched (dht_mem d) i a (length n + length v) m'"
proof -
  let ?k = "length n + length v"
  let ?m = "dht_mem d"
  have b: "dte_at i + 8 \<le> length ?m" "dte_at i + 8 \<le> a" "a + ?k \<le> length ?m" using f by (simp_all add: free_for_def)
  have le: "16 \<le> a" using b(2) by (simp add: dte_at_def)
  have "fields ?m i a (le_value (mem_read ?m (dte_at i + 4) 2)) (le_value (mem_read ?m (dte_at i + 6) 2))"
    using ad b(1) by (auto simp: fields_def dte_addr_def fetch_def split: if_splits)
  from set_field_ok(2) [OF b(1) this len(1), where b = a and k = ?k] obtain m1 where
    m1: "set_nlen ?m i (length n) = Some m1" "length m1 = length ?m" "fields m1 i a (length n) (le_value (mem_read ?m (dte_at i + 6) 2))"
      "untouched ?m i a ?k m1" by blast
  from set_field_ok(3) [OF _ m1(3) len(2), where b = a and k = ?k] b(1) m1(2) obtain m2 where
    m2: "set_vlen m1 i (length v) = Some m2" "length m2 = length ?m" "fields m2 i a (length n) (length v)" "untouched m1 i a ?k m2" by auto
  let ?m3 = "memcpy m2 a n"
  let ?m4 = "memcpy ?m3 (a + length n) v"
  have l3: "length ?m3 = length ?m" using b m2(2) by simp
  have l4: "length ?m4 = length ?m" using b l3 by simp
  have f3: "fields ?m3 i a (length n) (length v)" using m2(3) b m2(2) by (simp add: fields_data)
  have f4: "fields ?m4 i a (length n) (length v)" using f3 b l3 by (simp add: fields_data)
  have "mem_read ?m4 a (length n) = n" "mem_read ?m4 (a + length n) (length v) = v"
    using b l3 m2(2) by (simp_all add: mem_read_apart)
  then have "stored ?m4 i (a, n, v)" using f4 b le l4 by (simp add: stored_def fields_def mem_read_split)
  moreover have "untouched ?m i a ?k ?m4"
    using m1(4) m2(4) untouched_data [of a a n ?k m2 i] untouched_data [of a "a + length n" v ?k ?m3 i] b m2(2) l3
    by (auto intro: untouched_trans)
  moreover have "dte_addr m2 i = Some a" "dte_addr ?m3 i = Some a" using fields_addr m2 f3 b(1) l3 by auto
  then have "dht_copy d i n v = Some (0, d\<lparr>dht_total := as_u32 (int (dht_total d) + int ?k), dht_mem := ?m4\<rparr>)"
    using m1(1) m2 b le l3 by (simp add: dht_copy_def store_def)
  ultimately show ?thesis by blast
qed


section \<open>The layout\<close>

text \<open>Entries are listed from the newest to the oldest. The slot of the entry that has \<open>i\<close> newer ones:\<close>

definition slot_back :: "nat \<Rightarrow> nat \<Rightarrow> nat \<Rightarrow> nat" where
  "slot_back head wrap i = (if i \<le> head then head - i else head + wrap - i)"

lemma slot_back_less: "head < wrap \<Longrightarrow> i < wrap \<Longrightarrow> slot_back head wrap i < wrap"
  by (auto simp: slot_back_def)

lemma slot_back_eq: "head < wrap \<Longrightarrow> i < wrap \<Longrightarrow> j < wrap \<Longrightarrow> slot_back head wrap i = slot_back head wrap j \<longleftrightarrow> i = j"
  by (auto simp: slot_back_def)

lemma as_u32_less: "0 \<le> x \<Longrightarrow> x < 2 ^ 32 \<Longrightarrow> as_u32 x = nat x"
  by (simp add: as_u32_def)

lemma as_u16_less: "0 \<le> x \<Longrightarrow> x < 2 ^ 16 \<Longrightarrow> as_u16 x = nat x"
  by (simp add: as_u16_def)

lemma tail_slot: "head < wrap \<Longrightarrow> wrap < 2 ^ 16 \<Longrightarrow> 0 < u \<Longrightarrow> u \<le> wrap \<Longrightarrow> hpack_dht_get_tail head wrap u = slot_back head wrap (u - 1)"
  by (auto simp: hpack_dht_get_tail_def slot_back_def as_u32_def nat_eq_iff)

text \<open>The data lies between \<open>lo\<close> and \<open>hi\<close>, in the order of the list and without overlap.\<close>

fun laid :: "nat \<Rightarrow> nat \<Rightarrow> entry list \<Rightarrow> bool" where
  "laid lo hi [] \<longleftrightarrow> lo \<le> hi"
| "laid lo hi (e # es) \<longleftrightarrow> lo \<le> fst e \<and> laid (fst e + extent e) hi es"

lemma laid_append: "laid lo hi (xs @ ys) \<longleftrightarrow> (\<exists>mid. laid lo mid xs \<and> laid mid hi ys)"
  by (induction xs arbitrary: lo) (auto intro: le_trans elim: laid.elims)

lemma laid_le: "laid lo hi es \<Longrightarrow> lo \<le> hi"
  by (induction es arbitrary: lo) fastforce+

lemma laid_mono: "laid lo hi es \<Longrightarrow> lo' \<le> lo \<Longrightarrow> hi \<le> hi' \<Longrightarrow> laid lo' hi' es"
  by (induction es arbitrary: lo lo') auto

lemma laid_bounds: "laid lo hi es \<Longrightarrow> e \<in> set es \<Longrightarrow> lo \<le> fst e \<and> fst e + extent e \<le> hi"
  by (induction es arbitrary: lo) (auto dest: laid_le, fastforce)

definition total_extent :: "entry list \<Rightarrow> nat" where
  "total_extent es = sum_list (map extent es)"

lemma total_extent_simps [simp]: "total_extent [] = 0" "total_extent (e # es) = extent e + total_extent es"
  "total_extent (xs @ ys) = total_extent xs + total_extent ys"
  by (simp_all add: total_extent_def)

lemma laid_total: "laid lo hi es \<Longrightarrow> lo + total_extent es \<le> hi"
  by (induction es arbitrary: lo) fastforce+

definition placed :: "byte list \<Rightarrow> (nat \<Rightarrow> nat) \<Rightarrow> entry list \<Rightarrow> bool" where
  "placed m slot es \<longleftrightarrow> (\<forall>i < length es. stored m (slot i) (es ! i))"

text \<open>
  The invariant: the entries \<open>new\<close> have been put behind the oldest one since the data wrapped, the entries
  \<open>old\<close> before; the front is the newest of \<open>old\<close>.
\<close>

definition dht_ok :: "dht \<Rightarrow> entry list \<Rightarrow> entry list \<Rightarrow> bool" where
  "dht_ok d old new \<longleftrightarrow>
     length (dht_mem d) = dht_size d \<and> dht_size d < 2 ^ 16 \<and> dht_used d = length (new @ old)
     \<and> dht_total d = total_extent (new @ old) \<and> 32 * dht_used d + dht_total d \<le> dht_size d
     \<and> (0 < dht_used d \<longrightarrow> old \<noteq> [] \<and> dht_head d < dht_wrap d \<and> dht_used d \<le> dht_wrap d
          \<and> (dht_used d \<le> dht_head d + 1 \<longrightarrow> dht_wrap d = dht_head d + 1)
          \<and> dht_front d = slot_back (dht_head d) (dht_wrap d) (length new)
          \<and> placed (dht_mem d) (slot_back (dht_head d) (dht_wrap d)) (new @ old)
          \<and> laid (16 + 8 * dht_wrap d) (dht_size d) (old @ new))"

text \<open>What the protocol asks for: the longest list of the newest entries that fits, with 32 bytes for each.\<close>

fun keep :: "nat \<Rightarrow> (byte list \<times> byte list) list \<Rightarrow> (byte list \<times> byte list) list" where
  "keep room [] = []"
| "keep room ((n, v) # es) = (if 32 + length n + length v \<le> room then (n, v) # keep (room - (32 + length n + length v)) es else [])"

lemma keep_take:
  assumes "u \<le> length es" "32 * u + total_extent (take u es) \<le> room"
    and "u < length es \<Longrightarrow> room < 32 * Suc u + total_extent (take (Suc u) es)"
  shows "keep room (map snd es) = map snd (take u es)"
  using assms
proof (induction es arbitrary: u room)
  case (Cons e es)
  show ?case
  proof (cases u)
    case 0
    with Cons.prems(3) show ?thesis by (cases e) simp
  next
    case (Suc w)
    with Cons.prems have "keep (room - (32 + extent e)) (map snd es) = map snd (take w es)"
      by (intro Cons.IH) auto
    with Suc Cons.prems(2) show ?thesis by (cases e) (simp add: add.assoc)
  qed
qed simp

section \<open>Making room\<close>

lemma total_extent_take_le: "u \<le> w \<Longrightarrow> total_extent (take u es) \<le> total_extent (take w es)"
proof -
  assume "u \<le> w"
  then have "take w es = take u es @ drop u (take w es)" by (metis append_take_drop_id min.absorb1 take_take)
  then show ?thesis by (metis le_add1 total_extent_simps(3))
qed

lemma total_extent_take: "u \<le> length es \<Longrightarrow> total_extent (take u es) \<le> total_extent es"
  using total_extent_take_le [of u "length es" es] by simp

lemma dht_ok_wrap: "dht_ok d old new \<Longrightarrow> 0 < dht_used d \<Longrightarrow> dht_wrap d < 2 ^ 16"
proof -
  assume "dht_ok d old new" "0 < dht_used d"
  then have "16 + 8 * dht_wrap d \<le> dht_size d" "dht_size d < 2 ^ 16" using laid_le by (auto simp: dht_ok_def)
  then show ?thesis by simp
qed

lemma purge_ok:
  assumes ok: "dht_ok d old new" and needed: "needed < 2 ^ 31"
    and u: "0 < u" "u \<le> dht_used d" and tot: "tot = total_extent (take u (new @ old))"
    and front: "front = (if length new < u then slot_back (dht_head d) (dht_wrap d) (length new) else dht_head d)"
  shows "\<exists>u'. purge d needed u tot front = Some (u', total_extent (take u' (new @ old)),
        if length new < u' then slot_back (dht_head d) (dht_wrap d) (length new) else dht_head d)
      \<and> u' < u \<and> (0 < u' \<longrightarrow> 32 * u' + total_extent (take u' (new @ old)) + needed + 32 \<le> dht_size d)
      \<and> (\<forall>w. u' < w \<and> w < u \<longrightarrow> dht_size d < 32 * w + total_extent (take w (new @ old)) + needed + 32)"
  using u tot front
proof (induction u arbitrary: tot front)
  case (Suc u)
  let ?es = "new @ old" and ?s = "slot_back (dht_head d) (dht_wrap d)"
  have d: "dht_head d < dht_wrap d" "dht_used d \<le> dht_wrap d" "placed (dht_mem d) ?s ?es" "dht_used d = length ?es"
    "dht_total d = total_extent ?es" "32 * dht_used d + dht_total d \<le> dht_size d" "dht_size d < 2 ^ 16"
    using ok Suc.prems(2) by (auto simp: dht_ok_def)
  have w: "dht_wrap d < 2 ^ 16" using dht_ok_wrap [OF ok] Suc.prems(2) by simp
  have tl: "hpack_dht_get_tail (dht_head d) (dht_wrap d) (Suc u) = ?s u"
    using tail_slot [OF d(1) w, of "Suc u"] Suc.prems(2) d(2) by simp
  have "stored (dht_mem d) (?s u) (?es ! u)" using d(3,4) Suc.prems(2) by (simp add: placed_def)
  then have st: "dte_nlen (dht_mem d) (?s u) = Some (length (fst (snd (?es ! u))))" "dte_vlen (dht_mem d) (?s u) = Some (length (snd (snd (?es ! u))))"
    using storedD(2,3) by (metis prod.collapse)+
  have tk: "total_extent (take (Suc u) ?es) = total_extent (take u ?es) + extent (?es ! u)"
    using Suc.prems(2) d(4) take_Suc_conv_app_nth [of u ?es] by (simp del: take_append)
  have small: "total_extent (take (Suc u) ?es) \<le> dht_size d"
    using total_extent_take [of "Suc u" ?es] Suc.prems(2) d(4,5,6) by linarith
  have tot': "as_u32 (int tot - int (extent (?es ! u))) = total_extent (take u ?es)"
    using tk small d(7) Suc.prems(3) by (subst as_u32_less) auto
  have front': "(if ?s u = front then dht_head d else front) = (if length new < u then ?s (length new) else dht_head d)"
  proof (cases "length new < Suc u")
    case True
    then have "?s u = front \<longleftrightarrow> u = length new"
      using slot_back_eq [OF d(1), of u "length new"] d(2,4) Suc.prems(2,4) by simp
    with True Suc.prems(4) show ?thesis by auto
  next
    case False
    with Suc.prems(4) show ?thesis by simp
  qed
  have fit: "as_u32 (int (u * 32 + total_extent (take u ?es) + needed + 32)) = u * 32 + total_extent (take u ?es) + needed + 32"
    using needed d(6,7) Suc.prems(2) small tk by (subst as_u32_less) auto
  let ?go = "u \<noteq> 0 \<and> u * 32 + total_extent (take u ?es) + needed + 32 > dht_size d"
  have run: "purge d needed (Suc u) tot front = (if ?go then purge d needed u (total_extent (take u ?es)) (if length new < u then ?s (length new) else dht_head d)
      else Some (u, total_extent (take u ?es), if length new < u then ?s (length new) else dht_head d))"
  proof -
    have "purge d needed (Suc u) tot front =
      (let t = as_u32 (int tot - int (extent (?es ! u))); f = (if ?s u = front then dht_head d else front) in
       if u \<noteq> 0 \<and> as_u32 (int (u * 32 + t + needed + 32)) > dht_size d then purge d needed u t f else Some (u, t, f))"
      using tl st by (simp add: Let_def)
    then show ?thesis unfolding Let_def tot' front' fit .
  qed
  show ?case
  proof (cases ?go)
    case True
    with Suc.IH [of "total_extent (take u ?es)" "if length new < u then ?s (length new) else dht_head d"] Suc.prems(2) obtain u' where
      "purge d needed u (total_extent (take u ?es)) (if length new < u then ?s (length new) else dht_head d) = Some (u', total_extent (take u' ?es),
        if length new < u' then ?s (length new) else dht_head d)" "u' < u" "0 < u' \<longrightarrow> 32 * u' + total_extent (take u' ?es) + needed + 32 \<le> dht_size d"
        "\<forall>w. u' < w \<and> w < u \<longrightarrow> dht_size d < 32 * w + total_extent (take w ?es) + needed + 32" by auto
    with True show ?thesis unfolding run by (intro exI [of _ u']) (auto simp: less_Suc_eq mult.commute)
  next
    case False
    then show ?thesis unfolding run by (intro exI [of _ u]) auto
  qed
qed simp


lemma placed_take: "placed m f es \<Longrightarrow> placed m f (take u es)"
  by (simp add: placed_def)

lemma placed_slots: "placed m f es \<Longrightarrow> (\<And>i. i < length es \<Longrightarrow> g i = f i) \<Longrightarrow> placed m g es"
  by (simp add: placed_def)

lemma make_room_ok:
  assumes ok: "dht_ok d old new" and needed: "needed < 2 ^ 31"
  shows "\<exists>d' old' new' u. hpack_dht_make_room d needed = Some (needed + 32 \<le> dht_size d, d') \<and> dht_ok d' old' new'
    \<and> dht_size d' = dht_size d \<and> new' @ old' = take u (new @ old) \<and> u \<le> length (new @ old)
    \<and> (needed + 32 \<le> dht_size d \<longrightarrow> 32 * u + total_extent (take u (new @ old)) + needed + 32 \<le> dht_size d)
    \<and> (\<not> needed + 32 \<le> dht_size d \<longrightarrow> u = 0)
    \<and> (u < length (new @ old) \<longrightarrow> dht_size d < 32 * Suc u + total_extent (take (Suc u) (new @ old)) + needed + 32)"
proof -
  let ?es = "new @ old"
  have d: "dht_used d = length ?es" "dht_total d = total_extent ?es" "32 * dht_used d + dht_total d \<le> dht_size d"
    "dht_size d < 2 ^ 16" "length (dht_mem d) = dht_size d"
    using ok by (simp_all add: dht_ok_def)
  have sum: "as_u32 (int (dht_used d * 32 + dht_total d + needed + 32)) = dht_used d * 32 + dht_total d + needed + 32"
    using d(3,4) needed by (subst as_u32_less) auto
  consider (fits) "32 * dht_used d + dht_total d + needed + 32 \<le> dht_size d"
    | (empty) "dht_size d < 32 * dht_used d + dht_total d + needed + 32" "dht_used d = 0"
    | (slow) "dht_size d < 32 * dht_used d + dht_total d + needed + 32" "0 < dht_used d" by linarith
  then show ?thesis
  proof cases
    case fits
    then have "hpack_dht_make_room d needed = Some (needed + 32 \<le> dht_size d, d)"
      using sum by (simp add: hpack_dht_make_room_def)
    with ok fits d(1,2) show ?thesis by (intro exI [of _ d] exI [of _ old] exI [of _ new] exI [of _ "length ?es"]) simp
  next
    case empty
    then have "hpack_dht_make_room d needed = Some (needed + 32 \<le> dht_size d, d)"
      using sum d(2) d(1) by (simp add: hpack_dht_make_room_def)
    with ok empty d(1,2) show ?thesis by (intro exI [of _ d] exI [of _ old] exI [of _ new] exI [of _ 0]) auto
  next
    case slow
    let ?s = "slot_back (dht_head d) (dht_wrap d)"
    have i: "old \<noteq> []" "dht_head d < dht_wrap d" "dht_used d \<le> dht_wrap d" "dht_used d \<le> dht_head d + 1 \<longrightarrow> dht_wrap d = dht_head d + 1"
      "dht_front d = ?s (length new)" "placed (dht_mem d) ?s ?es" "laid (16 + 8 * dht_wrap d) (dht_size d) (old @ new)"
      using ok slow(2) by (simp_all add: dht_ok_def)
    have w: "dht_wrap d < 2 ^ 16" by (rule dht_ok_wrap [OF ok slow(2)])
    have f0: "dht_front d = (if length new < dht_used d then ?s (length new) else dht_head d)" using i(1,5) d(1) by simp
    from purge_ok [OF ok needed slow(2) order.refl, of "dht_total d", OF _ f0] d(1,2) obtain u where
      u: "purge d needed (dht_used d) (dht_total d) (dht_front d) = Some (u, total_extent (take u ?es), if length new < u then ?s (length new) else dht_head d)"
        "u < dht_used d" "0 < u \<longrightarrow> 32 * u + total_extent (take u ?es) + needed + 32 \<le> dht_size d"
        "\<forall>w. u < w \<and> w < dht_used d \<longrightarrow> dht_size d < 32 * w + total_extent (take w ?es) + needed + 32" by auto
    have n32: "as_u32 (int needed + 32) = needed + 32" using needed by (subst as_u32_less) auto
    have more: "dht_size d < 32 * Suc u + total_extent (take (Suc u) ?es) + needed + 32"
    proof (cases "Suc u = dht_used d")
      case True
      then show ?thesis using slow(1) d(1,2) by simp
    next
      case False
      then show ?thesis using u(4) [rule_format, of "Suc u"] u(2) by (simp del: take_append)
    qed
    have all: "needed + 32 \<le> dht_size d \<longrightarrow> 32 * u + total_extent (take u ?es) + needed + 32 \<le> dht_size d" using u(3) by (cases "u = 0") simp_all
    have none: "\<not> needed + 32 \<le> dht_size d \<longrightarrow> u = 0" using u(3) by (cases "u = 0") simp_all
    have fit: "32 * u + total_extent (take u ?es) \<le> dht_size d" using u(3) by (cases "u = 0") simp_all
    show ?thesis
    proof (cases "u = 0")
      case True
      let ?d = "d\<lparr>dht_total := 0, dht_front := 0, dht_used := 0, dht_head := 0, dht_wrap := 1\<rparr>"
      have "hpack_dht_make_room d needed = Some (needed + 32 \<le> dht_size d, ?d)"
        using slow sum u(1) True n32 by (simp add: hpack_dht_make_room_def hpack_dht_make_room_slow_def as_u16_less)
      moreover have "dht_ok ?d [] []" using d by (simp add: dht_ok_def)
      ultimately show ?thesis using more all True by (intro exI [of _ ?d] exI [of _ "[]"] exI [of _ 0]) simp
    next
      case False
      let ?w = "if u \<le> dht_head d + 1 then dht_head d + 1 else dht_wrap d"
      let ?front = "if length new < u then ?s (length new) else dht_head d"
      let ?d = "d\<lparr>dht_total := total_extent (take u ?es), dht_front := ?front, dht_used := u, dht_wrap := ?w\<rparr>"
      define old' where "old' = (if length new < u then take (u - length new) old else take u new)"
      define new' where "new' = (if length new < u then new else [])"
      have es: "new' @ old' = take u ?es" by (simp add: old'_def new'_def)
      have "hpack_dht_make_room d needed = Some (needed + 32 \<le> dht_size d, ?d)"
        using slow sum u(1) False n32 w i(2) by (simp add: hpack_dht_make_room_def hpack_dht_make_room_slow_def as_u16_less)
      moreover have "dht_ok ?d old' new'"
      proof -
        have len: "length (new' @ old') = u" using es u(2) d(1) by simp
        have w': "dht_head d < ?w" "u \<le> ?w" "?w \<le> dht_wrap d" using i(2,3) u(2) by auto
        have sl: "slot_back (dht_head d) ?w k = ?s k" if "k < u" for k using that by (auto simp: slot_back_def)
        have "old' \<noteq> []" using False i(1) u(2) d(1) by (auto simp: old'_def)
        moreover have "?front = slot_back (dht_head d) ?w (length new')"
          using sl [of "length new'"] False by (auto simp: new'_def slot_back_def)
        moreover have "placed (dht_mem d) (slot_back (dht_head d) ?w) (new' @ old')"
          unfolding es using placed_slots [OF placed_take [OF i(6)], of u "slot_back (dht_head d) ?w"] sl u(2) d(1) by simp
        moreover have "laid (16 + 8 * ?w) (dht_size d) (old' @ new')"
        proof (cases "length new < u")
          case True
          from i(7) obtain m2 where n: "laid (16 + 8 * dht_wrap d) m2 old" "laid m2 (dht_size d) new" by (auto simp: laid_append)
          have "laid (16 + 8 * dht_wrap d) m2 (take (u - length new) old @ drop (u - length new) old)" using n(1) by simp
          then obtain m1 where "laid (16 + 8 * dht_wrap d) m1 (take (u - length new) old)" "laid m1 m2 (drop (u - length new) old)"
            unfolding laid_append by blast
          note m = this n(2)
          have "laid (16 + 8 * ?w) m1 (take (u - length new) old)" by (rule laid_mono [OF m(1)]) (use w'(3) in linarith)+
          moreover have "laid m1 (dht_size d) new" by (rule laid_mono [OF m(3)]) (use laid_le [OF m(2)] in linarith)+
          ultimately show ?thesis using True by (auto simp: old'_def new'_def laid_append)
        next
          case nn: False
          from i(7) obtain m1 where m: "laid (16 + 8 * dht_wrap d) m1 old" "laid m1 (dht_size d) new" by (auto simp: laid_append)
          then obtain m2 where m2: "laid m1 m2 (take u new)" "laid m2 (dht_size d) (drop u new)" by (metis append_take_drop_id laid_append)
          have "laid (16 + 8 * ?w) (dht_size d) (take u new)"
            by (rule laid_mono [OF m2(1)]) (use laid_le [OF m(1)] laid_le [OF m2(2)] w'(3) in linarith)+
          then show ?thesis using nn by (simp add: old'_def new'_def)
        qed
        ultimately show ?thesis using d len es fit w'(1,2) by (simp add: dht_ok_def)
      qed
      ultimately show ?thesis using es more all none u(2) d(1) by (intro exI [of _ ?d] exI [of _ old'] exI [of _ new'] exI [of _ u]) simp
    qed
  qed
qed


section \<open>Realigning\<close>

lemma write_entry_ok:
  assumes f: "free_for m i a (length n + length v)" and a: "a < 2 ^ 32" and len: "length n < 2 ^ 16" "length v < 2 ^ 16"
  shows "\<exists>m1 m2 m3 m4. set_nlen m i (length n) = Some m1 \<and> set_vlen m1 i (length v) = Some m2 \<and> set_addr m2 i a = Some m3
    \<and> store m3 a (n @ v) = Some m4 \<and> stored m4 i (a, n, v) \<and> untouched m i a (length n + length v) m4"
proof -
  let ?k = "length n + length v"
  have b: "dte_at i + 8 \<le> length m" "dte_at i + 8 \<le> a" "a + ?k \<le> length m" using f by (simp_all add: free_for_def)
  have le: "16 \<le> a" using b(2) by (simp add: dte_at_def)
  have "fields m i (le_value (mem_read m (dte_at i) 4)) (le_value (mem_read m (dte_at i + 4) 2)) (le_value (mem_read m (dte_at i + 6) 2))"
    by (simp add: fields_def)
  from set_field_ok(2) [OF b(1) this len(1), where b = a and k = ?k] obtain m1 where
    m1: "set_nlen m i (length n) = Some m1" "length m1 = length m" "untouched m i a ?k m1"
      "fields m1 i (le_value (mem_read m (dte_at i) 4)) (length n) (le_value (mem_read m (dte_at i + 6) 2))" by blast
  from set_field_ok(3) [OF _ m1(4) len(2), where b = a and k = ?k] b(1) m1(2) obtain m2 where
    m2: "set_vlen m1 i (length v) = Some m2" "length m2 = length m" "untouched m1 i a ?k m2"
      "fields m2 i (le_value (mem_read m (dte_at i) 4)) (length n) (length v)" by auto
  from set_field_ok(1) [OF _ m2(4) a, where b = a and k = ?k] b(1) m2(2) obtain m3 where
    m3: "set_addr m2 i a = Some m3" "length m3 = length m" "untouched m2 i a ?k m3" "fields m3 i a (length n) (length v)" by auto
  let ?m4 = "memcpy m3 a (n @ v)"
  have l4: "length ?m4 = length m" using b m3(2) by simp
  have "fields ?m4 i a (length n) (length v)" using m3(4) b m3(2) by (simp add: fields_data)
  moreover have "mem_read ?m4 a (length (n @ v)) = n @ v" using b m3(2) by (intro mem_read_stored) auto
  ultimately have "stored ?m4 i (a, n, v)" using b le l4 by (simp add: stored_def fields_def)
  moreover have "untouched m3 i a ?k ?m4" using untouched_data [of a a "n @ v" ?k m3 i] b m3(2) by simp
  then have "untouched m i a ?k ?m4" using m1(3) m2(3) m3(3) by (blast intro: untouched_trans)
  moreover have "store m3 a (n @ v) = Some ?m4" using b le m3(2) by (simp add: store_def)
  ultimately show ?thesis using m1(1) m2(1) m3(1) by blast
qed

lemma next_slot: "head < wrap \<Longrightarrow> 0 < i \<Longrightarrow> i < wrap \<Longrightarrow>
  (if slot_back head wrap i + 1 \<ge> wrap then 0 else slot_back head wrap i + 1) = slot_back head wrap (i - 1)"
  by (auto simp: slot_back_def)

lemma laid_snoc: "laid lo hi es \<Longrightarrow> lo' + extent e \<le> lo \<Longrightarrow> laid lo' hi ((lo', snd e) # es)"
  by (auto intro: laid_mono)

lemma defrag_loop_ok:
  assumes m: "placed m (slot_back head wrap) es" and h: "head < wrap" "length es \<le> wrap" and sz: "sz < 2 ^ 16"
    and k: "k \<le> length es" "map snd don = map snd (drop k es)" and alt: "length alt = sz" "placed alt (\<lambda>i. length don - 1 - i) don"
    and room: "laid addr sz don" "16 + 8 * length es + total_extent (take k es) \<le> addr"
  shows "\<exists>alt' es'. defrag_loop m wrap k (slot_back head wrap (k - 1)) (length es - k) addr alt = Some alt'
    \<and> length alt' = sz \<and> map snd es' = map snd es \<and> placed alt' (\<lambda>i. length es - 1 - i) es'
    \<and> laid (addr - total_extent (take k es)) sz es'"
  using k alt room
proof (induction k arbitrary: don addr alt)
  case 0
  then have "length don = length es" by (metis drop0 length_map)
  with 0 show ?case by auto
next
  case (Suc k)
  obtain a n v where e: "es ! k = (a, n, v)" by (cases "es ! k")
  have kk: "k < length es" using Suc.prems(1) by simp
  then have st: "stored m (slot_back head wrap k) (a, n, v)" using m e by (metis placed_def)
  note sd = storedD [OF st]
  have ld: "length don = length es - Suc k" using Suc.prems(2) by (metis length_drop length_map)
  have tk: "total_extent (take (Suc k) es) = total_extent (take k es) + (length n + length v)"
    using take_Suc_conv_app_nth [OF kk] e by simp
  let ?addr = "addr - (length n + length v)"
  let ?new = "length es - Suc k"
  have ad: "addr \<le> sz" using laid_le [OF Suc.prems(5)] .
  have as: "as_u32 (int addr - int (length n + length v)) = ?addr" using Suc.prems(6) tk ad sz by (subst as_u32_less) auto
  have dn: "dte_at ?new + 8 \<le> 16 + 8 * length es" using kk by (simp add: dte_at_def)
  have "free_for alt ?new ?addr (length n + length v)"
    using dn Suc.prems(3,6) tk ad by (auto simp: free_for_def)
  from write_entry_ok [OF this] ad sz Suc.prems(6) tk obtain m1 m2 m3 m4 where
    w: "set_nlen alt ?new (length n) = Some m1" "set_vlen m1 ?new (length v) = Some m2" "set_addr m2 ?new ?addr = Some m3"
      "store m3 ?addr (n @ v) = Some m4" "stored m4 ?new (?addr, n, v)" "untouched alt ?new ?addr (length n + length v) m4" by force
  have run: "defrag_loop m wrap (Suc k) (slot_back head wrap (Suc k - 1)) ?new addr alt
      = defrag_loop m wrap k (if slot_back head wrap k + 1 \<ge> wrap then 0 else slot_back head wrap k + 1) (?new + 1) ?addr m4"
    using sd w as by (simp add: Let_def)
  have nx: "(if slot_back head wrap k + 1 \<ge> wrap then 0 else slot_back head wrap k + 1) = slot_back head wrap (k - 1)" if "0 < k"
    using next_slot [OF h(1) that] kk h(2) by simp
  let ?don = "(?addr, n, v) # don"
  have k1: "map snd ?don = map snd (drop k es)" using Suc.prems(2) Cons_nth_drop_Suc [OF kk] e by (metis list.simps(9) snd_conv)
  have len4: "length m4 = sz" using w(6) Suc.prems(3) by (simp add: untouched_def)
  have keepst: "stored m4 (length don - 1 - j) (don ! j)" if "j < length don" for j
  proof -
    have st: "stored alt (length don - 1 - j) (don ! j)" using Suc.prems(4) that by (simp add: placed_def)
    have "length don - 1 - j \<noteq> ?new" "dte_at (length don - 1 - j) + 8 \<le> dte_at ?new" using that ld by (auto simp: dte_at_def)
    moreover have "addr \<le> fst (don ! j)" using laid_bounds [OF Suc.prems(5)] that by simp
    moreover have "dte_at ?new + 8 \<le> ?addr" using dn Suc.prems(6) tk by linarith
    ultimately show ?thesis using tk Suc.prems(6) by (intro untouchedD [OF w(6) st]) linarith+
  qed
  have p4: "placed m4 (\<lambda>i. length ?don - 1 - i) ?don"
    unfolding placed_def
  proof (intro allI impI)
    fix i assume i: "i < length ?don"
    show "stored m4 (length ?don - 1 - i) (?don ! i)"
      using w(5) ld keepst [of "i - 1"] i by (cases i) auto
  qed
  have l4: "laid ?addr sz ?don" using laid_snoc [OF Suc.prems(5), of ?addr "(a, n, v)"] Suc.prems(6) tk by simp
  have r4: "16 + 8 * length es + total_extent (take k es) \<le> ?addr" using Suc.prems(6) tk by linarith
  from Suc.IH [OF _ k1 len4 p4 l4 r4] kk obtain alt' es' where
    r: "defrag_loop m wrap k (slot_back head wrap (k - 1)) (length es - k) ?addr m4 = Some alt'" "length alt' = sz"
      "map snd es' = map snd es" "placed alt' (\<lambda>i. length es - 1 - i) es'" "laid (?addr - total_extent (take k es)) sz es'" by auto
  have "defrag_loop m wrap (Suc k) (slot_back head wrap (Suc k - 1)) ?new addr alt = Some alt'"
  proof (cases "k = 0")
    case True
    with run r(1) show ?thesis by simp
  next
    case False
    with run r(1) nx kk show ?thesis by (simp add: Suc_diff_Suc)
  qed
  with r(2-5) tk show ?case by (intro exI [of _ alt'] exI [of _ es']) (simp add: add.commute)
qed

lemma map_snd_extent: "map snd es' = map snd es \<Longrightarrow> total_extent es' = total_extent es"
proof -
  assume "map snd es' = map snd es"
  then have "map (\<lambda>p. length (fst p) + length (snd p)) (map snd es') = map (\<lambda>p. length (fst p) + length (snd p)) (map snd es)" by simp
  then show ?thesis by (simp add: total_extent_def comp_def)
qed

lemma defrag_ok:
  assumes ok: "dht_ok d old new" and used: "0 < dht_used d" and room: "16 + 8 * dht_used d + dht_total d \<le> dht_size d"
  shows "\<exists>d' es. hpack_dht_defrag (Some f) d = Some (Some d') \<and> dht_ok d' es [] \<and> map snd es = map snd (new @ old)
    \<and> dht_size d' = dht_size d \<and> dht_head d' = dht_used d - 1 \<and> dht_wrap d' = dht_used d \<and> dht_used d' = dht_used d
    \<and> dht_total d' = dht_total d \<and> laid (dht_size d - dht_total d) (dht_size d) es"
proof -
  let ?es = "new @ old"
  have d: "dht_head d < dht_wrap d" "dht_used d \<le> dht_wrap d" "placed (dht_mem d) (slot_back (dht_head d) (dht_wrap d)) ?es" "dht_used d = length ?es"
    "dht_total d = total_extent ?es" "dht_size d < 2 ^ 16" "32 * dht_used d + dht_total d \<le> dht_size d"
    using ok used by (auto simp: dht_ok_def)
  have w: "dht_wrap d < 2 ^ 16" by (rule dht_ok_wrap [OF ok used])
  let ?alt = "map f [0..<dht_size d]"
  have "total_extent (take (dht_used d) ?es) = dht_total d" using d(4,5) by simp
  then obtain alt' es where
    r: "defrag_loop (dht_mem d) (dht_wrap d) (dht_used d) (slot_back (dht_head d) (dht_wrap d) (dht_used d - 1)) 0 (dht_size d) ?alt = Some alt'"
      "length alt' = dht_size d" "map snd es = map snd ?es" "placed alt' (\<lambda>i. length ?es - 1 - i) es" "laid (dht_size d - dht_total d) (dht_size d) es"
    using defrag_loop_ok [OF d(3,1) _ d(6), of "dht_used d" "[]" ?alt "dht_size d"] d(2,4,5) room
    by (auto simp: placed_def)
  have len: "length es = dht_used d" using r(3) d(4) by (metis length_map)
  have u16: "as_u16 (int (dht_used d) - 1) = dht_used d - 1" using used d(2) w by (subst as_u16_less) auto
  let ?d = "\<lparr>dht_size = dht_size d, dht_total = dht_total d, dht_front = dht_used d - 1, dht_wrap = dht_used d,
    dht_head = dht_used d - 1, dht_used = dht_used d, dht_mem = alt'\<rparr>"
  have "hpack_dht_defrag (Some f) d = Some (Some ?d)"
    using used r(1) u16 tail_slot [OF d(1) w used d(2)]
    by (simp add: hpack_dht_defrag_def hpack_dht_alloc_def hpack_dht_init_def Let_def)
  moreover have "dht_ok ?d es []"
  proof -
    have "es \<noteq> []" using len used by auto
    moreover have "placed alt' (slot_back (dht_used d - 1) (dht_used d)) es"
      using placed_slots [OF r(4), of "slot_back (dht_used d - 1) (dht_used d)"] len d(4) by (simp add: slot_back_def)
    moreover have "laid (16 + 8 * dht_used d) (dht_size d) es" by (rule laid_mono [OF r(5)]) (use room in linarith)+
    ultimately show ?thesis using len used d(5-7) r(2) map_snd_extent [OF r(3)] by (simp add: dht_ok_def slot_back_def)
  qed
  ultimately show ?thesis using r(3,5) by (intro exI [of _ ?d] exI [of _ es]) simp
qed


section \<open>Inserting\<close>

text \<open>The new entry is put into a free slot and a free place.\<close>

lemma put_entry_ok:
  assumes m: "placed m slot es" and len: "length m < 2 ^ 16" and a: "16 + 8 * wrap \<le> a" "a + (length n + length v) \<le> length m"
    and head: "head < wrap" "\<And>i. i < length es \<Longrightarrow> slot i \<noteq> head \<and> slot i < wrap"
    and apart: "\<And>e. e \<in> set es \<Longrightarrow> 16 + 8 * wrap \<le> fst e \<and> (a + (length n + length v) \<le> fst e \<or> fst e + extent e \<le> a)"
  shows "\<exists>m1. set_addr m head a = Some m1 \<and> (\<forall>d :: dht. dht_mem d = m1 \<longrightarrow>
    (\<exists>m2. dht_copy d head n v = Some (0, d\<lparr>dht_total := as_u32 (int (dht_total d) + int (length n + length v)), dht_mem := m2\<rparr>)
       \<and> length m2 = length m \<and> stored m2 head (a, n, v) \<and> placed m2 slot es))"
proof -
  let ?k = "length n + length v"
  have dh: "dte_at head + 8 \<le> 16 + 8 * wrap" using head(1) by (simp add: dte_at_def)
  have fr: "free_for m head a ?k" using dh a by (simp add: free_for_def)
  have "fields m head (le_value (mem_read m (dte_at head) 4)) (le_value (mem_read m (dte_at head + 4) 2)) (le_value (mem_read m (dte_at head + 6) 2))"
    by (simp add: fields_def)
  from set_field_ok(1) [OF _ this, of a a ?k] dh a len obtain m1 where
    m1: "set_addr m head a = Some m1" "length m1 = length m" "untouched m head a ?k m1"
      "fields m1 head a (le_value (mem_read m (dte_at head + 4) 2)) (le_value (mem_read m (dte_at head + 6) 2))" by auto
  have fr1: "free_for m1 head a ?k" using fr m1(2) by (simp add: free_for_def)
  have ad: "dte_addr m1 head = Some a" using fields_addr [OF _ m1(4)] fr1 by (simp add: free_for_def)
  have small: "length n < 2 ^ 16" "length v < 2 ^ 16" using a len by simp_all
  show ?thesis
  proof (rule exI [of _ m1], rule conjI, rule m1(1), intro allI impI)
    fix d :: dht assume d: "dht_mem d = m1"
    from dht_copy_ok [of d head a n v] fr1 ad small d obtain m2 where
      m2: "dht_copy d head n v = Some (0, d\<lparr>dht_total := as_u32 (int (dht_total d) + int ?k), dht_mem := m2\<rparr>)"
        "stored m2 head (a, n, v)" "untouched m1 head a ?k m2" by auto
    have u: "untouched m head a ?k m2" by (rule untouched_trans [OF m1(3) m2(3)])
    have "placed m2 slot es"
      unfolding placed_def
    proof (intro allI impI)
      fix i assume i: "i < length es"
      then have "stored m (slot i) (es ! i)" using m by (simp add: placed_def)
      moreover have "dte_at (slot i) + 8 \<le> a" using head(2) [OF i] a(1) by (simp add: dte_at_def)
      ultimately show "stored m2 (slot i) (es ! i)"
        using head(2) [OF i] apart [of "es ! i"] i dh by (intro untouchedD [OF u]) auto
    qed
    moreover have "length m2 = length m" using u by (simp add: untouched_def)
    ultimately show "\<exists>m2. dht_copy d head n v = Some (0, d\<lparr>dht_total := as_u32 (int (dht_total d) + int ?k), dht_mem := m2\<rparr>)
       \<and> length m2 = length m \<and> stored m2 head (a, n, v) \<and> placed m2 slot es" using m2(1,2) by blast
  qed
qed

text \<open>A table with a slot for one more entry: the table, the new \<open>wrap\<close> and the new \<open>head\<close>.\<close>

definition slot_ready :: "dht \<Rightarrow> entry list \<Rightarrow> entry list \<Rightarrow> nat \<Rightarrow> nat \<Rightarrow> bool" where
  "slot_ready d old new wrap head \<longleftrightarrow> dht_ok d old new \<and> 0 < dht_used d \<and> head < wrap \<and> dht_used d < wrap
     \<and> (dht_used d \<le> head \<longrightarrow> wrap = head + 1) \<and> laid (16 + 8 * wrap) (dht_size d) (old @ new)
     \<and> (\<forall>i < dht_used d. slot_back head wrap (Suc i) = slot_back (dht_head d) (dht_wrap d) i)"

lemma slot_after_defrag:
  assumes ok: "dht_ok d es []" and h: "dht_head d = dht_used d - 1" "dht_wrap d = dht_used d" "0 < dht_used d"
    and l: "laid (dht_size d - dht_total d) (dht_size d) es" and room: "32 * dht_used d + dht_total d + 32 \<le> dht_size d"
  shows "slot_ready d es [] (dht_wrap d + 1) (dht_head d + 1)"
proof -
  have "laid (16 + 8 * (dht_wrap d + 1)) (dht_size d) es" by (rule laid_mono [OF l]) (use room h in simp_all)
  then show ?thesis using ok h by (auto simp: slot_ready_def slot_back_def)
qed

lemma dht_slot_ok:
  assumes ok: "dht_ok d old new" and used: "0 < dht_used d" and room: "32 * dht_used d + dht_total d + 32 \<le> dht_size d"
  shows "dht_slot fresh d = Some None \<and> fresh = None
    \<or> (\<exists>d' wrap head old' new'. dht_slot fresh d = Some (Some (d', wrap, head, dht_head d', hpack_dht_get_tail (dht_head d') (dht_wrap d') (dht_used d')))
        \<and> slot_ready d' old' new' wrap head \<and> map snd (new' @ old') = map snd (new @ old) \<and> dht_size d' = dht_size d
        \<and> dht_total d' = dht_total d \<and> dht_used d' = dht_used d)"
    (is "_ \<or> (\<exists>d' wrap head old' new'. ?P d' wrap head old' new')")
proof -
  let ?es = "new @ old" and ?tail = "hpack_dht_get_tail (dht_head d) (dht_wrap d) (dht_used d)"
  define realign where "realign = (do { r \<leftarrow> hpack_dht_defrag fresh d;
            Some (case r of None \<Rightarrow> None | Some d \<Rightarrow> Some (d, dht_wrap d + 1, dht_head d + 1, dht_head d, 0 :: nat)) })"
  have re: "dht_slot fresh d = Some None \<and> fresh = None \<or> (\<exists>d' wrap head old' new'. ?P d' wrap head old' new')" if r: "dht_slot fresh d = realign"
  proof (cases fresh)
    case None
    then have "hpack_dht_defrag fresh d = Some None" by (simp add: hpack_dht_defrag_def hpack_dht_alloc_def)
    with None r show ?thesis by (simp add: realign_def)
  next
    case (Some f)
    from defrag_ok [OF ok used, of f] room obtain d' es where
      d': "hpack_dht_defrag (Some f) d = Some (Some d')" "dht_ok d' es []" "map snd es = map snd ?es" "dht_size d' = dht_size d"
        "dht_head d' = dht_used d - 1" "dht_wrap d' = dht_used d" "dht_used d' = dht_used d" "dht_total d' = dht_total d"
        "laid (dht_size d - dht_total d) (dht_size d) es" by auto
    have "slot_ready d' es [] (dht_wrap d' + 1) (dht_head d' + 1)"
      using slot_after_defrag [OF d'(2)] d'(4-9) used room by simp
    moreover have "hpack_dht_get_tail (dht_head d') (dht_wrap d') (dht_used d') = 0"
      using d'(5-7) used by (simp add: hpack_dht_get_tail_def as_u32_def)
    ultimately have "?P d' (dht_wrap d' + 1) (dht_head d' + 1) es []" using d' Some r by (simp add: realign_def)
    then show ?thesis by blast
  qed
  have i: "old \<noteq> []" "dht_head d < dht_wrap d" "dht_used d \<le> dht_wrap d" "dht_used d \<le> dht_head d + 1 \<longrightarrow> dht_wrap d = dht_head d + 1"
    "dht_front d = slot_back (dht_head d) (dht_wrap d) (length new)" "placed (dht_mem d) (slot_back (dht_head d) (dht_wrap d)) ?es"
    "laid (16 + 8 * dht_wrap d) (dht_size d) (old @ new)" "dht_used d = length ?es"
    using ok used by (simp_all add: dht_ok_def)
  obtain e old1 where o: "old = e # old1" using i(1) by (cases old) auto
  have "stored (dht_mem d) (dht_front d) e" using i(5,6,8) o by (auto simp: placed_def nth_append dest: spec [of _ "length new"])
  then have fa: "dte_addr (dht_mem d) (dht_front d) = Some (fst e)" by (cases e) (simp add: storedD)
  have unf: "dht_slot fresh d =
      (if dht_head d + 1 \<ge> dht_wrap d then
         if 16 + (dht_wrap d + 1) * 8 \<le> fst e then Some (Some (d, dht_wrap d + 1, dht_head d + 1, dht_head d, ?tail))
         else if dht_head d + 1 \<ge> dht_used d + 1 then Some (Some (d, dht_wrap d, 0, dht_head d, ?tail))
         else realign
       else if dht_used d + 1 \<ge> dht_wrap d then realign
       else Some (Some (d, dht_wrap d, dht_head d + 1, dht_head d, ?tail)))"
    unfolding dht_slot_def realign_def Let_def fa by (simp cong: if_cong split del: if_split)
  consider (extend) "dht_head d + 1 \<ge> dht_wrap d" "16 + (dht_wrap d + 1) * 8 \<le> fst e"
    | (hole) "dht_head d + 1 \<ge> dht_wrap d" "\<not> 16 + (dht_wrap d + 1) * 8 \<le> fst e" "dht_head d + 1 \<ge> dht_used d + 1"
    | (realign) "dht_slot fresh d = realign"
    | (onward) "\<not> dht_head d + 1 \<ge> dht_wrap d" "\<not> dht_used d + 1 \<ge> dht_wrap d"
    unfolding unf by presburger
  then show ?thesis
  proof cases
    case extend
    then have w: "dht_wrap d = dht_head d + 1" using i(2) by simp
    have "laid (16 + 8 * (dht_wrap d + 1)) (dht_size d) (old @ new)" using i(7) extend(2) o by simp
    then have "slot_ready d old new (dht_wrap d + 1) (dht_head d + 1)"
      using ok used i(3) w by (auto simp: slot_ready_def slot_back_def)
    with extend show ?thesis unfolding unf by (intro disjI2 exI [of _ d] exI [of _ "dht_wrap d + 1"] exI [of _ "dht_head d + 1"] exI [of _ old] exI [of _ new]) simp
  next
    case hole
    then have w: "dht_wrap d = dht_head d + 1" using i(2) by simp
    have "slot_ready d old new (dht_wrap d) 0"
      using ok used hole(3) w i(7) by (auto simp: slot_ready_def slot_back_def)
    with hole show ?thesis unfolding unf by (intro disjI2 exI [of _ d] exI [of _ "dht_wrap d"] exI [of _ 0] exI [of _ old] exI [of _ new]) simp
  next
    case realign
    with re show ?thesis by blast
  next
    case onward
    have "slot_ready d old new (dht_wrap d) (dht_head d + 1)"
      using ok used onward i(4,7) by (auto simp: slot_ready_def slot_back_def)
    with onward show ?thesis unfolding unf by (intro disjI2 exI [of _ d] exI [of _ "dht_wrap d"] exI [of _ "dht_head d + 1"] exI [of _ old] exI [of _ new]) simp
  qed
qed


lemma laid_apart:
  assumes "laid lo hi (old2 @ new2)" "new2 @ old2 = e # es" "e' \<in> set es"
  shows "fst e + extent e \<le> fst e' \<or> fst e' + extent e' \<le> fst e"
proof (cases new2)
  case Nil
  then have "laid lo hi (e # es)" using assms(1,2) by simp
  with laid_bounds [of "fst e + extent e" hi es e'] assms(3) show ?thesis by simp
next
  case (Cons x new3)
  then have e: "x = e" "es = new3 @ old2" using assms(2) by simp_all
  with Cons assms(1) obtain mid where "laid lo mid old2" "laid mid hi (e # new3)" by (auto simp: laid_append)
  with laid_bounds [of lo mid old2 e'] laid_bounds [of "fst e + extent e" hi new3 e'] assms(3) e(2) show ?thesis by auto
qed

lemma insert_at:
  assumes sr: "slot_ready d old new wrap head" and room: "32 * dht_used d + dht_total d + (length n + length v) + 32 \<le> dht_size d"
    and lay: "laid (16 + 8 * wrap) (dht_size d) (olds @ news)" and eq: "news @ olds = (a, n, v) # new @ old" and o2: "olds \<noteq> []"
    and front: "front = slot_back head wrap (length news)"
  shows "\<exists>m1 d2. set_addr (dht_mem d) head a = Some m1
    \<and> dht_copy (d\<lparr>dht_mem := m1, dht_front := front, dht_wrap := as_u16 (int wrap), dht_head := as_u16 (int head), dht_used := as_u16 (int (dht_used d + 1))\<rparr>) head n v
        = Some (0, d2) \<and> dht_ok d2 olds news \<and> dht_size d2 = dht_size d"
proof -
  let ?es = "new @ old" and ?s = "slot_back (dht_head d) (dht_wrap d)"
  have d: "length (dht_mem d) = dht_size d" "dht_size d < 2 ^ 16" "dht_used d = length ?es" "dht_total d = total_extent ?es"
    "dht_head d < dht_wrap d" "dht_used d \<le> dht_wrap d" "placed (dht_mem d) ?s ?es" "0 < dht_used d"
    using sr by (auto simp: slot_ready_def dht_ok_def)
  have r: "head < wrap" "dht_used d < wrap" "dht_used d \<le> head \<longrightarrow> wrap = head + 1" "\<forall>i < dht_used d. slot_back head wrap (Suc i) = ?s i"
    using sr by (simp_all add: slot_ready_def)
  have w: "16 + 8 * wrap \<le> dht_size d" using laid_le [OF lay] .
  have mem: "e \<in> set (olds @ news) \<longleftrightarrow> e = (a, n, v) \<or> e \<in> set ?es" for e
    using arg_cong [OF eq, of set] by auto
  have b: "16 + 8 * wrap \<le> fst e \<and> fst e + extent e \<le> dht_size d" if "e = (a, n, v) \<or> e \<in> set ?es" for e
    using laid_bounds [OF lay] mem that by blast
  have s0: "slot_back head wrap 0 = head" by (simp add: slot_back_def)
  have sl: "?s i \<noteq> head \<and> ?s i < wrap" if "i < length ?es" for i
    using that r d(3) slot_back_eq [OF r(1), of "Suc i" 0] slot_back_less [OF r(1), of "Suc i"] s0 by auto
  have "16 + 8 * wrap \<le> fst e \<and> (a + (length n + length v) \<le> fst e \<or> fst e + extent e \<le> a)" if "e \<in> set ?es" for e
    using laid_apart [OF lay eq that] b [of e] that by auto
  from put_entry_ok [OF d(7) _ _ _ r(1) sl this] b [of "(a, n, v)"] d(1,2) obtain m1 where
    m1: "set_addr (dht_mem d) head a = Some m1"
      "\<And>d' :: dht. dht_mem d' = m1 \<Longrightarrow> \<exists>m2. dht_copy d' head n v = Some (0, d'\<lparr>dht_total := as_u32 (int (dht_total d') + int (length n + length v)), dht_mem := m2\<rparr>)
       \<and> length m2 = length (dht_mem d) \<and> stored m2 head (a, n, v) \<and> placed m2 ?s ?es" by auto
  let ?d = "d\<lparr>dht_mem := m1, dht_front := front, dht_wrap := as_u16 (int wrap), dht_head := as_u16 (int head), dht_used := as_u16 (int (dht_used d + 1))\<rparr>"
  from m1(2) [of ?d] obtain m2 where m2: "dht_copy ?d head n v = Some (0, ?d\<lparr>dht_total := as_u32 (int (dht_total d) + int (length n + length v)), dht_mem := m2\<rparr>)"
    "length m2 = dht_size d" "stored m2 head (a, n, v)" "placed m2 ?s ?es" using d(1) by auto
  have u: "as_u16 (int wrap) = wrap" "as_u16 (int head) = head" "as_u16 (int (dht_used d + 1)) = dht_used d + 1"
    "as_u32 (int (dht_total d) + int (length n + length v)) = dht_total d + (length n + length v)"
    using w d(2) r(1,2) room by (auto simp: as_u16_less as_u32_less)
  have "placed m2 (slot_back head wrap) (news @ olds)"
    unfolding eq placed_def
  proof (intro allI impI)
    fix i assume i: "i < length ((a, n, v) # ?es)"
    show "stored m2 (slot_back head wrap i) (((a, n, v) # ?es) ! i)"
      using m2(3,4) s0 r(4) i d(3) by (cases i) (auto simp: placed_def)
  qed
  moreover have "length (news @ olds) = dht_used d + 1" "total_extent (news @ olds) = dht_total d + (length n + length v)"
    unfolding eq using d(3,4) by (simp_all add: add.commute)
  ultimately have "dht_ok (?d\<lparr>dht_total := as_u32 (int (dht_total d) + int (length n + length v)), dht_mem := m2\<rparr>) olds news"
    using u m2(2) d(2) room o2 r(1-3) front lay by (simp add: dht_ok_def)
  with m1(1) m2(1) show ?thesis by auto
qed

lemma dht_place_ok:
  assumes sr: "slot_ready d old new wrap head" and room: "32 * dht_used d + dht_total d + (length n + length v) + 32 \<le> dht_size d"
    and flat: "0 < length n + length v \<or> new = []"
  shows "dht_place fresh d wrap head (dht_head d) (hpack_dht_get_tail (dht_head d) (dht_wrap d) (dht_used d)) (dht_used d + 1) (length n + length v) = None \<and> fresh = None
    \<or> (\<exists>d1 head1 d2 old2 new2. dht_place fresh d wrap head (dht_head d) (hpack_dht_get_tail (dht_head d) (dht_wrap d) (dht_used d)) (dht_used d + 1) (length n + length v) = Some (d1, head1)
      \<and> dht_copy d1 head1 n v = Some (0, d2) \<and> dht_ok d2 old2 new2 \<and> map snd (new2 @ old2) = (n, v) # map snd (new @ old) \<and> dht_size d2 = dht_size d)"
    (is "?place = None \<and> _ \<or> ?good")
proof -
  let ?es = "new @ old" and ?s = "slot_back (dht_head d) (dht_wrap d)" and ?k = "length n + length v"
  have ok: "dht_ok d old new" and used: "0 < dht_used d" using sr by (simp_all add: slot_ready_def)
  have d: "length (dht_mem d) = dht_size d" "dht_size d < 2 ^ 16" "dht_used d = length ?es" "dht_total d = total_extent ?es"
    "dht_head d < dht_wrap d" "dht_used d \<le> dht_wrap d" "placed (dht_mem d) ?s ?es" "old \<noteq> []" "dht_front d = ?s (length new)"
    using ok used by (simp_all add: dht_ok_def)
  have r: "head < wrap" "dht_used d < wrap" "laid (16 + 8 * wrap) (dht_size d) (old @ new)" "\<forall>i < dht_used d. slot_back head wrap (Suc i) = ?s i"
    using sr by (simp_all add: slot_ready_def)
  have w: "dht_wrap d < 2 ^ 16" by (rule dht_ok_wrap [OF ok used])
  have w': "16 + 8 * wrap \<le> dht_size d" using laid_le [OF r(3)] .
  have s0: "?s 0 = dht_head d" by (simp add: slot_back_def)
  have at: "stored (dht_mem d) (?s i) (?es ! i)" if "i < dht_used d" for i using d(3,7) that by (simp add: placed_def)
  obtain ta tn tv old1 where t: "old = old1 @ [(ta, tn, tv)]" using d(8) by (metis append_butlast_last_id prod.collapse)
  obtain fa fn fv old3 where f: "old = (fa, fn, fv) # old3" using d(8) by (cases old) auto
  have tl: "hpack_dht_get_tail (dht_head d) (dht_wrap d) (dht_used d) = ?s (dht_used d - 1)" by (rule tail_slot [OF d(5) w used d(6)])
  have "stored (dht_mem d) (?s (dht_used d - 1)) (ta, tn, tv)" using at [of "dht_used d - 1"] used d(3) t by (simp add: nth_append)
  note T = storedD(1-3) [OF this]
  have "stored (dht_mem d) (dht_front d) (fa, fn, fv)" using at [of "length new"] d(3,9) f by (simp add: nth_append)
  note F = storedD(1) [OF this]
  have pf: "dht_head d = dht_front d \<longleftrightarrow> new = []"
    using slot_back_eq [OF d(5), of 0 "length new"] s0 d(3,6,9) f by auto
  obtain mid where mid: "laid (16 + 8 * wrap) mid old" "laid mid (dht_size d) new" using r(3) by (auto simp: laid_append)
  have tend: "ta + length tn + length tv \<le> mid" using laid_bounds [OF mid(1), of "(ta, tn, tv)"] t by simp
  have fb: "16 + 8 * wrap \<le> fa" "fa \<le> dht_size d" using r(3) laid_bounds [OF r(3), of "(fa, fn, fv)"] f by simp_all
  define pend where "pend = (case new of [] \<Rightarrow> dht_size d | e # _ \<Rightarrow> fst e)"
  have mp: "mid \<le> pend" "pend \<le> dht_size d"
    using mid(2) laid_le [OF mid(2)] laid_bounds [OF mid(2)] by (auto simp: pend_def split: list.split) fastforce
  define headroom where "headroom = (if new = [] then fa - (16 + 8 * wrap) else 0)"
  define tailroom where "tailroom = pend - (ta + length tn + length tv)"
  have tr: "as_u32 (int pend - int ta - int (length tn) - int (length tv)) = tailroom"
    using tend mp d(2) unfolding tailroom_def by (subst as_u32_less) auto
  have rooms: "(if dht_head d = dht_front d then do {
          faddr \<leftarrow> dte_addr (dht_mem d) (dht_front d);
          Some (as_u32 (int faddr - int (16 + wrap * 8)), as_u32 (int (dht_size d) - int ta - int (length tn) - int (length tv))) }
        else do {
          paddr \<leftarrow> dte_addr (dht_mem d) (dht_head d);
          Some (0, as_u32 (int paddr - int ta - int (length tn) - int (length tv))) }) = Some (headroom, tailroom)"
  proof (cases new)
    case Nil
    have "as_u32 (int fa - int (16 + wrap * 8)) = headroom" using fb d(2) Nil by (subst as_u32_less) (auto simp: headroom_def)
    then show ?thesis using Nil pf F tr by (simp add: pend_def)
  next
    case (Cons e new1)
    have "stored (dht_mem d) (dht_head d) e" using at [OF used] s0 Cons by simp
    then have "dte_addr (dht_mem d) (dht_head d) = Some (fst e)" by (cases e) (simp add: storedD)
    then show ?thesis using Cons pf tr by (simp add: pend_def headroom_def)
  qed
  have run: "?place =
     (if headroom \<ge> ?k then do {
        m \<leftarrow> set_addr (dht_mem d) head (as_u32 (int fa - int ?k));
        Some (d\<lparr>dht_mem := m, dht_front := as_u16 (int head), dht_wrap := as_u16 (int wrap), dht_head := as_u16 (int head), dht_used := as_u16 (int (dht_used d + 1))\<rparr>, head) }
      else if tailroom \<ge> ?k then do {
        m \<leftarrow> set_addr (dht_mem d) head (as_u32 (int ta + int (length tn) + int (length tv) + int tailroom - int ?k));
        Some (d\<lparr>dht_mem := m, dht_wrap := as_u16 (int wrap), dht_head := as_u16 (int head), dht_used := as_u16 (int (dht_used d + 1))\<rparr>, head) }
      else do {
        r \<leftarrow> hpack_dht_defrag fresh d;
        d \<leftarrow> r;
        let wrap = dht_wrap d + 1;
        let head = dht_head d + 1;
        faddr \<leftarrow> dte_addr (dht_mem d) (dht_front d);
        m \<leftarrow> set_addr (dht_mem d) head (as_u32 (int faddr - int ?k));
        Some (d\<lparr>dht_mem := m, dht_front := as_u16 (int head), dht_wrap := as_u16 (int wrap), dht_head := as_u16 (int head), dht_used := as_u16 (int (length ?es + 1))\<rparr>, head) })"
    unfolding dht_place_def tl T Option.bind.bind_lunit rooms by (simp only: Option.bind.bind_lunit prod.case Let_def F d(3))
  consider (front) "?k \<le> headroom" | (tail) "\<not> ?k \<le> headroom" "?k \<le> tailroom" | (full) "\<not> ?k \<le> headroom" "\<not> ?k \<le> tailroom" by blast
  then show ?thesis
  proof cases
    case front
    then have n: "new = []" using flat by (auto simp: headroom_def split: if_splits)
    have a: "as_u32 (int fa - int ?k) = fa - ?k" "16 + 8 * wrap \<le> fa - ?k" "fa - ?k + ?k = fa"
      using front fb d(2) n by (auto simp: headroom_def as_u32_less)
    have lay: "laid (16 + 8 * wrap) (dht_size d) ((fa - ?k, n, v) # old)" using r(3) a n f by simp
    have u: "as_u16 (int head) = slot_back head wrap (length ([] :: entry list))" using r(1) w' d(2) by (simp add: as_u16_less slot_back_def)
    from insert_at [OF sr room, where olds = "(fa - ?k, n, v) # old" and news = "[]" and a = "fa - ?k", OF _ _ _ u] lay n obtain m1 d2 where
      m1: "set_addr (dht_mem d) head (fa - ?k) = Some m1"
      "dht_copy (d\<lparr>dht_mem := m1, dht_front := as_u16 (int head), dht_wrap := as_u16 (int wrap), dht_head := as_u16 (int head), dht_used := as_u16 (int (dht_used d + 1))\<rparr>) head n v = Some (0, d2)"
      "dht_ok d2 ((fa - ?k, n, v) # old) []" "dht_size d2 = dht_size d" by auto
    note d2 = m1(3,4)
    have "\<exists>old2 new2. dht_ok d2 old2 new2 \<and> map snd (new2 @ old2) = (n, v) # map snd ?es \<and> dht_size d2 = dht_size d"
      using d2 n by (intro exI [of _ "(fa - ?k, n, v) # old"] exI [of _ "[]"]) simp
    with m1 front a(1) show ?thesis unfolding run by auto
  next
    case tail
    let ?a = "pend - ?k"
    have a: "as_u32 (int ta + int (length tn) + int (length tv) + int tailroom - int ?k) = ?a" "mid' \<le> mid \<Longrightarrow> True" for mid' :: nat
      using tail tend mp d(2) unfolding tailroom_def by (subst as_u32_less) auto
    have le: "ta + length tn + length tv \<le> ?a" "?a + ?k = pend" using tail(2) tend mp unfolding tailroom_def by linarith+
    have "laid (16 + 8 * wrap) (ta + length tn + length tv) old"
    proof -
      from mid(1) obtain z where "laid (16 + 8 * wrap) z old1" "laid z mid [(ta, tn, tv)]" unfolding t laid_append by blast
      then show ?thesis unfolding t laid_append by (intro exI [of _ z]) (simp add: add.assoc)
    qed
    moreover have "laid (ta + length tn + length tv) (dht_size d) ((?a, n, v) # new)"
      using le mid(2) mp by (cases new) (simp_all add: pend_def)
    ultimately have lay: "laid (16 + 8 * wrap) (dht_size d) (old @ (?a, n, v) # new)" by (auto simp: laid_append)
    have u: "dht_front d = slot_back head wrap (length ((?a, n, v) # new))" using r(4) d(3,8,9) by simp
    from insert_at [OF sr room lay _ d(8) u] obtain m1 d2 where
      "set_addr (dht_mem d) head ?a = Some m1"
      "dht_copy (d\<lparr>dht_mem := m1, dht_front := dht_front d, dht_wrap := as_u16 (int wrap), dht_head := as_u16 (int head), dht_used := as_u16 (int (dht_used d + 1))\<rparr>) head n v = Some (0, d2)"
      "dht_ok d2 old ((?a, n, v) # new)" "dht_size d2 = dht_size d" by auto
    moreover have "d\<lparr>dht_mem := m1, dht_front := dht_front d, dht_wrap := as_u16 (int wrap), dht_head := as_u16 (int head), dht_used := as_u16 (int (dht_used d + 1))\<rparr>
        = d\<lparr>dht_mem := m1, dht_wrap := as_u16 (int wrap), dht_head := as_u16 (int head), dht_used := as_u16 (int (dht_used d + 1))\<rparr>" for m1
      by simp
    moreover from calculation(3,4) have "\<exists>old2 new2. dht_ok d2 old2 new2 \<and> map snd (new2 @ old2) = (n, v) # map snd ?es \<and> dht_size d2 = dht_size d"
      by (intro exI [of _ old] exI [of _ "(?a, n, v) # new"]) simp
    ultimately show ?thesis using tail a(1) unfolding run by auto
  next
    case full
    show ?thesis
    proof (cases fresh)
      case None
      then have "hpack_dht_defrag fresh d = Some None" by (simp add: hpack_dht_defrag_def hpack_dht_alloc_def)
      with None full show ?thesis unfolding run by simp
    next
      case (Some fr)
      from defrag_ok [OF ok used, of fr] room obtain d' es where
        d': "hpack_dht_defrag (Some fr) d = Some (Some d')" "dht_ok d' es []" "map snd es = map snd ?es" "dht_size d' = dht_size d"
          "dht_head d' = dht_used d - 1" "dht_wrap d' = dht_used d" "dht_used d' = dht_used d" "dht_total d' = dht_total d"
          "laid (dht_size d - dht_total d) (dht_size d) es" by auto
      have sr': "slot_ready d' es [] (dht_wrap d' + 1) (dht_head d' + 1)"
        using slot_after_defrag [OF d'(2)] d'(4-9) used room by simp
      have "length es = dht_used d" using d'(3) d(3) by (metis length_map)
      then obtain ga gn gv es1 where g: "es = (ga, gn, gv) # es1" using used by (cases es) auto
      have "stored (dht_mem d') (dht_front d') (ga, gn, gv)"
        using d'(2,7) used g by (auto simp: dht_ok_def placed_def)
      note G = storedD(1) [OF this]
      have gb: "dht_size d - dht_total d \<le> ga" "ga \<le> dht_size d" using d'(9) laid_bounds [OF d'(9), of "(ga, gn, gv)"] g by simp_all
      have a: "as_u32 (int ga - int ?k) = ga - ?k" "16 + 8 * (dht_wrap d' + 1) \<le> ga - ?k" "ga - ?k + ?k = ga"
        using gb room d(2) d'(6) by (auto simp: as_u32_less)
      have lay: "laid (16 + 8 * (dht_wrap d' + 1)) (dht_size d') ((ga - ?k, n, v) # es)" using d'(4,9) a g by simp
      have u: "as_u16 (int (dht_head d' + 1)) = slot_back (dht_head d' + 1) (dht_wrap d' + 1) (length ([] :: entry list))"
        using d'(5) used d(6) w by (simp add: as_u16_less slot_back_def)
      from insert_at [OF sr', where n = n and v = v and olds = "(ga - ?k, n, v) # es" and news = "[]" and a = "ga - ?k", OF _ _ _ _ u] lay room d'(4,7,8) obtain m1 d2 where
        m1: "set_addr (dht_mem d') (dht_head d' + 1) (ga - ?k) = Some m1"
        "dht_copy (d'\<lparr>dht_mem := m1, dht_front := as_u16 (int (dht_head d' + 1)), dht_wrap := as_u16 (int (dht_wrap d' + 1)),
           dht_head := as_u16 (int (dht_head d' + 1)), dht_used := as_u16 (int (dht_used d' + 1))\<rparr>) (dht_head d' + 1) n v = Some (0, d2)"
        "dht_ok d2 ((ga - ?k, n, v) # es) []" "dht_size d2 = dht_size d'" by auto
      have "\<exists>old2 new2. dht_ok d2 old2 new2 \<and> map snd (new2 @ old2) = (n, v) # map snd ?es \<and> dht_size d2 = dht_size d"
        using m1(3,4) d'(3,4) by (intro exI [of _ "(ga - ?k, n, v) # es"] exI [of _ "[]"]) simp
      with m1 full d'(1,7) G a(1) Some d(3) show ?thesis unfolding run by (auto simp: Let_def)
    qed
  qed
qed


definition contents :: "entry list \<Rightarrow> entry list \<Rightarrow> (byte list \<times> byte list) list" where
  "contents old new = map snd (new @ old)"

lemma insert_ok:
  assumes ok: "dht_ok d old new" and len: "0 < length n + length v" "length n + length v < 2 ^ 31"
  shows "hpack_dht_insert malloc d n v = None \<and> malloc 1 = None
    \<or> (\<exists>d' old' new'. hpack_dht_insert malloc d n v = Some (-1, d') \<and> malloc 0 = None \<and> dht_ok d' old' new' \<and> dht_size d' = dht_size d
         \<and> contents old' new' = keep (dht_size d - (32 + (length n + length v))) (contents old new))
    \<or> (\<exists>d' old' new'. hpack_dht_insert malloc d n v = Some (0, d') \<and> dht_ok d' old' new' \<and> dht_size d' = dht_size d
         \<and> contents old' new' = keep (dht_size d) ((n, v) # contents old new))"
proof -
  let ?k = "length n + length v"
  have k: "as_u32 (int ?k) = ?k" using len(2) by (subst as_u32_less) auto
  from make_room_ok [OF ok len(2)] obtain d1 old1 new1 u where
    r: "hpack_dht_make_room d ?k = Some (?k + 32 \<le> dht_size d, d1)" "dht_ok d1 old1 new1" "dht_size d1 = dht_size d"
      "new1 @ old1 = take u (new @ old)" "u \<le> length (new @ old)"
      "?k + 32 \<le> dht_size d \<longrightarrow> 32 * u + total_extent (take u (new @ old)) + ?k + 32 \<le> dht_size d"
      "\<not> ?k + 32 \<le> dht_size d \<longrightarrow> u = 0"
      "u < length (new @ old) \<longrightarrow> dht_size d < 32 * Suc u + total_extent (take (Suc u) (new @ old)) + ?k + 32" by blast
  show ?thesis
  proof (cases "?k + 32 \<le> dht_size d")
    case False
    then have "hpack_dht_insert malloc d n v = Some (0, d1)" using r(1) k by (simp add: hpack_dht_insert_def)
    moreover have "contents old1 new1 = keep (dht_size d) ((n, v) # contents old new)"
      unfolding contents_def r(4) using r(7) False by simp
    ultimately show ?thesis using r(2,3) by blast
  next
    case True
    have fit: "32 * u + total_extent (take u (new @ old)) + ?k + 32 \<le> dht_size d" using r(6) True by blast
    have kept: "contents old1 new1 = keep (dht_size d - (32 + ?k)) (contents old new)"
      unfolding contents_def r(4)
    proof (rule keep_take [OF r(5), symmetric])
      show "32 * u + total_extent (take u (new @ old)) \<le> dht_size d - (32 + ?k)" using fit by linarith
      show "u < length (new @ old) \<Longrightarrow> dht_size d - (32 + ?k) < 32 * Suc u + total_extent (take (Suc u) (new @ old))" using r(8) True by linarith
    qed
    then have goal: "(n, v) # contents old1 new1 = keep (dht_size d) ((n, v) # contents old new)" using True by (simp add: add.assoc)
    have d1: "dht_used d1 = u" "dht_total d1 = total_extent (take u (new @ old))" "dht_size d1 < 2 ^ 16" "length (dht_mem d1) = dht_size d1"
      using r(2,5) unfolding dht_ok_def r(4) by simp_all
    show ?thesis
    proof (cases "u = 0")
      case True
      let ?d = "d1\<lparr>dht_front := 0, dht_head := 0, dht_wrap := 1, dht_used := 1, dht_total := 0\<rparr>"
      let ?a = "dht_size d1 - ?k"
      have a: "as_u32 (int (dht_size d1) - int ?k) = ?a" "?a + ?k = dht_size d1" "24 \<le> ?a"
        using fit True r(3) d1(3) by (auto simp: as_u32_less)
      from put_entry_ok [of "dht_mem d1" "\<lambda>i. 0" "[]" 1 ?a n v 0] a d1(3,4) obtain m1 where
        m1: "set_addr (dht_mem d1) 0 ?a = Some m1" "\<And>d' :: dht. dht_mem d' = m1 \<Longrightarrow> \<exists>m2. dht_copy d' 0 n v
          = Some (0, d'\<lparr>dht_total := as_u32 (int (dht_total d') + int ?k), dht_mem := m2\<rparr>) \<and> length m2 = length (dht_mem d1) \<and> stored m2 0 (?a, n, v)"
        by (auto simp: placed_def)
      from m1(2) [of "?d\<lparr>dht_mem := m1\<rparr>"] obtain m2 where
        m2: "dht_copy (?d\<lparr>dht_mem := m1\<rparr>) 0 n v = Some (0, ?d\<lparr>dht_total := ?k, dht_mem := m2\<rparr>)" "length m2 = dht_size d1" "stored m2 0 (?a, n, v)"
        using d1(4) k by auto
      have "dht_ok (?d\<lparr>dht_total := ?k, dht_mem := m2\<rparr>) [(?a, n, v)] []"
        using m2(2,3) a d1(3) fit True r(3) by (simp add: dht_ok_def slot_back_def placed_def)
      moreover have "contents [(?a, n, v)] [] = keep (dht_size d) ((n, v) # contents old new)"
        using goal r(4) True by (simp add: contents_def)
      moreover have "hpack_dht_insert malloc d n v = Some (0, ?d\<lparr>dht_total := ?k, dht_mem := m2\<rparr>)"
        using r(1) k \<open>?k + 32 \<le> dht_size d\<close> d1(1) True m1(1) m2(1) a(1) by (simp add: hpack_dht_insert_def)
      ultimately have "\<exists>d' old' new'. hpack_dht_insert malloc d n v = Some (0, d') \<and> dht_ok d' old' new' \<and> dht_size d' = dht_size d
         \<and> contents old' new' = keep (dht_size d) ((n, v) # contents old new)"
        by (intro exI [of _ "?d\<lparr>dht_total := ?k, dht_mem := m2\<rparr>"] exI [of _ "[(?a, n, v)]"] exI [of _ "[]"] conjI) (use r(3) in simp_all)
      then show ?thesis by blast
    next
      case False
      then have used: "0 < dht_used d1" using d1(1) by simp
      have room: "32 * dht_used d1 + dht_total d1 + ?k + 32 \<le> dht_size d1" using fit d1(1,2) r(3) by simp
      have ins: "hpack_dht_insert malloc d n v = (case dht_slot (malloc 0) d1 of None \<Rightarrow> None | Some None \<Rightarrow> Some (-1, d1)
          | Some (Some (d', wrap, head, prev, tail)) \<Rightarrow> do {
              (d', head) \<leftarrow> dht_place (malloc 1) d' wrap head prev tail (dht_used d1 + 1) ?k;
              dht_copy d' head n v })"
        using r(1) k True used by (simp add: hpack_dht_insert_def split: option.split)
      have room1: "32 * dht_used d1 + dht_total d1 + 32 \<le> dht_size d1" using room by simp
      from dht_slot_ok [OF r(2) used room1, of "malloc 0"] show ?thesis
      proof (elim disjE exE conjE)
        assume "dht_slot (malloc 0) d1 = Some None" "malloc 0 = None"
        then show ?thesis using ins r(2,3) kept by auto
      next
        fix d2 wrap head old2 new2
        assume s: "dht_slot (malloc 0) d1 = Some (Some (d2, wrap, head, dht_head d2, hpack_dht_get_tail (dht_head d2) (dht_wrap d2) (dht_used d2)))"
          "slot_ready d2 old2 new2 wrap head" "map snd (new2 @ old2) = map snd (new1 @ old1)" "dht_size d2 = dht_size d1"
          "dht_total d2 = dht_total d1" "dht_used d2 = dht_used d1"
        have "32 * dht_used d2 + dht_total d2 + ?k + 32 \<le> dht_size d2" using room s(4-6) by simp
        from dht_place_ok [OF s(2) this disjI1 [OF len(1)], of "malloc 1"] show ?thesis
        proof (elim disjE exE conjE)
          assume "dht_place (malloc 1) d2 wrap head (dht_head d2) (hpack_dht_get_tail (dht_head d2) (dht_wrap d2) (dht_used d2)) (dht_used d2 + 1) ?k = None" "malloc 1 = None"
          then show ?thesis using ins s(1,6) by simp
        next
          fix d3 head1 d4 old4 new4
          assume p: "dht_place (malloc 1) d2 wrap head (dht_head d2) (hpack_dht_get_tail (dht_head d2) (dht_wrap d2) (dht_used d2)) (dht_used d2 + 1) ?k = Some (d3, head1)"
            "dht_copy d3 head1 n v = Some (0, d4)" "dht_ok d4 old4 new4" "map snd (new4 @ old4) = (n, v) # map snd (new2 @ old2)" "dht_size d4 = dht_size d2"
          have "hpack_dht_insert malloc d n v = Some (0, d4)" using ins s(1,6) p(1,2) by simp
          moreover have "contents old4 new4 = keep (dht_size d) ((n, v) # contents old new)" using p(4) s(3) goal by (simp add: contents_def)
          moreover have "dht_size d4 = dht_size d" using p(5) s(4) r(3) by simp
          ultimately show ?thesis using p(3) by blast
        qed
      qed
    qed
  qed
qed

text \<open>Lookups.\<close>

lemma lookup_ok:
  assumes ok: "dht_ok d old new" and i: "1 \<le> i" "i \<le> dht_used d"
  shows "\<exists>s. hpack_get_dte d i = Some s \<and> hpack_get_name d s = Some (fst (contents old new ! (i - 1)))
    \<and> hpack_get_value d s = Some (snd (contents old new ! (i - 1)))"
proof -
  let ?es = "new @ old"
  have d: "dht_head d < dht_wrap d" "dht_used d \<le> dht_wrap d" "placed (dht_mem d) (slot_back (dht_head d) (dht_wrap d)) ?es" "dht_used d = length ?es"
    using ok i by (auto simp: dht_ok_def)
  have w: "dht_wrap d < 2 ^ 16" using dht_ok_wrap [OF ok] i by simp
  have u: "as_u16 (int i - 1) = i - 1" using i d(2) w by (subst as_u16_less) auto
  have "as_u16 (int (dht_head d) - int (i - 1) + int (dht_wrap d)) = dht_head d + dht_wrap d - (i - 1)" if "dht_head d < i - 1"
    using that i d(2) w by (subst as_u16_less) auto
  then have "hpack_get_dte d i = Some (slot_back (dht_head d) (dht_wrap d) (i - 1))"
    using u i by (simp add: hpack_get_dte_def slot_back_def Let_def)
  moreover obtain a n v where e: "?es ! (i - 1) = (a, n, v)" by (cases "?es ! (i - 1)")
  moreover have "stored (dht_mem d) (slot_back (dht_head d) (dht_wrap d) (i - 1)) (?es ! (i - 1))" using d(3,4) i by (simp add: placed_def)
  moreover have "contents old new ! (i - 1) = (n, v)" using e i d(4) nth_map [of "i - 1" ?es snd] by (simp add: contents_def del: map_append)
  ultimately show ?thesis using storedD [of "dht_mem d" "slot_back (dht_head d) (dht_wrap d) (i - 1)" a n v]
    by (simp add: hpack_get_name_def hpack_get_value_def)
qed


lemma lookup_none: "dht_ok d old new \<Longrightarrow> i < 2 ^ 16 \<Longrightarrow> i = 0 \<or> dht_used d < i \<Longrightarrow> hpack_get_dte d i = None"
proof -
  assume ok: "dht_ok d old new" and i: "i < 2 ^ 16" "i = 0 \<or> dht_used d < i"
  have "dht_used d < 2 ^ 16 - 1" using ok by (auto simp: dht_ok_def)
  then have "dht_used d \<le> as_u16 (int i - 1)" using i by (cases "i = 0") (auto simp: as_u16_def as_u16_less)
  then show "hpack_get_dte d i = None" by (simp add: hpack_get_dte_def)
qed

section \<open>Properties\<close>

text \<open>The insertions of a connection, which is closed when one fails.\<close>

fun dht_inserts :: "(nat \<Rightarrow> nat \<Rightarrow> (nat \<Rightarrow> byte) option) \<Rightarrow> (byte list \<times> byte list) list \<Rightarrow> dht \<Rightarrow> dht option" where
  "dht_inserts malloc [] d = Some d"
| "dht_inserts malloc ((n, v) # hs) d = do {
     (r, d) \<leftarrow> hpack_dht_insert (malloc (length hs)) d n v;
     if r < 0 then None else dht_inserts malloc hs d }"

lemma dht_inserts_ok:
  assumes "dht_ok d old new" "\<forall>e \<in> set hs. 0 < length (fst e) + length (snd e) \<and> length (fst e) + length (snd e) < 2 ^ 31" "\<forall>k i. malloc k i \<noteq> None"
  shows "\<exists>d' old' new'. dht_inserts malloc hs d = Some d' \<and> dht_ok d' old' new' \<and> dht_size d' = dht_size d
    \<and> contents old' new' = foldl (\<lambda>C e. keep (dht_size d) (e # C)) (contents old new) hs"
  using assms(1,2)
proof (induction hs arbitrary: d old new)
  case (Cons e hs)
  obtain n v where e: "e = (n, v)" by (cases e)
  from insert_ok [OF Cons.prems(1), of n v "malloc (length hs)"] Cons.prems(2) assms(3) e obtain d1 old1 new1 where
    d1: "hpack_dht_insert (malloc (length hs)) d n v = Some (0, d1)" "dht_ok d1 old1 new1" "dht_size d1 = dht_size d"
      "contents old1 new1 = keep (dht_size d) ((n, v) # contents old new)" by auto
  from Cons.IH [OF d1(2)] Cons.prems(2) show ?case using d1 e by auto
qed auto



text \<open>
  An empty header behaves differently once the data has wrapped: it fits the headroom of zero bytes, so it
  becomes the front, and the next header is written over data in use.
\<close>

definition six_headers :: "(byte list \<times> byte list) list" where
  "six_headers = [(replicate 75 1, []), (replicate 9 2, []), (replicate 3 3, []), (replicate 19 4, []), ([], []), (replicate 3 6, [])]"

definition names :: "dht \<Rightarrow> byte list option list" where
  "names d = map (\<lambda>i. Option.bind (hpack_get_dte d i) (hpack_get_name d)) [1..<dht_used d + 1]"

text \<open>With an empty header the table does not hold what was inserted: six insertions into a table of 153 bytes
  leave a name of which the last three bytes have been overwritten by the newest one.\<close>

lemma empty_header_corrupts:
  "map_option names (dht_inserts (\<lambda>k i. Some (\<lambda>j. 0)) six_headers (the (hpack_dht_alloc (Some (\<lambda>j. 0)) 153)))
     = Some [Some [6, 6, 6], Some [], Some (replicate 16 4 @ [6, 6, 6]), Some [3, 3, 3]]
   \<and> map fst (foldl (\<lambda>C e. keep 153 (e # C)) [] six_headers) = [[6, 6, 6], [], replicate 19 4, [3, 3, 3]]"
  by code_simp

end
