(* ===== verification/Hpack_Decode.thy ===== *)
theory Hpack_Decode
  imports Hpack_Encode Hpack_Huffman Hpack_Table
begin

unbundle bit_operations_syntax

text \<open>
  The HPACK decoder of HAProxy (\<open>hpack-dec.c\<close>): the frame is the list of the bytes that are left, a name is a
  pseudo-header number or a string, and the temporary buffer that the strings are copied to is the number of bytes
  used of its \<open>tsize\<close>. Strings are values: the code never writes to a place of the temporary buffer twice, and
  copies names and values out of the dynamic table before it changes.

  The results are sums: \<open>Undef\<close> is an access outside of a block or a dereference of \<open>NULL\<close>, and \<open>Err\<close> an error
  code of the decoder. On an error the caller closes the connection, so the table is not returned.

  An integer of more than five bytes makes \<open>get_var_int\<close> shift a 32-bit word by 32 or more, which the C standard does
  not define. The value of such a shift is the parameter \<open>wide\<close>, a function of the distance and the word
  shifted: the distance modulo 32 on most processors, 0 on others. The properties hold for every such function.
\<close>

section \<open>Integers and indices\<close>

datatype hpack_err = HPACK_ERR_NONE | HPACK_ERR_ALLOC_FAIL | HPACK_ERR_UNKNOWN_OPCODE | HPACK_ERR_TRUNCATED
  | HPACK_ERR_HUFFMAN | HPACK_ERR_INVALID_PHDR | HPACK_ERR_MISPLACED_PHDR | HPACK_ERR_DUPLICATE_PHDR
  | HPACK_ERR_DHT_INSERT_FAIL | HPACK_ERR_TOO_LARGE | HPACK_ERR_MISSING_METHOD | HPACK_ERR_MISSING_SCHEME
  | HPACK_ERR_MISSING_PATH | HPACK_ERR_MISSING_AUTHORITY | HPACK_ERR_SCHEME_NOT_ALLOWED | HPACK_ERR_PATH_NOT_ALLOWED
  | HPACK_ERR_INVALID_ARGUMENT

datatype fault = Undef | Err hpack_err

fun var_loop :: "(nat \<Rightarrow> u32 \<Rightarrow> u32) \<Rightarrow> u32 \<Rightarrow> nat \<Rightarrow> byte list \<Rightarrow> fault + u32 \<times> byte list" where
  "var_loop wide ret shift [] = Inl (Err HPACK_ERR_TRUNCATED)"
| "var_loop wide ret shift (x # raw) =
     (let y = ucast x AND 127;
          ret = ret + (if shift < 32 then push_bit shift y else wide shift y)
      in if x AND 128 = 0 then Inr (ret, raw) else var_loop wide ret ((shift + 7) mod 256) raw)"

text \<open>The shift of processors that take the distance modulo 32, for the examples.\<close>

definition masked_shift :: "nat \<Rightarrow> u32 \<Rightarrow> u32" where
  "masked_shift n x = push_bit (n mod 32) x"

definition get_var_int :: "(nat \<Rightarrow> u32 \<Rightarrow> u32) \<Rightarrow> byte list \<Rightarrow> nat \<Rightarrow> fault + u32 \<times> byte list" where
  "get_var_int wide raw b =
     (case raw of
        [] \<Rightarrow> Inl Undef
      | x # raw \<Rightarrow>
          let ret = ucast x AND mask b
          in if ret \<noteq> mask b then Inr (ret, raw) else var_loop wide ret 0 raw)"

definition hpack_idx_to_phdr :: "nat \<Rightarrow> nat" where
  "hpack_idx_to_phdr idx = (if idx > 14 then 0 else unat (drop_bit (4 * (idx div 2)) (0x55554321 :: u32) AND 0xF))"

definition undef_of_none :: "'a option \<Rightarrow> fault + 'a" where
  "undef_of_none r = (case r of None \<Rightarrow> Inl Undef | Some a \<Rightarrow> Inr a)"

text \<open>A string, \<open>None\<close> when its pointer is \<open>NULL\<close>, which only the unused entry 0 of the static table is.\<close>

definition hpack_idx_to_name :: "dht \<Rightarrow> nat \<Rightarrow> fault + byte list option" where
  "hpack_idx_to_name d idx =
     (if idx < HPACK_SHT_SIZE then Inr (if idx = 0 then None else Some (fst (hpack_sht ! idx)))
      else case hpack_get_dte d (as_u16 (int idx - int HPACK_SHT_SIZE + 1)) of
          None \<Rightarrow> Inr (Some (ascii ''### ERR ###''))
        | Some dte \<Rightarrow> result_bind (undef_of_none (hpack_get_name d dte)) (\<lambda>s. Inr (Some s)))"

definition hpack_idx_to_value :: "dht \<Rightarrow> nat \<Rightarrow> fault + byte list option" where
  "hpack_idx_to_value d idx =
     (if idx < HPACK_SHT_SIZE then Inr (if idx = 0 then None else Some (snd (hpack_sht ! idx)))
      else case hpack_get_dte d (as_u16 (int idx - int HPACK_SHT_SIZE + 1)) of
          None \<Rightarrow> Inr (Some (ascii ''### ERR ###''))
        | Some dte \<Rightarrow> result_bind (undef_of_none (hpack_get_value d dte)) (\<lambda>s. Inr (Some s)))"

section \<open>Strings\<close>

definition chunk_newstr :: "nat \<Rightarrow> nat \<Rightarrow> nat option" where
  "chunk_newstr tsize used = (if used + 1 \<ge> tsize then None else Some (used + 1))"

text \<open>The string that is returned, \<open>None\<close> for \<open>NULL\<close>, and what is used of the temporary buffer then.\<close>

definition hpack_alloc_string :: "nat \<Rightarrow> nat \<Rightarrow> nat \<Rightarrow> byte list option \<Rightarrow> fault + byte list option \<times> nat" where
  "hpack_alloc_string tsize used idx s =
     (if idx < HPACK_SHT_SIZE then Inr (s, used)
      else case chunk_newstr tsize used of
          None \<Rightarrow> Inr (None, used)
        | Some used \<Rightarrow>
            (case s of
               None \<Rightarrow> Inl Undef
             | Some s \<Rightarrow> if used + length s > tsize then Inr (None, used) else Inr (Some s, used + length s)))"

text \<open>A literal string of the frame, which the code reads in the same way in three places.\<close>

definition read_string :: "(nat \<Rightarrow> u32 \<Rightarrow> u32) \<Rightarrow> nat \<Rightarrow> nat \<Rightarrow> byte list \<Rightarrow> fault + byte list \<times> nat \<times> byte list" where
  "read_string wide tsize used raw =
     (case raw of
        [] \<Rightarrow> Inl (Err HPACK_ERR_TRUNCATED)
      | x # _ \<Rightarrow>
          result_bind (get_var_int wide raw 7) (\<lambda>(l, raw).
          if length raw < unat l then Inl (Err HPACK_ERR_TRUNCATED)
          else
            let s = take (unat l) raw; raw = drop (unat l) raw
            in if x AND 0x80 = 0 then Inr (s, used, raw)
               else case chunk_newstr tsize used of
                   None \<Rightarrow> Inl (Err HPACK_ERR_TOO_LARGE)
                 | Some used \<Rightarrow>
                     (case huff_dec s (tsize - used) of
                        None \<Rightarrow> Inl (Err HPACK_ERR_HUFFMAN)
                      | Some t \<Rightarrow> Inr (t, used + length t, raw))))"

section \<open>Fields\<close>

datatype hname = Phdr nat | Name "byte list"

type_synonym field = "hname \<times> byte list"

definition string_or_error :: "(byte list option \<times> nat) \<Rightarrow> fault + byte list \<times> nat" where
  "string_or_error r = (case r of (None, used) \<Rightarrow> Inl (Err HPACK_ERR_TOO_LARGE) | (Some s, used) \<Rightarrow> Inr (s, used))"

text \<open>An indexed field.\<close>

definition indexed_field :: "(nat \<Rightarrow> u32 \<Rightarrow> u32) \<Rightarrow> nat \<Rightarrow> dht \<Rightarrow> nat \<Rightarrow> byte list \<Rightarrow> fault + field \<times> nat \<times> byte list" where
  "indexed_field wide tsize d used raw =
     result_bind (get_var_int wide raw 7) (\<lambda>(idx, raw).
     if \<not> hpack_valid_idx d (unat idx) then Inl (Err HPACK_ERR_TOO_LARGE)
     else
       result_bind (hpack_idx_to_value d (unat idx)) (\<lambda>v.
       result_bind (hpack_alloc_string tsize used (unat idx) v) (\<lambda>r.
       result_bind (string_or_error r) (\<lambda>(v, used).
       if hpack_idx_to_phdr (unat idx) \<noteq> 0 then Inr ((Phdr (hpack_idx_to_phdr (unat idx)), v), used, raw)
       else
         result_bind (hpack_idx_to_name d (unat idx)) (\<lambda>n.
         result_bind (hpack_alloc_string tsize used (unat idx) n) (\<lambda>r.
         result_bind (string_or_error r) (\<lambda>(n, used). Inr ((Name n, v), used, raw))))))))"

text \<open>A change of the size of the table, which is checked but not made: what is left of the frame.\<close>

definition size_update :: "(nat \<Rightarrow> u32 \<Rightarrow> u32) \<Rightarrow> dht \<Rightarrow> nat \<Rightarrow> byte list \<Rightarrow> fault + byte list" where
  "size_update wide d ret raw =
     (if ret \<noteq> 0 then Inl (Err HPACK_ERR_TOO_LARGE)
      else result_bind (get_var_int wide raw 5) (\<lambda>(idx, raw).
        if unat idx > dht_size d then Inl (Err HPACK_ERR_INVALID_ARGUMENT) else Inr raw))"

text \<open>A literal name and value; the first byte only tells whether to index it.\<close>

definition literal_field :: "(nat \<Rightarrow> u32 \<Rightarrow> u32) \<Rightarrow> nat \<Rightarrow> nat \<Rightarrow> byte list \<Rightarrow> fault + field \<times> nat \<times> byte list" where
  "literal_field wide tsize used raw =
     result_bind (read_string wide tsize used (tl raw)) (\<lambda>(n, used, raw).
     result_bind (read_string wide tsize used raw) (\<lambda>(v, used, raw). Inr ((Name n, v), used, raw)))"

text \<open>An indexed name and a literal value.\<close>

definition indexed_name_field :: "(nat \<Rightarrow> u32 \<Rightarrow> u32) \<Rightarrow> nat \<Rightarrow> dht \<Rightarrow> nat \<Rightarrow> bool \<Rightarrow> byte list \<Rightarrow> fault + field \<times> nat \<times> byte list" where
  "indexed_name_field wide tsize d used must_index raw =
     result_bind (get_var_int wide raw (if must_index then 6 else 4)) (\<lambda>(idx, raw).
     if raw = [] then Inl (Err HPACK_ERR_TRUNCATED)
     else if \<not> hpack_valid_idx d (unat idx) then Inl (Err HPACK_ERR_TOO_LARGE)
     else
       result_bind (read_string wide tsize used raw) (\<lambda>(v, used, raw).
       if \<not> must_index \<and> hpack_idx_to_phdr (unat idx) \<noteq> 0 then Inr ((Phdr (hpack_idx_to_phdr (unat idx)), v), used, raw)
       else
         result_bind (hpack_idx_to_name d (unat idx)) (\<lambda>n.
         result_bind (hpack_alloc_string tsize used (unat idx) n) (\<lambda>r.
         result_bind (string_or_error r) (\<lambda>(n, used). Inr ((Name n, v), used, raw))))))"

text \<open>The decoding of one field: the field, whether to index it, what is used and what is left; no field for an update.\<close>

definition decode_field :: "(nat \<Rightarrow> u32 \<Rightarrow> u32) \<Rightarrow> nat \<Rightarrow> dht \<Rightarrow> nat \<Rightarrow> nat \<Rightarrow> byte list \<Rightarrow> fault + (field \<times> bool) option \<times> nat \<times> byte list" where
  "decode_field wide tsize d used ret raw =
     (let x = hd raw in
      if x \<ge> 0x80 then
        if x = 0x80 then Inl (Err HPACK_ERR_UNKNOWN_OPCODE)
        else result_bind (indexed_field wide tsize d used raw) (\<lambda>(f, used, raw). Inr (Some (f, False), used, raw))
      else if x \<ge> 0x20 \<and> x \<le> 0x3f then
        result_bind (size_update wide d ret raw) (\<lambda>raw. Inr (None, used, raw))
      else if x AND (x - 0x10) = 0 then
        result_bind (literal_field wide tsize used raw) (\<lambda>(f, used, raw). Inr (Some (f, x = 0x40), used, raw))
      else
        result_bind (indexed_name_field wide tsize d used (x \<ge> 0x41) raw) (\<lambda>(f, used, raw). Inr (Some (f, x \<ge> 0x41), used, raw)))"

text \<open>The insertion of a field that is to be indexed; \<open>malloc\<close> are the blocks the table is realigned with.\<close>

definition index_field :: "(nat \<Rightarrow> (nat \<Rightarrow> byte) option) \<Rightarrow> dht \<Rightarrow> field \<times> bool \<Rightarrow> fault + dht" where
  "index_field malloc d f =
     (case f of
        ((Name n, v), True) \<Rightarrow>
          result_bind (undef_of_none (hpack_dht_insert malloc d n v)) (\<lambda>(r, d).
            if r < 0 then Inl (Err HPACK_ERR_DHT_INSERT_FAIL) else Inr d)
      | _ \<Rightarrow> Inr d)"

lemma var_loop_shorter: "var_loop wide ret shift raw = Inr (r, raw') \<Longrightarrow> length raw' < length raw"
  by (induction raw arbitrary: ret shift) (auto simp: Let_def split: if_splits intro: less_SucI)

declare var_loop.simps(2) [simp del]

lemma get_var_int_shorter: "get_var_int wide raw b = Inr (r, raw') \<Longrightarrow> length raw' < length raw"
  by (auto simp: get_var_int_def Let_def split: list.splits if_splits dest: var_loop_shorter)

lemma read_string_shorter: "read_string wide tsize used raw = Inr (s, used', raw') \<Longrightarrow> length raw' < length raw"
  by (auto simp: read_string_def Let_def result_bind_Inr_iff split: list.splits if_splits option.splits dest!: get_var_int_shorter)

lemma decode_field_shorter:
  assumes "raw \<noteq> []" "decode_field wide tsize d used ret raw = Inr (f, used', raw')"
  shows "length raw' < length raw"
  using assms
  by (auto simp: decode_field_def indexed_field_def size_update_def literal_field_def indexed_name_field_def Let_def result_bind_Inr_iff
      split: if_splits dest!: get_var_int_shorter read_string_shorter)

function decode_loop ::
  "(nat \<Rightarrow> u32 \<Rightarrow> u32) \<Rightarrow> (nat \<Rightarrow> nat \<Rightarrow> (nat \<Rightarrow> byte) option) \<Rightarrow> nat \<Rightarrow> nat \<Rightarrow> dht \<Rightarrow> nat \<Rightarrow> field list \<Rightarrow> byte list \<Rightarrow> fault + dht \<times> field list \<times> nat" where
  "decode_loop wide malloc lsize tsize d used hs raw =
     (if raw = [] then if length hs \<ge> lsize then Inl (Err HPACK_ERR_TOO_LARGE) else Inr (d, hs, used)
      else case decode_field wide tsize d used (length hs) raw of
          Inl e \<Rightarrow> Inl e
        | Inr (None, used', raw') \<Rightarrow> decode_loop wide malloc lsize tsize d used' hs raw'
        | Inr (Some (f, must_index), used', raw') \<Rightarrow>
            if length hs \<ge> lsize then Inl (Err HPACK_ERR_TOO_LARGE)
            else case index_field (malloc (length hs)) d (f, must_index) of
                Inl e \<Rightarrow> Inl e
              | Inr d \<Rightarrow> decode_loop wide malloc lsize tsize d used' (hs @ [f]) raw')"
  by pat_completeness auto
termination by (relation "measure (\<lambda>(_, _, _, _, _, _, _, raw). length raw)") (auto dest: decode_field_shorter)

declare decode_loop.simps [simp del]

text \<open>The table, the list without its end marker, which the value returned counts as well, and what is used.\<close>

definition hpack_decode_frame ::
  "(nat \<Rightarrow> u32 \<Rightarrow> u32) \<Rightarrow> (nat \<Rightarrow> nat \<Rightarrow> (nat \<Rightarrow> byte) option) \<Rightarrow> dht \<Rightarrow> byte list \<Rightarrow> nat \<Rightarrow> nat \<Rightarrow> fault + int \<times> dht \<times> field list \<times> nat" where
  "hpack_decode_frame wide malloc d raw lsize tsize =
     result_bind (decode_loop wide malloc lsize tsize d 0 [] raw) (\<lambda>(d, hs, used). Inr (int (length hs) + 1, d, hs, used))"

section \<open>Integers\<close>

lemma bit128: "bit (128 :: byte) k \<longleftrightarrow> k = 7"
proof (cases "k < 8")
  case True
  then have "k = 0 \<or> k = 1 \<or> k = 2 \<or> k = 3 \<or> k = 4 \<or> k = 5 \<or> k = 6 \<or> k = 7" by linarith
  then show ?thesis by (elim disjE) simp_all
next
  case False
  then show ?thesis using bit_imp_le_length [of "128 :: byte" k] by auto
qed

lemma low7: "ucast (word_of_nat c OR 128 :: byte) AND 127 = (word_of_nat (c mod 128) :: u32)"
proof -
  have m: "(127 :: u32) = mask 7" by (simp add: mask_eq_exp_minus_1)
  have "(word_of_nat (c mod 128) :: u32) = word_of_nat (take_bit 7 c)" by (simp add: take_bit_eq_mod)
  also have "\<dots> = ucast (word_of_nat c OR 128 :: byte) AND mask 7"
    by (rule bit_eqI, simp only: bit_simps bit_mask_iff bit128) auto
  finally show ?thesis by (simp add: m)
qed

lemma last7: "c < 128 \<Longrightarrow> ucast (word_of_nat c :: byte) AND 127 = (word_of_nat c :: u32)"
proof -
  assume "c < 128"
  then have c: "take_bit 7 c = c" by (simp add: take_bit_nat_eq_self)
  have m: "(127 :: u32) = mask 7" by (simp add: mask_eq_exp_minus_1)
  have "(word_of_nat (take_bit 7 c) :: u32) = ucast (word_of_nat c :: byte) AND mask 7"
    by (rule bit_eqI, simp only: bit_simps bit_mask_iff bit128) auto
  then show ?thesis by (simp add: m c)
qed

lemma more_bit: "(word_of_nat c OR 128 :: byte) AND 128 \<noteq> 0"
proof
  assume "(word_of_nat c OR 128 :: byte) AND 128 = 0"
  then have "bit ((word_of_nat c OR 128 :: byte) AND 128) 7 = bit (0 :: byte) 7" by simp
  then show False by (simp add: bit_simps bit128)
qed

lemma no_more_bit: "c < 128 \<Longrightarrow> (word_of_nat c :: byte) AND 128 = 0"
proof -
  assume "c < 128"
  then have c: "take_bit 7 c = c" by (simp add: take_bit_nat_eq_self)
  have "(word_of_nat (take_bit 7 c) :: byte) AND 128 = 0"
    by (rule bit_eqI, simp only: bit_simps bit128) auto
  then show ?thesis by (simp add: c)
qed

lemma split7: "push_bit n (word_of_nat (c mod 128)) + push_bit (n + 7) (word_of_nat (c div 128)) = (push_bit n (word_of_nat c) :: u32)"
proof -
  have "(word_of_nat c :: u32) = word_of_nat (c mod 128 + 128 * (c div 128))" by simp
  also have "\<dots> = word_of_nat (c mod 128) + 128 * word_of_nat (c div 128)" by (simp only: of_nat_add of_nat_mult of_nat_numeral)
  finally show ?thesis by (simp add: push_bit_eq_mult power_add algebra_simps)
qed

lemma var_loop_more:
  "shift < 32 \<Longrightarrow> var_loop wide ret shift ((word_of_nat c OR 128) # raw) = var_loop wide (ret + push_bit shift (word_of_nat (c mod 128))) (shift + 7) raw"
  unfolding var_loop.simps(2) Let_def low7 using more_bit by simp

lemma var_loop_last:
  "shift < 32 \<Longrightarrow> c < 128 \<Longrightarrow> var_loop wide ret shift (word_of_nat c # raw) = Inr (ret + push_bit shift (word_of_nat c), raw)"
  unfolding var_loop.simps(2) Let_def using no_more_bit last7 by simp

lemma var_loop_code:
  assumes "k \<le> 4" "c < 2 ^ (32 - 7 * k)"
  shows "var_loop wide ret (7 * k) (code_bytes c @ rest) = Inr (ret + push_bit (7 * k) (word_of_nat c), rest)"
  using assms
proof (induction c arbitrary: ret k rule: code_bytes.induct)
  case (1 c)
  show ?case
  proof (cases "128 \<le> c")
    case True
    have k: "k \<noteq> 4" using 1(3) True by auto
    then have "2 ^ (32 - 7 * k) = 128 * (2 :: nat) ^ (32 - 7 * (k + 1))" 
    proof -
      have "k = 0 \<or> k = 1 \<or> k = 2 \<or> k = 3" using k 1(2) by linarith
      then show ?thesis by (elim disjE) simp_all
    qed
    then have "c div 128 < 2 ^ (32 - 7 * (k + 1))" using 1(3) by (simp add: less_mult_imp_div_less)
    moreover have "k + 1 \<le> 4" using k 1(2) by simp
    ultimately have "var_loop wide (ret + push_bit (7 * k) (word_of_nat (c mod 128))) (7 * (k + 1)) (code_bytes (c div 128) @ rest)
        = Inr (ret + push_bit (7 * k) (word_of_nat (c mod 128)) + push_bit (7 * (k + 1)) (word_of_nat (c div 128)), rest)"
      using 1(1) [OF True] by blast
    then show ?thesis using True 1(2) split7 [of "7 * k" c]
      by (simp add: code_bytes.simps [of c] var_loop_more add.assoc add.commute)
  next
    case False
    then show ?thesis using 1(2) by (simp add: code_bytes.simps var_loop_last)
  qed
qed

text \<open>The code of an integer with \<open>b\<close> bits in the first byte, whose other bits are \<open>pre\<close> (RFC 7541, 5.1).\<close>

definition int_bytes :: "byte \<Rightarrow> nat \<Rightarrow> nat \<Rightarrow> byte list" where
  "int_bytes pre b n = (if n < 2 ^ b - 1 then [pre OR word_of_nat n] else (pre OR mask b) # code_bytes (n - (2 ^ b - 1)))"

lemma first_byte:
  assumes "pre AND mask b = (0 :: byte)" "b \<le> 8" "n < 2 ^ b"
  shows "ucast (pre OR word_of_nat n) AND (mask b :: u32) = word_of_nat n"
proof -
  have n: "take_bit b n = n" using assms(3) by (simp add: take_bit_nat_eq_self)
  have p: "\<not> (bit pre k \<and> k < b)" for k
  proof
    assume "bit pre k \<and> k < b"
    then have "bit (pre AND mask b) k" by (simp add: bit_simps bit_mask_iff) (use assms(2) bit_imp_le_length in fastforce)
    then show False using assms(1) by simp
  qed
  have "(word_of_nat (take_bit b n) :: u32) = ucast (pre OR word_of_nat n) AND mask b"
    by (rule bit_eqI) (use p assms(2) in \<open>auto simp: bit_simps bit_mask_iff\<close>)
  then show ?thesis by (simp add: n)
qed

lemma get_var_int_code:
  assumes "pre AND mask b = 0" "b \<le> 8" "n < 2 ^ 32"
  shows "get_var_int wide (int_bytes pre b n @ rest) b = Inr (word_of_nat n, rest)"
proof (cases "n < 2 ^ b - 1")
  case True
  have "word_of_nat n \<noteq> (mask b :: u32)"
  proof
    assume "word_of_nat n = (mask b :: u32)"
    then have "(word_of_nat n :: u32) = word_of_nat (2 ^ b - 1)" by (simp add: mask_eq_exp_minus_1 of_nat_diff)
    then have "unat (word_of_nat n :: u32) = unat (word_of_nat (2 ^ b - 1) :: u32)" by (rule arg_cong)
    moreover have "(2 :: nat) ^ b - 1 < 2 ^ 32" using assms(2) power_increasing [of b 8 "2 :: nat"] by simp
    ultimately show False using True assms(3) unfolding unsigned_of_nat by (simp add: take_bit_nat_eq_self)
  qed
  then show ?thesis using True first_byte [OF assms(1,2), of n] by (simp add: int_bytes_def get_var_int_def)
next
  case False
  have m: "(mask b :: byte) = word_of_nat (2 ^ b - 1)" "(mask b :: u32) = word_of_nat (2 ^ b - 1)"
    by (simp_all add: mask_eq_exp_minus_1 of_nat_diff)
  have "ucast (pre OR mask b) AND (mask b :: u32) = mask b"
    using first_byte [OF assms(1,2), of "2 ^ b - 1"] by (simp add: m)
  moreover have "var_loop wide (mask b) 0 (code_bytes (n - (2 ^ b - 1)) @ rest) = Inr (mask b + word_of_nat (n - (2 ^ b - 1)), rest)"
  proof -
    have "n - (2 ^ b - 1) < 2 ^ (32 - 7 * 0)" using le_less_trans [OF diff_le_self [of n "2 ^ b - 1"] assms(3)] by simp
    from var_loop_code [OF _ this, of wide "mask b"] show ?thesis by simp
  qed
  moreover have "(mask b :: u32) + word_of_nat (n - (2 ^ b - 1)) = word_of_nat n"
    using False by (simp add: m flip: of_nat_add)
  ultimately show ?thesis using False by (simp add: int_bytes_def get_var_int_def)
qed

lemma int_bytes_len: "n < 2 ^ 32 \<Longrightarrow> int_bytes 0 7 n = len_bytes n"
  by (simp add: int_bytes_def len_bytes_def mask_eq_exp_minus_1)

lemma get_len: "n < 2 ^ 32 \<Longrightarrow> get_var_int wide (len_bytes n @ rest) 7 = Inr (word_of_nat n, rest)"
  using get_var_int_code [of 0 7 n wide rest] by (simp add: int_bytes_len)

section \<open>The fields the encoder makes\<close>

lemma len_bytes_first: "\<exists>x xs. len_bytes n = x # xs \<and> x AND 0x80 = 0"
proof (cases "n < 127")
  case True
  then show ?thesis using no_more_bit [of n] by (simp add: len_bytes_def)
qed (simp add: len_bytes_def)

lemma read_plain:
  assumes "length s < 2 ^ 32"
  shows "read_string wide tsize used (len_bytes (length s) @ s @ rest) = Inr (s, used, rest)"
proof -
  obtain x xs where x: "len_bytes (length s) = x # xs" "x AND 0x80 = 0" using len_bytes_first by blast
  have g: "get_var_int wide (x # xs @ s @ rest) 7 = Inr (word_of_nat (length s), s @ rest)"
    using get_len [OF assms, of wide "s @ rest"] by (simp add: x)
  have u: "unat (word_of_nat (length s) :: u32) = length s"
    using assms by (simp add: unsigned_of_nat take_bit_nat_eq_self)
  show ?thesis using x(2) g u by (simp add: read_string_def x(1))
qed

lemma decode_literal:
  assumes "length n < 2 ^ 32" "length v < 2 ^ 32"
  shows "decode_field wide tsize d used ret (0 # len_bytes (length n) @ n @ len_bytes (length v) @ v @ rest)
     = Inr (Some ((Name n, v), False), used, rest)"
  using read_plain [OF assms(1)] read_plain [OF assms(2)] by (simp add: decode_field_def literal_field_def)

lemma index_first_bytes:
  "list_all (\<lambda>k. let x = word_of_nat k OR 0x40 :: byte in
     \<not> x \<ge> 0x80 \<and> \<not> (x \<ge> 0x20 \<and> x \<le> 0x3f) \<and> x AND (x - 0x10) \<noteq> 0 \<and> x \<ge> 0x41
       \<and> ucast x AND mask 6 = (word_of_nat k :: u32) \<and> word_of_nat k \<noteq> (mask 6 :: u32)) [1..<62]"
  by code_simp

lemma index_first_byte:
  assumes "0 < unat (i :: byte)" "unat i < 62"
  shows "\<not> i OR 0x40 \<ge> 0x80" "\<not> (i OR 0x40 \<ge> 0x20 \<and> i OR 0x40 \<le> 0x3f)" "(i OR 0x40) AND ((i OR 0x40) - 0x10) \<noteq> 0"
    "i OR 0x40 \<ge> 0x41" "get_var_int wide ((i OR 0x40) # raw) 6 = Inr (word_of_nat (unat i), raw)"
proof -
  have "unat i \<in> set [1..<62]" using assms by simp
  with index_first_bytes have *: "let x = word_of_nat (unat i) OR 0x40 :: byte in
     \<not> x \<ge> 0x80 \<and> \<not> (x \<ge> 0x20 \<and> x \<le> 0x3f) \<and> x AND (x - 0x10) \<noteq> 0 \<and> x \<ge> 0x41
       \<and> ucast x AND mask 6 = (word_of_nat (unat i) :: u32) \<and> word_of_nat (unat i) \<noteq> (mask 6 :: u32)"
    unfolding list_all_iff by blast
  have u: "(word_of_nat (unat i) :: byte) = i" by simp
  note * = * [unfolded Let_def u]
  from * show "\<not> i OR 0x40 \<ge> 0x80" "\<not> (i OR 0x40 \<ge> 0x20 \<and> i OR 0x40 \<le> 0x3f)" "(i OR 0x40) AND ((i OR 0x40) - 0x10) \<noteq> 0"
    "i OR 0x40 \<ge> 0x41" by blast+
  from * show "get_var_int wide ((i OR 0x40) # raw) 6 = Inr (word_of_nat (unat i), raw)"
    unfolding get_var_int_def Let_def by simp
qed

lemma decode_indexed_name:
  assumes i: "0 < unat (i :: byte)" "unat i < 62" and v: "length v < 2 ^ 32"
  shows "decode_field wide tsize d used ret ((i OR 0x40) # len_bytes (length v) @ v @ rest)
     = Inr (Some ((Name (fst (hpack_sht ! unat i)), v), True), used, rest)"
proof -
  have u: "unat (word_of_nat (unat i) :: u32) = unat i"
    unfolding unsigned_of_nat using i(2) by (simp add: take_bit_nat_eq_self)
  have ne: "len_bytes (length v) @ v @ rest \<noteq> []" using len_bytes_first [of "length v"] by auto
  have "indexed_name_field wide tsize d used True ((i OR 0x40) # len_bytes (length v) @ v @ rest)
      = Inr ((Name (fst (hpack_sht ! unat i)), v), used, rest)"
    using i ne u read_plain [OF v]
    by (simp add: indexed_name_field_def index_first_byte(5) [OF i] hpack_valid_idx_def hpack_idx_to_name_def HPACK_SHT_SIZE_def
        hpack_alloc_string_def string_or_error_def)
  then show ?thesis using index_first_byte(1-4) [OF i] unfolding decode_field_def Let_def list.sel by auto
qed

section \<open>Encoding and decoding a list of headers\<close>

text \<open>The table holds \<open>C\<close>, the newest first.\<close>

definition holds :: "dht \<Rightarrow> (byte list \<times> byte list) list \<Rightarrow> bool" where
  "holds d C \<longleftrightarrow> (\<exists>old new. dht_ok d old new \<and> contents old new = C)"

text \<open>The headers the encoder asks to be indexed.\<close>

definition to_index :: "byte list \<times> byte list \<Rightarrow> bool" where
  "to_index h \<longleftrightarrow> the (enc_find (fst h)) \<noteq> None"

definition plain :: "byte list \<times> byte list \<Rightarrow> field" where
  "plain h = (Name (fst h), snd h)"

lemma insert_holds:
  assumes "holds d C" "0 < length n + length v" "length n + length v < 2 ^ 31" "\<forall>i. malloc i \<noteq> None"
  shows "\<exists>d'. hpack_dht_insert malloc d n v = Some (0, d') \<and> holds d' (keep (dht_size d) ((n, v) # C)) \<and> dht_size d' = dht_size d"
proof -
  from assms(1) obtain old new where o: "dht_ok d old new" "contents old new = C" by (auto simp: holds_def)
  from insert_ok [OF o(1) assms(2,3), of malloc] assms(4) obtain d' old' new' where
    "hpack_dht_insert malloc d n v = Some (0, d')" "dht_ok d' old' new'" "dht_size d' = dht_size d"
    "contents old' new' = keep (dht_size d) ((n, v) # contents old new)" by blast
  then show ?thesis using o(2) unfolding holds_def by blast
qed

lemma code_plain:
  assumes "codable n" "codable v"
  shows "decode_field wide tsize d used ret (header_code n v @ rest) = Inr (Some (plain (n, v), to_index (n, v)), used, rest)"
proof -
  obtain r where r: "enc_find n = Some r" "\<forall>i. r = Some i \<longrightarrow> 0 < unat i \<and> unat i < 62 \<and> fst (hpack_sht ! unat i) = n"
    using enc_find_ok [of n] by blast
  show ?thesis
  proof (cases r)
    case None
    then show ?thesis using r(1) assms decode_literal [of n v] by (simp add: header_code_def name_code_def plain_def to_index_def)
  next
    case (Some i)
    then have "0 < unat i" "unat i < 62" "fst (hpack_sht ! unat i) = n" using r(2) by blast+
    then show ?thesis using r(1) Some assms decode_indexed_name [of i v]
      by (simp add: header_code_def name_code_def plain_def to_index_def)
  qed
qed

lemma to_index_name: "to_index (n, v) \<Longrightarrow> 0 < length n"
proof -
  assume "to_index (n, v)"
  then have "0 \<le> hpack_pos_len ! length n" by (auto simp: to_index_def enc_find_def split: if_splits)
  then show ?thesis by (cases "n = []") (simp_all add: hpack_pos_len_def)
qed

lemma index_plain:
  assumes "holds d C" "\<forall>i. malloc i \<noteq> None" "codable n" "codable v"
  shows "\<exists>d'. index_field malloc d (plain (n, v), to_index (n, v)) = Inr d' \<and> dht_size d' = dht_size d
    \<and> holds d' (if to_index (n, v) then keep (dht_size d) ((n, v) # C) else C)"
proof (cases "to_index (n, v)")
  case True
  from insert_holds [OF assms(1) _ _ assms(2), of n v] to_index_name [OF True] assms(3,4) True
  show ?thesis by (auto simp: index_field_def plain_def undef_of_none_def)
qed (use assms(1) in \<open>simp add: index_field_def plain_def\<close>)

lemma header_code_Cons: "header_code n v \<noteq> []"
  by (auto simp: header_code_def name_code_def split: option.splits)

lemma decode_codes:
  assumes "holds d C" "\<forall>k i. malloc k i \<noteq> None" "\<forall>h \<in> set hs. codable (fst h) \<and> codable (snd h)" "length fs + length hs < lsize"
  shows "\<exists>d'. decode_loop wide malloc lsize tsize d used fs (concat (map (\<lambda>h. header_code (fst h) (snd h)) hs)) = Inr (d', fs @ map plain hs, used)
    \<and> dht_size d' = dht_size d \<and> holds d' (foldl (\<lambda>C h. keep (dht_size d) (h # C)) C (filter to_index hs))"
  using assms(1,3,4)
proof (induction hs arbitrary: d C fs)
  case (Cons h hs)
  obtain n v where h: "h = (n, v)" by (cases h)
  have c: "codable n" "codable v" using Cons.prems(2) h by simp_all
  from index_plain [OF Cons.prems(1) _ c, of "malloc (length fs)"] assms(2) obtain d1 where
    d1: "index_field (malloc (length fs)) d (plain (n, v), to_index (n, v)) = Inr d1" "dht_size d1 = dht_size d"
      "holds d1 (if to_index (n, v) then keep (dht_size d) ((n, v) # C) else C)" by blast
  have "decode_loop wide malloc lsize tsize d used fs (concat (map (\<lambda>h. header_code (fst h) (snd h)) (h # hs)))
      = decode_loop wide malloc lsize tsize d1 used (fs @ [plain (n, v)]) (concat (map (\<lambda>h. header_code (fst h) (snd h)) hs))"
    using Cons.prems(3) header_code_Cons [of n v] d1(1) code_plain [OF c, of wide tsize d used "length fs"]
    by (subst decode_loop.simps) (simp add: h)
  moreover have "\<exists>d'. decode_loop wide malloc lsize tsize d1 used (fs @ [plain (n, v)]) (concat (map (\<lambda>h. header_code (fst h) (snd h)) hs))
      = Inr (d', (fs @ [plain (n, v)]) @ map plain hs, used) \<and> dht_size d' = dht_size d1
      \<and> holds d' (foldl (\<lambda>C h. keep (dht_size d1) (h # C)) (if to_index (n, v) then keep (dht_size d) ((n, v) # C) else C) (filter to_index hs))"
    by (rule Cons.IH [OF d1(3)]) (use Cons.prems(2,3) in simp_all)
  ultimately show ?case using d1(2) h by (auto split: if_splits)
next
  case Nil
  then show ?case by (simp add: decode_loop.simps)
qed

text \<open>The headers of a message, encoded one after another into a buffer.\<close>

fun encode_headers :: "ring \<Rightarrow> (byte list \<times> byte list) list \<Rightarrow> (bool \<times> ring) option" where
  "encode_headers out [] = Some (True, out)"
| "encode_headers out ((n, v) # hs) =
     Option.bind (hpack_encode_header out n v) (\<lambda>(ok, out). if ok then encode_headers out hs else Some (False, out))"

lemma encode_headers_codes:
  assumes "flat out" "encode_headers out hs = Some (True, out')"
  shows "take (b_data out') (b_area out') = take (b_data out) (b_area out) @ concat (map (\<lambda>h. header_code (fst h) (snd h)) hs)
    \<and> (\<forall>h \<in> set hs. codable (fst h) \<and> codable (snd h))"
  using assms
proof (induction hs arbitrary: out)
  case (Cons h hs)
  obtain n v where h: "h = (n, v)" by (cases h)
  from encode_header_appends [OF Cons.prems(1), of n v] Cons.prems(2) obtain out1 where
    o: "hpack_encode_header out n v = Some (True, out1)" "flat out1" "codable n" "codable v" "encode_headers out1 hs = Some (True, out')"
    "take (b_data out1) (b_area out1) = take (b_data out) (b_area out) @ header_code n v"
    by (auto simp: appends_def h split: if_splits)
  from Cons.IH [OF o(2,5)] o(3,4,6) h show ?case by simp
qed simp

text \<open>C37: What is encoded into an empty buffer is what is decoded: the decoder of a frame returns every header of the
  message in order, whatever the static table has of them, and nothing else; it uses no room of the temporary
  buffer, and its table then holds what the protocol asks for, the newest of the headers the encoder asked to be
  indexed that fit the table. The allocations with which the table is realigned succeed.\<close>

theorem headers_roundtrip:
  assumes "flat out" "b_data out = 0" "encode_headers out hs = Some (True, out')" "length hs < lsize"
    and "holds d C" "\<forall>k i. malloc k i \<noteq> None"
  shows "\<exists>d'. hpack_decode_frame wide malloc d (take (b_data out') (b_area out')) lsize tsize = Inr (int (length hs) + 1, d', map plain hs, 0)
    \<and> holds d' (foldl (\<lambda>C h. keep (dht_size d) (h # C)) C (filter to_index hs))"
proof -
  from encode_headers_codes [OF assms(1,3)] assms(2) have
    e: "take (b_data out') (b_area out') = concat (map (\<lambda>h. header_code (fst h) (snd h)) hs)" "\<forall>h \<in> set hs. codable (fst h) \<and> codable (snd h)"
    by simp_all
  from decode_codes [OF assms(5,6) e(2), of "[]" lsize wide tsize 0] assms(4) show ?thesis
    by (auto simp: hpack_decode_frame_def e(1))
qed

lemma alloc_holds:
  "hpack_dht_alloc (Some f) sz = Some d \<Longrightarrow> sz < 2 ^ 16 \<Longrightarrow> holds d []"
  unfolding holds_def by (intro exI [of _ "[]"]) (auto simp: hpack_dht_alloc_def hpack_dht_init_def dht_ok_def contents_def)

definition example_headers :: "(byte list \<times> byte list) list" where
  "example_headers = [(ascii ''host'', ascii ''a.b''), (ascii ''x-y'', []), (ascii ''via'', ascii ''c'')]"

theorem headers_roundtrip_witness:
  "\<exists>d'. hpack_decode_frame masked_shift (\<lambda>k i. Some (\<lambda>j. 0)) (the (hpack_dht_alloc (Some (\<lambda>j. 0)) 80))
      (ascii ''f'' @ [3] @ ascii ''a.b'' @ [0, 3] @ ascii ''x-y'' @ [0, 0x7c, 1] @ ascii ''c'') 4 16
    = Inr (4, d', [(Name (ascii ''host''), ascii ''a.b''), (Name (ascii ''x-y''), []), (Name (ascii ''via''), ascii ''c'')], 0)
    \<and> holds d' [(ascii ''via'', ascii ''c''), (ascii ''host'', ascii ''a.b'')]"
proof -
  let ?out = "\<lparr>b_size = 18, b_area = replicate 18 0, b_data = 0, b_head = 0\<rparr> :: ring"
  let ?d = "the (hpack_dht_alloc (Some (\<lambda>j. 0)) 80)"
  let ?bytes = "ascii ''f'' @ [3] @ ascii ''a.b'' @ [0, 3] @ ascii ''x-y'' @ [0, 0x7c, 1] @ ascii ''c''"
  have f: "flat ?out" by (simp add: flat_def)
  have "map_option (\<lambda>(ok, out). (ok, take (b_data out) (b_area out))) (encode_headers ?out example_headers) = Some (True, ?bytes)" by code_simp
  then obtain out' where o: "encode_headers ?out example_headers = Some (True, out')" "take (b_data out') (b_area out') = ?bytes" by auto
  have h: "holds ?d []" by (rule alloc_holds [of "\<lambda>j. 0" 80]) (simp_all add: hpack_dht_alloc_def)
  have k: "foldl (\<lambda>C h. keep (dht_size ?d) (h # C)) [] (filter to_index example_headers) = [(ascii ''via'', ascii ''c''), (ascii ''host'', ascii ''a.b'')]"
    by code_simp
  have p: "map plain example_headers = [(Name (ascii ''host''), ascii ''a.b''), (Name (ascii ''x-y''), []), (Name (ascii ''via''), ascii ''c'')]"
    by (simp add: example_headers_def plain_def)
  from headers_roundtrip [OF f _ o(1) _ h, of 4 "\<lambda>k i. Some (\<lambda>j. 0)" masked_shift 16] show ?thesis
    unfolding o(2) k p by (simp add: example_headers_def)
qed

section \<open>Memory safety of the decoder\<close>

definition defined :: "fault + 'a \<Rightarrow> bool" where
  "defined r \<longleftrightarrow> r \<noteq> Inl Undef"

lemma defined_simps [simp]: "defined (Inr a)" "defined (Inl (Err e))" "\<not> defined (Inl Undef)"
  by (simp_all add: defined_def)

lemma bind_defined: "defined r \<Longrightarrow> (\<And>a. r = Inr a \<Longrightarrow> defined (f a)) \<Longrightarrow> defined (result_bind r f)"
  by (cases r) (simp_all add: defined_def)

lemma var_loop_defined: "defined (var_loop wide ret shift raw)"
  by (induction raw arbitrary: ret shift) (auto simp: var_loop.simps(2) Let_def)

lemma get_var_int_defined: "raw \<noteq> [] \<Longrightarrow> defined (get_var_int wide raw b)"
  by (auto simp: get_var_int_def Let_def var_loop_defined split: list.splits)

lemma huff_loop_room: "length out \<le> olen \<Longrightarrow> huff_loop huff olen bleft cur nxt p shift code out = (b, w, out') \<Longrightarrow> length out' \<le> olen"
proof (induction huff olen bleft cur nxt p shift code out rule: huff_loop.induct)
  case (1 huff olen bleft cur nxt p shift code out)
  obtain cur' nxt' p' shift' where r: "huff_refill huff cur nxt p shift = (cur', nxt', p', shift')" using prod_cases4 by blast
  show ?case
  proof (cases "bleft > 0 \<and> length out \<noteq> olen")
    case True
    show ?thesis
    proof (cases "huff_symbol (huff_code cur' nxt' shift')")
      case None
      then show ?thesis using 1(2,3) True r by (subst (asm) huff_loop.simps) auto
    next
      case (Some lc)
      obtain l c where lc: "lc = (l, c)" by (cases lc)
      show ?thesis
      proof (cases "l = 0 \<or> bleft < l")
        case stop: True
        then show ?thesis using 1(2,3) True r Some lc by (subst (asm) huff_loop.simps) auto
      next
        case False
        have "huff_loop huff olen (bleft - l) cur' nxt' p' (shift' + l) (huff_code cur' nxt' shift') (out @ [c]) = (b, w, out')"
          using 1(3) True r Some lc False by (subst (asm) huff_loop.simps) auto
        with 1(1) [OF True refl r [symmetric] refl refl refl Some lc [symmetric] False] True 1(2) show ?thesis by simp
      qed
    qed
  qed (use 1(2,3) in \<open>auto simp: huff_loop.simps [of huff olen]\<close>)
qed

lemma huff_dec_room: "huff_dec huff olen = Some t \<Longrightarrow> length t \<le> olen"
  by (auto simp: huff_dec_def Let_def split: prod.splits if_splits dest!: huff_loop_room [rotated])

lemma read_string_bounds:
  assumes "read_string wide tsize used raw = Inr (s, used', raw')" "used \<le> tsize"
  shows "used' \<le> tsize \<and> length s \<le> length raw + tsize"
  using assms
  by (auto simp: read_string_def Let_def result_bind_Inr_iff chunk_newstr_def split: list.splits if_splits option.splits
      dest!: huff_dec_room get_var_int_shorter)

lemma read_string_defined: "defined (read_string wide tsize used raw)"
  using get_var_int_defined [of raw wide 7]
  by (auto simp: read_string_def Let_def intro!: bind_defined split: list.splits option.splits)

lemma alloc_string_bounds:
  "hpack_alloc_string tsize used idx s = Inr (Some t, used') \<Longrightarrow> used \<le> tsize \<Longrightarrow>
   used' \<le> tsize \<and> (if idx < HPACK_SHT_SIZE then s = Some t else s = Some t \<and> length t \<le> tsize)"
  by (auto simp: hpack_alloc_string_def chunk_newstr_def split: if_splits option.splits)

lemma sht_short: "list_all (\<lambda>h. length (fst h) < 64 \<and> length (snd h) < 64) hpack_sht" by code_simp

lemma sht_length: "length hpack_sht = 62" by code_simp

lemma static_short: "idx < 62 \<Longrightarrow> length (fst (hpack_sht ! idx)) < 64 \<and> length (snd (hpack_sht ! idx)) < 64"
  using sht_short nth_mem [of idx hpack_sht] by (auto simp: list_all_iff sht_length)

text \<open>A lookup in a table that holds \<open>C\<close>.\<close>

lemma holds_used: "holds d C \<Longrightarrow> dht_used d = length C \<and> length C < 2 ^ 16 - 1"
  unfolding holds_def by (auto simp: dht_ok_def contents_def)

lemma idx_lookup:
  assumes "holds d C" "hpack_valid_idx d idx" "62 \<le> idx"
  shows "hpack_idx_to_name d idx = Inr (Some (fst (C ! (idx - 62)))) \<and> hpack_idx_to_value d idx = Inr (Some (snd (C ! (idx - 62))))
    \<and> idx - 62 < length C"
proof -
  from assms(1) obtain old new where o: "dht_ok d old new" "contents old new = C" by (auto simp: holds_def)
  have u: "dht_used d = length C" "length C < 2 ^ 16 - 1" using holds_used [OF assms(1)] by simp_all
  have i: "1 \<le> idx - 61" "idx - 61 \<le> dht_used d" using assms(2,3) by (simp_all add: hpack_valid_idx_def HPACK_SHT_SIZE_def)
  have "as_u16 (int idx - 62 + 1) = idx - 61" using i u assms(3) by (simp add: as_u16_def of_nat_diff)
  with lookup_ok [OF o(1) i] assms(3) i u show ?thesis
    by (auto simp: hpack_idx_to_name_def hpack_idx_to_value_def HPACK_SHT_SIZE_def undef_of_none_def o(2) Suc_diff_le)
qed

lemma idx_cases:
  assumes "holds d C" "hpack_valid_idx d idx"
  obtains n v where "hpack_idx_to_name d idx = Inr n" "hpack_idx_to_value d idx = Inr v"
    "62 \<le> idx \<longrightarrow> n \<noteq> None \<and> v \<noteq> None" "idx < 62 \<longrightarrow> (\<forall>s. n = Some s \<or> v = Some s \<longrightarrow> length s < 64)"
proof (cases "62 \<le> idx")
  case True
  with idx_lookup [OF assms] that show ?thesis by auto
next
  case False
  then show ?thesis using static_short [of idx]
    by (intro that [of "if idx = 0 then None else Some (fst (hpack_sht ! idx))" "if idx = 0 then None else Some (snd (hpack_sht ! idx))"])
      (auto simp: hpack_idx_to_name_def hpack_idx_to_value_def HPACK_SHT_SIZE_def)
qed

lemma alloc_string_defined: "(62 \<le> idx \<longrightarrow> s \<noteq> None) \<Longrightarrow> defined (hpack_alloc_string tsize used idx s)"
  by (auto simp: hpack_alloc_string_def HPACK_SHT_SIZE_def split: option.splits)

lemma string_or_error_Inr: "string_or_error r = Inr (s, used) \<longleftrightarrow> r = (Some s, used)"
  by (cases r) (auto simp: string_or_error_def split: option.splits)

lemma string_or_error_defined: "defined (string_or_error r)"
  by (cases r) (auto simp: string_or_error_def split: option.splits)

lemma copied_defined:
  assumes "62 \<le> idx \<longrightarrow> s \<noteq> None" "\<And>a. defined (f a)"
  shows "defined (result_bind (hpack_alloc_string tsize used idx s) (\<lambda>r. result_bind (string_or_error r) f))"
  using assms by (intro bind_defined alloc_string_defined string_or_error_defined) simp_all

lemma name_defined:
  assumes "holds d C" "hpack_valid_idx d idx" "\<And>a. defined (f a)"
  shows "defined (result_bind (hpack_idx_to_name d idx) (\<lambda>n. result_bind (hpack_alloc_string tsize used idx n) (\<lambda>r. result_bind (string_or_error r) f)))"
proof -
  obtain n where "hpack_idx_to_name d idx = Inr n" "62 \<le> idx \<longrightarrow> n \<noteq> None" using idx_cases [OF assms(1,2)] by blast
  then show ?thesis using copied_defined [OF _ assms(3)] by simp
qed

lemma value_defined:
  assumes "holds d C" "hpack_valid_idx d idx" "\<And>a. defined (f a)"
  shows "defined (result_bind (hpack_idx_to_value d idx) (\<lambda>v. result_bind (hpack_alloc_string tsize used idx v) (\<lambda>r. result_bind (string_or_error r) f)))"
proof -
  obtain v where "hpack_idx_to_value d idx = Inr v" "62 \<le> idx \<longrightarrow> v \<noteq> None" using idx_cases [OF assms(1,2)] by blast
  then show ?thesis using copied_defined [OF _ assms(3)] by simp
qed

lemma decode_field_defined:
  assumes "holds d C" "raw \<noteq> []"
  shows "defined (decode_field wide tsize d used ret raw)"
proof -
  have g: "defined (get_var_int wide raw b)" for b by (rule get_var_int_defined [OF assms(2)])
  note name = name_defined [OF assms(1)] and val = value_defined [OF assms(1)]
  have "defined (indexed_field wide tsize d used raw)"
    unfolding indexed_field_def by (rule bind_defined [OF g]) (auto intro!: val name)
  moreover have "defined (size_update wide d ret raw)"
    unfolding size_update_def by (auto intro!: bind_defined [OF g])
  moreover have "defined (literal_field wide tsize used raw)"
    unfolding literal_field_def by (auto intro!: bind_defined read_string_defined)
  moreover have "defined (indexed_name_field wide tsize d used m raw)" for m
    unfolding indexed_name_field_def
    by (rule bind_defined [OF g]) (auto intro!: bind_defined [OF read_string_defined] name)
  ultimately show ?thesis unfolding decode_field_def Let_def by (auto intro!: bind_defined)
qed

text \<open>What a field leaves used of the temporary buffer, and how long its strings can be.\<close>

definition field_bound :: "nat \<Rightarrow> (field \<times> bool) option \<Rightarrow> bool" where
  "field_bound B f \<longleftrightarrow> (\<forall>n v m. f = Some ((Name n, v), m) \<longrightarrow> length n \<le> B \<and> length v \<le> B)"

lemma copied_bounds:
  assumes "hpack_alloc_string tsize used idx s = Inr (Some t, used')" "used \<le> tsize" "idx < 62 \<longrightarrow> (\<forall>t. s = Some t \<longrightarrow> length t < 64)"
  shows "used' \<le> tsize \<and> length t \<le> tsize + 64"
  using alloc_string_bounds [OF assms(1,2)] assms(3) by (auto simp: HPACK_SHT_SIZE_def split: if_splits)

lemma decode_field_bounds:
  assumes "holds d C" "decode_field wide tsize d used ret raw = Inr (f, used', raw')" "used \<le> tsize"
  shows "used' \<le> tsize \<and> field_bound (length raw + tsize + 64) f"
proof -
  have idx: "(\<forall>n. hpack_idx_to_name d i = Inr n \<longrightarrow> i < 62 \<longrightarrow> (\<forall>t. n = Some t \<longrightarrow> length t < 64))
      \<and> (\<forall>v. hpack_idx_to_value d i = Inr v \<longrightarrow> i < 62 \<longrightarrow> (\<forall>t. v = Some t \<longrightarrow> length t < 64))" if "hpack_valid_idx d i" for i
    using idx_cases [OF assms(1) that] by (metis sum.inject(2))
  have 1: "used' \<le> tsize \<and> field_bound (length raw + tsize + 64) (Some (f, m))" if h: "indexed_field wide tsize d used raw = Inr (f, used', raw')" for f m
  proof -
    from h obtain i raw1 v t u1 where i: "hpack_valid_idx d (unat (i :: u32))" "hpack_idx_to_value d (unat i) = Inr v"
      "hpack_alloc_string tsize used (unat i) v = Inr (Some t, u1)"
      and r: "(if hpack_idx_to_phdr (unat i) \<noteq> 0 then Inr ((Phdr (hpack_idx_to_phdr (unat i)), t), u1, raw1)
       else
         result_bind (hpack_idx_to_name d (unat i)) (\<lambda>n.
         result_bind (hpack_alloc_string tsize u1 (unat i) n) (\<lambda>r.
         result_bind (string_or_error r) (\<lambda>(n, used). Inr ((Name n, t), used, raw1))))) = Inr (f, used', raw')"
      unfolding indexed_field_def by (auto simp: result_bind_Inr_iff string_or_error_Inr split: if_splits)
    from copied_bounds [OF i(3) assms(3)] idx [OF i(1)] i(2) have u1: "u1 \<le> tsize" "length t \<le> tsize + 64" by blast+
    show ?thesis
    proof (cases "hpack_idx_to_phdr (unat i) \<noteq> 0")
      case True
      with r u1 show ?thesis by (auto simp: field_bound_def)
    next
      case False
      with r obtain n t' where n: "hpack_idx_to_name d (unat i) = Inr n" "hpack_alloc_string tsize u1 (unat i) n = Inr (Some t', used')"
        "f = (Name t', t)" by (auto simp: result_bind_Inr_iff string_or_error_Inr)
      from copied_bounds [OF n(2) u1(1)] idx [OF i(1)] n(1) have "used' \<le> tsize" "length t' \<le> tsize + 64" by blast+
      with u1(2) n(3) show ?thesis by (simp add: field_bound_def)
    qed
  qed
  have 2: "used' \<le> tsize \<and> field_bound (length raw + tsize + 64) (Some (f, m))" if h: "literal_field wide tsize used raw = Inr (f, used', raw')" for f m
  proof -
    from h obtain n u1 raw1 v where n: "read_string wide tsize used (tl raw) = Inr (n, u1, raw1)" "read_string wide tsize u1 raw1 = Inr (v, used', raw')"
      "f = (Name n, v)" unfolding literal_field_def by (auto simp: result_bind_Inr_iff)
    from read_string_bounds [OF n(1) assms(3)] read_string_bounds [OF n(2)] read_string_shorter [OF n(1)] n(3) show ?thesis
      by (auto simp: field_bound_def)
  qed
  have 3: "used' \<le> tsize \<and> field_bound (length raw + tsize + 64) (Some (f, m))" if h: "indexed_name_field wide tsize d used k raw = Inr (f, used', raw')" for f m k
  proof -
    from h obtain i raw1 v u1 raw2 where i: "get_var_int wide raw (if k then 6 else 4) = Inr (i, raw1)" "hpack_valid_idx d (unat (i :: u32))"
        "read_string wide tsize used raw1 = Inr (v, u1, raw2)"
      and r: "(if \<not> k \<and> hpack_idx_to_phdr (unat i) \<noteq> 0 then Inr ((Phdr (hpack_idx_to_phdr (unat i)), v), u1, raw2)
       else
         result_bind (hpack_idx_to_name d (unat i)) (\<lambda>n.
         result_bind (hpack_alloc_string tsize u1 (unat i) n) (\<lambda>r.
         result_bind (string_or_error r) (\<lambda>(n, used). Inr ((Name n, v), used, raw2))))) = Inr (f, used', raw')"
      unfolding indexed_name_field_def by (auto simp: result_bind_Inr_iff split: if_splits)
    from read_string_bounds [OF i(3) assms(3)] get_var_int_shorter [OF i(1)] have u1: "u1 \<le> tsize" "length v \<le> length raw + tsize" by auto
    show ?thesis
    proof (cases "\<not> k \<and> hpack_idx_to_phdr (unat i) \<noteq> 0")
      case True
      with r u1 show ?thesis by (auto simp: field_bound_def)
    next
      case False
      with r obtain n t' where n: "hpack_idx_to_name d (unat i) = Inr n" "hpack_alloc_string tsize u1 (unat i) n = Inr (Some t', used')"
        "f = (Name t', v)" by (auto simp: result_bind_Inr_iff string_or_error_Inr)
      from copied_bounds [OF n(2) u1(1)] idx [OF i(2)] n(1) have "used' \<le> tsize" "length t' \<le> tsize + 64" by blast+
      with u1(2) n(3) show ?thesis by (simp add: field_bound_def)
    qed
  qed
  show ?thesis using assms(2,3) unfolding decode_field_def Let_def
    by (auto simp: result_bind_Inr_iff field_bound_def [of _ None] split: if_splits dest!: 1 2 3)
qed

text \<open>The rounds of the loop, as steps between its states: the table, what is used, the fields and what is left of the frame.\<close>

type_synonym decoding = "dht \<times> nat \<times> field list \<times> byte list"

inductive decode_steps ::
  "(nat \<Rightarrow> u32 \<Rightarrow> u32) \<Rightarrow> (nat \<Rightarrow> nat \<Rightarrow> (nat \<Rightarrow> byte) option) \<Rightarrow> nat \<Rightarrow> nat \<Rightarrow> decoding \<Rightarrow> decoding \<Rightarrow> bool" for wide malloc lsize tsize s where
  steps_start: "decode_steps wide malloc lsize tsize s s"
| steps_update: "decode_steps wide malloc lsize tsize s (d, used, fs, raw) \<Longrightarrow> raw \<noteq> [] \<Longrightarrow>
    decode_field wide tsize d used (length fs) raw = Inr (None, used', raw') \<Longrightarrow>
    decode_steps wide malloc lsize tsize s (d, used', fs, raw')"
| steps_field: "decode_steps wide malloc lsize tsize s (d, used, fs, raw) \<Longrightarrow> raw \<noteq> [] \<Longrightarrow>
    decode_field wide tsize d used (length fs) raw = Inr (Some (f, m), used', raw') \<Longrightarrow> length fs < lsize \<Longrightarrow>
    index_field (malloc (length fs)) d (f, m) = Inr d' \<Longrightarrow>
    decode_steps wide malloc lsize tsize s (d', used', fs @ [f], raw')"

lemma decode_loop_steps:
  assumes "decode_steps wide malloc lsize tsize s (d, used, fs, raw)"
  shows "(decode_loop wide malloc lsize tsize d used fs raw = Inr (d', fs', used') \<longrightarrow> decode_steps wide malloc lsize tsize s (d', used', fs', []) \<and> length fs' < lsize)
    \<and> (\<not> defined (decode_loop wide malloc lsize tsize d used fs raw) \<longrightarrow>
        (\<exists>d used fs raw. decode_steps wide malloc lsize tsize s (d, used, fs, raw) \<and> raw \<noteq> [] \<and>
          (\<not> defined (decode_field wide tsize d used (length fs) raw) \<or>
           (\<exists>f m used' raw'. decode_field wide tsize d used (length fs) raw = Inr (Some (f, m), used', raw') \<and> length fs < lsize
              \<and> \<not> defined (index_field (malloc (length fs)) d (f, m))))))"
  using assms
proof (induction wide malloc lsize tsize d used fs raw rule: decode_loop.induct)
  case (1 wide malloc lsize tsize d used fs raw)
  show ?case
  proof (cases "raw = []")
    case True
    then show ?thesis using 1(3) by (auto simp: decode_loop.simps)
  next
    case raw: False
    note unfolded = decode_loop.simps [of wide malloc lsize tsize d used fs raw]
    show ?thesis
    proof (cases "decode_field wide tsize d used (length fs) raw")
      case (Inl e)
      then show ?thesis using raw 1(3) unfolded by (cases "e = Undef") (auto simp: defined_def)
    next
      case (Inr r)
      obtain fo used1 raw1 where r: "r = (fo, used1, raw1)" by (cases r)
      show ?thesis
      proof (cases fo)
        case None
        have st: "decode_steps wide malloc lsize tsize s (d, used1, fs, raw1)"
          using steps_update [OF 1(3) raw] Inr r None by blast
        have "decode_loop wide malloc lsize tsize d used fs raw = decode_loop wide malloc lsize tsize d used1 fs raw1"
          using raw Inr r None unfolded by simp
        with 1(1) [OF raw Inr r [symmetric] None refl st] show ?thesis by simp
      next
        case (Some fm)
        obtain f m where fm: "fm = (f, m)" by (cases fm)
        show ?thesis
        proof (cases "length fs < lsize")
          case False
          then show ?thesis using raw Inr r Some fm unfolded by simp
        next
          case room: True
          show ?thesis
          proof (cases "index_field (malloc (length fs)) d (f, m)")
            case (Inl e)
            have df: "decode_field wide tsize d used (length fs) raw = Inr (Some (f, m), used1, raw1)"
              using \<open>decode_field wide tsize d used (length fs) raw = Inr r\<close> r Some fm by simp
            have "decode_loop wide malloc lsize tsize d used fs raw = Inl e" using raw df Inl room unfolded by simp
            note loop = this
            show ?thesis
            proof (intro conjI impI)
              assume "\<not> defined (decode_loop wide malloc lsize tsize d used fs raw)"
              then have "\<not> defined (index_field (malloc (length fs)) d (f, m))" using loop Inl by (simp add: defined_def)
              with 1(3) raw df room show "\<exists>d used fs raw. decode_steps wide malloc lsize tsize s (d, used, fs, raw) \<and> raw \<noteq> [] \<and>
                (\<not> defined (decode_field wide tsize d used (length fs) raw) \<or>
                 (\<exists>f m used' raw'. decode_field wide tsize d used (length fs) raw = Inr (Some (f, m), used', raw') \<and> length fs < lsize
                    \<and> \<not> defined (index_field (malloc (length fs)) d (f, m))))" by blast
            qed (simp_all add: loop)
          next
            case d1: (Inr d1)
            have st: "decode_steps wide malloc lsize tsize s (d1, used1, fs @ [f], raw1)"
              using steps_field [OF 1(3) raw _ room d1] Inr r Some fm by blast
            have "decode_loop wide malloc lsize tsize d used fs raw = decode_loop wide malloc lsize tsize d1 used1 (fs @ [f]) raw1"
              using raw Inr r Some fm room d1 unfolded by simp
            moreover note 1(2) [OF raw Inr r [symmetric] Some fm [symmetric] refl _ d1 st]
            ultimately show ?thesis using room by simp
          qed
        qed
      qed
    qed
  qed
qed

lemma keep_subset: "set (keep k C) \<subseteq> set C"
  by (induction k C rule: keep.induct) auto

text \<open>What every round keeps, as long as no empty header has been decoded.\<close>

lemma index_field_keeps:
  assumes "holds d C" "index_field malloc d (f, m) = Inr d'" "f \<noteq> (Name [], [])" "field_bound B (Some (f, m))" "B < 2 ^ 28"
  shows "\<exists>C'. holds d' C' \<and> dht_size d' = dht_size d \<and> (\<forall>h \<in> set C'. h \<in> set C \<or> plain h = f)"
proof (cases "\<exists>n v. f = (Name n, v) \<and> m")
  case True
  then obtain n v where f: "f = (Name n, v)" "m" by blast
  from assms(1) obtain old new where o: "dht_ok d old new" "contents old new = C" by (auto simp: holds_def)
  have len: "0 < length n + length v" "length n + length v < 2 ^ 31" using assms(3-5) f by (auto simp: field_bound_def)
  obtain r d1 where ins: "hpack_dht_insert malloc d n v = Some (r, d1)" "0 \<le> r" "d' = d1"
    using assms(2) f by (auto simp: index_field_def undef_of_none_def result_bind_Inr_iff split: option.splits if_splits)
  from insert_ok [OF o(1) len, of malloc] ins obtain old' new' where
    "dht_ok d' old' new'" "dht_size d' = dht_size d" "contents old' new' = keep (dht_size d) ((n, v) # C)" using o(2) by auto
  then have "holds d' (keep (dht_size d) ((n, v) # C))" "dht_size d' = dht_size d" unfolding holds_def by blast+
  moreover have "\<forall>h \<in> set (keep (dht_size d) ((n, v) # C)). h \<in> set C \<or> plain h = f"
    using keep_subset [of "dht_size d" "(n, v) # C"] f(1) by (auto simp: plain_def simp del: keep.simps)
  ultimately show ?thesis by blast
next
  case False
  then have "d' = d" using assms(2) by (cases f; cases "fst f"; cases m) (auto simp: index_field_def)
  then show ?thesis using assms(1) by blast
qed

lemma index_field_defined:
  assumes "holds d C" "f \<noteq> (Name [], [])" "field_bound B (Some (f, m))" "B < 2 ^ 28" "\<forall>i. malloc i \<noteq> None"
  shows "defined (index_field malloc d (f, m))"
proof (cases "\<exists>n v. f = (Name n, v) \<and> m")
  case True
  then obtain n v where f: "f = (Name n, v)" "m" by blast
  have "0 < length n + length v" "length n + length v < 2 ^ 31" using assms(2-4) f by (auto simp: field_bound_def)
  from insert_holds [OF assms(1) this assms(5)] f show ?thesis by (auto simp: index_field_def undef_of_none_def)
next
  case False
  then show ?thesis by (cases f; cases "fst f"; cases m) (auto simp: index_field_def)
qed

lemma string_used:
  "hpack_alloc_string tsize used idx s = Inr (Some t, used') \<Longrightarrow> used \<le> tsize \<Longrightarrow> used' \<le> tsize"
  "read_string wide tsize used raw = Inr (t, used', raw') \<Longrightarrow> used \<le> tsize \<Longrightarrow> used' \<le> tsize"
  using alloc_string_bounds read_string_bounds by blast+

lemma field_used:
  "indexed_field wide tsize d used raw = Inr (f, used', raw') \<Longrightarrow> used \<le> tsize \<Longrightarrow> used' \<le> tsize"
  "literal_field wide tsize used raw = Inr (f, used', raw') \<Longrightarrow> used \<le> tsize \<Longrightarrow> used' \<le> tsize"
  "indexed_name_field wide tsize d used m raw = Inr (f, used', raw') \<Longrightarrow> used \<le> tsize \<Longrightarrow> used' \<le> tsize"
  unfolding indexed_field_def literal_field_def indexed_name_field_def
  by (auto simp: result_bind_Inr_iff string_or_error_Inr split: if_splits dest: string_used)

lemma decode_field_used:
  assumes "decode_field wide tsize d used ret raw = Inr (f, used', raw')" "used \<le> tsize"
  shows "used' \<le> tsize"
  using assms unfolding decode_field_def Let_def by (auto simp: result_bind_Inr_iff split: if_splits dest: field_used)

lemma steps_keep:
  assumes "decode_steps wide malloc lsize tsize (d, 0, [], raw) (d', used, fs, raw')" "holds d C" "length raw + tsize + 64 < 2 ^ 28"
  shows "used \<le> tsize \<and> length raw' \<le> length raw \<and> length fs \<le> lsize \<and> ((Name [], []) \<notin> set fs \<longrightarrow>
    (\<exists>C'. holds d' C' \<and> dht_size d' = dht_size d \<and> (\<forall>h \<in> set C'. h \<in> set C \<or> plain h \<in> set fs)))"
  using assms
proof (induction "(d', used, fs, raw')" arbitrary: d' used fs raw' rule: decode_steps.induct)
  case steps_start
  then show ?case by auto
next
  case (steps_update d1 used1 fs raw1 used2 raw2)
  then have IH: "used1 \<le> tsize" "length raw1 \<le> length raw" "length fs \<le> lsize" "(Name [], []) \<notin> set fs \<longrightarrow>
    (\<exists>C'. holds d1 C' \<and> dht_size d1 = dht_size d \<and> (\<forall>h \<in> set C'. h \<in> set C \<or> plain h \<in> set fs))" by blast+
  with decode_field_used [OF steps_update(4)] decode_field_shorter [OF steps_update(3,4)] show ?case by simp
next
  case (steps_field d1 used1 fs raw1 f m used2 raw2 d2)
  then have IH: "used1 \<le> tsize" "length raw1 \<le> length raw" "length fs \<le> lsize" "(Name [], []) \<notin> set fs \<longrightarrow>
    (\<exists>C'. holds d1 C' \<and> dht_size d1 = dht_size d \<and> (\<forall>h \<in> set C'. h \<in> set C \<or> plain h \<in> set fs))" by blast+
  have "\<exists>C'. holds d2 C' \<and> dht_size d2 = dht_size d \<and> (\<forall>h \<in> set C'. h \<in> set C \<or> plain h \<in> set (fs @ [f]))"
    if ne: "(Name [], []) \<notin> set (fs @ [f])"
  proof -
    from IH(4) ne obtain C1 where C1: "holds d1 C1" "dht_size d1 = dht_size d" "\<forall>h \<in> set C1. h \<in> set C \<or> plain h \<in> set fs" by auto
    have fb: "field_bound (length raw1 + tsize + 64) (Some (f, m))" using decode_field_bounds [OF C1(1) steps_field(4) IH(1)] by simp
    have "length raw1 + tsize + 64 < 2 ^ 28" using IH(2) steps_field.prems(2) by simp
    from index_field_keeps [OF C1(1) steps_field(6) _ fb this] ne obtain C2 where
      "holds d2 C2" "dht_size d2 = dht_size d1" "\<forall>h \<in> set C2. h \<in> set C1 \<or> plain h = f" by auto
    with C1(2,3) show ?thesis by (intro exI [of _ C2]) auto
  qed
  then show ?case using IH(1,2) steps_field(5) decode_field_used [OF steps_field(4)] decode_field_shorter [OF steps_field(3,4)] by simp
qed



text \<open>
  With an empty header the table is not safe: a frame of six headers that are to be indexed, the fifth of them
  empty, and the index of the fourth.
\<close>

definition empty_header_frame :: "byte list" where
  "empty_header_frame = concat (map (\<lambda>(n, v). 0x40 # len_bytes (length n) @ n @ len_bytes (length v) @ v) six_headers) @ [0xc0]"

text \<open>A frame with an empty header makes the decoder return a header that nobody sent: on a table of 153 bytes, six
  literal headers and the index of one of them give back a name of which the last three bytes are those of another
  header.\<close>

lemma empty_header_frame_corrupts:
  "map_sum (\<lambda>e. e) (\<lambda>(r, d, hs, used). (r, hs))
      (hpack_decode_frame masked_shift (\<lambda>k i. Some (\<lambda>j. 0)) (the (hpack_dht_alloc (Some (\<lambda>j. 0)) 153)) empty_header_frame 20 64)
     = Inr (8, map plain six_headers @ [(Name (replicate 16 4 @ [6, 6, 6]), [])])
   \<and> six_headers ! 3 = (replicate 19 4, [])"
  by code_simp

section \<open>The status line\<close>

text \<open>The status line: the codes of the seven statuses of the static table, and the literal of every other one.\<close>

lemma static_statuses:
  "list_all (\<lambda>s. let c = status_code s; i = unat c - 128 in c \<ge> 0x80 \<and> c \<noteq> 0x80 \<and> i < 62 \<and> i \<noteq> 0 \<and> hpack_idx_to_phdr i = 5
      \<and> ucast c AND mask 7 = (word_of_nat i :: u32) \<and> (word_of_nat i :: u32) \<noteq> mask 7 \<and> snd (hpack_sht ! i) = digits3 s)
    [200, 204, 206, 304, 400, 404, 500]"
  by code_simp

lemma decode_static_status:
  assumes "status_code s \<noteq> 0"
  shows "decode_field wide tsize d used ret (status_code s # rest) = Inr (Some ((Phdr 5, digits3 s), False), used, rest)"
proof -
  define c where "c = status_code s"
  define i where "i = unat c - 128"
  have "s \<in> set [200, 204, 206, 304, 400, 404, 500]" using assms by (auto simp: status_code_def split: if_splits)
  with static_statuses have *: "c \<ge> 0x80" "c \<noteq> 0x80" "i < 62" "i \<noteq> 0" "hpack_idx_to_phdr i = 5"
      "ucast c AND mask 7 = (word_of_nat i :: u32)" "(word_of_nat i :: u32) \<noteq> mask 7" "snd (hpack_sht ! i) = digits3 s"
    unfolding list_all_iff Let_def c_def i_def by blast+
  have u: "unat (word_of_nat i :: u32) = i" unfolding unsigned_of_nat using *(3) by (simp add: take_bit_nat_eq_self)
  have "get_var_int wide (c # rest) 7 = Inr (word_of_nat i, rest)" unfolding get_var_int_def Let_def using *(6,7) by simp
  then have "indexed_field wide tsize d used (c # rest) = Inr ((Phdr 5, digits3 s), used, rest)"
    using *(3-5,8) u by (simp add: indexed_field_def hpack_valid_idx_def HPACK_SHT_SIZE_def hpack_idx_to_value_def hpack_alloc_string_def string_or_error_def)
  then show ?thesis using *(1,2) unfolding c_def [symmetric] by (simp add: decode_field_def)
qed

lemma decode_status:
  "\<exists>n m. decode_field wide tsize d used ret (status_bytes s @ rest) = Inr (Some ((n, digits3 s), m), used, rest)
     \<and> (n = Phdr 5 \<and> \<not> m \<or> n = Name (ascii '':status'') \<and> m)"
proof (cases "status_code s = 0")
  case True
  have "fst (hpack_sht ! unat (8 :: byte)) = ascii '':status''" by (simp add: hpack_sht_def)
  moreover have "status_bytes s @ rest = (8 OR 0x40) # len_bytes (length (digits3 s)) @ digits3 s @ rest"
    using True by (simp add: status_bytes_def short_is_long digits3_def long_code_def)
  ultimately show ?thesis using decode_indexed_name [of 8 "digits3 s" wide tsize d used ret rest] by (auto simp: digits3_def)
next
  case False
  then show ?thesis using decode_static_status [OF False] by (auto simp: status_bytes_def)
qed

text \<open>The status line of a response decodes to the status that was encoded, as the pseudo-header number or by its name: the
  three digits are those of the number, for the seven statuses that have an index of their own as for all others.\<close>

lemma status_roundtrip:
  assumes "flat out" "b_data out = 0" "hpack_encode_int_status out status = Some (True, out')" "1 < lsize"
    and "holds d C" "\<forall>k i. malloc k i \<noteq> None"
  shows "\<exists>d' n. hpack_decode_frame wide malloc d (take (b_data out') (b_area out')) lsize tsize = Inr (2, d', [(n, digits3 status)], 0)
    \<and> (n = Phdr 5 \<or> n = Name (ascii '':status''))"
proof -
  have t: "take (b_data out') (b_area out') = status_bytes status @ []"
    using int_status_appends [OF assms(1), of status] assms(2,3) by (auto simp: appends_def)
  from decode_status [of wide tsize d 0 0 status "[]"] obtain n m where
    f: "decode_field wide tsize d 0 0 (status_bytes status @ []) = Inr (Some ((n, digits3 status), m), 0, [])"
    "n = Phdr 5 \<and> \<not> m \<or> n = Name (ascii '':status'') \<and> m" by blast
  have "\<exists>d'. index_field (malloc 0) d ((n, digits3 status), m) = Inr d'"
    using f(2) insert_holds [OF assms(5), of "ascii '':status''" "digits3 status" "malloc 0"] assms(6)
    by (auto simp: index_field_def undef_of_none_def ascii_def digits3_def)
  then obtain d' where d': "index_field (malloc 0) d ((n, digits3 status), m) = Inr d'" by blast
  have ne: "status_bytes status \<noteq> []" by (simp add: status_bytes_def short_code_def)
  have "decode_loop wide malloc lsize tsize d 0 [] (status_bytes status @ []) = Inr (d', [(n, digits3 status)], 0)"
    using ne assms(4) f(1) d' by (subst decode_loop.simps) (simp add: decode_loop.simps [of _ _ _ _ d'])
  then show ?thesis using f(2) unfolding t by (auto simp: hpack_decode_frame_def)
qed

lemma status_roundtrip_witness:
  "\<exists>d' n. hpack_decode_frame masked_shift (\<lambda>k i. Some (\<lambda>j. 0)) (the (hpack_dht_alloc (Some (\<lambda>j. 0)) 80)) [0x48, 3, 50, 48, 49] 3 16 = Inr (2, d', [(n, [50, 48, 49])], 0)
    \<and> (n = Phdr 5 \<or> n = Name (ascii '':status''))"
proof -
  let ?out = "\<lparr>b_size = 6, b_area = replicate 6 0, b_data = 0, b_head = 0\<rparr> :: ring"
  let ?d = "the (hpack_dht_alloc (Some (\<lambda>j. 0)) 80)"
  have f: "flat ?out" by (simp add: flat_def)
  have h: "holds ?d []" by (rule alloc_holds [of "\<lambda>j. 0" 80]) (simp_all add: hpack_dht_alloc_def)
  have "map_option (\<lambda>(ok, out). (ok, take (b_data out) (b_area out))) (hpack_encode_int_status ?out 201) = Some (True, [0x48, 3, 50, 48, 49])"
    by code_simp
  then obtain out' where o: "hpack_encode_int_status ?out 201 = Some (True, out')" "take (b_data out') (b_area out') = [0x48, 3, 50, 48, 49]" by auto
  have "digits3 201 = [50, 48, 49]" by code_simp
  with status_roundtrip [OF f _ o(1) _ h, of 3 "\<lambda>k i. Some (\<lambda>j. 0)" masked_shift 16] show ?thesis unfolding o(2) by simp
qed


end
