(* ===== verification/Event_Flags.thy ===== *)
theory Event_Flags
  imports Prelude
begin

unbundle bit_operations_syntax

text \<open>
  The bits of libevent's event masks (\<open>event2/event.h\<close>) and of the state of an event
  (\<open>event2/event_struct.h\<close>), as words of the width of a C \<open>short\<close>.
\<close>

definition EV_TIMEOUT :: u16 where "EV_TIMEOUT = 0x01"
definition EV_READ :: u16 where "EV_READ = 0x02"
definition EV_WRITE :: u16 where "EV_WRITE = 0x04"
definition EV_SIGNAL :: u16 where "EV_SIGNAL = 0x08"
definition EV_PERSIST :: u16 where "EV_PERSIST = 0x10"
definition EV_ET :: u16 where "EV_ET = 0x20"
definition EV_FINALIZE :: u16 where "EV_FINALIZE = 0x40"
definition EV_CLOSED :: u16 where "EV_CLOSED = 0x80"

definition EVLIST_TIMEOUT :: u16 where "EVLIST_TIMEOUT = 0x01"
definition EVLIST_INSERTED :: u16 where "EVLIST_INSERTED = 0x02"
definition EVLIST_SIGNAL :: u16 where "EVLIST_SIGNAL = 0x04"
definition EVLIST_ACTIVE :: u16 where "EVLIST_ACTIVE = 0x08"
definition EVLIST_INTERNAL :: u16 where "EVLIST_INTERNAL = 0x10"
definition EVLIST_ACTIVE_LATER :: u16 where "EVLIST_ACTIVE_LATER = 0x20"
definition EVLIST_FINALIZING :: u16 where "EVLIST_FINALIZING = 0x40"
definition EVLIST_INIT :: u16 where "EVLIST_INIT = 0x80"
definition EVLIST_ALL :: u16 where "EVLIST_ALL = 0xff"

text \<open>A test of one bit, as the code writes it, is a test of that bit.\<close>

lemma and_power_eq_0 [simp]:
  "x AND 0x01 = (0 :: u16) \<longleftrightarrow> \<not> bit x 0" "x AND 0x02 = (0 :: u16) \<longleftrightarrow> \<not> bit x 1"
  "x AND 0x04 = (0 :: u16) \<longleftrightarrow> \<not> bit x 2" "x AND 0x08 = (0 :: u16) \<longleftrightarrow> \<not> bit x 3"
  "x AND 0x10 = (0 :: u16) \<longleftrightarrow> \<not> bit x 4" "x AND 0x20 = (0 :: u16) \<longleftrightarrow> \<not> bit x 5"
  "x AND 0x40 = (0 :: u16) \<longleftrightarrow> \<not> bit x 6" "x AND 0x80 = (0 :: u16) \<longleftrightarrow> \<not> bit x 7"
  using and_exp_eq_0_iff_not_bit [of x 0] and_exp_eq_0_iff_not_bit [of x 1] and_exp_eq_0_iff_not_bit [of x 2]
    and_exp_eq_0_iff_not_bit [of x 3] and_exp_eq_0_iff_not_bit [of x 4] and_exp_eq_0_iff_not_bit [of x 5]
    and_exp_eq_0_iff_not_bit [of x 6] and_exp_eq_0_iff_not_bit [of x 7] by simp_all

lemma and_or_eq_0: "x AND (y OR z) = (0 :: u16) \<longleftrightarrow> x AND y = 0 \<and> x AND z = 0"
  by (simp add: bit.conj_disj_distrib or_eq_0_iff)

end
