(* ===== verification/Min_Heap.thy ===== *)
theory Min_Heap
  imports Prelude "HOL-Library.Multiset"
begin

text \<open>
  libevent's timer queue (\<open>minheap-internal.h\<close>): a binary heap of event pointers in an array,
  ordered by timeout, in which every event knows its own index. The heap is written with holes: an
  element is moved into the hole and the hole moves on, and the event that is being placed is stored
  once, at the end. Events are addresses; their index and timeout fields are maps in the state.
  Indices are natural numbers: the array would need 4 GB before \<open>2 * (hole_index + 1)\<close> could wrap.
\<close>

datatype timeval = Timeval (tv_sec: int) (tv_usec: int)

text \<open>\<open>evutil_timercmp\<close>: seconds first, then microseconds; a linear order.\<close>

definition evutil_timercmp :: "(int \<Rightarrow> int \<Rightarrow> bool) \<Rightarrow> timeval \<Rightarrow> timeval \<Rightarrow> bool" where
  "evutil_timercmp cmp a b = (if tv_sec a = tv_sec b then cmp (tv_usec a) (tv_usec b) else cmp (tv_sec a) (tv_sec b))"

instantiation timeval :: linorder
begin

definition less_timeval :: "timeval \<Rightarrow> timeval \<Rightarrow> bool" where
  "less_timeval a b \<longleftrightarrow> (if tv_sec a = tv_sec b then tv_usec a < tv_usec b else tv_sec a < tv_sec b)"

definition less_eq_timeval :: "timeval \<Rightarrow> timeval \<Rightarrow> bool" where
  "less_eq_timeval a b \<longleftrightarrow> (if tv_sec a = tv_sec b then tv_usec a \<le> tv_usec b else tv_sec a \<le> tv_sec b)"

instance
  by standard (auto simp: less_timeval_def less_eq_timeval_def timeval.expand split: if_splits)

end

lemma timercmp_order: "evutil_timercmp (<) a b \<longleftrightarrow> a < b" "evutil_timercmp (\<le>) a b \<longleftrightarrow> a \<le> b"
  "evutil_timercmp (>) a b \<longleftrightarrow> a > b" "evutil_timercmp (\<ge>) a b \<longleftrightarrow> a \<ge> b"
  by (auto simp: evutil_timercmp_def less_timeval_def less_eq_timeval_def)

type_synonym event = nat

record timers =
  mh_p :: "event list"
  mh_n :: nat
  mh_a :: nat
  min_heap_idx :: "event \<Rightarrow> int"
  ev_timeout :: "event \<Rightarrow> timeval"

definition min_heap_elem_greater :: "timers \<Rightarrow> event \<Rightarrow> event \<Rightarrow> bool" where
  "min_heap_elem_greater s a b \<longleftrightarrow> ev_timeout s a > ev_timeout s b"

definition min_heap_ctor :: "timers \<Rightarrow> timers" where
  "min_heap_ctor s = s\<lparr>mh_p := [], mh_n := 0, mh_a := 0\<rparr>"

definition min_heap_elem_init :: "timers \<Rightarrow> event \<Rightarrow> timers" where
  "min_heap_elem_init s e = s\<lparr>min_heap_idx := (min_heap_idx s)(e := -1)\<rparr>"

definition min_heap_empty :: "timers \<Rightarrow> bool" where
  "min_heap_empty s \<longleftrightarrow> mh_n s = 0"

definition min_heap_size :: "timers \<Rightarrow> nat" where
  "min_heap_size s = mh_n s"

definition min_heap_top :: "timers \<Rightarrow> event option" where
  "min_heap_top s = (if mh_n s \<noteq> 0 then Some (mh_p s ! 0) else None)"

definition min_heap_elt_is_top :: "timers \<Rightarrow> event \<Rightarrow> bool" where
  "min_heap_elt_is_top s e \<longleftrightarrow> min_heap_idx s e = 0"

text \<open>\<open>mm_realloc\<close> may fail, or gives the array with arbitrary new entries.\<close>

definition min_heap_reserve :: "(nat \<Rightarrow> (nat \<Rightarrow> event) option) \<Rightarrow> timers \<Rightarrow> nat \<Rightarrow> int \<times> timers" where
  "min_heap_reserve mm_realloc s n =
     (if mh_a s < n then
        let a = (if mh_a s \<noteq> 0 then mh_a s * 2 else 8);
            a = (if a < n then n else a)
        in case mm_realloc a of
             None \<Rightarrow> (-1, s)
           | Some junk \<Rightarrow> (0, s\<lparr>mh_p := mh_p s @ map junk [mh_a s..<a], mh_a := a\<rparr>)
      else (0, s))"

text \<open>\<open>(s->p[i] = e)->ev_timeout_pos.min_heap_idx = i\<close>\<close>

definition set_slot :: "timers \<Rightarrow> nat \<Rightarrow> event \<Rightarrow> timers" where
  "set_slot s i e = s\<lparr>mh_p := (mh_p s)[i := e], min_heap_idx := (min_heap_idx s)(e := int i)\<rparr>"

definition parent_of :: "nat \<Rightarrow> nat" where
  "parent_of i = (i - 1) div 2"

function min_heap_shift_up :: "timers \<Rightarrow> nat \<Rightarrow> event \<Rightarrow> timers" where
  "min_heap_shift_up s hole e =
     (if hole \<noteq> 0 \<and> min_heap_elem_greater s (mh_p s ! parent_of hole) e
      then min_heap_shift_up (set_slot s hole (mh_p s ! parent_of hole)) (parent_of hole) e
      else set_slot s hole e)"
  by auto
termination
  by (relation "measure (\<lambda>(s, hole, e). hole)") (auto simp: parent_of_def)

definition min_heap_shift_up_unconditional :: "timers \<Rightarrow> nat \<Rightarrow> event \<Rightarrow> timers" where
  "min_heap_shift_up_unconditional s hole e =
     min_heap_shift_up (set_slot s hole (mh_p s ! parent_of hole)) (parent_of hole) e"

definition min_child :: "timers \<Rightarrow> nat \<Rightarrow> nat" where
  "min_child s hole =
     (let c = 2 * (hole + 1)
      in if c = mh_n s \<or> min_heap_elem_greater s (mh_p s ! c) (mh_p s ! (c - 1)) then c - 1 else c)"

function min_heap_shift_down :: "timers \<Rightarrow> nat \<Rightarrow> event \<Rightarrow> timers" where
  "min_heap_shift_down s hole e =
     (if 2 * (hole + 1) \<le> mh_n s \<and> min_heap_elem_greater s e (mh_p s ! min_child s hole)
      then min_heap_shift_down (set_slot s hole (mh_p s ! min_child s hole)) (min_child s hole) e
      else set_slot s hole e)"
  by auto
termination
  by (relation "measure (\<lambda>(s, hole, e). mh_n s - hole)") (auto simp: min_child_def set_slot_def Let_def)

declare min_heap_shift_up.simps [simp del] min_heap_shift_down.simps [simp del]

definition min_heap_push :: "(nat \<Rightarrow> (nat \<Rightarrow> event) option) \<Rightarrow> timers \<Rightarrow> event \<Rightarrow> int \<times> timers" where
  "min_heap_push mm s e =
     (case min_heap_reserve mm s (mh_n s + 1) of (r, s1) \<Rightarrow>
        if r \<noteq> 0 then (-1, s1)
        else (0, min_heap_shift_up (s1\<lparr>mh_n := mh_n s1 + 1\<rparr>) (mh_n s1) e))"

definition min_heap_pop :: "timers \<Rightarrow> event option \<times> timers" where
  "min_heap_pop s =
     (if mh_n s \<noteq> 0 then
        let e = mh_p s ! 0;
            s1 = s\<lparr>mh_n := mh_n s - 1\<rparr>;
            s2 = min_heap_shift_down s1 0 (mh_p s1 ! mh_n s1)
        in (Some e, s2\<lparr>min_heap_idx := (min_heap_idx s2)(e := -1)\<rparr>)
      else (None, s))"

definition min_heap_erase :: "timers \<Rightarrow> event \<Rightarrow> int \<times> timers" where
  "min_heap_erase s e =
     (if min_heap_idx s e \<noteq> -1 then
        let s1 = s\<lparr>mh_n := mh_n s - 1\<rparr>;
            last = mh_p s1 ! mh_n s1;
            i = nat (min_heap_idx s e);
            s2 = (if min_heap_idx s e > 0 \<and> min_heap_elem_greater s1 (mh_p s1 ! parent_of i) last
                  then min_heap_shift_up_unconditional s1 i last
                  else min_heap_shift_down s1 i last)
        in (0, s2\<lparr>min_heap_idx := (min_heap_idx s2)(e := -1)\<rparr>)
      else (-1, s))"

definition min_heap_adjust :: "(nat \<Rightarrow> (nat \<Rightarrow> event) option) \<Rightarrow> timers \<Rightarrow> event \<Rightarrow> int \<times> timers" where
  "min_heap_adjust mm s e =
     (if min_heap_idx s e = -1 then min_heap_push mm s e
      else let i = nat (min_heap_idx s e)
           in (0, if min_heap_idx s e > 0 \<and> min_heap_elem_greater s (mh_p s ! parent_of i) e
                  then min_heap_shift_up_unconditional s i e
                  else min_heap_shift_down s i e))"

section \<open>Heap order with a hole\<close>

lemma parent_less: "0 < i \<Longrightarrow> parent_of i < i"
  by (auto simp: parent_of_def)

lemma parent_child: "0 < i \<Longrightarrow> parent_of i = h \<longleftrightarrow> i = 2 * h + 1 \<or> i = 2 * h + 2"
  by (auto simp: parent_of_def)

definition heap_ordered :: "(event \<Rightarrow> timeval) \<Rightarrow> event list \<Rightarrow> bool" where
  "heap_ordered f v \<longleftrightarrow> (\<forall>i. 0 < i \<longrightarrow> i < length v \<longrightarrow> f (v ! parent_of i) \<le> f (v ! i))"

text \<open>The order may be wrong above, or below, position \<open>h\<close> only.\<close>

definition bridged :: "(event \<Rightarrow> timeval) \<Rightarrow> event list \<Rightarrow> nat \<Rightarrow> bool" where
  "bridged f v h \<longleftrightarrow> (\<forall>i. 0 < h \<longrightarrow> 0 < i \<longrightarrow> i < length v \<longrightarrow> parent_of i = h \<longrightarrow> f (v ! parent_of h) \<le> f (v ! i))"

definition up_ok :: "(event \<Rightarrow> timeval) \<Rightarrow> event list \<Rightarrow> nat \<Rightarrow> bool" where
  "up_ok f v h \<longleftrightarrow> (\<forall>i. 0 < i \<longrightarrow> i < length v \<longrightarrow> i \<noteq> h \<longrightarrow> f (v ! parent_of i) \<le> f (v ! i)) \<and> bridged f v h"

definition down_ok :: "(event \<Rightarrow> timeval) \<Rightarrow> event list \<Rightarrow> nat \<Rightarrow> bool" where
  "down_ok f v h \<longleftrightarrow> (\<forall>i. 0 < i \<longrightarrow> i < length v \<longrightarrow> parent_of i \<noteq> h \<longrightarrow> f (v ! parent_of i) \<le> f (v ! i)) \<and> bridged f v h"

definition swap :: "'a list \<Rightarrow> nat \<Rightarrow> nat \<Rightarrow> 'a list" where
  "swap v i j = v[i := v ! j, j := v ! i]"

lemma length_swap [simp]: "length (swap v i j) = length v"
  by (simp add: swap_def)

lemma nth_swap: "i < length v \<Longrightarrow> j < length v \<Longrightarrow> k < length v \<Longrightarrow>
    swap v i j ! k = (if k = j then v ! i else if k = i then v ! j else v ! k)"
  by (simp add: swap_def nth_list_update)

lemma mset_swap_eq: "i < length v \<Longrightarrow> j < length v \<Longrightarrow> mset (swap v i j) = mset v"
  unfolding swap_def by (rule mset_swap)

lemma up_stop: "up_ok f v h \<Longrightarrow> h = 0 \<or> f (v ! parent_of h) \<le> f (v ! h) \<Longrightarrow> heap_ordered f v"
  by (auto simp: up_ok_def heap_ordered_def)

lemma down_stop: "down_ok f v h \<Longrightarrow> (\<And>i. 0 < i \<Longrightarrow> i < length v \<Longrightarrow> parent_of i = h \<Longrightarrow> f (v ! h) \<le> f (v ! i)) \<Longrightarrow> heap_ordered f v"
  by (auto simp: down_ok_def heap_ordered_def)

lemma up_step:
  assumes up: "up_ok f v h" and h: "0 < h" "h < length v" and gt: "f (v ! parent_of h) > f (v ! h)"
  shows "up_ok f (swap v h (parent_of h)) (parent_of h)"
proof -
  let ?p = "parent_of h" and ?v = "swap v h (parent_of h)"
  have p: "?p < h" "?p < length v" using parent_less h by (auto intro: less_trans)
  have at: "?v ! k = (if k = ?p then v ! h else if k = h then v ! ?p else v ! k)" if "k < length v" for k
    using nth_swap h(2) p(2) that by blast
  have o: "f (v ! parent_of i) \<le> f (v ! i)" if "0 < i" "i < length v" "i \<noteq> h" for i
    using up that by (simp add: up_ok_def)
  have br: "f (v ! ?p) \<le> f (v ! i)" if "0 < i" "i < length v" "parent_of i = h" for i
    using up that h by (simp add: up_ok_def bridged_def)
  have "f (?v ! parent_of i) \<le> f (?v ! i)" if i: "0 < i" "i < length v" "i \<noteq> ?p" for i
  proof -
    have pi: "parent_of i < i" "parent_of i < length v" using parent_less i by (auto intro: less_trans)
    show ?thesis
    proof (cases "i = h")
      case True
      then show ?thesis using at [OF i(2)] at [OF pi(2)] gt p by auto
    next
      case False
      then show ?thesis
        using at [OF i(2)] at [OF pi(2)] o [OF i(1,2) False] br [OF i(1,2)] gt i(3) by auto
    qed
  qed
  moreover have "f (?v ! parent_of ?p) \<le> f (?v ! i)" if i: "0 < ?p" "0 < i" "i < length v" "parent_of i = ?p" for i
  proof -
    have pp: "parent_of ?p < ?p" "parent_of ?p < length v" using parent_less [OF i(1)] p(2) by auto
    have "i \<noteq> ?p" using parent_less [OF i(2)] i(4) by auto
    moreover have "f (v ! parent_of ?p) \<le> f (v ! ?p)" using o [OF i(1) p(2)] p by auto
    moreover have "i \<noteq> h \<Longrightarrow> f (v ! ?p) \<le> f (v ! i)" using o [OF i(2,3)] i(4) by auto
    ultimately show ?thesis using at [OF i(3)] at [OF pp(2)] pp p by auto
  qed
  ultimately show ?thesis by (simp add: up_ok_def bridged_def)
qed

lemma down_step:
  assumes dn: "down_ok f v h" and c: "0 < c" "c < length v" "parent_of c = h" and gt: "f (v ! h) > f (v ! c)"
    and least: "\<And>i. 0 < i \<Longrightarrow> i < length v \<Longrightarrow> parent_of i = h \<Longrightarrow> f (v ! c) \<le> f (v ! i)"
  shows "down_ok f (swap v h c) c"
proof -
  let ?v = "swap v h c"
  have h: "h < c" "h < length v" using parent_less c by (auto intro: less_trans)
  have at: "?v ! k = (if k = c then v ! h else if k = h then v ! c else v ! k)" if "k < length v" for k
    using nth_swap h(2) c(2) that by blast
  have o: "f (v ! parent_of i) \<le> f (v ! i)" if "0 < i" "i < length v" "parent_of i \<noteq> h" for i
    using dn that by (simp add: down_ok_def)
  have br: "f (v ! parent_of h) \<le> f (v ! c)" if "0 < h"
    using dn that c by (simp add: down_ok_def bridged_def)
  have "f (?v ! parent_of i) \<le> f (?v ! i)" if i: "0 < i" "i < length v" "parent_of i \<noteq> c" for i
  proof -
    have pi: "parent_of i < i" "parent_of i < length v" using parent_less i by (auto intro: less_trans)
    show ?thesis
    proof (cases "i = h")
      case True
      then show ?thesis using at [OF i(2)] at [OF pi(2)] pi h br i by auto
    next
      case False
      then show ?thesis
        using at [OF i(2)] at [OF pi(2)] o [OF i(1,2)] least [OF i(1,2)] gt i(3) c by auto
    qed
  qed
  moreover have "f (?v ! parent_of c) \<le> f (?v ! i)" if i: "0 < i" "i < length v" "parent_of i = c" for i
    using at [OF i(2)] at [OF h(2)] o [OF i(1,2)] i parent_less [OF i(1)] h c by auto
  ultimately show ?thesis by (simp add: down_ok_def bridged_def)
qed

section \<open>The two loops\<close>

text \<open>What the array is meant to hold: the first \<open>n\<close> entries with \<open>e\<close> in the hole.\<close>

definition view :: "timers \<Rightarrow> nat \<Rightarrow> event \<Rightarrow> event list" where
  "view s h e = (take (mh_n s) (mh_p s))[h := e]"

definition indexed :: "timers \<Rightarrow> nat \<Rightarrow> bool" where
  "indexed s h \<longleftrightarrow> (\<forall>i < mh_n s. i \<noteq> h \<longrightarrow> min_heap_idx s (mh_p s ! i) = int i)"

definition hole_ok :: "timers \<Rightarrow> nat \<Rightarrow> event \<Rightarrow> bool" where
  "hole_ok s h e \<longleftrightarrow> h < mh_n s \<and> mh_n s \<le> mh_a s \<and> length (mh_p s) = mh_a s \<and> distinct (view s h e) \<and> indexed s h"

definition placed :: "timers \<Rightarrow> event list \<Rightarrow> timers \<Rightarrow> bool" where
  "placed s v s' \<longleftrightarrow> mh_n s' = mh_n s \<and> mh_a s' = mh_a s \<and> ev_timeout s' = ev_timeout s
     \<and> length (mh_p s') = length (mh_p s) \<and> heap_ordered (ev_timeout s) (take (mh_n s') (mh_p s'))
     \<and> mset (take (mh_n s') (mh_p s')) = mset v \<and> (\<forall>i < mh_n s'. min_heap_idx s' (mh_p s' ! i) = int i)
     \<and> (\<forall>x. x \<notin> set v \<longrightarrow> min_heap_idx s' x = min_heap_idx s x)"

lemma set_slot_sel [simp]:
  "mh_n (set_slot s i e) = mh_n s" "mh_a (set_slot s i e) = mh_a s" "ev_timeout (set_slot s i e) = ev_timeout s"
  "mh_p (set_slot s i e) = (mh_p s)[i := e]" "min_heap_idx (set_slot s i e) = (min_heap_idx s)(e := int i)"
  by (simp_all add: set_slot_def)

lemma length_view [simp]: "hole_ok s h e \<Longrightarrow> length (view s h e) = mh_n s"
  by (simp add: view_def hole_ok_def)

lemma view_nth: "hole_ok s h e \<Longrightarrow> i < mh_n s \<Longrightarrow> view s h e ! i = (if i = h then e else mh_p s ! i)"
  by (simp add: view_def hole_ok_def nth_list_update)

text \<open>Storing the element ends the loop; moving an element into the hole moves the hole.\<close>

lemma place:
  assumes h: "hole_ok s h e" and ord: "heap_ordered (ev_timeout s) (view s h e)"
  shows "placed s (view s h e) (set_slot s h e)"
proof -
  have v: "take (mh_n s) ((mh_p s)[h := e]) = view s h e" by (simp add: view_def take_update_swap)
  have "min_heap_idx (set_slot s h e) (mh_p (set_slot s h e) ! i) = int i" if i: "i < mh_n s" for i
  proof (cases "i = h")
    case True
    then show ?thesis using h i by (simp add: hole_ok_def)
  next
    case False
    have "view s h e ! i \<noteq> view s h e ! h"
      using h i False by (simp add: hole_ok_def nth_eq_iff_index_eq)
    then have "mh_p s ! i \<noteq> e" using view_nth [OF h] i False h by (simp add: hole_ok_def)
    then show ?thesis using h i False by (simp add: hole_ok_def indexed_def)
  qed
  moreover have "e \<in> set (view s h e)"
    using h by (auto simp: hole_ok_def view_def intro: set_update_memI)
  ultimately show ?thesis using ord v by (auto simp: placed_def)
qed

lemma move_hole:
  assumes h: "hole_ok s h e" and g: "g < mh_n s" "g \<noteq> h"
  defines "s1 \<equiv> set_slot s h (mh_p s ! g)"
  shows "hole_ok s1 g e" "view s1 g e = swap (view s h e) h g" "mset (view s1 g e) = mset (view s h e)"
    "placed s1 (view s1 g e) s' \<Longrightarrow> placed s (view s h e) s'"
proof -
  have len: "length (view s h e) = mh_n s" "h < mh_n s" using h by (simp_all add: hole_ok_def view_def)
  have eq: "view s1 g e = swap (view s h e) h g"
  proof (rule nth_equalityI)
    show "length (view s1 g e) = length (swap (view s h e) h g)" using h by (simp add: view_def s1_def hole_ok_def)
    fix i
    assume "i < length (view s1 g e)"
    then have "i < mh_n s" using h by (simp add: view_def s1_def hole_ok_def)
    then show "view s1 g e ! i = swap (view s h e) h g ! i"
      using g h len by (auto simp: nth_swap view_nth [OF h]) (auto simp: view_def s1_def hole_ok_def nth_list_update)
  qed
  then show "view s1 g e = swap (view s h e) h g" .
  show ms: "mset (view s1 g e) = mset (view s h e)" unfolding eq using g(1) len by (simp add: mset_swap_eq)
  have st: "set (view s1 g e) = set (view s h e)" using mset_eq_setD [OF ms] .
  have gv: "view s h e ! g = mh_p s ! g" using view_nth [OF h g(1)] g(2) by simp
  have dis: "distinct (view s h e)" using h by (simp add: hole_ok_def)
  have "indexed s1 g"
  proof -
    have "min_heap_idx s1 (mh_p s1 ! i) = int i" if i: "i < mh_n s" "i \<noteq> g" for i
    proof (cases "i = h")
      case True
      then show ?thesis using h i by (simp add: s1_def hole_ok_def)
    next
      case False
      have "view s h e ! i \<noteq> view s h e ! g" using dis i g(1) len by (simp add: nth_eq_iff_index_eq)
      then have "mh_p s ! i \<noteq> mh_p s ! g" using gv view_nth [OF h i(1)] False by simp
      then show ?thesis using h i False by (simp add: s1_def hole_ok_def indexed_def)
    qed
    then show ?thesis by (simp add: indexed_def s1_def)
  qed
  moreover have "distinct (view s1 g e)" using ms dis by (metis mset_eq_imp_distinct_iff)
  ultimately show "hole_ok s1 g e" using h g(1) by (simp add: hole_ok_def s1_def)
  have "mh_p s ! g \<in> set (view s h e)" using gv len g(1) nth_mem [of g "view s h e"] by simp
  then show "placed s1 (view s1 g e) s' \<Longrightarrow> placed s (view s h e) s'"
    using ms st by (auto simp: placed_def s1_def)
qed

lemma shift_up_placed:
  "hole_ok s h e \<Longrightarrow> up_ok (ev_timeout s) (view s h e) h \<Longrightarrow> placed s (view s h e) (min_heap_shift_up s h e)"
proof (induction s h e rule: min_heap_shift_up.induct)
  case (1 s h e)
  have h: "h < mh_n s" using "1.prems"(1) by (simp add: hole_ok_def)
  let ?g = "parent_of h" and ?v = "view s h e"
  have vh: "?v ! h = e" using view_nth [OF "1.prems"(1) h] by simp
  show ?case
  proof (cases "h \<noteq> 0 \<and> min_heap_elem_greater s (mh_p s ! ?g) e")
    case True
    have g: "?g < mh_n s" "?g \<noteq> h" using True h parent_less [of h] by auto
    have vg: "?v ! ?g = mh_p s ! ?g" using view_nth [OF "1.prems"(1) g(1)] g(2) by simp
    note m = move_hole [OF "1.prems"(1) g]
    have "up_ok (ev_timeout s) (swap ?v h ?g) ?g"
      using up_step [OF "1.prems"(2)] True h "1.prems"(1) vh vg by (simp add: min_heap_elem_greater_def)
    then have "placed (set_slot s h (mh_p s ! ?g)) (view (set_slot s h (mh_p s ! ?g)) ?g e)
        (min_heap_shift_up (set_slot s h (mh_p s ! ?g)) ?g e)"
      using "1.IH" [OF True m(1)] m(2) by simp
    from m(4) [OF this] True show ?thesis by (subst min_heap_shift_up.simps) simp
  next
    case False
    have "h = 0 \<or> ev_timeout s (?v ! ?g) \<le> ev_timeout s (?v ! h)"
    proof (cases "h = 0")
      case f: False
      then have "?g < mh_n s" "?g \<noteq> h" using h parent_less [of h] by auto
      then have "?v ! ?g = mh_p s ! ?g" using view_nth [OF "1.prems"(1)] by simp
      then show ?thesis using False f vh by (simp add: min_heap_elem_greater_def not_less)
    qed simp
    from place [OF "1.prems"(1) up_stop [OF "1.prems"(2) this]] False show ?thesis
      by (subst min_heap_shift_up.simps) auto
  qed
qed

lemma min_child:
  assumes h: "hole_ok s h e" and c2: "2 * (h + 1) \<le> mh_n s"
  defines "c \<equiv> min_child s h"
  shows "0 < c" "c < mh_n s" "c \<noteq> h" "parent_of c = h"
    "\<And>i. 0 < i \<Longrightarrow> i < mh_n s \<Longrightarrow> parent_of i = h \<Longrightarrow> ev_timeout s (mh_p s ! c) \<le> ev_timeout s (mh_p s ! i)"
proof -
  let ?d = "2 * (h + 1)"
  have c: "c = (if ?d = mh_n s \<or> ev_timeout s (mh_p s ! ?d) > ev_timeout s (mh_p s ! (?d - 1)) then ?d - 1 else ?d)"
    by (simp add: c_def min_child_def Let_def min_heap_elem_greater_def)
  show "0 < c" "c < mh_n s" "c \<noteq> h" using c c2 by auto
  show "parent_of c = h" using c by (auto simp: parent_of_def)
  fix i
  assume i: "0 < i" "i < mh_n s" "parent_of i = h"
  then have "i = ?d - 1 \<or> i = ?d" using parent_child [OF i(1)] by auto
  then show "ev_timeout s (mh_p s ! c) \<le> ev_timeout s (mh_p s ! i)" using c i(2) c2 by auto
qed

lemma shift_down_placed:
  "hole_ok s h e \<Longrightarrow> down_ok (ev_timeout s) (view s h e) h \<Longrightarrow> placed s (view s h e) (min_heap_shift_down s h e)"
proof (induction s h e rule: min_heap_shift_down.induct)
  case (1 s h e)
  have h: "h < mh_n s" using "1.prems"(1) by (simp add: hole_ok_def)
  let ?v = "view s h e" and ?c = "min_child s h"
  have vh: "?v ! h = e" using view_nth [OF "1.prems"(1) h] by simp
  have vi: "?v ! i = mh_p s ! i" if "i < mh_n s" "i \<noteq> h" for i using view_nth [OF "1.prems"(1) that(1)] that(2) by simp
  show ?case
  proof (cases "2 * (h + 1) \<le> mh_n s \<and> min_heap_elem_greater s e (mh_p s ! ?c)")
    case True
    note mc = min_child [OF "1.prems"(1) conjunct1 [OF True]]
    note m = move_hole [OF "1.prems"(1) mc(2,3)]
    have "down_ok (ev_timeout s) (swap ?v h ?c) ?c"
    proof (rule down_step [OF "1.prems"(2)])
      show "0 < ?c" "?c < length ?v" "parent_of ?c = h" using mc "1.prems"(1) by simp_all
      show "ev_timeout s (?v ! ?c) < ev_timeout s (?v ! h)"
        using True vh vi [OF mc(2,3)] by (simp add: min_heap_elem_greater_def)
      fix i
      assume i: "0 < i" "i < length ?v" "parent_of i = h"
      then have "i \<noteq> h" using parent_less [OF i(1)] by auto
      then show "ev_timeout s (?v ! ?c) \<le> ev_timeout s (?v ! i)"
        using mc(5) [OF i(1) _ i(3)] i(2) vi mc(2,3) "1.prems"(1) by simp
    qed
    then have "placed (set_slot s h (mh_p s ! ?c)) (view (set_slot s h (mh_p s ! ?c)) ?c e)
        (min_heap_shift_down (set_slot s h (mh_p s ! ?c)) ?c e)"
      using "1.IH" [OF True m(1)] m(2) by simp
    from m(4) [OF this] True show ?thesis by (subst min_heap_shift_down.simps) simp
  next
    case False
    have "heap_ordered (ev_timeout s) ?v"
    proof (rule down_stop [OF "1.prems"(2)])
      fix i
      assume i: "0 < i" "i < length ?v" "parent_of i = h"
      then have lt: "i < mh_n s" "i \<noteq> h" using "1.prems"(1) parent_less [OF i(1)] by auto
      have le: "2 * (h + 1) \<le> mh_n s" using parent_child [OF i(1), of h] i(3) lt(1) by auto
      from min_child(5) [OF "1.prems"(1) le i(1) lt(1) i(3)] False le
      show "ev_timeout s (?v ! h) \<le> ev_timeout s (?v ! i)" using vh vi [OF lt] by (auto simp: min_heap_elem_greater_def not_less)
    qed
    from place [OF "1.prems"(1) this] False show ?thesis
      by (subst min_heap_shift_down.simps) auto
  qed
qed

section \<open>The queue\<close>

text \<open>
  The invariant: the array has room, its entries are distinct, every queued event knows its
  index, every other event has index -1, and the timeouts are heap ordered.
\<close>

definition members :: "timers \<Rightarrow> event set" where
  "members s = set (take (mh_n s) (mh_p s))"

definition timers_ok :: "timers \<Rightarrow> bool" where
  "timers_ok s \<longleftrightarrow> mh_n s \<le> mh_a s \<and> length (mh_p s) = mh_a s \<and> distinct (take (mh_n s) (mh_p s))
     \<and> (\<forall>i < mh_n s. min_heap_idx s (mh_p s ! i) = int i) \<and> (\<forall>x. x \<notin> members s \<longrightarrow> min_heap_idx s x = -1)
     \<and> heap_ordered (ev_timeout s) (take (mh_n s) (mh_p s))"

lemma placed_ok:
  assumes p: "placed s v s'" and v: "distinct v" and s: "mh_n s \<le> mh_a s" "length (mh_p s) = mh_a s"
    and out: "\<forall>x. x \<notin> set v \<longrightarrow> x = e \<or> min_heap_idx s x = -1" and e: "e \<notin> set v"
  shows "timers_ok (s'\<lparr>min_heap_idx := (min_heap_idx s')(e := -1)\<rparr>)" "members s' = set v"
    "ev_timeout s' = ev_timeout s"
proof -
  have ms: "mset (take (mh_n s') (mh_p s')) = mset v" using p unfolding placed_def by blast
  have st: "set (take (mh_n s') (mh_p s')) = set v" by (rule mset_eq_setD [OF ms])
  then show m: "members s' = set v" by (simp add: members_def)
  have d: "distinct (take (mh_n s') (mh_p s'))" using v ms by (metis mset_eq_imp_distinct_iff)
  have "mh_p s' ! i \<noteq> e" if "i < mh_n s'" for i
  proof -
    have "i < length (take (mh_n s') (mh_p s'))" using that p s by (simp add: placed_def)
    from nth_mem [OF this] show ?thesis using st e that by auto
  qed
  then show "timers_ok (s'\<lparr>min_heap_idx := (min_heap_idx s')(e := -1)\<rparr>)"
    using p s d out st by (auto simp: timers_ok_def placed_def members_def)
  show "ev_timeout s' = ev_timeout s" using p by (simp add: placed_def)
qed

lemma placed_all:
  assumes p: "placed s v s'" and v: "distinct v" and s: "mh_n s \<le> mh_a s" "length (mh_p s) = mh_a s"
    and out: "\<forall>x. x \<notin> set v \<longrightarrow> min_heap_idx s x = -1"
  shows "timers_ok s' \<and> members s' = set v \<and> ev_timeout s' = ev_timeout s"
proof -
  have ms: "mset (take (mh_n s') (mh_p s')) = mset v" using p unfolding placed_def by blast
  have st: "set (take (mh_n s') (mh_p s')) = set v" by (rule mset_eq_setD [OF ms])
  have d: "distinct (take (mh_n s') (mh_p s'))" using v ms by (metis mset_eq_imp_distinct_iff)
  then show ?thesis using p s out st by (auto simp: timers_ok_def placed_def members_def)
qed

lemma member_nth: "timers_ok s \<Longrightarrow> e \<in> members s \<longleftrightarrow> (\<exists>i < mh_n s. mh_p s ! i = e)"
  by (auto simp: timers_ok_def members_def simp flip: nth_image)

lemma member_slot:
  assumes "timers_ok s" "e \<in> members s"
  obtains i where "i < mh_n s" "mh_p s ! i = e" "min_heap_idx s e = int i"
  using assms member_nth [OF assms(1)] by (auto simp: timers_ok_def)

lemma member_idx: "timers_ok s \<Longrightarrow> e \<in> members s \<longleftrightarrow> min_heap_idx s e \<noteq> -1"
  using member_nth [of s e] by (auto simp: timers_ok_def)

text \<open>The root is least.\<close>

lemma heap_root:
  assumes "heap_ordered f v" "i < length v"
  shows "f (v ! 0) \<le> f (v ! i)"
  using assms(2)
proof (induction i rule: less_induct)
  case (less i)
  show ?case
  proof (cases "i = 0")
    case False
    then have "parent_of i < i" by (simp add: parent_less)
    then have "f (v ! 0) \<le> f (v ! parent_of i)" using less by auto
    also have "\<dots> \<le> f (v ! i)" using assms(1) less.prems False by (simp add: heap_ordered_def)
    finally show ?thesis .
  qed simp
qed

lemma top_least:
  assumes "timers_ok s"
  shows "case min_heap_top s of None \<Rightarrow> members s = {}
    | Some e \<Rightarrow> e \<in> members s \<and> (\<forall>x \<in> members s. ev_timeout s e \<le> ev_timeout s x)"
proof (cases "mh_n s = 0")
  case True
  then show ?thesis by (simp add: min_heap_top_def members_def)
next
  case False
  let ?v = "take (mh_n s) (mh_p s)"
  have len: "length ?v = mh_n s" using assms by (simp add: timers_ok_def)
  have "ev_timeout s (?v ! 0) \<le> ev_timeout s x" if "x \<in> set ?v" for x
    using that heap_root [of "ev_timeout s" ?v] assms by (auto simp: timers_ok_def in_set_conv_nth)
  moreover have "?v ! 0 \<in> set ?v" using len False by (metis neq0_conv nth_mem)
  ultimately show ?thesis using False by (simp add: min_heap_top_def members_def)
qed

lemma up_ok_append:
  assumes "heap_ordered f v"
  shows "up_ok f (v @ [e]) (length v)"
proof -
  have "f ((v @ [e]) ! parent_of i) \<le> f ((v @ [e]) ! i)" if i: "0 < i" "i < length v" for i
    using assms i parent_less [OF i(1)] by (simp add: heap_ordered_def nth_append)
  moreover have "parent_of i \<noteq> length v" if "0 < i" "i < Suc (length v)" for i
    using parent_less [OF that(1)] that(2) by simp
  ultimately show ?thesis by (simp add: up_ok_def bridged_def less_Suc_eq)
qed

lemma heap_prefix:
  assumes "heap_ordered f (v @ w)" shows "heap_ordered f v"
proof -
  have "f (v ! parent_of i) \<le> f (v ! i)" if i: "0 < i" "i < length v" for i
  proof -
    have "f ((v @ w) ! parent_of i) \<le> f ((v @ w) ! i)" using assms i by (simp add: heap_ordered_def)
    then show ?thesis using i parent_less [OF i(1)] by (simp add: nth_append)
  qed
  then show ?thesis by (simp add: heap_ordered_def)
qed

text \<open>Replacing one entry, or changing its timeout, disturbs the order in one direction only.\<close>

lemma replace_up:
  assumes ord: "heap_ordered f v" and i: "0 < i" "i < length v" and len: "length v' = length v"
    and same: "\<And>j. j < length v \<Longrightarrow> j \<noteq> i \<Longrightarrow> f' (v' ! j) = f (v ! j)"
    and less: "f' (v' ! i) < f' (v' ! parent_of i)"
  shows "up_ok f' v' i"
proof -
  have o: "f (v ! parent_of j) \<le> f (v ! j)" if "0 < j" "j < length v" for j
    using ord that by (simp add: heap_ordered_def)
  have pi: "parent_of i < length v" "parent_of i \<noteq> i" using parent_less [OF i(1)] i(2) by auto
  have "f' (v' ! parent_of j) \<le> f' (v' ! j)" if j: "0 < j" "j < length v" "j \<noteq> i" for j
  proof -
    have pj: "parent_of j < length v" using parent_less [OF j(1)] j(2) by simp
    show ?thesis
    proof (cases "parent_of j = i")
      case True
      have "f' (v' ! i) < f (v ! parent_of i)" using less same [OF pi] by simp
      also have "\<dots> \<le> f (v ! i)" by (rule o [OF i])
      also have "\<dots> \<le> f (v ! j)" using o [OF j(1,2)] True by simp
      finally show ?thesis using True same [OF j(2,3)] by simp
    next
      case False
      then show ?thesis using same [OF j(2,3)] same [OF pj] o [OF j(1,2)] by simp
    qed
  qed
  moreover have "f' (v' ! parent_of i) \<le> f' (v' ! j)" if j: "0 < j" "j < length v" "parent_of j = i" for j
  proof -
    have "j \<noteq> i" using parent_less [OF j(1)] j(3) by auto
    then show ?thesis using same [OF pi] same [OF j(2)] o [OF i] o [OF j(1,2)] j(3) by simp
  qed
  ultimately show ?thesis using len by (simp add: up_ok_def bridged_def)
qed

lemma replace_down:
  assumes ord: "heap_ordered f v" and i: "i < length v" and len: "length v' = length v"
    and same: "\<And>j. j < length v \<Longrightarrow> j \<noteq> i \<Longrightarrow> f' (v' ! j) = f (v ! j)"
    and ge: "i = 0 \<or> f' (v' ! parent_of i) \<le> f' (v' ! i)"
  shows "down_ok f' v' i"
proof -
  have o: "f (v ! parent_of j) \<le> f (v ! j)" if "0 < j" "j < length v" for j
    using ord that by (simp add: heap_ordered_def)
  have "f' (v' ! parent_of j) \<le> f' (v' ! j)" if j: "0 < j" "j < length v" "parent_of j \<noteq> i" for j
  proof (cases "j = i")
    case True
    then show ?thesis using ge j(1) by simp
  next
    case False
    have "parent_of j < length v" using parent_less [OF j(1)] j(2) by simp
    then show ?thesis using same [OF j(2) False] same [OF _ j(3)] o [OF j(1,2)] by simp
  qed
  moreover have "f' (v' ! parent_of i) \<le> f' (v' ! j)" if j: "0 < i" "0 < j" "j < length v" "parent_of j = i" for j
  proof -
    have ne: "j \<noteq> i" using parent_less [OF j(2)] j(4) by auto
    have "parent_of i < length v" "parent_of i \<noteq> i" using parent_less [OF j(1)] i by auto
    from same [OF this] same [OF j(3) ne] o [OF j(1) i] o [OF j(2,3)] j(4) show ?thesis by simp
  qed
  ultimately show ?thesis using len by (simp add: down_ok_def bridged_def)
qed

text \<open>Inserting.\<close>

lemma reserve_ok:
  assumes ok: "timers_ok s" and eq: "min_heap_reserve mm s n = (r, s')"
  shows "r = 0 \<and> n \<le> mh_a s' \<and> timers_ok s' \<and> mh_n s' = mh_n s \<and> members s' = members s \<and> ev_timeout s' = ev_timeout s
    \<and> min_heap_idx s' = min_heap_idx s \<or> r = -1 \<and> s' = s"
proof -
  have "mh_n s \<le> length (mh_p s)" using ok by (simp add: timers_ok_def)
  then show ?thesis
    using eq ok by (auto simp: min_heap_reserve_def Let_def timers_ok_def members_def nth_append split: if_splits option.splits)
qed

lemma push_ok:
  assumes ok: "timers_ok s" and e: "e \<notin> members s" and eq: "min_heap_push mm s e = (r, s')"
  shows "r = 0 \<and> timers_ok s' \<and> members s' = insert e (members s) \<and> ev_timeout s' = ev_timeout s \<or> r = -1 \<and> s' = s"
proof -
  obtain q s1 where r1: "min_heap_reserve mm s (mh_n s + 1) = (q, s1)" by fastforce
  from reserve_ok [OF ok r1] show ?thesis
  proof
    assume "q = -1 \<and> s1 = s"
    then show ?thesis using eq r1 by (simp add: min_heap_push_def)
  next
    assume a: "q = 0 \<and> mh_n s + 1 \<le> mh_a s1 \<and> timers_ok s1 \<and> mh_n s1 = mh_n s \<and> members s1 = members s
      \<and> ev_timeout s1 = ev_timeout s \<and> min_heap_idx s1 = min_heap_idx s"
    let ?n = "mh_n s1" and ?s2 = "s1\<lparr>mh_n := mh_n s1 + 1\<rparr>"
    have len: "?n < length (mh_p s1)" using a by (simp add: timers_ok_def)
    then have v: "view ?s2 ?n e = take ?n (mh_p s1) @ [e]" by (simp add: view_def take_Suc_conv_app_nth list_update_append)
    have w: "hole_ok ?s2 ?n e"
      using a e v by (auto simp: hole_ok_def timers_ok_def indexed_def members_def)
    have "heap_ordered (ev_timeout s1) (take ?n (mh_p s1))" using a unfolding timers_ok_def by blast
    from up_ok_append [OF this, of e] have "up_ok (ev_timeout ?s2) (view ?s2 ?n e) ?n"
      using len unfolding v by (simp add: min_def)
    from shift_up_placed [OF w this] have p: "placed ?s2 (view ?s2 ?n e) s'"
      using eq r1 a by (simp add: min_heap_push_def)
    have "distinct (view ?s2 ?n e)" using w by (simp add: hole_ok_def)
    from placed_all [OF p this] a v have "timers_ok s' \<and> members s' = insert e (members s) \<and> ev_timeout s' = ev_timeout s"
      by (auto simp: timers_ok_def members_def)
    with eq r1 a show ?thesis by (simp add: min_heap_push_def)
  qed
qed

text \<open>Filling a hole at \<open>i\<close> when the rest is as in a heap: one of the two loops does it.\<close>

lemma shift_up_unconditional_eq:
  "0 < i \<Longrightarrow> min_heap_elem_greater s (mh_p s ! parent_of i) e \<Longrightarrow>
    min_heap_shift_up_unconditional s i e = min_heap_shift_up s i e"
  by (subst min_heap_shift_up.simps) (simp add: min_heap_shift_up_unconditional_def)

lemma settle:
  assumes h: "hole_ok s i e" and ord: "heap_ordered f w" and len: "length w = mh_n s"
    and same: "\<And>j. j < mh_n s \<Longrightarrow> j \<noteq> i \<Longrightarrow> ev_timeout s (view s i e ! j) = f (w ! j)"
  shows "placed s (view s i e) (if 0 < i \<and> min_heap_elem_greater s (mh_p s ! parent_of i) e
     then min_heap_shift_up_unconditional s i e else min_heap_shift_down s i e)"
proof -
  have i: "i < mh_n s" using h by (simp add: hole_ok_def)
  have vi: "view s i e ! i = e" using view_nth [OF h i] by simp
  have vp: "view s i e ! parent_of i = mh_p s ! parent_of i" if "0 < i"
    using view_nth [OF h, of "parent_of i"] parent_less [OF that] i by simp
  show ?thesis
  proof (cases "0 < i \<and> min_heap_elem_greater s (mh_p s ! parent_of i) e")
    case True
    have "up_ok (ev_timeout s) (view s i e) i"
      by (rule replace_up [OF ord]) (use True i len h same vi vp in \<open>simp_all add: min_heap_elem_greater_def\<close>)
    from shift_up_placed [OF h this] True shift_up_unconditional_eq [of i s e] show ?thesis by simp
  next
    case False
    have "down_ok (ev_timeout s) (view s i e) i"
      by (rule replace_down [OF ord])
        (use False i len h same vi vp in \<open>cases "0 < i"; auto simp: min_heap_elem_greater_def not_less\<close>)+
    from shift_down_placed [OF h this] False show ?thesis by auto
  qed
qed

lemma erase_ok:
  assumes ok: "timers_ok s" and e: "e \<in> members s"
  shows "\<exists>s'. min_heap_erase s e = (0, s') \<and> timers_ok s' \<and> members s' = members s - {e} \<and> ev_timeout s' = ev_timeout s"
proof -
  from member_slot [OF ok e] obtain i where i: "i < mh_n s" "mh_p s ! i = e" "min_heap_idx s e = int i" .
  obtain m where m: "mh_n s = Suc m" using i(1) by (cases "mh_n s") auto
  define s1 where "s1 = s\<lparr>mh_n := m\<rparr>"
  let ?last = "mh_p s ! m" and ?w = "take m (mh_p s)"
  have lens: "Suc m \<le> length (mh_p s)" "length (mh_p s) = mh_a s" using ok m by (simp_all add: timers_ok_def)
  have full: "take (mh_n s) (mh_p s) = ?w @ [?last]" using lens m by (simp add: take_Suc_conv_app_nth)
  have dis: "distinct (?w @ [?last])" using ok full by (simp add: timers_ok_def)
  have ord: "heap_ordered (ev_timeout s) (?w @ [?last])" using ok full unfolding timers_ok_def by metis
  have mem: "members s = set (?w @ [?last])" using full by (simp add: members_def)
  have er: "min_heap_erase s e = (0, (\<lambda>s2. s2\<lparr>min_heap_idx := (min_heap_idx s2)(e := -1)\<rparr>)
     (if 0 < i \<and> min_heap_elem_greater s1 (mh_p s1 ! parent_of i) ?last
      then min_heap_shift_up_unconditional s1 i ?last else min_heap_shift_down s1 i ?last))"
    using i m by (simp add: min_heap_erase_def Let_def s1_def)
  show ?thesis
  proof (cases "i = m")
    case True
    have "\<not> (0 < i \<and> min_heap_elem_greater s1 (mh_p s1 ! parent_of i) ?last)"
    proof (cases "0 < i")
      case t: True
      then have "ev_timeout s ((?w @ [?last]) ! parent_of m) \<le> ev_timeout s ((?w @ [?last]) ! m)"
        using ord True lens by (simp add: heap_ordered_def)
      then show ?thesis using True t parent_less [OF t] lens
        by (simp add: nth_append min_heap_elem_greater_def s1_def not_less)
    qed simp
    moreover have "min_heap_shift_down s1 m ?last = set_slot s1 m ?last"
      by (subst min_heap_shift_down.simps) (simp add: s1_def)
    ultimately have "min_heap_erase s e = (0, (set_slot s1 m e)\<lparr>min_heap_idx := (min_heap_idx (set_slot s1 m e))(e := -1)\<rparr>)"
      using er True i(2) by auto
    moreover have "timers_ok ((set_slot s1 m e)\<lparr>min_heap_idx := (min_heap_idx (set_slot s1 m e))(e := -1)\<rparr>)"
    proof -
      have "mh_p s ! j \<noteq> e" if "j < m" for j
        using dis that True i(2) lens by (auto simp: in_set_conv_nth)
      moreover have "heap_ordered (ev_timeout s) ?w" by (rule heap_prefix [OF ord])
      ultimately show ?thesis
        using ok dis True i(2) m mem lens by (auto simp: timers_ok_def s1_def members_def)
    qed
    ultimately show ?thesis
      using mem dis True i(2) by (auto simp: members_def s1_def)
  next
    case False
    then have im: "i < m" using i(1) m by simp
    have v: "view s1 i ?last = ?w[i := ?last]" by (simp add: view_def s1_def)
    have dv: "distinct (view s1 i ?last)" using dis unfolding v by (simp add: distinct_list_update)
    have h: "hole_ok s1 i ?last"
      using im lens ok m dv by (simp add: hole_ok_def s1_def timers_ok_def indexed_def)
    have sv: "set (view s1 i ?last) = members s - {e}"
    proof -
      have "mset (view s1 i ?last) = add_mset ?last (mset ?w - {#?w ! i#})"
        unfolding v using im lens by (simp add: mset_update)
      then have "set (view s1 i ?last) = insert ?last (set_mset (mset ?w - {#?w ! i#}))"
        by (metis set_mset_add_mset_insert set_mset_mset)
      moreover have "set_mset (mset ?w - {#?w ! i#}) = set ?w - {e}"
      proof -
        have "set_mset (mset ?w - {#?w ! i#}) = set (remove1 (?w ! i) ?w)"
          by (metis mset_remove1 set_mset_mset)
        then show ?thesis using dis i(2) im by (simp add: set_remove1_eq)
      qed
      ultimately show ?thesis using mem dis i(2) im lens by (auto simp: in_set_conv_nth)
    qed
    have ordw: "heap_ordered (ev_timeout s) ?w" by (rule heap_prefix [OF ord])
    define s2 where "s2 = (if 0 < i \<and> min_heap_elem_greater s1 (mh_p s1 ! parent_of i) ?last
      then min_heap_shift_up_unconditional s1 i ?last else min_heap_shift_down s1 i ?last)"
    have p: "placed s1 (view s1 i ?last) s2" unfolding s2_def
      by (rule settle [OF h ordw]) (use lens in \<open>simp_all add: s1_def view_def nth_list_update\<close>)
    have s1: "mh_n s1 \<le> mh_a s1" "length (mh_p s1) = mh_a s1" "ev_timeout s1 = ev_timeout s"
      using lens by (simp_all add: s1_def)
    have out: "\<forall>x. x \<notin> set (view s1 i ?last) \<longrightarrow> x = e \<or> min_heap_idx s1 x = -1"
      unfolding sv using ok by (auto simp: s1_def timers_ok_def)
    have "e \<notin> set (view s1 i ?last)" unfolding sv by simp
    note q = placed_ok [OF p dv s1(1,2) out this]
    have "min_heap_erase s e = (0, s2\<lparr>min_heap_idx := (min_heap_idx s2)(e := -1)\<rparr>)"
      using er by (simp add: s2_def)
    then show ?thesis using q s1(3) sv by (simp add: members_def)
  qed
qed

lemma pop_erase:
  assumes ok: "timers_ok s" and ne: "mh_n s \<noteq> 0"
  shows "min_heap_pop s = (Some (mh_p s ! 0), snd (min_heap_erase s (mh_p s ! 0)))" "mh_p s ! 0 \<in> members s"
proof -
  show "mh_p s ! 0 \<in> members s" using ne member_nth [OF ok] by auto
  have "min_heap_idx s (mh_p s ! 0) = 0" using ok ne by (simp add: timers_ok_def)
  then show "min_heap_pop s = (Some (mh_p s ! 0), snd (min_heap_erase s (mh_p s ! 0)))"
    using ne by (simp add: min_heap_pop_def min_heap_erase_def Let_def)
qed

lemma pop_ok:
  assumes ok: "timers_ok s" and eq: "min_heap_pop s = (r, s')"
  shows "timers_ok s' \<and> ev_timeout s' = ev_timeout s \<and> (case r of None \<Rightarrow> members s = {} \<and> s' = s
    | Some e \<Rightarrow> e \<in> members s \<and> members s' = members s - {e} \<and> (\<forall>x \<in> members s. ev_timeout s e \<le> ev_timeout s x))"
proof (cases "mh_n s = 0")
  case True
  with eq ok show ?thesis by (auto simp: min_heap_pop_def members_def)
next
  case False
  note p = pop_erase [OF ok False]
  from erase_ok [OF ok p(2)] p(1) eq top_least [OF ok] False show ?thesis
    by (auto simp: min_heap_top_def)
qed

text \<open>A queued event whose timeout has changed is moved to its new place.\<close>

lemma adjust_ok:
  assumes ok: "timers_ok (s\<lparr>ev_timeout := f\<rparr>)" and f: "\<forall>x. x \<noteq> e \<longrightarrow> f x = ev_timeout s x"
    and e: "e \<in> members s"
  shows "\<exists>s'. min_heap_adjust mm s e = (0, s') \<and> timers_ok s' \<and> members s' = members s \<and> ev_timeout s' = ev_timeout s"
proof -
  let ?o = "s\<lparr>ev_timeout := f\<rparr>" and ?w = "take (mh_n s) (mh_p s)"
  have "e \<in> members ?o" using e by (simp add: members_def)
  from member_slot [OF ok this] obtain i where i: "i < mh_n s" "mh_p s ! i = e" "min_heap_idx s e = int i" by auto
  have len: "mh_n s \<le> mh_a s" "length (mh_p s) = mh_a s" using ok by (simp_all add: timers_ok_def)
  have v: "view s i e = ?w" using i len by (simp add: view_def list_update_same_conv)
  have dis: "distinct ?w" and ord: "heap_ordered f ?w" using ok by (simp_all add: timers_ok_def)
  have h: "hole_ok s i e" using i len dis ok v by (simp add: hole_ok_def timers_ok_def indexed_def)
  define s' where "s' = (if 0 < i \<and> min_heap_elem_greater s (mh_p s ! parent_of i) e
     then min_heap_shift_up_unconditional s i e else min_heap_shift_down s i e)"
  have "placed s (view s i e) s'" unfolding s'_def
  proof (rule settle [OF h ord])
    show "length ?w = mh_n s" using len by simp
    fix j
    assume j: "j < mh_n s" "j \<noteq> i"
    have "?w ! j \<noteq> ?w ! i" using nth_eq_iff_index_eq [OF dis, of j i] j i(1) len by simp
    then show "ev_timeout s (view s i e ! j) = f (?w ! j)" using f i j v by simp
  qed
  from placed_all [OF this _ len] dis v ok
  have "timers_ok s' \<and> members s' = members s \<and> ev_timeout s' = ev_timeout s"
    by (auto simp: timers_ok_def members_def)
  moreover have "min_heap_adjust mm s e = (0, s')"
    using i by (auto simp: min_heap_adjust_def s'_def)
  ultimately show ?thesis by blast
qed

section \<open>The interface of a timer queue\<close>

text \<open>
  What the event loop needs of its queue: the least element, and removal. The loop that takes out
  all elements that are due is proved over this interface.
\<close>

partial_function (option) expire ::
    "('s \<Rightarrow> 'e option) \<Rightarrow> ('s \<Rightarrow> 'e \<Rightarrow> int \<times> 's) \<Rightarrow> ('s \<Rightarrow> 'e \<Rightarrow> bool) \<Rightarrow> 's \<Rightarrow> ('e list \<times> 's) option" where
  "expire peek erase late s =
     (case peek s of
        None \<Rightarrow> Some ([], s)
      | Some e \<Rightarrow> if late s e then Some ([], s)
                  else Option.bind (expire peek erase late (snd (erase s e))) (\<lambda>(es, s'). Some (e # es, s')))"

locale timer_queue =
  fixes peek :: "'s \<Rightarrow> 'e option"
    and erase :: "'s \<Rightarrow> 'e \<Rightarrow> int \<times> 's"
    and content :: "'s \<Rightarrow> 'e set"
    and key :: "'s \<Rightarrow> 'e \<Rightarrow> 'k::linorder"
    and inv :: "'s \<Rightarrow> bool"
  assumes finite_content: "inv s \<Longrightarrow> finite (content s)"
    and peek_None: "inv s \<Longrightarrow> peek s = None \<Longrightarrow> content s = {}"
    and peek_Some: "inv s \<Longrightarrow> peek s = Some e \<Longrightarrow> e \<in> content s \<and> (\<forall>x \<in> content s. key s e \<le> key s x)"
    and erase_law: "inv s \<Longrightarrow> e \<in> content s \<Longrightarrow>
      \<exists>s'. erase s e = (0, s') \<and> inv s' \<and> content s' = content s - {e} \<and> key s' = key s"
begin

lemma expire_all_due:
  assumes "inv s"
  shows "\<exists>es s'. expire peek erase (\<lambda>s e. key s e > now) s = Some (es, s') \<and> inv s' \<and> key s' = key s
    \<and> distinct es \<and> set es = {e \<in> content s. key s e \<le> now} \<and> content s' = content s - set es
    \<and> sorted (map (key s) es)"
  using assms
proof (induction "card (content s)" arbitrary: s rule: less_induct)
  case less
  show ?case
  proof (cases "peek s")
    case None
    with less.prems peek_None show ?thesis by (subst expire.simps) auto
  next
    case (Some e)
    note t = peek_Some [OF less.prems Some]
    show ?thesis
    proof (cases "key s e > now")
      case True
      with t have "{e \<in> content s. key s e \<le> now} = {}" by auto
      with True Some less.prems show ?thesis by (subst expire.simps) auto
    next
      case False
      from erase_law [OF less.prems] t obtain s1 where
        s1: "erase s e = (0, s1)" "inv s1" "content s1 = content s - {e}" "key s1 = key s" by blast
      have "card (content s1) < card (content s)"
        unfolding s1(3) by (rule card_Diff1_less) (use t finite_content [OF less.prems] in auto)
      from less.hyps [OF this s1(2)] obtain es s' where
        IH: "expire peek erase (\<lambda>s e. key s e > now) s1 = Some (es, s')" "inv s'" "key s' = key s1" "distinct es"
          "set es = {e \<in> content s1. key s1 e \<le> now}" "content s' = content s1 - set es" "sorted (map (key s1) es)" by blast
      from IH(1) s1(1) Some False
      have "expire peek erase (\<lambda>s e. key s e > now) s = Some (e # es, s')" by (subst expire.simps) simp
      moreover have "set (e # es) = {e \<in> content s. key s e \<le> now}" using IH(5) s1(3,4) t False by auto
      ultimately show ?thesis using IH s1 t by (intro exI [of _ "e # es"] exI [of _ s']) auto
    qed
  qed
qed

end

interpretation tmq: timer_queue min_heap_top min_heap_erase members ev_timeout timers_ok
proof unfold_locales
  fix s e
  assume ok: "timers_ok s"
  show "finite (members s)" by (simp add: members_def)
  show "min_heap_top s = None \<Longrightarrow> members s = {}" using top_least [OF ok] by simp
  show "min_heap_top s = Some e \<Longrightarrow> e \<in> members s \<and> (\<forall>x \<in> members s. ev_timeout s e \<le> ev_timeout s x)"
    using top_least [OF ok] by simp
  show "e \<in> members s \<Longrightarrow> \<exists>s'. min_heap_erase s e = (0, s') \<and> timers_ok s' \<and> members s' = members s - {e}
      \<and> ev_timeout s' = ev_timeout s" by (rule erase_ok [OF ok])
qed

section \<open>The event loop's use of it\<close>

text \<open>
  \<open>timeout_next\<close> of \<open>event.c\<close>: how long the loop may sleep; \<open>None\<close> for the time is a failed
  \<open>gettime\<close>, the result \<open>Some None\<close> means waiting without limit, and \<open>None\<close> is a failure of the clock or
  of one of the two assertions. \<open>evutil_timersub\<close> borrows a second.
\<close>

definition evutil_timersub :: "timeval \<Rightarrow> timeval \<Rightarrow> timeval" where
  "evutil_timersub a b =
     (let sec = tv_sec a - tv_sec b; usec = tv_usec a - tv_usec b
      in if usec < 0 then Timeval (sec - 1) (usec + 1000000) else Timeval sec usec)"

definition timeout_next :: "timers \<Rightarrow> timeval option \<Rightarrow> timeval option option" where
  "timeout_next s time =
     (case min_heap_top s of
        None \<Rightarrow> Some None
      | Some ev \<Rightarrow> (case time of None \<Rightarrow> None
          | Some now \<Rightarrow> if ev_timeout s ev \<le> now then Some (Some (Timeval 0 0))
                        else let tv = evutil_timersub (ev_timeout s ev) now
                             in if tv_sec tv \<ge> 0 \<and> tv_usec tv \<ge> 0 then Some (Some tv) else None))"

text \<open>What \<open>timeout_process\<close> does to the heap alone: the timers leave it in this order.\<close>

definition expire_timers :: "timeval \<Rightarrow> timers \<Rightarrow> (event list \<times> timers) option" where
  "expire_timers now s =
     (if min_heap_empty s then Some ([], s)
      else expire min_heap_top min_heap_erase (\<lambda>s ev. ev_timeout s ev > now) s)"

definition normal_time :: "timeval \<Rightarrow> bool" where
  "normal_time t \<longleftrightarrow> 0 \<le> tv_usec t \<and> tv_usec t < 1000000"

lemma sub_normal:
  assumes "\<not> t \<le> now" "normal_time t" "normal_time now"
  shows "normal_time (evutil_timersub t now) \<and> 0 \<le> tv_sec (evutil_timersub t now)
    \<and> tv_sec t * 1000000 + tv_usec t = tv_sec now * 1000000 + tv_usec now
        + tv_sec (evutil_timersub t now) * 1000000 + tv_usec (evutil_timersub t now)"
  using assms by (auto simp: evutil_timersub_def Let_def normal_time_def less_eq_timeval_def split: if_splits)

lemma next_time_normal:
  assumes "timers_ok s" "normal_time now" "\<forall>e \<in> members s. normal_time (ev_timeout s e)"
  shows "timeout_next s (Some now) \<noteq> None"
  using top_least [OF assms(1)] assms(2,3) sub_normal [of "ev_timeout s x" now for x]
  by (auto simp: timeout_next_def Let_def normal_time_def split: option.split)

section \<open>Properties\<close>

text \<open>\<open>expire_timers\<close> returns and takes out exactly the timers that are due, each once, in the
  order of their timeouts; the others stay queued, and the array, the indices stored in the events and the
  heap order stay consistent.\<close>
lemma timeouts_in_order:
  assumes "timers_ok s"
  shows "\<exists>es s'. expire_timers now s = Some (es, s') \<and> timers_ok s' \<and> distinct es
    \<and> set es = {e \<in> members s. ev_timeout s e \<le> now} \<and> members s' = members s - set es
    \<and> sorted (map (ev_timeout s) es)"
proof (cases "min_heap_empty s")
  case True
  then have "members s = {}" by (simp add: min_heap_empty_def members_def)
  with True assms show ?thesis by (simp add: expire_timers_def)
next
  case False
  with tmq.expire_all_due [OF assms, of now] show ?thesis by (auto simp: expire_timers_def)
qed

definition no_timers :: timers where
  "no_timers = \<lparr>mh_p = [], mh_n = 0, mh_a = 0, min_heap_idx = (\<lambda>_. -1), ev_timeout = (\<lambda>e. Timeval (int (10 - e)) 0)\<rparr>"

lemma no_timers_ok: "timers_ok no_timers" "members no_timers = {}"
  by (simp_all add: no_timers_def timers_ok_def members_def heap_ordered_def)

definition three_timers :: timers where
  "three_timers = snd (min_heap_push (\<lambda>_. Some (\<lambda>_. 0)) (snd (min_heap_push (\<lambda>_. Some (\<lambda>_. 0))
     (snd (min_heap_push (\<lambda>_. Some (\<lambda>_. 0)) no_timers 4)) 8)) 6)"

lemma three_timers: "timers_ok three_timers" "members three_timers = {4, 6, 8}"
  "ev_timeout three_timers = ev_timeout no_timers"
proof -
  let ?mm = "\<lambda>_. Some (\<lambda>_. 0 :: nat)"
  have fst0: "fst (min_heap_push ?mm s e) = 0" for s e
    by (simp add: min_heap_push_def min_heap_reserve_def Let_def)
  have step: "timers_ok (snd (min_heap_push ?mm s e)) \<and> members (snd (min_heap_push ?mm s e)) = insert e (members s)
    \<and> ev_timeout (snd (min_heap_push ?mm s e)) = ev_timeout s" if "timers_ok s" "e \<notin> members s" for s e
    using push_ok [OF that, of ?mm 0] fst0 [of s e] by (metis one_neq_neg_one prod.collapse zero_neq_neg_one)
  note s1 = step [OF no_timers_ok(1), of 4]
  note s2 = step [of "snd (min_heap_push ?mm no_timers 4)" 8]
  note s3 = step [of "snd (min_heap_push ?mm (snd (min_heap_push ?mm no_timers 4)) 8)" 6]
  show "timers_ok three_timers" "members three_timers = {4, 6, 8}" "ev_timeout three_timers = ev_timeout no_timers"
    unfolding three_timers_def using s1 s2 s3 no_timers_ok(2) by auto
qed

lemma timeouts_in_order_witness:
  "\<exists>es s'. expire_timers (Timeval 4 0) three_timers = Some (es, s') \<and> set es = {6, 8} \<and> members s' = {4}"
proof -
  have "{e \<in> {4, 6, 8 :: nat}. ev_timeout no_timers e \<le> Timeval 4 0} = {6, 8}"
    by (auto simp: no_timers_def less_eq_timeval_def)
  with timeouts_in_order [OF three_timers(1), of "Timeval 4 0"] show ?thesis
    unfolding three_timers(2,3) by auto
qed

text \<open>C23: Adding, taking out the first, removing and rescheduling an event keep the invariant of the timer
  heap and change the set of queued events as they should: a failed allocation changes nothing, the event
  taken out is one with the least timeout, removing an event that is not queued is refused, and rescheduling
  only needs the one event's timeout to have changed.\<close>
theorem timer_heap_operations:
  assumes ok: "timers_ok s"
  shows "(e \<notin> members s \<longrightarrow> (case min_heap_push mm s e of (r, s') \<Rightarrow>
      r = 0 \<and> timers_ok s' \<and> members s' = insert e (members s) \<or> r = -1 \<and> s' = s))
    \<and> (case min_heap_pop s of (None, s') \<Rightarrow> members s = {} \<and> s' = s
      | (Some x, s') \<Rightarrow> timers_ok s' \<and> x \<in> members s \<and> members s' = members s - {x}
          \<and> (\<forall>y \<in> members s. ev_timeout s x \<le> ev_timeout s y))
    \<and> (case min_heap_erase s e of (r, s') \<Rightarrow> timers_ok s' \<and> members s' = members s - {e}
          \<and> (r = 0 \<longleftrightarrow> e \<in> members s))
    \<and> (e \<in> members s \<longrightarrow> (case min_heap_adjust mm (s\<lparr>ev_timeout := (ev_timeout s)(e := t)\<rparr>) e of (r, s') \<Rightarrow>
          r = 0 \<and> timers_ok s' \<and> members s' = members s \<and> ev_timeout s' e = t))"
proof (intro conjI impI)
  assume "e \<notin> members s"
  from push_ok [OF ok this] show "case min_heap_push mm s e of (r, s') \<Rightarrow>
      r = 0 \<and> timers_ok s' \<and> members s' = insert e (members s) \<or> r = -1 \<and> s' = s"
    by (auto split: prod.splits)
next
  show "case min_heap_pop s of (None, s') \<Rightarrow> members s = {} \<and> s' = s
      | (Some x, s') \<Rightarrow> timers_ok s' \<and> x \<in> members s \<and> members s' = members s - {x}
          \<and> (\<forall>y \<in> members s. ev_timeout s x \<le> ev_timeout s y)"
    using pop_ok [OF ok surjective_pairing] by (auto split: prod.splits option.splits)
next
  show "case min_heap_erase s e of (r, s') \<Rightarrow> timers_ok s' \<and> members s' = members s - {e} \<and> (r = 0 \<longleftrightarrow> e \<in> members s)"
  proof (cases "e \<in> members s")
    case True
    from erase_ok [OF ok True] obtain s' where "min_heap_erase s e = (0, s')" "timers_ok s'"
      "members s' = members s - {e}" by blast
    with True show ?thesis by simp
  next
    case False
    then show ?thesis using ok member_idx [OF ok] by (simp add: min_heap_erase_def)
  qed
next
  assume e: "e \<in> members s"
  let ?s = "s\<lparr>ev_timeout := (ev_timeout s)(e := t)\<rparr>"
  have "timers_ok (?s\<lparr>ev_timeout := ev_timeout s\<rparr>)" "e \<in> members ?s" using ok e by (simp_all add: members_def)
  from adjust_ok [OF this(1) _ this(2), of mm] obtain s' where
    "min_heap_adjust mm ?s e = (0, s')" "timers_ok s'" "members s' = members ?s" "ev_timeout s' = ev_timeout ?s" by auto
  moreover from this(3) have "members s' = members s" by (simp add: members_def)
  ultimately show "case min_heap_adjust mm ?s e of (r, s') \<Rightarrow>
      r = 0 \<and> timers_ok s' \<and> members s' = members s \<and> ev_timeout s' e = t" by simp
qed

theorem timer_heap_operations_witness: "timers_ok (snd (min_heap_erase three_timers 8)) \<and> members (snd (min_heap_erase three_timers 8)) = {4, 6}"
proof -
  have "case min_heap_erase three_timers 8 of (r, s') \<Rightarrow> timers_ok s' \<and> members s' = members three_timers - {8}
      \<and> (r = 0 \<longleftrightarrow> 8 \<in> members three_timers)"
    by (rule conjunct1 [OF conjunct2 [OF conjunct2 [OF timer_heap_operations [OF three_timers(1), of 8 "\<lambda>_. None" "Timeval 0 0"]]]])
  then have "timers_ok (snd (min_heap_erase three_timers 8))
      \<and> members (snd (min_heap_erase three_timers 8)) = members three_timers - {8}"
    by (simp add: case_prod_beta)
  moreover have "{4, 6, 8} - {8 :: nat} = {4, 6}" by auto
  ultimately show ?thesis by (simp only: three_timers(2))
qed

text \<open>The time the loop may sleep is exact: it is zero when a timer is due, otherwise a normalised,
  non-negative time after which the earliest timer, and no earlier one, is due; without timers it is unlimited.\<close>
lemma sleep_exact:
  assumes ok: "timers_ok s" and n: "normal_time now" "\<forall>e \<in> members s. normal_time (ev_timeout s e)"
  shows "case timeout_next s (Some now) of
      Some None \<Rightarrow> members s = {}
    | Some (Some d) \<Rightarrow> normal_time d \<and> 0 \<le> tv_sec d
        \<and> (\<exists>e \<in> members s. (\<forall>x \<in> members s. ev_timeout s e \<le> ev_timeout s x)
             \<and> (if ev_timeout s e \<le> now then d = Timeval 0 0
                else tv_sec (ev_timeout s e) * 1000000 + tv_usec (ev_timeout s e)
                     = tv_sec now * 1000000 + tv_usec now + tv_sec d * 1000000 + tv_usec d))
    | None \<Rightarrow> False"
proof (cases "min_heap_top s")
  case None
  with top_least [OF ok] show ?thesis by (simp add: timeout_next_def)
next
  case (Some e)
  with top_least [OF ok] have e: "e \<in> members s" "\<forall>x \<in> members s. ev_timeout s e \<le> ev_timeout s x" by auto
  then have ne: "normal_time (ev_timeout s e)" using n(2) by blast
  show ?thesis
  proof (cases "ev_timeout s e \<le> now")
    case True
    with Some e show ?thesis by (auto simp: timeout_next_def normal_time_def)
  next
    case False
    let ?d = "evutil_timersub (ev_timeout s e) now"
    have "normal_time ?d \<and> 0 \<le> tv_sec ?d \<and> tv_sec (ev_timeout s e) * 1000000 + tv_usec (ev_timeout s e)
        = tv_sec now * 1000000 + tv_usec now + tv_sec ?d * 1000000 + tv_usec ?d"
      by (rule sub_normal [OF False ne n(1)])
    with False Some e show ?thesis by (auto simp: timeout_next_def Let_def normal_time_def)
  qed
qed

lemma sleep_exact_witness: "\<exists>d. timeout_next three_timers (Some (Timeval 1 500000)) = Some (Some d) \<and> normal_time d"
proof -
  have "\<forall>e \<in> members three_timers. normal_time (ev_timeout three_timers e)"
    unfolding three_timers(3) by (simp add: no_timers_def normal_time_def)
  from sleep_exact [OF three_timers(1) _ this, of "Timeval 1 500000"] show ?thesis
    unfolding three_timers(2) by (auto simp: normal_time_def split: option.splits)
qed

end
