(* ===== verification/Event_Base.thy ===== *)
theory Event_Base
  imports Event_Flags Min_Heap "HOL-Library.Monad_Syntax"
begin

text \<open>
  The event base of libevent (\<open>event.c\<close>, \<open>evmap.c\<close>): the states of an event, the maps from
  descriptors and signals to events, the queues of active events, the timer heap, and the functions
  that add, remove and activate events.

  Events are addresses. A queue (\<open>TAILQ\<close>) is the list of its elements, a dlist (\<open>LIST\<close>) likewise;
  that the macros implement these lists is what \<open>Tail_Queue\<close> shows. The model is that of one thread:
  locks, waiting for another thread and waking it up are left out. There are no common timeouts
  (\<open>n_common_timeouts = 0\<close>), so that every timeout is in the heap. The monotonic clock is the field
  \<open>mono\<close>, which only the back end and callbacks advance. A failed assertion, \<open>event_errx\<close> and the
  use of a \<open>NULL\<close> pointer end in \<open>None\<close>.
\<close>

section \<open>State\<close>

datatype closure = EV_CLOSURE_EVENT | EV_CLOSURE_EVENT_SIGNAL | EV_CLOSURE_EVENT_PERSIST | EV_CLOSURE_CB_SELF
  | EV_CLOSURE_CB_FINALIZE | EV_CLOSURE_EVENT_FINALIZE | EV_CLOSURE_EVENT_FINALIZE_FREE

text \<open>
  \<open>ev_pncalls\<close> says whether the pointer of that name has been set: it then points to the local counter
  of a call of \<open>event_signal_closure\<close> for this event. The counter of the call that is running, and its
  event, are the field \<open>running_ncalls\<close> of the base; a write through the pointer after that call has
  returned is undefined.
\<close>

record event_rec =
  ev_base :: bool
  ev_fd :: int
  ev_events :: u16
  ev_res :: u16
  ev_pri :: nat
  ev_closure :: closure
  ev_flags :: u16
  ev_callback :: nat
  ev_arg :: nat
  ev_io_timeout :: timeval
  ev_ncalls :: int
  ev_pncalls :: bool

record evmap_io =
  io_events :: "event list"
  nread :: nat
  nwrite :: nat
  nclose :: nat

record base =
  evs :: "event \<Rightarrow> event_rec"
  timeheap :: timers
  activequeues :: "event list list"
  active_later_queue :: "event list"
  event_count :: int
  event_count_max :: int
  virtual_event_count :: int
  event_count_active :: int
  event_count_active_max :: int
  event_gotterm :: bool
  event_break :: bool
  event_continue :: bool
  event_running_priority :: int
  running_loop :: bool
  n_deferreds_queued :: int
  current_event :: "event option"
  io_nentries :: int
  io_map :: "int \<Rightarrow> evmap_io option"
  sig_nentries :: int
  sig_map :: "int \<Rightarrow> event list option"
  tv_cache :: timeval
  no_cache_time :: bool
  mono :: timeval
  max_dispatch_time :: timeval
  max_dispatch_callbacks :: int
  limit_callbacks_after_prio :: int
  running_ncalls :: "(event \<times> int) option"
  calls :: "(nat \<times> int \<times> u16 \<times> nat) list"

text \<open>What the code gets from its back end (\<open>struct eventop\<close>) and from the allocator.\<close>

record backend =
  evsel_add :: "int \<Rightarrow> u16 \<Rightarrow> u16 \<Rightarrow> bool"
  evsel_del :: "int \<Rightarrow> u16 \<Rightarrow> u16 \<Rightarrow> bool"
  evsig_add :: "int \<Rightarrow> bool"
  evsig_del :: "int \<Rightarrow> bool"
  map_realloc :: "int \<Rightarrow> bool"
  slot_calloc :: "int \<Rightarrow> bool"
  heap_realloc :: "nat \<Rightarrow> (nat \<Rightarrow> event) option"

definition upd :: "base \<Rightarrow> event \<Rightarrow> (event_rec \<Rightarrow> event_rec) \<Rightarrow> base" where
  "upd b e f = b\<lparr>evs := (evs b)(e := f (evs b e))\<rparr>"

definition set_flag :: "u16 \<Rightarrow> event_rec \<Rightarrow> event_rec" where
  "set_flag f r = r\<lparr>ev_flags := ev_flags r OR f\<rparr>"

definition clear_flag :: "u16 \<Rightarrow> event_rec \<Rightarrow> event_rec" where
  "clear_flag f r = r\<lparr>ev_flags := ev_flags r AND NOT f\<rparr>"

definition flags :: "base \<Rightarrow> event \<Rightarrow> u16" where
  "flags b e = ev_flags (evs b e)"

definition evutil_timeradd :: "timeval \<Rightarrow> timeval \<Rightarrow> timeval" where
  "evutil_timeradd a b =
     (let sec = tv_sec a + tv_sec b; usec = tv_usec a + tv_usec b
      in if usec \<ge> 1000000 then Timeval (sec + 1) (usec - 1000000) else Timeval sec usec)"

definition evutil_timerclear :: timeval where "evutil_timerclear = Timeval 0 0"

section \<open>The map from descriptors and signals to events\<close>

function grow_nentries :: "int \<Rightarrow> int \<Rightarrow> int" where
  "grow_nentries n slot = (if 0 < n \<and> n \<le> slot then grow_nentries (n * 2) slot else n)"
  by pat_completeness auto
termination by (relation "measure (\<lambda>(n, slot). nat (slot + 1 - n))") auto

declare grow_nentries.simps [simp del]

definition evmap_make_space :: "backend \<Rightarrow> int \<Rightarrow> int \<Rightarrow> int \<times> int" where
  "evmap_make_space env nentries slot =
     (if nentries \<le> slot then
        let n = grow_nentries (if nentries \<noteq> 0 then nentries else 32) slot
        in if map_realloc env n then (0, n) else (-1, nentries)
      else (0, nentries))"

definition evmap_io_init :: evmap_io where
  "evmap_io_init = \<lparr>io_events = [], nread = 0, nwrite = 0, nclose = 0\<rparr>"

definition old_events :: "evmap_io \<Rightarrow> u16" where
  "old_events ctx =
     (if nread ctx \<noteq> 0 then EV_READ else 0) OR (if nwrite ctx \<noteq> 0 then EV_WRITE else 0) OR
     (if nclose ctx \<noteq> 0 then EV_CLOSED else 0)"

text \<open>One of the three counters with the new events, and whether it has become one.\<close>

definition count_up :: "u16 \<Rightarrow> u16 \<Rightarrow> nat \<Rightarrow> nat \<times> u16" where
  "count_up events m n =
     (if events AND m \<noteq> 0 then (n + 1, if n + 1 = 1 then m else 0) else (n, 0))"

definition evmap_io_add :: "backend \<Rightarrow> base \<Rightarrow> int \<Rightarrow> event \<Rightarrow> int \<times> base" where
  "evmap_io_add env b fd e =
     (if fd < 0 then (0, b)
      else case evmap_make_space env (io_nentries b) fd of (r, n) \<Rightarrow>
        let b = b\<lparr>io_nentries := n\<rparr> in
        if r = -1 then (-1, b)
        else if io_map b fd = None \<and> \<not> slot_calloc env fd then (-1, b)
        else
          let ctx = (case io_map b fd of Some c \<Rightarrow> c | None \<Rightarrow> evmap_io_init);
              b = b\<lparr>io_map := (io_map b)(fd \<mapsto> ctx)\<rparr>;
              old = old_events ctx;
              events = ev_events (evs b e);
              (nr, r1) = count_up events EV_READ (nread ctx);
              (nw, r2) = count_up events EV_WRITE (nwrite ctx);
              (nc, r3) = count_up events EV_CLOSED (nclose ctx);
              res = r1 OR r2 OR r3
          in if int nr > 0xffff \<or> int nw > 0xffff \<or> int nc > 0xffff then (-1, b)
             else if res \<noteq> 0 \<and> \<not> evsel_add env fd old (events AND EV_ET OR res) then (-1, b)
             else (if res \<noteq> 0 then 1 else 0,
                   b\<lparr>io_map := (io_map b)(fd \<mapsto>
                     \<lparr>io_events = e # io_events ctx, nread = nr, nwrite = nw, nclose = nc\<rparr>)\<rparr>))"

definition count_down :: "u16 \<Rightarrow> u16 \<Rightarrow> nat \<Rightarrow> (nat \<times> u16) option" where
  "count_down events m n =
     (if events AND m \<noteq> 0 then if n = 0 then None else Some (n - 1, if n - 1 = 0 then m else 0)
      else Some (n, 0))"

definition evmap_io_del :: "backend \<Rightarrow> base \<Rightarrow> int \<Rightarrow> event \<Rightarrow> (int \<times> base) option" where
  "evmap_io_del env b fd e =
     (if fd < 0 then Some (0, b)
      else if fd \<ge> io_nentries b then Some (-1, b)
      else do {
        ctx \<leftarrow> io_map b fd;
        let old = old_events ctx;
        let events = ev_events (evs b e);
        (nr, r1) \<leftarrow> count_down events EV_READ (nread ctx);
        (nw, r2) \<leftarrow> count_down events EV_WRITE (nwrite ctx);
        (nc, r3) \<leftarrow> count_down events EV_CLOSED (nclose ctx);
        let res = r1 OR r2 OR r3;
        let retval = (if res \<noteq> 0 then if evsel_del env fd old res then 1 else -1 else 0);
        Some (retval, b\<lparr>io_map := (io_map b)(fd \<mapsto>
          \<lparr>io_events = remove1 e (io_events ctx), nread = nr, nwrite = nw, nclose = nc\<rparr>)\<rparr>) })"

text \<open>A negative signal number would index before the array.\<close>

definition evmap_signal_add :: "backend \<Rightarrow> base \<Rightarrow> int \<Rightarrow> event \<Rightarrow> (int \<times> base) option" where
  "evmap_signal_add env b sig e =
     (case evmap_make_space env (sig_nentries b) sig of (r, n) \<Rightarrow>
        let b = b\<lparr>sig_nentries := n\<rparr> in
        if r = -1 then Some (-1, b)
        else if sig < 0 then None
        else if sig_map b sig = None \<and> \<not> slot_calloc env sig then Some (-1, b)
        else
          let ctx = (case sig_map b sig of Some c \<Rightarrow> c | None \<Rightarrow> []);
              b = b\<lparr>sig_map := (sig_map b)(sig \<mapsto> ctx)\<rparr>
          in if ctx = [] \<and> \<not> evsig_add env (ev_fd (evs b e)) then Some (-1, b)
             else Some (1, b\<lparr>sig_map := (sig_map b)(sig \<mapsto> e # ctx)\<rparr>))"

definition evmap_signal_del :: "backend \<Rightarrow> base \<Rightarrow> int \<Rightarrow> event \<Rightarrow> (int \<times> base) option" where
  "evmap_signal_del env b sig e =
     (if sig \<ge> sig_nentries b then Some (-1, b)
      else if sig < 0 then None
      else do {
        ctx \<leftarrow> sig_map b sig;
        let ctx = remove1 e ctx;
        let b = b\<lparr>sig_map := (sig_map b)(sig \<mapsto> ctx)\<rparr>;
        if ctx = [] \<and> \<not> evsig_del env (ev_fd (evs b e)) then Some (-1, b) else Some (1, b) })"

section \<open>The queues\<close>

text \<open>\<open>~((flags) >> 4) & 1\<close>: internal events are not counted.\<close>

definition counted :: "u16 \<Rightarrow> int" where
  "counted f = uint (NOT (drop_bit 4 f) AND 1)"

definition DECR_EVENT_COUNT :: "base \<Rightarrow> u16 \<Rightarrow> base" where
  "DECR_EVENT_COUNT b f = b\<lparr>event_count := event_count b - counted f\<rparr>"

definition INCR_EVENT_COUNT :: "base \<Rightarrow> u16 \<Rightarrow> base" where
  "INCR_EVENT_COUNT b f =
     (let n = event_count b + counted f
      in b\<lparr>event_count := n, event_count_max := max (event_count_max b) n\<rparr>)"

definition event_queue_remove_inserted :: "base \<Rightarrow> event \<Rightarrow> base option" where
  "event_queue_remove_inserted b e =
     (if flags b e AND EVLIST_INSERTED = 0 then None
      else Some (upd (DECR_EVENT_COUNT b (flags b e)) e (clear_flag EVLIST_INSERTED)))"

definition event_queue_remove_active :: "base \<Rightarrow> event \<Rightarrow> base option" where
  "event_queue_remove_active b e =
     (if flags b e AND EVLIST_ACTIVE = 0 then None
      else
        let b = upd (DECR_EVENT_COUNT b (flags b e)) e (clear_flag EVLIST_ACTIVE);
            pri = ev_pri (evs b e)
        in Some (b\<lparr>event_count_active := event_count_active b - 1,
                   activequeues := (activequeues b)[pri := remove1 e (activequeues b ! pri)]\<rparr>))"

definition event_queue_remove_active_later :: "base \<Rightarrow> event \<Rightarrow> base option" where
  "event_queue_remove_active_later b e =
     (if flags b e AND EVLIST_ACTIVE_LATER = 0 then None
      else
        let b = upd (DECR_EVENT_COUNT b (flags b e)) e (clear_flag EVLIST_ACTIVE_LATER)
        in Some (b\<lparr>event_count_active := event_count_active b - 1,
                   active_later_queue := remove1 e (active_later_queue b)\<rparr>))"

definition event_queue_remove_timeout :: "base \<Rightarrow> event \<Rightarrow> base option" where
  "event_queue_remove_timeout b e =
     (if flags b e AND EVLIST_TIMEOUT = 0 then None
      else
        let b = upd (DECR_EVENT_COUNT b (flags b e)) e (clear_flag EVLIST_TIMEOUT)
        in Some (b\<lparr>timeheap := snd (min_heap_erase (timeheap b) e)\<rparr>))"

definition event_queue_insert_inserted :: "base \<Rightarrow> event \<Rightarrow> base option" where
  "event_queue_insert_inserted b e =
     (if flags b e AND EVLIST_INSERTED \<noteq> 0 then None
      else Some (upd (INCR_EVENT_COUNT b (flags b e)) e (set_flag EVLIST_INSERTED)))"

definition event_queue_insert_active :: "base \<Rightarrow> event \<Rightarrow> base option" where
  "event_queue_insert_active b e =
     (if flags b e AND EVLIST_ACTIVE \<noteq> 0 then Some b
      else
        let b = upd (INCR_EVENT_COUNT b (flags b e)) e (set_flag EVLIST_ACTIVE);
            n = event_count_active b + 1;
            pri = ev_pri (evs b e)
        in if pri < length (activequeues b)
           then Some (b\<lparr>event_count_active := n, event_count_active_max := max (event_count_active_max b) n,
                        activequeues := (activequeues b)[pri := activequeues b ! pri @ [e]]\<rparr>)
           else None)"

definition event_queue_insert_active_later :: "base \<Rightarrow> event \<Rightarrow> base option" where
  "event_queue_insert_active_later b e =
     (if flags b e AND (EVLIST_ACTIVE_LATER OR EVLIST_ACTIVE) \<noteq> 0 then Some b
      else
        let b = upd (INCR_EVENT_COUNT b (flags b e)) e (set_flag EVLIST_ACTIVE_LATER);
            n = event_count_active b + 1
        in if ev_pri (evs b e) < length (activequeues b)
           then Some (b\<lparr>event_count_active := n, event_count_active_max := max (event_count_active_max b) n,
                        active_later_queue := active_later_queue b @ [e]\<rparr>)
           else None)"

definition event_queue_insert_timeout :: "backend \<Rightarrow> base \<Rightarrow> event \<Rightarrow> base option" where
  "event_queue_insert_timeout env b e =
     (if flags b e AND EVLIST_TIMEOUT \<noteq> 0 then None
      else
        let b = upd (INCR_EVENT_COUNT b (flags b e)) e (set_flag EVLIST_TIMEOUT)
        in Some (b\<lparr>timeheap := snd (min_heap_push (heap_realloc env) (timeheap b) e)\<rparr>))"

fun make_later_active :: "event list \<Rightarrow> base \<Rightarrow> base option" where
  "make_later_active [] b = Some b"
| "make_later_active (e # rest) b =
     (let b = upd (b\<lparr>active_later_queue := rest\<rparr>) e
                (\<lambda>r. r\<lparr>ev_flags := (ev_flags r AND NOT EVLIST_ACTIVE_LATER) OR EVLIST_ACTIVE\<rparr>);
          pri = ev_pri (evs b e)
      in if pri < length (activequeues b)
         then make_later_active rest
                (b\<lparr>activequeues := (activequeues b)[pri := activequeues b ! pri @ [e]],
                   n_deferreds_queued := n_deferreds_queued b + (if ev_closure (evs b e) = EV_CLOSURE_CB_SELF then 1 else 0)\<rparr>)
         else None)"

definition event_queue_make_later_events_active :: "base \<Rightarrow> base option" where
  "event_queue_make_later_events_active b = make_later_active (active_later_queue b) b"

section \<open>Events\<close>

definition gettime :: "base \<Rightarrow> timeval" where
  "gettime b = (if tv_sec (tv_cache b) \<noteq> 0 then tv_cache b else mono b)"

text \<open>\<open>event_assign\<close> with a base; the new event must not be in any queue.\<close>

definition event_assign :: "base \<Rightarrow> event \<Rightarrow> int \<Rightarrow> u16 \<Rightarrow> nat \<Rightarrow> nat \<Rightarrow> int \<times> base" where
  "event_assign b e fd events callback arg =
     (let b = upd b e (\<lambda>r. r\<lparr>ev_base := True, ev_callback := callback, ev_arg := arg, ev_fd := fd,
                ev_events := events, ev_res := 0, ev_flags := EVLIST_INIT, ev_ncalls := 0, ev_pncalls := False\<rparr>)
      in if events AND EV_SIGNAL \<noteq> 0 \<and> events AND (EV_READ OR EV_WRITE OR EV_CLOSED) \<noteq> 0 then (-1, b)
         else
           let b = (if events AND EV_SIGNAL \<noteq> 0 then upd b e (\<lambda>r. r\<lparr>ev_closure := EV_CLOSURE_EVENT_SIGNAL\<rparr>)
                    else if events AND EV_PERSIST \<noteq> 0
                    then upd b e (\<lambda>r. r\<lparr>ev_io_timeout := evutil_timerclear, ev_closure := EV_CLOSURE_EVENT_PERSIST\<rparr>)
                    else upd b e (\<lambda>r. r\<lparr>ev_closure := EV_CLOSURE_EVENT\<rparr>));
               b = b\<lparr>timeheap := min_heap_elem_init (timeheap b) e\<rparr>
           in (0, upd b e (\<lambda>r. r\<lparr>ev_pri := length (activequeues b) div 2\<rparr>)))"

definition event_priority_set :: "base \<Rightarrow> event \<Rightarrow> int \<Rightarrow> int \<times> base" where
  "event_priority_set b e pri =
     (if flags b e AND EVLIST_ACTIVE \<noteq> 0 then (-1, b)
      else if pri < 0 \<or> pri \<ge> int (length (activequeues b)) then (-1, b)
      else (0, upd b e (\<lambda>r. r\<lparr>ev_pri := nat pri\<rparr>)))"

text \<open>\<open>event_pending\<close>; the remaining time it can report is left out.\<close>

definition event_pending :: "base \<Rightarrow> event \<Rightarrow> u16 \<Rightarrow> u16" where
  "event_pending b e event =
     (if \<not> ev_base (evs b e) then 0
      else
        let fl = 0;
            fl = (if flags b e AND EVLIST_INSERTED \<noteq> 0
                  then fl OR (ev_events (evs b e) AND (EV_READ OR EV_WRITE OR EV_CLOSED OR EV_SIGNAL)) else fl);
            fl = (if flags b e AND (EVLIST_ACTIVE OR EVLIST_ACTIVE_LATER) \<noteq> 0 then fl OR ev_res (evs b e) else fl);
            fl = (if flags b e AND EVLIST_TIMEOUT \<noteq> 0 then fl OR EV_TIMEOUT else fl);
            event = event AND (EV_TIMEOUT OR EV_READ OR EV_WRITE OR EV_CLOSED OR EV_SIGNAL)
        in fl AND event)"

text \<open>
  \<open>event_remove_timer_nolock_\<close> clears \<open>ev_io_timeout\<close>, which shares its storage with \<open>ev_ncalls\<close> and
  \<open>ev_pncalls\<close> of a signal event.
\<close>

definition event_remove_timer_nolock :: "base \<Rightarrow> event \<Rightarrow> (int \<times> base) option" where
  "event_remove_timer_nolock b e =
     (if flags b e AND EVLIST_TIMEOUT \<noteq> 0 then do {
        b \<leftarrow> event_queue_remove_timeout b e;
        Some (0, upd b e (\<lambda>r. if ev_events r AND EV_SIGNAL \<noteq> 0 then r\<lparr>ev_ncalls := 0, ev_pncalls := False\<rparr>
                               else r\<lparr>ev_io_timeout := evutil_timerclear\<rparr>)) }
      else Some (0, b))"

text \<open>A running loop over the calls of a signal event is told to stop: \<open>*ev->ev_pncalls = 0\<close>.\<close>

definition abort_signal_loop :: "base \<Rightarrow> event \<Rightarrow> base option" where
  "abort_signal_loop b e =
     (if ev_events (evs b e) AND EV_SIGNAL \<noteq> 0 \<and> ev_ncalls (evs b e) \<noteq> 0 \<and> ev_pncalls (evs b e)
      then case running_ncalls b of
             Some (x, n) \<Rightarrow> if x = e then Some (b\<lparr>running_ncalls := Some (e, 0)\<rparr>) else None
           | None \<Rightarrow> None
      else Some b)"

text \<open>The three parts of \<open>event_add_nolock_\<close>: room in the heap, the map, and the timeout.\<close>

definition add_to_map :: "backend \<Rightarrow> base \<Rightarrow> event \<Rightarrow> (int \<times> base) option" where
  "add_to_map env b e =
     (let events = ev_events (evs b e) in
      if events AND (EV_READ OR EV_WRITE OR EV_CLOSED OR EV_SIGNAL) \<noteq> 0 \<and>
         flags b e AND (EVLIST_INSERTED OR EVLIST_ACTIVE OR EVLIST_ACTIVE_LATER) = 0 then
        do {
          (res, b) \<leftarrow> (if events AND (EV_READ OR EV_WRITE OR EV_CLOSED) \<noteq> 0
                       then Some (evmap_io_add env b (ev_fd (evs b e)) e)
                       else evmap_signal_add env b (ev_fd (evs b e)) e);
          if res \<noteq> -1 then do { b \<leftarrow> event_queue_insert_inserted b e; Some (0, b) } else Some (-1, b) }
      else Some (0, b))"

definition set_timeout :: "backend \<Rightarrow> base \<Rightarrow> event \<Rightarrow> timeval \<Rightarrow> bool \<Rightarrow> base option" where
  "set_timeout env b e tv tv_is_absolute = do {
     let b = (if ev_closure (evs b e) = EV_CLOSURE_EVENT_PERSIST \<and> \<not> tv_is_absolute
              then upd b e (\<lambda>r. r\<lparr>ev_io_timeout := tv\<rparr>) else b);
     b \<leftarrow> (if flags b e AND EVLIST_TIMEOUT \<noteq> 0 then event_queue_remove_timeout b e else Some b);
     b \<leftarrow> (if flags b e AND EVLIST_ACTIVE \<noteq> 0 \<and> ev_res (evs b e) AND EV_TIMEOUT \<noteq> 0
           then do { b \<leftarrow> abort_signal_loop b e; event_queue_remove_active b e } else Some b);
     let now = gettime b;
     let t = (if tv_is_absolute then tv else evutil_timeradd now tv);
     let b = b\<lparr>timeheap := (timeheap b)\<lparr>ev_timeout := (ev_timeout (timeheap b))(e := t)\<rparr>\<rparr>;
     event_queue_insert_timeout env b e }"

definition event_add_nolock :: "backend \<Rightarrow> base \<Rightarrow> event \<Rightarrow> timeval option \<Rightarrow> bool \<Rightarrow> (int \<times> base) option" where
  "event_add_nolock env b e tv tv_is_absolute =
     (if flags b e AND NOT EVLIST_ALL \<noteq> 0 then None
      else if flags b e AND EVLIST_FINALIZING \<noteq> 0 then Some (-1, b)
      else
        (case (if tv \<noteq> None \<and> flags b e AND EVLIST_TIMEOUT = 0
               then min_heap_reserve (heap_realloc env) (timeheap b) (1 + min_heap_size (timeheap b))
               else (0, timeheap b)) of (r, h) \<Rightarrow>
          let b = b\<lparr>timeheap := h\<rparr> in
          if r = -1 then Some (-1, b)
          else do {
            (res, b) \<leftarrow> add_to_map env b e;
            (case tv of
               Some t \<Rightarrow> if res \<noteq> -1 then do { b \<leftarrow> set_timeout env b e t tv_is_absolute; Some (res, b) }
                         else Some (res, b)
             | None \<Rightarrow> Some (res, b)) }))"

datatype event_del_mode = EVENT_DEL_NOBLOCK | EVENT_DEL_BLOCK | EVENT_DEL_AUTOBLOCK | EVENT_DEL_EVEN_IF_FINALIZING

definition event_del_nolock :: "backend \<Rightarrow> base \<Rightarrow> event \<Rightarrow> event_del_mode \<Rightarrow> (int \<times> base) option" where
  "event_del_nolock env b e blocking =
     (if \<not> ev_base (evs b e) then Some (-1, b)
      else if blocking \<noteq> EVENT_DEL_EVEN_IF_FINALIZING \<and> flags b e AND EVLIST_FINALIZING \<noteq> 0 then Some (0, b)
      else if flags b e AND NOT EVLIST_ALL \<noteq> 0 then None
      else do {
        b \<leftarrow> abort_signal_loop b e;
        b \<leftarrow> (if flags b e AND EVLIST_TIMEOUT \<noteq> 0 then event_queue_remove_timeout b e else Some b);
        b \<leftarrow> (if flags b e AND EVLIST_ACTIVE \<noteq> 0 then event_queue_remove_active b e
              else if flags b e AND EVLIST_ACTIVE_LATER \<noteq> 0 then event_queue_remove_active_later b e
              else Some b);
        if flags b e AND EVLIST_INSERTED \<noteq> 0 then do {
          b \<leftarrow> event_queue_remove_inserted b e;
          (res, b) \<leftarrow> (if ev_events (evs b e) AND (EV_READ OR EV_WRITE OR EV_CLOSED) \<noteq> 0
                       then evmap_io_del env b (ev_fd (evs b e)) e
                       else evmap_signal_del env b (ev_fd (evs b e)) e);
          Some (if res = 1 then 0 else res, b) }
        else Some (0, b) })"

definition event_callback_activate_nolock :: "base \<Rightarrow> event \<Rightarrow> (int \<times> base) option" where
  "event_callback_activate_nolock b e =
     (if flags b e AND EVLIST_FINALIZING \<noteq> 0 then Some (0, b)
      else
        let active = flags b e AND EVLIST_ACTIVE \<noteq> 0; later = flags b e AND EVLIST_ACTIVE_LATER \<noteq> 0 in
        if active \<and> later then None
        else if later then do {
          b \<leftarrow> event_queue_remove_active_later b e;
          b \<leftarrow> event_queue_insert_active b e;
          Some (0, b) }
        else if active then Some (0, b)
        else do { b \<leftarrow> event_queue_insert_active b e; Some (1, b) })"

definition event_active_nolock :: "base \<Rightarrow> event \<Rightarrow> u16 \<Rightarrow> int \<Rightarrow> base option" where
  "event_active_nolock b e res ncalls =
     (if flags b e AND EVLIST_FINALIZING \<noteq> 0 then Some b
      else
        let active = flags b e AND EVLIST_ACTIVE \<noteq> 0; later = flags b e AND EVLIST_ACTIVE_LATER \<noteq> 0 in
        if active \<and> later then None
        else if active then Some (upd b e (\<lambda>r. r\<lparr>ev_res := ev_res r OR res\<rparr>))
        else do {
          let b = upd b e (\<lambda>r. r\<lparr>ev_res := (if later then ev_res r OR res else res)\<rparr>);
          let b = (if int (ev_pri (evs b e)) < event_running_priority b then b\<lparr>event_continue := True\<rparr> else b);
          let b = (if ev_events (evs b e) AND EV_SIGNAL \<noteq> 0
                   then upd b e (\<lambda>r. r\<lparr>ev_ncalls := ncalls, ev_pncalls := False\<rparr>) else b);
          (r, b) \<leftarrow> event_callback_activate_nolock b e;
          Some b })"

definition event_callback_activate_later_nolock :: "base \<Rightarrow> event \<Rightarrow> (int \<times> base) option" where
  "event_callback_activate_later_nolock b e =
     (if flags b e AND (EVLIST_ACTIVE OR EVLIST_ACTIVE_LATER) \<noteq> 0 then Some (0, b)
      else do { b \<leftarrow> event_queue_insert_active_later b e; Some (1, b) })"

definition event_active_later_nolock :: "base \<Rightarrow> event \<Rightarrow> u16 \<Rightarrow> base option" where
  "event_active_later_nolock b e res =
     (if flags b e AND (EVLIST_ACTIVE OR EVLIST_ACTIVE_LATER) \<noteq> 0
      then Some (upd b e (\<lambda>r. r\<lparr>ev_res := ev_res r OR res\<rparr>))
      else do {
        (r, b) \<leftarrow> event_callback_activate_later_nolock (upd b e (\<lambda>r. r\<lparr>ev_res := res\<rparr>)) e;
        Some b })"

definition event_callback_cancel_nolock :: "backend \<Rightarrow> base \<Rightarrow> event \<Rightarrow> bool \<Rightarrow> (int \<times> base) option" where
  "event_callback_cancel_nolock env b e even_if_finalizing =
     (if flags b e AND EVLIST_FINALIZING \<noteq> 0 \<and> \<not> even_if_finalizing then Some (0, b)
      else if flags b e AND EVLIST_INIT \<noteq> 0
      then event_del_nolock env b e (if even_if_finalizing then EVENT_DEL_EVEN_IF_FINALIZING else EVENT_DEL_AUTOBLOCK)
      else
        let active = flags b e AND EVLIST_ACTIVE \<noteq> 0; later = flags b e AND EVLIST_ACTIVE_LATER \<noteq> 0 in
        if active \<and> later then None
        else if active then do { b \<leftarrow> event_queue_remove_active b e; Some (0, b) }
        else if later then do { b \<leftarrow> event_queue_remove_active_later b e; Some (0, b) }
        else Some (0, b))"

text \<open>The events of a ready descriptor or signal, in the order of the list.\<close>

fun active_io_list :: "event list \<Rightarrow> u16 \<Rightarrow> base \<Rightarrow> base option" where
  "active_io_list [] events b = Some b"
| "active_io_list (e # es) events b =
     (if ev_events (evs b e) AND events \<noteq> 0 then do {
        b \<leftarrow> event_active_nolock b e (ev_events (evs b e) AND events) 1;
        active_io_list es events b }
      else active_io_list es events b)"

definition evmap_io_active :: "base \<Rightarrow> int \<Rightarrow> u16 \<Rightarrow> base option" where
  "evmap_io_active b fd events =
     (if fd < 0 \<or> fd \<ge> io_nentries b then Some b
      else case io_map b fd of None \<Rightarrow> Some b | Some ctx \<Rightarrow> active_io_list (io_events ctx) events b)"

text \<open>The number of calls is passed as a \<open>short\<close>.\<close>

definition as_short :: "int \<Rightarrow> int" where
  "as_short n = sint (word_of_int n :: u16)"

fun active_signal_list :: "event list \<Rightarrow> int \<Rightarrow> base \<Rightarrow> base option" where
  "active_signal_list [] ncalls b = Some b"
| "active_signal_list (e # es) ncalls b = do {
     b \<leftarrow> event_active_nolock b e EV_SIGNAL (as_short ncalls);
     active_signal_list es ncalls b }"

definition evmap_signal_active :: "base \<Rightarrow> int \<Rightarrow> int \<Rightarrow> base option" where
  "evmap_signal_active b sig ncalls =
     (if sig < 0 \<or> sig \<ge> sig_nentries b then Some b
      else case sig_map b sig of None \<Rightarrow> Some b | Some ctx \<Rightarrow> active_signal_list ctx ncalls b)"

section \<open>The public functions\<close>

definition event_add :: "backend \<Rightarrow> base \<Rightarrow> event \<Rightarrow> timeval option \<Rightarrow> (int \<times> base) option" where
  "event_add env b e tv = (if \<not> ev_base (evs b e) then Some (-1, b) else event_add_nolock env b e tv False)"

definition event_del_with :: "backend \<Rightarrow> base \<Rightarrow> event \<Rightarrow> event_del_mode \<Rightarrow> (int \<times> base) option" where
  "event_del_with env b e blocking = (if \<not> ev_base (evs b e) then Some (-1, b) else event_del_nolock env b e blocking)"

definition event_del :: "backend \<Rightarrow> base \<Rightarrow> event \<Rightarrow> (int \<times> base) option" where
  "event_del env b e = event_del_with env b e EVENT_DEL_AUTOBLOCK"

definition event_remove_timer :: "base \<Rightarrow> event \<Rightarrow> (int \<times> base) option" where
  "event_remove_timer b e = (if \<not> ev_base (evs b e) then Some (-1, b) else event_remove_timer_nolock b e)"

definition event_active :: "base \<Rightarrow> event \<Rightarrow> u16 \<Rightarrow> int \<Rightarrow> base option" where
  "event_active b e res ncalls =
     (if \<not> ev_base (evs b e) then Some b else event_active_nolock b e res (as_short ncalls))"

definition event_active_later :: "base \<Rightarrow> event \<Rightarrow> u16 \<Rightarrow> base option" where
  "event_active_later b e res = (if \<not> ev_base (evs b e) then None else event_active_later_nolock b e res)"

definition N_ACTIVE_CALLBACKS :: "base \<Rightarrow> int" where
  "N_ACTIVE_CALLBACKS b = event_count_active b"

definition EVENT_MAX_PRIORITIES :: int where "EVENT_MAX_PRIORITIES = 256"

text \<open>\<open>calloc\<close> says whether the new queues can be allocated; the old ones are gone when it fails.\<close>

definition event_base_priority_init :: "bool \<Rightarrow> base \<Rightarrow> int \<Rightarrow> int \<times> base" where
  "event_base_priority_init calloc b npriorities =
     (if N_ACTIVE_CALLBACKS b \<noteq> 0 \<or> npriorities < 1 \<or> npriorities \<ge> EVENT_MAX_PRIORITIES then (-1, b)
      else if npriorities = int (length (activequeues b)) then (0, b)
      else if \<not> calloc then (-1, b\<lparr>activequeues := []\<rparr>)
      else (0, b\<lparr>activequeues := replicate (nat npriorities) []\<rparr>))"

definition event_haveevents :: "base \<Rightarrow> bool" where
  "event_haveevents b \<longleftrightarrow> virtual_event_count b > 0 \<or> event_count b > 0"

end
