(* ===== verification/Event_Inv.thy ===== *)
theory Event_Inv
  imports Event_Base
begin

text \<open>
  The invariant of an event base. The flags of an event say in which queues it is: bit 0 the timer
  heap, bit 1 the maps, bit 3 the active queue of its priority, bit 5 the queue of later events.
  \<open>queues_ok\<close> ties the flags to the queues and to the two counters, \<open>maps_ok\<close> to the lists and
  counters of the maps. For each queue operation and each map operation it is shown that it returns,
  what it changes and that the invariant stays.
\<close>

section \<open>Bits\<close>

text \<open>The masks are kept folded: a test of a mask is a test of bits.\<close>

lemma bit_power: "k < 16 \<Longrightarrow> bit ((2 :: u16) ^ k) n \<longleftrightarrow> n = k"
  by (auto simp: bit_exp_iff possible_bit_word)

lemma bit_EVLIST [simp]:
  "bit EVLIST_TIMEOUT n \<longleftrightarrow> n = 0" "bit EVLIST_INSERTED n \<longleftrightarrow> n = 1" "bit EVLIST_ACTIVE n \<longleftrightarrow> n = 3"
  "bit EVLIST_INTERNAL n \<longleftrightarrow> n = 4" "bit EVLIST_ACTIVE_LATER n \<longleftrightarrow> n = 5" "bit EVLIST_FINALIZING n \<longleftrightarrow> n = 6"
  "bit EVLIST_INIT n \<longleftrightarrow> n = 7"
  unfolding EVLIST_TIMEOUT_def EVLIST_INSERTED_def EVLIST_ACTIVE_def EVLIST_INTERNAL_def
      EVLIST_ACTIVE_LATER_def EVLIST_FINALIZING_def EVLIST_INIT_def
  using bit_power [of 0 n] bit_power [of 1 n] bit_power [of 3 n] bit_power [of 4 n] bit_power [of 5 n]
    bit_power [of 6 n] bit_power [of 7 n] by simp_all

lemma and_EVLIST [simp]:
  "x AND EVLIST_TIMEOUT = 0 \<longleftrightarrow> \<not> bit x 0" "x AND EVLIST_INSERTED = 0 \<longleftrightarrow> \<not> bit x 1"
  "x AND EVLIST_ACTIVE = 0 \<longleftrightarrow> \<not> bit x 3" "x AND EVLIST_INTERNAL = 0 \<longleftrightarrow> \<not> bit x 4"
  "x AND EVLIST_ACTIVE_LATER = 0 \<longleftrightarrow> \<not> bit x 5" "x AND EVLIST_FINALIZING = 0 \<longleftrightarrow> \<not> bit x 6"
  "x AND EVLIST_INIT = 0 \<longleftrightarrow> \<not> bit x 7"
  by (simp_all add: EVLIST_TIMEOUT_def EVLIST_INSERTED_def EVLIST_ACTIVE_def EVLIST_INTERNAL_def
      EVLIST_ACTIVE_LATER_def EVLIST_FINALIZING_def EVLIST_INIT_def)

lemma and_EV [simp]:
  "x AND EV_TIMEOUT = 0 \<longleftrightarrow> \<not> bit x 0" "x AND EV_READ = 0 \<longleftrightarrow> \<not> bit x 1" "x AND EV_WRITE = 0 \<longleftrightarrow> \<not> bit x 2"
  "x AND EV_SIGNAL = 0 \<longleftrightarrow> \<not> bit x 3" "x AND EV_PERSIST = 0 \<longleftrightarrow> \<not> bit x 4" "x AND EV_ET = 0 \<longleftrightarrow> \<not> bit x 5"
  "x AND EV_FINALIZE = 0 \<longleftrightarrow> \<not> bit x 6" "x AND EV_CLOSED = 0 \<longleftrightarrow> \<not> bit x 7"
  by (simp_all add: EV_TIMEOUT_def EV_READ_def EV_WRITE_def EV_SIGNAL_def EV_PERSIST_def EV_ET_def
      EV_FINALIZE_def EV_CLOSED_def)

lemma bit_u16: "bit (x :: u16) n \<Longrightarrow> n < 16"
  using bit_imp_le_length [of x n] by simp

lemma bit_clear [simp]:
  "bit (x AND NOT (y :: u16)) n \<longleftrightarrow> bit x n \<and> \<not> bit y n"
  using bit_u16 [of x n] by (auto simp: bit_simps)

lemma bit_EVLIST_ALL [simp]: "bit EVLIST_ALL n \<longleftrightarrow> n < 8"
proof -
  have "EVLIST_ALL = mask 8" by (simp add: EVLIST_ALL_def mask_eq_exp_minus_1)
  moreover have "bit (mask 8 :: u16) n \<longleftrightarrow> n < 8" by (auto simp: bit_mask_iff possible_bit_word)
  ultimately show ?thesis by metis
qed

lemma flag_eq_iff: "(x :: u16) = y \<longleftrightarrow> (\<forall>n. bit x n = bit y n)"
  using bit_word_eqI [of x y] by auto

lemma within_ALL [simp]: "x AND NOT EVLIST_ALL = 0 \<longleftrightarrow> (\<forall>n. bit x n \<longrightarrow> n < 8)"
  by (auto simp: flag_eq_iff)

lemma counted_eq [simp]: "counted f = (if bit f 4 then 0 else 1)"
proof -
  have "NOT (drop_bit 4 f) AND 1 = (if bit f 4 then 0 else (1 :: u16))"
    by (simp add: and_one_eq mod_2_eq_odd even_not_iff bit_iff_odd_drop_bit)
  then show ?thesis by (simp add: counted_def)
qed

section \<open>The invariant of the queues\<close>

text \<open>An event is queued when it is in one of the four kinds of queues.\<close>

definition queued :: "u16 \<Rightarrow> bool" where
  "queued f \<longleftrightarrow> bit f 0 \<or> bit f 1 \<or> bit f 3 \<or> bit f 5"

text \<open>What an event with flags \<open>f\<close> contributes to \<open>event_count\<close> and to \<open>event_count_active\<close>.\<close>

definition tally :: "u16 \<Rightarrow> int" where
  "tally f = (if bit f 4 then 0 else of_bool (bit f 0) + of_bool (bit f 1) + of_bool (bit f 3) + of_bool (bit f 5))"

definition heat :: "u16 \<Rightarrow> int" where
  "heat f = of_bool (bit f 3) + of_bool (bit f 5)"

definition total :: "(u16 \<Rightarrow> int) \<Rightarrow> (event \<Rightarrow> u16) \<Rightarrow> int" where
  "total w F = (\<Sum>e | queued (F e). w (F e))"

definition counts_ok :: "int \<Rightarrow> int \<Rightarrow> (event \<Rightarrow> u16) \<Rightarrow> bool" where
  "counts_ok n na F \<longleftrightarrow> finite {e. queued (F e)} \<and> n = total tally F \<and> na = total heat F"

definition heap_ok :: "timers \<Rightarrow> (event \<Rightarrow> u16) \<Rightarrow> bool" where
  "heap_ok h F \<longleftrightarrow> timers_ok h \<and> (\<forall>e. e \<in> members h \<longleftrightarrow> bit (F e) 0)"

definition active_ok :: "event list list \<Rightarrow> (event \<Rightarrow> u16) \<Rightarrow> (event \<Rightarrow> nat) \<Rightarrow> bool" where
  "active_ok qs F pri \<longleftrightarrow> (\<forall>p < length qs. distinct (qs ! p))
     \<and> (\<forall>p < length qs. \<forall>e. e \<in> set (qs ! p) \<longleftrightarrow> bit (F e) 3 \<and> pri e = p)"

definition later_ok :: "event list \<Rightarrow> (event \<Rightarrow> u16) \<Rightarrow> bool" where
  "later_ok l F \<longleftrightarrow> distinct l \<and> (\<forall>e. e \<in> set l \<longleftrightarrow> bit (F e) 5)"

definition flags_ok :: "nat \<Rightarrow> (event \<Rightarrow> u16) \<Rightarrow> (event \<Rightarrow> nat) \<Rightarrow> bool" where
  "flags_ok n F pri \<longleftrightarrow> (\<forall>e k. bit (F e) k \<longrightarrow> k < 8) \<and> (\<forall>e. \<not> (bit (F e) 3 \<and> bit (F e) 5))
     \<and> (\<forall>e. bit (F e) 3 \<or> bit (F e) 5 \<longrightarrow> pri e < n)"

definition pris :: "base \<Rightarrow> event \<Rightarrow> nat" where
  "pris b e = ev_pri (evs b e)"

definition queues_ok :: "base \<Rightarrow> bool" where
  "queues_ok b \<longleftrightarrow> heap_ok (timeheap b) (flags b) \<and> active_ok (activequeues b) (flags b) (pris b)
     \<and> later_ok (active_later_queue b) (flags b) \<and> flags_ok (length (activequeues b)) (flags b) (pris b)
     \<and> counts_ok (event_count b) (event_count_active b) (flags b)"

lemma total_upd:
  assumes fin: "finite {e. queued (F e)}" and w: "\<And>f. \<not> queued f \<Longrightarrow> w f = 0"
  shows "total w (F(e := f)) = total w F - w (F e) + w f"
proof -
  let ?A = "{x. queued (F x)}"
  have on: "total w G = (\<Sum>x \<in> insert e ?A. w (G x))" if "\<forall>x. x \<noteq> e \<longrightarrow> G x = F x" for G
    unfolding total_def
  proof (rule sum.mono_neutral_left)
    show "{x. queued (G x)} \<subseteq> insert e ?A" using that by auto
    show "\<forall>x \<in> insert e ?A - {x. queued (G x)}. w (G x) = 0" using w by auto
  qed (simp add: fin)
  have "(\<Sum>x \<in> insert e ?A. w ((F(e := f)) x)) = w f + (\<Sum>x \<in> ?A - {e}. w (F x))"
    using fin by (simp add: sum.insert_remove)
  moreover have "(\<Sum>x \<in> insert e ?A. w (F x)) = w (F e) + (\<Sum>x \<in> ?A - {e}. w (F x))"
    using fin by (simp add: sum.insert_remove)
  ultimately show ?thesis using on [of F] on [of "F(e := f)"] by simp
qed

lemma counts_upd:
  assumes "counts_ok n na F" and "n' = n - tally (F e) + tally f" and "na' = na - heat (F e) + heat f"
  shows "counts_ok n' na' (F(e := f))"
proof -
  have fin: "finite {x. queued (F x)}" using assms(1) by (simp add: counts_ok_def)
  moreover have "{x. queued ((F(e := f)) x)} \<subseteq> insert e {x. queued (F x)}" by auto
  ultimately have "finite {x. queued ((F(e := f)) x)}" by (meson finite.insertI finite_subset)
  with assms total_upd [OF fin, of tally e f] total_upd [OF fin, of heat e f] show ?thesis
    by (simp add: counts_ok_def tally_def heat_def queued_def)
qed

lemma heap_cong: "\<forall>e. bit (G e) 0 = bit (F e) 0 \<Longrightarrow> heap_ok h F \<Longrightarrow> heap_ok h G"
  by (simp add: heap_ok_def)

lemma active_cong: "\<forall>e. bit (G e) 3 = bit (F e) 3 \<Longrightarrow> \<forall>e. bit (F e) 3 \<longrightarrow> r e = q e \<Longrightarrow> active_ok qs F q \<Longrightarrow> active_ok qs G r"
  by (auto simp: active_ok_def)

lemma later_cong: "\<forall>e. bit (G e) 5 = bit (F e) 5 \<Longrightarrow> later_ok l F \<Longrightarrow> later_ok l G"
  by (simp add: later_ok_def)

lemma flags_upd [simp]: "flags (upd b e g) = (flags b)(e := ev_flags (g (evs b e)))"
  by (simp add: upd_def flags_def fun_eq_iff)

lemma pris_upd [simp]: "pris (upd b e g) = (pris b)(e := ev_pri (g (evs b e)))"
  by (simp add: upd_def pris_def fun_eq_iff)

lemma set_clear_sel [simp]:
  "ev_flags (set_flag f r) = ev_flags r OR f" "ev_pri (set_flag f r) = ev_pri r"
  "ev_flags (clear_flag f r) = ev_flags r AND NOT f" "ev_pri (clear_flag f r) = ev_pri r"
  by (simp_all add: set_flag_def clear_flag_def)

text \<open>Everything but the flags, the queues and their counters stays.\<close>

definition rest :: "base \<Rightarrow> base" where
  "rest b = b\<lparr>evs := undefined, timeheap := undefined, activequeues := map (\<lambda>_. []) (activequeues b),
     active_later_queue := [], event_count := 0, event_count_max := 0, event_count_active := 0,
     event_count_active_max := 0\<rparr>"

definition moved :: "event \<Rightarrow> u16 \<Rightarrow> base \<Rightarrow> base \<Rightarrow> bool" where
  "moved e f b b' \<longleftrightarrow> evs b' = (evs b)(e := (evs b e)\<lparr>ev_flags := f\<rparr>) \<and> rest b' = rest b"

lemma upd_sel [simp]:
  "timeheap (upd b e g) = timeheap b" "activequeues (upd b e g) = activequeues b"
  "active_later_queue (upd b e g) = active_later_queue b" "event_count (upd b e g) = event_count b"
  "event_count_active (upd b e g) = event_count_active b" "rest (upd b e g) = rest b"
  "evs (upd b e g) = (evs b)(e := g (evs b e))"
  by (simp_all add: upd_def rest_def)

text \<open>A fact about the flags or priorities of a base is one about its field \<open>evs\<close>.\<close>

lemma flags_evs: "evs b' = evs b \<Longrightarrow> flags b' = flags b" "evs b' = evs b \<Longrightarrow> pris b' = pris b"
  by (simp_all add: flags_def pris_def fun_eq_iff)

lemma evs_frame [simp]:
  "flags (b\<lparr>timeheap := h\<rparr>) = flags b" "pris (b\<lparr>timeheap := h\<rparr>) = pris b"
  "flags (b\<lparr>event_count := n\<rparr>) = flags b" "pris (b\<lparr>event_count := n\<rparr>) = pris b"
  "flags (b\<lparr>event_count_max := n\<rparr>) = flags b" "pris (b\<lparr>event_count_max := n\<rparr>) = pris b"
  "flags (b\<lparr>event_count_active := n\<rparr>) = flags b" "pris (b\<lparr>event_count_active := n\<rparr>) = pris b"
  "flags (b\<lparr>event_count_active_max := n\<rparr>) = flags b" "pris (b\<lparr>event_count_active_max := n\<rparr>) = pris b"
  "flags (b\<lparr>activequeues := qs\<rparr>) = flags b" "pris (b\<lparr>activequeues := qs\<rparr>) = pris b"
  "flags (b\<lparr>active_later_queue := l\<rparr>) = flags b" "pris (b\<lparr>active_later_queue := l\<rparr>) = pris b"
  "flags (b\<lparr>n_deferreds_queued := n\<rparr>) = flags b" "pris (b\<lparr>n_deferreds_queued := n\<rparr>) = pris b"
  "flags (b\<lparr>event_continue := c\<rparr>) = flags b" "pris (b\<lparr>event_continue := c\<rparr>) = pris b"
  "flags (b\<lparr>running_ncalls := rn\<rparr>) = flags b" "pris (b\<lparr>running_ncalls := rn\<rparr>) = pris b"
  "flags (b\<lparr>io_map := im\<rparr>) = flags b" "pris (b\<lparr>io_map := im\<rparr>) = pris b"
  "flags (b\<lparr>io_nentries := n\<rparr>) = flags b" "pris (b\<lparr>io_nentries := n\<rparr>) = pris b"
  "flags (b\<lparr>sig_map := sm\<rparr>) = flags b" "pris (b\<lparr>sig_map := sm\<rparr>) = pris b"
  "flags (b\<lparr>sig_nentries := n\<rparr>) = flags b" "pris (b\<lparr>sig_nentries := n\<rparr>) = pris b"
  by (simp_all add: flags_def pris_def fun_eq_iff)

lemma rest_frame [simp]:
  "rest (b\<lparr>timeheap := h\<rparr>) = rest b" "rest (b\<lparr>event_count := n\<rparr>) = rest b"
  "rest (b\<lparr>event_count_max := n\<rparr>) = rest b" "rest (b\<lparr>event_count_active := n\<rparr>) = rest b"
  "rest (b\<lparr>event_count_active_max := n\<rparr>) = rest b" "rest (b\<lparr>active_later_queue := l\<rparr>) = rest b"
  "length qs = length (activequeues b) \<Longrightarrow> rest (b\<lparr>activequeues := qs\<rparr>) = rest b"
  by (simp_all add: rest_def map_replicate_const)

lemma ev_flags_flags: "ev_flags (evs b e) = flags b e" and ev_pri_pris: "ev_pri (evs b e) = pris b e"
  by (simp_all add: flags_def pris_def)

lemma set_flag_eq: "set_flag f (evs b e) = (evs b e)\<lparr>ev_flags := flags b e OR f\<rparr>"
  and clear_flag_eq: "clear_flag f (evs b e) = (evs b e)\<lparr>ev_flags := flags b e AND NOT f\<rparr>"
  by (simp_all add: set_flag_def clear_flag_def flags_def)

lemma pris_same [simp]: "(pris b)(e := pris b e) = pris b"
  by simp

lemma bit_or_u16 [simp]: "bit ((x :: u16) OR y) n \<longleftrightarrow> bit x n \<or> bit y n"
  by (simp add: bit_or_iff)

text \<open>
  The parts of the invariant after the flags of one event have become \<open>f\<close>: a part that does not look at
  the changed flags stays (\<open>queue_frame\<close>); the whole is put together by \<open>queues_set\<close>.
\<close>

lemma heap_frame:
  "queues_ok b \<Longrightarrow> bit f 0 = bit (flags b e) 0 \<Longrightarrow> heap_ok (timeheap b) ((flags b)(e := f))"
  by (rule heap_cong [of _ "flags b"]) (auto simp: queues_ok_def)

lemma active_frame:
  "queues_ok b \<Longrightarrow> bit f 3 = bit (flags b e) 3 \<Longrightarrow> active_ok (activequeues b) ((flags b)(e := f)) (pris b)"
  by (rule active_cong [of _ "flags b" _ "pris b"]) (auto simp: queues_ok_def)

lemma later_frame:
  "queues_ok b \<Longrightarrow> bit f 5 = bit (flags b e) 5 \<Longrightarrow> later_ok (active_later_queue b) ((flags b)(e := f))"
  by (rule later_cong [of _ "flags b"]) (auto simp: queues_ok_def)

lemma active_insert:
  "queues_ok b \<Longrightarrow> \<not> bit (flags b e) 3 \<Longrightarrow> pris b e < length (activequeues b) \<Longrightarrow> bit f 3 \<Longrightarrow>
    active_ok ((activequeues b)[pris b e := activequeues b ! pris b e @ [e]]) ((flags b)(e := f)) (pris b)"
  by (auto simp: queues_ok_def active_ok_def nth_list_update)

lemma active_remove:
  "queues_ok b \<Longrightarrow> bit (flags b e) 3 \<Longrightarrow> \<not> bit f 3 \<Longrightarrow>
    active_ok ((activequeues b)[pris b e := remove1 e (activequeues b ! pris b e)]) ((flags b)(e := f)) (pris b)"
  by (auto simp: queues_ok_def active_ok_def flags_ok_def nth_list_update)

lemma later_insert:
  "queues_ok b \<Longrightarrow> \<not> bit (flags b e) 5 \<Longrightarrow> bit f 5 \<Longrightarrow> later_ok (active_later_queue b @ [e]) ((flags b)(e := f))"
  by (auto simp: queues_ok_def later_ok_def)

lemma later_remove:
  "queues_ok b \<Longrightarrow> bit (flags b e) 5 \<Longrightarrow> \<not> bit f 5 \<Longrightarrow> later_ok (remove1 e (active_later_queue b)) ((flags b)(e := f))"
  by (auto simp: queues_ok_def later_ok_def)

lemmas queue_frame = heap_frame active_frame later_frame active_insert active_remove later_insert later_remove

lemma active_pri: "queues_ok b \<Longrightarrow> bit (flags b e) 3 \<or> bit (flags b e) 5 \<Longrightarrow> pris b e < length (activequeues b)"
  by (auto simp: queues_ok_def flags_ok_def)

lemma active_once: "queues_ok b \<Longrightarrow> \<not> (bit (flags b e) 3 \<and> bit (flags b e) 5)"
  by (auto simp: queues_ok_def flags_ok_def)

lemma moved_flags: "moved e f b b' \<Longrightarrow> flags b' = (flags b)(e := f) \<and> pris b' = pris b"
  by (simp add: moved_def flags_def pris_def fun_eq_iff)

lemma queues_set:
  assumes q: "queues_ok b" and m: "moved e f b b'"
    and parts: "heap_ok (timeheap b') ((flags b)(e := f))" "active_ok (activequeues b') ((flags b)(e := f)) (pris b)"
      "later_ok (active_later_queue b') ((flags b)(e := f))" "length (activequeues b') = length (activequeues b)"
    and f: "\<forall>k. bit f k \<longrightarrow> bit (flags b e) k \<or> k < 8" "\<not> (bit f 3 \<and> bit f 5)"
      "bit f 3 \<or> bit f 5 \<longrightarrow> pris b e < length (activequeues b)"
    and n: "event_count b' = event_count b - tally (flags b e) + tally f"
      "event_count_active b' = event_count_active b - heat (flags b e) + heat f"
  shows "queues_ok b'"
proof -
  have "flags_ok (length (activequeues b)) ((flags b)(e := f)) (pris b)"
    using q f by (auto simp: queues_ok_def flags_ok_def)
  moreover have "counts_ok (event_count b') (event_count_active b') ((flags b)(e := f))"
    by (rule counts_upd [of "event_count b" "event_count_active b"]) (use q n in \<open>auto simp: queues_ok_def\<close>)
  ultimately show ?thesis using moved_flags [OF m] parts by (simp add: queues_ok_def)
qed

lemma insert_inserted_ok:
  assumes q: "queues_ok b" and e: "\<not> bit (flags b e) 1"
  obtains b' where "event_queue_insert_inserted b e = Some b'" "moved e (flags b e OR EVLIST_INSERTED) b b'" "queues_ok b'"
    "timeheap b' = timeheap b" "activequeues b' = activequeues b" "active_later_queue b' = active_later_queue b"
proof -
  let ?u = "upd (INCR_EVENT_COUNT b (flags b e)) e (set_flag EVLIST_INSERTED)"
  let ?b = "?u"
  have "event_queue_insert_inserted b e = Some ?b"
    using e by (simp add: event_queue_insert_inserted_def Let_def INCR_EVENT_COUNT_def pris_def upd_def and_or_eq_0)
  moreover have m: "moved e (flags b e OR EVLIST_INSERTED) b ?b"
    by (simp add: moved_def INCR_EVENT_COUNT_def Let_def set_flag_eq)
  moreover have "queues_ok ?b"
    by (rule queues_set [OF q m])
      (use q e active_once [OF q, of e] active_pri [OF q, of e] in
        \<open>simp_all add: queue_frame INCR_EVENT_COUNT_def Let_def tally_def heat_def\<close>)
  ultimately show ?thesis by (rule that) (simp_all add: INCR_EVENT_COUNT_def Let_def)
qed

lemma remove_inserted_ok:
  assumes q: "queues_ok b" and e: "bit (flags b e) 1"
  obtains b' where "event_queue_remove_inserted b e = Some b'" "moved e (flags b e AND NOT EVLIST_INSERTED) b b'" "queues_ok b'"
    "timeheap b' = timeheap b" "activequeues b' = activequeues b" "active_later_queue b' = active_later_queue b"
proof -
  let ?u = "upd (DECR_EVENT_COUNT b (flags b e)) e (clear_flag EVLIST_INSERTED)"
  let ?b = "?u"
  have "event_queue_remove_inserted b e = Some ?b"
    using e by (simp add: event_queue_remove_inserted_def Let_def DECR_EVENT_COUNT_def pris_def upd_def and_or_eq_0)
  moreover have m: "moved e (flags b e AND NOT EVLIST_INSERTED) b ?b"
    by (simp add: moved_def DECR_EVENT_COUNT_def Let_def clear_flag_eq)
  moreover have "queues_ok ?b"
    by (rule queues_set [OF q m])
      (use q e active_once [OF q, of e] active_pri [OF q, of e] in
        \<open>simp_all add: queue_frame DECR_EVENT_COUNT_def Let_def tally_def heat_def\<close>)
  ultimately show ?thesis by (rule that) (simp_all add: DECR_EVENT_COUNT_def Let_def)
qed

lemma insert_active_ok:
  assumes q: "queues_ok b" and e: "\<not> bit (flags b e) 3" "\<not> bit (flags b e) 5" "pris b e < length (activequeues b)"
  obtains b' where "event_queue_insert_active b e = Some b'" "moved e (flags b e OR EVLIST_ACTIVE) b b'" "queues_ok b'"
    "timeheap b' = timeheap b" "activequeues b' = (activequeues b)[pris b e := activequeues b ! pris b e @ [e]]" "active_later_queue b' = active_later_queue b"
proof -
  let ?u = "upd (INCR_EVENT_COUNT b (flags b e)) e (set_flag EVLIST_ACTIVE)"
  let ?b = "?u\<lparr>event_count_active := event_count_active b + 1,
    event_count_active_max := max (event_count_active_max b) (event_count_active b + 1),
    activequeues := (activequeues b)[pris b e := activequeues b ! pris b e @ [e]]\<rparr>"
  have "event_queue_insert_active b e = Some ?b"
    using e by (simp add: event_queue_insert_active_def Let_def INCR_EVENT_COUNT_def pris_def upd_def and_or_eq_0)
  moreover have m: "moved e (flags b e OR EVLIST_ACTIVE) b ?b"
    by (simp add: moved_def INCR_EVENT_COUNT_def Let_def set_flag_eq)
  moreover have "queues_ok ?b"
    by (rule queues_set [OF q m])
      (use q e active_once [OF q, of e] active_pri [OF q, of e] in
        \<open>simp_all add: queue_frame INCR_EVENT_COUNT_def Let_def tally_def heat_def\<close>)
  ultimately show ?thesis by (rule that) (simp_all add: INCR_EVENT_COUNT_def Let_def)
qed

lemma remove_active_ok:
  assumes q: "queues_ok b" and e: "bit (flags b e) 3"
  obtains b' where "event_queue_remove_active b e = Some b'" "moved e (flags b e AND NOT EVLIST_ACTIVE) b b'" "queues_ok b'"
    "timeheap b' = timeheap b" "activequeues b' = (activequeues b)[pris b e := remove1 e (activequeues b ! pris b e)]" "active_later_queue b' = active_later_queue b"
proof -
  let ?u = "upd (DECR_EVENT_COUNT b (flags b e)) e (clear_flag EVLIST_ACTIVE)"
  let ?b = "?u\<lparr>event_count_active := event_count_active b - 1,
    activequeues := (activequeues b)[pris b e := remove1 e (activequeues b ! pris b e)]\<rparr>"
  have "event_queue_remove_active b e = Some ?b"
    using e by (simp add: event_queue_remove_active_def Let_def DECR_EVENT_COUNT_def pris_def upd_def and_or_eq_0)
  moreover have m: "moved e (flags b e AND NOT EVLIST_ACTIVE) b ?b"
    by (simp add: moved_def DECR_EVENT_COUNT_def Let_def clear_flag_eq)
  moreover have "queues_ok ?b"
    by (rule queues_set [OF q m])
      (use q e active_once [OF q, of e] active_pri [OF q, of e] in
        \<open>simp_all add: queue_frame DECR_EVENT_COUNT_def Let_def tally_def heat_def\<close>)
  ultimately show ?thesis by (rule that) (simp_all add: DECR_EVENT_COUNT_def Let_def)
qed

lemma insert_later_ok:
  assumes q: "queues_ok b" and e: "\<not> bit (flags b e) 3" "\<not> bit (flags b e) 5" "pris b e < length (activequeues b)"
  obtains b' where "event_queue_insert_active_later b e = Some b'" "moved e (flags b e OR EVLIST_ACTIVE_LATER) b b'" "queues_ok b'"
    "timeheap b' = timeheap b" "activequeues b' = activequeues b" "active_later_queue b' = active_later_queue b @ [e]"
proof -
  let ?u = "upd (INCR_EVENT_COUNT b (flags b e)) e (set_flag EVLIST_ACTIVE_LATER)"
  let ?b = "?u\<lparr>event_count_active := event_count_active b + 1,
    event_count_active_max := max (event_count_active_max b) (event_count_active b + 1),
    active_later_queue := active_later_queue b @ [e]\<rparr>"
  have "event_queue_insert_active_later b e = Some ?b"
    using e by (simp add: event_queue_insert_active_later_def Let_def INCR_EVENT_COUNT_def pris_def upd_def and_or_eq_0)
  moreover have m: "moved e (flags b e OR EVLIST_ACTIVE_LATER) b ?b"
    by (simp add: moved_def INCR_EVENT_COUNT_def Let_def set_flag_eq)
  moreover have "queues_ok ?b"
    by (rule queues_set [OF q m])
      (use q e active_once [OF q, of e] active_pri [OF q, of e] in
        \<open>simp_all add: queue_frame INCR_EVENT_COUNT_def Let_def tally_def heat_def\<close>)
  ultimately show ?thesis by (rule that) (simp_all add: INCR_EVENT_COUNT_def Let_def)
qed

lemma remove_later_ok:
  assumes q: "queues_ok b" and e: "bit (flags b e) 5"
  obtains b' where "event_queue_remove_active_later b e = Some b'" "moved e (flags b e AND NOT EVLIST_ACTIVE_LATER) b b'" "queues_ok b'"
    "timeheap b' = timeheap b" "activequeues b' = activequeues b" "active_later_queue b' = remove1 e (active_later_queue b)"
proof -
  let ?u = "upd (DECR_EVENT_COUNT b (flags b e)) e (clear_flag EVLIST_ACTIVE_LATER)"
  let ?b = "?u\<lparr>event_count_active := event_count_active b - 1,
    active_later_queue := remove1 e (active_later_queue b)\<rparr>"
  have "event_queue_remove_active_later b e = Some ?b"
    using e by (simp add: event_queue_remove_active_later_def Let_def DECR_EVENT_COUNT_def pris_def upd_def and_or_eq_0)
  moreover have m: "moved e (flags b e AND NOT EVLIST_ACTIVE_LATER) b ?b"
    by (simp add: moved_def DECR_EVENT_COUNT_def Let_def clear_flag_eq)
  moreover have "queues_ok ?b"
    by (rule queues_set [OF q m])
      (use q e active_once [OF q, of e] active_pri [OF q, of e] in
        \<open>simp_all add: queue_frame DECR_EVENT_COUNT_def Let_def tally_def heat_def\<close>)
  ultimately show ?thesis by (rule that) (simp_all add: DECR_EVENT_COUNT_def Let_def)
qed


section \<open>Timeouts in the queues\<close>

lemma mh_n_card: "timers_ok s \<Longrightarrow> mh_n s = card (members s)"
  unfolding members_def timers_ok_def by (simp add: distinct_card)

lemma shift_mh_a [simp]: "mh_a (min_heap_shift_up s h e) = mh_a s" "mh_a (min_heap_shift_down s h e) = mh_a s"
proof -
  show "mh_a (min_heap_shift_up s h e) = mh_a s"
    by (induction s h e rule: min_heap_shift_up.induct) (subst min_heap_shift_up.simps, simp)
  show "mh_a (min_heap_shift_down s h e) = mh_a s"
    by (induction s h e rule: min_heap_shift_down.induct) (subst min_heap_shift_down.simps, simp)
qed

lemma erase_room:
  assumes ok: "timers_ok s" and e: "e \<in> members s" and eq: "min_heap_erase s e = (r, s')"
  shows "mh_n s' < mh_a s'"
proof -
  have "mh_a s' = mh_a s" using eq e ok member_idx [OF ok]
    by (auto simp: min_heap_erase_def min_heap_shift_up_unconditional_def Let_def split: if_splits)
  moreover from erase_ok [OF ok e] eq have s': "timers_ok s'" "members s' = members s - {e}" by auto
  have "mh_n s' < mh_n s" unfolding mh_n_card [OF ok] mh_n_card [OF s'(1)] s'(2)
    by (rule psubset_card_mono) (use e in \<open>auto simp: members_def\<close>)
  ultimately show ?thesis using ok by (simp add: timers_ok_def)
qed

lemma push_room: "mh_n s < mh_a s \<Longrightarrow> fst (min_heap_push mm s e) = 0"
  by (simp add: min_heap_push_def min_heap_reserve_def)

lemma remove_timeout_ok:
  assumes q: "queues_ok b" and e: "bit (flags b e) 0"
  obtains b' where "event_queue_remove_timeout b e = Some b'" "moved e (flags b e AND NOT EVLIST_TIMEOUT) b b'"
    "queues_ok b'" "mh_n (timeheap b') < mh_a (timeheap b')" "ev_timeout (timeheap b') = ev_timeout (timeheap b)"
    "activequeues b' = activequeues b" "active_later_queue b' = active_later_queue b"
proof -
  let ?f = "flags b e AND NOT EVLIST_TIMEOUT"
  let ?b = "upd (DECR_EVENT_COUNT b (flags b e)) e (clear_flag EVLIST_TIMEOUT)\<lparr>timeheap := snd (min_heap_erase (timeheap b) e)\<rparr>"
  have ok: "timers_ok (timeheap b)" and mem: "e \<in> members (timeheap b)"
    using q e by (auto simp: queues_ok_def heap_ok_def)
  from erase_ok [OF ok mem] obtain h where h: "min_heap_erase (timeheap b) e = (0, h)" "timers_ok h"
    "members h = members (timeheap b) - {e}" "ev_timeout h = ev_timeout (timeheap b)" by auto
  have "event_queue_remove_timeout b e = Some ?b"
    using e by (simp add: event_queue_remove_timeout_def Let_def DECR_EVENT_COUNT_def upd_def)
  moreover have m: "moved e ?f b ?b" by (simp add: moved_def DECR_EVENT_COUNT_def clear_flag_eq)
  moreover have "heap_ok h ((flags b)(e := ?f))" using q h by (auto simp: queues_ok_def heap_ok_def)
  then have "queues_ok ?b"
    by (intro queues_set [OF q m])
      (use q e h(1) active_once [OF q, of e] active_pri [OF q, of e] in
        \<open>simp_all add: queue_frame DECR_EVENT_COUNT_def tally_def heat_def\<close>)
  ultimately show ?thesis
    by (rule that) (use erase_room [OF ok mem h(1)] h in \<open>simp_all add: DECR_EVENT_COUNT_def\<close>)
qed

lemma insert_timeout_ok:
  assumes q: "queues_ok b" and e: "\<not> bit (flags b e) 0" and room: "mh_n (timeheap b) < mh_a (timeheap b)"
  obtains b' where "event_queue_insert_timeout env b e = Some b'" "moved e (flags b e OR EVLIST_TIMEOUT) b b'"
    "queues_ok b'" "ev_timeout (timeheap b') = ev_timeout (timeheap b)" "activequeues b' = activequeues b"
    "active_later_queue b' = active_later_queue b"
proof -
  let ?f = "flags b e OR EVLIST_TIMEOUT"
  let ?b = "upd (INCR_EVENT_COUNT b (flags b e)) e (set_flag EVLIST_TIMEOUT)
    \<lparr>timeheap := snd (min_heap_push (heap_realloc env) (timeheap b) e)\<rparr>"
  have ok: "timers_ok (timeheap b)" and mem: "e \<notin> members (timeheap b)"
    using q e by (auto simp: queues_ok_def heap_ok_def)
  obtain r h where p: "min_heap_push (heap_realloc env) (timeheap b) e = (r, h)" by fastforce
  have "r = 0" using push_room [OF room, of "heap_realloc env" e] p by simp
  with push_ok [OF ok mem p] have h: "timers_ok h" "members h = insert e (members (timeheap b))"
    "ev_timeout h = ev_timeout (timeheap b)" by auto
  have "event_queue_insert_timeout env b e = Some ?b"
    using e by (simp add: event_queue_insert_timeout_def Let_def INCR_EVENT_COUNT_def upd_def)
  moreover have m: "moved e ?f b ?b" by (simp add: moved_def INCR_EVENT_COUNT_def Let_def set_flag_eq)
  moreover have "heap_ok h ((flags b)(e := ?f))" using q h by (auto simp: queues_ok_def heap_ok_def)
  then have "queues_ok ?b"
    by (intro queues_set [OF q m])
      (use q e p active_once [OF q, of e] active_pri [OF q, of e] in
        \<open>simp_all add: queue_frame INCR_EVENT_COUNT_def Let_def tally_def heat_def\<close>)
  ultimately show ?thesis by (rule that) (use h p in \<open>simp_all add: INCR_EVENT_COUNT_def Let_def\<close>)
qed

section \<open>The invariant of the maps\<close>

definition is_io :: "event_rec \<Rightarrow> bool" where
  "is_io r \<longleftrightarrow> ev_events r AND (EV_READ OR EV_WRITE OR EV_CLOSED) \<noteq> 0"

text \<open>How many of the events ask for the kind of bit \<open>k\<close>.\<close>

definition asking :: "(event \<Rightarrow> event_rec) \<Rightarrow> nat \<Rightarrow> event list \<Rightarrow> nat" where
  "asking r k es = length (filter (\<lambda>e. bit (ev_events (r e)) k) es)"

definition slot_ok :: "(event \<Rightarrow> bool) \<Rightarrow> (event \<Rightarrow> event_rec) \<Rightarrow> int \<Rightarrow> evmap_io \<Rightarrow> bool" where
  "slot_ok ins r fd ctx \<longleftrightarrow> distinct (io_events ctx)
     \<and> (\<forall>e. e \<in> set (io_events ctx) \<longleftrightarrow> ins e \<and> is_io (r e) \<and> ev_fd (r e) = fd)
     \<and> nread ctx = asking r 1 (io_events ctx) \<and> nwrite ctx = asking r 2 (io_events ctx)
     \<and> nclose ctx = asking r 7 (io_events ctx)"

definition io_ok :: "(int \<Rightarrow> evmap_io option) \<Rightarrow> int \<Rightarrow> (event \<Rightarrow> bool) \<Rightarrow> (event \<Rightarrow> event_rec) \<Rightarrow> bool" where
  "io_ok im n ins r \<longleftrightarrow> 0 \<le> n \<and> (\<forall>fd ctx. im fd = Some ctx \<longrightarrow> 0 \<le> fd \<and> fd < n \<and> slot_ok ins r fd ctx)
     \<and> (\<forall>e. ins e \<and> is_io (r e) \<and> 0 \<le> ev_fd (r e) \<longrightarrow> im (ev_fd (r e)) \<noteq> None)"

definition sig_ok :: "(int \<Rightarrow> event list option) \<Rightarrow> int \<Rightarrow> (event \<Rightarrow> bool) \<Rightarrow> (event \<Rightarrow> event_rec) \<Rightarrow> bool" where
  "sig_ok sm n ins r \<longleftrightarrow> 0 \<le> n \<and> (\<forall>s l. sm s = Some l \<longrightarrow> 0 \<le> s \<and> s < n \<and> distinct l
       \<and> (\<forall>e. e \<in> set l \<longleftrightarrow> ins e \<and> \<not> is_io (r e) \<and> ev_fd (r e) = s))
     \<and> (\<forall>e. ins e \<and> \<not> is_io (r e) \<longrightarrow> sm (ev_fd (r e)) \<noteq> None)"

definition inserted :: "base \<Rightarrow> event \<Rightarrow> bool" where
  "inserted b e \<longleftrightarrow> bit (flags b e) 1"

definition maps_ok :: "base \<Rightarrow> bool" where
  "maps_ok b \<longleftrightarrow> io_ok (io_map b) (io_nentries b) (inserted b) (evs b) \<and> sig_ok (sig_map b) (sig_nentries b) (inserted b) (evs b)"

definition same_kind :: "event_rec \<Rightarrow> event_rec \<Rightarrow> bool" where
  "same_kind r s \<longleftrightarrow> ev_events r = ev_events s \<and> ev_fd r = ev_fd s"

lemma same_kindD:
  assumes "\<forall>e. same_kind (r e) (s e)"
  shows "\<And>e. is_io (r e) = is_io (s e)" "\<And>e. ev_fd (r e) = ev_fd (s e)" "\<And>k es. asking r k es = asking s k es"
  using assms by (simp_all add: same_kind_def is_io_def asking_def)

lemma slot_cong:
  assumes "\<forall>e. same_kind (r e) (s e)"
  shows "slot_ok ins r fd ctx = slot_ok ins s fd ctx"
  unfolding slot_ok_def by (simp only: same_kindD [OF assms])

lemma io_cong:
  assumes "\<forall>e. same_kind (r e) (s e)"
  shows "io_ok im n ins r = io_ok im n ins s"
  unfolding io_ok_def by (simp only: same_kindD [OF assms] slot_cong [OF assms])

lemma sig_cong:
  assumes "\<forall>e. same_kind (r e) (s e)"
  shows "sig_ok sm n ins r = sig_ok sm n ins s"
  unfolding sig_ok_def by (simp only: same_kindD [OF assms])

lemma maps_frame:
  assumes "maps_ok b" "\<forall>e. same_kind (evs b' e) (evs b e)" "\<forall>e. bit (flags b' e) 1 = bit (flags b e) 1"
    "rest b' = rest b"
  shows "maps_ok b'"
proof -
  have "inserted b' = inserted b" using assms(3) by (simp add: inserted_def fun_eq_iff)
  moreover have "io_map b' = io_map b" "io_nentries b' = io_nentries b" "sig_map b' = sig_map b" "sig_nentries b' = sig_nentries b"
    using arg_cong [OF assms(4), of io_map] arg_cong [OF assms(4), of io_nentries]
      arg_cong [OF assms(4), of sig_map] arg_cong [OF assms(4), of sig_nentries] by (simp_all add: rest_def)
  ultimately show ?thesis
    using assms(1) io_cong [OF assms(2)] sig_cong [OF assms(2)] by (simp add: maps_ok_def)
qed

lemma grow_nentries_gt: "0 < n \<Longrightarrow> slot < grow_nentries n slot \<and> n \<le> grow_nentries n slot"
proof (induction n slot rule: grow_nentries.induct)
  case (1 n slot)
  have eq: "grow_nentries n slot = (if 0 < n \<and> n \<le> slot then grow_nentries (n * 2) slot else n)"
    by (rule grow_nentries.simps)
  show ?case
  proof (cases "n \<le> slot")
    case True
    with 1 have "slot < grow_nentries (n * 2) slot \<and> n * 2 \<le> grow_nentries (n * 2) slot" by simp
    with True 1(2) eq show ?thesis by simp
  next
    case False
    with eq show ?thesis by simp
  qed
qed

lemma make_space:
  "0 \<le> n \<Longrightarrow> evmap_make_space env n slot = (r, n') \<Longrightarrow> r = -1 \<and> n' = n \<or> r = 0 \<and> slot < n' \<and> n \<le> n'"
  using grow_nentries_gt [of n slot] grow_nentries_gt [of 32 slot]
  by (auto simp: evmap_make_space_def Let_def split: if_splits)

lemma io_more: "io_ok im n ins r \<Longrightarrow> n \<le> n' \<Longrightarrow> io_ok im n' ins r"
  by (fastforce simp: io_ok_def)

lemma slot_init: "io_ok im n ins r \<Longrightarrow> 0 \<le> fd \<Longrightarrow> im fd = None \<Longrightarrow> slot_ok ins r fd evmap_io_init"
  by (auto simp: slot_ok_def io_ok_def evmap_io_init_def asking_def)

lemma io_put:
  assumes "io_ok im n ins r" "0 \<le> fd" "fd < n" "slot_ok ins' r fd ctx"
    "\<forall>e. ev_fd (r e) \<noteq> fd \<or> \<not> is_io (r e) \<longrightarrow> ins' e = ins e"
  shows "io_ok (im(fd \<mapsto> ctx)) n ins' r"
  using assms by (simp add: io_ok_def slot_ok_def) metis

lemma count_up_eq:
  "count_up events EV_READ (asking r 1 es) = (asking r 1 es + (if bit events 1 then 1 else 0),
     if bit events 1 \<and> asking r 1 es = 0 then EV_READ else 0)"
  "count_up events EV_WRITE (asking r 2 es) = (asking r 2 es + (if bit events 2 then 1 else 0),
     if bit events 2 \<and> asking r 2 es = 0 then EV_WRITE else 0)"
  "count_up events EV_CLOSED (asking r 7 es) = (asking r 7 es + (if bit events 7 then 1 else 0),
     if bit events 7 \<and> asking r 7 es = 0 then EV_CLOSED else 0)"
  by (simp_all add: count_up_def)

text \<open>The events in the slot of a descriptor, in order.\<close>

definition io_list :: "base \<Rightarrow> int \<Rightarrow> event list" where
  "io_list b fd = (case io_map b fd of None \<Rightarrow> [] | Some ctx \<Rightarrow> io_events ctx)"

definition sig_list :: "base \<Rightarrow> int \<Rightarrow> event list" where
  "sig_list b s = (case sig_map b s of None \<Rightarrow> [] | Some l \<Rightarrow> l)"

text \<open>Everything but the two maps.\<close>

definition no_maps :: "base \<Rightarrow> base" where
  "no_maps b = b\<lparr>io_map := undefined, io_nentries := undefined, sig_map := undefined, sig_nentries := undefined\<rparr>"

lemma no_maps_frame [simp]:
  "no_maps (b\<lparr>io_map := im\<rparr>) = no_maps b" "no_maps (b\<lparr>io_nentries := n\<rparr>) = no_maps b"
  "no_maps (b\<lparr>sig_map := sm\<rparr>) = no_maps b" "no_maps (b\<lparr>sig_nentries := n\<rparr>) = no_maps b"
  by (simp_all add: no_maps_def)

lemma no_mapsD:
  assumes "no_maps b' = no_maps b"
  shows "evs b' = evs b" "timeheap b' = timeheap b" "activequeues b' = activequeues b"
    "active_later_queue b' = active_later_queue b" "event_count b' = event_count b"
    "event_count_active b' = event_count_active b" "flags b' = flags b" "pris b' = pris b" "inserted b' = inserted b"
proof -
  show evs: "evs b' = evs b" and "timeheap b' = timeheap b" "activequeues b' = activequeues b"
    "active_later_queue b' = active_later_queue b" "event_count b' = event_count b"
    "event_count_active b' = event_count_active b"
    using arg_cong [OF assms, of evs] arg_cong [OF assms, of timeheap] arg_cong [OF assms, of activequeues]
      arg_cong [OF assms, of active_later_queue] arg_cong [OF assms, of event_count]
      arg_cong [OF assms, of event_count_active] by (simp_all add: no_maps_def)
  from flags_evs [OF evs] show "flags b' = flags b" "pris b' = pris b" "inserted b' = inserted b"
    by (simp_all add: inserted_def fun_eq_iff)
qed

lemma queues_maps: "no_maps b' = no_maps b \<Longrightarrow> queues_ok b' = queues_ok b"
  by (simp only: queues_ok_def no_mapsD [of b' b])

lemma io_slot: "io_ok im n ins r \<Longrightarrow> im fd = Some ctx \<Longrightarrow> 0 \<le> fd \<and> fd < n \<and> slot_ok ins r fd ctx"
  by (simp add: io_ok_def)

lemma io_negative: "io_ok im n ins r \<Longrightarrow> fd < 0 \<Longrightarrow> im fd = None"
  using io_slot [of im n ins r fd] by (cases "im fd") fastforce+

lemma io_negative_fd:
  assumes "io_ok im n ins r" "ev_fd (r e) < 0"
  shows "io_ok im n (ins(e := x)) r"
proof -
  have "slot_ok (ins(e := x)) r fd ctx" if "slot_ok ins r fd ctx" "0 \<le> fd" for fd ctx
    using that assms(2) by (auto simp: slot_ok_def)
  with assms show ?thesis by (simp add: io_ok_def)
qed

lemma evmap_io_add_ok:
  assumes m: "maps_ok b" and e: "\<not> inserted b e" "is_io (evs b e)"
    and eq: "evmap_io_add env b (ev_fd (evs b e)) e = (res, b')"
  shows "no_maps b' = no_maps b" "sig_map b' = sig_map b" "sig_nentries b' = sig_nentries b"
    "res = -1 \<and> io_list b' = io_list b \<and> io_ok (io_map b') (io_nentries b') (inserted b) (evs b)
     \<or> res \<in> {0, 1} \<and> io_list b' = (if ev_fd (evs b e) < 0 then io_list b
           else (io_list b)(ev_fd (evs b e) := e # io_list b (ev_fd (evs b e))))
         \<and> io_ok (io_map b') (io_nentries b') ((inserted b)(e := True)) (evs b)"
proof -
  let ?fd = "ev_fd (evs b e)" and ?r = "evs b" and ?ins' = "(inserted b)(e := True)"
  have io: "io_ok (io_map b) (io_nentries b) (inserted b) ?r" using m by (simp add: maps_ok_def)
  show "no_maps b' = no_maps b" "sig_map b' = sig_map b" "sig_nentries b' = sig_nentries b"
    using eq by (auto simp: evmap_io_add_def Let_def split: if_splits prod.splits)
  show "res = -1 \<and> io_list b' = io_list b \<and> io_ok (io_map b') (io_nentries b') (inserted b) ?r
     \<or> res \<in> {0, 1} \<and> io_list b' = (if ?fd < 0 then io_list b else (io_list b)(?fd := e # io_list b ?fd))
         \<and> io_ok (io_map b') (io_nentries b') ?ins' ?r"
  proof (cases "?fd < 0")
    case True
    moreover from io_negative_fd [OF io True] have "io_ok (io_map b) (io_nentries b) ?ins' ?r" .
    ultimately show ?thesis using eq by (simp add: evmap_io_add_def)
  next
    case False
    obtain r n where sp: "evmap_make_space env (io_nentries b) ?fd = (r, n)" by fastforce
    have n: "r = -1 \<and> n = io_nentries b \<or> r = 0 \<and> ?fd < n \<and> io_nentries b \<le> n"
      using make_space [OF _ sp] io by (simp add: io_ok_def)
    define ctx where "ctx = (case io_map b ?fd of Some c \<Rightarrow> c | None \<Rightarrow> evmap_io_init)"
    define ctx' where "ctx' = \<lparr>io_events = e # io_events ctx, nread = fst (count_up (ev_events (?r e)) EV_READ (nread ctx)),
      nwrite = fst (count_up (ev_events (?r e)) EV_WRITE (nwrite ctx)),
      nclose = fst (count_up (ev_events (?r e)) EV_CLOSED (nclose ctx))\<rparr>"
    have ion: "io_ok (io_map b) n (inserted b) ?r" using io_more [OF io] n by auto
    have ctx: "slot_ok (inserted b) ?r ?fd ctx"
      using ion slot_init [OF ion] False by (auto simp: ctx_def io_ok_def split: option.splits)
    then have ctx': "slot_ok ?ins' ?r ?fd ctx'"
      using e by (auto simp: slot_ok_def ctx'_def count_up_def asking_def)
    have out: "(res, b') = (-1, b\<lparr>io_nentries := n\<rparr>)
      \<or> r = 0 \<and> (res, b') = (-1, b\<lparr>io_nentries := n, io_map := (io_map b)(?fd \<mapsto> ctx)\<rparr>)
      \<or> r = 0 \<and> res \<in> {0, 1} \<and> b' = b\<lparr>io_nentries := n, io_map := (io_map b)(?fd \<mapsto> ctx')\<rparr>"
      using eq False sp n by (auto simp: evmap_io_add_def Let_def ctx_def ctx'_def split: if_splits prod.splits option.splits)
    have lst: "io_list b ?fd = io_events ctx"
      by (simp add: io_list_def ctx_def evmap_io_init_def split: option.split)
    from out show ?thesis
    proof (elim disjE conjE)
      assume "(res, b') = (-1, b\<lparr>io_nentries := n\<rparr>)"
      with ion show ?thesis by (simp add: io_list_def fun_eq_iff)
    next
      assume "r = 0" "(res, b') = (-1, b\<lparr>io_nentries := n, io_map := (io_map b)(?fd \<mapsto> ctx)\<rparr>)"
      moreover have "io_ok ((io_map b)(?fd \<mapsto> ctx)) n (inserted b) ?r"
        by (rule io_put [OF ion]) (use False ctx n \<open>r = 0\<close> in auto)
      ultimately show ?thesis using lst by (auto simp: io_list_def fun_eq_iff)
    next
      assume a: "r = 0" "res \<in> {0, 1}" "b' = b\<lparr>io_nentries := n, io_map := (io_map b)(?fd \<mapsto> ctx')\<rparr>"
      have "io_ok ((io_map b)(?fd \<mapsto> ctx')) n ?ins' ?r"
        by (rule io_put [OF ion]) (use False ctx' n \<open>r = 0\<close> e in auto)
      with a lst False show ?thesis by (auto simp: io_list_def fun_eq_iff ctx'_def)
    qed
  qed
qed

lemma asking_pos: "e \<in> set es \<Longrightarrow> bit (ev_events (r e)) k \<Longrightarrow> 0 < asking r k es"
  by (auto simp: asking_def filter_empty_conv)

lemma asking_remove:
  "distinct es \<Longrightarrow> e \<in> set es \<Longrightarrow> asking r k (remove1 e es) = asking r k es - (if bit (ev_events (r e)) k then 1 else 0)"
proof (induction es)
  case (Cons x es)
  then show ?case using asking_pos [of e es r k] by (auto simp: asking_def)
qed simp

lemma evmap_io_del_ok:
  assumes m: "maps_ok b" and R: "same_kind (R e) (evs b e)" "\<forall>x. x \<noteq> e \<longrightarrow> R x = evs b x"
    and e: "inserted b e" "is_io (evs b e)" and b1: "io_map b1 = io_map b" "io_nentries b1 = io_nentries b" "evs b1 = R"
  obtains res b' where "evmap_io_del env b1 (ev_fd (R e)) e = Some (res, b')" "res \<in> {-1, 0, 1}"
    "no_maps b' = no_maps b1" "sig_map b' = sig_map b1" "sig_nentries b' = sig_nentries b1"
    "io_ok (io_map b') (io_nentries b') ((inserted b)(e := False)) R"
    "io_list b' = (io_list b)(ev_fd (R e) := remove1 e (io_list b (ev_fd (R e))))"
proof -
  let ?fd = "ev_fd (R e)" and ?ins = "(inserted b)(e := False)"
  have sk: "\<forall>x. same_kind (R x) (evs b x)" using R by (auto simp: same_kind_def)
  have io: "io_ok (io_map b) (io_nentries b) (inserted b) R" and isio: "is_io (R e)"
    using m e io_cong [OF sk] same_kindD(1) [OF sk] by (simp_all add: maps_ok_def)
  show ?thesis
  proof (cases "?fd < 0")
    case True
    note io_negative [OF io True]
    moreover have "io_ok (io_map b) (io_nentries b) ?ins R" by (rule io_negative_fd [OF io True])
    ultimately show ?thesis
      by (intro that [of 0 b1]) (use True b1 in \<open>auto simp: evmap_io_del_def io_list_def\<close>)
  next
    case False
    with io e isio obtain ctx where ctx: "io_map b ?fd = Some ctx" by (auto simp: io_ok_def)
    with io have s: "?fd < io_nentries b" "slot_ok (inserted b) R ?fd ctx" by (auto simp: io_ok_def)
    then have mem: "e \<in> set (io_events ctx)" and dis: "distinct (io_events ctx)" using e isio by (auto simp: slot_ok_def)
    have cd: "\<exists>z. count_down (ev_events (R e)) M (asking R k (io_events ctx)) = Some (asking R k (remove1 e (io_events ctx)), z)"
      if "ev_events (R e) AND M = 0 \<longleftrightarrow> \<not> bit (ev_events (R e)) k" for M k
      using asking_remove [OF dis mem, of R k] asking_pos [OF mem, of R k] that by (auto simp: count_down_def)
    obtain z1 where c1: "count_down (ev_events (R e)) EV_READ (nread ctx) = Some (asking R 1 (remove1 e (io_events ctx)), z1)"
      using cd [of EV_READ 1] s by (auto simp: slot_ok_def)
    obtain z2 where c2: "count_down (ev_events (R e)) EV_WRITE (nwrite ctx) = Some (asking R 2 (remove1 e (io_events ctx)), z2)"
      using cd [of EV_WRITE 2] s by (auto simp: slot_ok_def)
    obtain z3 where c3: "count_down (ev_events (R e)) EV_CLOSED (nclose ctx) = Some (asking R 7 (remove1 e (io_events ctx)), z3)"
      using cd [of EV_CLOSED 7] s by (auto simp: slot_ok_def)
    define ctx' where "ctx' = \<lparr>io_events = remove1 e (io_events ctx), nread = asking R 1 (remove1 e (io_events ctx)),
      nwrite = asking R 2 (remove1 e (io_events ctx)), nclose = asking R 7 (remove1 e (io_events ctx))\<rparr>"
    have "slot_ok ?ins R ?fd ctx'" using s(2) by (auto simp: slot_ok_def ctx'_def)
    then have "io_ok ((io_map b)(?fd \<mapsto> ctx')) (io_nentries b) ?ins R"
      by (intro io_put [OF io]) (use False s isio in auto)
    moreover define b' where "b' = b1\<lparr>io_map := (io_map b1)(?fd \<mapsto> ctx')\<rparr>"
    moreover obtain res where "evmap_io_del env b1 ?fd e = Some (res, b')" "res \<in> {-1, 0, 1}"
      using False s(1) b1 ctx c1 c2 c3 by (auto simp: evmap_io_del_def ctx'_def b'_def Let_def)
    ultimately show ?thesis
      by (intro that [of res b']) (use b1 ctx in \<open>auto simp: io_list_def fun_eq_iff ctx'_def\<close>)
  qed
qed

lemma sig_slot: "sig_ok sm n ins r \<Longrightarrow> sm s = Some l \<Longrightarrow>
    0 \<le> s \<and> s < n \<and> distinct l \<and> (\<forall>e. e \<in> set l \<longleftrightarrow> ins e \<and> \<not> is_io (r e) \<and> ev_fd (r e) = s)"
  by (simp add: sig_ok_def)

lemma sig_put:
  assumes "sig_ok sm n ins r" "0 \<le> s" "s < n" "distinct l"
    "\<forall>e. e \<in> set l \<longleftrightarrow> ins' e \<and> \<not> is_io (r e) \<and> ev_fd (r e) = s"
    "\<forall>e. ev_fd (r e) \<noteq> s \<or> is_io (r e) \<longrightarrow> ins' e = ins e"
  shows "sig_ok (sm(s \<mapsto> l)) n ins' r"
  using assms by (simp add: sig_ok_def) metis

lemma evmap_signal_add_ok:
  assumes m: "maps_ok b" and e: "\<not> inserted b e" "\<not> is_io (evs b e)" and fd: "0 \<le> ev_fd (evs b e)"
  obtains res b' where "evmap_signal_add env b (ev_fd (evs b e)) e = Some (res, b')"
    "no_maps b' = no_maps b" "io_map b' = io_map b" "io_nentries b' = io_nentries b"
    "res = -1 \<and> sig_list b' = sig_list b \<and> sig_ok (sig_map b') (sig_nentries b') (inserted b) (evs b)
     \<or> res = 1 \<and> sig_list b' = (sig_list b)(ev_fd (evs b e) := e # sig_list b (ev_fd (evs b e)))
         \<and> sig_ok (sig_map b') (sig_nentries b') ((inserted b)(e := True)) (evs b)"
proof -
  let ?s = "ev_fd (evs b e)" and ?r = "evs b" and ?ins' = "(inserted b)(e := True)"
  have sg: "sig_ok (sig_map b) (sig_nentries b) (inserted b) ?r" using m by (simp add: maps_ok_def)
  obtain r n where sp: "evmap_make_space env (sig_nentries b) ?s = (r, n)" by fastforce
  have n: "r = -1 \<and> n = sig_nentries b \<or> r = 0 \<and> ?s < n \<and> sig_nentries b \<le> n"
    using make_space [OF _ sp] sg by (simp add: sig_ok_def)
  have sgn: "sig_ok (sig_map b) n (inserted b) ?r" using sg n by (fastforce simp: sig_ok_def)
  let ?b0 = "b\<lparr>sig_nentries := n\<rparr>" and ?l = "sig_list b ?s"
  have l: "distinct ?l" "\<forall>x. x \<in> set ?l \<longleftrightarrow> inserted b x \<and> \<not> is_io (?r x) \<and> ev_fd (?r x) = ?s"
    using sg sig_slot [OF sg, of ?s] by (auto simp: sig_list_def sig_ok_def split: option.splits)
  have same: "sig_ok ((sig_map b)(?s \<mapsto> ?l)) n (inserted b) ?r" if "r = 0"
    by (rule sig_put [OF sgn]) (use l fd n that in auto)
  have more: "sig_ok ((sig_map b)(?s \<mapsto> e # ?l)) n ?ins' ?r" if "r = 0"
    by (rule sig_put [OF sgn]) (use l fd n that e in auto)
  let ?no_slot = "r = -1 \<or> sig_map b ?s = None \<and> \<not> slot_calloc env ?s"
  have run: "evmap_signal_add env b ?s e = (if ?no_slot then Some (-1, ?b0)
    else if ?l = [] \<and> \<not> evsig_add env ?s then Some (-1, ?b0\<lparr>sig_map := (sig_map b)(?s \<mapsto> ?l)\<rparr>)
    else Some (1, ?b0\<lparr>sig_map := (sig_map b)(?s \<mapsto> e # ?l)\<rparr>))"
    using sp fd by (simp add: evmap_signal_add_def Let_def sig_list_def split: option.split)
  let ?no_add = "?l = [] \<and> \<not> evsig_add env ?s"
  consider (no_slot) ?no_slot | (no_add) "\<not> ?no_slot" ?no_add | (added) "\<not> ?no_slot" "\<not> ?no_add" by blast
  then show ?thesis
  proof cases
    case no_slot
    then have "evmap_signal_add env b ?s e = Some (-1, ?b0)" by (simp only: run if_True)
    then show ?thesis by (rule that) (use sgn in \<open>auto simp: sig_list_def fun_eq_iff\<close>)
  next
    case no_add
    then have res: "evmap_signal_add env b ?s e = Some (-1, ?b0\<lparr>sig_map := (sig_map b)(?s \<mapsto> ?l)\<rparr>)"
      using run by (simp only: simp_thms if_True if_False)
    have "sig_list (?b0\<lparr>sig_map := (sig_map b)(?s \<mapsto> ?l)\<rparr>) = sig_list b" by (simp add: sig_list_def fun_eq_iff)
    with res show ?thesis by (intro that [OF res]) (use same no_add n in auto)
  next
    case added
    then have res: "evmap_signal_add env b ?s e = Some (1, ?b0\<lparr>sig_map := (sig_map b)(?s \<mapsto> e # ?l)\<rparr>)"
      using run by (simp only: simp_thms if_True if_False)
    have "sig_list (?b0\<lparr>sig_map := (sig_map b)(?s \<mapsto> e # ?l)\<rparr>) = (sig_list b)(?s := e # ?l)"
      by (simp add: sig_list_def fun_eq_iff)
    with res show ?thesis by (intro that [OF res]) (use more added n in auto)
  qed
qed

lemma evmap_signal_del_ok:
  assumes m: "maps_ok b" and R: "same_kind (R e) (evs b e)" "\<forall>x. x \<noteq> e \<longrightarrow> R x = evs b x"
    and e: "inserted b e" "\<not> is_io (evs b e)" and b1: "sig_map b1 = sig_map b" "sig_nentries b1 = sig_nentries b" "evs b1 = R"
  obtains res b' where "evmap_signal_del env b1 (ev_fd (R e)) e = Some (res, b')" "res \<in> {-1, 1}"
    "no_maps b' = no_maps b1" "io_map b' = io_map b1" "io_nentries b' = io_nentries b1"
    "sig_ok (sig_map b') (sig_nentries b') ((inserted b)(e := False)) R"
    "sig_list b' = (sig_list b)(ev_fd (R e) := remove1 e (sig_list b (ev_fd (R e))))"
proof -
  let ?s = "ev_fd (R e)" and ?ins = "(inserted b)(e := False)"
  have sk: "\<forall>x. same_kind (R x) (evs b x)" using R by (auto simp: same_kind_def)
  have sg: "sig_ok (sig_map b) (sig_nentries b) (inserted b) R" and nio: "\<not> is_io (R e)"
    using m e sig_cong [OF sk] same_kindD(1) [OF sk] by (simp_all add: maps_ok_def)
  with e obtain l where l: "sig_map b ?s = Some l" by (auto simp: sig_ok_def)
  note s = sig_slot [OF sg l]
  have "sig_ok ((sig_map b)(?s \<mapsto> remove1 e l)) (sig_nentries b) ?ins R"
    by (rule sig_put [OF sg]) (use s nio in auto)
  moreover define b' where "b' = b1\<lparr>sig_map := (sig_map b1)(?s \<mapsto> remove1 e l)\<rparr>"
  moreover obtain res where "evmap_signal_del env b1 ?s e = Some (res, b')" "res \<in> {-1, 1}"
    using s b1 l by (cases "remove1 e l = [] \<and> \<not> evsig_del env ?s") (auto simp: evmap_signal_del_def Let_def b'_def)
  ultimately show ?thesis
    by (intro that [of res b']) (use b1 l in \<open>auto simp: sig_list_def fun_eq_iff\<close>)
qed

end
