(* ===== verification/Event_Ops.thy ===== *)
theory Event_Ops
  imports Event_Inv
begin

text \<open>
  The functions on events keep the invariant \<open>base_ok\<close> of the base, and what they change. \<open>kept e\<close>
  says that an operation on the event \<open>e\<close> leaves every other event, the configuration and the state
  of the loop alone; \<open>touched\<close> that only fields the invariant does not look at have changed.
\<close>

section \<open>The invariant of the base\<close>

definition base_ok :: "base \<Rightarrow> bool" where
  "base_ok b \<longleftrightarrow> queues_ok b \<and> maps_ok b"

text \<open>What the functions on events never change: configuration, clock, log, and the state of the loop.\<close>

definition core :: "base \<Rightarrow> base" where
  "core b = no_maps (rest b)\<lparr>running_ncalls := map_option (\<lambda>(e, n). (e, 0)) (running_ncalls b), event_continue := False, n_deferreds_queued := 0\<rparr>"

lemma core_rest:
  assumes "rest b' = rest b"
  shows "core b' = core b"
proof -
  have "running_ncalls c = running_ncalls (rest c)" for c by (simp add: rest_def)
  then have "running_ncalls b' = running_ncalls b" using assms by metis
  then show ?thesis using assms by (simp only: core_def)
qed

lemma core_no_maps:
  assumes "no_maps b' = no_maps b"
  shows "core b' = core b"
proof -
  have "no_maps (rest c) = rest (no_maps c)" for c by (cases c) (simp add: rest_def no_maps_def)
  moreover have "running_ncalls c = running_ncalls (no_maps c)" for c by (simp add: no_maps_def)
  then have "running_ncalls b' = running_ncalls b" using assms by metis
  ultimately show ?thesis using assms by (simp only: core_def)
qed

text \<open>The counter of the running closure stays or is set to 0.\<close>

definition fewer_calls :: "base \<Rightarrow> base \<Rightarrow> bool" where
  "fewer_calls b b' \<longleftrightarrow> running_ncalls b' = running_ncalls b
     \<or> (\<exists>e n. running_ncalls b = Some (e, n) \<and> running_ncalls b' = Some (e, 0))"

lemma fewer_calls_same [simp]: "running_ncalls b' = running_ncalls b \<Longrightarrow> fewer_calls b b'"
  by (simp add: fewer_calls_def)

lemma fewer_calls_trans: "fewer_calls a b \<Longrightarrow> fewer_calls b c \<Longrightarrow> fewer_calls a c"
  unfolding fewer_calls_def by (elim disjE exE conjE) simp_all

lemma rest_calls: "rest b' = rest b \<Longrightarrow> fewer_calls b b'"
proof -
  have "running_ncalls c = running_ncalls (rest c)" for c by (simp add: rest_def)
  then show "rest b' = rest b \<Longrightarrow> fewer_calls b b'" by (metis fewer_calls_same)
qed

lemma no_maps_calls: "no_maps b' = no_maps b \<Longrightarrow> fewer_calls b b'"
proof -
  have "running_ncalls c = running_ncalls (no_maps c)" for c by (simp add: no_maps_def)
  then show "no_maps b' = no_maps b \<Longrightarrow> fewer_calls b b'" by (metis fewer_calls_same)
qed

lemma sig_other:
  assumes e: "is_io (r e)"
  shows "sig_ok sm n (ins(e := x)) r = sig_ok sm n ins r"
proof -
  have "(ins(e := x)) y \<and> \<not> is_io (r y) \<longleftrightarrow> ins y \<and> \<not> is_io (r y)"
    "(ins(e := x)) y \<and> \<not> is_io (r y) \<and> ev_fd (r y) = s \<longleftrightarrow> ins y \<and> \<not> is_io (r y) \<and> ev_fd (r y) = s" for y s
    using e by auto
  then show ?thesis unfolding sig_ok_def by presburger
qed

lemma io_other:
  assumes e: "\<not> is_io (r e)"
  shows "io_ok im n (ins(e := x)) r = io_ok im n ins r"
proof -
  have eq: "(ins(e := x)) y \<and> is_io (r y) \<and> P \<longleftrightarrow> ins y \<and> is_io (r y) \<and> P" for y P
    using e by auto
  have "slot_ok (ins(e := x)) r fd ctx = slot_ok ins r fd ctx" for fd ctx
    unfolding slot_ok_def by (simp only: eq)
  then show ?thesis unfolding io_ok_def by (simp only: eq)
qed

lemma restD:
  assumes "rest b' = rest b"
  shows "io_map b' = io_map b" "io_nentries b' = io_nentries b" "sig_map b' = sig_map b" "sig_nentries b' = sig_nentries b"
    "length (activequeues b') = length (activequeues b)"
  using arg_cong [OF assms, of io_map] arg_cong [OF assms, of io_nentries] arg_cong [OF assms, of sig_map]
    arg_cong [OF assms, of sig_nentries] arg_cong [OF assms, of "\<lambda>b. length (activequeues b)"]
  by (simp_all add: rest_def)

lemma moved_kind: "moved e f b b' \<Longrightarrow> same_kind (evs b' x) (evs b x)"
  by (simp add: moved_def same_kind_def)

lemma moved_inserted: "moved e f b b' \<Longrightarrow> inserted b' = (inserted b)(e := bit f 1)"
  by (auto simp: inserted_def fun_eq_iff dest: moved_flags)

lemma moved_maps:
  assumes "moved e f b b'" "io_ok (io_map b) (io_nentries b) ((inserted b)(e := bit f 1)) (evs b)"
    "sig_ok (sig_map b) (sig_nentries b) ((inserted b)(e := bit f 1)) (evs b)"
  shows "maps_ok b'"
  using assms restD [of b' b] moved_inserted [OF assms(1)] io_cong [of "evs b'" "evs b"] sig_cong [of "evs b'" "evs b"]
    moved_kind [OF assms(1)] by (simp add: maps_ok_def moved_def)

lemma moved_maps_same: "moved e f b b' \<Longrightarrow> maps_ok b \<Longrightarrow> bit f 1 = bit (flags b e) 1 \<Longrightarrow> maps_ok b'"
proof -
  assume m: "moved e f b b'" "maps_ok b" and f: "bit f 1 = bit (flags b e) 1"
  have "(inserted b)(e := bit f 1) = inserted b" using f by (auto simp: inserted_def fun_eq_iff)
  then show ?thesis using m moved_maps [OF m(1)] by (simp add: maps_ok_def)
qed

text \<open>Whether \<open>event_add\<close> puts the event into a map.\<close>

definition to_map :: "base \<Rightarrow> event \<Rightarrow> bool" where
  "to_map b e \<longleftrightarrow> (is_io (evs b e) \<or> bit (ev_events (evs b e)) 3)
     \<and> \<not> bit (flags b e) 1 \<and> \<not> bit (flags b e) 3 \<and> \<not> bit (flags b e) 5"

lemma add_to_map_ok:
  assumes ok: "base_ok b" and sig: "bit (ev_events (evs b e)) 3 \<and> \<not> is_io (evs b e) \<longrightarrow> 0 \<le> ev_fd (evs b e)"
  obtains res b' where "add_to_map env b e = Some (res, b')" "base_ok b'" "timeheap b' = timeheap b"
    "activequeues b' = activequeues b" "active_later_queue b' = active_later_queue b" "core b' = core b" "fewer_calls b b'"
    "res = -1 \<and> evs b' = evs b \<and> io_list b' = io_list b \<and> sig_list b' = sig_list b
     \<or> res = 0 \<and> evs b' = (if to_map b e then (evs b)(e := (evs b e)\<lparr>ev_flags := flags b e OR EVLIST_INSERTED\<rparr>) else evs b)"
proof (cases "to_map b e")
  case False
  then have "add_to_map env b e = Some (0, b)"
    by (auto simp: add_to_map_def to_map_def is_io_def and_or_eq_0 Let_def)
  then show ?thesis by (rule that) (use ok False in simp_all)
next
  case True
  have q: "queues_ok b" and m: "maps_ok b" and ni: "\<not> inserted b e"
    using ok True by (simp_all add: base_ok_def to_map_def inserted_def)
  let ?step = "if is_io (evs b e) then Some (evmap_io_add env b (ev_fd (evs b e)) e)
    else evmap_signal_add env b (ev_fd (evs b e)) e"
  have run: "add_to_map env b e = ?step \<bind> (\<lambda>(res, b).
      if res \<noteq> -1 then event_queue_insert_inserted b e \<bind> (\<lambda>b. Some (0, b)) else Some (-1, b))"
    using True by (simp add: add_to_map_def to_map_def is_io_def and_or_eq_0 Let_def)
  obtain res b1 where b1: "?step = Some (res, b1)" "no_maps b1 = no_maps b"
    "res = -1 \<and> io_list b1 = io_list b \<and> sig_list b1 = sig_list b \<and> maps_ok b1
     \<or> res \<noteq> -1 \<and> io_ok (io_map b1) (io_nentries b1) ((inserted b)(e := True)) (evs b)
        \<and> sig_ok (sig_map b1) (sig_nentries b1) ((inserted b)(e := True)) (evs b)"
  proof (cases "is_io (evs b e)")
    case io: True
    obtain res b1 where eq: "evmap_io_add env b (ev_fd (evs b e)) e = (res, b1)" by fastforce
    note r = evmap_io_add_ok [OF m ni io eq]
    show ?thesis
      by (rule that [of res b1])
        (use r eq io m no_mapsD [OF r(1)] sig_other [where r = "evs b", OF io] in \<open>auto simp: maps_ok_def sig_list_def\<close>)
  next
    case sg: False
    have "0 \<le> ev_fd (evs b e)" using sig True sg by (simp add: to_map_def)
    from evmap_signal_add_ok [OF m ni sg this] obtain res b1 where
      r: "evmap_signal_add env b (ev_fd (evs b e)) e = Some (res, b1)" "no_maps b1 = no_maps b" "io_map b1 = io_map b"
        "io_nentries b1 = io_nentries b"
        "res = -1 \<and> sig_list b1 = sig_list b \<and> sig_ok (sig_map b1) (sig_nentries b1) (inserted b) (evs b)
         \<or> res = 1 \<and> sig_list b1 = (sig_list b)(ev_fd (evs b e) := e # sig_list b (ev_fd (evs b e)))
           \<and> sig_ok (sig_map b1) (sig_nentries b1) ((inserted b)(e := True)) (evs b)" .
    show ?thesis
      by (rule that [of res b1])
        (use r sg m no_mapsD [OF r(2)] io_other [where r = "evs b", OF sg] in \<open>auto simp: maps_ok_def io_list_def\<close>)
  qed
  note same = no_mapsD [OF b1(2)]
  have q1: "queues_ok b1" using q queues_maps [OF b1(2)] by simp
  show ?thesis
  proof (cases "res = -1")
    case True
    then have "add_to_map env b e = Some (-1, b1)" using run b1(1) by simp
    then show ?thesis
      by (rule that) (use True b1 q1 same core_no_maps [OF b1(2)] no_maps_calls [OF b1(2)] in \<open>simp_all add: base_ok_def\<close>)
  next
    case False
    have "\<not> bit (flags b1 e) 1" using ni same by (simp add: inserted_def)
    from insert_inserted_ok [OF q1 this] obtain b2 where b2: "event_queue_insert_inserted b1 e = Some b2"
      "moved e (flags b1 e OR EVLIST_INSERTED) b1 b2" "queues_ok b2" "timeheap b2 = timeheap b1"
      "activequeues b2 = activequeues b1" "active_later_queue b2 = active_later_queue b1" .
    have "maps_ok b2" by (rule moved_maps [OF b2(2)]) (use b1(3) False same in auto)
    moreover have "add_to_map env b e = Some (0, b2)" using run b1(1) False b2(1) by simp
    moreover have "core b2 = core b"
      using core_rest [of b2 b1] b2(2) core_no_maps [OF b1(2)] by (simp add: moved_def)
    moreover have "fewer_calls b b2"
      using fewer_calls_trans [OF no_maps_calls [OF b1(2)] rest_calls [of b2 b1]] b2(2) by (simp add: moved_def)
    ultimately show ?thesis
      using that [of 0 b2] b2 same True by (simp add: base_ok_def moved_def)
  qed
qed


section \<open>What an operation on one event leaves alone\<close>

definition static :: "event_rec \<Rightarrow> event_rec" where
  "static r = r\<lparr>ev_flags := 0, ev_res := 0, ev_io_timeout := Timeval 0 0, ev_ncalls := 0, ev_pncalls := False\<rparr>"

text \<open>The pointer to a counter is set, and a write through it may happen.\<close>

definition hooked :: "event_rec \<Rightarrow> bool" where
  "hooked r \<longleftrightarrow> bit (ev_events r) 3 \<and> ev_ncalls r \<noteq> 0 \<and> ev_pncalls r"

definition runner :: "base \<Rightarrow> event option" where
  "runner b = map_option fst (running_ncalls b)"

definition hook_ok :: "base \<Rightarrow> event \<Rightarrow> bool" where
  "hook_ok b e \<longleftrightarrow> (hooked (evs b e) \<longrightarrow> runner b = Some e)"

definition kept :: "event \<Rightarrow> base \<Rightarrow> base \<Rightarrow> bool" where
  "kept e b b' \<longleftrightarrow> core b' = core b \<and> fewer_calls b b' \<and> static (evs b' e) = static (evs b e) \<and> (hooked (evs b' e) \<longrightarrow> hooked (evs b e))
     \<and> (\<forall>x. x \<noteq> e \<longrightarrow> evs b' x = evs b x \<and> ev_timeout (timeheap b') x = ev_timeout (timeheap b) x)"

lemma core_timeheap [simp]: "core (b\<lparr>timeheap := h\<rparr>) = core b"
  by (simp add: core_def)

lemma kept_refl [simp]: "kept e b b"
  by (simp add: kept_def)

lemma kept_trans [trans]: "kept e a b \<Longrightarrow> kept e b c \<Longrightarrow> kept e a c"
  by (auto simp: kept_def intro: fewer_calls_trans)

lemma staticD:
  assumes "static r = static s"
  shows "ev_base r = ev_base s" "ev_fd r = ev_fd s" "ev_events r = ev_events s" "ev_pri r = ev_pri s"
    "ev_closure r = ev_closure s" "ev_callback r = ev_callback s" "ev_arg r = ev_arg s"
  using arg_cong [OF assms, of ev_base] arg_cong [OF assms, of ev_fd] arg_cong [OF assms, of ev_events]
    arg_cong [OF assms, of ev_pri] arg_cong [OF assms, of ev_closure] arg_cong [OF assms, of ev_callback]
    arg_cong [OF assms, of ev_arg] by (simp_all add: static_def hooked_def)

text \<open>The same for an operation on several events.\<close>

definition kept_all :: "base \<Rightarrow> base \<Rightarrow> bool" where
  "kept_all b b' \<longleftrightarrow> core b' = core b \<and> fewer_calls b b' \<and> (\<forall>x. static (evs b' x) = static (evs b x) \<and> (hooked (evs b' x) \<longrightarrow> hooked (evs b x)))
     \<and> ev_timeout (timeheap b') = ev_timeout (timeheap b)"

lemma kept_all_refl [simp]: "kept_all b b"
  by (simp add: kept_all_def)

lemma kept_all_trans [trans]: "kept_all a b \<Longrightarrow> kept_all b c \<Longrightarrow> kept_all a c"
  by (auto simp: kept_all_def intro: fewer_calls_trans)

lemma kept_static: "kept e b b' \<Longrightarrow> static (evs b' x) = static (evs b x)"
  by (cases "x = e") (simp_all add: kept_def)

lemma kept_kept_all: "kept e b b' \<Longrightarrow> ev_timeout (timeheap b') e = ev_timeout (timeheap b) e \<Longrightarrow> kept_all b b'"
proof -
  assume k: "kept e b b'" and t: "ev_timeout (timeheap b') e = ev_timeout (timeheap b) e"
  have "ev_timeout (timeheap b') = ev_timeout (timeheap b)"
    using k t by (auto simp: kept_def fun_eq_iff)
  moreover have "hooked (evs b' x) \<longrightarrow> hooked (evs b x)" for x using k by (cases "x = e") (simp_all add: kept_def)
  ultimately show ?thesis using k kept_static [OF k] by (simp add: kept_all_def kept_def)
qed

lemma coreD:
  assumes c: "core b' = core b"
  shows "length (activequeues b') = length (activequeues b)" "event_running_priority b' = event_running_priority b"
    "event_break b' = event_break b" "event_gotterm b' = event_gotterm b" "mono b' = mono b" "tv_cache b' = tv_cache b"
    "calls b' = calls b" "virtual_event_count b' = virtual_event_count b" "no_cache_time b' = no_cache_time b"
    "max_dispatch_time b' = max_dispatch_time b" "max_dispatch_callbacks b' = max_dispatch_callbacks b"
    "limit_callbacks_after_prio b' = limit_callbacks_after_prio b" "running_loop b' = running_loop b"
    "current_event b' = current_event b" "runner b' = runner b"
  using arg_cong [OF c, of "\<lambda>b. length (activequeues b)"] arg_cong [OF c, of event_running_priority]
    arg_cong [OF c, of event_break] arg_cong [OF c, of event_gotterm] arg_cong [OF c, of mono]
    arg_cong [OF c, of tv_cache] arg_cong [OF c, of calls] arg_cong [OF c, of virtual_event_count]
    arg_cong [OF c, of no_cache_time] arg_cong [OF c, of max_dispatch_time] arg_cong [OF c, of max_dispatch_callbacks]
    arg_cong [OF c, of limit_callbacks_after_prio] arg_cong [OF c, of running_loop] arg_cong [OF c, of current_event]
    arg_cong [OF c, of runner]
  by (simp_all add: core_def rest_def no_maps_def runner_def option.map_comp o_def case_prod_beta)

lemma statics:
  assumes "\<And>x. static (evs b' x) = static (evs b x)"
  shows "pris b' = pris b" "\<And>x. ev_base (evs b' x) = ev_base (evs b x)"
    "\<And>x. ev_events (evs b' x) = ev_events (evs b x)" "\<And>x. ev_fd (evs b' x) = ev_fd (evs b x)"
  using staticD [OF assms] by (simp_all add: pris_def fun_eq_iff)

lemma keptD:
  assumes k: "kept e b b'"
  shows "length (activequeues b') = length (activequeues b)" "event_running_priority b' = event_running_priority b"
    "event_break b' = event_break b" "event_gotterm b' = event_gotterm b" "mono b' = mono b" "tv_cache b' = tv_cache b"
    "calls b' = calls b" "pris b' = pris b" "\<And>x. ev_base (evs b' x) = ev_base (evs b x)"
    "\<And>x. ev_events (evs b' x) = ev_events (evs b x)" "\<And>x. ev_fd (evs b' x) = ev_fd (evs b x)"
    "\<And>x. x \<noteq> e \<Longrightarrow> flags b' x = flags b x" "\<And>x. hook_ok b x \<Longrightarrow> hook_ok b' x"
proof -
  have c: "core b' = core b" using k by (simp add: kept_def)
  note coreD [OF c] statics [OF kept_static [OF k]]
  then show "length (activequeues b') = length (activequeues b)" "event_running_priority b' = event_running_priority b"
    "event_break b' = event_break b" "event_gotterm b' = event_gotterm b" "mono b' = mono b" "tv_cache b' = tv_cache b"
    "calls b' = calls b" "pris b' = pris b" "ev_base (evs b' x) = ev_base (evs b x)"
    "ev_events (evs b' x) = ev_events (evs b x)" "ev_fd (evs b' x) = ev_fd (evs b x)" for x
    by simp_all
  show "x \<noteq> e \<Longrightarrow> flags b' x = flags b x" for x using k by (simp add: kept_def flags_def)
  show "hook_ok b x \<Longrightarrow> hook_ok b' x" for x
    using k coreD(15) [OF c] by (cases "x = e") (auto simp: hook_ok_def kept_def)
qed

lemma moved_kept: "moved e f b b' \<Longrightarrow> ev_timeout (timeheap b') = ev_timeout (timeheap b) \<Longrightarrow> kept e b b'"
  by (auto simp: moved_def kept_def static_def hooked_def intro: core_rest rest_calls)

lemma moved_evs: "moved e f b b' \<Longrightarrow> evs b' = (evs b)(e := (evs b e)\<lparr>ev_flags := flags b' e\<rparr>)"
  using moved_flags [of e f b b'] by (simp add: moved_def)

text \<open>A change of the fields that the invariant does not look at.\<close>

definition touched :: "base \<Rightarrow> base \<Rightarrow> bool" where
  "touched b b' \<longleftrightarrow> (\<forall>x. static (evs b' x) = static (evs b x) \<and> (hooked (evs b' x) \<longrightarrow> hooked (evs b x))) \<and> flags b' = flags b \<and> core b' = core b \<and> fewer_calls b b'
     \<and> timeheap b' = timeheap b \<and> activequeues b' = activequeues b \<and> active_later_queue b' = active_later_queue b
     \<and> event_count b' = event_count b \<and> event_count_active b' = event_count_active b
     \<and> io_map b' = io_map b \<and> io_nentries b' = io_nentries b \<and> sig_map b' = sig_map b \<and> sig_nentries b' = sig_nentries b"

lemma touched_ok:
  assumes "touched b b'"
  shows "queues_ok b' = queues_ok b" "maps_ok b' = maps_ok b" "base_ok b' = base_ok b"
proof -
  have s: "static (evs b' x) = static (evs b x)" for x using assms by (simp add: touched_def)
  have "pris b' = pris b" using staticD(4) [OF s] by (simp add: pris_def fun_eq_iff)
  then show "queues_ok b' = queues_ok b" using assms by (simp add: queues_ok_def touched_def)
  moreover have "\<forall>x. same_kind (evs b' x) (evs b x)"
    using staticD(2,3) [OF s] by (simp add: same_kind_def)
  from io_cong [OF this] sig_cong [OF this] show "maps_ok b' = maps_ok b"
    using assms by (simp add: maps_ok_def touched_def inserted_def [abs_def])
  ultimately show "base_ok b' = base_ok b" by (simp add: base_ok_def)
qed

lemma touched_upd:
  "static (g (evs b e)) = static (evs b e) \<Longrightarrow> hooked (g (evs b e)) \<longrightarrow> hooked (evs b e) \<Longrightarrow> ev_flags (g (evs b e)) = ev_flags (evs b e) \<Longrightarrow> touched b (upd b e g)"
proof -
  assume g: "static (g (evs b e)) = static (evs b e)" "hooked (g (evs b e)) \<longrightarrow> hooked (evs b e)" "ev_flags (g (evs b e)) = ev_flags (evs b e)"
  have "core (upd b e g) = core b" by (rule core_rest) simp
  moreover have "fewer_calls b (upd b e g)" by (simp add: rest_calls)
  ultimately show ?thesis using g by (simp add: touched_def fun_upd_idem_iff) (simp add: upd_def flags_def)
qed

lemma abort_ok:
  assumes "hook_ok b e"
  obtains b' where "abort_signal_loop b e = Some b'" "touched b b'" "evs b' = evs b"
proof (cases "hooked (evs b e)")
  case True
  with assms obtain n where n: "running_ncalls b = Some (e, n)" by (auto simp: hook_ok_def runner_def)
  show ?thesis
    by (rule that [of "b\<lparr>running_ncalls := Some (e, 0)\<rparr>"])
      (use True n in \<open>simp_all add: abort_signal_loop_def hooked_def touched_def core_def rest_def no_maps_def fewer_calls_def runner_def\<close>)
next
  case False
  then show ?thesis
    by (intro that [of b]) (auto simp: abort_signal_loop_def hooked_def touched_def)
qed

lemma touched_kept: "touched b b' \<Longrightarrow> \<forall>x. x \<noteq> e \<longrightarrow> evs b' x = evs b x \<Longrightarrow> kept e b b'"
  by (simp add: touched_def kept_def)

lemma moved_ok: "moved e f b b' \<Longrightarrow> queues_ok b' \<Longrightarrow> base_ok b \<Longrightarrow> bit f 1 = bit (flags b e) 1 \<Longrightarrow> base_ok b'"
  using moved_maps_same [of e f b b'] by (simp add: base_ok_def)

text \<open>An event is taken out of the active queues.\<close>

definition without :: "event \<Rightarrow> event list list \<Rightarrow> event list list" where
  "without e qs = map (filter (\<lambda>x. x \<noteq> e)) qs"

lemma without_active:
  assumes q: "queues_ok b" and e: "bit (flags b e) 3"
  shows "(activequeues b)[pris b e := remove1 e (activequeues b ! pris b e)] = without e (activequeues b)"
proof (rule nth_equalityI)
  fix p assume "p < length ((activequeues b)[pris b e := remove1 e (activequeues b ! pris b e)])"
  then have p: "p < length (activequeues b)" by simp
  have d: "distinct (activequeues b ! p)" and s: "\<forall>x. x \<in> set (activequeues b ! p) \<longleftrightarrow> bit (flags b x) 3 \<and> pris b x = p"
    using q p by (auto simp: queues_ok_def active_ok_def)
  have "filter (\<lambda>x. x \<noteq> e) (activequeues b ! p) = (if p = pris b e then remove1 e (activequeues b ! p) else activequeues b ! p)"
    using d s by (auto simp: distinct_remove1_removeAll removeAll_filter_not_eq filter_id_conv intro: filter_cong)
  then show "(activequeues b)[pris b e := remove1 e (activequeues b ! pris b e)] ! p = without e (activequeues b) ! p"
    using p by (simp add: without_def nth_list_update)
qed (simp add: without_def)

lemma without_inactive:
  assumes q: "queues_ok b" and e: "\<not> bit (flags b e) 3"
  shows "without e (activequeues b) = activequeues b"
  unfolding without_def
proof (rule map_idI)
  fix l assume "l \<in> set (activequeues b)"
  then obtain p where "p < length (activequeues b)" "l = activequeues b ! p" by (auto simp: in_set_conv_nth)
  then have "e \<notin> set l" using q e by (auto simp: queues_ok_def active_ok_def)
  then show "filter (\<lambda>x. x \<noteq> e) l = l" by (auto simp: filter_id_conv)
qed

section \<open>event\_add\<close>

lemma timers_retime:
  assumes "timers_ok s" "e \<notin> members s"
  shows "timers_ok (s\<lparr>ev_timeout := (ev_timeout s)(e := t)\<rparr>)"
proof -
  let ?v = "take (mh_n s) (mh_p s)"
  have "heap_ordered ((ev_timeout s)(e := t)) ?v"
    unfolding heap_ordered_def
  proof (intro allI impI)
    fix i assume i: "0 < i" "i < length ?v"
    have "parent_of i < length ?v" using parent_less [OF i(1)] i(2) by simp
    with i have "?v ! i \<noteq> e" "?v ! parent_of i \<noteq> e" using assms(2) nth_mem unfolding members_def by metis+
    then show "((ev_timeout s)(e := t)) (?v ! parent_of i) \<le> ((ev_timeout s)(e := t)) (?v ! i)"
      using assms(1) i by (simp add: timers_ok_def heap_ordered_def)
  qed
  then show ?thesis using assms(1) by (simp add: timers_ok_def members_def)
qed

text \<open>The parts of \<open>set_timeout\<close>.\<close>

lemma set_timeout_ok:
  assumes ok: "base_ok b" and hook: "hook_ok b e" and room: "bit (flags b e) 0 \<or> mh_n (timeheap b) < mh_a (timeheap b)"
  obtains b' where "set_timeout env b e tv tv_is_absolute = Some b'" "base_ok b'" "kept e b b'"
    "flags b' e = (if bit (flags b e) 3 \<and> bit (ev_res (evs b e)) 0 then flags b e AND NOT EVLIST_ACTIVE
                   else flags b e) OR EVLIST_TIMEOUT"
    "ev_timeout (timeheap b') e = (if tv_is_absolute then tv else evutil_timeradd (gettime b) tv)"
    "ev_res (evs b' e) = ev_res (evs b e)"
    "activequeues b' = (if bit (flags b e) 3 \<and> bit (ev_res (evs b e)) 0 then without e (activequeues b) else activequeues b)"
proof -
  define b1 where "b1 = (if ev_closure (evs b e) = EV_CLOSURE_EVENT_PERSIST \<and> \<not> tv_is_absolute
    then upd b e (\<lambda>r. r\<lparr>ev_io_timeout := tv\<rparr>) else b)"
  have t1: "touched b b1" by (auto simp: b1_def static_def hooked_def touched_def [of b b] intro: touched_upd)
  have k1: "kept e b b1" by (rule touched_kept [OF t1]) (simp add: b1_def)
  have f1: "flags b1 = flags b" "ev_res (evs b1 e) = ev_res (evs b e)" "timeheap b1 = timeheap b"
    "activequeues b1 = activequeues b"
    using t1 by (simp_all add: touched_def b1_def)
  have ok1: "base_ok b1" using ok touched_ok [OF t1] by simp
  obtain b2 where b2: "(if bit (flags b1 e) 0 then event_queue_remove_timeout b1 e else Some b1) = Some b2"
    "base_ok b2" "kept e b1 b2" "flags b2 e = flags b1 e AND NOT EVLIST_TIMEOUT"
    "mh_n (timeheap b2) < mh_a (timeheap b2)" "ev_res (evs b2 e) = ev_res (evs b1 e)"
    "activequeues b2 = activequeues b1"
  proof (cases "bit (flags b1 e) 0")
    case True
    have "queues_ok b1" using ok1 by (simp add: base_ok_def)
    from remove_timeout_ok [OF this True] obtain b2 where b2: "event_queue_remove_timeout b1 e = Some b2"
      "moved e (flags b1 e AND NOT EVLIST_TIMEOUT) b1 b2" "queues_ok b2" "mh_n (timeheap b2) < mh_a (timeheap b2)"
      "ev_timeout (timeheap b2) = ev_timeout (timeheap b1)" "activequeues b2 = activequeues b1" .
    show ?thesis
      by (rule that [of b2]) (use True b2 moved_ok [OF b2(2,3) ok1] moved_kept [OF b2(2)] moved_flags [OF b2(2)]
        in \<open>simp_all add: moved_def\<close>)
  next
    case False
    moreover from this have "flags b1 e = flags b1 e AND NOT EVLIST_TIMEOUT" by (auto simp: flag_eq_iff intro: gr0I)
    ultimately show ?thesis by (intro that [of b1]) (use ok1 room f1 in auto)
  qed
  have nt: "\<not> bit (flags b2 e) 0" using b2(4) by simp
  obtain b3 where b3: "(if bit (flags b2 e) 3 \<and> bit (ev_res (evs b2 e)) 0
      then abort_signal_loop b2 e \<bind> (\<lambda>b. event_queue_remove_active b e) else Some b2) = Some b3"
    "base_ok b3" "kept e b2 b3" "timeheap b3 = timeheap b2"
    "flags b3 e = (if bit (flags b2 e) 3 \<and> bit (ev_res (evs b2 e)) 0 then flags b2 e AND NOT EVLIST_ACTIVE else flags b2 e)"
    "ev_res (evs b3 e) = ev_res (evs b2 e)"
    "activequeues b3 = (if bit (flags b2 e) 3 \<and> bit (ev_res (evs b2 e)) 0 then without e (activequeues b2) else activequeues b2)"
  proof (cases "bit (flags b2 e) 3 \<and> bit (ev_res (evs b2 e)) 0")
    case True
    have "hook_ok b2 e" using hook keptD(13) [OF k1] keptD(13) [OF b2(3)] by blast
    from abort_ok [OF this] obtain a where a: "abort_signal_loop b2 e = Some a" "touched b2 a" "evs a = evs b2" .
    have fa: "flags a = flags b2" "timeheap a = timeheap b2" "activequeues a = activequeues b2" using a(2) by (simp_all add: touched_def)
    have oka: "base_ok a" "kept e b2 a" "bit (flags a e) 3"
      using b2(2) touched_ok(3) [OF a(2)] touched_kept [OF a(2)] True a(3) fa by simp_all
    from oka(1) have "queues_ok a" by (simp add: base_ok_def)
    from remove_active_ok [OF this oka(3)] obtain b3 where b3: "event_queue_remove_active a e = Some b3"
      "moved e (flags a e AND NOT EVLIST_ACTIVE) a b3" "queues_ok b3" "timeheap b3 = timeheap a"
      "activequeues b3 = (activequeues a)[pris a e := remove1 e (activequeues a ! pris a e)]" .
    show ?thesis
      by (rule that [of b3]) (use True a(1,3) b3 fa without_active [OF \<open>queues_ok a\<close> oka(3)] moved_evs [OF b3(2)] moved_ok [OF b3(2,3) oka(1)] kept_trans [OF oka(2) moved_kept [OF b3(2)]]
        moved_flags [OF b3(2)] in simp_all)
  next
    case False
    then show ?thesis by (intro that [of b2]) (use b2 in auto)
  qed
  have n3: "\<not> bit (flags b3 e) 0" using b3(5) nt by simp
  let ?t = "if tv_is_absolute then tv else evutil_timeradd (gettime b3) tv"
  let ?h = "(timeheap b3)\<lparr>ev_timeout := (ev_timeout (timeheap b3))(e := ?t)\<rparr>" and ?m = "flags b3 e OR EVLIST_TIMEOUT"
  define b4 where "b4 = b3\<lparr>timeheap := ?h\<rparr>"
  have h4: "heap_ok ?h (flags b3)"
    using b3(2) n3 timers_retime [of "timeheap b3" e] by (auto simp: base_ok_def queues_ok_def heap_ok_def members_def)
  have q4: "queues_ok b4" using b3(2) h4 by (simp add: b4_def base_ok_def queues_ok_def)
  have m4: "maps_ok b4" using b3(2) by (simp add: b4_def base_ok_def maps_ok_def inserted_def [abs_def])
  have k4: "kept e b3 b4" by (simp add: b4_def kept_def)
  have "\<not> bit (flags b4 e) 0" "mh_n (timeheap b4) < mh_a (timeheap b4)" using n3 b2(5) b3(4) by (simp_all add: b4_def)
  from insert_timeout_ok [OF q4 this, of env] obtain b5 where b5: "event_queue_insert_timeout env b4 e = Some b5"
    "moved e (flags b4 e OR EVLIST_TIMEOUT) b4 b5" "queues_ok b5" "ev_timeout (timeheap b5) = ev_timeout (timeheap b4)" "activequeues b5 = activequeues b4" .
  have now: "gettime b3 = gettime b"
    using keptD(5,6) [OF k1] keptD(5,6) [OF b2(3)] keptD(5,6) [OF b3(3)] by (simp add: gettime_def)
  show ?thesis
  proof (rule that [of b5])
    show "set_timeout env b e tv tv_is_absolute = Some b5"
      using b2(1) b3(1) b5(1) by (simp add: set_timeout_def b1_def [symmetric] b4_def Let_def)
    show "base_ok b5" using moved_ok [OF b5(2,3)] q4 m4 by (simp add: base_ok_def)
    show "kept e b b5" using k1 b2(3) b3(3) k4 moved_kept [OF b5(2,4)] kept_trans by metis
    show "flags b5 e = (if bit (flags b e) 3 \<and> bit (ev_res (evs b e)) 0 then flags b e AND NOT EVLIST_ACTIVE
                   else flags b e) OR EVLIST_TIMEOUT"
      using moved_flags [OF b5(2)] b3(5) b2(4,6) f1 by (auto simp: b4_def flag_eq_iff)
    show "ev_timeout (timeheap b5) e = (if tv_is_absolute then tv else evutil_timeradd (gettime b) tv)"
      using b5(4) now by (simp add: b4_def)
    show "ev_res (evs b5 e) = ev_res (evs b e)"
      using b5(2) b3(6) b2(6) f1(2) by (simp add: moved_def b4_def)
    show "activequeues b5 = (if bit (flags b e) 3 \<and> bit (ev_res (evs b e)) 0 then without e (activequeues b) else activequeues b)"
      using b5(5) b3(7) b2(4,6,7) f1 by (simp add: b4_def)
  qed
qed

text \<open>
  What \<open>event_add\<close> asks of its event, besides the flags of a queued event: a signal event has a
  signal number.
\<close>

definition addable :: "base \<Rightarrow> event \<Rightarrow> bool" where
  "addable b e \<longleftrightarrow> (bit (ev_events (evs b e)) 3 \<and> \<not> is_io (evs b e) \<longrightarrow> 0 \<le> ev_fd (evs b e))"

definition same_queues :: "base \<Rightarrow> base \<Rightarrow> bool" where
  "same_queues b b' \<longleftrightarrow> members (timeheap b') = members (timeheap b) \<and> ev_timeout (timeheap b') = ev_timeout (timeheap b)
     \<and> activequeues b' = activequeues b \<and> active_later_queue b' = active_later_queue b
     \<and> io_list b' = io_list b \<and> sig_list b' = sig_list b"

text \<open>The flags of an event after a successful \<open>event_add\<close>.\<close>

definition added_flags :: "base \<Rightarrow> event \<Rightarrow> bool \<Rightarrow> u16" where
  "added_flags b e timed =
     (let f = (if to_map b e then flags b e OR EVLIST_INSERTED else flags b e)
      in if timed then (if bit f 3 \<and> bit (ev_res (evs b e)) 0 then f AND NOT EVLIST_ACTIVE else f) OR EVLIST_TIMEOUT
         else f)"

lemma base_flags_ALL: "base_ok b \<Longrightarrow> flags b e AND NOT EVLIST_ALL = 0"
  by (simp add: base_ok_def queues_ok_def flags_ok_def)

lemma reserve_base:
  assumes ok: "base_ok b" and eq: "min_heap_reserve mm (timeheap b) n = (r, h)"
  shows "r = -1 \<and> h = timeheap b \<or> r = 0 \<and> base_ok (b\<lparr>timeheap := h\<rparr>) \<and> n \<le> mh_a h \<and> mh_n h = mh_n (timeheap b)
    \<and> members h = members (timeheap b) \<and> ev_timeout h = ev_timeout (timeheap b)"
proof -
  have "timers_ok (timeheap b)" using ok by (simp add: base_ok_def queues_ok_def heap_ok_def)
  from reserve_ok [OF this eq] show ?thesis
  proof
    assume r: "r = 0 \<and> n \<le> mh_a h \<and> timers_ok h \<and> mh_n h = mh_n (timeheap b) \<and> members h = members (timeheap b)
      \<and> ev_timeout h = ev_timeout (timeheap b) \<and> min_heap_idx h = min_heap_idx (timeheap b)"
    then have "queues_ok (b\<lparr>timeheap := h\<rparr>)"
      using ok by (simp add: base_ok_def queues_ok_def heap_ok_def)
    moreover have "maps_ok (b\<lparr>timeheap := h\<rparr>)" using ok by (simp add: base_ok_def maps_ok_def inserted_def [abs_def])
    ultimately show ?thesis using r by (simp add: base_ok_def)
  qed simp
qed

lemma event_add_nolock_ok:
  assumes ok: "base_ok b" and hook: "hook_ok b e" and ad: "addable b e"
  obtains res b' where "event_add_nolock env b e tv tv_is_absolute = Some (res, b')" "base_ok b'" "kept e b b'"
    "res = -1 \<and> evs b' = evs b \<and> same_queues b b'
     \<or> res = 0 \<and> \<not> bit (flags b e) 6 \<and> flags b' e = added_flags b e (tv \<noteq> None)
       \<and> (\<forall>t. tv = Some t \<longrightarrow> ev_timeout (timeheap b') e = (if tv_is_absolute then t else evutil_timeradd (gettime b) t))"
    "ev_res (evs b' e) = ev_res (evs b e)"
    "tv \<noteq> None \<and> bit (flags b e) 3 \<and> bit (ev_res (evs b e)) 0 \<or> activequeues b' = activequeues b"
proof (cases "bit (flags b e) 6")
  case True
  with base_flags_ALL [OF ok, of e] have "event_add_nolock env b e tv tv_is_absolute = Some (-1, b)"
    by (simp add: event_add_nolock_def)
  then show ?thesis by (rule that) (use ok in \<open>simp_all add: same_queues_def\<close>)
next
  case nf: False
  let ?rsv = "if tv \<noteq> None \<and> \<not> bit (flags b e) 0
    then min_heap_reserve (heap_realloc env) (timeheap b) (1 + min_heap_size (timeheap b)) else (0, timeheap b)"
  obtain r h where rh: "?rsv = (r, h)" by fastforce
  have run: "event_add_nolock env b e tv tv_is_absolute = (if r = -1 then Some (-1, b\<lparr>timeheap := h\<rparr>)
    else add_to_map env (b\<lparr>timeheap := h\<rparr>) e \<bind> (\<lambda>(res, b). case tv of
        Some t \<Rightarrow> if res \<noteq> -1 then set_timeout env b e t tv_is_absolute \<bind> (\<lambda>b. Some (res, b)) else Some (res, b)
      | None \<Rightarrow> Some (res, b)))"
    using base_flags_ALL [OF ok, of e] nf rh by (simp add: event_add_nolock_def)
  have h: "r = -1 \<and> h = timeheap b \<or> r = 0 \<and> base_ok (b\<lparr>timeheap := h\<rparr>) \<and> members h = members (timeheap b)
      \<and> ev_timeout h = ev_timeout (timeheap b) \<and> (tv \<noteq> None \<longrightarrow> bit (flags b e) 0 \<or> mh_n h < mh_a h)"
    using rh reserve_base [OF ok, of "heap_realloc env"] ok by (fastforce simp: min_heap_size_def split: if_splits)
  show ?thesis
  proof (cases "r = -1")
    case True
    then have "b\<lparr>timeheap := h\<rparr> = b" using h by auto
    with True run have "event_add_nolock env b e tv tv_is_absolute = Some (-1, b)" by simp
    then show ?thesis by (rule that) (use ok in \<open>simp_all add: same_queues_def\<close>)
  next
    case False
    let ?b = "b\<lparr>timeheap := h\<rparr>"
    have okh: "base_ok ?b" and kh: "kept e b ?b" and gh: "gettime ?b = gettime b"
      using h False by (simp_all add: kept_def gettime_def)
    have "bit (ev_events (evs ?b e)) 3 \<and> \<not> is_io (evs ?b e) \<longrightarrow> 0 \<le> ev_fd (evs ?b e)" using ad by (simp add: addable_def)
    from add_to_map_ok [OF okh this, of env] obtain res b1 where
      b1: "add_to_map env ?b e = Some (res, b1)" "base_ok b1" "timeheap b1 = timeheap ?b" "activequeues b1 = activequeues ?b"
      "active_later_queue b1 = active_later_queue ?b" "core b1 = core ?b" "fewer_calls ?b b1"
      "res = -1 \<and> evs b1 = evs ?b \<and> io_list b1 = io_list ?b \<and> sig_list b1 = sig_list ?b
       \<or> res = 0 \<and> evs b1 = (if to_map ?b e then (evs ?b)(e := (evs ?b e)\<lparr>ev_flags := flags ?b e OR EVLIST_INSERTED\<rparr>) else evs ?b)" .
    have tm: "to_map ?b e = to_map b e" by (simp add: to_map_def)
    have "fewer_calls b b1" using b1(7) by (simp add: fewer_calls_def)
    then have k1: "kept e b b1" using kh b1(3,6,7,8) tm by (auto simp: kept_def static_def hooked_def)
    show ?thesis
    proof (cases "res = -1")
      case True
      then have "event_add_nolock env b e tv tv_is_absolute = Some (-1, b1)"
        using run b1(1) False by (simp split: option.split)
      moreover have "evs b1 = evs b \<and> same_queues b b1"
        using True b1 h False by (auto simp: same_queues_def io_list_def sig_list_def fun_eq_iff)
      ultimately show ?thesis using that [of "-1" b1] b1(2,4) k1 by simp
    next
      case r0: False
      with b1(8) tm have e1: "res = 0" "evs b1 = (if to_map b e then (evs b)(e := (evs b e)\<lparr>ev_flags := flags b e OR EVLIST_INSERTED\<rparr>) else evs b)"
        by auto
      then have f1: "flags b1 e = (if to_map b e then flags b e OR EVLIST_INSERTED else flags b e)"
        and r1: "ev_res (evs b1 e) = ev_res (evs b e)" by (simp_all add: flags_def)
      show ?thesis
      proof (cases tv)
        case None
        then have "event_add_nolock env b e tv tv_is_absolute = Some (0, b1)" using run b1(1) False e1 by simp
        then show ?thesis by (rule that) (use None b1(2,4) k1 nf f1 r1 in \<open>simp_all add: added_flags_def Let_def\<close>)
      next
        case (Some t)
        have "bit (flags b1 e) 0 \<or> mh_n (timeheap b1) < mh_a (timeheap b1)" using h False Some f1 b1(3) by auto
        from set_timeout_ok [OF b1(2) keptD(13) [OF k1 hook] this, of env t tv_is_absolute] obtain b2 where
          b2: "set_timeout env b1 e t tv_is_absolute = Some b2" "base_ok b2" "kept e b1 b2"
          "flags b2 e = (if bit (flags b1 e) 3 \<and> bit (ev_res (evs b1 e)) 0 then flags b1 e AND NOT EVLIST_ACTIVE
                   else flags b1 e) OR EVLIST_TIMEOUT"
          "ev_timeout (timeheap b2) e = (if tv_is_absolute then t else evutil_timeradd (gettime b1) t)"
          "ev_res (evs b2 e) = ev_res (evs b1 e)"
          "activequeues b2 = (if bit (flags b1 e) 3 \<and> bit (ev_res (evs b1 e)) 0 then without e (activequeues b1) else activequeues b1)" .
        have "event_add_nolock env b e tv tv_is_absolute = Some (0, b2)" using run b1(1) False Some e1 b2(1) by simp
        moreover have "gettime b1 = gettime b" using keptD(5,6) [OF k1] by (simp add: gettime_def)
        ultimately show ?thesis
          using that [of 0 b2] b2 b1(4) kept_trans [OF k1 b2(3)] Some nf f1 r1 by (simp add: added_flags_def Let_def)
      qed
    qed
  qed
qed

section \<open>event\_del\<close>

text \<open>Step by step: an operation that is run when a flag is set and clears it.\<close>

lemma timeout_step:
  assumes ok: "base_ok b"
  obtains b' where "(if bit (flags b e) 0 then event_queue_remove_timeout b e else Some b) = Some b'" "base_ok b'" "kept e b b'"
    "flags b' e = flags b e AND NOT EVLIST_TIMEOUT" "ev_timeout (timeheap b') = ev_timeout (timeheap b)"
    "activequeues b' = activequeues b" "evs b' = (evs b)(e := (evs b e)\<lparr>ev_flags := flags b' e\<rparr>)"
proof (cases "bit (flags b e) 0")
  case True
  have "queues_ok b" using ok by (simp add: base_ok_def)
  from remove_timeout_ok [OF this True] obtain b' where b': "event_queue_remove_timeout b e = Some b'"
    "moved e (flags b e AND NOT EVLIST_TIMEOUT) b b'" "queues_ok b'" "ev_timeout (timeheap b') = ev_timeout (timeheap b)"
    "activequeues b' = activequeues b" .
  show ?thesis
    by (rule that [of b']) (use True b' moved_ok [OF b'(2,3) ok] moved_kept [OF b'(2)] moved_flags [OF b'(2)] moved_evs [OF b'(2)] in simp_all)
next
  case False
  moreover from this have "flags b e = flags b e AND NOT EVLIST_TIMEOUT" by (auto simp: flag_eq_iff intro: gr0I)
  ultimately show ?thesis by (intro that [of b]) (use ok in \<open>auto simp: ev_flags_flags [symmetric]\<close>)
qed

lemma active_step:
  assumes ok: "base_ok b"
  obtains b' where "(if bit (flags b e) 3 then event_queue_remove_active b e
      else if bit (flags b e) 5 then event_queue_remove_active_later b e else Some b) = Some b'"
    "base_ok b'" "kept e b b'" "flags b' e = (flags b e AND NOT EVLIST_ACTIVE) AND NOT EVLIST_ACTIVE_LATER"
    "ev_timeout (timeheap b') = ev_timeout (timeheap b)" "activequeues b' = without e (activequeues b)"
    "evs b' = (evs b)(e := (evs b e)\<lparr>ev_flags := flags b' e\<rparr>)"
proof -
  have q: "queues_ok b" using ok by (simp add: base_ok_def)
  consider (active) "bit (flags b e) 3" "\<not> bit (flags b e) 5" | (later) "bit (flags b e) 5" "\<not> bit (flags b e) 3"
    | (none) "\<not> bit (flags b e) 3" "\<not> bit (flags b e) 5" using active_once [OF q, of e] by blast
  then show ?thesis
  proof cases
    case active
    from remove_active_ok [OF q active(1)] obtain b' where b': "event_queue_remove_active b e = Some b'"
      "moved e (flags b e AND NOT EVLIST_ACTIVE) b b'" "queues_ok b'" "timeheap b' = timeheap b"
      "activequeues b' = (activequeues b)[pris b e := remove1 e (activequeues b ! pris b e)]" .
    show ?thesis
      by (rule that [of b']) (use active b' without_active [OF q active(1)] moved_ok [OF b'(2,3) ok] moved_kept [OF b'(2)] moved_flags [OF b'(2)] moved_evs [OF b'(2)]
        in \<open>auto simp: flag_eq_iff\<close>)
  next
    case later
    from remove_later_ok [OF q later(1)] obtain b' where b': "event_queue_remove_active_later b e = Some b'"
      "moved e (flags b e AND NOT EVLIST_ACTIVE_LATER) b b'" "queues_ok b'" "timeheap b' = timeheap b"
      "activequeues b' = activequeues b" .
    show ?thesis
      by (rule that [of b']) (use later b' without_inactive [OF q later(2)] moved_ok [OF b'(2,3) ok] moved_kept [OF b'(2)] moved_flags [OF b'(2)] moved_evs [OF b'(2)]
        in \<open>auto simp: flag_eq_iff\<close>)
  next
    case none
    then show ?thesis by (intro that [of b]) (use ok without_inactive [OF q none(1)] in \<open>auto simp: flag_eq_iff ev_flags_flags [symmetric]\<close>)
  qed
qed

lemma kept_maps:
  assumes "no_maps b' = no_maps b"
  shows "kept e b b'"
  using no_mapsD [OF assms] core_no_maps [OF assms] no_maps_calls [OF assms] by (simp add: kept_def)

lemma inserted_step:
  assumes ok: "base_ok b" and e: "bit (flags b e) 1"
  obtains b1 res b' where "event_queue_remove_inserted b e = Some b1"
    "(if is_io (evs b1 e) then evmap_io_del env b1 (ev_fd (evs b1 e)) e
      else evmap_signal_del env b1 (ev_fd (evs b1 e)) e) = Some (res, b')" "res \<in> {-1, 0, 1}"
    "base_ok b'" "kept e b b'" "flags b' e = flags b e AND NOT EVLIST_INSERTED"
    "ev_timeout (timeheap b') = ev_timeout (timeheap b)" "activequeues b' = activequeues b"
    "evs b' = (evs b)(e := (evs b e)\<lparr>ev_flags := flags b' e\<rparr>)"
proof -
  have q: "queues_ok b" and m: "maps_ok b" and ins: "inserted b e" using ok e by (simp_all add: base_ok_def inserted_def)
  from remove_inserted_ok [OF q e] obtain b1 where b1: "event_queue_remove_inserted b e = Some b1"
    "moved e (flags b e AND NOT EVLIST_INSERTED) b b1" "queues_ok b1" "timeheap b1 = timeheap b" "activequeues b1 = activequeues b" .
  note r = restD [of b1 b]
  have rest: "rest b1 = rest b" and R: "same_kind (evs b1 e) (evs b e)" "\<forall>x. x \<noteq> e \<longrightarrow> evs b1 x = evs b x"
    using b1(2) by (simp_all add: moved_def same_kind_def)
  have sk: "\<forall>x. same_kind (evs b1 x) (evs b x)" using moved_kind [OF b1(2)] by blast
  have i1: "inserted b1 = (inserted b)(e := False)" using moved_inserted [OF b1(2)] by simp
  have k1: "kept e b b1" using moved_kept [OF b1(2)] b1(4) by simp
  obtain res b' where b': "(if is_io (evs b1 e) then evmap_io_del env b1 (ev_fd (evs b1 e)) e
      else evmap_signal_del env b1 (ev_fd (evs b1 e)) e) = Some (res, b')" "res \<in> {-1, 0, 1}" "no_maps b' = no_maps b1"
    "io_ok (io_map b') (io_nentries b') ((inserted b)(e := False)) (evs b1)"
    "sig_ok (sig_map b') (sig_nentries b') ((inserted b)(e := False)) (evs b1)"
  proof (cases "is_io (evs b e)")
    case True
    then have io1: "is_io (evs b1 e)" using same_kindD(1) [OF sk] by simp
    from evmap_io_del_ok [OF m R ins True r(1,2) [OF rest] refl, of env] obtain res b' where
      b': "evmap_io_del env b1 (ev_fd (evs b1 e)) e = Some (res, b')" "res \<in> {-1, 0, 1}" "no_maps b' = no_maps b1"
      "sig_map b' = sig_map b1" "sig_nentries b' = sig_nentries b1"
      "io_ok (io_map b') (io_nentries b') ((inserted b)(e := False)) (evs b1)" .
    have "sig_ok (sig_map b') (sig_nentries b') ((inserted b)(e := False)) (evs b1)"
      using m b'(4,5) r(3,4) [OF rest] sig_cong [OF sk] sig_other [where r = "evs b1", OF io1] by (simp add: maps_ok_def)
    with b' io1 that show ?thesis by simp
  next
    case False
    then have io1: "\<not> is_io (evs b1 e)" using same_kindD(1) [OF sk] by simp
    from evmap_signal_del_ok [OF m R ins False r(3,4) [OF rest] refl, of env] obtain res b' where
      b': "evmap_signal_del env b1 (ev_fd (evs b1 e)) e = Some (res, b')" "res \<in> {-1, 1}" "no_maps b' = no_maps b1"
      "io_map b' = io_map b1" "io_nentries b' = io_nentries b1"
      "sig_ok (sig_map b') (sig_nentries b') ((inserted b)(e := False)) (evs b1)" .
    have "io_ok (io_map b') (io_nentries b') ((inserted b)(e := False)) (evs b1)"
      using m b'(4,5) r(1,2) [OF rest] io_cong [OF sk] io_other [where r = "evs b1", OF io1] by (simp add: maps_ok_def)
    with b' io1 that show ?thesis by auto
  qed
  have "base_ok b'" using b1(3) queues_maps [OF b'(3)] b'(4,5) i1 no_mapsD(1,9) [OF b'(3)]
    by (simp add: base_ok_def maps_ok_def)
  moreover have "kept e b b'" using kept_trans [OF k1 kept_maps [OF b'(3)]] .
  moreover have "flags b' e = flags b e AND NOT EVLIST_INSERTED"
    using no_mapsD(7) [OF b'(3)] moved_flags [OF b1(2)] by simp
  moreover have "ev_timeout (timeheap b') = ev_timeout (timeheap b)" using no_mapsD(2) [OF b'(3)] b1(4) by simp
  moreover have "activequeues b' = activequeues b" using no_mapsD(3) [OF b'(3)] b1(5) by simp
  moreover have "evs b' = (evs b)(e := (evs b e)\<lparr>ev_flags := flags b' e\<rparr>)"
    using no_mapsD(1,7) [OF b'(3)] moved_evs [OF b1(2)] by simp
  ultimately show ?thesis using that b1(1) b'(1,2) by blast
qed

lemma event_del_nolock_ok:
  assumes ok: "base_ok b" and hook: "hook_ok b e" and base: "ev_base (evs b e)"
    and nf: "blocking = EVENT_DEL_EVEN_IF_FINALIZING \<or> \<not> bit (flags b e) 6"
  obtains res b' where "event_del_nolock env b e blocking = Some (res, b')" "res \<in> {-1, 0}" "base_ok b'" "kept e b b'"
    "\<forall>n. bit (flags b' e) n \<longleftrightarrow> bit (flags b e) n \<and> n \<notin> {0, 1, 3, 5}"
    "ev_timeout (timeheap b') = ev_timeout (timeheap b)" "activequeues b' = without e (activequeues b)"
    "evs b' = (evs b)(e := (evs b e)\<lparr>ev_flags := flags b' e\<rparr>)"
proof -
  from abort_ok [OF hook] obtain a where a: "abort_signal_loop b e = Some a" "touched b a" "evs a = evs b" .
  have fa: "flags a = flags b" "timeheap a = timeheap b" "activequeues a = activequeues b" using a(2) by (simp_all add: touched_def)
  have oka: "base_ok a" and ka: "kept e b a"
    using ok touched_ok(3) [OF a(2)] touched_kept [OF a(2)] a(3) by simp_all
  from timeout_step [OF oka, of e] obtain b1 where b1: "(if bit (flags a e) 0 then event_queue_remove_timeout a e else Some a) = Some b1"
    "base_ok b1" "kept e a b1" "flags b1 e = flags a e AND NOT EVLIST_TIMEOUT"
    "ev_timeout (timeheap b1) = ev_timeout (timeheap a)" "activequeues b1 = activequeues a"
    "evs b1 = (evs a)(e := (evs a e)\<lparr>ev_flags := flags b1 e\<rparr>)" .
  from active_step [OF b1(2), of e] obtain b2 where b2: "(if bit (flags b1 e) 3 then event_queue_remove_active b1 e
      else if bit (flags b1 e) 5 then event_queue_remove_active_later b1 e else Some b1) = Some b2"
    "base_ok b2" "kept e b1 b2" "flags b2 e = (flags b1 e AND NOT EVLIST_ACTIVE) AND NOT EVLIST_ACTIVE_LATER"
    "ev_timeout (timeheap b2) = ev_timeout (timeheap b1)" "activequeues b2 = without e (activequeues b1)"
    "evs b2 = (evs b1)(e := (evs b1 e)\<lparr>ev_flags := flags b2 e\<rparr>)" .
  have e2: "evs b2 = (evs b)(e := (evs b e)\<lparr>ev_flags := flags b2 e\<rparr>)" using a(3) b1(7) b2(7) by simp
  have k2: "kept e b b2" using ka b1(3) b2(3) kept_trans by blast
  have run: "event_del_nolock env b e blocking = (if bit (flags b2 e) 1 then
      event_queue_remove_inserted b2 e \<bind> (\<lambda>b3. (if is_io (evs b3 e) then evmap_io_del env b3 (ev_fd (evs b3 e)) e
        else evmap_signal_del env b3 (ev_fd (evs b3 e)) e) \<bind> (\<lambda>(res, b). Some (if res = 1 then 0 else res, b)))
    else Some (0, b2))"
    using base nf base_flags_ALL [OF ok, of e] a(1) b1(1) b2(1) fa
    by (auto simp: event_del_nolock_def is_io_def Let_def)
  have f2: "bit (flags b2 e) n \<longleftrightarrow> bit (flags b e) n \<and> n \<notin> {0, 3, 5}" for n using b1(4) b2(4) fa by auto
  show ?thesis
  proof (cases "bit (flags b2 e) 1")
    case True
    from inserted_step [OF b2(2) True, of env] obtain b3 res b4 where b3: "event_queue_remove_inserted b2 e = Some b3"
      and b4: "(if is_io (evs b3 e) then evmap_io_del env b3 (ev_fd (evs b3 e)) e
        else evmap_signal_del env b3 (ev_fd (evs b3 e)) e) = Some (res, b4)" "res \<in> {-1, 0, 1}"
        "base_ok b4" "kept e b2 b4" "flags b4 e = flags b2 e AND NOT EVLIST_INSERTED"
        "ev_timeout (timeheap b4) = ev_timeout (timeheap b2)" "activequeues b4 = activequeues b2" "evs b4 = (evs b2)(e := (evs b2 e)\<lparr>ev_flags := flags b4 e\<rparr>)" .
    have "event_del_nolock env b e blocking = Some (if res = 1 then 0 else res, b4)"
      unfolding run using True b3 b4(1) by simp
    then show ?thesis
      by (rule that) (use b4 kept_trans [OF k2 b4(4)] f2 e2 b1(5,6) b2(5,6) fa in auto)
  next
    case False
    then have "event_del_nolock env b e blocking = Some (0, b2)" using run by simp
    then show ?thesis by (rule that) (use b2(2) k2 False f2 e2 b1(5,6) b2(5,6) fa in auto)
  qed
qed

section \<open>Activation\<close>

text \<open>The queue of priority \<open>p\<close> gets the event at its end.\<close>

lemma queues_okD: "base_ok b \<Longrightarrow> queues_ok b"
  by (simp add: base_ok_def)

lemma event_callback_activate_ok:
  assumes ok: "base_ok b" and pri: "pris b e < length (activequeues b)" and nf: "\<not> bit (flags b e) 6"
  obtains r b' where "event_callback_activate_nolock b e = Some (r, b')" "base_ok b'" "kept e b b'"
    "flags b' e = (flags b e AND NOT EVLIST_ACTIVE_LATER) OR EVLIST_ACTIVE"
    "activequeues b' = (if bit (flags b e) 3 then activequeues b
       else (activequeues b)[pris b e := activequeues b ! pris b e @ [e]])"
    "evs b' = (evs b)(e := (evs b e)\<lparr>ev_flags := flags b' e\<rparr>)" "timeheap b' = timeheap b"
proof -
  note q = queues_okD [OF ok]
  consider (active) "bit (flags b e) 3" "\<not> bit (flags b e) 5" | (later) "bit (flags b e) 5" "\<not> bit (flags b e) 3"
    | (none) "\<not> bit (flags b e) 3" "\<not> bit (flags b e) 5" using active_once [OF q, of e] by blast
  then show ?thesis
  proof cases
    case active
    then have "flags b e = (flags b e AND NOT EVLIST_ACTIVE_LATER) OR EVLIST_ACTIVE" by (auto simp: flag_eq_iff)
    with active nf show ?thesis
      by (intro that [of 0 b]) (use ok in \<open>auto simp: event_callback_activate_nolock_def Let_def ev_flags_flags [symmetric]\<close>)
  next
    case none
    from insert_active_ok [OF q none pri] obtain b' where b': "event_queue_insert_active b e = Some b'"
      "moved e (flags b e OR EVLIST_ACTIVE) b b'" "queues_ok b'" "timeheap b' = timeheap b"
      "activequeues b' = (activequeues b)[pris b e := activequeues b ! pris b e @ [e]]" .
    have f: "flags b e OR EVLIST_ACTIVE = (flags b e AND NOT EVLIST_ACTIVE_LATER) OR EVLIST_ACTIVE"
      using none by (auto simp: flag_eq_iff)
    show ?thesis
      by (intro that [of 1 b'])
        (use none nf b' moved_ok [OF b'(2,3) ok] moved_kept [OF b'(2)] moved_flags [OF b'(2)] f
          in \<open>simp_all add: event_callback_activate_nolock_def Let_def moved_def\<close>)
  next
    case later
    from remove_later_ok [OF q later(1)] obtain b1 where b1: "event_queue_remove_active_later b e = Some b1"
      "moved e (flags b e AND NOT EVLIST_ACTIVE_LATER) b b1" "queues_ok b1" "timeheap b1 = timeheap b"
      "activequeues b1 = activequeues b" .
    note f1 = moved_flags [OF b1(2)]
    from insert_active_ok [OF b1(3), of e] f1 later pri b1(5) obtain b' where b': "event_queue_insert_active b1 e = Some b'"
      "moved e (flags b1 e OR EVLIST_ACTIVE) b1 b'" "queues_ok b'" "timeheap b' = timeheap b1"
      "activequeues b' = (activequeues b1)[pris b1 e := activequeues b1 ! pris b1 e @ [e]]" by auto
    have ok1: "base_ok b1" using moved_ok [OF b1(2,3) ok] by simp
    show ?thesis
    proof (rule that [of 0 b'])
      show "event_callback_activate_nolock b e = Some (0, b')"
        using later nf b1(1) b'(1) by (simp add: event_callback_activate_nolock_def Let_def)
      show "base_ok b'" using moved_ok [OF b'(2,3) ok1] by simp
      show "kept e b b'" using kept_trans [OF moved_kept [OF b1(2)] moved_kept [OF b'(2)]] b1(4) b'(4) by simp
      show "flags b' e = (flags b e AND NOT EVLIST_ACTIVE_LATER) OR EVLIST_ACTIVE"
        using moved_flags [OF b'(2)] f1 by simp
      then show "evs b' = (evs b)(e := (evs b e)\<lparr>ev_flags := flags b' e\<rparr>)"
        using b1(2) b'(2) f1 by (simp add: moved_def)
      show "activequeues b' = (if bit (flags b e) 3 then activequeues b
         else (activequeues b)[pris b e := activequeues b ! pris b e @ [e]])"
        using b'(5) b1(5) f1 later by simp
      show "timeheap b' = timeheap b" using b1(4) b'(4) by simp
    qed
  qed
qed

text \<open>What \<open>event_active_nolock_\<close> does before it queues the event.\<close>

definition prepare_active :: "base \<Rightarrow> event \<Rightarrow> u16 \<Rightarrow> int \<Rightarrow> base" where
  "prepare_active b e res ncalls =
     (let b = upd b e (\<lambda>r. r\<lparr>ev_res := (if bit (flags b e) 5 then ev_res r OR res else res)\<rparr>);
          b = (if int (ev_pri (evs b e)) < event_running_priority b then b\<lparr>event_continue := True\<rparr> else b)
      in if bit (ev_events (evs b e)) 3 then upd b e (\<lambda>r. r\<lparr>ev_ncalls := ncalls, ev_pncalls := False\<rparr>) else b)"

lemma touched_prepare: "touched b (prepare_active b e res ncalls)"
proof -
  have c: "core (b\<lparr>event_continue := True\<rparr>) = core b" for b by (simp add: core_def rest_def no_maps_def)
  define u where "u = upd b e (\<lambda>r. r\<lparr>ev_res := (if bit (flags b e) 5 then ev_res r OR res else res)\<rparr>)"
  define v where "v = (if int (ev_pri (evs u e)) < event_running_priority u then u\<lparr>event_continue := True\<rparr> else u)"
  define w where "w = (if bit (ev_events (evs v e)) 3 then upd v e (\<lambda>r. r\<lparr>ev_ncalls := ncalls, ev_pncalls := False\<rparr>) else v)"
  have refl: "touched c c" for c by (simp add: touched_def)
  have tr: "touched c d \<Longrightarrow> touched d f \<Longrightarrow> touched c f" for c d f by (auto simp: touched_def intro: fewer_calls_trans)
  have "touched b u" unfolding u_def by (rule touched_upd) (simp_all add: static_def hooked_def)
  moreover have "touched u v" by (simp add: v_def touched_def c)
  moreover have "touched v w" unfolding w_def by (auto intro: touched_upd refl simp: static_def hooked_def)
  moreover have "prepare_active b e res ncalls = w"
    by (simp only: prepare_active_def Let_def u_def v_def w_def)
  ultimately show ?thesis using tr by blast
qed

lemma prepare_evs: "x \<noteq> e \<Longrightarrow> evs (prepare_active b e res ncalls) x = evs b x"
  "ev_res (evs (prepare_active b e res ncalls) e) = (if bit (flags b e) 5 then ev_res (evs b e) OR res else res)"
  by (auto simp: prepare_active_def Let_def)

lemma event_active_nolock_ok:
  assumes ok: "base_ok b" and pri: "pris b e < length (activequeues b)" and nf: "\<not> bit (flags b e) 6"
  obtains b' where "event_active_nolock b e res ncalls = Some b'" "base_ok b'" "kept e b b'"
    "flags b' e = (flags b e AND NOT EVLIST_ACTIVE_LATER) OR EVLIST_ACTIVE"
    "activequeues b' = (if bit (flags b e) 3 then activequeues b
       else (activequeues b)[pris b e := activequeues b ! pris b e @ [e]])"
    "ev_res (evs b' e) = (if bit (flags b e) 3 \<or> bit (flags b e) 5 then ev_res (evs b e) OR res else res)"
    "timeheap b' = timeheap b"
proof -
  note q = queues_okD [OF ok]
  show ?thesis
  proof (cases "bit (flags b e) 3")
    case True
    let ?b = "upd b e (\<lambda>r. r\<lparr>ev_res := ev_res r OR res\<rparr>)"
    have t: "touched b ?b" by (rule touched_upd) (simp_all add: static_def hooked_def)
    have "event_active_nolock b e res ncalls = Some ?b"
      using True nf active_once [OF q, of e] by (simp add: event_active_nolock_def Let_def)
    moreover have "flags b e = (flags b e AND NOT EVLIST_ACTIVE_LATER) OR EVLIST_ACTIVE"
      using True active_once [OF q, of e] by (auto simp: flag_eq_iff)
    ultimately show ?thesis
      by (intro that [of ?b])
        (use True ok touched_ok [OF t] touched_kept [OF t, of e] in \<open>simp_all add: ev_flags_flags\<close>)
  next
    case False
    let ?p = "prepare_active b e res ncalls"
    note t = touched_prepare [of b e res ncalls]
    have p: "base_ok ?p" "kept e b ?p" "flags ?p = flags b" "activequeues ?p = activequeues b"
      using ok touched_ok(3) [OF t] touched_kept [OF t, of e] t prepare_evs(1) by (auto simp: touched_def)
    have "pris ?p e < length (activequeues ?p)" "\<not> bit (flags ?p e) 6"
      using pri nf p(3,4) keptD(8) [OF p(2)] by simp_all
    from event_callback_activate_ok [OF p(1) this] obtain r b' where b': "event_callback_activate_nolock ?p e = Some (r, b')"
      "base_ok b'" "kept e ?p b'" "flags b' e = (flags ?p e AND NOT EVLIST_ACTIVE_LATER) OR EVLIST_ACTIVE"
      "activequeues b' = (if bit (flags ?p e) 3 then activequeues ?p
         else (activequeues ?p)[pris ?p e := activequeues ?p ! pris ?p e @ [e]])"
      "evs b' = (evs ?p)(e := (evs ?p e)\<lparr>ev_flags := flags b' e\<rparr>)" "timeheap b' = timeheap ?p" .
    have "timeheap ?p = timeheap b" using t by (simp add: touched_def)
    moreover have "event_active_nolock b e res ncalls = Some b'"
      using False nf b'(1) by (simp add: event_active_nolock_def prepare_active_def Let_def split: if_splits)
    ultimately show ?thesis
      by (intro that [of b']) (use False b' p kept_trans [OF p(2) b'(3)] prepare_evs(2) [of b e res ncalls] keptD(8) [OF p(2)]
        arg_cong [OF b'(6), of "\<lambda>f. ev_res (f e)"] in auto)
  qed
qed

lemma event_active_later_nolock_ok:
  assumes ok: "base_ok b" and pri: "pris b e < length (activequeues b)"
  obtains b' where "event_active_later_nolock b e res = Some b'" "base_ok b'" "kept e b b'"
    "flags b' e = (if bit (flags b e) 3 then flags b e else flags b e OR EVLIST_ACTIVE_LATER)"
    "active_later_queue b' = (if bit (flags b e) 3 \<or> bit (flags b e) 5 then active_later_queue b else active_later_queue b @ [e])"
    "activequeues b' = activequeues b" "timeheap b' = timeheap b"
proof (cases "bit (flags b e) 3 \<or> bit (flags b e) 5")
  case True
  let ?b = "upd b e (\<lambda>r. r\<lparr>ev_res := ev_res r OR res\<rparr>)"
  have t: "touched b ?b" by (rule touched_upd) (simp_all add: static_def hooked_def)
  have "event_active_later_nolock b e res = Some ?b"
    using True by (auto simp: event_active_later_nolock_def and_or_eq_0)
  moreover have "flags b e = (if bit (flags b e) 3 then flags b e else flags b e OR EVLIST_ACTIVE_LATER)"
    using True by (auto simp: flag_eq_iff)
  ultimately show ?thesis
    by (intro that [of ?b])
      (use True ok touched_ok [OF t] touched_kept [OF t, of e] in \<open>auto simp: ev_flags_flags\<close>)
next
  case False
  let ?p = "upd b e (\<lambda>r. r\<lparr>ev_res := res\<rparr>)"
  have t: "touched b ?p" by (rule touched_upd) (simp_all add: static_def hooked_def)
  have p: "base_ok ?p" "kept e b ?p" "flags ?p = flags b" "queues_ok ?p"
    using ok touched_ok [OF t] touched_kept [OF t, of e] t queues_okD [OF ok] by (simp_all add: touched_def)
  moreover have "pris ?p = pris b" by (rule keptD(8) [OF p(2)])
  ultimately have p: "base_ok ?p" "kept e b ?p" "flags ?p = flags b" "queues_ok ?p" "pris ?p = pris b" by simp_all
  have "\<not> bit (flags ?p e) 3" "\<not> bit (flags ?p e) 5" "pris ?p e < length (activequeues ?p)"
    using False pri p(3,5) by simp_all
  from insert_later_ok [OF p(4) this] obtain b' where b': "event_queue_insert_active_later ?p e = Some b'"
    "moved e (flags ?p e OR EVLIST_ACTIVE_LATER) ?p b'" "queues_ok b'" "timeheap b' = timeheap ?p"
    "activequeues b' = activequeues ?p" "active_later_queue b' = active_later_queue ?p @ [e]" .
  have "event_active_later_nolock b e res = Some b'"
    using False b'(1) p(3) by (simp add: event_active_later_nolock_def event_callback_activate_later_nolock_def and_or_eq_0)
  then show ?thesis
    by (rule that) (use False b' p moved_ok [OF b'(2,3) p(1)] kept_trans [OF p(2) moved_kept [OF b'(2)]]
      moved_flags [OF b'(2)] in simp_all)
qed

end
