(* ===== verification/Event_Api.thy ===== *)
theory Event_Api
  imports Event_Ops
begin

text \<open>
  The event base as its users see it: assignment, priorities, activation of ready descriptors and
  signals, and the invariant \<open>good\<close> that every sequence of legal calls keeps (\<open>good_call\<close>,
  \<open>reached_good\<close>). The properties say that calls never fail an assertion, that \<open>event_add\<close> is all or
  nothing, that \<open>event_del\<close> leaves nothing pending and what \<open>event_pending\<close> reports.
\<close>

section \<open>Further operations\<close>

text \<open>An event that is in no queue can be given other fields.\<close>

lemma unqueued_bits: "\<not> queued f \<Longrightarrow> \<not> bit f 0 \<and> \<not> bit f 1 \<and> \<not> bit f 3 \<and> \<not> bit f 5"
  by (simp add: queued_def)

lemma unqueued_weight: "\<not> queued f \<Longrightarrow> tally f = 0 \<and> heat f = 0"
  by (simp add: queued_def tally_def heat_def)

lemma asking_other: "e \<notin> set es \<Longrightarrow> asking (r(e := x)) k es = asking r k es"
  unfolding asking_def by (induction es) auto

lemma slot_other:
  assumes "slot_ok ins r fd ctx" "\<not> ins e"
  shows "slot_ok ins (r(e := x)) fd ctx"
proof -
  have "e \<notin> set (io_events ctx)" using assms by (simp add: slot_ok_def)
  with assms show ?thesis by (auto simp: slot_ok_def asking_other)
qed

lemma unqueued_ok:
  assumes ok: "base_ok b" and e: "\<not> queued (flags b e)" and x: "\<not> queued (ev_flags x)" "\<forall>k. bit (ev_flags x) k \<longrightarrow> k < 8"
  shows "base_ok (b\<lparr>evs := (evs b)(e := x)\<rparr>)"
proof -
  let ?b = "b\<lparr>evs := (evs b)(e := x)\<rparr>"
  note q = queues_okD [OF ok] and e' = unqueued_bits [OF e] and x' = unqueued_bits [OF x(1)]
  have f: "flags ?b = (flags b)(e := ev_flags x)" "pris ?b = (pris b)(e := ev_pri x)"
    by (simp_all add: flags_def pris_def fun_eq_iff)
  have sel: "timeheap ?b = timeheap b" "activequeues ?b = activequeues b" "active_later_queue ?b = active_later_queue b"
    "event_count ?b = event_count b" "event_count_active ?b = event_count_active b" by simp_all
  have "queues_ok ?b"
    unfolding queues_ok_def f sel
  proof (intro conjI)
    show "heap_ok (timeheap b) ((flags b)(e := ev_flags x))" using heap_frame [OF q] e' x' by simp
    show "active_ok (activequeues b) ((flags b)(e := ev_flags x)) ((pris b)(e := ev_pri x))"
      by (rule active_cong [of _ "flags b" _ "pris b"]) (use q e' x' in \<open>auto simp: queues_ok_def\<close>)
    show "later_ok (active_later_queue b) ((flags b)(e := ev_flags x))" using later_frame [OF q] e' x' by simp
    show "flags_ok (length (activequeues b)) ((flags b)(e := ev_flags x)) ((pris b)(e := ev_pri x))"
      using q x x' by (auto simp: queues_ok_def flags_ok_def)
    show "counts_ok (event_count b) (event_count_active b) ((flags b)(e := ev_flags x))"
      by (rule counts_upd [of "event_count b" "event_count_active b" "flags b"])
        (use q unqueued_weight [OF e] unqueued_weight [OF x(1)] in \<open>simp_all add: queues_ok_def\<close>)
  qed
  moreover have "maps_ok ?b"
  proof -
    have i: "inserted ?b = inserted b" "\<not> inserted b e" using e' x' by (auto simp: inserted_def fun_eq_iff f)
    have "io_ok (io_map b) (io_nentries b) (inserted b) ((evs b)(e := x))"
      using ok i(2) slot_other [where e = e] by (auto simp: base_ok_def maps_ok_def io_ok_def)
    moreover have "sig_ok (sig_map b) (sig_nentries b) (inserted b) ((evs b)(e := x))"
      using ok i(2) by (auto simp: base_ok_def maps_ok_def sig_ok_def)
    ultimately show ?thesis unfolding maps_ok_def i(1) by simp
  qed
  ultimately show ?thesis by (simp add: base_ok_def)
qed

lemma heap_out: "base_ok b \<Longrightarrow> \<not> bit (flags b e) 0 \<Longrightarrow> min_heap_elem_init (timeheap b) e = timeheap b"
proof -
  assume "base_ok b" "\<not> bit (flags b e) 0"
  then have "timers_ok (timeheap b)" "e \<notin> members (timeheap b)" by (auto simp: base_ok_def queues_ok_def heap_ok_def)
  then have "(min_heap_idx (timeheap b))(e := -1) = min_heap_idx (timeheap b)" by (simp add: timers_ok_def fun_upd_idem_iff)
  then show "min_heap_elem_init (timeheap b) e = timeheap b" by (simp add: min_heap_elem_init_def)
qed

text \<open>The closure that \<open>event_assign\<close> chooses.\<close>

definition assigned :: "event_rec \<Rightarrow> bool" where
  "assigned r \<longleftrightarrow> ev_closure r = (if bit (ev_events r) 3 then EV_CLOSURE_EVENT_SIGNAL
     else if bit (ev_events r) 4 then EV_CLOSURE_EVENT_PERSIST else EV_CLOSURE_EVENT)"

lemma event_assign_ok:
  assumes ok: "base_ok b" and e: "\<not> queued (flags b e)"
  obtains res x where "event_assign b e fd events cb arg = (res, b\<lparr>evs := (evs b)(e := x)\<rparr>)"
    "base_ok (b\<lparr>evs := (evs b)(e := x)\<rparr>)" "ev_flags x = EVLIST_INIT" "ev_base x" "ev_events x = events" "ev_fd x = fd"
    "res = (if bit events 3 \<and> (bit events 1 \<or> bit events 2 \<or> bit events 7) then -1 else 0)"
    "res = 0 \<longrightarrow> ev_pri x = length (activequeues b) div 2 \<and> ev_callback x = cb \<and> ev_arg x = arg"
    "res = -1 \<longrightarrow> ev_pri x = ev_pri (evs b e)" "\<not> hooked x" "res = 0 \<longrightarrow> assigned x"
proof -
  have h: "b\<lparr>evs := es, timeheap := min_heap_elem_init (timeheap b) e\<rparr> = b\<lparr>evs := es\<rparr>" for es
    using heap_out [OF ok] e by (simp add: queued_def)
  define x where "x = evs (snd (event_assign b e fd events cb arg)) e"
  have shape: "event_assign b e fd events cb arg =
      (if bit events 3 \<and> (bit events 1 \<or> bit events 2 \<or> bit events 7) then -1 else 0, b\<lparr>evs := (evs b)(e := x)\<rparr>)"
    using h unfolding x_def by (simp add: event_assign_def Let_def upd_def and_or_eq_0)
  have f: "ev_flags x = EVLIST_INIT"
    unfolding x_def by (simp add: event_assign_def Let_def upd_def)
  show ?thesis
  proof (rule that [OF shape])
    show "base_ok (b\<lparr>evs := (evs b)(e := x)\<rparr>)"
      by (rule unqueued_ok [OF ok e]) (simp_all add: f queued_def)
  qed (simp_all add: f, simp_all add: x_def event_assign_def Let_def and_or_eq_0 hooked_def assigned_def)
qed

lemma event_priority_set_ok:
  assumes ok: "base_ok b"
  shows "base_ok (snd (event_priority_set b e pri))"
proof (cases "bit (flags b e) 3 \<or> pri < 0 \<or> pri \<ge> int (length (activequeues b))")
  case True
  then show ?thesis using ok by (auto simp: event_priority_set_def)
next
  case False
  let ?b = "upd b e (\<lambda>r. r\<lparr>ev_pri := nat pri\<rparr>)"
  have "flags ?b = flags b" by (simp add: fun_upd_idem_iff ev_flags_flags)
  moreover have "pris ?b = (pris b)(e := nat pri)" by simp
  ultimately have "queues_ok ?b"
    using queues_okD [OF ok] False active_cong [of "flags b" "flags b" "pris ?b" "pris b"]
    by (auto simp: queues_ok_def flags_ok_def)
  moreover have "maps_ok ?b"
  proof (rule maps_frame [of b])
    show "maps_ok b" using ok by (simp add: base_ok_def)
    show "\<forall>x. same_kind (evs ?b x) (evs b x)" by (simp add: same_kind_def)
    show "\<forall>x. bit (flags ?b x) 1 = bit (flags b x) 1" using \<open>flags ?b = flags b\<close> by simp
  qed simp
  moreover have "event_priority_set b e pri = (0, ?b)" using False by (simp add: event_priority_set_def)
  ultimately show ?thesis by (simp add: base_ok_def)
qed

lemma event_remove_timer_ok:
  assumes ok: "base_ok b"
  obtains b' where "event_remove_timer_nolock b e = Some (0, b')" "base_ok b'" "kept e b b'"
    "flags b' e = flags b e AND NOT EVLIST_TIMEOUT"
proof -
  from timeout_step [OF ok, of e] obtain b1 where b1: "(if bit (flags b e) 0 then event_queue_remove_timeout b e else Some b) = Some b1"
    "base_ok b1" "kept e b b1" "flags b1 e = flags b e AND NOT EVLIST_TIMEOUT" .
  define g where "g = (\<lambda>r :: event_rec. if ev_events r AND EV_SIGNAL \<noteq> 0 then r\<lparr>ev_ncalls := 0, ev_pncalls := False\<rparr>
      else r\<lparr>ev_io_timeout := evutil_timerclear\<rparr>)"
  have t: "touched b1 (upd b1 e g)" by (rule touched_upd) (simp_all add: g_def static_def hooked_def)
  show ?thesis
  proof (cases "bit (flags b e) 0")
    case True
    then have "event_remove_timer_nolock b e = Some (0, upd b1 e g)"
      using b1(1) by (simp add: event_remove_timer_nolock_def g_def)
    then show ?thesis
      by (rule that) (use b1 touched_ok(3) [OF t] kept_trans [OF b1(3) touched_kept [OF t]] t in \<open>auto simp: touched_def\<close>)
  next
    case False
    then have "event_remove_timer_nolock b e = Some (0, b)" by (simp add: event_remove_timer_nolock_def)
    then show ?thesis by (rule that) (use b1 ok False in \<open>simp_all\<close>)
  qed
qed

section \<open>Ready descriptors and signals, later callbacks\<close>

lemma event_active_kept_all:
  assumes "kept e b b'" "timeheap b' = timeheap b"
  shows "kept_all b b'"
  using kept_kept_all [OF assms(1)] assms(2) by simp

text \<open>Activation of the events of a list; an event that is active already stays where it is.\<close>

definition activated :: "base \<Rightarrow> event set \<Rightarrow> base \<Rightarrow> bool" where
  "activated b A b' \<longleftrightarrow> kept_all b b' \<and> timeheap b' = timeheap b
     \<and> (\<forall>x. flags b' x = (if x \<in> A then (flags b x AND NOT EVLIST_ACTIVE_LATER) OR EVLIST_ACTIVE else flags b x))"

lemma event_active_activated:
  assumes ok: "base_ok b" and pri: "pris b e < length (activequeues b)" and nf: "\<not> bit (flags b e) 6"
  obtains b' where "event_active_nolock b e res ncalls = Some b'" "base_ok b'" "activated b {e} b'"
proof -
  from event_active_nolock_ok [OF ok pri nf, of res ncalls] obtain b' where
    b': "event_active_nolock b e res ncalls = Some b'" "base_ok b'" "kept e b b'"
    "flags b' e = (flags b e AND NOT EVLIST_ACTIVE_LATER) OR EVLIST_ACTIVE" "timeheap b' = timeheap b" .
  then show ?thesis
    by (intro that [of b']) (auto simp: activated_def event_active_kept_all keptD(12))
qed

lemma activated_trans:
  assumes "activated a A b" "activated b B c"
  shows "activated a (A \<union> B) c"
proof -
  have "((f AND NOT EVLIST_ACTIVE_LATER) OR EVLIST_ACTIVE) AND NOT EVLIST_ACTIVE_LATER OR EVLIST_ACTIVE
    = (f AND NOT EVLIST_ACTIVE_LATER) OR EVLIST_ACTIVE" for f :: u16 by (auto simp: flag_eq_iff)
  then show ?thesis using assms kept_all_trans [of a b c] by (auto simp: activated_def)
qed

lemma activated_same:
  assumes "activated b A b'"
  shows "length (activequeues b') = length (activequeues b)" "pris b' = pris b"
    "\<And>x. ev_events (evs b' x) = ev_events (evs b x)" "\<And>x. bit (flags b' x) 6 = bit (flags b x) 6"
  using assms coreD(1) [of b' b] statics [of b' b] by (auto simp: activated_def kept_all_def)

lemma active_io_list_ok:
  assumes "base_ok b" "\<forall>e \<in> set es. pris b e < length (activequeues b) \<and> \<not> bit (flags b e) 6"
  shows "\<exists>b'. active_io_list es events b = Some b' \<and> base_ok b'
    \<and> activated b {e \<in> set es. ev_events (evs b e) AND events \<noteq> 0} b'"
  using assms
proof (induction es arbitrary: b)
  case Nil
  then show ?case by (simp add: activated_def)
next
  case (Cons e es)
  show ?case
  proof (cases "ev_events (evs b e) AND events = 0")
    case True
    have "{x \<in> set (e # es). ev_events (evs b x) AND events \<noteq> 0} = {x \<in> set es. ev_events (evs b x) AND events \<noteq> 0}"
      using True by auto
    then show ?thesis using Cons.IH [of b] Cons.prems True by simp
  next
    case False
    from event_active_activated [OF Cons.prems(1), of e] Cons.prems(2) obtain b1 where
      b1: "event_active_nolock b e (ev_events (evs b e) AND events) 1 = Some b1" "base_ok b1" "activated b {e} b1" by auto
    note s = activated_same [OF b1(3)]
    from Cons.IH [OF b1(2)] Cons.prems(2) s obtain b2 where b2: "active_io_list es events b1 = Some b2" "base_ok b2"
      "activated b1 {x \<in> set es. ev_events (evs b1 x) AND events \<noteq> 0} b2" by auto
    have "{e} \<union> {x \<in> set es. ev_events (evs b1 x) AND events \<noteq> 0} = {x \<in> set (e # es). ev_events (evs b x) AND events \<noteq> 0}"
      using False s(3) by auto
    with activated_trans [OF b1(3) b2(3)] b1 b2 False show ?thesis by simp
  qed
qed

lemma active_signal_list_ok:
  assumes "base_ok b" "\<forall>e \<in> set es. pris b e < length (activequeues b) \<and> \<not> bit (flags b e) 6"
  shows "\<exists>b'. active_signal_list es n b = Some b' \<and> base_ok b' \<and> activated b (set es) b'"
  using assms
proof (induction es arbitrary: b)
  case Nil
  then show ?case by (simp add: activated_def)
next
  case (Cons e es)
  from event_active_activated [OF Cons.prems(1), of e] Cons.prems(2) obtain b1 where
    b1: "event_active_nolock b e EV_SIGNAL (as_short n) = Some b1" "base_ok b1" "activated b {e} b1" by auto
  note s = activated_same [OF b1(3)]
  from Cons.IH [OF b1(2)] Cons.prems(2) s obtain b2 where b2: "active_signal_list es n b1 = Some b2" "base_ok b2"
    "activated b1 (set es) b2" by auto
  with activated_trans [OF b1(3) b2(3)] b1 show ?case by simp
qed

lemma make_later_active_ok:
  assumes "base_ok b" "active_later_queue b = es"
  shows "\<exists>b'. make_later_active es b = Some b' \<and> base_ok b' \<and> activated b (set es) b'
    \<and> active_later_queue b' = [] \<and> event_count b' = event_count b \<and> event_count_active b' = event_count_active b
    \<and> (\<forall>p < length (activequeues b). activequeues b' ! p = activequeues b ! p @ filter (\<lambda>e. pris b e = p) es)"
  using assms
proof (induction es arbitrary: b)
  case Nil
  then show ?case by (simp add: activated_def)
next
  case (Cons e es)
  note q = queues_okD [OF Cons.prems(1)]
  have e5: "bit (flags b e) 5" and out: "e \<notin> set es" using q Cons.prems(2) by (auto simp: queues_ok_def later_ok_def)
  then have e3: "\<not> bit (flags b e) 3" and pri: "pris b e < length (activequeues b)"
    using active_once [OF q, of e] active_pri [OF q, of e] by auto
  let ?f = "(flags b e AND NOT EVLIST_ACTIVE_LATER) OR EVLIST_ACTIVE"
  let ?qs = "(activequeues b)[pris b e := activequeues b ! pris b e @ [e]]"
  define b1 where "b1 = upd (b\<lparr>active_later_queue := es\<rparr>) e
    (\<lambda>r. r\<lparr>ev_flags := (ev_flags r AND NOT EVLIST_ACTIVE_LATER) OR EVLIST_ACTIVE\<rparr>)\<lparr>activequeues := ?qs\<rparr>"
  have m: "moved e ?f b b1" by (simp add: moved_def b1_def ev_flags_flags)
  have "later_ok es ((flags b)(e := ?f))"
    using later_remove [OF q e5, of ?f] Cons.prems(2) out by (simp add: remove1_idem)
  then have q1: "queues_ok b1"
    by (intro queues_set [OF q m])
      (use q e3 e5 pri active_once [OF q, of e] in \<open>simp_all add: b1_def queue_frame tally_def heat_def\<close>)
  have ok1: "base_ok b1" using moved_ok [OF m q1 Cons.prems(1)] by simp
  let ?n = "n_deferreds_queued b + (if ev_closure (evs b e) = EV_CLOSURE_CB_SELF then 1 else 0)"
  let ?b2 = "b1\<lparr>n_deferreds_queued := ?n\<rparr>"
  have t: "touched b1 ?b2" by (simp add: touched_def core_def rest_def no_maps_def)
  have "running_ncalls ?b2 = running_ncalls b" by (simp add: b1_def upd_def)
  then have "fewer_calls b ?b2" by (rule fewer_calls_same)
  then have k: "kept_all b ?b2"
    using t m core_rest [of b1 b] by (simp add: kept_all_def touched_def moved_def b1_def static_def hooked_def)
  have a: "activated b {e} ?b2"
    using k moved_flags [OF m] by (simp add: activated_def) (simp add: b1_def)
  have later: "active_later_queue ?b2 = es" by (simp add: b1_def)
  from Cons.IH [OF _ later] ok1 touched_ok(3) [OF t] obtain b' where
    b': "make_later_active es ?b2 = Some b'" "base_ok b'" "activated ?b2 (set es) b'"
      "active_later_queue b' = []" "event_count b' = event_count ?b2" "event_count_active b' = event_count_active ?b2"
      "\<forall>p < length (activequeues ?b2). activequeues b' ! p = activequeues ?b2 ! p @ filter (\<lambda>e. pris ?b2 e = p) es" by auto
  have "make_later_active (e # es) b = Some b'"
    using b'(1) pri by (simp add: b1_def upd_def pris_def Let_def)
  moreover have "pris ?b2 = pris b" using moved_flags [OF m] by simp
  ultimately show ?case
    using b' activated_trans [OF a b'(3)] pri by (auto simp: b1_def nth_list_update)
qed

lemma event_base_priority_init_ok:
  assumes ok: "base_ok b"
  shows "base_ok (snd (event_base_priority_init c b n))"
proof (cases "event_count_active b = 0")
  case False
  then show ?thesis using ok by (simp add: event_base_priority_init_def N_ACTIVE_CALLBACKS_def)
next
  case True
  note q = queues_okD [OF ok]
  have none: "\<not> bit (flags b e) 3 \<and> \<not> bit (flags b e) 5" for e
  proof (rule ccontr)
    assume e: "\<not> (\<not> bit (flags b e) 3 \<and> \<not> bit (flags b e) 5)"
    have fin: "finite {e. queued (flags b e)}" and "total heat (flags b) = 0"
      using q True by (simp_all add: queues_ok_def counts_ok_def)
    then have "\<forall>x \<in> {e. queued (flags b e)}. heat (flags b x) = 0"
      unfolding total_def by (subst (asm) sum_nonneg_eq_0_iff) (auto simp: heat_def)
    moreover have "queued (flags b e)" using e by (auto simp: queued_def)
    ultimately have "heat (flags b e) = 0" by blast
    then show False using e by (auto simp: heat_def of_bool_def split: if_splits)
  qed
  have "base_ok (b\<lparr>activequeues := replicate m []\<rparr>)" for m
    using ok none by (auto simp: base_ok_def queues_ok_def active_ok_def flags_ok_def maps_ok_def inserted_def [abs_def])
  from this this [of 0] ok show ?thesis by (simp add: event_base_priority_init_def)
qed

section \<open>Any sequence of calls\<close>

text \<open>
  An event that has been assigned has a priority the base has a queue for and the closure that belongs to
  its kind; only such events are queued; no event is internal or being finalized (the internal events of
  libevent and finalizing are not modelled); and a set \<open>ev_pncalls\<close> points to the counter of the closure
  that is running.
\<close>

definition live :: "base \<Rightarrow> bool" where
  "live b \<longleftrightarrow> (\<forall>e. \<not> bit (flags b e) 4 \<and> \<not> bit (flags b e) 6) \<and> (\<forall>e. queued (flags b e) \<longrightarrow> ev_base (evs b e))
     \<and> (\<forall>e. ev_base (evs b e) \<longrightarrow> pris b e < length (activequeues b) \<and> bit (flags b e) 7 \<and> assigned (evs b e))
     \<and> activequeues b \<noteq> [] \<and> (\<forall>e. hook_ok b e)"

datatype call =
    Add event "timeval option"
  | Del event event_del_mode
  | Active event u16 int
  | Active_Later event u16
  | Remove_Timer event
  | Assign event int u16 nat nat
  | Priority_Set event int
  | Priority_Init bool int
  | Io_Active int u16
  | Signal_Active int int
  | Later_Active

fun api :: "backend \<Rightarrow> call \<Rightarrow> base \<Rightarrow> base option" where
  "api env (Add e tv) b = map_option snd (event_add env b e tv)"
| "api env (Del e mode) b = map_option snd (event_del_with env b e mode)"
| "api env (Active e res n) b = event_active b e res n"
| "api env (Active_Later e res) b = event_active_later b e res"
| "api env (Remove_Timer e) b = map_option snd (event_remove_timer b e)"
| "api env (Assign e fd events cb arg) b = Some (snd (event_assign b e fd events cb arg))"
| "api env (Priority_Set e n) b = Some (snd (event_priority_set b e n))"
| "api env (Priority_Init c n) b = Some (snd (event_base_priority_init c b n))"
| "api env (Io_Active fd events) b = evmap_io_active b fd events"
| "api env (Signal_Active s n) b = evmap_signal_active b s n"
| "api env Later_Active b = event_queue_make_later_events_active b"

text \<open>
  What the manual asks of the caller: only an event that is not queued is assigned, and with a signal
  number that is not negative; \<open>event_active_later\<close> is for assigned events; the number of priorities
  only grows, and its failure ends the use of the base.
\<close>

fun legal :: "base \<Rightarrow> call \<Rightarrow> bool" where
  "legal b (Add e tv) = addable b e"
| "legal b (Active_Later e res) = ev_base (evs b e)"
| "legal b (Assign e fd events cb arg) =
     (\<not> queued (flags b e) \<and> \<not> (bit events 3 \<and> (bit events 1 \<or> bit events 2 \<or> bit events 7)))"
| "legal b (Priority_Init c n) = (c \<and> int (length (activequeues b)) \<le> n)"
| "legal b _ = True"

lemma assigned_static: "static r = static s \<Longrightarrow> assigned r = assigned s"
  using staticD(3,5) [of r s] by (simp add: assigned_def)

lemma live_kept:
  assumes l: "live b" and c: "core b' = core b" and s: "\<And>x. static (evs b' x) = static (evs b x)"
    and h: "\<And>x. hook_ok b x \<Longrightarrow> hook_ok b' x"
    and f: "\<And>x n. bit (flags b' x) n \<noteq> bit (flags b x) n \<Longrightarrow> n \<in> {0, 1, 3, 5} \<and> (bit (flags b' x) n \<longrightarrow> ev_base (evs b x))"
  shows "live b'"
proof -
  have "ev_base (evs b x)" if "queued (flags b' x)" for x
    using that f [of x] l unfolding live_def queued_def by blast
  moreover have "bit (flags b' x) n = bit (flags b x) n" if "n \<in> {4, 6, 7}" for x n
    by (rule ccontr) (use f [of x n] that in auto)
  moreover have "activequeues b' \<noteq> []" using l coreD(1) [OF c] by (auto simp: live_def)
  ultimately show ?thesis using l coreD(1) [OF c] statics [OF s] h assigned_static [OF s] by (simp add: live_def)
qed

lemma live_kept_one:
  assumes "live b" "kept e b b'" "ev_base (evs b e)" "\<And>n. bit (flags b' e) n \<noteq> bit (flags b e) n \<Longrightarrow> n \<in> {0, 1, 3, 5}"
  shows "live b'"
proof (rule live_kept [OF assms(1)])
  show "n \<in> {0, 1, 3, 5} \<and> (bit (flags b' x) n \<longrightarrow> ev_base (evs b x))" if "bit (flags b' x) n \<noteq> bit (flags b x) n" for x n
    using that assms(3,4) keptD(12) [OF assms(2), of x] by (cases "x = e") auto
qed (use assms(2) kept_static [OF assms(2)] keptD(13) [OF assms(2)] in \<open>simp_all add: kept_def\<close>)

lemma kept_all_hook: "kept_all b b' \<Longrightarrow> hook_ok b x \<Longrightarrow> hook_ok b' x"
  using coreD(15) [of b' b] by (auto simp: kept_all_def hook_ok_def)

lemma live_activated:
  assumes l: "live b" and a: "activated b A b'" and A: "\<forall>e \<in> A. ev_base (evs b e)"
  shows "live b'"
proof (rule live_kept [OF l])
  show "n \<in> {0, 1, 3, 5} \<and> (bit (flags b' x) n \<longrightarrow> ev_base (evs b x))" if "bit (flags b' x) n \<noteq> bit (flags b x) n" for x n
    using that a A by (auto simp: activated_def split: if_splits)
qed (use a kept_all_hook [of b b'] in \<open>simp_all add: activated_def kept_all_def\<close>)

lemma added_flags_bits: "bit (added_flags b e timed) n \<noteq> bit (flags b e) n \<Longrightarrow> n \<in> {0, 1, 3, 5}"
  by (auto simp: added_flags_def Let_def split: if_splits)

definition good :: "base \<Rightarrow> bool" where
  "good b \<longleftrightarrow> base_ok b \<and> live b"

text \<open>One lemma per call: it returns, and the number of priorities and the running closure stay.\<close>

definition stays :: "base \<Rightarrow> base \<Rightarrow> bool" where
  "stays b b' \<longleftrightarrow> good b' \<and> fewer_calls b b' \<and> length (activequeues b') = length (activequeues b)"

lemma stays_refl: "good b \<Longrightarrow> stays b b"
  by (simp add: stays_def)

lemma stays_trans: "stays a b \<Longrightarrow> stays b c \<Longrightarrow> stays a c"
  by (auto simp: stays_def intro: fewer_calls_trans)

lemma stays_kept: "kept e b b' \<Longrightarrow> base_ok b' \<Longrightarrow> live b' \<Longrightarrow> stays b b'"
  using keptD(1) [of e b b'] by (simp add: stays_def good_def kept_def)

lemma stays_activated: "activated b A b' \<Longrightarrow> base_ok b' \<Longrightarrow> live b' \<Longrightarrow> stays b b'"
  using activated_same(1) [of b A b'] by (simp add: stays_def good_def activated_def kept_all_def)

lemma good_pri: "good b \<Longrightarrow> ev_base (evs b e) \<Longrightarrow> pris b e < length (activequeues b) \<and> \<not> bit (flags b e) 6"
  by (simp add: good_def live_def)

lemma good_add:
  assumes g: "good b" and a: "addable b e"
  shows "\<exists>b'. api env (Add e tv) b = Some b' \<and> stays b b'"
proof (cases "ev_base (evs b e)")
  case True
  from g have ok: "base_ok b" and l: "live b" and h: "hook_ok b e" by (simp_all add: good_def live_def)
  from event_add_nolock_ok [OF ok h a, of env tv False] obtain res b' where
    b': "event_add_nolock env b e tv False = Some (res, b')" "base_ok b'" "kept e b b'"
    "res = -1 \<and> evs b' = evs b \<and> same_queues b b'
     \<or> res = 0 \<and> \<not> bit (flags b e) 6 \<and> flags b' e = added_flags b e (tv \<noteq> None)
       \<and> (\<forall>t. tv = Some t \<longrightarrow> ev_timeout (timeheap b') e = (if False then t else evutil_timeradd (gettime b) t))" .
  have f: "flags b' e = flags b e \<or> flags b' e = added_flags b e (tv \<noteq> None)" using b'(4) by (auto simp: flags_def)
  have "live b'" by (rule live_kept_one [OF l b'(3) True]) (use f added_flags_bits [of b e] in metis)
  with b' True stays_kept [OF b'(3)] show ?thesis by (simp add: event_add_def)
qed (use g in \<open>simp add: event_add_def stays_refl\<close>)

lemma good_del: "good b \<Longrightarrow> \<exists>b'. api env (Del e mode) b = Some b' \<and> stays b b'"
proof (cases "ev_base (evs b e)")
  case True
  assume g: "good b"
  then have ok: "base_ok b" and l: "live b" and nf: "\<not> bit (flags b e) 6" and h: "hook_ok b e"
    by (simp_all add: good_def live_def)
  from event_del_nolock_ok [OF ok h True, of mode env] nf obtain res b' where
    b': "event_del_nolock env b e mode = Some (res, b')" "base_ok b'" "kept e b b'"
    "\<forall>n. bit (flags b' e) n \<longleftrightarrow> bit (flags b e) n \<and> n \<notin> {0, 1, 3, 5}" by blast
  have "live b'" by (rule live_kept_one [OF l b'(3) True]) (use b'(4) in auto)
  with b' True stays_kept [OF b'(3)] show ?thesis by (simp add: event_del_with_def)
qed (simp add: event_del_with_def stays_refl)

lemma good_active: "good b \<Longrightarrow> \<exists>b'. api env (Active e res n) b = Some b' \<and> stays b b'"
proof (cases "ev_base (evs b e)")
  case True
  assume g: "good b"
  then have ok: "base_ok b" and l: "live b" by (simp_all add: good_def)
  from event_active_activated [OF ok, of e res "as_short n"] good_pri [OF g True] obtain b' where
    b': "event_active_nolock b e res (as_short n) = Some b'" "base_ok b'" "activated b {e} b'" by auto
  with live_activated [OF l b'(3)] stays_activated [OF b'(3)] True show ?thesis by (simp add: event_active_def)
qed (simp add: event_active_def stays_refl)

lemma good_active_later: "good b \<Longrightarrow> ev_base (evs b e) \<Longrightarrow> \<exists>b'. api env (Active_Later e res) b = Some b' \<and> stays b b'"
proof -
  assume g: "good b" and e: "ev_base (evs b e)"
  then have ok: "base_ok b" and l: "live b" by (simp_all add: good_def)
  from event_active_later_nolock_ok [OF ok, of e res] good_pri [OF g e] obtain b' where
    b': "event_active_later_nolock b e res = Some b'" "base_ok b'" "kept e b b'"
    "flags b' e = (if bit (flags b e) 3 then flags b e else flags b e OR EVLIST_ACTIVE_LATER)" by blast
  have "live b'" by (rule live_kept_one [OF l b'(3) e]) (use b'(4) in \<open>auto split: if_splits\<close>)
  with b' e stays_kept [OF b'(3)] show ?thesis by (simp add: event_active_later_def)
qed

lemma good_remove_timer: "good b \<Longrightarrow> \<exists>b'. api env (Remove_Timer e) b = Some b' \<and> stays b b'"
proof (cases "ev_base (evs b e)")
  case True
  assume g: "good b"
  then have ok: "base_ok b" and l: "live b" by (simp_all add: good_def)
  from event_remove_timer_ok [OF ok] obtain b' where b': "event_remove_timer_nolock b e = Some (0, b')" "base_ok b'" "kept e b b'"
    "flags b' e = flags b e AND NOT EVLIST_TIMEOUT" .
  have "live b'" by (rule live_kept_one [OF l b'(3) True]) (use b'(4) in auto)
  with b' True stays_kept [OF b'(3)] show ?thesis by (simp add: event_remove_timer_def)
qed (simp add: event_remove_timer_def stays_refl)

lemma good_assign:
  assumes g: "good b" and lg: "legal b (Assign e fd events cb arg)"
  shows "\<exists>b'. api env (Assign e fd events cb arg) b = Some b' \<and> stays b b'"
proof -
  from g lg have ok: "base_ok b" and l: "live b" and nq: "\<not> queued (flags b e)" by (simp_all add: good_def)
  from event_assign_ok [OF ok nq, of fd events cb arg] obtain res x where
    x: "event_assign b e fd events cb arg = (res, b\<lparr>evs := (evs b)(e := x)\<rparr>)" "base_ok (b\<lparr>evs := (evs b)(e := x)\<rparr>)"
      "ev_flags x = EVLIST_INIT" "ev_base x"
      "res = (if bit events 3 \<and> (bit events 1 \<or> bit events 2 \<or> bit events 7) then -1 else 0)"
      "res = 0 \<longrightarrow> ev_pri x = length (activequeues b) div 2 \<and> ev_callback x = cb \<and> ev_arg x = arg" "\<not> hooked x" "res = 0 \<longrightarrow> assigned x" .
  let ?b = "b\<lparr>evs := (evs b)(e := x)\<rparr>"
  have "res = 0" using lg x(5) by simp
  then have "ev_pri x < length (activequeues b)" using x(6) l by (cases "activequeues b") (auto simp: live_def)
  moreover have "flags ?b = (flags b)(e := EVLIST_INIT)" "pris ?b = (pris b)(e := ev_pri x)"
    using x(3) by (simp_all add: flags_def pris_def fun_eq_iff)
  moreover have "hook_ok ?b y" for y using l x(7) by (cases "y = e") (auto simp: live_def hook_ok_def runner_def)
  ultimately have "live ?b" using l x(4,8) \<open>res = 0\<close> by (auto simp: live_def queued_def)
  with x show ?thesis by (simp add: stays_def good_def)
qed

lemma good_priority_set: "good b \<Longrightarrow> stays b (snd (event_priority_set b e n))"
proof -
  assume g: "good b"
  then have "base_ok (snd (event_priority_set b e n))" using event_priority_set_ok by (simp add: good_def)
  moreover have "live (snd (event_priority_set b e n))"
  proof (cases "bit (flags b e) 3 \<or> n < 0 \<or> n \<ge> int (length (activequeues b))")
    case True
    then show ?thesis using g by (auto simp: event_priority_set_def good_def)
  next
    case False
    let ?b = "upd b e (\<lambda>r. r\<lparr>ev_pri := nat n\<rparr>)"
    have "assigned (r\<lparr>ev_pri := m\<rparr>) = assigned r" for r :: event_rec and m by (simp add: assigned_def)
    moreover have "flags ?b = flags b" by (simp add: fun_upd_idem_iff ev_flags_flags)
    moreover have "pris ?b = (pris b)(e := nat n)" by simp
    moreover have "event_priority_set b e n = (0, ?b)" using False by (simp add: event_priority_set_def)
    moreover have "hook_ok ?b y" for y
      using g by (cases "y = e") (auto simp: good_def live_def hook_ok_def runner_def hooked_def upd_def)
    ultimately show ?thesis using g False by (auto simp: good_def live_def)
  qed
  moreover have "running_ncalls (snd (event_priority_set b e n)) = running_ncalls b"
    "length (activequeues (snd (event_priority_set b e n))) = length (activequeues b)"
    by (simp_all add: event_priority_set_def upd_def)
  ultimately show ?thesis by (simp add: stays_def good_def)
qed

lemma good_priority_init:
  assumes g: "good b" and lg: "int (length (activequeues b)) \<le> n"
  shows "good (snd (event_base_priority_init True b n))"
proof -
  have "live (b\<lparr>activequeues := replicate (nat n) []\<rparr>)" if "1 \<le> n"
    using g lg that by (force simp: good_def live_def hook_ok_def runner_def)
  moreover have "base_ok (snd (event_base_priority_init True b n))"
    using g event_base_priority_init_ok by (simp add: good_def)
  ultimately show ?thesis using g by (auto simp: event_base_priority_init_def good_def split: if_splits)
qed

lemma live_queued: "good b \<Longrightarrow> queued (flags b e) \<Longrightarrow> ev_base (evs b e) \<and> pris b e < length (activequeues b) \<and> \<not> bit (flags b e) 6"
  by (simp add: good_def live_def)

lemma good_io_active: "good b \<Longrightarrow> \<exists>b'. api env (Io_Active fd events) b = Some b' \<and> stays b b'"
proof (cases "fd < 0 \<or> fd \<ge> io_nentries b \<or> io_map b fd = None")
  case False
  assume g: "good b"
  then have ok: "base_ok b" and l: "live b" by (simp_all add: good_def)
  from False obtain ctx where ctx: "io_map b fd = Some ctx" by auto
  then have "slot_ok (inserted b) (evs b) fd ctx"
    using ok io_slot by (fastforce simp: base_ok_def maps_ok_def)
  then have "queued (flags b e)" if "e \<in> set (io_events ctx)" for e
    using that by (auto simp: slot_ok_def inserted_def queued_def)
  note lq = live_queued [OF g this]
  from active_io_list_ok [OF ok, of "io_events ctx" events] lq obtain b' where
    b': "active_io_list (io_events ctx) events b = Some b'" "base_ok b'"
      "activated b {e \<in> set (io_events ctx). ev_events (evs b e) AND events \<noteq> 0} b'" by auto
  have "live b'" by (rule live_activated [OF l b'(3)]) (use lq in auto)
  with b' False ctx stays_activated [OF b'(3)] show ?thesis by (simp add: evmap_io_active_def)
qed (auto simp: evmap_io_active_def stays_refl split: option.split)

lemma good_signal_active: "good b \<Longrightarrow> \<exists>b'. api env (Signal_Active s n) b = Some b' \<and> stays b b'"
proof (cases "s < 0 \<or> s \<ge> sig_nentries b \<or> sig_map b s = None")
  case False
  assume g: "good b"
  then have ok: "base_ok b" and l: "live b" by (simp_all add: good_def)
  from False obtain es where es: "sig_map b s = Some es" by auto
  then have "queued (flags b e)" if "e \<in> set es" for e
    using that ok sig_slot by (fastforce simp: base_ok_def maps_ok_def inserted_def queued_def)
  note lq = live_queued [OF g this]
  from active_signal_list_ok [OF ok, of es n] lq obtain b' where
    b': "active_signal_list es n b = Some b'" "base_ok b'" "activated b (set es) b'" by auto
  have "live b'" by (rule live_activated [OF l b'(3)]) (use lq in auto)
  with b' False es stays_activated [OF b'(3)] show ?thesis by (simp add: evmap_signal_active_def)
qed (auto simp: evmap_signal_active_def stays_refl split: option.split)

lemma good_later: "good b \<Longrightarrow> \<exists>b'. api env Later_Active b = Some b' \<and> stays b b'"
proof -
  assume g: "good b"
  then have ok: "base_ok b" and l: "live b" by (simp_all add: good_def)
  from make_later_active_ok [OF ok refl] obtain b' where
    b': "make_later_active (active_later_queue b) b = Some b'" "base_ok b'" "activated b (set (active_later_queue b)) b'" by auto
  have "ev_base (evs b e)" if "e \<in> set (active_later_queue b)" for e
    using that ok l by (auto simp: base_ok_def queues_ok_def later_ok_def live_def queued_def)
  with live_activated [OF l b'(3)] b' stays_activated [OF b'(3)] show ?thesis
    by (simp add: event_queue_make_later_events_active_def)
qed

text \<open>Only \<open>event_base_priority_init\<close> changes the number of priorities.\<close>

fun sets_priorities :: "call \<Rightarrow> bool" where
  "sets_priorities (Priority_Init c n) = True"
| "sets_priorities _ = False"

lemma call_stays: "good b \<Longrightarrow> legal b c \<Longrightarrow> \<not> sets_priorities c \<Longrightarrow> \<exists>b'. api env c b = Some b' \<and> stays b b'"
proof (cases c)
  case (Priority_Init x n)
  then show "good b \<Longrightarrow> legal b c \<Longrightarrow> \<not> sets_priorities c \<Longrightarrow> ?thesis" by simp
qed (use good_add good_del good_active good_active_later good_remove_timer good_assign good_priority_set
  good_io_active good_signal_active good_later in \<open>simp_all del: api.simps add: api.simps(7)\<close>)

lemma good_call: "good b \<Longrightarrow> legal b c \<Longrightarrow> \<exists>b'. api env c b = Some b' \<and> good b'"
proof (cases "sets_priorities c")
  case True
  then show "good b \<Longrightarrow> legal b c \<Longrightarrow> ?thesis" using good_priority_init by (cases c) simp_all
next
  case False
  then show "good b \<Longrightarrow> legal b c \<Longrightarrow> ?thesis" using call_stays [of b c env] by (auto simp: stays_def)
qed

text \<open>A new base with one priority, and the bases that calls lead to; the back end may answer differently each time.\<close>

definition blank_event :: event_rec where
  "blank_event = \<lparr>ev_base = False, ev_fd = 0, ev_events = 0, ev_res = 0, ev_pri = 0, ev_closure = EV_CLOSURE_EVENT,
     ev_flags = 0, ev_callback = 0, ev_arg = 0, ev_io_timeout = Timeval 0 0, ev_ncalls = 0, ev_pncalls = False\<rparr>"

definition fresh_base :: base where
  "fresh_base = \<lparr>evs = (\<lambda>_. blank_event),
     timeheap = \<lparr>mh_p = [], mh_n = 0, mh_a = 0, min_heap_idx = (\<lambda>_. -1), ev_timeout = (\<lambda>_. Timeval 0 0)\<rparr>,
     activequeues = [[]], active_later_queue = [], event_count = 0, event_count_max = 0, virtual_event_count = 0,
     event_count_active = 0, event_count_active_max = 0, event_gotterm = False, event_break = False,
     event_continue = False, event_running_priority = -1, running_loop = False, n_deferreds_queued = 0,
     current_event = None, io_nentries = 0, io_map = (\<lambda>_. None), sig_nentries = 0, sig_map = (\<lambda>_. None),
     tv_cache = Timeval 0 0, no_cache_time = False, mono = Timeval 1 0, max_dispatch_time = Timeval (-1) 0,
     max_dispatch_callbacks = 2147483647, limit_callbacks_after_prio = 1, running_ncalls = None, calls = []\<rparr>"

inductive reached :: "base \<Rightarrow> bool" where
  new: "reached fresh_base"
| call: "reached b \<Longrightarrow> legal b c \<Longrightarrow> api env c b = Some b' \<Longrightarrow> reached b'"

lemma good_fresh: "good fresh_base"
proof -
  have f: "flags fresh_base = (\<lambda>_. 0)" "pris fresh_base = (\<lambda>_. 0)" "inserted fresh_base = (\<lambda>_. False)"
    by (simp_all add: fresh_base_def blank_event_def flags_def pris_def inserted_def fun_eq_iff)
  have "timers_ok (timeheap fresh_base)" "members (timeheap fresh_base) = {}"
    by (simp_all add: fresh_base_def timers_ok_def members_def heap_ordered_def)
  moreover have "activequeues fresh_base = [[]]" "active_later_queue fresh_base = []" "event_count fresh_base = 0"
    "event_count_active fresh_base = 0" by (simp_all add: fresh_base_def)
  ultimately have "queues_ok fresh_base"
    by (simp add: queues_ok_def f heap_ok_def active_ok_def later_ok_def flags_ok_def counts_ok_def total_def queued_def)
  moreover have "maps_ok fresh_base" by (simp add: maps_ok_def f io_ok_def sig_ok_def) (simp add: fresh_base_def)
  moreover have "live fresh_base"
    by (simp add: live_def f queued_def hook_ok_def hooked_def) (simp add: fresh_base_def blank_event_def)
  ultimately show ?thesis by (simp add: good_def base_ok_def)
qed

lemma reached_good: "reached b \<Longrightarrow> good b"
proof (induction rule: reached.induct)
  case (call b c env b')
  from good_call [OF call.IH call.hyps(2), of env] call.hyps(3) show ?case by auto
qed (rule good_fresh)

text \<open>An example: two events, one of them with a timeout.\<close>

definition calm :: backend where
  "calm = \<lparr>evsel_add = (\<lambda>_ _ _. True), evsel_del = (\<lambda>_ _ _. True), evsig_add = (\<lambda>_. True), evsig_del = (\<lambda>_. True),
     map_realloc = (\<lambda>_. True), slot_calloc = (\<lambda>_. True), heap_realloc = (\<lambda>_. Some (\<lambda>_. 0))\<rparr>"

definition after :: "call list \<Rightarrow> base" where
  "after cs = the (fold (\<lambda>c r. r \<bind> api calm c) cs (Some fresh_base))"

fun legals :: "base \<Rightarrow> call list \<Rightarrow> bool" where
  "legals b [] = True"
| "legals b (c # cs) = (legal b c \<and> (case api calm c b of Some b' \<Rightarrow> legals b' cs | None \<Rightarrow> False))"

lemma reached_fold: "reached b \<Longrightarrow> legals b cs \<Longrightarrow> \<exists>b'. fold (\<lambda>c r. r \<bind> api calm c) cs (Some b) = Some b' \<and> reached b'"
proof (induction cs arbitrary: b)
  case (Cons c cs)
  from Cons.prems obtain b1 where b1: "api calm c b = Some b1" "legals b1 cs" by (auto split: option.splits)
  with Cons.IH [OF reached.call [OF Cons.prems(1) _ b1(1)]] Cons.prems(2) show ?case by auto
qed simp

lemma reached_after: "legals fresh_base cs \<Longrightarrow> reached (after cs)"
  using reached_fold [OF reached.new, of cs] by (auto simp: after_def)

section \<open>Properties\<close>

text \<open>C6: Whatever legal calls have been made, with whatever answers of the back end and the allocator, the
  next legal call returns - no assertion fails, no pointer is used after its target has gone - and afterwards
  the timer heap, the maps and the queues hold exactly the events whose flags say so, without duplicates, the
  counters of the maps and of the base are the numbers of these events, and the heap is ordered.\<close>
theorem event_calls_safe:
  assumes "reached b" "legal b c"
  shows "\<exists>b'. api env c b = Some b' \<and> base_ok b'"
  using good_call [OF reached_good [OF assms(1)] assms(2), of env] by (auto simp: good_def)

theorem event_calls_safe_witness:
  "\<exists>b'. api calm (Del 7 EVENT_DEL_AUTOBLOCK) (after [Assign 7 3 0x12 0 0, Add 7 (Some (Timeval 2 0))]) = Some b' \<and> base_ok b'"
proof (rule event_calls_safe [OF reached_after])
  show "legals fresh_base [Assign 7 3 0x12 0 0, Add 7 (Some (Timeval 2 0))]" by code_simp
qed simp

text \<open>An event is watched when it is in a list of one of the maps.\<close>

definition watched :: "base \<Rightarrow> event \<Rightarrow> bool" where
  "watched b e \<longleftrightarrow> e \<in> set (io_list b (ev_fd (evs b e))) \<or> e \<in> set (sig_list b (ev_fd (evs b e)))"

definition scheduled :: "base \<Rightarrow> event \<Rightarrow> bool" where
  "scheduled b e \<longleftrightarrow> e \<in> members (timeheap b)"

definition running :: "base \<Rightarrow> event \<Rightarrow> bool" where
  "running b e \<longleftrightarrow> (\<exists>q \<in> set (activequeues b). e \<in> set q) \<or> e \<in> set (active_later_queue b)"

lemma io_list_iff:
  assumes "base_ok b"
  shows "e \<in> set (io_list b fd) \<longleftrightarrow> bit (flags b e) 1 \<and> is_io (evs b e) \<and> ev_fd (evs b e) = fd \<and> 0 \<le> fd"
proof (cases "io_map b fd")
  case None
  then show ?thesis using assms by (auto simp: io_list_def base_ok_def maps_ok_def io_ok_def inserted_def)
next
  case (Some ctx)
  have "io_ok (io_map b) (io_nentries b) (inserted b) (evs b)" using assms by (simp add: base_ok_def maps_ok_def)
  from io_slot [OF this Some] Some show ?thesis by (auto simp: io_list_def slot_ok_def inserted_def)
qed

lemma sig_list_iff:
  assumes "base_ok b"
  shows "e \<in> set (sig_list b s) \<longleftrightarrow> bit (flags b e) 1 \<and> \<not> is_io (evs b e) \<and> ev_fd (evs b e) = s"
proof (cases "sig_map b s")
  case None
  then show ?thesis using assms by (auto simp: sig_list_def base_ok_def maps_ok_def sig_ok_def inserted_def)
next
  case (Some l)
  have "sig_ok (sig_map b) (sig_nentries b) (inserted b) (evs b)" using assms by (simp add: base_ok_def maps_ok_def)
  from sig_slot [OF this Some] Some show ?thesis by (auto simp: sig_list_def inserted_def)
qed

lemma watched_iff: "base_ok b \<Longrightarrow> 0 \<le> ev_fd (evs b e) \<Longrightarrow> watched b e \<longleftrightarrow> bit (flags b e) 1"
  by (auto simp: watched_def io_list_iff sig_list_iff)

lemma scheduled_iff: "base_ok b \<Longrightarrow> scheduled b e \<longleftrightarrow> bit (flags b e) 0"
  by (simp add: scheduled_def base_ok_def queues_ok_def heap_ok_def)

lemma active_iff: "base_ok b \<Longrightarrow> (\<exists>q \<in> set (activequeues b). e \<in> set q) \<longleftrightarrow> bit (flags b e) 3"
proof -
  assume "base_ok b"
  then have q: "queues_ok b" by (simp add: base_ok_def)
  have "e \<in> set (activequeues b ! p) \<longleftrightarrow> bit (flags b e) 3 \<and> pris b e = p" if "p < length (activequeues b)" for p
    using q that by (simp add: queues_ok_def active_ok_def)
  moreover have "bit (flags b e) 3 \<Longrightarrow> pris b e < length (activequeues b)" using active_pri [OF q] by blast
  ultimately show ?thesis by (metis in_set_conv_nth)
qed

lemma running_iff: "base_ok b \<Longrightarrow> running b e \<longleftrightarrow> bit (flags b e) 3 \<or> bit (flags b e) 5"
  using active_iff [of b e] by (simp add: running_def base_ok_def queues_ok_def later_ok_def)

text \<open>C7: \<open>event_add\<close> is all or nothing. When it fails, no event and no queue has changed. When it succeeds,
  the event is watched unless it was active, it is scheduled for the given time from now, every other event
  is unchanged, and an event that was active because of its timeout is no longer active.\<close>
theorem event_add_effect:
  assumes "base_ok b" "hook_ok b e" "addable b e" "ev_base (evs b e)" "0 \<le> ev_fd (evs b e)"
    "is_io (evs b e) \<or> bit (ev_events (evs b e)) 3"
  shows "\<exists>res b'. event_add env b e tv = Some (res, b') \<and> base_ok b' \<and> (\<forall>x. x \<noteq> e \<longrightarrow> evs b' x = evs b x)
    \<and> (res = -1 \<and> evs b' = evs b \<and> same_queues b b'
       \<or> res = 0 \<and> (watched b' e \<longleftrightarrow> watched b e \<or> \<not> running b e)
         \<and> (scheduled b' e \<longleftrightarrow> scheduled b e \<or> tv \<noteq> None)
         \<and> (\<forall>t. tv = Some t \<longrightarrow> ev_timeout (timeheap b') e = evutil_timeradd (gettime b) t)
         \<and> (running b' e \<longleftrightarrow> running b e \<and> \<not> (tv \<noteq> None \<and> bit (flags b e) 3 \<and> bit (ev_res (evs b e)) 0)))"
proof -
  from event_add_nolock_ok [OF assms(1-3), of env tv False] obtain res b' where
    b': "event_add_nolock env b e tv False = Some (res, b')" "base_ok b'" "kept e b b'"
    "res = -1 \<and> evs b' = evs b \<and> same_queues b b'
     \<or> res = 0 \<and> \<not> bit (flags b e) 6 \<and> flags b' e = added_flags b e (tv \<noteq> None)
       \<and> (\<forall>t. tv = Some t \<longrightarrow> ev_timeout (timeheap b') e = (if False then t else evutil_timeradd (gettime b) t))" .
  have add: "event_add env b e tv = Some (res, b')" using b'(1) assms(4) by (simp add: event_add_def)
  have other: "\<forall>x. x \<noteq> e \<longrightarrow> evs b' x = evs b x" using b'(3) by (simp add: kept_def)
  have fd: "0 \<le> ev_fd (evs b' e)" using keptD(11) [OF b'(3)] assms(5) by simp
  note b0 = watched_iff [OF assms(1,5)] scheduled_iff [OF assms(1), of e] running_iff [OF assms(1), of e]
  note b1 = watched_iff [OF b'(2) fd] scheduled_iff [OF b'(2), of e] running_iff [OF b'(2), of e]
  from b'(4) show ?thesis
  proof
    assume "res = -1 \<and> evs b' = evs b \<and> same_queues b b'"
    with add b'(2) other show ?thesis by blast
  next
    assume r: "res = 0 \<and> \<not> bit (flags b e) 6 \<and> flags b' e = added_flags b e (tv \<noteq> None)
       \<and> (\<forall>t. tv = Some t \<longrightarrow> ev_timeout (timeheap b') e = (if False then t else evutil_timeradd (gettime b) t))"
    have "watched b' e \<longleftrightarrow> watched b e \<or> \<not> running b e"
      using r b0 b1 assms(6) by (auto simp: added_flags_def to_map_def Let_def)
    moreover have "scheduled b' e \<longleftrightarrow> scheduled b e \<or> tv \<noteq> None"
      using r b0 b1 by (auto simp: added_flags_def Let_def)
    moreover have "running b' e \<longleftrightarrow> running b e \<and> \<not> (tv \<noteq> None \<and> bit (flags b e) 3 \<and> bit (ev_res (evs b e)) 0)"
      using r b0 b1 active_once [OF queues_okD [OF assms(1)], of e] by (auto simp: added_flags_def Let_def)
    ultimately show ?thesis using add b'(2) other r by auto
  qed
qed

lemma after_good: "legals fresh_base cs \<Longrightarrow> good (after cs)"
  by (rule reached_good [OF reached_after])

theorem event_add_effect_witness:
  "\<exists>res b'. event_add calm (after [Assign 7 3 0x12 0 0]) 7 (Some (Timeval 2 0)) = Some (res, b') \<and> base_ok b'"
proof -
  let ?b = "after [Assign 7 3 0x12 0 0]"
  have "good ?b" by (rule after_good) code_simp
  then have ok: "base_ok ?b" and h: "hook_ok ?b 7" by (simp_all add: good_def live_def)
  have "addable ?b 7" "ev_base (evs ?b 7)" "0 \<le> ev_fd (evs ?b 7)" "is_io (evs ?b 7) \<or> bit (ev_events (evs ?b 7)) 3"
    by code_simp+
  from event_add_effect [OF ok h this, of calm "Some (Timeval 2 0)"] show ?thesis by blast
qed

text \<open>C8: \<open>event_del\<close> takes the event out of the maps, the timer heap and the queues, whatever its return value;
  afterwards nothing is pending for it and every other event is as before.\<close>
theorem event_del_gone:
  assumes "base_ok b" "hook_ok b e" "ev_base (evs b e)" "\<not> bit (flags b e) 6"
  shows "\<exists>res b'. event_del env b e = Some (res, b') \<and> res \<in> {-1, 0} \<and> base_ok b'
    \<and> \<not> watched b' e \<and> \<not> scheduled b' e \<and> \<not> running b' e \<and> (\<forall>what. event_pending b' e what = 0)
    \<and> (\<forall>x. x \<noteq> e \<longrightarrow> evs b' x = evs b x)"
proof -
  have "EVENT_DEL_AUTOBLOCK = EVENT_DEL_EVEN_IF_FINALIZING \<or> \<not> bit (flags b e) 6" using assms(4) by simp
  from event_del_nolock_ok [OF assms(1-3) this, of env] obtain res b' where
    b': "event_del_nolock env b e EVENT_DEL_AUTOBLOCK = Some (res, b')" "res \<in> {-1, 0}" "base_ok b'" "kept e b b'"
    "\<forall>n. bit (flags b' e) n \<longleftrightarrow> bit (flags b e) n \<and> n \<notin> {0, 1, 3, 5}" .
  have "event_del env b e = Some (res, b')" using b'(1) assms(3) by (simp add: event_del_def event_del_with_def)
  moreover have "\<not> watched b' e" using b'(5) io_list_iff [OF b'(3)] sig_list_iff [OF b'(3)] by (auto simp: watched_def)
  moreover have "\<not> scheduled b' e" "\<not> running b' e"
    using b'(5) scheduled_iff [OF b'(3)] running_iff [OF b'(3)] by auto
  moreover have "event_pending b' e what = 0" for what
    using b'(5) by (simp add: event_pending_def Let_def and_or_eq_0)
  moreover have "\<forall>x. x \<noteq> e \<longrightarrow> evs b' x = evs b x" using b'(4) by (simp add: kept_def)
  ultimately show ?thesis using b'(2,3) by blast
qed

theorem event_del_gone_witness:
  "\<exists>res b'. event_del calm (after [Assign 7 3 0x12 0 0, Add 7 (Some (Timeval 2 0)), Active 7 2 1]) 7 = Some (res, b') \<and> \<not> running b' 7"
proof -
  let ?b = "after [Assign 7 3 0x12 0 0, Add 7 (Some (Timeval 2 0)), Active 7 2 1]"
  have "good ?b" by (rule after_good) code_simp
  then have "base_ok ?b" "hook_ok ?b 7" "\<not> bit (flags ?b 7) 6" by (simp_all add: good_def live_def)
  moreover have "ev_base (evs ?b 7)" by code_simp
  ultimately show ?thesis using event_del_gone [of ?b 7 calm] by blast
qed

text \<open>\<open>event_pending\<close> reports exactly: a timeout when the event is in the timer heap, the events it was
  assigned for when it is watched, and the events it is active for when it is in an active queue; nothing
  else, and nothing the caller did not ask for.\<close>
lemma event_pending_exact:
  assumes "base_ok b" "ev_base (evs b e)" "0 \<le> ev_fd (evs b e)"
  shows "bit (event_pending b e what) k \<longleftrightarrow> bit what k \<and> k \<in> {0, 1, 2, 3, 7}
    \<and> (k = 0 \<and> scheduled b e \<or> k \<noteq> 0 \<and> watched b e \<and> bit (ev_events (evs b e)) k
       \<or> running b e \<and> bit (ev_res (evs b e)) k)"
proof -
  have EV: "bit EV_TIMEOUT k \<longleftrightarrow> k = 0" "bit EV_READ k \<longleftrightarrow> k = 1" "bit EV_WRITE k \<longleftrightarrow> k = 2"
    "bit EV_SIGNAL k \<longleftrightarrow> k = 3" "bit EV_CLOSED k \<longleftrightarrow> k = 7" for k
    unfolding EV_TIMEOUT_def EV_READ_def EV_WRITE_def EV_SIGNAL_def EV_CLOSED_def
    using bit_power [of 0 k] bit_power [of 1 k] bit_power [of 2 k] bit_power [of 3 k] bit_power [of 7 k] by simp_all
  note b0 = watched_iff [OF assms(1,3)] scheduled_iff [OF assms(1), of e] running_iff [OF assms(1), of e]
  show ?thesis
    unfolding b0 using assms(2) by (auto simp: event_pending_def Let_def and_or_eq_0 bit_and_iff EV)
qed

lemma event_pending_exact_witness:
  "bit (event_pending (after [Assign 7 3 0x12 0 0, Active 7 4 1]) 7 0x06) 2"
proof -
  let ?b = "after [Assign 7 3 0x12 0 0, Active 7 4 1]"
  have "good ?b" by (rule after_good) code_simp
  then have ok: "base_ok ?b" by (simp add: good_def)
  have a: "ev_base (evs ?b 7)" "0 \<le> ev_fd (evs ?b 7)" by code_simp+
  have "running ?b 7" by code_simp
  moreover have "bit (ev_res (evs ?b 7)) 2" by code_simp
  moreover have "bit (0x06 :: u16) 2" by simp
  ultimately show ?thesis using event_pending_exact [OF ok a, of "0x06" 2] by simp
qed

end
