(* ===== verification/Event_Loop.thy ===== *)
theory Event_Loop
  imports Event_Api
begin

text \<open>
  The loop of libevent (\<open>event.c\<close>): timeouts, the closures that run the callbacks of signal, persistent
  and other events, the processing of the active queues, and \<open>event_base_loop\<close>.

  Callbacks are a parameter: they get what the code passes to them and the base, which they may change.
  Every call is recorded in the field \<open>calls\<close>. The back end's \<open>dispatch\<close> is a parameter as well. The
  loops are partial functions: \<open>None\<close> is a failed assertion, undefined behaviour, or a loop that does not
  end; that they return is part of the properties.
\<close>

type_synonym callbacks = "nat \<Rightarrow> int \<Rightarrow> u16 \<Rightarrow> nat \<Rightarrow> base \<Rightarrow> base option"

section \<open>The clock\<close>

definition clear_time_cache :: "base \<Rightarrow> base" where
  "clear_time_cache b = b\<lparr>tv_cache := Timeval 0 (tv_usec (tv_cache b))\<rparr>"

definition update_time_cache :: "base \<Rightarrow> base" where
  "update_time_cache b =
     (let b = clear_time_cache b
      in if no_cache_time b then b else b\<lparr>tv_cache := gettime b\<rparr>)"

section \<open>Timeouts\<close>

partial_function (option) timeout_loop :: "backend \<Rightarrow> timeval \<Rightarrow> base \<Rightarrow> base option" where
  "timeout_loop env now b =
     (case min_heap_top (timeheap b) of
        None \<Rightarrow> Some b
      | Some e \<Rightarrow>
          if ev_timeout (timeheap b) e > now then Some b
          else do {
            (r, b) \<leftarrow> event_del_nolock env b e EVENT_DEL_NOBLOCK;
            b \<leftarrow> event_active_nolock b e EV_TIMEOUT 1;
            timeout_loop env now b })"

definition timeout_process :: "backend \<Rightarrow> base \<Rightarrow> base option" where
  "timeout_process env b =
     (if min_heap_empty (timeheap b) then Some b else timeout_loop env (gettime b) b)"

section \<open>Closures\<close>

definition run_callback :: "callbacks \<Rightarrow> nat \<Rightarrow> int \<Rightarrow> u16 \<Rightarrow> nat \<Rightarrow> base \<Rightarrow> base option" where
  "run_callback cb f fd res arg b = cb f fd res arg (b\<lparr>calls := calls b @ [(f, fd, res, arg)]\<rparr>)"

definition run_event :: "callbacks \<Rightarrow> event \<Rightarrow> base \<Rightarrow> base option" where
  "run_event cb e b =
     run_callback cb (ev_callback (evs b e)) (ev_fd (evs b e)) (ev_res (evs b e)) (ev_arg (evs b e)) b"

definition calls_left :: "base \<Rightarrow> bool" where
  "calls_left b = (case running_ncalls b of Some (x, n) \<Rightarrow> n \<noteq> 0 | None \<Rightarrow> False)"

text \<open>The loop over the calls of a signal event; its counter \<open>ncalls\<close> is a \<open>short\<close>.\<close>

partial_function (option) signal_loop :: "callbacks \<Rightarrow> event \<Rightarrow> base \<Rightarrow> base option" where
  "signal_loop cb e b =
     (case running_ncalls b of
        None \<Rightarrow> None
      | Some (x, n) \<Rightarrow>
          if n = 0 then Some b
          else do {
            let n = as_short (n - 1);
            let b = upd (b\<lparr>running_ncalls := Some (e, n)\<rparr>) e (\<lambda>r. r\<lparr>ev_ncalls := n\<rparr>);
            let b = (if n = 0 then upd b e (\<lambda>r. r\<lparr>ev_pncalls := False\<rparr>) else b);
            b \<leftarrow> run_event cb e b;
            if event_break b
            then Some (if calls_left b then upd b e (\<lambda>r. r\<lparr>ev_pncalls := False\<rparr>) else b)
            else signal_loop cb e b })"

definition event_signal_closure :: "callbacks \<Rightarrow> base \<Rightarrow> event \<Rightarrow> base option" where
  "event_signal_closure cb b e = do {
     let n = as_short (ev_ncalls (evs b e));
     let b = (if n \<noteq> 0 then upd b e (\<lambda>r. r\<lparr>ev_pncalls := True\<rparr>) else b);
     b \<leftarrow> signal_loop cb e (b\<lparr>running_ncalls := Some (e, n)\<rparr>);
     Some (b\<lparr>running_ncalls := None\<rparr>) }"

definition event_persist_closure :: "callbacks \<Rightarrow> backend \<Rightarrow> base \<Rightarrow> event \<Rightarrow> base option" where
  "event_persist_closure cb env b e = do {
     let delay = ev_io_timeout (evs b e);
     b \<leftarrow> (if tv_sec delay \<noteq> 0 \<or> tv_usec delay \<noteq> 0 then do {
             let now = gettime b;
             let relative_to = (if ev_res (evs b e) AND EV_TIMEOUT \<noteq> 0 then ev_timeout (timeheap b) e else now);
             let run_at = evutil_timeradd relative_to delay;
             let run_at = (if run_at < now then evutil_timeradd now delay else run_at);
             (r, b) \<leftarrow> event_add_nolock env b e (Some run_at) True;
             Some b }
           else Some b);
     run_event cb e b }"

section \<open>The active queues\<close>

definition take_from_queue :: "backend \<Rightarrow> base \<Rightarrow> event \<Rightarrow> base option" where
  "take_from_queue env b e =
     (if flags b e AND EVLIST_INIT \<noteq> 0 then
        if ev_events (evs b e) AND EV_PERSIST \<noteq> 0 \<or> flags b e AND EVLIST_FINALIZING \<noteq> 0
        then event_queue_remove_active b e
        else do { (r, b) \<leftarrow> event_del_nolock env b e EVENT_DEL_NOBLOCK; Some b }
      else event_queue_remove_active b e)"

text \<open>
  The \<open>switch\<close> over the closures. An event callback that is not an event (\<open>EVLIST_INIT\<close> is not set)
  must have one of the \<open>CB\<close> closures; these are given the callback itself. Freeing the event after
  \<open>EV_CLOSURE_EVENT_FINALIZE_FREE\<close> is left out.
\<close>

definition run_closure :: "callbacks \<Rightarrow> backend \<Rightarrow> base \<Rightarrow> event \<Rightarrow> base option" where
  "run_closure cb env b e =
     (let is_event = (flags b e AND EVLIST_INIT \<noteq> 0);
          finalizing = (flags b e AND EVLIST_FINALIZING \<noteq> 0)
      in case ev_closure (evs b e) of
           EV_CLOSURE_EVENT_SIGNAL \<Rightarrow> if is_event then event_signal_closure cb b e else None
         | EV_CLOSURE_EVENT_PERSIST \<Rightarrow> if is_event then event_persist_closure cb env b e else None
         | EV_CLOSURE_EVENT \<Rightarrow> if is_event then run_event cb e b else None
         | EV_CLOSURE_CB_SELF \<Rightarrow> run_callback cb (ev_callback (evs b e)) (int e) 0 (ev_arg (evs b e)) b
         | EV_CLOSURE_CB_FINALIZE \<Rightarrow>
             if finalizing then run_callback cb (ev_callback (evs b e)) (int e) 0 (ev_arg (evs b e)) (b\<lparr>current_event := None\<rparr>)
             else None
         | _ \<Rightarrow>
             if is_event \<and> finalizing
             then run_callback cb (ev_callback (evs b e)) (int e) 0 (ev_arg (evs b e)) (b\<lparr>current_event := None\<rparr>)
             else None)"

partial_function (option) event_process_active_single_queue ::
  "callbacks \<Rightarrow> backend \<Rightarrow> nat \<Rightarrow> int \<Rightarrow> timeval option \<Rightarrow> int \<Rightarrow> base \<Rightarrow> (int \<times> base) option" where
  "event_process_active_single_queue cb env pri max_to_process endtime cnt b =
     (if pri \<ge> length (activequeues b) then None
      else case activequeues b ! pri of
        [] \<Rightarrow> Some (cnt, b)
      | e # _ \<Rightarrow> do {
          b \<leftarrow> take_from_queue env b e;
          let cnt = (if flags b e AND EVLIST_INTERNAL = 0 then cnt + 1 else cnt);
          b \<leftarrow> run_closure cb env (b\<lparr>current_event := Some e\<rparr>) e;
          let b = b\<lparr>current_event := None\<rparr>;
          if event_break b then Some (-1, b)
          else if cnt \<ge> max_to_process then Some (cnt, b)
          else if cnt \<noteq> 0 \<and> endtime \<noteq> None then
            let b = update_time_cache b in
            if gettime b \<ge> the endtime then Some (cnt, b)
            else if event_continue b then Some (cnt, b)
            else event_process_active_single_queue cb env pri max_to_process endtime cnt b
          else if event_continue b then Some (cnt, b)
          else event_process_active_single_queue cb env pri max_to_process endtime cnt b })"

definition INT_MAX :: int where "INT_MAX = 2147483647"

partial_function (option) process_priorities ::
  "callbacks \<Rightarrow> backend \<Rightarrow> int \<Rightarrow> int \<Rightarrow> timeval option \<Rightarrow> int \<Rightarrow> nat \<Rightarrow> base \<Rightarrow> (int \<times> base) option" where
  "process_priorities cb env maxcb limit_after_prio endtime c i b =
     (if i < length (activequeues b) then
        if activequeues b ! i \<noteq> [] then do {
          let b = b\<lparr>event_running_priority := int i\<rparr>;
          (c, b) \<leftarrow> (if int i < limit_after_prio
                     then event_process_active_single_queue cb env i INT_MAX None 0 b
                     else event_process_active_single_queue cb env i maxcb endtime 0 b);
          if c < 0 then Some (c, b)
          else if c > 0 then Some (c, b)
          else process_priorities cb env maxcb limit_after_prio endtime c (i + 1) b }
        else process_priorities cb env maxcb limit_after_prio endtime c (i + 1) b
      else Some (c, b))"

definition event_process_active :: "callbacks \<Rightarrow> backend \<Rightarrow> base \<Rightarrow> (int \<times> base) option" where
  "event_process_active cb env b = do {
     let maxcb = max_dispatch_callbacks b;
     let limit_after_prio = limit_callbacks_after_prio b;
     let timed = tv_sec (max_dispatch_time b) \<ge> 0;
     let b = (if timed then update_time_cache b else b);
     let endtime = (if timed then Some (evutil_timeradd (max_dispatch_time b) (gettime b)) else None);
     (c, b) \<leftarrow> process_priorities cb env maxcb limit_after_prio endtime 0 0 b;
     Some (c, b\<lparr>event_running_priority := -1\<rparr>) }"

section \<open>The loop\<close>

definition EVLOOP_ONCE :: u16 where "EVLOOP_ONCE = 0x01"
definition EVLOOP_NONBLOCK :: u16 where "EVLOOP_NONBLOCK = 0x02"
definition EVLOOP_NO_EXIT_ON_EMPTY :: u16 where "EVLOOP_NO_EXIT_ON_EMPTY = 0x04"

text \<open>
  What \<open>dispatch\<close> is allowed to wait for: nothing, when there are active callbacks or the loop must not
  block; otherwise until the first timeout, or for ever (\<open>Some None\<close>).
\<close>

definition dispatch_time :: "u16 \<Rightarrow> base \<Rightarrow> timeval option option" where
  "dispatch_time fl b =
     (if N_ACTIVE_CALLBACKS b = 0 \<and> fl AND EVLOOP_NONBLOCK = 0
      then timeout_next (timeheap b) (Some (gettime b))
      else Some (Some evutil_timerclear))"

type_synonym dispatch = "base \<Rightarrow> timeval option \<Rightarrow> (int \<times> base) option"

text \<open>
  One iteration of the \<open>while\<close> of \<open>event_base_loop\<close>: \<open>Some r\<close> leaves the loop with the return value \<open>r\<close>,
  \<open>None\<close> goes on.
\<close>

definition loop_round ::
  "callbacks \<Rightarrow> backend \<Rightarrow> dispatch \<Rightarrow> u16 \<Rightarrow> base \<Rightarrow> (int option \<times> base) option" where
  "loop_round cb env disp fl b = do {
     let b = b\<lparr>event_continue := False, n_deferreds_queued := 0\<rparr>;
     if event_gotterm b \<or> event_break b then Some (Some 0, b)
     else do {
       tv \<leftarrow> dispatch_time fl b;
       if fl AND EVLOOP_NO_EXIT_ON_EMPTY = 0 \<and> \<not> event_haveevents b \<and> N_ACTIVE_CALLBACKS b = 0 then Some (Some 1, b)
       else do {
         b \<leftarrow> event_queue_make_later_events_active b;
         (res, b) \<leftarrow> disp (clear_time_cache b) tv;
         if res = -1 then Some (Some (-1), b)
         else do {
           b \<leftarrow> timeout_process env (update_time_cache b);
           if N_ACTIVE_CALLBACKS b \<noteq> 0 then do {
             (n, b) \<leftarrow> event_process_active cb env b;
             if fl AND EVLOOP_ONCE \<noteq> 0 \<and> N_ACTIVE_CALLBACKS b = 0 \<and> n \<noteq> 0 then Some (Some 0, b) else Some (None, b) }
           else if fl AND EVLOOP_NONBLOCK \<noteq> 0 then Some (Some 0, b)
           else Some (None, b) } } } }"

partial_function (option) loop_rounds ::
  "callbacks \<Rightarrow> backend \<Rightarrow> dispatch \<Rightarrow> u16 \<Rightarrow> base \<Rightarrow> (int \<times> base) option" where
  "loop_rounds cb env disp fl b = do {
     (r, b) \<leftarrow> loop_round cb env disp fl b;
     case r of Some r \<Rightarrow> Some (r, b) | None \<Rightarrow> loop_rounds cb env disp fl b }"

definition event_base_loop ::
  "callbacks \<Rightarrow> backend \<Rightarrow> dispatch \<Rightarrow> base \<Rightarrow> u16 \<Rightarrow> (int \<times> base) option" where
  "event_base_loop cb env disp b fl =
     (if running_loop b then Some (-1, b)
      else do {
        let b = clear_time_cache (b\<lparr>running_loop := True\<rparr>);
        let b = b\<lparr>event_gotterm := False, event_break := False\<rparr>;
        (retval, b) \<leftarrow> loop_rounds cb env disp fl b;
        Some (retval, (clear_time_cache b)\<lparr>running_loop := False\<rparr>) })"

definition event_base_loopbreak :: "base \<Rightarrow> base" where
  "event_base_loopbreak b = b\<lparr>event_break := True\<rparr>"

definition event_base_loopcontinue :: "base \<Rightarrow> base" where
  "event_base_loopcontinue b = b\<lparr>event_continue := True\<rparr>"

definition event_base_got_break :: "base \<Rightarrow> bool" where
  "event_base_got_break b = event_break b"

definition event_base_got_exit :: "base \<Rightarrow> bool" where
  "event_base_got_exit b = event_gotterm b"

text \<open>\<open>event_loopexit_cb\<close>\<close>

definition event_loopexit_cb :: "base \<Rightarrow> base" where
  "event_loopexit_cb b = b\<lparr>event_gotterm := True\<rparr>"

declare signal_loop.simps [code] event_process_active_single_queue.simps [code] process_priorities.simps [code]
  timeout_loop.simps [code] loop_rounds.simps [code]

end
