(* ===== verification/Event_Run.thy ===== *)
theory Event_Run
  imports Event_Loop
begin

text \<open>
  Lemmas on the loop of libevent: what \<open>timeout_loop\<close> has done when it returns, and that the closures, the
  processing of the active queues and a round of \<open>event_base_loop\<close> return and keep the invariant of the
  base, for callbacks that return and keep it.
\<close>

section \<open>Fields the invariant does not look at\<close>

lemma good_shell:
  assumes "evs b' = evs b" "timeheap b' = timeheap b" "activequeues b' = activequeues b"
    "active_later_queue b' = active_later_queue b" "event_count b' = event_count b"
    "event_count_active b' = event_count_active b" "io_map b' = io_map b" "io_nentries b' = io_nentries b"
    "sig_map b' = sig_map b" "sig_nentries b' = sig_nentries b" "runner b' = runner b"
  shows "good b' = good b"
  using assms flags_evs [OF assms(1)]
  by (simp add: good_def base_ok_def queues_ok_def maps_ok_def live_def inserted_def [abs_def] hook_ok_def)

lemma good_fields [simp]:
  "good (b\<lparr>calls := x1\<rparr>) = good b" "good (b\<lparr>current_event := x2\<rparr>) = good b" "good (b\<lparr>event_break := x3\<rparr>) = good b"
  "good (b\<lparr>event_continue := x4\<rparr>) = good b" "good (b\<lparr>tv_cache := x5\<rparr>) = good b"
  "good (b\<lparr>event_running_priority := x6\<rparr>) = good b" "good (b\<lparr>running_loop := x7\<rparr>) = good b"
  "good (b\<lparr>event_gotterm := x8\<rparr>) = good b" "good (b\<lparr>mono := x9\<rparr>) = good b"
  "good (b\<lparr>n_deferreds_queued := x10\<rparr>) = good b"
  by (rule good_shell; simp add: runner_def)+

lemma good_times [simp]: "good (clear_time_cache b) = good b" "good (update_time_cache b) = good b"
  by (simp_all add: clear_time_cache_def update_time_cache_def Let_def)

lemma goodD: "good b \<Longrightarrow> base_ok b" "good b \<Longrightarrow> hook_ok b e" "good b \<Longrightarrow> \<not> bit (flags b e) 6"
  "good b \<Longrightarrow> \<not> bit (flags b e) 4" "good b \<Longrightarrow> queues_ok b"
  by (simp_all add: good_def live_def base_ok_def)

section \<open>Timeouts\<close>

definition due :: "base \<Rightarrow> timeval \<Rightarrow> event set" where
  "due b now = {e. scheduled b e \<and> ev_timeout (timeheap b) e \<le> now}"

lemma good_del_step:
  assumes g: "good b" and e: "ev_base (evs b e)"
  obtains r b' where "event_del_nolock env b e mode = Some (r, b')" "good b'" "kept e b b'"
    "\<forall>n. bit (flags b' e) n \<longleftrightarrow> bit (flags b e) n \<and> n \<notin> {0, 1, 3, 5}"
    "ev_timeout (timeheap b') = ev_timeout (timeheap b)" "activequeues b' = without e (activequeues b)"
    "evs b' = (evs b)(e := (evs b e)\<lparr>ev_flags := flags b' e\<rparr>)"
proof -
  have "mode = EVENT_DEL_EVEN_IF_FINALIZING \<or> \<not> bit (flags b e) 6" using goodD(3) [OF g] by simp
  from event_del_nolock_ok [OF goodD(1) [OF g] goodD(2) [OF g] e this, of env] obtain r b' where
    b': "event_del_nolock env b e mode = Some (r, b')" "base_ok b'" "kept e b b'"
      "\<forall>n. bit (flags b' e) n \<longleftrightarrow> bit (flags b e) n \<and> n \<notin> {0, 1, 3, 5}"
      "ev_timeout (timeheap b') = ev_timeout (timeheap b)" "activequeues b' = without e (activequeues b)"
      "evs b' = (evs b)(e := (evs b e)\<lparr>ev_flags := flags b' e\<rparr>)" .
  have "live b'" by (rule live_kept_one [OF _ b'(3) e]) (use b'(4) g in \<open>auto simp: good_def\<close>)
  with b' show ?thesis by (intro that) (simp_all add: good_def)
qed

lemma good_active_step:
  assumes g: "good b" and e: "ev_base (evs b e)"
  obtains b' where "event_active_nolock b e res n = Some b'" "good b'" "kept e b b'"
    "flags b' e = (flags b e AND NOT EVLIST_ACTIVE_LATER) OR EVLIST_ACTIVE" "timeheap b' = timeheap b"
    "activequeues b' = (if bit (flags b e) 3 then activequeues b
       else (activequeues b)[pris b e := activequeues b ! pris b e @ [e]])"
    "ev_res (evs b' e) = (if bit (flags b e) 3 \<or> bit (flags b e) 5 then ev_res (evs b e) OR res else res)"
proof -
  have p: "pris b e < length (activequeues b)" "\<not> bit (flags b e) 6" using good_pri [OF g e] by simp_all
  from event_active_nolock_ok [OF goodD(1) [OF g] p, of res n] obtain b' where
    b': "event_active_nolock b e res n = Some b'" "base_ok b'" "kept e b b'"
    "flags b' e = (flags b e AND NOT EVLIST_ACTIVE_LATER) OR EVLIST_ACTIVE"
    "activequeues b' = (if bit (flags b e) 3 then activequeues b
       else (activequeues b)[pris b e := activequeues b ! pris b e @ [e]])"
    "ev_res (evs b' e) = (if bit (flags b e) 3 \<or> bit (flags b e) 5 then ev_res (evs b e) OR res else res)"
    "timeheap b' = timeheap b" .
  have "live b'" by (rule live_kept_one [OF _ b'(3) e]) (use b'(4) g in \<open>auto simp: good_def\<close>)
  with b' show ?thesis by (intro that) (simp_all add: good_def)
qed

lemma nth_without: "p < length qs \<Longrightarrow> without e qs ! p = filter (\<lambda>x. x \<noteq> e) (qs ! p)"
  by (simp add: without_def)

lemma length_without [simp]: "length (without e qs) = length qs"
  by (simp add: without_def)

lemma scheduled_flags: "good b \<Longrightarrow> scheduled b e \<longleftrightarrow> bit (flags b e) 0"
  using scheduled_iff goodD(1) by blast

text \<open>What \<open>timeout_loop\<close> has done when it has activated the events \<open>es\<close>.\<close>

definition timed_out :: "event list \<Rightarrow> base \<Rightarrow> base \<Rightarrow> bool" where
  "timed_out es b b' \<longleftrightarrow> (\<forall>e. scheduled b' e \<longleftrightarrow> scheduled b e \<and> e \<notin> set es)
     \<and> (\<forall>e. e \<notin> set es \<longrightarrow> evs b' e = evs b e)
     \<and> (\<forall>e \<in> set es. ev_res (evs b' e) = EV_TIMEOUT \<and> (\<forall>n. bit (flags b' e) n \<longleftrightarrow> n = 3 \<or> bit (flags b e) n \<and> n \<notin> {0, 1, 5}))
     \<and> (\<forall>p < length (activequeues b). activequeues b' ! p = filter (\<lambda>e. e \<notin> set es) (activequeues b ! p) @ filter (\<lambda>e. pris b e = p) es)
     \<and> core b' = core b \<and> (\<forall>e. static (evs b' e) = static (evs b e)) \<and> ev_timeout (timeheap b') = ev_timeout (timeheap b)"

lemma timeout_loop_ok:
  assumes "good b"
  shows "\<exists>es b'. timeout_loop env now b = Some b' \<and> good b' \<and> distinct es \<and> set es = due b now
    \<and> sorted (map (ev_timeout (timeheap b)) es) \<and> timed_out es b b'"
  using assms
proof (induction "card (members (timeheap b))" arbitrary: b rule: less_induct)
  case less
  let ?t = "ev_timeout (timeheap b)"
  have heap: "timers_ok (timeheap b)" using goodD(5) [OF less.prems] by (simp add: queues_ok_def heap_ok_def)
  have fin: "finite (members (timeheap b))" by (simp add: members_def)
  show ?case
  proof (cases "min_heap_top (timeheap b)")
    case None
    with top_least [OF heap] have "due b now = {}" by (auto simp: due_def scheduled_def)
    with None less.prems show ?thesis
      by (intro exI [of _ "[]"] exI [of _ b]) (subst timeout_loop.simps, simp add: timed_out_def)
  next
    case (Some e)
    with top_least [OF heap] have top: "scheduled b e" "\<forall>x. scheduled b x \<longrightarrow> ?t e \<le> ?t x" by (auto simp: scheduled_def)
    show ?thesis
    proof (cases "?t e > now")
      case True
      then have "due b now = {}" using top(2) by (fastforce simp: due_def)
      with Some True less.prems show ?thesis
        by (intro exI [of _ "[]"] exI [of _ b]) (subst timeout_loop.simps, simp add: timed_out_def)
    next
      case False
      have base: "ev_base (evs b e)"
        using top(1) scheduled_flags [OF less.prems] less.prems by (auto simp: good_def live_def queued_def)
      from good_del_step [OF less.prems base, of env EVENT_DEL_NOBLOCK] obtain r b1 where
        b1: "event_del_nolock env b e EVENT_DEL_NOBLOCK = Some (r, b1)" "good b1" "kept e b b1"
          "\<forall>n. bit (flags b1 e) n \<longleftrightarrow> bit (flags b e) n \<and> n \<notin> {0, 1, 3, 5}" "ev_timeout (timeheap b1) = ?t"
          "activequeues b1 = without e (activequeues b)" .
      have "ev_base (evs b1 e)" using base keptD(9) [OF b1(3)] by simp
      from good_active_step [OF b1(2) this, of EV_TIMEOUT 1] obtain b2 where
        b2: "event_active_nolock b1 e EV_TIMEOUT 1 = Some b2" "good b2" "kept e b1 b2"
          "flags b2 e = (flags b1 e AND NOT EVLIST_ACTIVE_LATER) OR EVLIST_ACTIVE" "timeheap b2 = timeheap b1"
          "activequeues b2 = (if bit (flags b1 e) 3 then activequeues b1
             else (activequeues b1)[pris b1 e := activequeues b1 ! pris b1 e @ [e]])"
          "ev_res (evs b2 e) = (if bit (flags b1 e) 3 \<or> bit (flags b1 e) 5 then ev_res (evs b1 e) OR EV_TIMEOUT else EV_TIMEOUT)" .
      note k = kept_trans [OF b1(3) b2(3)]
      have f2: "bit (flags b2 e) n \<longleftrightarrow> n = 3 \<or> bit (flags b e) n \<and> n \<notin> {0, 1, 5}" for n
        using b1(4) b2(4) by auto
      have sch: "scheduled b2 x \<longleftrightarrow> scheduled b x \<and> x \<noteq> e" for x
        using scheduled_flags [OF b2(2)] scheduled_flags [OF less.prems] keptD(12) [OF k, of x] b1(4) b2(4)
        by (cases "x = e") auto
      have mem: "members (timeheap b2) = members (timeheap b) - {e}" using sch by (auto simp: scheduled_def)
      then have "card (members (timeheap b2)) < card (members (timeheap b))"
        using top(1) by (intro psubset_card_mono [OF fin]) (auto simp: scheduled_def)
      from less.hyps [OF this b2(2)] obtain es b' where
        b': "timeout_loop env now b2 = Some b'" "good b'" "distinct es" "set es = due b2 now"
          "sorted (map (ev_timeout (timeheap b2)) es)" "timed_out es b2 b'" by blast
      have t2: "ev_timeout (timeheap b2) = ?t" using b1(5) b2(5) by simp
      have due: "due b now = insert e (due b2 now)" "e \<notin> due b2 now"
        using top(1) False unfolding due_def t2 sch by (auto simp: not_less)
      have run: "timeout_loop env now b = Some b'"
        using Some False b1(1) b2(1) b'(1) by (subst timeout_loop.simps) simp
      have q2: "activequeues b2 ! p = filter (\<lambda>x. x \<noteq> e) (activequeues b ! p) @ (if pris b e = p then [e] else [])"
        if "p < length (activequeues b)" for p
        using that b2(6) b1(4,6) keptD(8) [OF b1(3)] by (auto simp: nth_without nth_list_update)
      have "timed_out (e # es) b b'"
        unfolding timed_out_def
      proof (intro conjI)
        show "\<forall>x. scheduled b' x \<longleftrightarrow> scheduled b x \<and> x \<notin> set (e # es)"
          using b'(6) sch by (auto simp: timed_out_def)
        show "\<forall>x. x \<notin> set (e # es) \<longrightarrow> evs b' x = evs b x"
          using b'(6) k by (auto simp: timed_out_def kept_def)
        have "\<forall>x \<in> set es. x \<noteq> e" using b'(4) due(2) by auto
        then show "\<forall>x \<in> set (e # es). ev_res (evs b' x) = EV_TIMEOUT \<and> (\<forall>n. bit (flags b' x) n \<longleftrightarrow> n = 3 \<or> bit (flags b x) n \<and> n \<notin> {0, 1, 5})"
          using b'(4,6) due(2) b2(7) b1(4) f2 keptD(12) [OF k] by (auto simp: timed_out_def flags_def)
        show "\<forall>p < length (activequeues b). activequeues b' ! p
            = filter (\<lambda>x. x \<notin> set (e # es)) (activequeues b ! p) @ filter (\<lambda>x. pris b x = p) (e # es)"
          using b'(4,6) due(2) q2 keptD(1,8) [OF k] by (auto simp: timed_out_def conj_commute)
        show "core b' = core b" using b'(6) k by (simp add: timed_out_def kept_def)
        show "\<forall>x. static (evs b' x) = static (evs b x)" using b'(6) kept_static [OF k] by (simp add: timed_out_def)
        show "ev_timeout (timeheap b') = ?t" using b'(6) t2 by (simp add: timed_out_def)
      qed
      moreover have "sorted (map ?t (e # es))"
        using b'(4,5) t2 top(2) by (auto simp: due_def sch)
      ultimately show ?thesis using run b'(2,3,4) due by (intro exI [of _ "e # es"] exI [of _ b']) auto
    qed
  qed
qed

section \<open>Closures return\<close>

text \<open>
  What is asked of a callback: it returns, keeps the invariant of the base and the number of priorities,
  and does not delete or reschedule the signal event whose closure is running.
\<close>

definition well_behaved :: "base \<Rightarrow> base \<Rightarrow> bool" where
  "well_behaved b b' \<longleftrightarrow> good b' \<and> running_ncalls b' = running_ncalls b
     \<and> length (activequeues b') = length (activequeues b) \<and> (\<forall>x. hooked (evs b' x) \<longrightarrow> hooked (evs b x))"

definition polite :: "callbacks \<Rightarrow> bool" where
  "polite cb \<longleftrightarrow> (\<forall>f fd res arg b. good b \<longrightarrow> (\<exists>b'. cb f fd res arg b = Some b' \<and> well_behaved b b'))"

lemma run_callback_ok:
  assumes "polite cb" "good b"
  obtains b' where "run_callback cb f fd res arg b = Some b'" "well_behaved b b'"
proof -
  have "good (b\<lparr>calls := calls b @ [(f, fd, res, arg)]\<rparr>)" using assms(2) by simp
  with assms(1) obtain b' where "cb f fd res arg (b\<lparr>calls := calls b @ [(f, fd, res, arg)]\<rparr>) = Some b'"
    "well_behaved (b\<lparr>calls := calls b @ [(f, fd, res, arg)]\<rparr>) b'" unfolding polite_def by blast
  then show ?thesis by (intro that) (simp_all add: run_callback_def well_behaved_def)
qed

lemma as_short_range: "- 32768 \<le> as_short n \<and> as_short n < 32768"
  using sint_range_size [of "word_of_int n :: u16"] by (simp add: as_short_def word_size)

lemma as_short_mod: "as_short n mod 65536 = n mod 65536"
proof -
  have "take_bit 16 (sint (word_of_int n :: u16)) = take_bit 16 n"
    using uint_sint [of "word_of_int n :: u16"] by (simp add: uint_word_of_int_eq)
  then show ?thesis by (simp add: as_short_def take_bit_eq_mod)
qed

text \<open>The number of rounds of \<open>signal_loop\<close>.\<close>

definition rounds :: "int \<Rightarrow> nat" where
  "rounds n = nat (n mod 65536)"

lemma rounds_step: "as_short n = n \<Longrightarrow> n \<noteq> 0 \<Longrightarrow> rounds n = Suc (rounds (as_short (n - 1)))"
proof -
  assume n: "as_short n = n" "n \<noteq> 0"
  then have "- 32768 \<le> n" "n < 32768" using as_short_range [of n] by simp_all
  have "n mod 65536 = 1 + (n - 1) mod 65536"
  proof (cases "0 < n")
    case True
    then show ?thesis using \<open>n < 32768\<close> by (simp add: mod_pos_pos_trivial)
  next
    case False
    have "m mod 65536 = m + 65536" if "- 65536 \<le> m" "m < 0" for m :: int
    proof -
      have "m mod 65536 = (m + 65536) mod 65536" by simp
      also have "\<dots> = m + 65536" using that by (intro mod_pos_pos_trivial) auto
      finally show ?thesis .
    qed
    from this [of n] this [of "n - 1"] show ?thesis using False n(2) \<open>- 32768 \<le> n\<close> by simp
  qed
  then show ?thesis by (simp add: rounds_def as_short_mod nat_add_distrib)
qed

lemma as_short_idem [simp]: "as_short (as_short n) = as_short n"
  by (simp add: as_short_def)

lemma good_counter:
  assumes "good b" "runner b = Some e"
  shows "good (b\<lparr>running_ncalls := Some (e, n)\<rparr>)"
  by (rule iffD2 [OF good_shell assms(1)]) (use assms(2) in \<open>simp_all, simp add: runner_def\<close>)

lemma good_signal_upd:
  assumes g: "good b" and s: "static (h (evs b e)) = static (evs b e)" "ev_flags (h (evs b e)) = ev_flags (evs b e)"
    and r: "hooked (h (evs b e)) \<longrightarrow> runner b = Some e"
  shows "good (upd b e h)"
proof -
  have st: "static (evs (upd b e h) x) = static (evs b x)" for x using s(1) by simp
  have f: "flags (upd b e h) = flags b" using s(2) by (simp add: fun_upd_idem_iff ev_flags_flags)
  have "queues_ok (upd b e h)" "maps_ok (upd b e h)"
  proof -
    show "queues_ok (upd b e h)" using goodD(5) [OF g] f statics(1) [of "upd b e h" b, OF st] by (simp add: queues_ok_def)
    show "maps_ok (upd b e h)"
      by (rule maps_frame [of b])
        (use g f statics(3,4) [of "upd b e h" b, OF st] in \<open>simp_all add: good_def base_ok_def same_kind_def\<close>)
  qed
  moreover have "live (upd b e h)"
  proof (rule live_kept [of b])
    show "live b" using g by (simp add: good_def)
    show "core (upd b e h) = core b" by (rule core_rest) simp
    have "runner (upd b e h) = runner b" by (simp add: runner_def upd_def)
    then show "hook_ok b x \<Longrightarrow> hook_ok (upd b e h) x" for x using r by (cases "x = e") (simp_all add: hook_ok_def)
    show "n \<in> {0, 1, 3, 5} \<and> (bit (flags (upd b e h) x) n \<longrightarrow> ev_base (evs b x))"
      if "bit (flags (upd b e h) x) n \<noteq> bit (flags b x) n" for x n using that unfolding f by simp
  qed (rule st)
  ultimately show ?thesis by (simp add: good_def base_ok_def)
qed

lemma runner_upd [simp]: "runner (upd b e h) = runner b" "running_ncalls (upd b e h) = running_ncalls b"
  by (simp_all add: runner_def upd_def)

lemma not_hooked [simp]: "\<not> hooked (r\<lparr>ev_pncalls := False\<rparr>)" "\<not> hooked (r\<lparr>ev_ncalls := 0\<rparr>)"
  by (simp_all add: hooked_def)

lemma static_counters [simp]: "static (r\<lparr>ev_pncalls := p\<rparr>) = static r" "static (r\<lparr>ev_ncalls := n\<rparr>) = static r"
  by (simp_all add: static_def)

lemma signal_loop_ok:
  assumes p: "polite cb"
  shows "good b \<Longrightarrow> running_ncalls b = Some (e, n) \<Longrightarrow> as_short n = n \<Longrightarrow> n = 0 \<longrightarrow> \<not> hooked (evs b e) \<Longrightarrow>
    \<exists>b'. signal_loop cb e b = Some b' \<and> good b' \<and> runner b' = Some e \<and> \<not> hooked (evs b' e)
      \<and> length (activequeues b') = length (activequeues b)"
proof (induction "rounds n" arbitrary: n b)
  case 0
  have "n = 0"
  proof (rule ccontr)
    assume "n \<noteq> 0"
    from rounds_step [OF \<open>as_short n = n\<close> this] 0 show False by simp
  qed
  with 0 show ?case by (subst signal_loop.simps) (simp add: runner_def)
next
  case (Suc k)
  have n0: "n \<noteq> 0" using Suc.hyps(2) by (auto simp: rounds_def)
  let ?n = "as_short (n - 1)"
  have k: "k = rounds ?n" using rounds_step [OF Suc.prems(3) n0] Suc.hyps(2) by simp
  have ru: "runner b = Some e" using Suc.prems(2) by (simp add: runner_def)
  define b1 where "b1 = upd (b\<lparr>running_ncalls := Some (e, ?n)\<rparr>) e (\<lambda>r. r\<lparr>ev_ncalls := ?n\<rparr>)"
  define b2 where "b2 = (if ?n = 0 then upd b1 e (\<lambda>r. r\<lparr>ev_pncalls := False\<rparr>) else b1)"
  have g0: "good (b\<lparr>running_ncalls := Some (e, ?n)\<rparr>)" by (rule good_counter [OF Suc.prems(1) ru])
  have g1: "good b1" unfolding b1_def by (rule good_signal_upd [OF g0]) (simp_all add: runner_def)
  have r1: "running_ncalls b1 = Some (e, ?n)" by (simp add: b1_def)
  have g2: "good b2" unfolding b2_def using g1 good_signal_upd [OF g1] by simp
  have r2: "running_ncalls b2 = Some (e, ?n)" "?n = 0 \<longrightarrow> \<not> hooked (evs b2 e)" "length (activequeues b2) = length (activequeues b)"
    using r1 by (simp_all add: b2_def b1_def)
  from run_callback_ok [OF p g2] obtain b3 where b3: "run_event cb e b2 = Some b3" "well_behaved b2 b3"
    unfolding run_event_def by metis
  have w: "good b3" "running_ncalls b3 = Some (e, ?n)" "?n = 0 \<longrightarrow> \<not> hooked (evs b3 e)"
    "length (activequeues b3) = length (activequeues b)" using b3(2) r2 by (auto simp: well_behaved_def)
  have run: "signal_loop cb e b = (if event_break b3
      then Some (if ?n \<noteq> 0 then upd b3 e (\<lambda>r. r\<lparr>ev_pncalls := False\<rparr>) else b3) else signal_loop cb e b3)"
  proof -
    have "signal_loop cb e b = run_event cb e b2 \<bind> (\<lambda>b. if event_break b
        then Some (if calls_left b then upd b e (\<lambda>r. r\<lparr>ev_pncalls := False\<rparr>) else b)
        else signal_loop cb e b)"
      by (subst signal_loop.simps) (simp only: Suc.prems(2) option.case prod.case n0 if_False Let_def b1_def b2_def)
    then show ?thesis using b3(1) w(2) by (simp add: calls_left_def)
  qed
  show ?case
  proof (cases "event_break b3")
    case True
    have "good (upd b3 e (\<lambda>r. r\<lparr>ev_pncalls := False\<rparr>))" by (rule good_signal_upd [OF w(1)]) simp_all
    with True run w show ?thesis by (auto simp: runner_def)
  next
    case False
    from Suc.hyps(1) [OF k w(1,2) _ w(3)] w(4) run False show ?thesis by simp
  qed
qed

definition idle :: "base \<Rightarrow> bool" where
  "idle b \<longleftrightarrow> good b \<and> running_ncalls b = None"

lemma idle_not_hooked: "idle b \<Longrightarrow> \<not> hooked (evs b e)"
  by (auto simp: idle_def good_def live_def hook_ok_def runner_def)

lemma signal_closure_ok:
  assumes p: "polite cb" and i: "idle b"
  shows "\<exists>b'. event_signal_closure cb b e = Some b' \<and> idle b' \<and> length (activequeues b') = length (activequeues b)"
proof -
  let ?n = "as_short (ev_ncalls (evs b e))"
  have g: "good b" and nh: "\<not> hooked (evs b x)" for x using i idle_not_hooked [OF i] by (simp_all add: idle_def)
  have "good (b\<lparr>running_ncalls := Some (e, ?n)\<rparr>)"
    using g nh by (simp add: good_def base_ok_def queues_ok_def maps_ok_def live_def inserted_def [abs_def] hook_ok_def)
  note g0 = good_signal_upd [OF this, of "\<lambda>r. r\<lparr>ev_pncalls := True\<rparr>" e] this
  define b1 where "b1 = (if ?n \<noteq> 0 then upd b e (\<lambda>r. r\<lparr>ev_pncalls := True\<rparr>) else b)\<lparr>running_ncalls := Some (e, ?n)\<rparr>"
  have "b1 = (if ?n \<noteq> 0 then upd (b\<lparr>running_ncalls := Some (e, ?n)\<rparr>) e (\<lambda>r. r\<lparr>ev_pncalls := True\<rparr>) else b\<lparr>running_ncalls := Some (e, ?n)\<rparr>)"
    by (simp add: b1_def upd_def)
  moreover have "good (if P then x else y)" if "good x" "good y" for P x y using that by simp
  ultimately have "good b1" using g0 by (simp add: runner_def del: if_split)
  moreover have "running_ncalls b1 = Some (e, ?n)" "?n = 0 \<longrightarrow> \<not> hooked (evs b1 e)" "activequeues b1 = activequeues b"
    using nh by (simp_all add: b1_def)
  ultimately obtain b' where b': "signal_loop cb e b1 = Some b'" "good b'" "runner b' = Some e" "\<not> hooked (evs b' e)"
    "length (activequeues b') = length (activequeues b)"
    using signal_loop_ok [OF p, of b1 e ?n] by auto
  have "\<not> hooked (evs b' x)" for x using b'(2,3,4) by (cases "x = e") (auto simp: good_def live_def hook_ok_def)
  then have "good (b'\<lparr>running_ncalls := None\<rparr>)"
    using b'(2) by (simp add: good_def base_ok_def queues_ok_def maps_ok_def live_def inserted_def [abs_def] hook_ok_def)
  then show ?thesis using b' by (simp add: event_signal_closure_def Let_def b1_def idle_def)
qed

lemma idle_kept: "idle b \<Longrightarrow> kept e b b' \<Longrightarrow> good b' \<Longrightarrow> idle b'"
  by (auto simp: idle_def kept_def fewer_calls_def)

lemma idle_run:
  assumes "polite cb" "idle b"
  shows "\<exists>b'. run_callback cb f fd res arg b = Some b' \<and> idle b' \<and> length (activequeues b') = length (activequeues b)"
  using run_callback_ok [OF assms(1), of b f fd res arg] assms(2) by (auto simp: idle_def well_behaved_def)

lemma persist_add:
  assumes g: "good b" and e: "ev_base (evs b e)" "ev_closure (evs b e) = EV_CLOSURE_EVENT_PERSIST"
  obtains r b' where "event_add_nolock env b e tv absolute = Some (r, b')" "good b'" "kept e b b'"
    "ev_res (evs b' e) = ev_res (evs b e)"
    "tv \<noteq> None \<and> bit (flags b e) 3 \<and> bit (ev_res (evs b e)) 0 \<or> activequeues b' = activequeues b"
proof -
  have "assigned (evs b e)" using g e by (simp add: good_def live_def)
  then have "addable b e" using e(2) by (simp add: addable_def assigned_def split: if_splits)
  from event_add_nolock_ok [OF goodD(1) [OF g] goodD(2) [OF g] this, of env tv absolute] obtain r b' where
    b': "event_add_nolock env b e tv absolute = Some (r, b')" "base_ok b'" "kept e b b'"
    "r = -1 \<and> evs b' = evs b \<and> same_queues b b'
     \<or> r = 0 \<and> \<not> bit (flags b e) 6 \<and> flags b' e = added_flags b e (tv \<noteq> None)
       \<and> (\<forall>t. tv = Some t \<longrightarrow> ev_timeout (timeheap b') e = (if absolute then t else evutil_timeradd (gettime b) t))"
    "ev_res (evs b' e) = ev_res (evs b e)"
    "tv \<noteq> None \<and> bit (flags b e) 3 \<and> bit (ev_res (evs b e)) 0 \<or> activequeues b' = activequeues b" .
  have f: "flags b' e = flags b e \<or> flags b' e = added_flags b e (tv \<noteq> None)" using b'(4) by (auto simp: flags_def)
  have l: "live b" using g by (simp add: good_def)
  have "live b'" by (rule live_kept_one [OF l b'(3) e(1)]) (use f added_flags_bits [of b e] in metis)
  with b' show ?thesis by (intro that) (simp_all add: good_def)
qed

lemma persist_closure_ok:
  assumes p: "polite cb" and i: "idle b" and e: "ev_base (evs b e)" "ev_closure (evs b e) = EV_CLOSURE_EVENT_PERSIST"
  shows "\<exists>b'. event_persist_closure cb env b e = Some b' \<and> idle b' \<and> length (activequeues b') = length (activequeues b)"
proof -
  let ?d = "ev_io_timeout (evs b e)"
  show ?thesis
  proof (cases "tv_sec ?d \<noteq> 0 \<or> tv_usec ?d \<noteq> 0")
    case True
    define at where "at = (let now = gettime b;
        relative_to = (if bit (ev_res (evs b e)) 0 then ev_timeout (timeheap b) e else now);
        run_at = evutil_timeradd relative_to ?d in if run_at < now then evutil_timeradd now ?d else run_at)"
    have "good b" using i by (simp add: idle_def)
    from persist_add [OF this e, of env "Some at" True] obtain r b1 where
      b1: "event_add_nolock env b e (Some at) True = Some (r, b1)" "good b1" "kept e b b1" .
    have "idle b1" by (rule idle_kept [OF i b1(3,2)])
    from idle_run [OF p this] True b1(1) keptD(1) [OF b1(3)] show ?thesis
      by (auto simp: event_persist_closure_def at_def run_event_def Let_def)
  next
    case False
    with idle_run [OF p i] show ?thesis by (simp add: event_persist_closure_def run_event_def)
  qed
qed

lemma run_closure_ok:
  assumes p: "polite cb" and i: "idle b" and e: "ev_base (evs b e)"
  shows "\<exists>b'. run_closure cb env b e = Some b' \<and> idle b' \<and> length (activequeues b') = length (activequeues b)"
proof -
  have a: "assigned (evs b e)" "bit (flags b e) 7" using i e by (simp_all add: idle_def good_def live_def)
  then consider (signal) "ev_closure (evs b e) = EV_CLOSURE_EVENT_SIGNAL" | (persist) "ev_closure (evs b e) = EV_CLOSURE_EVENT_PERSIST"
    | (event) "ev_closure (evs b e) = EV_CLOSURE_EVENT" by (auto simp: assigned_def split: if_splits)
  then show ?thesis
  proof cases
    case signal
    with signal_closure_ok [OF p i] a(2) show ?thesis by (simp add: run_closure_def Let_def)
  next
    case persist
    with persist_closure_ok [OF p i e] a(2) show ?thesis by (simp add: run_closure_def Let_def)
  next
    case event
    with idle_run [OF p i] a(2) show ?thesis by (simp add: run_closure_def Let_def run_event_def)
  qed
qed

section \<open>Processing the active queues returns\<close>

lemma take_from_queue_ok:
  assumes i: "idle b" and e: "bit (flags b e) 3"
  obtains b' where "take_from_queue env b e = Some b'" "idle b'" "kept e b b'" "activequeues b' = without e (activequeues b)"
    "evs b' = (evs b)(e := (evs b e)\<lparr>ev_flags := flags b' e\<rparr>)" "ev_timeout (timeheap b') = ev_timeout (timeheap b)"
    "\<not> bit (flags b' e) 3"
proof -
  have g: "good b" and ba: "ev_base (evs b e)" and e7: "bit (flags b e) 7"
    using i e by (simp_all add: idle_def good_def live_def queued_def)
  show ?thesis
  proof (cases "bit (ev_events (evs b e)) 4")
    case True
    from remove_active_ok [OF goodD(5) [OF g] e] obtain b' where b': "event_queue_remove_active b e = Some b'"
      "moved e (flags b e AND NOT EVLIST_ACTIVE) b b'" "queues_ok b'" "timeheap b' = timeheap b"
      "activequeues b' = (activequeues b)[pris b e := remove1 e (activequeues b ! pris b e)]" .
    have k: "kept e b b'" by (rule moved_kept [OF b'(2)]) (simp add: b'(4))
    have "live b'" by (rule live_kept_one [OF _ k ba]) (use g moved_flags [OF b'(2)] in \<open>auto simp: good_def\<close>)
    then have "good b'" using moved_ok [OF b'(2,3) goodD(1) [OF g]] by (simp add: good_def)
    then show ?thesis
      using True e7 b' k idle_kept [OF i k] without_active [OF goodD(5) [OF g] e] moved_evs [OF b'(2)] moved_flags [OF b'(2)]
      by (intro that [of b']) (simp_all add: take_from_queue_def)
  next
    case False
    from good_del_step [OF g ba, of env EVENT_DEL_NOBLOCK] obtain r b' where
      b': "event_del_nolock env b e EVENT_DEL_NOBLOCK = Some (r, b')" "good b'" "kept e b b'"
      "\<forall>n. bit (flags b' e) n \<longleftrightarrow> bit (flags b e) n \<and> n \<notin> {0, 1, 3, 5}"
      "ev_timeout (timeheap b') = ev_timeout (timeheap b)" "activequeues b' = without e (activequeues b)"
      "evs b' = (evs b)(e := (evs b e)\<lparr>ev_flags := flags b' e\<rparr>)" .
    have "\<not> bit (flags b e) 6" by (rule goodD(3) [OF g])
    then show ?thesis
      using False e7 b' idle_kept [OF i b'(3,2)]
      by (intro that [of b']) (simp_all add: take_from_queue_def)
  qed
qed

lemma idle_fields [simp]:
  "idle (b\<lparr>calls := x1\<rparr>) = idle b" "idle (b\<lparr>current_event := x2\<rparr>) = idle b" "idle (b\<lparr>event_break := x3\<rparr>) = idle b"
  "idle (b\<lparr>event_continue := x4\<rparr>) = idle b" "idle (b\<lparr>event_running_priority := x6\<rparr>) = idle b"
  "idle (clear_time_cache b) = idle b" "idle (update_time_cache b) = idle b"
  by (simp_all add: idle_def) (simp_all add: clear_time_cache_def update_time_cache_def Let_def)

lemma cache_queues [simp]:
  "activequeues (update_time_cache b) = activequeues b" "activequeues (clear_time_cache b) = activequeues b"
  by (simp_all add: clear_time_cache_def update_time_cache_def Let_def)

lemma queue_head:
  assumes "idle b" "p < length (activequeues b)" "activequeues b ! p = e # es"
  shows "bit (flags b e) 3 \<and> ev_base (evs b e) \<and> pris b e = p"
proof -
  have q: "active_ok (activequeues b) (flags b) (pris b)" using assms(1) goodD(5) by (simp add: idle_def queues_ok_def)
  have "e \<in> set (activequeues b ! p)" using assms(3) by simp
  with q assms(2) have "bit (flags b e) 3 \<and> pris b e = p" by (simp add: active_ok_def)
  then show ?thesis using assms(1) by (simp add: idle_def good_def live_def queued_def)
qed

lemma single_queue_ok:
  assumes p: "polite cb"
  shows "idle b \<Longrightarrow> pri < length (activequeues b) \<Longrightarrow> 0 \<le> n \<Longrightarrow>
    \<exists>c b'. event_process_active_single_queue cb env pri maxcb endtime n b = Some (c, b') \<and> idle b'
      \<and> length (activequeues b') = length (activequeues b) \<and> (c = -1 \<or> n \<le> c)"
proof (induction "nat (maxcb - n)" arbitrary: n b rule: less_induct)
  case less
  show ?case
  proof (cases "activequeues b ! pri")
    case Nil
    with less.prems show ?thesis by (subst event_process_active_single_queue.simps) simp
  next
    case (Cons e es)
    note h = queue_head [OF less.prems(1,2) Cons]
    from take_from_queue_ok [OF less.prems(1) conjunct1 [OF h], of env] obtain b1 where
      b1: "take_from_queue env b e = Some b1" "idle b1" "kept e b b1" "activequeues b1 = without e (activequeues b)" .
    have n4: "\<not> bit (flags b1 e) 4" using b1(2) goodD(4) by (simp add: idle_def)
    have "ev_base (evs (b1\<lparr>current_event := Some e\<rparr>) e)" using h keptD(9) [OF b1(3)] by simp
    from run_closure_ok [OF p _ this] b1(2) obtain b2 where b2: "run_closure cb env (b1\<lparr>current_event := Some e\<rparr>) e = Some b2"
      "idle b2" "length (activequeues b2) = length (activequeues b1)" by auto
    define b3 where "b3 = b2\<lparr>current_event := None\<rparr>"
    define b4 where "b4 = (if endtime \<noteq> None then update_time_cache b3 else b3)"
    have b4: "idle b4" "length (activequeues b4) = length (activequeues b)" and b3: "idle b3" "length (activequeues b3) = length (activequeues b)"
      using b2 b1(4) by (simp_all add: b4_def b3_def)
    let ?next = "event_process_active_single_queue cb env pri maxcb endtime (n + 1) b4"
    have run: "event_process_active_single_queue cb env pri maxcb endtime n b =
      (if event_break b3 then Some (-1, b3) else if n + 1 \<ge> maxcb then Some (n + 1, b3)
       else if endtime \<noteq> None \<and> gettime b4 \<ge> the endtime then Some (n + 1, b4)
       else if event_continue b4 then Some (n + 1, b4) else ?next)"
      using less.prems Cons b1(1) b2(1) n4
      by (subst event_process_active_single_queue.simps) (simp add: Let_def b3_def b4_def)
    have next_ok: "\<exists>c b'. ?next = Some (c, b') \<and> idle b' \<and> length (activequeues b') = length (activequeues b) \<and> (c = -1 \<or> n \<le> c)"
      if "n + 1 < maxcb"
    proof -
      from that have "nat (maxcb - (n + 1)) < nat (maxcb - n)" by simp
      from less.hyps [OF this b4(1)] b4(2) less.prems show ?thesis by fastforce
    qed
    consider (brk) "event_break b3" | (full) "\<not> event_break b3" "n + 1 \<ge> maxcb"
      | (late) "\<not> event_break b3" "n + 1 < maxcb" "endtime \<noteq> None \<and> gettime b4 \<ge> the endtime \<or> event_continue b4"
      | (more) "\<not> event_break b3" "n + 1 < maxcb" "\<not> (endtime \<noteq> None \<and> gettime b4 \<ge> the endtime)" "\<not> event_continue b4"
      by force
    then show ?thesis
    proof cases
      case brk
      then show ?thesis unfolding run using b3 by simp
    next
      case full
      then show ?thesis unfolding run using b3 by simp
    next
      case late
      then show ?thesis unfolding run using b4 by auto
    next
      case more
      then show ?thesis unfolding run if_not_P [OF more(1)] if_not_P [OF more(3)] if_not_P [OF more(4)]
        using next_ok [OF more(2)] by simp
    qed
  qed
qed

lemma process_priorities_ok:
  assumes p: "polite cb"
  shows "idle b \<Longrightarrow> \<exists>c' b'. process_priorities cb env maxcb limit endtime c i b = Some (c', b') \<and> idle b'
    \<and> length (activequeues b') = length (activequeues b)"
proof (induction "length (activequeues b) - i" arbitrary: i b c rule: less_induct)
  case less
  show ?case
  proof (cases "i < length (activequeues b)")
    case False
    with less.prems show ?thesis by (subst process_priorities.simps) simp
  next
    case i: True
    show ?thesis
    proof (cases "activequeues b ! i = []")
      case True
      have "length (activequeues b) - (i + 1) < length (activequeues b) - i" using i by simp
      from less.hyps [OF this less.prems] True i show ?thesis by (subst process_priorities.simps) simp
    next
      case False
      define b0 where "b0 = b\<lparr>event_running_priority := int i\<rparr>"
      have b0: "idle b0" "i < length (activequeues b0)" "length (activequeues b0) = length (activequeues b)"
        using less.prems i by (simp_all add: b0_def)
      obtain c1 b1 where b1: "(if int i < limit then event_process_active_single_queue cb env i INT_MAX None 0 b0
          else event_process_active_single_queue cb env i maxcb endtime 0 b0) = Some (c1, b1)" "idle b1"
        "length (activequeues b1) = length (activequeues b)"
        using single_queue_ok [OF p b0(1,2), of 0 env INT_MAX None] single_queue_ok [OF p b0(1,2), of 0 env maxcb endtime] b0(3)
        by (cases "int i < limit") auto
      have run: "process_priorities cb env maxcb limit endtime c i b =
        (if c1 \<noteq> 0 then Some (c1, b1) else process_priorities cb env maxcb limit endtime c1 (i + 1) b1)"
        using i False b1(1) by (subst process_priorities.simps) (auto simp: b0_def Let_def)
      have "length (activequeues b1) - (i + 1) < length (activequeues b) - i" using i b1(3) by simp
      from less.hyps [OF this b1(2), of c1] b1 run show ?thesis by auto
    qed
  qed
qed

lemma process_active_ok:
  assumes "polite cb" "idle b"
  obtains c b' where "event_process_active cb env b = Some (c, b')" "idle b'"
proof -
  define b1 where "b1 = (if tv_sec (max_dispatch_time b) \<ge> 0 then update_time_cache b else b)"
  have "idle b1" using assms(2) by (simp add: b1_def)
  from process_priorities_ok [OF assms(1) this] obtain c b' where
    "process_priorities cb env (max_dispatch_callbacks b) (limit_callbacks_after_prio b)
      (if tv_sec (max_dispatch_time b) \<ge> 0 then Some (evutil_timeradd (max_dispatch_time b1) (gettime b1)) else None) 0 0 b1
      = Some (c, b')" "idle b'" by blast
  then have "event_process_active cb env b = Some (c, b'\<lparr>event_running_priority := -1\<rparr>)"
    unfolding event_process_active_def Let_def b1_def [symmetric] by (simp del: if_split)
  then show ?thesis by (rule that) (simp add: \<open>idle b'\<close>)
qed

section \<open>A round of the loop\<close>

lemma timeout_process_ok:
  assumes "good b"
  obtains es b' where "timeout_process env b = Some b'" "good b'" "distinct es" "set es = due b (gettime b)"
    "sorted (map (ev_timeout (timeheap b)) es)" "timed_out es b b'"
proof -
  have heap: "timers_ok (timeheap b)" using goodD(5) [OF assms] by (simp add: queues_ok_def heap_ok_def)
  show ?thesis
  proof (cases "min_heap_empty (timeheap b)")
    case True
    then have "min_heap_top (timeheap b) = None" by (simp add: min_heap_empty_def min_heap_top_def)
    with top_least [OF heap] have "due b (gettime b) = {}" by (auto simp: due_def scheduled_def)
    with True assms show ?thesis by (intro that [of b "[]"]) (simp_all add: timeout_process_def timed_out_def)
  next
    case False
    from timeout_loop_ok [OF assms, of env "gettime b"] obtain es b' where
      "timeout_loop env (gettime b) b = Some b'" "good b'" "distinct es" "set es = due b (gettime b)"
      "sorted (map (ev_timeout (timeheap b)) es)" "timed_out es b b'" by blast
    with False show ?thesis by (intro that [of b' es]) (simp_all add: timeout_process_def)
  qed
qed

lemma core_idle: "core b' = core b \<Longrightarrow> running_ncalls b = None \<Longrightarrow> running_ncalls b' = None"
proof -
  have "map_option (\<lambda>(e, n). (e, 0)) (running_ncalls c) = running_ncalls (core c)" for c by (simp add: core_def)
  then show "core b' = core b \<Longrightarrow> running_ncalls b = None \<Longrightarrow> running_ncalls b' = None"
    by (metis map_option_is_None)
qed

lemma idle_rounds [simp]: "idle (b\<lparr>event_continue := c, n_deferreds_queued := n\<rparr>) = idle b"
  "idle (b\<lparr>event_running_priority := p\<rparr>) = idle b" "idle (b\<lparr>running_loop := l\<rparr>) = idle b"
  "idle (b\<lparr>event_gotterm := x, event_break := y\<rparr>) = idle b"
  by (simp_all add: idle_def good_shell [of "b\<lparr>event_continue := c, n_deferreds_queued := n\<rparr>" b]
    good_shell [of "b\<lparr>event_gotterm := x, event_break := y\<rparr>" b] runner_def)

lemma idle_later: "idle b \<Longrightarrow> \<exists>b'. event_queue_make_later_events_active b = Some b' \<and> idle b'"
  using good_later [of b] by (auto simp: idle_def stays_def fewer_calls_def)

text \<open>
  What is asked of \<open>dispatch\<close>: it returns and keeps the invariant. Those that only activate the events of
  descriptors and signals, as the back ends do, satisfy it.
\<close>

definition dispatches :: "dispatch \<Rightarrow> bool" where
  "dispatches disp \<longleftrightarrow> (\<forall>b tv. idle b \<longrightarrow> (\<exists>res b'. disp b tv = Some (res, b') \<and> idle b'))"

definition times_ok :: "base \<Rightarrow> bool" where
  "times_ok b \<longleftrightarrow> normal_time (gettime b) \<and> (\<forall>e. scheduled b e \<longrightarrow> normal_time (ev_timeout (timeheap b) e))"

lemma dispatch_time_ok:
  assumes "good b" "times_ok b"
  shows "dispatch_time fl b \<noteq> None"
proof -
  have "timers_ok (timeheap b)" using goodD(5) [OF assms(1)] by (simp add: queues_ok_def heap_ok_def)
  from next_time_normal [OF this, of "gettime b"] assms(2) show ?thesis
    by (auto simp: dispatch_time_def times_ok_def scheduled_def)
qed

lemma loop_round_ok:
  assumes p: "polite cb" and d: "dispatches disp" and i: "idle b" and t: "times_ok b"
  shows "\<exists>r b'. loop_round cb env disp fl b = Some (r, b') \<and> idle b' \<and> r \<in> {None, Some (-1), Some 0, Some 1}"
proof -
  define b0 where "b0 = b\<lparr>event_continue := False, n_deferreds_queued := 0\<rparr>"
  have i0: "idle b0" and t0: "times_ok b0"
    using i t by (simp_all add: b0_def times_ok_def gettime_def scheduled_def split: if_splits)
  from dispatch_time_ok [OF _ t0, of fl] i0 obtain tv where tv: "dispatch_time fl b0 = Some tv" by (auto simp: idle_def)
  from idle_later [OF i0] obtain b1 where b1: "event_queue_make_later_events_active b0 = Some b1" "idle b1" by blast
  then have "idle (clear_time_cache b1)" by simp
  with d obtain res b2 where b2: "disp (clear_time_cache b1) tv = Some (res, b2)" "idle b2" unfolding dispatches_def by metis
  have "good (update_time_cache b2)" using b2(2) by (simp add: idle_def)
  from timeout_process_ok [OF this, of env] obtain es b3 where
    b3: "timeout_process env (update_time_cache b2) = Some b3" "good b3" "timed_out es (update_time_cache b2) b3" .
  have "running_ncalls (update_time_cache b2) = None" using idle_fields(7) [of b2] b2(2) by (simp add: idle_def)
  with b3(2,3) have i3: "idle b3" using core_idle [of b3 "update_time_cache b2"] by (simp add: timed_out_def idle_def)
  from process_active_ok [OF p i3, of env] obtain n b4 where b4: "event_process_active cb env b3 = Some (n, b4)" "idle b4" .
  show ?thesis
    using tv b1(1) b2 b3(1) i0 i3 b4 unfolding loop_round_def Let_def b0_def [symmetric]
    by (simp split del: if_split) (simp split: if_split)
qed

end
