(* ===== verification/Event_Times.thy ===== *)
theory Event_Times
  imports Event_Run
begin

text \<open>
  The times of a base through a round of the loop of libevent: the clock, the timeouts of the scheduled
  events and the intervals of the persistent events stay normalised. The lemmas say what holds of the
  base \<open>if\<close> an operation returns; that the operations return is shown in \<open>Event_Ops\<close> and \<open>Event_Run\<close>.
\<close>

section \<open>What holds of a base when a function returns\<close>

definition always :: "(base \<Rightarrow> bool) \<Rightarrow> base option \<Rightarrow> bool" where
  "always P r \<longleftrightarrow> pred_option P r"

definition always2 :: "(base \<Rightarrow> bool) \<Rightarrow> ('a \<times> base) option \<Rightarrow> bool" where
  "always2 P r \<longleftrightarrow> pred_option (\<lambda>(x, b). P b) r"

lemma always_base [simp]:
  "always P None" "always P (Some b) = P b" "always2 P None" "always2 P (Some (x, b)) = P b"
  by (simp_all add: always_def always2_def)

lemma always_if:
  "(Q \<Longrightarrow> always P x) \<Longrightarrow> (\<not> Q \<Longrightarrow> always P y) \<Longrightarrow> always P (if Q then x else y)"
  "(Q \<Longrightarrow> always2 P x') \<Longrightarrow> (\<not> Q \<Longrightarrow> always2 P y') \<Longrightarrow> always2 P (if Q then x' else y')"
  by simp_all

lemma always_case: "(\<And>x y. m = (x, y) \<Longrightarrow> always2 P (f x y)) \<Longrightarrow> always2 P (case m of (x, y) \<Rightarrow> f x y)"
  by (cases m) simp

lemma always_bind:
  "always P m \<Longrightarrow> (\<And>b. P b \<Longrightarrow> always Q (f b)) \<Longrightarrow> always Q (m \<bind> f)"
  "always P m \<Longrightarrow> (\<And>b. P b \<Longrightarrow> always2 Q (g b)) \<Longrightarrow> always2 Q (m \<bind> g)"
  "always2 P n \<Longrightarrow> (\<And>x b. P b \<Longrightarrow> always2 Q (h x b)) \<Longrightarrow> always2 Q (n \<bind> (\<lambda>(x, b). h x b))"
  "always2 P n \<Longrightarrow> (\<And>x b. P b \<Longrightarrow> always Q (k x b)) \<Longrightarrow> always Q (n \<bind> (\<lambda>(x, b). k x b))"
  by (cases m; cases n; auto simp: always_def always2_def)+

lemmas always_seq = always_bind(1) [where P = P and Q = P for P] always_bind(2) [where P = P and Q = P for P]
  always_bind(3) [where P = P and Q = P for P] always_bind(4) [where P = P and Q = P for P]

lemma always_skip: "(\<And>x. always2 P (f x)) \<Longrightarrow> always2 P (m \<bind> f)"
  by (cases m) simp_all

lemma always_mono: "always P r \<Longrightarrow> (\<And>b. P b \<Longrightarrow> Q b) \<Longrightarrow> always Q r"
  by (cases r) simp_all

section \<open>Operations that leave the times alone\<close>

text \<open>The heap of the timers moves events, not their timeouts.\<close>

lemma shift_times [simp]:
  "ev_timeout (min_heap_shift_up s i e) = ev_timeout s" "ev_timeout (min_heap_shift_down s i e) = ev_timeout s"
proof -
  show "ev_timeout (min_heap_shift_up s i e) = ev_timeout s"
    by (induction s i e rule: min_heap_shift_up.induct) (subst min_heap_shift_up.simps, simp)
  show "ev_timeout (min_heap_shift_down s i e) = ev_timeout s"
    by (induction s i e rule: min_heap_shift_down.induct) (subst min_heap_shift_down.simps, simp)
qed

lemma heap_times [simp]: "ev_timeout (snd (min_heap_reserve mm s n)) = ev_timeout s"
  "ev_timeout (snd (min_heap_push mm s e)) = ev_timeout s" "ev_timeout (snd (min_heap_erase s e)) = ev_timeout s"
proof -
  show r: "ev_timeout (snd (min_heap_reserve mm s n)) = ev_timeout s" for n
    by (simp add: min_heap_reserve_def Let_def split: option.split)
  show "ev_timeout (snd (min_heap_push mm s e)) = ev_timeout s"
    using r [of "mh_n s + 1"] by (simp add: min_heap_push_def case_prod_beta)
  show "ev_timeout (snd (min_heap_erase s e)) = ev_timeout s"
    by (simp add: min_heap_erase_def min_heap_shift_up_unconditional_def Let_def)
qed

text \<open>The clock, the timeouts and the intervals are those of before, and no event is newly scheduled.\<close>

definition same_times :: "base \<Rightarrow> base \<Rightarrow> bool" where
  "same_times b b' \<longleftrightarrow> tv_cache b' = tv_cache b \<and> mono b' = mono b \<and> ev_timeout (timeheap b') = ev_timeout (timeheap b)
     \<and> (\<forall>e. ev_closure (evs b' e) = ev_closure (evs b e) \<and> ev_io_timeout (evs b' e) = ev_io_timeout (evs b e)
           \<and> (bit (flags b' e) 0 \<longrightarrow> bit (flags b e) 0))"

lemma same_times_refl [simp]: "same_times b b"
  by (simp add: same_times_def)

lemma same_times_trans: "same_times a b \<Longrightarrow> same_times b c \<Longrightarrow> same_times a c"
  by (simp add: same_times_def)

lemma same_times_upd:
  assumes "same_times a b" and "ev_closure (g (evs b e)) = ev_closure (evs b e)"
    "ev_io_timeout (g (evs b e)) = ev_io_timeout (evs b e)" "bit (ev_flags (g (evs b e))) 0 \<longrightarrow> bit (ev_flags (evs b e)) 0"
  shows "same_times a (upd b e g)"
  using assms by (auto simp: same_times_def upd_def flags_def)

lemma same_times_fields [simp]:
  "same_times a (b\<lparr>event_count := x1\<rparr>) = same_times a b" "same_times a (b\<lparr>event_count_max := x2\<rparr>) = same_times a b"
  "same_times a (b\<lparr>event_count_active := x3\<rparr>) = same_times a b" "same_times a (b\<lparr>activequeues := x4\<rparr>) = same_times a b"
  "same_times a (b\<lparr>active_later_queue := x5\<rparr>) = same_times a b" "same_times a (b\<lparr>io_map := x6\<rparr>) = same_times a b"
  "same_times a (b\<lparr>io_nentries := x7\<rparr>) = same_times a b" "same_times a (b\<lparr>sig_map := x8\<rparr>) = same_times a b"
  "same_times a (b\<lparr>sig_nentries := x9\<rparr>) = same_times a b" "same_times a (b\<lparr>running_ncalls := x10\<rparr>) = same_times a b"
  "same_times a (b\<lparr>event_continue := x11\<rparr>) = same_times a b" "same_times a (b\<lparr>n_deferreds_queued := x12\<rparr>) = same_times a b"
  "same_times a (b\<lparr>event_count_active_max := x13\<rparr>) = same_times a b" "same_times a (b\<lparr>current_event := x14\<rparr>) = same_times a b"
  "same_times a (b\<lparr>calls := x15\<rparr>) = same_times a b" "same_times a (b\<lparr>event_running_priority := x16\<rparr>) = same_times a b"
  by (simp_all add: same_times_def flags_def)

lemma same_times_heap: "same_times a b \<Longrightarrow> ev_timeout h = ev_timeout (timeheap b) \<Longrightarrow> same_times a (b\<lparr>timeheap := h\<rparr>)"
  by (simp add: same_times_def flags_def)

lemma flag_ops [simp]: "ev_closure (set_flag f r) = ev_closure r" "ev_io_timeout (set_flag f r) = ev_io_timeout r"
  "ev_closure (clear_flag f r) = ev_closure r" "ev_io_timeout (clear_flag f r) = ev_io_timeout r"
  "bit (ev_flags (clear_flag f r)) 0 \<longrightarrow> bit (ev_flags r) 0"
  by (simp_all add: set_flag_def clear_flag_def bit_and_iff)

lemmas counts = DECR_EVENT_COUNT_def INCR_EVENT_COUNT_def Let_def

lemma queue_times:
  assumes "same_times a b"
  shows "always (same_times a) (event_queue_remove_inserted b e)" "always (same_times a) (event_queue_remove_active b e)"
    "always (same_times a) (event_queue_remove_active_later b e)" "always (same_times a) (event_queue_remove_timeout b e)"
    "always (same_times a) (event_queue_insert_inserted b e)" "always (same_times a) (event_queue_insert_active b e)"
    "always (same_times a) (abort_signal_loop b e)"
proof -
  have c: "same_times a (upd (DECR_EVENT_COUNT b (flags b e)) e (clear_flag f))" for f
    by (rule same_times_upd) (use assms in \<open>simp_all add: counts\<close>)
  have s: "same_times a (upd (INCR_EVENT_COUNT b (flags b e)) e (set_flag f))" if "\<not> bit f 0" for f
    by (rule same_times_upd) (use assms that in \<open>simp_all add: counts set_flag_def bit_or_iff\<close>)
  show "always (same_times a) (event_queue_remove_inserted b e)" "always (same_times a) (event_queue_remove_active b e)"
    "always (same_times a) (event_queue_remove_active_later b e)"
    using c unfolding event_queue_remove_inserted_def event_queue_remove_active_def event_queue_remove_active_later_def Let_def
    by simp_all
  show "always (same_times a) (event_queue_remove_timeout b e)"
    unfolding event_queue_remove_timeout_def Let_def using same_times_heap [OF c heap_times(3)] by (simp add: counts)
  show "always (same_times a) (event_queue_insert_inserted b e)" "always (same_times a) (event_queue_insert_active b e)"
    using s assms unfolding event_queue_insert_inserted_def event_queue_insert_active_def Let_def by simp_all
  show "always (same_times a) (abort_signal_loop b e)"
    using assms by (simp add: abort_signal_loop_def split: option.split prod.split)
qed

lemma map_times:
  assumes "same_times a b"
  shows "always2 (same_times a) (Some (evmap_io_add env b fd e))" "always2 (same_times a) (evmap_io_del env b fd e)"
    "always2 (same_times a) (evmap_signal_add env b fd e)" "always2 (same_times a) (evmap_signal_del env b fd e)"
proof -
  have "same_times a (snd (evmap_io_add env b fd e))"
    using assms by (simp add: evmap_io_add_def Let_def case_prod_beta if_distrib [of snd] if_distrib [of "same_times a"])
  then show "always2 (same_times a) (Some (evmap_io_add env b fd e))" by (simp add: always2_def case_prod_beta)
  show "always2 (same_times a) (evmap_io_del env b fd e)"
    unfolding evmap_io_del_def Let_def case_prod_beta by (intro always_if always_skip) (simp_all add: assms)
  show "always2 (same_times a) (evmap_signal_add env b fd e)"
    unfolding evmap_signal_add_def Let_def case_prod_beta by (intro always_if) (simp_all add: assms)
  show "always2 (same_times a) (evmap_signal_del env b fd e)"
    unfolding evmap_signal_del_def Let_def case_prod_beta by (intro always_if always_skip) (simp_all add: assms)
qed

lemma del_times: "same_times a b \<Longrightarrow> always2 (same_times a) (event_del_nolock env b e mode)"
  unfolding event_del_nolock_def by (intro always_if always_seq queue_times map_times) simp_all

lemma add_to_map_times: "same_times a b \<Longrightarrow> always2 (same_times a) (add_to_map env b e)"
  unfolding add_to_map_def Let_def by (intro always_if always_seq queue_times map_times) simp_all

lemma activate_times: "same_times a b \<Longrightarrow> always2 (same_times a) (event_callback_activate_nolock b e)"
  unfolding event_callback_activate_nolock_def Let_def by (intro always_if always_seq queue_times) simp_all

lemma active_times: "same_times a b \<Longrightarrow> always (same_times a) (event_active_nolock b e res n)"
proof -
  have if_times: "same_times a (if P then x else y)" if "same_times a x" "same_times a y" for P x y using that by simp
  assume "same_times a b"
  then show ?thesis
    unfolding event_active_nolock_def Let_def
    by (intro always_if always_seq activate_times if_times same_times_upd) (simp_all add: same_times_upd)
qed

lemma later_times: "same_times a b \<Longrightarrow> always (same_times a) (make_later_active q b)"
proof (induction q arbitrary: b)
  case (Cons e q)
  have "same_times a (upd (b\<lparr>active_later_queue := q\<rparr>) e
      (\<lambda>r. r\<lparr>ev_flags := (ev_flags r AND NOT EVLIST_ACTIVE_LATER) OR EVLIST_ACTIVE\<rparr>))"
    by (rule same_times_upd) (use Cons.prems in \<open>simp_all add: bit_or_iff bit_and_iff\<close>)
  then show ?case by (simp add: Let_def Cons.IH)
qed simp

lemma take_times: "same_times a b \<Longrightarrow> always (same_times a) (take_from_queue env b e)"
  unfolding take_from_queue_def by (intro always_if always_seq queue_times del_times) simp_all

section \<open>Normalised times\<close>

text \<open>
  The clock and its cache are normalised; so are the timeout of an event whose timeout is set and, of an
  event with the persistent closure, the interval and, when there is one, the last timeout, from which the
  closure computes the next one.
\<close>

definition event_times :: "event_rec \<Rightarrow> timeval \<Rightarrow> bool" where
  "event_times r t \<longleftrightarrow> (bit (ev_flags r) 0 \<longrightarrow> normal_time t)
     \<and> (ev_closure r = EV_CLOSURE_EVENT_PERSIST \<longrightarrow> normal_time (ev_io_timeout r)
         \<and> (ev_io_timeout r \<noteq> evutil_timerclear \<longrightarrow> normal_time t))"

definition times_but :: "event set \<Rightarrow> base \<Rightarrow> bool" where
  "times_but A b \<longleftrightarrow> normal_time (tv_cache b) \<and> normal_time (mono b)
     \<and> (\<forall>e. (e \<notin> A \<longrightarrow> event_times (evs b e) (ev_timeout (timeheap b) e))
           \<and> (ev_closure (evs b e) = EV_CLOSURE_EVENT_PERSIST \<longrightarrow> normal_time (ev_io_timeout (evs b e))))"

definition times_normal :: "base \<Rightarrow> bool" where
  "times_normal b \<longleftrightarrow> normal_time (tv_cache b) \<and> normal_time (mono b)
     \<and> (\<forall>e. event_times (evs b e) (ev_timeout (timeheap b) e))"

lemma times_but_normal: "times_normal b \<Longrightarrow> times_but A b"
  by (simp add: times_but_def times_normal_def event_times_def)

lemma times_frame:
  assumes "same_times b b'"
  shows "times_normal b \<Longrightarrow> times_normal b'" "times_but A b \<Longrightarrow> times_but A b'"
  using assms by (auto simp: times_normal_def times_but_def event_times_def same_times_def flags_def)

lemma kept_times:
  "times_normal b \<Longrightarrow> always (same_times b) r \<Longrightarrow> always times_normal r"
  "times_normal b \<Longrightarrow> always2 (same_times b) r2 \<Longrightarrow> always2 times_normal r2"
  "times_but A b \<Longrightarrow> always (same_times b) r \<Longrightarrow> always (times_but A) r"
  by (cases r; cases r2; auto intro: times_frame)+

lemma timeradd_normal: "normal_time s \<Longrightarrow> normal_time t \<Longrightarrow> normal_time (evutil_timeradd s t)"
  by (auto simp: normal_time_def evutil_timeradd_def Let_def)

lemma gettime_normal: "times_but A b \<Longrightarrow> normal_time (gettime b)" "times_normal b \<Longrightarrow> normal_time (gettime b)"
  by (simp_all add: times_but_def times_normal_def gettime_def)

lemma normal_fields [simp]:
  "times_normal (b\<lparr>calls := x1\<rparr>) = times_normal b" "times_normal (b\<lparr>current_event := x2\<rparr>) = times_normal b"
  "times_normal (b\<lparr>event_break := x3\<rparr>) = times_normal b" "times_normal (b\<lparr>event_continue := x4\<rparr>) = times_normal b"
  "times_normal (b\<lparr>event_running_priority := x5\<rparr>) = times_normal b" "times_normal (b\<lparr>running_ncalls := x6\<rparr>) = times_normal b"
  "times_normal (b\<lparr>n_deferreds_queued := x7\<rparr>) = times_normal b"
  by (simp_all add: times_normal_def)

lemma normal_cache: "times_normal b \<Longrightarrow> times_normal (clear_time_cache b)" "times_normal b \<Longrightarrow> times_normal (update_time_cache b)"
proof -
  show c: "times_normal (clear_time_cache b)" if "times_normal b" for b
    using that by (simp add: times_normal_def clear_time_cache_def normal_time_def)
  show "times_normal (update_time_cache b)" if "times_normal b"
    using c [OF that] gettime_normal(2) [OF c [OF that]] by (simp add: update_time_cache_def Let_def times_normal_def)
qed

lemma normal_counters:
  "times_normal b \<Longrightarrow> times_normal (upd b e (\<lambda>r. r\<lparr>ev_pncalls := p\<rparr>))"
  "times_normal b \<Longrightarrow> times_normal (upd b e (\<lambda>r. r\<lparr>ev_ncalls := n\<rparr>))"
  by (rule times_frame(1) [OF same_times_upd]; simp)+

section \<open>Scheduling\<close>

lemma insert_timeout_times:
  assumes "times_but {e} b" "normal_time (ev_timeout (timeheap b) e)"
  shows "always times_normal (event_queue_insert_timeout env b e)"
  using assms
  by (auto simp: event_queue_insert_timeout_def counts times_but_def times_normal_def upd_def set_flag_def event_times_def)

lemma set_timeout_times:
  assumes "times_normal b" "normal_time t"
  shows "always times_normal (set_timeout env b e t absolute)"
proof -
  let ?b = "if ev_closure (evs b e) = EV_CLOSURE_EVENT_PERSIST \<and> \<not> absolute
              then upd b e (\<lambda>r. r\<lparr>ev_io_timeout := t\<rparr>) else b"
  have start: "times_but {e} ?b"
    using times_but_normal [OF assms(1), of "{e}"] assms(2) by (auto simp: times_but_def upd_def)
  have last: "always times_normal (event_queue_insert_timeout env
      (b\<lparr>timeheap := (timeheap b)\<lparr>ev_timeout := (ev_timeout (timeheap b))(e := t')\<rparr>\<rparr>) e)"
    if "times_but {e} b" "normal_time t'" for b t'
    by (rule insert_timeout_times) (use that in \<open>simp_all add: times_but_def\<close>)
  have step: "always (times_but {e}) r" if "times_but {e} b" "always (same_times b) r" for b r
    using kept_times(3) [OF that] .
  have rm: "always (times_but {e}) (if P then event_queue_remove_timeout b e else Some b)" if "times_but {e} b" for b P
    by (rule step [OF that]) (intro always_if queue_times, simp_all)
  have ab: "always (times_but {e}) (if P then do { b \<leftarrow> abort_signal_loop b e; event_queue_remove_active b e } else Some b)"
    if "times_but {e} b" for b P
    by (rule step [OF that]) (intro always_if always_seq(1) queue_times, simp_all)
  show ?thesis
    unfolding set_timeout_def Let_def
    by (intro always_bind(1) [where P = "times_but {e}"] rm ab last start) (simp_all add: assms(2) gettime_normal timeradd_normal)
qed

lemma add_times:
  assumes "times_normal b" "\<forall>t. tv = Some t \<longrightarrow> normal_time t"
  shows "always2 times_normal (event_add_nolock env b e tv absolute)"
proof -
  have h: "times_normal (b\<lparr>timeheap := h\<rparr>)" if "ev_timeout h = ev_timeout (timeheap b)" for h
    using assms(1) that by (simp add: times_normal_def)
  have m: "always2 times_normal (add_to_map env b e)" if "times_normal b" for b
    by (rule kept_times(2) [OF that add_to_map_times]) simp
  have t: "always2 times_normal (case tv of Some t \<Rightarrow> if res \<noteq> -1 then do { b \<leftarrow> set_timeout env b e t absolute; Some (res, b) }
      else Some (res, b) | None \<Rightarrow> Some (res, b))" if "times_normal b" for b and res :: int
    using that assms(2) set_timeout_times [OF that]
    by (cases tv) (auto intro: always_bind(2) [where P = times_normal])
  have r: "ev_timeout (snd (if P then min_heap_reserve mm (timeheap b) n else (0, timeheap b))) = ev_timeout (timeheap b)" for P mm n
    by simp
  show ?thesis
    unfolding event_add_nolock_def Let_def case_prod_beta
    by (intro always_if always_seq(3) [unfolded case_prod_beta] m t iffD2 [OF always_base(4)] h r) (simp_all add: assms(1))
qed

section \<open>Closures\<close>

text \<open>What is asked of a callback and of \<open>dispatch\<close>: they leave normalised times behind.\<close>

definition keeps_times :: "callbacks \<Rightarrow> bool" where
  "keeps_times cb \<longleftrightarrow> (\<forall>f fd res arg b. times_normal b \<longrightarrow> always times_normal (cb f fd res arg b))"

definition dispatch_keeps_times :: "dispatch \<Rightarrow> bool" where
  "dispatch_keeps_times disp \<longleftrightarrow> (\<forall>b tv. times_normal b \<longrightarrow> always2 times_normal (disp b tv))"

lemma run_times: "keeps_times cb \<Longrightarrow> times_normal b \<Longrightarrow> always times_normal (run_callback cb f fd res arg b)"
  unfolding keeps_times_def run_callback_def by (metis normal_fields(1))

lemma if_normal: "times_normal x \<Longrightarrow> times_normal y \<Longrightarrow> times_normal (if P then x else y)"
  by simp

lemma signal_loop_times:
  assumes "keeps_times cb" "times_normal b"
  shows "always times_normal (signal_loop cb e b)"
proof -
  have "keeps_times cb \<longrightarrow> times_normal b \<longrightarrow> times_normal b'" if "signal_loop cb e b = Some b'" for b'
  proof (rule signal_loop.raw_induct [where P = "\<lambda>cb e b b'. keeps_times cb \<longrightarrow> times_normal b \<longrightarrow> times_normal b'", OF _ that], goal_cases)
    case (1 loop cb e b b')
    have ih: "always times_normal (loop cb e b)" if "keeps_times cb" "times_normal b" for cb e b
      using 1(1) [of cb e b] that by (cases "loop cb e b") simp_all
    show ?case
    proof (intro impI)
      assume k: "keeps_times cb" and b: "times_normal b"
      have run: "always times_normal (run_event cb e b)" if "times_normal b" for b
        using run_times [OF k that] by (simp add: run_event_def)
      have count: "times_normal (if Q then upd (upd (b\<lparr>running_ncalls := x\<rparr>) e (\<lambda>r. r\<lparr>ev_ncalls := n\<rparr>)) e (\<lambda>r. r\<lparr>ev_pncalls := False\<rparr>)
          else upd (b\<lparr>running_ncalls := x\<rparr>) e (\<lambda>r. r\<lparr>ev_ncalls := n\<rparr>))" for Q x n
        by (intro if_normal normal_counters) (simp_all add: b)
      have "always times_normal (Some b')"
        unfolding 1(2) [symmetric]
        apply (cases "running_ncalls b")
         apply simp
        apply (clarsimp simp only: option.case prod.case Let_def split: prod.split)
        apply (intro always_if always_seq run count ih k iffD2 [OF always_base(2)] if_normal normal_counters b)
        apply simp_all
        done
      then show "times_normal b'" by simp
    qed
  qed
  with assms show ?thesis by (cases "signal_loop cb e b") simp_all
qed

lemma signal_closure_times:
  assumes "keeps_times cb" "times_normal b"
  shows "always times_normal (event_signal_closure cb b e)"
  unfolding event_signal_closure_def Let_def
  by (rule always_seq(1) [OF signal_loop_times [OF assms(1)]]) (simp_all add: assms(2) normal_counters)

lemma persist_closure_times:
  assumes k: "keeps_times cb" and b: "times_normal b" and e: "ev_closure (evs b e) = EV_CLOSURE_EVENT_PERSIST"
  shows "always times_normal (event_persist_closure cb env b e)"
proof -
  let ?d = "ev_io_timeout (evs b e)"
  have now: "normal_time (gettime b)" by (rule gettime_normal(2) [OF b])
  have d: "normal_time ?d" using b e by (simp add: times_normal_def event_times_def)
  have t: "normal_time (ev_timeout (timeheap b) e)" if "tv_sec ?d \<noteq> 0 \<or> tv_usec ?d \<noteq> 0"
    using b e that by (auto simp: times_normal_def event_times_def evutil_timerclear_def)
  have if_time: "normal_time (if P then x else y)" if "P \<Longrightarrow> normal_time x" "normal_time y" for P x y using that by simp
  have run: "always times_normal (run_event cb e b)" if "times_normal b" for b
    using run_times [OF k that] by (simp add: run_event_def)
  show ?thesis
    unfolding event_persist_closure_def Let_def
    by (intro always_seq(1) always_if always_seq(4) add_times run iffD2 [OF always_base(2)] b allI impI)
      (auto intro!: if_time timeradd_normal now d t)
qed

lemma closure_times:
  assumes k: "keeps_times cb" and b: "times_normal b"
  shows "always times_normal (run_closure cb env b e)"
proof -
  have run: "always times_normal (run_event cb e b)" using run_times [OF k b] by (simp add: run_event_def)
  show ?thesis
    using signal_closure_times [OF k b] persist_closure_times [OF k b] run run_times [OF k] b
    by (simp add: run_closure_def Let_def split: closure.split)
qed

section \<open>The loop\<close>

lemma timeout_loop_times:
  assumes "times_normal b"
  shows "always times_normal (timeout_loop env now b)"
proof -
  have "times_normal b \<longrightarrow> times_normal b'" if "timeout_loop env now b = Some b'" for b'
  proof (rule timeout_loop.raw_induct [where P = "\<lambda>env now b b'. times_normal b \<longrightarrow> times_normal b'", OF _ that], goal_cases)
    case (1 loop env now b b')
    have ih: "always times_normal (loop env now b)" if "times_normal b" for b
      using 1(1) [of env now b] that by (cases "loop env now b") simp_all
    show ?case
    proof
      assume b: "times_normal b"
      have del: "always2 times_normal (event_del_nolock env b e mode)" for e mode
        by (rule kept_times(2) [OF b del_times]) simp
      have act: "always times_normal (event_active_nolock b e res n)" if "times_normal b" for b e res n
        by (rule kept_times(1) [OF that active_times]) simp
      have "always times_normal (Some b')"
        unfolding 1(2) [symmetric]
        by (cases "min_heap_top (timeheap b)") (simp add: b, simp only: option.case, intro always_if always_seq del act ih, simp add: b)
      then show "times_normal b'" by simp
    qed
  qed
  with assms show ?thesis by (cases "timeout_loop env now b") simp_all
qed

lemma timeout_process_times: "times_normal b \<Longrightarrow> always times_normal (timeout_process env b)"
  using timeout_loop_times by (simp add: timeout_process_def)

lemma single_queue_times:
  assumes "keeps_times cb" "times_normal b"
  shows "always2 times_normal (event_process_active_single_queue cb env pri maxcb endtime n b)"
proof -
  have "keeps_times cb \<longrightarrow> times_normal b \<longrightarrow> times_normal (snd r)"
    if "event_process_active_single_queue cb env pri maxcb endtime n b = Some r" for r
  proof (rule event_process_active_single_queue.raw_induct
      [where P = "\<lambda>cb env pri maxcb endtime n b r. keeps_times cb \<longrightarrow> times_normal b \<longrightarrow> times_normal (snd r)", OF _ that], goal_cases)
    case (1 loop cb env pri maxcb endtime n b r)
    have ih: "always2 times_normal (loop cb env pri maxcb endtime n b)" if "keeps_times cb" "times_normal b" for n b
      using 1(1) [of cb env pri maxcb endtime n b] that
      by (cases "loop cb env pri maxcb endtime n b") (auto simp: always2_def)
    show ?case
    proof (intro impI)
      assume k: "keeps_times cb" and b: "times_normal b"
      have take: "always times_normal (take_from_queue env b e)" for e
        by (rule kept_times(1) [OF b take_times]) simp
      have ret: "always2 times_normal (Some (x, b))" if "times_normal b" for b and x :: int using that by simp
      have "always2 times_normal (Some r)"
        unfolding 1(2) [symmetric] Let_def
        by (cases "activequeues b ! pri") (simp add: b, simp only: list.case,
          intro always_if always_seq always_base(3) take closure_times k ih ret,
          simp_all add: b normal_cache)
      then show "times_normal (snd r)" by (simp add: always2_def case_prod_beta)
    qed
  qed
  with assms show ?thesis
    by (cases "event_process_active_single_queue cb env pri maxcb endtime n b") (auto simp: always2_def)
qed

lemma priorities_times:
  assumes "keeps_times cb" "times_normal b"
  shows "always2 times_normal (process_priorities cb env maxcb limit endtime c i b)"
proof -
  have "keeps_times cb \<longrightarrow> times_normal b \<longrightarrow> times_normal (snd r)"
    if "process_priorities cb env maxcb limit endtime c i b = Some r" for r
  proof (rule process_priorities.raw_induct
      [where P = "\<lambda>cb env maxcb limit endtime c i b r. keeps_times cb \<longrightarrow> times_normal b \<longrightarrow> times_normal (snd r)", OF _ that], goal_cases)
    case (1 loop cb env maxcb limit endtime c i b r)
    have ih: "always2 times_normal (loop cb env maxcb limit endtime c i b)" if "keeps_times cb" "times_normal b" for c i b
      using 1(1) [of cb env maxcb limit endtime c i b] that
      by (cases "loop cb env maxcb limit endtime c i b") (auto simp: always2_def)
    show ?case
    proof (intro impI)
      assume k: "keeps_times cb" and b: "times_normal b"
      have ret: "always2 times_normal (Some (x, b))" if "times_normal b" for b and x :: int using that by simp
      have "always2 times_normal (Some r)"
        unfolding 1(2) [symmetric] Let_def
        by (intro always_if always_seq single_queue_times k ih ret) (simp_all add: b)
      then show "times_normal (snd r)" by (simp add: always2_def case_prod_beta)
    qed
  qed
  with assms show ?thesis
    by (cases "process_priorities cb env maxcb limit endtime c i b") (auto simp: always2_def)
qed

lemma process_active_times:
  assumes "keeps_times cb" "times_normal b"
  shows "always2 times_normal (event_process_active cb env b)"
  unfolding event_process_active_def Let_def
  by (intro always_seq(3) priorities_times if_normal assms) (simp_all add: assms normal_cache)

lemma round_times:
  assumes k: "keeps_times cb" and d: "dispatch_keeps_times disp" and b: "times_normal b"
  shows "always2 times_normal (loop_round cb env disp fl b)"
proof -
  have later: "always times_normal (event_queue_make_later_events_active b)" if "times_normal b" for b
    unfolding event_queue_make_later_events_active_def by (rule kept_times(1) [OF that later_times]) simp
  have disp: "always2 times_normal (disp b tv)" if "times_normal b" for b tv
    using d that by (simp add: dispatch_keeps_times_def)
  have ret: "always2 times_normal (Some (x, b))" if "times_normal b" for b and x :: "int option" using that by simp
  show ?thesis
    unfolding loop_round_def Let_def
    by (intro always_if always_skip always_seq later disp timeout_process_times process_active_times k ret normal_cache)
      (simp_all add: b)
qed

lemma normal_times_ok: "good b \<Longrightarrow> times_normal b \<Longrightarrow> times_ok b"
  using gettime_normal(2) [of b] scheduled_flags [of b]
  by (auto simp: times_ok_def times_normal_def event_times_def flags_def)

text \<open>The functions that callbacks and back ends use.\<close>

lemma event_active_times: "times_normal b \<Longrightarrow> always times_normal (event_active b e res n)"
  by (simp add: event_active_def kept_times(1) [OF _ active_times])

lemma io_active_times: "times_normal b \<Longrightarrow> always times_normal (evmap_io_active b fd events)"
proof -
  have l: "always (same_times a) (active_io_list es ev b)" if "same_times a b" for a b es ev
    using that by (induction es arbitrary: b) (simp_all add: always_seq(1) [OF active_times])
  assume "times_normal b"
  then show ?thesis
    by (auto simp: evmap_io_active_def split: option.split intro: kept_times(1) [OF _ l])
qed

lemma event_add_times:
  "times_normal b \<Longrightarrow> \<forall>t. tv = Some t \<longrightarrow> normal_time t \<Longrightarrow> always2 times_normal (event_add env b e tv)"
  by (simp add: event_add_def add_times)

end
