(* ===== verification/Event_Order.thy ===== *)
theory Event_Order
  imports Event_Times
begin

text \<open>
  The properties of the loop of libevent: timeouts fire in order, the processing of the active queues
  returns, a round of \<open>event_base_loop\<close> is safe, and with callbacks that do not interfere events run in the
  order of their priority and activation.
\<close>

section \<open>Adding and deleting does not ask the loop to start again\<close>

abbreviation cont :: "bool \<Rightarrow> base option \<Rightarrow> bool" where
  "cont c \<equiv> always (\<lambda>b. event_continue b = c)"

abbreviation cont2 :: "bool \<Rightarrow> ('a \<times> base) option \<Rightarrow> bool" where
  "cont2 c \<equiv> always2 (\<lambda>b. event_continue b = c)"

lemmas queue_defs = event_queue_remove_inserted_def event_queue_remove_active_def event_queue_remove_active_later_def
  event_queue_remove_timeout_def event_queue_insert_inserted_def event_queue_insert_timeout_def
  DECR_EVENT_COUNT_def INCR_EVENT_COUNT_def upd_def Let_def

lemma queue_cont:
  assumes "event_continue b = c"
  shows "cont c (event_queue_remove_inserted b e)" "cont c (event_queue_remove_active b e)"
    "cont c (event_queue_remove_active_later b e)" "cont c (event_queue_remove_timeout b e)"
    "cont c (event_queue_insert_inserted b e)" "cont c (event_queue_insert_timeout env b e)"
    "cont c (abort_signal_loop b e)"
  using assms by (simp_all add: queue_defs abort_signal_loop_def split: option.split prod.split)

lemma io_add_continue: "event_continue (snd (evmap_io_add env b fd e)) = event_continue b"
  by (simp add: evmap_io_add_def Let_def case_prod_beta if_distrib [of snd] if_distrib [of event_continue])

lemma map_cont:
  assumes "event_continue b = c"
  shows "cont2 c (Some (evmap_io_add env b fd e))" "cont2 c (evmap_io_del env b fd e)"
    "cont2 c (evmap_signal_add env b fd e)" "cont2 c (evmap_signal_del env b fd e)"
proof -
  show "cont2 c (Some (evmap_io_add env b fd e))"
    using io_add_continue [of env b fd e] assms by (simp add: always2_def case_prod_beta)
  show "cont2 c (evmap_io_del env b fd e)"
    unfolding evmap_io_del_def Let_def case_prod_beta by (intro always_if always_skip) (simp_all add: assms)
  show "cont2 c (evmap_signal_add env b fd e)"
    unfolding evmap_signal_add_def Let_def case_prod_beta by (intro always_if) (simp_all add: assms)
  show "cont2 c (evmap_signal_del env b fd e)"
    unfolding evmap_signal_del_def Let_def case_prod_beta by (intro always_if always_skip) (simp_all add: assms)
qed

lemma del_continue:
  assumes "event_continue b = c"
  shows "cont2 c (event_del_nolock env b e mode)"
  unfolding event_del_nolock_def by (intro always_if always_seq queue_cont map_cont) (simp_all add: assms)

lemma set_timeout_continue:
  assumes "event_continue b = c"
  shows "cont c (set_timeout env b e tv absolute)"
  unfolding set_timeout_def Let_def by (intro always_if always_seq queue_cont) (simp_all add: assms upd_def)

lemma add_to_map_continue:
  assumes "event_continue b = c"
  shows "cont2 c (add_to_map env b e)"
  unfolding add_to_map_def Let_def by (intro always_if always_seq queue_cont map_cont) (simp_all add: assms)

lemma add_continue:
  assumes "event_continue b = c"
  shows "cont2 c (event_add_nolock env b e tv absolute)"
proof -
  have "cont2 c (case tv of Some t \<Rightarrow> if res \<noteq> -1 then do { b \<leftarrow> set_timeout env b e t absolute; Some (res, b) } else Some (res, b)
      | None \<Rightarrow> Some (res, b))" if "event_continue b = c" for res b
    using that by (cases tv) (auto intro!: always_seq set_timeout_continue)
  then show ?thesis
    unfolding event_add_nolock_def Let_def
    by (intro always_if always_case always_seq add_to_map_continue) (simp_all add: assms)
qed

section \<open>The order of the callbacks\<close>

text \<open>The calls that the closure of an event makes; callbacks that do nothing.\<close>

definition calls_of :: "event_rec \<Rightarrow> (nat \<times> int \<times> u16 \<times> nat) list" where
  "calls_of r = (let c = (ev_callback r, ev_fd r, ev_res r, ev_arg r)
     in if ev_closure r = EV_CLOSURE_EVENT_SIGNAL then replicate (rounds (as_short (ev_ncalls r))) c else [c])"

definition quiet :: callbacks where
  "quiet f fd res arg b = Some b"

lemma polite_quiet: "polite quiet"
  by (simp add: polite_def quiet_def well_behaved_def)

lemma run_quiet: "run_callback quiet f fd res arg b = Some (b\<lparr>calls := calls b @ [(f, fd, res, arg)]\<rparr>)"
  by (simp add: run_callback_def quiet_def)

text \<open>What the closures leave alone.\<close>

definition undisturbed :: "event \<Rightarrow> base \<Rightarrow> base \<Rightarrow> bool" where
  "undisturbed e b b' \<longleftrightarrow> activequeues b' = activequeues b \<and> event_break b' = event_break b
     \<and> event_continue b' = event_continue b \<and> event_running_priority b' = event_running_priority b
     \<and> (\<forall>x. x \<noteq> e \<longrightarrow> evs b' x = evs b x) \<and> static (evs b' e) = static (evs b e)"

lemma signal_loop_quiet:
  "running_ncalls b = Some (e, n) \<Longrightarrow> as_short n = n \<Longrightarrow> \<not> event_break b \<Longrightarrow>
    \<exists>b'. signal_loop quiet e b = Some b' \<and> undisturbed e b b'
      \<and> calls b' = calls b @ replicate (rounds n) (ev_callback (evs b e), ev_fd (evs b e), ev_res (evs b e), ev_arg (evs b e))"
proof (induction "rounds n" arbitrary: n b)
  case 0
  have "n = 0"
  proof (rule ccontr)
    assume "n \<noteq> 0"
    from rounds_step [OF 0(3) this] 0 show False by simp
  qed
  with 0 show ?case by (subst signal_loop.simps) (simp add: undisturbed_def)
next
  case (Suc k)
  have n0: "n \<noteq> 0" using Suc.hyps(2) by (auto simp: rounds_def)
  let ?n = "as_short (n - 1)"
  have k: "k = rounds ?n" using rounds_step [OF Suc.prems(2) n0] Suc.hyps(2) by simp
  let ?r = "evs b e"
  let ?call = "(ev_callback ?r, ev_fd ?r, ev_res ?r, ev_arg ?r)"
  define b1 where "b1 = upd (b\<lparr>running_ncalls := Some (e, ?n)\<rparr>) e (\<lambda>r. r\<lparr>ev_ncalls := ?n\<rparr>)"
  define b2 where "b2 = (if ?n = 0 then upd b1 e (\<lambda>r. r\<lparr>ev_pncalls := False\<rparr>) else b1)"
  define b3 where "b3 = b2\<lparr>calls := calls b2 @ [?call]\<rparr>"
  have same: "ev_callback (evs b3 e) = ev_callback ?r" "ev_fd (evs b3 e) = ev_fd ?r" "ev_res (evs b3 e) = ev_res ?r"
    "ev_arg (evs b3 e) = ev_arg ?r"
    by (simp_all add: b3_def b2_def b1_def)
  have run: "run_event quiet e b2 = Some b3"
    unfolding run_event_def run_quiet b3_def by (simp add: b2_def b1_def)
  have b3: "running_ncalls b3 = Some (e, ?n)" "\<not> event_break b3" "undisturbed e b b3" "calls b3 = calls b @ [?call]"
    using Suc.prems(3) by (simp_all add: b3_def b2_def b1_def undisturbed_def upd_def)
  have "signal_loop quiet e b = run_event quiet e b2 \<bind> (\<lambda>b. if event_break b
      then Some (if calls_left b then upd b e (\<lambda>r. r\<lparr>ev_pncalls := False\<rparr>) else b)
      else signal_loop quiet e b)"
    by (subst signal_loop.simps) (simp only: Suc.prems(1) option.case prod.case n0 if_False Let_def b1_def b2_def)
  then have "signal_loop quiet e b = signal_loop quiet e b3" using run b3(2) by simp
  moreover from Suc.hyps(1) [OF k b3(1) _ b3(2)] obtain b' where
    "signal_loop quiet e b3 = Some b'" "undisturbed e b3 b'"
    "calls b' = calls b3 @ replicate (rounds ?n) (ev_callback (evs b3 e), ev_fd (evs b3 e), ev_res (evs b3 e), ev_arg (evs b3 e))"
    by auto
  moreover have "undisturbed e b b'" using b3(3) \<open>undisturbed e b3 b'\<close> by (simp add: undisturbed_def)
  ultimately show ?case using same b3(4) rounds_step [OF Suc.prems(2) n0] by (intro exI [of _ b']) simp
qed

lemma run_closure_quiet:
  assumes i: "idle b" and e: "ev_base (evs b e)" "\<not> bit (flags b e) 3" "\<not> event_break b"
  obtains b' where "run_closure quiet env b e = Some b'" "idle b'" "undisturbed e b b'" "calls b' = calls b @ calls_of (evs b e)"
proof -
  from run_closure_ok [OF polite_quiet i e(1)] obtain b' where b': "run_closure quiet env b e = Some b'" "idle b'" by blast
  have a: "assigned (evs b e)" "bit (flags b e) 7" and g: "good b" using i e by (simp_all add: idle_def good_def live_def)
  then consider (signal) "ev_closure (evs b e) = EV_CLOSURE_EVENT_SIGNAL" | (persist) "ev_closure (evs b e) = EV_CLOSURE_EVENT_PERSIST"
    | (event) "ev_closure (evs b e) = EV_CLOSURE_EVENT" by (auto simp: assigned_def split: if_splits)
  then have "undisturbed e b b' \<and> calls b' = calls b @ calls_of (evs b e)"
  proof cases
    case signal
    let ?n = "as_short (ev_ncalls (evs b e))"
    define b1 where "b1 = (if ?n \<noteq> 0 then upd b e (\<lambda>r. r\<lparr>ev_pncalls := True\<rparr>) else b)\<lparr>running_ncalls := Some (e, ?n)\<rparr>"
    have b1: "running_ncalls b1 = Some (e, ?n)" "\<not> event_break b1" "undisturbed e b b1" "calls b1 = calls b"
      and f: "ev_callback (evs b1 e) = ev_callback (evs b e)" "ev_fd (evs b1 e) = ev_fd (evs b e)"
        "ev_res (evs b1 e) = ev_res (evs b e)" "ev_arg (evs b1 e) = ev_arg (evs b e)"
      using e(3) by (simp_all add: b1_def undisturbed_def upd_def)
    from signal_loop_quiet [OF b1(1) _ b1(2)] obtain b2 where b2: "signal_loop quiet e b1 = Some b2" "undisturbed e b1 b2"
      "calls b2 = calls b1 @ replicate (rounds ?n) (ev_callback (evs b1 e), ev_fd (evs b1 e), ev_res (evs b1 e), ev_arg (evs b1 e))"
      by auto
    then have "run_closure quiet env b e = Some (b2\<lparr>running_ncalls := None\<rparr>)"
      using signal a(2) by (simp add: run_closure_def event_signal_closure_def Let_def b1_def)
    moreover have "undisturbed e b (b2\<lparr>running_ncalls := None\<rparr>)" using b1(3) b2(2) by (simp add: undisturbed_def)
    ultimately show ?thesis using b'(1) signal b2(3) b1(4) f by (simp add: calls_of_def Let_def)
  next
    case persist
    have "undisturbed e b b1 \<and> calls b1 = calls b \<and> ev_res (evs b1 e) = ev_res (evs b e)"
      if add: "event_add_nolock env b e tv absolute = Some (r, b1)" for r tv absolute b1
    proof -
      from persist_add [OF g e(1) persist, of env tv absolute] add have
        k: "kept e b b1" "ev_res (evs b1 e) = ev_res (evs b e)" "activequeues b1 = activequeues b" using e(2) by auto
      have "event_continue b1 = event_continue b" using add_continue [OF refl, of b env e tv absolute] add by simp
      with k keptD(2,3,7) [OF k(1)] show ?thesis by (simp add: undisturbed_def kept_def)
    qed
    note add = this
    have st: "undisturbed e b b1 \<Longrightarrow> ev_callback (evs b1 e) = ev_callback (evs b e) \<and> ev_fd (evs b1 e) = ev_fd (evs b e)
        \<and> ev_arg (evs b1 e) = ev_arg (evs b e)" for b1
      using staticD [of "evs b1 e" "evs b e"] by (simp add: undisturbed_def)
    have run: "undisturbed e b1 b2 \<and> calls b2 = calls b1 @ [(ev_callback (evs b1 e), ev_fd (evs b1 e), ev_res (evs b1 e), ev_arg (evs b1 e))]"
      if "run_event quiet e b1 = Some b2" for b1 b2
      using that by (auto simp: run_event_def run_quiet undisturbed_def)
    have tr: "undisturbed e b b1 \<Longrightarrow> undisturbed e b1 b2 \<Longrightarrow> undisturbed e b b2" for b1 b2 by (simp add: undisturbed_def)
    from b'(1) persist a(2) have p: "event_persist_closure quiet env b e = Some b'" by (simp add: run_closure_def Let_def)
    show ?thesis
    proof (cases "tv_sec (ev_io_timeout (evs b e)) \<noteq> 0 \<or> tv_usec (ev_io_timeout (evs b e)) \<noteq> 0")
      case True
      with p obtain tv r b1 where b1: "event_add_nolock env b e tv True = Some (r, b1)" "run_event quiet e b1 = Some b'"
        unfolding event_persist_closure_def Let_def by (auto simp: bind_eq_Some_conv)
      from add [OF b1(1)] run [OF b1(2)] st [of b1] tr [of b1 b'] persist show ?thesis by (simp add: calls_of_def)
    next
      case False
      with p have "run_event quiet e b = Some b'" by (simp add: event_persist_closure_def)
      from run [OF this] persist show ?thesis by (simp add: calls_of_def)
    qed
  next
    case event
    with b'(1) a(2) show ?thesis by (auto simp: run_closure_def Let_def run_event_def run_quiet undisturbed_def calls_of_def)
  qed
  then show ?thesis by (intro that [OF b']) simp_all
qed

text \<open>The first event of a queue leaves it; the others are as before.\<close>

lemma take_first:
  assumes i: "idle b" and p: "p < length (activequeues b)" and q: "activequeues b ! p = e # es"
  obtains b' where "take_from_queue env b e = Some b'" "idle b'" "activequeues b' = (activequeues b)[p := es]"
    "e \<notin> set es" "kept e b b'" "event_continue b' = event_continue b" "ev_base (evs b' e)"
    "\<not> bit (flags b' e) 3" "calls_of (evs b' e) = calls_of (evs b e)"
proof -
  note h = queue_head [OF i p q]
  have g: "good b" using i by (simp add: idle_def)
  from take_from_queue_ok [OF i conjunct1 [OF h], of env] obtain b' where b': "take_from_queue env b e = Some b'" "idle b'"
    "kept e b b'" "activequeues b' = without e (activequeues b)" "evs b' = (evs b)(e := (evs b e)\<lparr>ev_flags := flags b' e\<rparr>)"
    "\<not> bit (flags b' e) 3" by blast
  have "distinct (activequeues b ! p)" using goodD(5) [OF g] p by (simp add: queues_ok_def active_ok_def)
  then have "e \<notin> set es" using q by simp
  moreover have "activequeues b' = (activequeues b)[p := es]"
    using without_active [OF goodD(5) [OF g] conjunct1 [OF h]] b'(4) h q by simp
  moreover have "cont (event_continue b) (take_from_queue env b e)"
    unfolding take_from_queue_def
    by (intro always_if queue_cont refl) (use del_continue [OF refl, of b env e EVENT_DEL_NOBLOCK] in
      \<open>auto simp: always_def always2_def pred_option_def bind_eq_Some_conv split: option.splits\<close>)
  then have "event_continue b' = event_continue b" using b'(1) by simp
  moreover have "calls_of (evs b' e) = calls_of (evs b e)" using b'(5) by (simp add: calls_of_def Let_def)
  moreover have "ev_base (evs b' e)" using h keptD(9) [OF b'(3)] by simp
  ultimately show ?thesis using that [OF b'(1,2) _ _ b'(3) _ _ b'(6)] by simp
qed

lemma single_queue_quiet:
  "idle b \<Longrightarrow> pri < length (activequeues b) \<Longrightarrow> activequeues b ! pri = q \<Longrightarrow> \<not> event_break b \<Longrightarrow> \<not> event_continue b \<Longrightarrow>
    0 \<le> n \<Longrightarrow> n < maxcb \<Longrightarrow>
    \<exists>b'. event_process_active_single_queue quiet env pri maxcb None n b = Some (n + int (min (length q) (nat (maxcb - n))), b')
      \<and> idle b' \<and> activequeues b' = (activequeues b)[pri := drop (nat (maxcb - n)) q]
      \<and> calls b' = calls b @ concat (map (\<lambda>e. calls_of (evs b e)) (take (nat (maxcb - n)) q))"
proof (induction q arbitrary: n b)
  case Nil
  then have "activequeues b = (activequeues b)[pri := []]" by (metis list_update_id)
  with Nil show ?case by (subst event_process_active_single_queue.simps) simp
next
  case (Cons e es)
  from take_first [OF Cons.prems(1-3), of env] obtain b1 where b1: "take_from_queue env b e = Some b1" "idle b1"
    "activequeues b1 = (activequeues b)[pri := es]" "e \<notin> set es" "kept e b b1" "event_continue b1 = event_continue b"
    "ev_base (evs b1 e)" "\<not> bit (flags b1 e) 3" "calls_of (evs b1 e) = calls_of (evs b e)" .
  have n4: "\<not> bit (flags b1 e) 4" using b1(2) goodD(4) by (simp add: idle_def)
  define b2 where "b2 = b1\<lparr>current_event := Some e\<rparr>"
  have b2: "idle b2" "ev_base (evs b2 e)" "\<not> bit (flags b2 e) 3" "\<not> event_break b2" and cal: "calls_of (evs b2 e) = calls_of (evs b e)"
    using b1 Cons.prems(4) keptD(3) [OF b1(5)] by (simp_all add: b2_def flags_def)
  from run_closure_quiet [OF b2, of env] obtain b3 where b3: "run_closure quiet env b2 e = Some b3" "idle b3" "undisturbed e b2 b3"
    "calls b3 = calls b2 @ calls_of (evs b2 e)" .
  define b4 where "b4 = b3\<lparr>current_event := None\<rparr>"
  have ev: "evs b4 x = evs b x" if "x \<in> set es" for x
  proof -
    from that b1(4) have "x \<noteq> e" by blast
    then show ?thesis using b1(5) b3(3) by (simp add: b4_def b2_def kept_def undisturbed_def)
  qed
  have b4: "idle b4" "activequeues b4 = (activequeues b)[pri := es]" "\<not> event_break b4" "\<not> event_continue b4"
    "calls b4 = calls b @ calls_of (evs b e)"
    using b3 b1(3,6) cal Cons.prems(4,5) keptD(3,7) [OF b1(5)] by (simp_all add: b4_def b2_def undisturbed_def)
  have same: "event_break b3 = event_break b4" by (simp add: b4_def)
  have run: "event_process_active_single_queue quiet env pri maxcb None n b =
      (if n + 1 \<ge> maxcb then Some (n + 1, b4) else event_process_active_single_queue quiet env pri maxcb None (n + 1) b4)"
    using Cons.prems(2,3) b1(1) b3(1) n4 b4(3,4) same
    by (subst event_process_active_single_queue.simps) (simp add: Let_def b2_def [symmetric] b4_def [symmetric])
  show ?case
  proof (cases "n + 1 \<ge> maxcb")
    case True
    then have "nat (maxcb - n) = 1" using Cons.prems(7) by simp
    with True run b4 show ?thesis by simp
  next
    case False
    then have m: "nat (maxcb - n) = Suc (nat (maxcb - (n + 1)))" by simp
    have "concat (map (\<lambda>x. calls_of (evs b4 x)) (take k es)) = concat (map (\<lambda>x. calls_of (evs b x)) (take k es))" for k
      using ev in_set_takeD by (intro arg_cong [of _ _ concat] map_cong) (auto dest: in_set_takeD)
    with Cons.IH [OF b4(1) _ _ b4(3,4), of "n + 1"] False m run b4 Cons.prems(2,6) show ?thesis by auto
  qed
qed

lemma priorities_skip:
  "j \<le> length (activequeues b) \<Longrightarrow> i \<le> j \<Longrightarrow> \<forall>k. i \<le> k \<and> k < j \<longrightarrow> activequeues b ! k = [] \<Longrightarrow>
    process_priorities cb env maxcb limit endtime c i b = process_priorities cb env maxcb limit endtime c j b"
proof (induction "j - i" arbitrary: i)
  case (Suc d)
  then have "activequeues b ! i = []" "i < length (activequeues b)" by simp_all
  then have "process_priorities cb env maxcb limit endtime c i b = process_priorities cb env maxcb limit endtime c (i + 1) b"
    by (subst process_priorities.simps) simp
  with Suc.hyps(1) [of "i + 1"] Suc.hyps(2) Suc.prems show ?case by simp
qed simp

text \<open>The functions that callbacks and back ends use.\<close>

lemma io_active_idle: "idle b \<Longrightarrow> \<exists>b'. evmap_io_active b fd events = Some b' \<and> idle b'"
  using good_io_active [where b = b and fd = fd and events = events] by (auto simp: idle_def stays_def fewer_calls_def)

lemma active_calls: "event_active_nolock b e res n = Some b' \<Longrightarrow> running_ncalls b' = running_ncalls b"
  by (auto simp: event_active_nolock_def event_callback_activate_nolock_def event_queue_insert_active_def
    event_queue_remove_active_later_def DECR_EVENT_COUNT_def INCR_EVENT_COUNT_def upd_def Let_def bind_eq_Some_conv split: if_splits)

lemma good_active_well: "good b \<Longrightarrow> \<exists>b'. event_active b e res n = Some b' \<and> well_behaved b b'"
proof (cases "ev_base (evs b e)")
  case True
  assume g: "good b"
  from good_active_step [OF g True, of res "as_short n"] obtain b' where
    b': "event_active_nolock b e res (as_short n) = Some b'" "good b'" "kept e b b'" .
  have "hooked (evs b' x) \<longrightarrow> hooked (evs b x)" for x using b'(3) by (cases "x = e") (simp_all add: kept_def)
  with True b' active_calls [OF b'(1)] keptD(1) [OF b'(3)] show ?thesis by (simp add: event_active_def well_behaved_def)
qed (simp add: event_active_def well_behaved_def)

section \<open>Properties\<close>

text \<open>C9: \<open>timeout_process\<close> returns; it activates exactly the events whose timeout has passed, each once and
  in the order of their timeouts behind the events that are active already: an event that was active for
  another reason moves to its new place and is active for the timeout only. None of them is watched or
  scheduled afterwards, and the other events are unchanged.\<close>
theorem timeouts_fire:
  assumes "good b"
  shows "\<exists>es b'. timeout_process env b = Some b' \<and> base_ok b' \<and> distinct es
    \<and> set es = {e. scheduled b e \<and> ev_timeout (timeheap b) e \<le> gettime b} \<and> sorted (map (ev_timeout (timeheap b)) es)
    \<and> (\<forall>p < length (activequeues b). activequeues b' ! p
         = filter (\<lambda>e. e \<notin> set es) (activequeues b ! p) @ filter (\<lambda>e. ev_pri (evs b e) = p) es)
    \<and> (\<forall>e \<in> set es. ev_res (evs b' e) = EV_TIMEOUT \<and> \<not> scheduled b' e \<and> \<not> watched b' e)
    \<and> (\<forall>e. e \<notin> set es \<longrightarrow> evs b' e = evs b e \<and> (scheduled b' e \<longleftrightarrow> scheduled b e))"
proof -
  from timeout_process_ok [OF assms, of env] obtain es b' where b': "timeout_process env b = Some b'" "good b'"
    "distinct es" "set es = due b (gettime b)" "sorted (map (ev_timeout (timeheap b)) es)" "timed_out es b b'" .
  have "\<not> watched b' e" if "e \<in> set es" for e
  proof -
    have "\<not> bit (flags b' e) 1" using b'(6) that by (auto simp: timed_out_def)
    then show ?thesis using io_list_iff [OF goodD(1) [OF b'(2)]] sig_list_iff [OF goodD(1) [OF b'(2)]] by (simp add: watched_def)
  qed
  with b' goodD(1) [OF b'(2)] show ?thesis
    by (intro exI [of _ es] exI [of _ b']) (auto simp: timed_out_def due_def pris_def)
qed

theorem timeouts_fire_witness:
  "\<exists>b'. timeout_process calm (after [Assign 7 3 0x12 0 0, Add 7 (Some (Timeval 0 0))]) = Some b' \<and> \<not> watched b' 7"
proof -
  let ?b = "after [Assign 7 3 0x12 0 0, Add 7 (Some (Timeval 0 0))]"
  have "good ?b" by (rule after_good) code_simp
  from timeouts_fire [OF this, of calm] obtain es b' where b': "timeout_process calm ?b = Some b'"
    "set es = {e. scheduled ?b e \<and> ev_timeout (timeheap ?b) e \<le> gettime ?b}" "\<forall>e \<in> set es. \<not> watched b' e" by blast
  have "ev_timeout (timeheap ?b) 7 \<le> gettime ?b" by code_simp
  moreover have "scheduled ?b 7" unfolding scheduled_def members_def by code_simp
  ultimately show ?thesis using b' by auto
qed

text \<open>C10: Every callback run ends: with callbacks that return, keep the invariant of the base and leave alone
  the signal event whose callback they are, the processing of the active events returns - even when callbacks
  activate events again and again, because each queue is cut off after its maximal number of callbacks - and
  leaves a base that satisfies the invariant, with no closure running.\<close>
theorem process_active_returns:
  assumes "polite cb" "good b" "running_ncalls b = None"
  shows "\<exists>c b'. event_process_active cb env b = Some (c, b') \<and> running_ncalls b' = None \<and> base_ok b'"
proof -
  have "idle b" using assms(2,3) by (simp add: idle_def)
  from process_active_ok [OF assms(1) this, of env] obtain c b' where "event_process_active cb env b = Some (c, b')" "idle b'" .
  then show ?thesis using goodD(1) [of b'] by (auto simp: idle_def)
qed

theorem process_active_returns_witness:
  "\<exists>c b'. event_process_active (\<lambda>f fd res arg b. event_active b 7 2 1) calm (after [Assign 7 3 0x12 0 0, Active 7 2 1]) = Some (c, b') \<and> base_ok b'"
proof -
  let ?b = "after [Assign 7 3 0x12 0 0, Active 7 2 1]"
  have g: "good ?b" by (rule after_good) code_simp
  have "running_ncalls ?b = None" by code_simp
  moreover have "polite (\<lambda>f fd res arg b. event_active b 7 2 1)"
    unfolding polite_def by (intro allI impI) (use good_active_well in blast)
  ultimately show ?thesis using process_active_returns [OF _ g] by blast
qed

text \<open>C11: Events run in order. With callbacks that leave the base alone and no limit on the time, one
  \<open>event_process_active\<close> runs the events of the first queue that is not empty - in the order in which they
  became active, each once and with its own callback, descriptor, result and argument, a signal event as often as its
  signal came - and no others; it stops after \<open>max_dispatch_callbacks\<close> events when the priority is limited,
  and the events it has not run keep their places.\<close>
theorem active_in_order:
  assumes "good b" "running_ncalls b = None" "\<not> event_break b" "\<not> event_continue b" "tv_sec (max_dispatch_time b) < 0"
    and "p < length (activequeues b)" "activequeues b ! p \<noteq> []" "\<forall>k < p. activequeues b ! k = []"
    and "0 < max_dispatch_callbacks b"
    and "limit = (if int p < limit_callbacks_after_prio b then INT_MAX else max_dispatch_callbacks b)"
  shows "\<exists>b'. event_process_active quiet env b = Some (int (min (length (activequeues b ! p)) (nat limit)), b')
    \<and> calls b' = calls b @ concat (map (\<lambda>e. calls_of (evs b e)) (take (nat limit) (activequeues b ! p)))
    \<and> activequeues b' = (activequeues b)[p := drop (nat limit) (activequeues b ! p)]"
proof -
  define b0 where "b0 = b\<lparr>event_running_priority := int p\<rparr>"
  have b0: "idle b0" "activequeues b0 = activequeues b" "\<not> event_break b0" "\<not> event_continue b0" "evs b0 = evs b" "calls b0 = calls b"
    using assms(1-4) idle_rounds(2) [where b = b and p = "int p"] by (simp_all add: b0_def idle_def)
  have lim: "0 < limit" using assms(9,10) by (simp add: INT_MAX_def)
  have p0: "p < length (activequeues b0)" "activequeues b0 ! p = activequeues b ! p" using assms(6) b0(2) by simp_all
  from single_queue_quiet [OF b0(1) p0 b0(3,4) order_refl lim, of env] obtain b1 where
    b1: "event_process_active_single_queue quiet env p limit None 0 b0 = Some (int (min (length (activequeues b ! p)) (nat limit)), b1)"
      "activequeues b1 = (activequeues b)[p := drop (nat limit) (activequeues b ! p)]"
      "calls b1 = calls b @ concat (map (\<lambda>e. calls_of (evs b e)) (take (nat limit) (activequeues b ! p)))"
    using b0(2,5,6) by auto
  have pos: "0 < int (min (length (activequeues b ! p)) (nat limit))" using assms(7) lim by simp
  have "process_priorities quiet env (max_dispatch_callbacks b) (limit_callbacks_after_prio b) None 0 0 b
      = process_priorities quiet env (max_dispatch_callbacks b) (limit_callbacks_after_prio b) None 0 p b"
    by (rule priorities_skip) (use assms(6,8) in auto)
  also have "\<dots> = Some (int (min (length (activequeues b ! p)) (nat limit)), b1)"
    using assms(6,7,10) b1(1) pos by (subst process_priorities.simps) (auto simp: b0_def [symmetric] Let_def)
  finally show ?thesis using assms(5) b1(2,3) by (simp add: event_process_active_def Let_def)
qed

theorem active_in_order_witness:
  "\<exists>n b'. event_process_active quiet calm (after [Assign 7 3 0x12 70 0, Assign 9 4 0x02 90 5, Active 9 2 1, Active 7 2 1]) = Some (n, b')
    \<and> calls b' = [(90, 4, 2, 5), (70, 3, 2, 0)]"
proof -
  let ?b = "after [Assign 7 3 0x12 70 0, Assign 9 4 0x02 90 5, Active 9 2 1, Active 7 2 1]"
  have g: "good ?b" by (rule after_good) code_simp
  have "running_ncalls ?b = None" "\<not> event_break ?b" "\<not> event_continue ?b" "tv_sec (max_dispatch_time ?b) < 0"
    "0 < length (activequeues ?b)" "activequeues ?b ! 0 \<noteq> []" "\<forall>k < 0. activequeues ?b ! k = []" "0 < max_dispatch_callbacks ?b"
    by (code_simp | simp)+
  from active_in_order [OF g this refl, where env = calm] obtain b' n where
    b': "event_process_active quiet calm ?b = Some (n, b')"
    "calls b' = calls ?b @ concat (map (\<lambda>e. calls_of (evs ?b e))
      (take (nat (if int 0 < limit_callbacks_after_prio ?b then INT_MAX else max_dispatch_callbacks ?b)) (activequeues ?b ! 0)))" by blast
  have "activequeues ?b ! 0 = [9, 7]" "max_dispatch_callbacks ?b = 2147483647" "calls ?b = []"
    "calls_of (evs ?b 9) = [(90, 4, 2, 5)]" "calls_of (evs ?b 7) = [(70, 3, 2, 0)]" by code_simp+
  moreover from this have "take (nat (if int 0 < limit_callbacks_after_prio ?b then INT_MAX else max_dispatch_callbacks ?b)) (activequeues ?b ! 0) = [9, 7]"
    by (simp add: INT_MAX_def)
  ultimately show ?thesis using b' by simp
qed

text \<open>C12: Every round of \<open>event_base_loop\<close> returns and keeps the whole invariant: with callbacks and a back end that
  return, keep the invariant and leave normalised times, no assertion fails, and the base satisfies the invariant
  again - its queues, maps and counters, what holds of the events in use, the pointers to the counter of a running
  signal closure (there is none after the round, so that no such pointer is left behind), and the normalised
  times - so that the next round is safe as well. The loop goes on or ends with
  -1, 0 or 1. It ends with 0 at once when \<open>event_base_loopbreak\<close> or \<open>event_base_loopexit\<close> was called, and with
  1 when nothing is left to wait for; in both cases no callback runs.\<close>
theorem loop_round_safe:
  assumes "polite cb" "keeps_times cb" "dispatches disp" "dispatch_keeps_times disp"
    and "good b" "running_ncalls b = None" "times_normal b"
  shows "\<exists>r b'. loop_round cb env disp fl b = Some (r, b') \<and> good b' \<and> running_ncalls b' = None \<and> times_normal b'
    \<and> (\<forall>e. \<not> hooked (evs b' e)) \<and> r \<in> {None, Some (-1), Some 0, Some 1}
    \<and> (event_gotterm b \<or> event_break b \<longrightarrow> r = Some 0 \<and> calls b' = calls b)
    \<and> (\<not> event_gotterm b \<and> \<not> event_break b \<and> fl AND EVLOOP_NO_EXIT_ON_EMPTY = 0 \<and> \<not> event_haveevents b
         \<and> N_ACTIVE_CALLBACKS b = 0 \<longrightarrow> r = Some 1 \<and> calls b' = calls b)"
proof -
  have i: "idle b" using assms(5,6) by (simp add: idle_def)
  from loop_round_ok [OF assms(1,3) i normal_times_ok [OF assms(5,7)], of env fl] obtain r b' where
    b': "loop_round cb env disp fl b = Some (r, b')" "idle b'" "r \<in> {None, Some (-1), Some 0, Some 1}" by blast
  have "times_normal b'" using round_times [OF assms(2,4,7), of env fl] b'(1) by simp
  moreover have "r = Some 0 \<and> calls b' = calls b" if "event_gotterm b \<or> event_break b"
    using that b'(1) by (auto simp: loop_round_def Let_def)
  moreover have "r = Some 1 \<and> calls b' = calls b" if "\<not> event_gotterm b \<and> \<not> event_break b \<and> fl AND EVLOOP_NO_EXIT_ON_EMPTY = 0
      \<and> \<not> event_haveevents b \<and> N_ACTIVE_CALLBACKS b = 0"
    using that b'(1) by (auto simp: loop_round_def Let_def event_haveevents_def N_ACTIVE_CALLBACKS_def bind_eq_Some_conv simp del: and_or_eq_0)
  ultimately show ?thesis using b' idle_not_hooked [OF b'(2)] by (auto simp: idle_def)
qed

theorem loop_round_safe_witness:
  "\<exists>r b'. loop_round (\<lambda>f fd res arg b. event_active b 7 2 1) calm (\<lambda>b tv. map_option (Pair 0) (evmap_io_active b 3 2)) EVLOOP_NONBLOCK
     (after [Assign 7 3 0x12 0 0, Add 7 (Some (Timeval 2 0))]) = Some (r, b') \<and> good b' \<and> times_normal b'"
proof -
  let ?b = "after [Assign 7 3 0x12 0 0, Add 7 (Some (Timeval 2 0))]"
  let ?disp = "\<lambda>b tv. map_option (Pair (0 :: int)) (evmap_io_active b 3 2)"
  have g: "good ?b" by (rule after_good) code_simp
  have r: "running_ncalls ?b = None" by code_simp
  have "\<forall>e. event_times (evs ?b e) (ev_timeout (timeheap ?b) e)"
  proof
    fix e
    show "event_times (evs ?b e) (ev_timeout (timeheap ?b) e)"
      by (cases "e = 7"; code_simp; simp add: normal_time_def)
  qed
  moreover have "normal_time (tv_cache ?b)" "normal_time (mono ?b)" by code_simp+
  ultimately have t: "times_normal ?b" unfolding times_normal_def by (intro conjI)
  have "polite (\<lambda>f fd res arg b. event_active b 7 2 1)"
    unfolding polite_def by (intro allI impI) (use good_active_well in blast)
  moreover have "keeps_times (\<lambda>f fd res arg b. event_active b 7 2 1)"
    by (simp add: keeps_times_def event_active_times)
  moreover have "dispatches ?disp"
    unfolding dispatches_def by (intro allI impI) (use io_active_idle in force)
  moreover have "dispatch_keeps_times ?disp"
    unfolding dispatch_keeps_times_def
  proof (intro allI impI)
    fix b :: base and tv :: "timeval option"
    assume "times_normal b"
    from io_active_times [OF this, of 3 2] show "always2 times_normal (?disp b tv)"
      by (cases "evmap_io_active b 3 2") simp_all
  qed
  ultimately show ?thesis using loop_round_safe [OF _ _ _ _ g r t] by blast
qed

section \<open>Two traces\<close>

text \<open>
  A signal event with two calls that is deleted in its own callback: \<open>event_del\<close> writes 0 to the counter of
  the closure but leaves \<open>ev_pncalls\<close> set, so that after the closure has returned it points to a dead
  variable, and the next \<open>event_del\<close> writes through it.
\<close>

definition deletes_itself :: callbacks where
  "deletes_itself f fd res arg b = map_option snd (event_del calm b arg)"

definition two_signals :: base where
  "two_signals = after [Assign 7 2 0x08 70 7, Add 7 None, Signal_Active 2 2]"

lemma signal_pointer_dangles:
  "case event_process_active deletes_itself calm two_signals of
     Some (n, b) \<Rightarrow> n = 1 \<and> calls b = [(70, 2, 8, 7)] \<and> ev_pncalls (evs b 7) \<and> event_del calm b 7 = None
   | None \<Rightarrow> False"
  by code_simp

text \<open>
  A descriptor event that is active because of its timeout and is added again: \<open>event_add\<close> returns 0 and
  reschedules the timeout, but the event is neither active nor watched afterwards.
\<close>

lemma readded_not_watched:
  "case (do { b \<leftarrow> timeout_process calm (after [Assign 7 3 0x02 70 0, Add 7 (Some (Timeval 0 0))]);
              event_add calm b 7 (Some (Timeval 2 0)) }) of
     Some (r, b) \<Rightarrow> r = 0 \<and> io_list b 3 = [] \<and> activequeues b = [[]] \<and> event_pending b 7 0x07 = EV_TIMEOUT
   | None \<Rightarrow> False"
  by code_simp

end
