(* ===== verification/Poll_Backend.thy ===== *)
theory Poll_Backend
  imports Event_Order
begin

text \<open>
  The back end of libevent that waits with \<open>poll\<close> (\<open>poll.c\<close>): the array of descriptors it hands to the
  kernel, kept dense by moving the last entry into a hole, and the index of each descriptor in it, which
  the code keeps behind the entry of the map of descriptors (\<open>fdinfo\<close>).

  The array is the list of its \<open>poll_event_count\<close> entries, of which the first \<open>nfds\<close> are in use; \<open>grow\<close> is the
  outcome of \<open>mm_realloc\<close>: the contents of the new entries, or \<open>None\<close> when it fails. A failed assertion is
  \<open>None\<close>. The kernel's answer is a parameter. This is the branch of \<open>poll_dispatch\<close> without a lock on the
  base, where the kernel writes to the array itself.

  The first lemmas show that the array holds exactly the descriptors that ask for something, with what they
  ask for, after any calls; then that a wait activates exactly the events of the descriptors the kernel
  reports, and that the loop of the event base may use it.
\<close>

record pollfd =
  pfd_fd :: int
  pfd_events :: u16
  pfd_revents :: u16

record pollop =
  event_set :: "pollfd list"
  nfds :: nat
  realloc_copy :: bool
  idxplus1 :: "int \<Rightarrow> nat"

definition POLLIN :: u16 where "POLLIN = 0x01"
definition POLLOUT :: u16 where "POLLOUT = 0x04"
definition POLLERR :: u16 where "POLLERR = 0x08"
definition POLLHUP :: u16 where "POLLHUP = 0x10"
definition POLLNVAL :: u16 where "POLLNVAL = 0x20"

text \<open>The argument says whether \<open>mm_calloc\<close> succeeds.\<close>

definition poll_init :: "bool \<Rightarrow> pollop option" where
  "poll_init alloc = (if alloc then Some \<lparr>event_set = [], nfds = 0, realloc_copy = False, idxplus1 = (\<lambda>_. 0)\<rparr> else None)"

text \<open>Room for one more entry and a spare one.\<close>

definition poll_grow :: "(nat \<Rightarrow> pollfd) option \<Rightarrow> pollop \<Rightarrow> (int \<times> pollop)" where
  "poll_grow grow pop =
     (let count = length (event_set pop) in
      if nfds pop + 1 \<ge> count then
        let tmp_event_count = (if count < 32 then 32 else count * 2)
        in case grow of
             None \<Rightarrow> (-1, pop)
           | Some junk \<Rightarrow> (0, pop\<lparr>event_set := event_set pop @ map junk [count..<tmp_event_count], realloc_copy := True\<rparr>)
      else (0, pop))"

definition poll_add :: "(nat \<Rightarrow> pollfd) option \<Rightarrow> pollop \<Rightarrow> int \<Rightarrow> u16 \<Rightarrow> (int \<times> pollop) option" where
  "poll_add grow pop fd events =
     (if events AND EV_SIGNAL \<noteq> 0 then None
      else if events AND (EV_READ OR EV_WRITE) = 0 then Some (0, pop)
      else case poll_grow grow pop of (r, pop) \<Rightarrow>
        if r = -1 then Some (-1, pop)
        else
          let (i, pop) =
                (if idxplus1 pop fd > 0 then (idxplus1 pop fd - 1, pop)
                 else (nfds pop, pop\<lparr>nfds := nfds pop + 1,
                         event_set := (event_set pop)[nfds pop := (event_set pop ! nfds pop)\<lparr>pfd_events := 0, pfd_fd := fd\<rparr>],
                         idxplus1 := (idxplus1 pop)(fd := nfds pop + 1)\<rparr>));
              pfd = (event_set pop ! i)\<lparr>pfd_revents := 0\<rparr>;
              pfd = (if events AND EV_WRITE \<noteq> 0 then pfd\<lparr>pfd_events := pfd_events pfd OR POLLOUT\<rparr> else pfd);
              pfd = (if events AND EV_READ \<noteq> 0 then pfd\<lparr>pfd_events := pfd_events pfd OR POLLIN\<rparr> else pfd)
          in Some (0, pop\<lparr>event_set := (event_set pop)[i := pfd]\<rparr>))"

text \<open>The entry at place \<open>i\<close> is given up, and the last one shifted down into the hole.\<close>

definition poll_vacate :: "pollop \<Rightarrow> int \<Rightarrow> nat \<Rightarrow> (int \<times> pollop) option" where
  "poll_vacate pop fd i =
     (let pop = pop\<lparr>idxplus1 := (idxplus1 pop)(fd := 0), nfds := nfds pop - 1\<rparr>
      in if i \<noteq> nfds pop then
           let pop = pop\<lparr>event_set := (event_set pop)[i := event_set pop ! nfds pop]\<rparr>;
               moved_fd = pfd_fd (event_set pop ! i)
           in if idxplus1 pop moved_fd = nfds pop + 1
              then Some (0, pop\<lparr>idxplus1 := (idxplus1 pop)(moved_fd := i + 1)\<rparr>) else None
         else Some (0, pop))"

definition poll_del :: "pollop \<Rightarrow> int \<Rightarrow> u16 \<Rightarrow> (int \<times> pollop) option" where
  "poll_del pop fd events =
     (if events AND EV_SIGNAL \<noteq> 0 then None
      else if events AND (EV_READ OR EV_WRITE) = 0 then Some (0, pop)
      else if idxplus1 pop fd = 0 then Some (-1, pop)
      else
        let i = idxplus1 pop fd - 1;
            pfd = event_set pop ! i;
            pfd = (if events AND EV_READ \<noteq> 0 then pfd\<lparr>pfd_events := pfd_events pfd AND NOT POLLIN\<rparr> else pfd);
            pfd = (if events AND EV_WRITE \<noteq> 0 then pfd\<lparr>pfd_events := pfd_events pfd AND NOT POLLOUT\<rparr> else pfd);
            pop = pop\<lparr>event_set := (event_set pop)[i := pfd]\<rparr>
        in if pfd_events pfd \<noteq> 0 then Some (0, pop) else poll_vacate pop fd i)"

section \<open>The array and the indices\<close>

definition poll_ok :: "pollop \<Rightarrow> bool" where
  "poll_ok pop \<longleftrightarrow> nfds pop \<le> length (event_set pop)
     \<and> (\<forall>i < nfds pop. idxplus1 pop (pfd_fd (event_set pop ! i)) = i + 1)
     \<and> (\<forall>fd. 0 < idxplus1 pop fd \<longrightarrow> idxplus1 pop fd \<le> nfds pop \<and> pfd_fd (event_set pop ! (idxplus1 pop fd - 1)) = fd)"

text \<open>What the kernel is asked to report for a descriptor.\<close>

definition polled :: "pollop \<Rightarrow> int \<Rightarrow> u16" where
  "polled pop fd = (if idxplus1 pop fd = 0 then 0 else pfd_events (event_set pop ! (idxplus1 pop fd - 1)))"

definition poll_events :: "u16 \<Rightarrow> u16" where
  "poll_events events = (if events AND EV_WRITE \<noteq> 0 then POLLOUT else 0) OR (if events AND EV_READ \<noteq> 0 then POLLIN else 0)"

lemma poll_okD:
  assumes "poll_ok pop"
  shows "nfds pop \<le> length (event_set pop)"
    and "i < nfds pop \<Longrightarrow> idxplus1 pop (pfd_fd (event_set pop ! i)) = i + 1"
    and "0 < idxplus1 pop fd \<Longrightarrow> idxplus1 pop fd \<le> nfds pop"
    and "0 < idxplus1 pop fd \<Longrightarrow> pfd_fd (event_set pop ! (idxplus1 pop fd - 1)) = fd"
    and "0 < idxplus1 pop fd \<Longrightarrow> idxplus1 pop fd - 1 < nfds pop"
proof -
  show "0 < idxplus1 pop fd \<Longrightarrow> idxplus1 pop fd \<le> nfds pop" using assms by (simp add: poll_ok_def)
  then show "0 < idxplus1 pop fd \<Longrightarrow> idxplus1 pop fd - 1 < nfds pop" by arith
qed (use assms in \<open>simp_all add: poll_ok_def\<close>)

lemma poll_init_ok: "poll_init a = Some pop \<Longrightarrow> poll_ok pop" "poll_init a = Some pop \<Longrightarrow> polled pop = (\<lambda>_. 0)"
  "poll_init a = Some pop \<Longrightarrow> nfds pop = 0"
  by (auto simp: poll_init_def poll_ok_def polled_def fun_eq_iff split: if_splits)

text \<open>No entry in use is empty.\<close>

definition poll_busy :: "pollop \<Rightarrow> bool" where
  "poll_busy pop \<longleftrightarrow> (\<forall>fd. 0 < idxplus1 pop fd \<longrightarrow> polled pop fd \<noteq> 0)"


lemma poll_grow_ok:
  assumes ok: "poll_ok pop" and g: "poll_grow grow pop = (r, pop')"
  shows "r = -1 \<and> pop' = pop \<or> r = 0 \<and> poll_ok pop' \<and> polled pop' = polled pop \<and> nfds pop' = nfds pop
    \<and> nfds pop < length (event_set pop') \<and> idxplus1 pop' = idxplus1 pop"
proof (cases "nfds pop + 1 \<ge> length (event_set pop)")
  case True
  show ?thesis
  proof (cases grow)
    case None
    with g True show ?thesis by (simp add: poll_grow_def Let_def)
  next
    case (Some junk)
    let ?n = "if length (event_set pop) < 32 then 32 else length (event_set pop) * 2"
    have r: "r = 0" "pop' = pop\<lparr>event_set := event_set pop @ map junk [length (event_set pop)..<?n], realloc_copy := True\<rparr>"
      using g True Some by (simp_all add: poll_grow_def Let_def)
    have le: "nfds pop \<le> length (event_set pop)" using ok by (simp add: poll_ok_def)
    then have nth: "i < nfds pop \<Longrightarrow> event_set pop' ! i = event_set pop ! i" for i using r(2) by (simp add: nth_append)
    note idx = poll_okD(5) [OF ok]
    have "poll_ok pop'" using poll_okD [OF ok] nth le r(2) by (auto simp: poll_ok_def)
    moreover have "polled pop' = polled pop" using nth idx r(2) by (auto simp: polled_def fun_eq_iff)
    moreover have "nfds pop < length (event_set pop')" using le r(2) by (auto simp: Let_def)
    ultimately show ?thesis using r by simp
  qed
next
  case False
  with g ok show ?thesis by (auto simp: poll_grow_def Let_def)
qed

lemma poll_ok_update:
  assumes ok: "poll_ok pop" and i: "i < nfds pop" "pfd_fd p = pfd_fd (event_set pop ! i)"
  shows "poll_ok (pop\<lparr>event_set := (event_set pop)[i := p]\<rparr>)"
    and "polled (pop\<lparr>event_set := (event_set pop)[i := p]\<rparr>) = (polled pop)(pfd_fd p := pfd_events p)"
proof -
  have l: "i < length (event_set pop)" using ok i by (simp add: poll_ok_def)
  show "poll_ok (pop\<lparr>event_set := (event_set pop)[i := p]\<rparr>)"
    using ok i l by (auto simp: poll_ok_def nth_list_update)
  have x: "idxplus1 pop (pfd_fd p) = Suc i" using ok i by (simp add: poll_ok_def)
  have "idxplus1 pop fd - 1 = i \<and> idxplus1 pop fd \<noteq> 0 \<longleftrightarrow> fd = pfd_fd p" for fd
    using ok i x by (auto simp: poll_ok_def)
  then show "polled (pop\<lparr>event_set := (event_set pop)[i := p]\<rparr>) = (polled pop)(pfd_fd p := pfd_events p)"
    using l x by (auto simp: polled_def fun_eq_iff nth_list_update)
qed

text \<open>A new entry behind the others.\<close>

lemma poll_ok_append:
  assumes ok: "poll_ok pop" and l: "nfds pop < length (event_set pop)" and fd: "idxplus1 pop fd = 0" "pfd_fd p = fd" "pfd_events p = 0"
    and pop': "pop' = pop\<lparr>nfds := nfds pop + 1, event_set := (event_set pop)[nfds pop := p], idxplus1 := (idxplus1 pop)(fd := nfds pop + 1)\<rparr>"
  shows "poll_ok pop'" "polled pop' = polled pop"
proof -
  have new: "i < nfds pop \<Longrightarrow> pfd_fd (event_set pop ! i) \<noteq> fd" for i using ok fd(1) by (auto simp: poll_ok_def)
  note idx = poll_okD(5) [OF ok]
  have "idxplus1 pop' (pfd_fd (event_set pop' ! i)) = i + 1" if "i < nfds pop'" for i
    using that ok l fd(2) new by (cases "i = nfds pop") (auto simp: pop' poll_ok_def)
  moreover have "idxplus1 pop' x \<le> nfds pop' \<and> pfd_fd (event_set pop' ! (idxplus1 pop' x - 1)) = x" if "0 < idxplus1 pop' x" for x
    using that ok l fd(2) idx [of x] by (cases "x = fd") (auto simp: pop' poll_ok_def)
  ultimately show "poll_ok pop'" using l by (simp add: poll_ok_def pop')
  show "polled pop' = polled pop"
    using less_imp_neq [OF idx, THEN not_sym] l fd by (auto simp: polled_def pop' fun_eq_iff)
qed

lemma poll_add_ok:
  assumes ok: "poll_ok pop" and ev: "events AND EV_SIGNAL = 0"
  shows "\<exists>r pop'. poll_add grow pop fd events = Some (r, pop') \<and> poll_ok pop'
    \<and> (r = -1 \<and> pop' = pop \<or> r = 0 \<and> polled pop' = (polled pop)(fd := polled pop fd OR poll_events events))
    \<and> (poll_busy pop \<longrightarrow> poll_busy pop')"
proof (cases "events AND (EV_READ OR EV_WRITE) = 0")
  case True
  then have "events AND EV_READ = 0 \<and> events AND EV_WRITE = 0" by (simp add: and_or_eq_0)
  then have "poll_events events = 0" by (simp add: poll_events_def)
  with True ok ev show ?thesis by (simp add: poll_add_def fun_upd_idem)
next
  case False
  obtain r1 p1 where g: "poll_grow grow pop = (r1, p1)" by (cases "poll_grow grow pop")
  from poll_grow_ok [OF ok g] show ?thesis
  proof
    assume "r1 = -1 \<and> p1 = pop"
    with False ev g ok show ?thesis by (simp add: poll_add_def)
  next
    assume "r1 = 0 \<and> poll_ok p1 \<and> polled p1 = polled pop \<and> nfds p1 = nfds pop \<and> nfds pop < length (event_set p1) \<and> idxplus1 p1 = idxplus1 pop"
    then have p1: "r1 = 0" "poll_ok p1" "polled p1 = polled pop" "nfds p1 < length (event_set p1)" "idxplus1 p1 = idxplus1 pop" by auto
    have nz: "poll_events events \<noteq> 0" using False by (auto simp: poll_events_def POLLIN_def POLLOUT_def and_or_eq_0)
    define ip where "ip = (if idxplus1 p1 fd > 0 then (idxplus1 p1 fd - 1, p1)
      else (nfds p1, p1\<lparr>nfds := nfds p1 + 1,
        event_set := (event_set p1)[nfds p1 := (event_set p1 ! nfds p1)\<lparr>pfd_events := 0, pfd_fd := fd\<rparr>],
        idxplus1 := (idxplus1 p1)(fd := nfds p1 + 1)\<rparr>))"
    obtain i p2 where ip: "ip = (i, p2)" by (cases ip)
    have p2: "poll_ok p2 \<and> polled p2 = polled pop \<and> i < nfds p2 \<and> pfd_fd (event_set p2 ! i) = fd \<and> pfd_events (event_set p2 ! i) = polled pop fd"
    proof (cases "idxplus1 p1 fd > 0")
      case True
      then have "i = idxplus1 p1 fd - 1" "p2 = p1" using ip by (auto simp: ip_def)
      with True poll_okD(4,5) [OF p1(2) True] p1(2) show ?thesis unfolding p1(3) [symmetric] by (simp add: polled_def)
    next
      case False
      then have e: "i = nfds p1" "p2 = p1\<lparr>nfds := nfds p1 + 1,
          event_set := (event_set p1)[nfds p1 := (event_set p1 ! nfds p1)\<lparr>pfd_events := 0, pfd_fd := fd\<rparr>],
          idxplus1 := (idxplus1 p1)(fd := nfds p1 + 1)\<rparr>" using ip by (auto simp: ip_def)
      from False have z: "idxplus1 p1 fd = 0" by simp
      have "polled p1 fd = 0" using z by (simp add: polled_def)
      with poll_ok_append [OF p1(2,4) z _ _ e(2)] p1(3,4) e show ?thesis by simp
    qed
    define q where "q = (let pfd = (event_set p2 ! i)\<lparr>pfd_revents := 0\<rparr>;
        pfd = (if events AND EV_WRITE \<noteq> 0 then pfd\<lparr>pfd_events := pfd_events pfd OR POLLOUT\<rparr> else pfd)
      in (if events AND EV_READ \<noteq> 0 then pfd\<lparr>pfd_events := pfd_events pfd OR POLLIN\<rparr> else pfd))"
    have q: "pfd_fd q = fd" "pfd_events q = polled pop fd OR poll_events events"
      using p2 by (simp_all add: q_def poll_events_def or.assoc Let_def)
    have run: "poll_add grow pop fd events = Some (0, p2\<lparr>event_set := (event_set p2)[i := q]\<rparr>)"
      using False ev g p1(1) ip unfolding poll_add_def q_def ip_def by (simp add: Let_def)
    have "i < nfds p2" "pfd_fd q = pfd_fd (event_set p2 ! i)" using p2 q by simp_all
    note u = poll_ok_update [OF conjunct1 [OF p2] this]
    have "0 < idxplus1 p2 x \<longrightarrow> x = fd \<or> 0 < idxplus1 pop x" for x
      using ip p1(5) by (auto simp: ip_def split: if_splits)
    then have "poll_busy pop \<longrightarrow> poll_busy (p2\<lparr>event_set := (event_set p2)[i := q]\<rparr>)"
      unfolding poll_busy_def using u(2) q p2 nz by (auto simp: or_eq_0_iff)
    with u run q p2 show ?thesis by auto
  qed
qed


text \<open>The last entry moves into the place of one that no longer asks for anything.\<close>

lemma poll_remove:
  assumes ok: "poll_ok pop" and i: "idxplus1 pop fd = i + 1" "pfd_events (event_set pop ! i) = 0"
    and pop': "pop' = pop\<lparr>idxplus1 := (idxplus1 pop)(fd := 0), nfds := nfds pop - 1\<rparr>"
    and mv: "mfd = pfd_fd (event_set pop ! (nfds pop - 1))"
  shows "i = nfds pop' \<Longrightarrow> poll_ok pop' \<and> polled pop' = polled pop"
    and "i \<noteq> nfds pop' \<Longrightarrow> idxplus1 pop' mfd = nfds pop' + 1"
    and "i \<noteq> nfds pop' \<Longrightarrow> pop'' = pop'\<lparr>event_set := (event_set pop')[i := event_set pop' ! nfds pop'],
           idxplus1 := (idxplus1 pop')(mfd := i + 1)\<rparr>
         \<Longrightarrow> poll_ok pop'' \<and> polled pop'' = polled pop"
proof -
  have n: "i < nfds pop" "pfd_fd (event_set pop ! i) = fd" using poll_okD(4,5) [OF ok, of fd] i(1) by simp_all
  then have last: "nfds pop - 1 < nfds pop" by simp
  note inj = poll_okD(2) [OF ok] and idx = poll_okD(3,4,5) [OF ok] and len = poll_okD(1) [OF ok]
  have other: "j < nfds pop \<Longrightarrow> j \<noteq> i \<Longrightarrow> pfd_fd (event_set pop ! j) \<noteq> fd" for j using inj [of j] i(1) by auto
  have apart: "idxplus1 pop x - 1 \<noteq> i" if "0 < idxplus1 pop x" "x \<noteq> fd" for x using idx(2) [of x] that n(2) by auto
  { assume e: "i = nfds pop'"
    then have e': "i = nfds pop - 1" by (simp add: pop')
    have up: "idxplus1 pop x - 1 < i" if "0 < idxplus1 pop x" "x \<noteq> fd" for x using idx(3) [OF that(1)] apart [OF that] e' by simp
    have "idxplus1 pop' (pfd_fd (event_set pop' ! j)) = j + 1" if "j < nfds pop'" for j
      using that inj [of j] other [of j] e e' by (simp add: pop')
    moreover have "idxplus1 pop' x \<le> nfds pop' \<and> pfd_fd (event_set pop' ! (idxplus1 pop' x - 1)) = x" if "0 < idxplus1 pop' x" for x
      using that idx(2) [of x] up [of x] e' by (cases "x = fd") (auto simp: pop')
    ultimately have "poll_ok pop'" using len by (simp add: poll_ok_def pop')
    moreover have "polled pop' = polled pop" using i by (auto simp: polled_def pop' fun_eq_iff)
    ultimately show "poll_ok pop' \<and> polled pop' = polled pop" .. }
  assume ne: "i \<noteq> nfds pop'"
  then have ne': "i \<noteq> nfds pop - 1" by (simp add: pop')
  have m: "mfd \<noteq> fd" "idxplus1 pop mfd = nfds pop" using other [OF last] ne' inj [OF last] n by (auto simp: mv)
  then show "idxplus1 pop' mfd = nfds pop' + 1" using n by (simp add: pop')
  have only: "idxplus1 pop x - 1 < nfds pop - 1" if "0 < idxplus1 pop x" "x \<noteq> mfd" for x
    using idx(2,3) [OF that(1)] that(2) by (cases "idxplus1 pop x - 1 = nfds pop - 1") (auto simp: mv)
  assume "pop'' = pop'\<lparr>event_set := (event_set pop')[i := event_set pop' ! nfds pop'],
           idxplus1 := (idxplus1 pop')(mfd := i + 1)\<rparr>"
  then have p: "nfds pop'' = nfds pop - 1" "event_set pop'' = (event_set pop)[i := event_set pop ! (nfds pop - 1)]"
    "idxplus1 pop'' = (idxplus1 pop)(fd := 0, mfd := i + 1)" by (simp_all add: pop')
  have il: "i < length (event_set pop)" using n len by simp
  have "idxplus1 pop'' (pfd_fd (event_set pop'' ! j)) = j + 1" if "j < nfds pop''" for j
  proof (cases "j = i")
    case True
    then show ?thesis using il by (simp add: p mv)
  next
    case False
    have "j < nfds pop" "j \<noteq> nfds pop - 1" using that by (simp_all add: p(1))
    then have "pfd_fd (event_set pop ! j) \<noteq> mfd" using inj [of j] m(2) by auto
    then show ?thesis using False inj [of j] other [of j] \<open>j < nfds pop\<close> by (simp add: p)
  qed
  moreover have "idxplus1 pop'' x \<le> nfds pop'' \<and> pfd_fd (event_set pop'' ! (idxplus1 pop'' x - 1)) = x" if "0 < idxplus1 pop'' x" for x
  proof (cases "x = mfd")
    case True
    then show ?thesis using n ne' il by (simp add: p mv)
  next
    case False
    with that have x: "x \<noteq> fd" "0 < idxplus1 pop x" by (auto simp: p split: if_splits)
    then show ?thesis using False idx(2) [of x] only [of x] apart [of x] by (simp add: p)
  qed
  ultimately have "poll_ok pop''" using len by (simp add: poll_ok_def p)
  moreover have "polled pop'' x = polled pop x" for x
  proof (cases "x = mfd \<or> x = fd \<or> idxplus1 pop x = 0")
    case True
    then show ?thesis using i il m n by (auto simp: polled_def p)
  next
    case False
    then show ?thesis using apart [of x] by (simp add: polled_def p)
  qed
  ultimately show "poll_ok pop'' \<and> polled pop'' = polled pop" by auto
qed

lemma poll_vacate_ok:
  assumes ok: "poll_ok pop" and i: "idxplus1 pop fd = i + 1" "pfd_events (event_set pop ! i) = 0"
  shows "\<exists>pop'. poll_vacate pop fd i = Some (0, pop') \<and> poll_ok pop' \<and> polled pop' = polled pop
    \<and> (\<forall>x. 0 < idxplus1 pop' x \<longrightarrow> x \<noteq> fd \<and> 0 < idxplus1 pop x)"
proof -
  have il: "i < length (event_set pop)" using poll_okD(1) [OF ok] poll_okD(5) [OF ok, of fd] i(1) by simp
  define p2 where "p2 = pop\<lparr>idxplus1 := (idxplus1 pop)(fd := 0), nfds := nfds pop - 1\<rparr>"
  define mfd where "mfd = pfd_fd (event_set pop ! (nfds pop - 1))"
  note rem = poll_remove [OF ok i p2_def mfd_def]
  show ?thesis
  proof (cases "i = nfds p2")
    case True
    then have "poll_vacate pop fd i = Some (0, p2)" unfolding poll_vacate_def Let_def p2_def [symmetric] by simp
    moreover have "\<forall>x. 0 < idxplus1 p2 x \<longrightarrow> x \<noteq> fd \<and> 0 < idxplus1 pop x" by (simp add: p2_def)
    ultimately show ?thesis using rem(1) True by blast
  next
    case False
    define p3 where "p3 = p2\<lparr>event_set := (event_set p2)[i := event_set p2 ! nfds p2], idxplus1 := (idxplus1 p2)(mfd := i + 1)\<rparr>"
    have "pfd_fd ((event_set p2)[i := event_set p2 ! nfds p2] ! i) = mfd" using il by (simp add: mfd_def p2_def)
    with rem(2) False have "poll_vacate pop fd i = Some (0, p3)"
      unfolding poll_vacate_def Let_def p2_def [symmetric] by (simp add: p3_def)
    moreover have "\<forall>x. 0 < idxplus1 p3 x \<longrightarrow> x \<noteq> fd \<and> 0 < idxplus1 pop x"
      using rem(2) [OF False] by (auto simp: p3_def p2_def split: if_splits)
    ultimately show ?thesis using rem(3) [OF False p3_def] by blast
  qed
qed

lemma poll_del_ok:
  assumes ok: "poll_ok pop" and ev: "events AND EV_SIGNAL = 0"
  shows "\<exists>r pop'. poll_del pop fd events = Some (r, pop') \<and> poll_ok pop'
    \<and> (r = -1 \<longleftrightarrow> idxplus1 pop fd = 0 \<and> events AND (EV_READ OR EV_WRITE) \<noteq> 0) \<and> (r = 0 \<or> r = -1)
    \<and> polled pop' = (polled pop)(fd := polled pop fd AND NOT (poll_events events)) \<and> (poll_busy pop \<longrightarrow> poll_busy pop')"
proof (cases "events AND (EV_READ OR EV_WRITE) = 0 \<or> idxplus1 pop fd = 0")
  case True
  have "poll_events events = 0" if "events AND (EV_READ OR EV_WRITE) = 0" using that by (simp add: poll_events_def and_or_eq_0)
  moreover have "polled pop fd = 0" if "idxplus1 pop fd = 0" using that by (simp add: polled_def)
  ultimately show ?thesis using True ok ev by (auto simp: poll_del_def fun_upd_idem)
next
  case False
  then obtain i where i: "idxplus1 pop fd = i + 1" by (metis Suc_eq_plus1 not0_implies_Suc)
  then have n: "i < nfds pop" "pfd_fd (event_set pop ! i) = fd" using poll_okD(4,5) [OF ok, of fd] by simp_all
  then have il: "i < length (event_set pop)" using poll_okD(1) [OF ok] by simp
  define q where "q = (let pfd = event_set pop ! i;
      pfd = (if events AND EV_READ \<noteq> 0 then pfd\<lparr>pfd_events := pfd_events pfd AND NOT POLLIN\<rparr> else pfd)
    in (if events AND EV_WRITE \<noteq> 0 then pfd\<lparr>pfd_events := pfd_events pfd AND NOT POLLOUT\<rparr> else pfd))"
  define p1 where "p1 = pop\<lparr>event_set := (event_set pop)[i := q]\<rparr>"
  have at: "polled pop fd = pfd_events (event_set pop ! i)" using i by (simp add: polled_def)
  have q: "pfd_fd q = fd" "pfd_events q = polled pop fd AND NOT (poll_events events)"
    using n by (simp_all add: q_def at poll_events_def bit.conj_disj_distrib ac_simps Let_def)
  have p1: "poll_ok p1" "polled p1 = (polled pop)(fd := pfd_events q)"
    using poll_ok_update [OF ok n(1), of q] q(1) n(2) by (simp_all add: p1_def)
  have i1: "idxplus1 p1 fd = i + 1" "event_set p1 ! i = q" using i il by (simp_all add: p1_def)
  have run: "poll_del pop fd events = (if pfd_events q \<noteq> 0 then Some (0, p1) else poll_vacate p1 fd i)"
    using False ev i unfolding poll_del_def p1_def q_def Let_def by simp
  show ?thesis
  proof (cases "pfd_events q = 0")
    case nz: False
    then have "poll_del pop fd events = Some (0, p1)" by (simp add: run)
    moreover have "poll_busy pop \<longrightarrow> poll_busy p1"
      using nz p1(2) unfolding poll_busy_def by (auto simp: p1_def)
    ultimately show ?thesis using p1 q False by auto
  next
    case True
    with poll_vacate_ok [OF p1(1) i1(1)] i1(2) run obtain p2 where
      p2: "poll_del pop fd events = Some (0, p2)" "poll_ok p2" "polled p2 = polled p1"
        "\<And>x. 0 < idxplus1 p2 x \<Longrightarrow> x \<noteq> fd \<and> 0 < idxplus1 p1 x" by auto
    have "poll_busy pop \<longrightarrow> poll_busy p2"
      using p1(2) unfolding poll_busy_def p2(3) by (auto dest!: p2(4)) (simp add: p1_def)
    with p2 p1(2) q False show ?thesis by auto
  qed
qed

text \<open>The entries in use are those of the descriptors that ask for something.\<close>

lemma poll_entries:
  assumes "poll_ok pop"
  shows "distinct (map pfd_fd (take (nfds pop) (event_set pop)))"
    and "pfd \<in> set (take (nfds pop) (event_set pop)) \<Longrightarrow> pfd_events pfd = polled pop (pfd_fd pfd)"
    and "poll_busy pop \<Longrightarrow> pfd_fd ` set (take (nfds pop) (event_set pop)) = {fd. polled pop fd \<noteq> 0}"
proof -
  note ok = poll_okD [OF assms]
  have at: "i < nfds pop \<Longrightarrow> pfd_events (event_set pop ! i) = polled pop (pfd_fd (event_set pop ! i))" for i
    using ok(2) by (simp add: polled_def)
  show "distinct (map pfd_fd (take (nfds pop) (event_set pop)))"
    using ok(1,2) by (auto simp: distinct_conv_nth) (metis Suc_inject Suc_eq_plus1)
  show "pfd \<in> set (take (nfds pop) (event_set pop)) \<Longrightarrow> pfd_events pfd = polled pop (pfd_fd pfd)"
    using at by (auto simp: in_set_conv_nth)
  assume busy: "poll_busy pop"
  show "pfd_fd ` set (take (nfds pop) (event_set pop)) = {fd. polled pop fd \<noteq> 0}"
  proof (intro equalityI subsetI)
    fix fd assume "fd \<in> pfd_fd ` set (take (nfds pop) (event_set pop))"
    then obtain i where "i < nfds pop" "fd = pfd_fd (event_set pop ! i)" by (auto simp: in_set_conv_nth)
    with ok(2) [of i] busy show "fd \<in> {fd. polled pop fd \<noteq> 0}" by (simp add: poll_busy_def)
  next
    fix fd assume "fd \<in> {fd. polled pop fd \<noteq> 0}"
    then have "0 < idxplus1 pop fd" by (auto simp: polled_def split: if_splits)
    from ok(1) ok(4,5) [OF this] show "fd \<in> pfd_fd ` set (take (nfds pop) (event_set pop))"
      by (intro image_eqI [of _ _ "event_set pop ! (idxplus1 pop fd - 1)"]) (auto simp: in_set_conv_nth)
  qed
qed

text \<open>The calls \<open>evmap_io_add_\<close> and \<open>evmap_io_del_\<close> make, and what they ask for.\<close>

datatype poll_call = Poll_Add "(nat \<Rightarrow> pollfd) option" int u16 | Poll_Del int u16

fun do_poll :: "pollop \<Rightarrow> poll_call \<Rightarrow> (int \<times> pollop) option" where
  "do_poll pop (Poll_Add grow fd events) = poll_add grow pop fd events"
| "do_poll pop (Poll_Del fd events) = poll_del pop fd events"

fun poll_calls :: "poll_call list \<Rightarrow> pollop \<Rightarrow> (int list \<times> pollop) option" where
  "poll_calls [] pop = Some ([], pop)"
| "poll_calls (c # cs) pop = do {
     (r, pop) \<leftarrow> do_poll pop c;
     (rs, pop) \<leftarrow> poll_calls cs pop;
     Some (r # rs, pop) }"

fun call_events :: "poll_call \<Rightarrow> u16" where
  "call_events (Poll_Add grow fd events) = events"
| "call_events (Poll_Del fd events) = events"

fun asks :: "(int \<Rightarrow> u16) \<Rightarrow> poll_call \<Rightarrow> int \<Rightarrow> int \<Rightarrow> u16" where
  "asks m (Poll_Add grow fd events) r = (if r = -1 then m else m(fd := m fd OR poll_events events))"
| "asks m (Poll_Del fd events) r = (if r = -1 then m else m(fd := m fd AND NOT (poll_events events)))"

fun asks_all :: "(int \<Rightarrow> u16) \<Rightarrow> poll_call list \<Rightarrow> int list \<Rightarrow> int \<Rightarrow> u16" where
  "asks_all m (c # cs) (r # rs) = asks_all (asks m c r) cs rs"
| "asks_all m cs rs = m"

lemma poll_call_ok:
  assumes "poll_ok pop" "poll_busy pop" "call_events c AND EV_SIGNAL = 0"
  shows "\<exists>r pop'. do_poll pop c = Some (r, pop') \<and> r \<in> {0, -1} \<and> poll_ok pop' \<and> poll_busy pop' \<and> polled pop' = asks (polled pop) c r"
proof (cases c)
  case (Poll_Add grow fd events)
  with poll_add_ok [OF assms(1), of events grow fd] assms(2,3) obtain r pop' where
    "poll_add grow pop fd events = Some (r, pop')" "poll_ok pop'" "poll_busy pop'"
      "r = -1 \<and> pop' = pop \<or> r = 0 \<and> polled pop' = (polled pop)(fd := polled pop fd OR poll_events events)" by auto
  with Poll_Add show ?thesis by auto
next
  case (Poll_Del fd events)
  with poll_del_ok [OF assms(1), of events fd] assms(2,3) obtain r pop' where
    d: "poll_del pop fd events = Some (r, pop')" "poll_ok pop'" "r = 0 \<or> r = -1" "poll_busy pop'"
      "r = -1 \<longrightarrow> idxplus1 pop fd = 0" "polled pop' = (polled pop)(fd := polled pop fd AND NOT (poll_events events))" by auto
  have "polled pop fd = 0" if "r = -1" using that d(5) by (simp add: polled_def)
  then have "r = -1 \<Longrightarrow> polled pop' = polled pop" using d(6) by (simp add: fun_upd_idem)
  then show ?thesis using Poll_Del d by auto
qed

text \<open>C13: After any sequence of calls of \<open>poll_add\<close> and \<open>poll_del\<close>, successful or not, the entries in use are one for
  each descriptor for which something was added and not deleted, and ask for exactly that.\<close>

theorem poll_calls_exact:
  assumes "poll_init True = Some pop" "\<forall>c \<in> set cs. call_events c AND EV_SIGNAL = 0"
  shows "\<exists>rs pop'. poll_calls cs pop = Some (rs, pop') \<and> set rs \<subseteq> {0, -1} \<and> length rs = length cs
    \<and> distinct (map pfd_fd (take (nfds pop') (event_set pop')))
    \<and> (\<lambda>p. (pfd_fd p, pfd_events p)) ` set (take (nfds pop') (event_set pop'))
        = {(fd, m). m = asks_all (\<lambda>_. 0) cs rs fd \<and> m \<noteq> 0}"
proof -
  have "\<exists>rs pop'. poll_calls cs p = Some (rs, pop') \<and> set rs \<subseteq> {0, -1} \<and> length rs = length cs \<and> poll_ok pop' \<and> poll_busy pop'
      \<and> polled pop' = asks_all (polled p) cs rs" if "poll_ok p" "poll_busy p" for p
    using that assms(2)
  proof (induction cs arbitrary: p)
    case (Cons c cs)
    from poll_call_ok [of p c] Cons.prems obtain r p1 where
      p1: "do_poll p c = Some (r, p1)" "r \<in> {0, -1}" "poll_ok p1" "poll_busy p1" "polled p1 = asks (polled p) c r" by auto
    from Cons.IH [OF p1(3,4)] Cons.prems(3) obtain rs p2 where
      "poll_calls cs p1 = Some (rs, p2)" "set rs \<subseteq> {0, -1}" "length rs = length cs" "poll_ok p2" "poll_busy p2" "polled p2 = asks_all (polled p1) cs rs" by auto
    with p1 show ?case by auto
  qed simp
  moreover have "poll_busy pop" using assms(1) by (auto simp: poll_init_def poll_busy_def)
  ultimately obtain rs pop' where r: "poll_calls cs pop = Some (rs, pop')" "set rs \<subseteq> {0, -1}" "length rs = length cs" "poll_ok pop'" "poll_busy pop'"
    "polled pop' = asks_all (\<lambda>_. 0) cs rs" using poll_init_ok [OF assms(1)] by metis
  note e = poll_entries [OF r(4)]
  have "(\<lambda>p. (pfd_fd p, pfd_events p)) ` set (take (nfds pop') (event_set pop'))
      = (\<lambda>fd. (fd, polled pop' fd)) ` pfd_fd ` set (take (nfds pop') (event_set pop'))"
    unfolding image_image using e(2) by (intro image_cong) auto
  also have "\<dots> = {(fd, m). m = polled pop' fd \<and> m \<noteq> 0}" unfolding e(3) [OF r(5)] by auto
  finally show ?thesis using r e(1) by auto
qed

theorem poll_calls_exact_witness:
  "\<exists>rs pop'. poll_calls [Poll_Add (Some (\<lambda>_. \<lparr>pfd_fd = 9, pfd_events = 9, pfd_revents = 9\<rparr>)) 5 EV_READ, Poll_Add None 6 EV_WRITE, Poll_Del 5 EV_READ]
       (the (poll_init True)) = Some (rs, pop')
     \<and> (\<lambda>p. (pfd_fd p, pfd_events p)) ` set (take (nfds pop') (event_set pop')) = {(6, POLLOUT)}"
proof -
  let ?cs = "[Poll_Add (Some (\<lambda>_. \<lparr>pfd_fd = 9, pfd_events = 9, pfd_revents = 9\<rparr>)) 5 EV_READ, Poll_Add None 6 EV_WRITE, Poll_Del 5 EV_READ]"
  have "map_option fst (poll_calls ?cs (the (poll_init True))) = Some [0, 0, 0]" by code_simp
  then obtain p where p: "poll_calls ?cs (the (poll_init True)) = Some ([0, 0, 0], p)" by auto
  have "poll_init True = Some (the (poll_init True))" by (simp add: poll_init_def)
  moreover have "\<forall>c \<in> set ?cs. call_events c AND EV_SIGNAL = 0" by code_simp
  ultimately obtain rs pop' where r: "poll_calls ?cs (the (poll_init True)) = Some (rs, pop')"
    "(\<lambda>p. (pfd_fd p, pfd_events p)) ` set (take (nfds pop') (event_set pop')) = {(fd, m). m = asks_all (\<lambda>_. 0) ?cs rs fd \<and> m \<noteq> 0}"
    using poll_calls_exact [of "the (poll_init True)" ?cs] by auto
  have "{(fd, m). m = asks_all (\<lambda>_. 0) ?cs [0, 0, 0] fd \<and> m \<noteq> 0} = {(6, POLLOUT)}"
    by (auto simp: poll_events_def EV_READ_def EV_WRITE_def POLLIN_def POLLOUT_def split: if_splits)
  with r p show ?thesis by auto
qed

section \<open>Waiting\<close>

definition MAX_SECONDS_IN_MSEC_LONG :: int where
  "MAX_SECONDS_IN_MSEC_LONG = (2 ^ 63 - 1 - 999) div 1000"

definition evutil_tv_to_msec :: "timeval \<Rightarrow> int" where
  "evutil_tv_to_msec tv =
     (if tv_usec tv > 1000000 \<or> tv_sec tv > MAX_SECONDS_IN_MSEC_LONG then -1
      else tv_sec tv * 1000 + (tv_usec tv + 999) div 1000)"

definition poll_timeout :: "timeval option \<Rightarrow> int" where
  "poll_timeout tv = (case tv of None \<Rightarrow> -1
     | Some t \<Rightarrow> let msec = evutil_tv_to_msec t in if msec < 0 \<or> msec > INT_MAX then INT_MAX else msec)"

definition poll_result :: "u16 \<Rightarrow> u16" where
  "poll_result what =
     (let what = (if what AND (POLLHUP OR POLLERR OR POLLNVAL) \<noteq> 0 then what OR POLLIN OR POLLOUT else what)
      in (if what AND POLLIN \<noteq> 0 then EV_READ else 0) OR (if what AND POLLOUT \<noteq> 0 then EV_WRITE else 0))"

text \<open>The loop over the array from place \<open>i + 1\<close> on, cyclically, for the \<open>k\<close> entries that are left.\<close>

fun poll_wake :: "pollop \<Rightarrow> nat \<Rightarrow> nat \<Rightarrow> base \<Rightarrow> base option" where
  "poll_wake pop i 0 b = Some b"
| "poll_wake pop i (Suc k) b =
     (let i = (if i + 1 = nfds pop then 0 else i + 1);
          what = pfd_revents (event_set pop ! i);
          res = poll_result what
      in if what = 0 \<or> res = 0 then poll_wake pop i k b
         else do { b \<leftarrow> evmap_io_active b (pfd_fd (event_set pop ! i)) res; poll_wake pop i k b })"

text \<open>
  What the kernel answers: an error (whether it is \<open>EINTR\<close>), or the number of ready entries and the
  \<open>revents\<close> of every entry. \<open>start\<close> is \<open>evutil_weakrand_range_\<close>.
\<close>

datatype kernel = Poll_Error bool | Poll_Ready int "nat \<Rightarrow> u16"

definition poll_answer :: "(nat \<Rightarrow> u16) \<Rightarrow> pollop \<Rightarrow> pollop" where
  "poll_answer revents pop = pop\<lparr>event_set := map (\<lambda>i. if i < nfds pop
     then (event_set pop ! i)\<lparr>pfd_revents := revents i\<rparr> else event_set pop ! i) [0..<length (event_set pop)]\<rparr>"

definition poll_dispatch :: "(pollfd list \<Rightarrow> int \<Rightarrow> kernel) \<Rightarrow> (nat \<Rightarrow> nat) \<Rightarrow> pollop \<Rightarrow> base \<Rightarrow> timeval option
    \<Rightarrow> (int \<times> pollop \<times> base) option" where
  "poll_dispatch poll start pop b tv =
     (case poll (take (nfds pop) (event_set pop)) (poll_timeout tv) of
        Poll_Error eintr \<Rightarrow> Some (if eintr then 0 else -1, pop, b)
      | Poll_Ready res revents \<Rightarrow>
          let pop = poll_answer revents pop in
          if res = 0 \<or> nfds pop = 0 then Some (0, pop, b)
          else do {
            b \<leftarrow> poll_wake pop (start (nfds pop)) (nfds pop) b;
            Some (0, pop, b) })"

lemma io_active_exact:
  assumes g: "good b"
  shows "\<exists>b'. evmap_io_active b fd events = Some b' \<and> good b' \<and> activated b {e \<in> set (io_list b fd). ev_events (evs b e) AND events \<noteq> 0} b'"
proof (cases "fd < 0 \<or> fd \<ge> io_nentries b \<or> io_map b fd = None")
  case True
  have "io_ok (io_map b) (io_nentries b) (inserted b) (evs b)" using g by (simp add: good_def base_ok_def maps_ok_def)
  then have "io_map b fd = Some ctx \<Longrightarrow> 0 \<le> fd \<and> fd < io_nentries b" for ctx by (simp add: io_ok_def)
  with True have "io_map b fd = None" by (cases "io_map b fd") auto
  then have "io_list b fd = []" by (simp add: io_list_def)
  with True g show ?thesis by (auto simp: evmap_io_active_def activated_def split: option.split)
next
  case False
  then have ok: "base_ok b" and l: "live b" using g by (simp_all add: good_def)
  from False obtain ctx where ctx: "io_map b fd = Some ctx" by auto
  then have il: "io_list b fd = io_events ctx" by (simp add: io_list_def)
  then have "queued (flags b e)" if "e \<in> set (io_events ctx)" for e
    using that io_list_iff [OF ok, of e fd] by (simp add: queued_def)
  note lq = live_queued [OF g this]
  from active_io_list_ok [OF ok, of "io_events ctx" events] lq obtain b' where
    b': "active_io_list (io_events ctx) events b = Some b'" "base_ok b'"
      "activated b {e \<in> set (io_events ctx). ev_events (evs b e) AND events \<noteq> 0} b'" by auto
  have "live b'" by (rule live_activated [OF l b'(3)]) (use lq in auto)
  with b' False ctx il show ?thesis by (simp add: evmap_io_active_def good_def)
qed

text \<open>The events of descriptor \<open>pfd_fd p\<close> that are interested in what was reported.\<close>

definition ready :: "base \<Rightarrow> pollfd \<Rightarrow> event set" where
  "ready b p = {e. e \<in> set (io_list b (pfd_fd p)) \<and> ev_events (evs b e) AND poll_result (pfd_revents p) \<noteq> 0}"

lemma ready_iff:
  "base_ok b \<Longrightarrow> e \<in> ready b p \<longleftrightarrow> bit (flags b e) 1 \<and> is_io (evs b e) \<and> ev_fd (evs b e) = pfd_fd p \<and> 0 \<le> pfd_fd p
     \<and> ev_events (evs b e) AND poll_result (pfd_revents p) \<noteq> 0"
  by (auto simp: ready_def io_list_iff)

lemma ready_activated:
  assumes "base_ok b" "base_ok b'" "activated b A b'"
  shows "ready b' p = ready b p"
proof -
  have "bit (flags b' e) 1 \<longleftrightarrow> bit (flags b e) 1" for e using assms(3) by (simp add: activated_def bit_or_iff bit_and_iff bit_not_iff)
  moreover have "is_io (evs b' e) \<longleftrightarrow> is_io (evs b e)" "ev_fd (evs b' e) = ev_fd (evs b e)" "ev_events (evs b' e) = ev_events (evs b e)" for e
    using assms(3) statics [of b' b] by (simp_all add: activated_def kept_all_def is_io_def)
  ultimately show ?thesis using ready_iff [OF assms(1)] ready_iff [OF assms(2)] by auto
qed

lemma poll_wake_ok:
  assumes "idle b" "i < nfds pop"
  shows "\<exists>b'. poll_wake pop i k b = Some b' \<and> idle b'
    \<and> activated b (\<Union>j < k. ready b (event_set pop ! ((i + 1 + j) mod nfds pop))) b'"
  using assms
proof (induction k arbitrary: b i)
  case 0
  then show ?case by (simp add: activated_def)
next
  case (Suc k)
  define i' where "i' = (if i + 1 = nfds pop then 0 else i + 1)"
  have i': "i' < nfds pop" "i' = (i + 1) mod nfds pop" using Suc.prems(2) by (auto simp: i'_def)
  have step: "(i' + 1 + j) mod nfds pop = (i + 1 + Suc j) mod nfds pop" for j
    using mod_add_left_eq [of "i + 1" "nfds pop" "1 + j"] unfolding i'(2) by simp
  define p where "p = event_set pop ! i'"
  have split: "(\<Union>j < Suc k. ready b (event_set pop ! ((i + 1 + j) mod nfds pop)))
      = ready b p \<union> (\<Union>j < k. ready b (event_set pop ! ((i' + 1 + j) mod nfds pop)))"
  proof -
    have "(\<Union>j < Suc k. G j) = G 0 \<union> (\<Union>j < k. G (Suc j))" for G :: "nat \<Rightarrow> event set" by (auto simp: less_Suc_eq_0_disj)
    then show ?thesis by (simp only: step p_def) (simp add: i'(2))
  qed
  show ?case
  proof (cases "pfd_revents p = 0 \<or> poll_result (pfd_revents p) = 0")
    case True
    then have "poll_result (pfd_revents p) = 0"
      by (auto simp: poll_result_def Let_def POLLHUP_def POLLERR_def POLLNVAL_def POLLIN_def POLLOUT_def)
    then have "ready b p = {}" by (simp add: ready_def)
    moreover have "poll_wake pop i (Suc k) b = poll_wake pop i' k b" using True by (simp add: i'_def p_def Let_def)
    ultimately show ?thesis using Suc.IH [OF Suc.prems(1) i'(1)] split by simp
  next
    case False
    from io_active_idle [OF Suc.prems(1)] obtain b1 where b1: "evmap_io_active b (pfd_fd p) (poll_result (pfd_revents p)) = Some b1" "idle b1" by blast
    have ok: "base_ok b" "base_ok b1" using Suc.prems(1) b1(2) by (simp_all add: idle_def good_def)
    have a: "activated b (ready b p) b1"
      using io_active_exact [of b "pfd_fd p" "poll_result (pfd_revents p)"] Suc.prems(1) b1(1) by (auto simp: idle_def ready_def)
    from Suc.IH [OF b1(2) i'(1)] obtain b2 where b2: "poll_wake pop i' k b1 = Some b2" "idle b2"
      "activated b1 (\<Union>j < k. ready b (event_set pop ! ((i' + 1 + j) mod nfds pop))) b2" unfolding ready_activated [OF ok a] by auto
    have "poll_wake pop i (Suc k) b = Some b2" using False b1(1) b2(1) by (simp add: i'_def p_def Let_def)
    with b2(2) activated_trans [OF a b2(3)] show ?thesis unfolding split by blast
  qed
qed

lemma cyclic_all:
  assumes "i < n"
  shows "(\<lambda>j. (i + 1 + j) mod n) ` {..<n} = {..<n :: nat}"
proof -
  have "(i + 1 + (m + n - (i + 1)) mod n) mod n = m" if "m < n" for m
    using mod_add_right_eq [of "i + 1" "m + n - (i + 1)" n] that assms by simp
  then have "m \<in> (\<lambda>j. (i + 1 + j) mod n) ` {..<n}" if "m < n" for m
    using that assms by (intro image_eqI [of _ _ "(m + n - (i + 1)) mod n"]) simp_all
  moreover have "(\<lambda>j. (i + 1 + j) mod n) ` {..<n} \<subseteq> {..<n}" using assms by auto
  ultimately show ?thesis by auto
qed

lemma cyclic_union: "i < n \<Longrightarrow> (\<Union>j < n. F ((i + 1 + j) mod n)) = (\<Union>i < n. F (i :: nat))"
proof -
  assume i: "i < n"
  have "(\<Union>i < n. F i) = (\<Union>i \<in> (\<lambda>j. (i + 1 + j) mod n) ` {..<n}. F i)" by (simp only: cyclic_all [OF i])
  then show ?thesis by (simp only: image_image)
qed

text \<open>C14: \<open>poll_dispatch\<close> returns and keeps the invariants; it returns -1 only when \<open>poll\<close> fails with an error other
  than \<open>EINTR\<close>, and otherwise activates exactly the watched events that wait for what the kernel reports of their
  descriptor, where an error or a hang-up is reported as readable and writable.\<close>

theorem poll_dispatch_exact:
  assumes "idle b" "poll_ok pop" "\<forall>n. 0 < n \<longrightarrow> start n < n"
    and "poll (take (nfds pop) (event_set pop)) (poll_timeout tv) = answer"
  shows "\<exists>res pop' b'. poll_dispatch poll start pop b tv = Some (res, pop', b') \<and> idle b' \<and> poll_ok pop' \<and> polled pop' = polled pop
    \<and> (case answer of
         Poll_Error eintr \<Rightarrow> res = (if eintr then 0 else -1) \<and> b' = b
       | Poll_Ready n revents \<Rightarrow> res = 0 \<and> (n = 0 \<longrightarrow> b' = b) \<and>
           (n \<noteq> 0 \<longrightarrow> activated b {e. bit (flags b e) 1 \<and> is_io (evs b e) \<and> 0 \<le> ev_fd (evs b e)
              \<and> (\<exists>i < nfds pop. pfd_fd (event_set pop ! i) = ev_fd (evs b e) \<and> ev_events (evs b e) AND poll_result (revents i) \<noteq> 0)} b'))"
proof (cases answer)
  case (Poll_Error eintr)
  with assms show ?thesis by (simp add: poll_dispatch_def)
next
  case (Poll_Ready n revents)
  define q where "q = poll_answer revents pop"
  note ok = poll_okD [OF assms(2)]
  have at: "event_set q ! i = (event_set pop ! i)\<lparr>pfd_revents := revents i\<rparr>" if "i < nfds pop" for i
    using that ok(1) by (simp add: q_def poll_answer_def)
  have q: "nfds q = nfds pop" "idxplus1 q = idxplus1 pop" "length (event_set q) = length (event_set pop)" by (simp_all add: q_def poll_answer_def)
  have pq: "poll_ok q" using ok at by (simp add: poll_ok_def q)
  have mq: "polled q = polled pop" using at ok(5) by (simp add: polled_def q fun_eq_iff)
  show ?thesis
  proof (cases "n = 0 \<or> nfds pop = 0")
    case True
    then show ?thesis using assms Poll_Ready pq mq by (auto simp: poll_dispatch_def q_def [symmetric] q activated_def)
  next
    case False
    then have st: "start (nfds q) < nfds q" using assms(3) q(1) by simp
    from poll_wake_ok [OF assms(1) st, of "nfds q"] obtain b' where b': "poll_wake q (start (nfds q)) (nfds q) b = Some b'" "idle b'"
      "activated b (\<Union>j < nfds q. ready b (event_set q ! ((start (nfds q) + 1 + j) mod nfds q))) b'" by blast
    have "(\<Union>j < nfds q. ready b (event_set q ! ((start (nfds q) + 1 + j) mod nfds q))) = (\<Union>i < nfds q. ready b (event_set q ! i))"
      by (rule cyclic_union [OF st])
    also have "\<dots> = {e. bit (flags b e) 1 \<and> is_io (evs b e) \<and> 0 \<le> ev_fd (evs b e)
              \<and> (\<exists>i < nfds pop. pfd_fd (event_set pop ! i) = ev_fd (evs b e) \<and> ev_events (evs b e) AND poll_result (revents i) \<noteq> 0)}"
      using ready_iff [of b] assms(1) at by (auto simp: idle_def good_def q(1))
    finally have A: "activated b {e. bit (flags b e) 1 \<and> is_io (evs b e) \<and> 0 \<le> ev_fd (evs b e)
              \<and> (\<exists>i < nfds pop. pfd_fd (event_set pop ! i) = ev_fd (evs b e) \<and> ev_events (evs b e) AND poll_result (revents i) \<noteq> 0)} b'"
      using b'(3) by metis
    have "poll_dispatch poll start pop b tv = Some (0, q, b')"
      using assms(4) Poll_Ready False b'(1) by (simp add: poll_dispatch_def q_def [symmetric] q)
    with A b'(2) pq mq False Poll_Ready show ?thesis by simp
  qed
qed

definition one_polled :: pollop where
  "one_polled = snd (the (poll_add (Some (\<lambda>_. \<lparr>pfd_fd = 0, pfd_events = 0, pfd_revents = 0\<rparr>)) (the (poll_init True)) 3 EV_READ))"

theorem poll_dispatch_exact_witness:
  "\<exists>pop' b'. poll_dispatch (\<lambda>fds t. Poll_Ready 1 (\<lambda>i. POLLHUP)) (\<lambda>n. 0) one_polled (after [Assign 7 3 0x12 0 0, Add 7 None]) None = Some (0, pop', b')
     \<and> bit (flags b' 7) 3 \<and> idle b'"
proof -
  let ?b = "after [Assign 7 3 0x12 0 0, Add 7 None]"
  have "good ?b" by (rule after_good) code_simp
  moreover have "running_ncalls ?b = None" by code_simp
  ultimately have i: "idle ?b" by (simp add: idle_def)
  have "poll_add (Some (\<lambda>_. \<lparr>pfd_fd = 0, pfd_events = 0, pfd_revents = 0\<rparr>)) (the (poll_init True)) 3 EV_READ = Some (0, one_polled)"
  proof -
    have "map_option fst (poll_add (Some (\<lambda>_. \<lparr>pfd_fd = 0, pfd_events = 0, pfd_revents = 0\<rparr>)) (the (poll_init True)) 3 EV_READ) = Some 0"
      by code_simp
    then show ?thesis by (auto simp: one_polled_def)
  qed
  with poll_add_ok [of "the (poll_init True)" EV_READ "Some (\<lambda>_. \<lparr>pfd_fd = 0, pfd_events = 0, pfd_revents = 0\<rparr>)" 3]
    poll_init_ok(1) [of True "the (poll_init True)"]
  have ok: "poll_ok one_polled" by (auto simp: poll_init_def EV_READ_def EV_SIGNAL_def)
  have one: "nfds one_polled = 1" "pfd_fd (event_set one_polled ! 0) = 3" by code_simp+
  have e: "bit (flags ?b 7) 1" "is_io (evs ?b 7)" "ev_fd (evs ?b 7) = 3" "ev_events (evs ?b 7) AND poll_result POLLHUP \<noteq> 0"
    unfolding is_io_def by code_simp+
  from poll_dispatch_exact [OF i ok, of "\<lambda>n. 0" "\<lambda>fds t. Poll_Ready 1 (\<lambda>i. POLLHUP)" None]
  obtain pop' b' where r: "poll_dispatch (\<lambda>fds t. Poll_Ready 1 (\<lambda>i. POLLHUP)) (\<lambda>n. 0) one_polled ?b None = Some (0, pop', b')" "idle b'"
    "activated ?b {e. bit (flags ?b e) 1 \<and> is_io (evs ?b e) \<and> 0 \<le> ev_fd (evs ?b e)
      \<and> (\<exists>i < nfds one_polled. pfd_fd (event_set one_polled ! i) = ev_fd (evs ?b e) \<and> ev_events (evs ?b e) AND poll_result POLLHUP \<noteq> 0)} b'"
    by auto
  have "bit (flags b' 7) 3" using r(3) e one by (simp add: activated_def bit_or_iff)
  with r(1,2) show ?thesis by blast
qed

text \<open>The loop of the event base may wait with this back end.\<close>

lemma poll_dispatches:
  assumes "\<forall>n. 0 < n \<longrightarrow> start n < n"
  shows "dispatches (\<lambda>b tv. map_option (\<lambda>(res, pop, b). (res, b)) (poll_dispatch poll start pop b tv))"
  unfolding dispatches_def
proof (intro allI impI)
  fix b tv assume "idle b"
  have "\<exists>res pop' b'. poll_dispatch poll start pop b tv = Some (res, pop', b') \<and> idle b'"
  proof (cases "poll (take (nfds pop) (event_set pop)) (poll_timeout tv)")
    case (Poll_Error eintr)
    then show ?thesis using \<open>idle b\<close> by (simp add: poll_dispatch_def)
  next
    case (Poll_Ready n revents)
    define q where "q = poll_answer revents pop"
    have n: "nfds q = nfds pop" by (simp add: q_def poll_answer_def)
    show ?thesis
    proof (cases "n = 0 \<or> nfds pop = 0")
      case True
      then show ?thesis using \<open>idle b\<close> Poll_Ready by (simp add: poll_dispatch_def q_def [symmetric] n)
    next
      case False
      then have "start (nfds q) < nfds q" using assms n by simp
      from poll_wake_ok [OF \<open>idle b\<close> this, of "nfds q"] obtain b' where "poll_wake q (start (nfds q)) (nfds q) b = Some b'" "idle b'" by blast
      then show ?thesis using False Poll_Ready by (simp add: poll_dispatch_def q_def [symmetric] n)
    qed
  qed
  then show "\<exists>res b'. map_option (\<lambda>(res, pop, b). (res, b)) (poll_dispatch poll start pop b tv) = Some (res, b') \<and> idle b'" by force
qed

text \<open>\<open>poll\<close> is never asked to wait for less than the time given, and for less than a millisecond more.\<close>

lemma poll_timeout_exact:
  assumes "normal_time t" "0 \<le> tv_sec t" "tv_sec t \<le> 2147482"
  shows "tv_sec t * 1000000 + tv_usec t \<le> poll_timeout (Some t) * 1000"
    and "poll_timeout (Some t) * 1000 < tv_sec t * 1000000 + tv_usec t + 1000"
  using assms by (auto simp: poll_timeout_def evutil_tv_to_msec_def normal_time_def MAX_SECONDS_IN_MSEC_LONG_def INT_MAX_def Let_def)

end
