(* ===== verification/Numbers.thy ===== *)
theory Numbers
  imports Prelude "HOL-Library.Monad_Syntax"
begin

unbundle bit_operations_syntax

text \<open>
  The conversions between numbers and text of HAProxy (\<open>src/standard.c\<close>, \<open>include/common/standard.h\<close>).

  A pointer into a text is the list of the bytes from there on; reading past its end has no defined
  result (\<open>None\<close>). An output is the list of the bytes of its memory and an offset. Unsigned integers are
  words; signed ones are integers that every operation brings back into their width with \<open>wrap\<close>
  (the program is compiled with \<open>-fwrapv\<close>). \<open>sg\<close> says whether a plain \<open>char\<close> is signed.
\<close>

section \<open>Reading unsigned numbers\<close>

text \<open>\<open>c - '0'\<close> as an \<open>int\<close>, and converted to \<open>unsigned int\<close>.\<close>

definition char_minus_0 :: "bool \<Rightarrow> byte \<Rightarrow> int" where
  "char_minus_0 sg c = char_val sg c - 48"

definition udigit :: "bool \<Rightarrow> byte \<Rightarrow> u32" where
  "udigit sg c = word_of_int (char_minus_0 sg c)"

fun str2ui_loop :: "u32 \<Rightarrow> byte list \<Rightarrow> u32 option" where
  "str2ui_loop i [] = None"
| "str2ui_loop i (c # s) = (if c = 0 then Some i else str2ui_loop (i * 10 - 48 + ucast c) s)"

definition str2ui :: "byte list \<Rightarrow> u32 option" where
  "str2ui s = str2ui_loop 0 s"

fun str2uic_loop :: "bool \<Rightarrow> u32 \<Rightarrow> byte list \<Rightarrow> u32 option" where
  "str2uic_loop sg i [] = None"
| "str2uic_loop sg i (c # s) =
     (let j = udigit sg c in if j > 9 then Some i else str2uic_loop sg (i * 10 + j) s)"

definition str2uic :: "bool \<Rightarrow> byte list \<Rightarrow> u32 option" where
  "str2uic sg s = str2uic_loop sg 0 s"

fun strl2ui_loop :: "u32 \<Rightarrow> byte list \<Rightarrow> nat \<Rightarrow> u32 option" where
  "strl2ui_loop i s 0 = Some i"
| "strl2ui_loop i [] (Suc n) = None"
| "strl2ui_loop i (c # s) (Suc n) = strl2ui_loop (i * 10 - 48 + ucast c) s n"

definition strl2ui :: "byte list \<Rightarrow> int \<Rightarrow> u32 option" where
  "strl2ui s len = strl2ui_loop 0 s (nat len)"

fun strl2uic_loop :: "bool \<Rightarrow> u32 \<Rightarrow> byte list \<Rightarrow> nat \<Rightarrow> u32 option" where
  "strl2uic_loop sg i s 0 = Some i"
| "strl2uic_loop sg i [] (Suc n) = None"
| "strl2uic_loop sg i (c # s) (Suc n) =
     (let j = udigit sg c; k = i * 10 in if j > 9 then Some i else strl2uic_loop sg (k + j) s n)"

definition strl2uic :: "bool \<Rightarrow> byte list \<Rightarrow> int \<Rightarrow> u32 option" where
  "strl2uic sg s len = strl2uic_loop sg 0 s (nat len)"

text \<open>Here the list is the text up to \<open>end\<close>; the second result is what is left of it.\<close>

fun read_uint_loop :: "bool \<Rightarrow> u32 \<Rightarrow> byte list \<Rightarrow> u32 \<times> byte list" where
  "read_uint_loop sg i [] = (i, [])"
| "read_uint_loop sg i (c # s) =
     (let j = udigit sg c; k = i * 10 in if j > 9 then (i, c # s) else read_uint_loop sg (k + j) s)"

definition read_uint :: "bool \<Rightarrow> byte list \<Rightarrow> u32 \<times> byte list" where
  "read_uint sg s = read_uint_loop sg 0 s"

definition ULLONG_MAX :: u64 where "ULLONG_MAX = 0xffffffffffffffff"

fun eat_digits :: "bool \<Rightarrow> byte list \<Rightarrow> byte list" where
  "eat_digits sg [] = []"
| "eat_digits sg (c # s) = (if udigit sg c > 9 then c # s else eat_digits sg s)"

fun read_uint64_loop :: "bool \<Rightarrow> u64 \<Rightarrow> byte list \<Rightarrow> u64 \<times> byte list" where
  "read_uint64_loop sg i [] = (i, [])"
| "read_uint64_loop sg i (c # s) =
     (let j = udigit sg c in
      if j > 9 then (i, c # s)
      else
        let tmp = i * 10 in
        if tmp div 10 \<noteq> i then (ULLONG_MAX, eat_digits sg (c # s))
        else if ULLONG_MAX - tmp < ucast j then (ULLONG_MAX, eat_digits sg (c # s))
        else read_uint64_loop sg (tmp + ucast j) s)"

definition read_uint64 :: "bool \<Rightarrow> byte list \<Rightarrow> u64 \<times> byte list" where
  "read_uint64 sg s = read_uint64_loop sg 0 s"

text \<open>The first byte is read without a look at \<open>end\<close>.\<close>

definition read_int64 :: "bool \<Rightarrow> byte list \<Rightarrow> (int \<times> byte list) option" where
  "read_int64 sg s =
     (case s of [] \<Rightarrow> None
      | c # r \<Rightarrow>
          let neg = (c = 45);
              s = (if c = 45 \<or> c = 43 then r else s);
              (i, s) = read_uint64 sg s
          in Some (if neg then if i > 0x8000000000000000 then (- (2 ^ 63), s) else (sint (- i), s)
                   else if i > 0x7fffffffffffffff then (2 ^ 63 - 1, s) else (sint i, s)))"

section \<open>Reading signed numbers\<close>

definition wrap :: "nat \<Rightarrow> int \<Rightarrow> int" where
  "wrap w x = signed_take_bit (w - 1) x"

fun strl2ic_pos :: "bool \<Rightarrow> int \<Rightarrow> byte list \<Rightarrow> nat \<Rightarrow> int option" where
  "strl2ic_pos sg i s 0 = Some i"
| "strl2ic_pos sg i [] (Suc n) = None"
| "strl2ic_pos sg i (c # s) (Suc n) =
     (let j = char_minus_0 sg c; k = wrap 32 (i * 10) in if j > 9 then Some i else strl2ic_pos sg (wrap 32 (k + j)) s n)"

fun strl2ic_neg :: "bool \<Rightarrow> int \<Rightarrow> byte list \<Rightarrow> nat \<Rightarrow> int option" where
  "strl2ic_neg sg i s 0 = Some i"
| "strl2ic_neg sg i [] (Suc n) = None"
| "strl2ic_neg sg i (c # s) (Suc n) =
     (let j = char_minus_0 sg c; k = wrap 32 (i * 10) in if j > 9 then Some i else strl2ic_neg sg (wrap 32 (k - j)) s n)"

definition strl2ic :: "bool \<Rightarrow> byte list \<Rightarrow> int \<Rightarrow> int option" where
  "strl2ic sg s len =
     (if len > 0 then
        case s of [] \<Rightarrow> None
        | c # r \<Rightarrow> if c \<noteq> 45 then strl2ic_pos sg 0 s (nat len) else strl2ic_neg sg 0 r (nat (len - 1))
      else Some 0)"

text \<open>
  The loops of \<open>strl2irc\<close> and \<open>strl2llrc\<close>, which differ in the width of the result only: 32 and 64. They
  return the number, or \<open>None\<close> for the code's 1.
\<close>

fun strl2rc_pos :: "bool \<Rightarrow> nat \<Rightarrow> int \<Rightarrow> byte list \<Rightarrow> nat \<Rightarrow> int option option" where
  "strl2rc_pos sg w i s 0 = Some (Some i)"
| "strl2rc_pos sg w i [] (Suc n) = None"
| "strl2rc_pos sg w i (c # s) (Suc n) =
     (let j = char_minus_0 sg c in
      if j > 9 then Some None
      else if i > (2 ^ (w - 1) - 1) div 10 then Some None
      else
        let i = wrap w (i * 10) in
        if wrap w (i + j) < i then Some None
        else strl2rc_pos sg w (wrap w (i + j)) s n)"

fun strl2rc_neg :: "bool \<Rightarrow> nat \<Rightarrow> int \<Rightarrow> byte list \<Rightarrow> nat \<Rightarrow> int option option" where
  "strl2rc_neg sg w i s 0 = Some (Some i)"
| "strl2rc_neg sg w i [] (Suc n) = None"
| "strl2rc_neg sg w i (c # s) (Suc n) =
     (let j = char_minus_0 sg c in
      if j > 9 then Some None
      else if i < - (2 ^ (w - 1) div 10) then Some None
      else
        let i = wrap w (i * 10) in
        if wrap w (i - j) > i then Some None
        else strl2rc_neg sg w (wrap w (i - j)) s n)"

definition strl2rc :: "bool \<Rightarrow> nat \<Rightarrow> byte list \<Rightarrow> int \<Rightarrow> int option option" where
  "strl2rc sg w s len =
     (if len = 0 then Some None
      else case s of [] \<Rightarrow> None
        | c # r \<Rightarrow> if c \<noteq> 45 then strl2rc_pos sg w 0 s (nat len) else strl2rc_neg sg w 0 r (nat (len - 1)))"

definition strl2irc :: "bool \<Rightarrow> byte list \<Rightarrow> int \<Rightarrow> int option option" where
  "strl2irc sg s len = strl2rc sg 32 s len"

definition strl2llrc :: "bool \<Rightarrow> byte list \<Rightarrow> int \<Rightarrow> int option option" where
  "strl2llrc sg s len = strl2rc sg 64 s len"

text \<open>The search for the dot reads the text up to \<open>len\<close>; here the list is that part of the text.\<close>

definition strl2llrc_dotted :: "bool \<Rightarrow> byte list \<Rightarrow> int option option" where
  "strl2llrc_dotted sg text = do {
     let p = length (takeWhile (\<lambda>c. c \<noteq> 46) text);
     major \<leftarrow> strl2llrc sg text (int p);
     case major of None \<Rightarrow> Some None
     | Some major \<Rightarrow>
         if major \<ge> 65536 then Some None
         else do {
           minor \<leftarrow> (if p < length text then strl2llrc sg (drop (p + 1) text) (int (length text - (p + 1)))
                     else Some (Some 0));
           case minor of None \<Rightarrow> Some None
           | Some minor \<Rightarrow>
               if minor \<ge> 65536 then Some None
               else Some (Some (wrap 64 (push_bit 16 major OR (minor AND 0xffff)))) } }"

section \<open>Sizes\<close>

text \<open>
  \<open>parse_size_err\<close>: \<open>Inr\<close> the size, or \<open>Inl\<close> the place of the error. A multiplication or a shift that would
  overflow is refused.
\<close>

fun size_digits :: "bool \<Rightarrow> u32 \<Rightarrow> byte list \<Rightarrow> (byte list + u32 \<times> byte list) option" where
  "size_digits sg v [] = None"
| "size_digits sg v (c # s) =
     (let j = udigit sg c in
      if j > 9 then Some (Inr (v, c # s))
      else if v > 0xffffffff div 10 then Some (Inl (c # s))
      else
        let v = v * 10 in
        if v > v + j then Some (Inl (c # s)) else size_digits sg (v + j) s)"

definition size_unit :: "byte \<Rightarrow> nat option" where
  "size_unit c = (if c = 0 then Some 0 else if c = 75 \<or> c = 107 then Some 10
     else if c = 77 \<or> c = 109 then Some 20 else if c = 71 \<or> c = 103 then Some 30 else None)"

definition parse_size_err :: "bool \<Rightarrow> byte list \<Rightarrow> (byte list + u32) option" where
  "parse_size_err sg text = do {
     r \<leftarrow> size_digits sg 0 text;
     case r of Inl e \<Rightarrow> Some (Inl e)
     | Inr (v, text) \<Rightarrow>
         (case text of [] \<Rightarrow> None
          | c # s \<Rightarrow>
              (case size_unit c of None \<Rightarrow> Some (Inl text)
               | Some k \<Rightarrow>
                   if k \<noteq> 0 \<and> v > drop_bit k 0xffffffff then Some (Inl text)
                   else
                     let v = push_bit k v in
                     if c \<noteq> 0 then (case s of [] \<Rightarrow> None | d # _ \<Rightarrow> if d \<noteq> 0 then Some (Inl s) else Some (Inr v))
                     else Some (Inr v))) }"

section \<open>Times\<close>

datatype time_unit = TIME_UNIT_US | TIME_UNIT_MS | TIME_UNIT_S | TIME_UNIT_MIN | TIME_UNIT_HOUR | TIME_UNIT_DAY

datatype time_error = PARSE_TIME_OVER | PARSE_TIME_UNDER | Unexpected "byte list"

fun time_digits :: "bool \<Rightarrow> u64 \<Rightarrow> byte list \<Rightarrow> (u64 \<times> byte list) option" where
  "time_digits sg v [] = None"
| "time_digits sg v (c # s) =
     (let j = udigit sg c in if j > 9 then Some (v, c # s) else time_digits sg (v * 10 + ucast j) s)"

definition output_unit :: "time_unit \<Rightarrow> u64 \<times> u64" where
  "output_unit u = (case u of TIME_UNIT_US \<Rightarrow> (1000000, 1) | TIME_UNIT_MS \<Rightarrow> (1000, 1) | TIME_UNIT_S \<Rightarrow> (1, 1)
     | TIME_UNIT_MIN \<Rightarrow> (1, 60) | TIME_UNIT_HOUR \<Rightarrow> (1, 3600) | TIME_UNIT_DAY \<Rightarrow> (1, 86400))"

text \<open>The multiplier and divisor of the suffix at \<open>s\<close>; \<open>None\<close> for an unknown one. The text after it is not looked at.\<close>

definition input_unit :: "byte \<Rightarrow> byte list \<Rightarrow> (u64 \<times> u64) option option" where
  "input_unit c s =
     (if c = 115 then Some (Some (1, 1))
      else if c = 117 then (case s of [] \<Rightarrow> None | d # _ \<Rightarrow> Some (Some (if d = 115 then (1, 1000000) else (1, 1))))
      else if c = 109 then (case s of [] \<Rightarrow> None | d # _ \<Rightarrow> Some (Some (if d = 115 then (1, 1000) else (60, 1))))
      else if c = 104 then Some (Some (3600, 1))
      else if c = 100 then Some (Some (86400, 1))
      else Some None)"

definition reduce :: "u64 \<times> u64 \<Rightarrow> u64 \<times> u64" where
  "reduce p = (case p of (a, b) \<Rightarrow> if a mod b = 0 then (a div b, 1) else (a, b))"

definition reduce_units :: "u64 \<Rightarrow> u64 \<Rightarrow> u64 \<Rightarrow> u64 \<Rightarrow> u64 \<times> u64 \<times> u64 \<times> u64" where
  "reduce_units imult idiv omult odiv =
     (let (omult, idiv) = reduce (omult, idiv);
          (idiv, omult) = reduce (idiv, omult);
          (imult, odiv) = reduce (imult, odiv);
          (odiv, imult) = reduce (odiv, imult)
      in (imult, idiv, omult, odiv))"

definition parse_time_err :: "bool \<Rightarrow> byte list \<Rightarrow> time_unit \<Rightarrow> (time_error + u32) option" where
  "parse_time_err sg text unit = do {
     (v, text) \<leftarrow> time_digits sg 0 text;
     case text of [] \<Rightarrow> None
     | c # s \<Rightarrow> do {
         u \<leftarrow> (if c = 0 then Some (Some (1, 1)) else input_unit c s);
         case u of None \<Rightarrow> Some (Inl (Unexpected text))
         | Some (imult, idiv) \<Rightarrow>
             let (omult, odiv) = (if c = 0 then (1, 1) else output_unit unit);
                 (imult, idiv, omult, odiv) = reduce_units imult idiv omult odiv;
                 result = (v * (imult * omult) + (idiv * odiv - 1)) div (idiv * odiv)
             in if result \<ge> 0x80000000 then Some (Inl PARSE_TIME_OVER)
                else if result = 0 \<and> v \<noteq> 0 then Some (Inl PARSE_TIME_UNDER)
                else Some (Inr (ucast result)) } }"

section \<open>Writing numbers\<close>

text \<open>The case ranges: how many of the bounds 9, 99, 999, \<open>\<dots>\<close> the number is greater than.\<close>

definition digit_bounds :: "nat list" where
  "digit_bounds = [9, 99, 999, 9999, 99999, 999999, 9999999, 99999999, 999999999, 9999999999, 99999999999,
     999999999999, 9999999999999, 99999999999999, 999999999999999, 9999999999999999, 99999999999999999,
     999999999999999999, 9999999999999999999]"

definition case_range :: "'a::len word \<Rightarrow> nat" where
  "case_range n = length (takeWhile (\<lambda>m. m < unat n) digit_bounds)"

text \<open>\<open>for (; i >= 0; i--) { dst[i] = n % 10 + '0'; n /= 10; }\<close>, from \<open>k\<close> digits at offset \<open>p\<close>.\<close>

fun put_digits :: "byte list \<Rightarrow> nat \<Rightarrow> nat \<Rightarrow> 'a::len word \<Rightarrow> byte list" where
  "put_digits dst p 0 n = dst"
| "put_digits dst p (Suc k) n = put_digits (dst[p + k := ucast (n mod 10) + 48]) p k (n div 10)"

text \<open>The result is the memory and the offset of the last character, or \<open>None\<close> for \<open>NULL\<close>; the memory is at least \<open>p + room\<close> bytes.\<close>

definition put_number :: "'a::len word \<Rightarrow> byte list \<Rightarrow> nat \<Rightarrow> nat \<Rightarrow> (byte list \<times> nat) option" where
  "put_number n dst p room =
     (let i = case_range n in
      if i + 2 > room then None
      else Some (put_digits (dst[p + i + 1 := 0]) p (i + 1) n, p + i + 1))"

definition ulltoa :: "u64 \<Rightarrow> byte list \<Rightarrow> nat \<Rightarrow> nat \<Rightarrow> (byte list \<times> nat) option" where
  "ulltoa n dst p room = put_number n dst p room"

definition ultoa_o :: "u64 \<Rightarrow> byte list \<Rightarrow> nat \<Rightarrow> nat \<Rightarrow> (byte list \<times> nat) option" where
  "ultoa_o n dst p room = put_number n dst p room"

text \<open>\<open>ltoa_o\<close> and \<open>lltoa\<close>, with a 64-bit \<open>long\<close>.\<close>

definition ltoa_o :: "int \<Rightarrow> byte list \<Rightarrow> nat \<Rightarrow> nat \<Rightarrow> (byte list \<times> nat) option" where
  "ltoa_o n dst p room =
     (if n < 0 then if room < 3 then None else ultoa_o (word_of_int (wrap 64 (- n))) (dst[p := 45]) (p + 1) (room - 1)
      else ultoa_o (word_of_int n) dst p room)"

definition lltoa :: "int \<Rightarrow> byte list \<Rightarrow> nat \<Rightarrow> nat \<Rightarrow> (byte list \<times> nat) option" where
  "lltoa n dst p room =
     (if n < 0 then if room < 3 then None else ulltoa (word_of_int (wrap 64 (- n))) (dst[p := 45]) (p + 1) (room - 1)
      else ulltoa (word_of_int n) dst p room)"

definition utoa_pad :: "u32 \<Rightarrow> byte list \<Rightarrow> nat \<Rightarrow> nat \<Rightarrow> (byte list \<times> nat) option" where
  "utoa_pad n dst p room =
     (let i = case_range n in
      if i + 2 > room then None
      else
        let i = (if i < room then room - 2 else i)
        in Some (put_digits (dst[p + i + 1 := 0]) p (i + 1) n, p + i + 1))"

text \<open>
  The writers that fill a buffer from its end. \<open>pos\<close> is the offset of the next character; a store before
  the start of the buffer is a write out of bounds.
\<close>

fun put_back :: "byte list \<Rightarrow> nat \<Rightarrow> u64 \<Rightarrow> (byte list \<times> nat) option" where
  "put_back buf 0 n = None"
| "put_back buf (Suc pos) n =
     (let buf = buf[pos := ucast (n mod 10) + 48]; n = n div 10
      in if n \<noteq> 0 \<and> pos > 0 then put_back buf pos n else Some (buf, pos))"

definition ultoa_r :: "u64 \<Rightarrow> byte list \<Rightarrow> nat \<Rightarrow> (byte list \<times> nat) option" where
  "ultoa_r n buf room = (if room = 0 then None else put_back (buf[room - 1 := 0]) (room - 1) n)"

definition lltoa_r :: "int \<Rightarrow> byte list \<Rightarrow> nat \<Rightarrow> (byte list \<times> nat) option" where
  "lltoa_r x buf room = do {
     (buf, pos) \<leftarrow> ultoa_r (word_of_int (if x < 0 then wrap 64 (- x) else x)) buf room;
     if x < 0 \<and> pos > 1 then Some (buf[pos - 1 := 45], pos - 1) else Some (buf, pos) }"

section \<open>Digits\<close>

definition is_digit :: "byte \<Rightarrow> bool" where
  "is_digit c \<longleftrightarrow> 48 \<le> c \<and> c \<le> 57"

definition digit_of :: "byte \<Rightarrow> nat" where
  "digit_of c = unat c - 48"

definition continue_number :: "nat \<Rightarrow> byte list \<Rightarrow> nat" where
  "continue_number v ds = foldl (\<lambda>v c. v * 10 + digit_of c) v ds"

definition number :: "byte list \<Rightarrow> nat" where
  "number ds = continue_number 0 ds"

lemma continue_number_simps [simp]:
  "continue_number v [] = v" "continue_number v (c # ds) = continue_number (v * 10 + digit_of c) ds"
  "continue_number v (ds @ es) = continue_number (continue_number v ds) es"
  by (simp_all add: continue_number_def)

lemma continue_number_ge: "v \<le> continue_number v ds"
proof (induction ds arbitrary: v)
  case (Cons c ds)
  from Cons.IH [of "v * 10 + digit_of c"] show ?case by simp
qed simp

lemma is_digit_unat: "is_digit c \<longleftrightarrow> 48 \<le> unat c \<and> unat c \<le> 57"
  by (simp add: is_digit_def word_le_nat_alt)

lemma digit_of_less: "is_digit c \<Longrightarrow> digit_of c < 10"
  unfolding is_digit_unat digit_of_def by linarith

lemma unat_u64: "unat (i :: u64) < 2 ^ 64"
  by (rule order_less_le_trans [OF unsigned_less]) simp

lemma unat_byte: "unat (c :: byte) < 256"
  by (rule order_less_le_trans [OF unsigned_less]) simp

lemma char_signed: "sint (c :: byte) = (if unat c < 128 then int (unat c) else int (unat c) - 256)"
proof -
  define x where "x = int (unat c)"
  have x: "0 \<le> x" "x < 256" using unat_byte [of c] by (simp_all add: x_def del: of_nat_unat)
  have "sint c = (x + 128) mod 256 - 128"
    by (simp add: x_def sint_uint signed_take_bit_eq_take_bit_shift take_bit_eq_mod)
  moreover have "(x + 128) mod 256 = (if x < 128 then x + 128 else x - 128)"
  proof (cases "x < 128")
    case True
    with x show ?thesis by (simp add: mod_pos_pos_trivial)
  next
    case False
    have "(x + 128) mod 256 = (x - 128 + 256) mod 256" by (simp add: add.commute)
    also have "\<dots> = (x - 128) mod 256" by (rule mod_add_self2)
    also have "\<dots> = x - 128" using False x by (intro mod_pos_pos_trivial) auto
    finally show ?thesis using False by simp
  qed
  ultimately have "sint c = (if x < 128 then x else x - 256)" by (simp split: if_splits)
  then show ?thesis unfolding x_def by (simp del: of_nat_unat)
qed

lemma char_val_range: "- 128 \<le> char_val sg c \<and> char_val sg c \<le> 255"
proof -
  have "unat c < 256" by (rule unat_byte)
  then show ?thesis by (auto simp: char_val_def char_signed uint_nat simp del: of_nat_unat)
qed

lemma char_val_low: "char_val sg c \<ge> 0 \<and> char_val sg c < 128 \<longleftrightarrow> unat c < 128" "unat c < 128 \<Longrightarrow> char_val sg c = int (unat c)"
proof -
  have "unat c < 256" by (rule unat_byte)
  then show "char_val sg c \<ge> 0 \<and> char_val sg c < 128 \<longleftrightarrow> unat c < 128" "unat c < 128 \<Longrightarrow> char_val sg c = int (unat c)"
    by (auto simp: char_val_def char_signed uint_nat simp del: of_nat_unat)
qed

lemma minus_0_digit: "is_digit c \<longleftrightarrow> 0 \<le> char_minus_0 sg c \<and> char_minus_0 sg c \<le> 9"
  using char_val_low [where sg = sg and c = c] by (auto simp: char_minus_0_def is_digit_unat simp del: of_nat_unat)

lemma minus_0_value: "is_digit c \<Longrightarrow> char_minus_0 sg c = int (digit_of c)"
  using char_val_low(2) [where sg = sg and c = c] by (simp add: char_minus_0_def is_digit_unat digit_of_def of_nat_diff del: of_nat_unat)

lemma minus_0_range: "- 176 \<le> char_minus_0 sg c \<and> char_minus_0 sg c \<le> 207"
  using char_val_range [of sg c] by (simp add: char_minus_0_def)

lemma udigit_digit: "udigit sg c > 9 \<longleftrightarrow> \<not> is_digit c"
proof -
  have "uint (udigit sg c) = char_minus_0 sg c mod 2 ^ 32"
    by (simp add: udigit_def uint_word_of_int_eq take_bit_eq_mod)
  also have "\<dots> = (if char_minus_0 sg c < 0 then char_minus_0 sg c + 2 ^ 32 else char_minus_0 sg c)"
  proof (cases "char_minus_0 sg c < 0")
    case True
    have "char_minus_0 sg c mod 2 ^ 32 = (char_minus_0 sg c + 2 ^ 32) mod 2 ^ 32" by simp
    also have "\<dots> = char_minus_0 sg c + 2 ^ 32" using True minus_0_range [of sg c] by (intro mod_pos_pos_trivial) auto
    finally show ?thesis using True by simp
  next
    case False
    then show ?thesis using minus_0_range [of sg c] by (simp add: mod_pos_pos_trivial)
  qed
  finally have "uint (udigit sg c) = (if char_minus_0 sg c < 0 then char_minus_0 sg c + 2 ^ 32 else char_minus_0 sg c)" .
  then show ?thesis using minus_0_digit [of c sg] minus_0_range [of sg c] by (auto simp: word_less_def)
qed

lemma udigit_value: "is_digit c \<Longrightarrow> udigit sg c = of_nat (digit_of c)"
  by (simp add: udigit_def minus_0_value)

lemma ucast_udigit: "is_digit c \<Longrightarrow> ucast (udigit sg c) = (of_nat (digit_of c) :: u64)"
  using digit_of_less [of c] by (simp add: udigit_value unsigned_of_nat take_bit_nat_eq_self)

section \<open>The readers of unsigned numbers\<close>

lemma eat_digits_eq: "eat_digits sg s = dropWhile is_digit s"
  by (induction s) (simp_all add: udigit_digit)

lemma times_10_fits: "i * 10 div 10 \<noteq> i \<longleftrightarrow> 2 ^ 64 \<le> unat i * 10" for i :: u64
proof -
  have m: "unat (i * 10) = unat i * 10 mod 2 ^ 64" by (simp add: unat_word_ariths)
  have "unat i < 2 ^ 64" using unat_u64 [of i] by simp
  show ?thesis
  proof (cases "2 ^ 64 \<le> unat i * 10")
    case True
    have "unat i * 10 mod 2 ^ 64 \<le> unat i * 10 - 2 ^ 64" using True by (simp add: le_mod_geq)
    then have "unat (i * 10 div 10) < unat i" using m True by (simp add: unat_div)
    then show ?thesis using True by auto
  next
    case False
    then have "unat (i * 10 div 10) = unat i" using m by (simp add: unat_div)
    then show ?thesis using False by (metis word_unat_eq_iff)
  qed
qed

lemma read_uint64_loop_eq:
  "read_uint64_loop sg i s = (of_nat (min (continue_number (unat i) (takeWhile is_digit s)) (2 ^ 64 - 1)), dropWhile is_digit s)"
proof (induction s arbitrary: i)
  case Nil
  have "unat i \<le> 2 ^ 64 - 1" using unat_u64 [of i] by simp
  then show ?case by (simp add: min_absorb1)
next
  case (Cons c s)
  have max: "ULLONG_MAX = of_nat (2 ^ 64 - 1)" "unat ULLONG_MAX = 2 ^ 64 - 1" by (simp_all add: ULLONG_MAX_def)
  show ?case
  proof (cases "is_digit c")
    case False
    then show ?thesis using Cons.IH unat_u64 [of i] by (simp add: udigit_digit Let_def min_absorb1)
  next
    case d: True
    let ?v = "unat i * 10 + digit_of c"
    have ge: "?v \<le> continue_number ?v (takeWhile is_digit s)" by (rule continue_number_ge)
    have nd: "\<not> udigit sg c > 9" using d by (simp add: udigit_digit)
    have full: ?thesis if "2 ^ 64 \<le> ?v" "read_uint64_loop sg i (c # s) = (ULLONG_MAX, eat_digits sg (c # s))"
    proof -
      have "min (continue_number ?v (takeWhile is_digit s)) (2 ^ 64 - 1) = 2 ^ 64 - 1" using that(1) ge by simp
      then show ?thesis using that(2) d max(1) by (simp add: eat_digits_eq)
    qed
    show ?thesis
    proof (cases "2 ^ 64 \<le> unat i * 10")
      case True
      then have "i * 10 div 10 \<noteq> i" by (simp only: times_10_fits)
      then have "read_uint64_loop sg i (c # s) = (ULLONG_MAX, eat_digits sg (c # s))" using nd by (simp add: Let_def)
      with True full show ?thesis by simp
    next
      case False
      then have t: "i * 10 div 10 = i" using times_10_fits [of i] by blast
      have u: "unat (i * 10) = unat i * 10" using False by (simp add: unat_word_ariths)
      have dl: "digit_of c < 10" using d by (rule digit_of_less)
      then have uj: "unat (of_nat (digit_of c) :: u64) = digit_of c" by (simp add: unsigned_of_nat take_bit_nat_eq_self)
      have "unat (ULLONG_MAX - i * 10) = 2 ^ 64 - 1 - unat i * 10"
        using u False by (subst unat_sub) (simp_all add: word_le_nat_alt max(2))
      then have lt: "ULLONG_MAX - i * 10 < of_nat (digit_of c) \<longleftrightarrow> 2 ^ 64 \<le> ?v"
        using uj False by (simp add: word_less_nat_alt) arith
      show ?thesis
      proof (cases "2 ^ 64 \<le> ?v")
        case True
        then have "read_uint64_loop sg i (c # s) = (ULLONG_MAX, eat_digits sg (c # s))"
          using nd t lt by (simp add: Let_def ucast_udigit [OF d])
        with True full show ?thesis by simp
      next
        case small: False
        then have "unat (i * 10 + of_nat (digit_of c)) = ?v" using u uj by (simp add: unat_word_ariths)
        moreover have "read_uint64_loop sg i (c # s) = read_uint64_loop sg (i * 10 + of_nat (digit_of c)) s"
          using nd t lt small by (simp add: Let_def ucast_udigit [OF d])
        ultimately show ?thesis using Cons.IH d by simp
      qed
    qed
  qed
qed

lemma read_uint64_eq:
  "read_uint64 sg s = (of_nat (min (number (takeWhile is_digit s)) (2 ^ 64 - 1)), dropWhile is_digit s)"
  by (simp add: read_uint64_def read_uint64_loop_eq number_def)

section \<open>The readers of signed numbers\<close>

text \<open>The value of a text that is a decimal number, with at least one digit, behind an optional minus sign.\<close>

definition natural_value :: "byte list \<Rightarrow> nat option" where
  "natural_value t = (if t \<noteq> [] \<and> list_all is_digit t then Some (number t) else None)"

definition signed_value :: "byte list \<Rightarrow> int option" where
  "signed_value t =
     (if t \<noteq> [] \<and> hd t = 45 then map_option (\<lambda>v. - int v) (natural_value (tl t)) else map_option int (natural_value t))"

definition fits :: "nat \<Rightarrow> int \<Rightarrow> bool" where
  "fits w v \<longleftrightarrow> - (2 ^ (w - 1)) \<le> v \<and> v < 2 ^ (w - 1)"

lemma wrap_fits: "0 < w \<Longrightarrow> fits w v \<Longrightarrow> wrap w v = v"
  by (simp add: wrap_def fits_def signed_take_bit_int_eq_self)

lemma wrap_above: "0 < w \<Longrightarrow> 2 ^ (w - 1) \<le> v \<Longrightarrow> v < 3 * 2 ^ (w - 1) \<Longrightarrow> wrap w v = v - 2 ^ w"
proof -
  assume a: "0 < w" "2 ^ (w - 1) \<le> v" "v < 3 * 2 ^ (w - 1)"
  then have p: "(2 :: int) ^ w = 2 * 2 ^ (w - 1)" by (cases w) simp_all
  have "signed_take_bit (w - 1) v = signed_take_bit (w - 1) (v - 2 ^ w)"
    using a(1) by (simp add: signed_take_bit_eq_iff_take_bit_eq take_bit_eq_mod)
  also have "\<dots> = v - 2 ^ w" using a p by (intro signed_take_bit_int_eq_self) auto
  finally show ?thesis by (simp add: wrap_def)
qed

lemma wrap_below: "0 < w \<Longrightarrow> - (3 * 2 ^ (w - 1)) \<le> v \<Longrightarrow> v < - (2 ^ (w - 1)) \<Longrightarrow> wrap w v = v + 2 ^ w"
proof -
  assume a: "0 < w" "- (3 * 2 ^ (w - 1)) \<le> v" "v < - (2 ^ (w - 1))"
  then have p: "(2 :: int) ^ w = 2 * 2 ^ (w - 1)" by (cases w) simp_all
  have "signed_take_bit (w - 1) v = signed_take_bit (w - 1) (v + 2 ^ w)"
    using a(1) by (simp add: signed_take_bit_eq_iff_take_bit_eq take_bit_eq_mod)
  also have "\<dots> = v + 2 ^ w" using a p by (intro signed_take_bit_int_eq_self) auto
  finally show ?thesis by (simp add: wrap_def)
qed

text \<open>The bound \<open>m\<close> of the width, and the two tests of the loop that follow the digit test.\<close>

lemma pos_step:
  fixes i j m :: int
  assumes w: "10 < w" "m = 2 ^ (w - 1)" and i: "0 \<le> i" "i < m" and j: "- 176 \<le> j" "j \<le> 9"
  shows "i > (m - 1) div 10 \<Longrightarrow> m \<le> i * 10"
    and "\<not> i > (m - 1) div 10 \<Longrightarrow> wrap w (i * 10) = i * 10 \<and> (wrap w (i * 10 + j) < i * 10 \<longleftrightarrow> j < 0 \<or> m \<le> i * 10 + j)
           \<and> (0 \<le> j \<and> i * 10 + j < m \<longrightarrow> wrap w (i * 10 + j) = i * 10 + j)"
proof -
  show "i > (m - 1) div 10 \<Longrightarrow> m \<le> i * 10" by presburger
  assume "\<not> i > (m - 1) div 10"
  then have s: "i * 10 < m" by presburger
  have "(2 :: int) ^ 10 \<le> 2 ^ (w - 1)" using w(1) by (intro power_increasing) auto
  then have m: "1024 \<le> m" using w(2) by simp
  have p: "(2 :: int) ^ w = 2 * m" using w by (cases w) simp_all
  have a: "wrap w (i * 10) = i * 10" using s i w by (intro wrap_fits) (simp_all add: fits_def)
  have "wrap w (i * 10 + j) = (if m \<le> i * 10 + j then i * 10 + j - 2 * m else i * 10 + j)"
  proof (cases "m \<le> i * 10 + j")
    case True
    then have "wrap w (i * 10 + j) = i * 10 + j - 2 ^ w" using s j m w by (intro wrap_above) simp_all
    with True p show ?thesis by simp
  next
    case False
    then have "wrap w (i * 10 + j) = i * 10 + j" using i j m w by (intro wrap_fits) (simp_all add: fits_def)
    with False show ?thesis by simp
  qed
  with a s m j show "wrap w (i * 10) = i * 10 \<and> (wrap w (i * 10 + j) < i * 10 \<longleftrightarrow> j < 0 \<or> m \<le> i * 10 + j)
      \<and> (0 \<le> j \<and> i * 10 + j < m \<longrightarrow> wrap w (i * 10 + j) = i * 10 + j)" by auto
qed

lemma neg_step:
  fixes i j m :: int
  assumes w: "10 < w" "m = 2 ^ (w - 1)" and i: "- m \<le> i" "i \<le> 0" and j: "- 176 \<le> j" "j \<le> 9"
  shows "i < - (m div 10) \<Longrightarrow> i * 10 < - m"
    and "\<not> i < - (m div 10) \<Longrightarrow> wrap w (i * 10) = i * 10 \<and> (wrap w (i * 10 - j) > i * 10 \<longleftrightarrow> j < 0 \<or> i * 10 - j < - m)
           \<and> (0 \<le> j \<and> - m \<le> i * 10 - j \<longrightarrow> wrap w (i * 10 - j) = i * 10 - j)"
proof -
  show "i < - (m div 10) \<Longrightarrow> i * 10 < - m" by presburger
  assume "\<not> i < - (m div 10)"
  then have s: "- m \<le> i * 10" by presburger
  have "(2 :: int) ^ 10 \<le> 2 ^ (w - 1)" using w(1) by (intro power_increasing) auto
  then have m: "1024 \<le> m" using w(2) by simp
  have p: "(2 :: int) ^ w = 2 * m" using w by (cases w) simp_all
  have a: "wrap w (i * 10) = i * 10" using s i w m by (intro wrap_fits) (simp_all add: fits_def)
  have "wrap w (i * 10 - j) = (if i * 10 - j < - m then i * 10 - j + 2 * m else i * 10 - j)"
  proof (cases "i * 10 - j < - m")
    case True
    then have "wrap w (i * 10 - j) = i * 10 - j + 2 ^ w" using s j m w by (intro wrap_below) simp_all
    with True p show ?thesis by simp
  next
    case False
    then have "wrap w (i * 10 - j) = i * 10 - j" using i j m w by (intro wrap_fits) (simp_all add: fits_def)
    with False show ?thesis by simp
  qed
  with a s m j show "wrap w (i * 10) = i * 10 \<and> (wrap w (i * 10 - j) > i * 10 \<longleftrightarrow> j < 0 \<or> i * 10 - j < - m)
      \<and> (0 \<le> j \<and> - m \<le> i * 10 - j \<longrightarrow> wrap w (i * 10 - j) = i * 10 - j)" by auto
qed

lemma strl2rc_pos_eq:
  assumes w: "10 < w"
  shows "fits w (int v) \<Longrightarrow> n \<le> length s \<Longrightarrow> strl2rc_pos sg w (int v) s n =
    Some (if list_all is_digit (take n s) \<and> fits w (int (continue_number v (take n s)))
          then Some (int (continue_number v (take n s))) else None)"
proof (induction n arbitrary: v s)
  case (Suc n)
  from Suc.prems(2) obtain c r where s: "s = c # r" "n \<le> length r" by (cases s) auto
  let ?j = "char_minus_0 sg c"
  let ?m = "2 ^ (w - 1) :: int"
  show ?case
  proof (cases "is_digit c")
    case False
    then have "?j > 9 \<or> ?j < 0" using minus_0_digit [of c sg] by auto
    then show ?thesis
    proof
      assume "?j > 9"
      with s False show ?thesis by (simp add: Let_def)
    next
      assume j: "?j < 0"
      have "int v < ?m" "0 \<le> int v" using Suc.prems(1) by (simp_all add: fits_def)
      from pos_step(2) [OF w refl this(2,1), of ?j] j minus_0_range [of sg c]
      have "\<not> int v > (?m - 1) div 10 \<Longrightarrow> wrap w (int v * 10) = int v * 10 \<and> wrap w (int v * 10 + ?j) < int v * 10" by simp
      with s False j show ?thesis by (simp add: Let_def)
    qed
  next
    case True
    have j: "?j = int (digit_of c)" "0 \<le> ?j" "?j \<le> 9" using minus_0_value [OF True] minus_0_digit [of c sg] True by auto
    have v: "int v < ?m" "0 \<le> int v" using Suc.prems(1) by (simp_all add: fits_def)
    let ?v = "v * 10 + digit_of c"
    have ge: "?v \<le> continue_number ?v (take n r)" by (rule continue_number_ge)
    have fit: "fits w (int x) \<longleftrightarrow> int x < ?m" for x by (simp add: fits_def order_trans [of _ 0])
    note step = pos_step [OF w refl v(2,1), of ?j]
    have nj: "\<not> ?j > 9" using j(3) by simp
    show ?thesis
    proof (cases "int ?v < ?m")
      case True
      then have small: "\<not> int v > (?m - 1) div 10" using step(1) j by auto
      from step(2) [OF _ j(3) small] j True have
        e: "wrap w (int v * 10) = int v * 10" "\<not> wrap w (int v * 10 + ?j) < int v * 10" "wrap w (int v * 10 + ?j) = int ?v" by auto
      have "strl2rc_pos sg w (int v) s (Suc n) = strl2rc_pos sg w (int ?v) r n"
        using s(1) nj small e by (simp add: Let_def)
      moreover have "fits w (int ?v)" using True fit by blast
      note Suc.IH [OF this s(2)]
      ultimately show ?thesis using s(1) \<open>is_digit c\<close> by (simp del: of_nat_add of_nat_mult)
    next
      case False
      have "strl2rc_pos sg w (int v) s (Suc n) = Some None"
      proof (cases "int v > (?m - 1) div 10")
        case True
        with s(1) nj show ?thesis by (simp add: Let_def)
      next
        case small: False
        from step(2) [OF _ j(3) small] j False have
          "wrap w (int v * 10) = int v * 10" "wrap w (int v * 10 + ?j) < int v * 10" by auto
        with s(1) nj small show ?thesis by (simp add: Let_def)
      qed
      moreover have "\<not> fits w (int (continue_number ?v (take n r)))" using False ge unfolding fit by linarith
      ultimately show ?thesis using s(1) by simp
    qed
  qed
qed simp

lemma strl2rc_neg_eq:
  assumes w: "10 < w"
  shows "fits w (- int v) \<Longrightarrow> n \<le> length s \<Longrightarrow> strl2rc_neg sg w (- int v) s n =
    Some (if list_all is_digit (take n s) \<and> fits w (- int (continue_number v (take n s)))
          then Some (- int (continue_number v (take n s))) else None)"
proof (induction n arbitrary: v s)
  case (Suc n)
  from Suc.prems(2) obtain c r where s: "s = c # r" "n \<le> length r" by (cases s) auto
  let ?j = "char_minus_0 sg c"
  let ?m = "2 ^ (w - 1) :: int"
  have v: "- ?m \<le> - int v" "- int v \<le> 0" using Suc.prems(1) by (simp_all add: fits_def)
  note step = neg_step [OF w refl v, of ?j]
  show ?case
  proof (cases "is_digit c")
    case False
    then have "?j > 9 \<or> ?j < 0" using minus_0_digit [of c sg] by auto
    then show ?thesis
    proof
      assume "?j > 9"
      with s False show ?thesis by (simp add: Let_def)
    next
      assume j: "?j < 0"
      from step(2) j minus_0_range [of sg c]
      have "\<not> - int v < - (?m div 10) \<Longrightarrow> wrap w (- int v * 10) = - int v * 10 \<and> wrap w (- int v * 10 - ?j) > - int v * 10" by simp
      with s False j show ?thesis by (simp add: Let_def)
    qed
  next
    case True
    have j: "?j = int (digit_of c)" "0 \<le> ?j" "?j \<le> 9" "- 176 \<le> ?j" using minus_0_value [OF True] minus_0_digit [of c sg] True by auto
    let ?v = "v * 10 + digit_of c"
    have ge: "?v \<le> continue_number ?v (take n r)" by (rule continue_number_ge)
    have fit: "fits w (- int x) \<longleftrightarrow> - ?m \<le> - int x" for x
    proof -
      have "- int x \<le> 0" "(0 :: int) < ?m" by simp_all
      then have "- int x < ?m" by linarith
      then show ?thesis by (simp add: fits_def)
    qed
    have vv: "- int v * 10 - ?j = - int ?v" using j(1) by simp
    have nj: "\<not> ?j > 9" using j(3) by simp
    show ?thesis
    proof (cases "- ?m \<le> - int ?v")
      case True
      then have small: "\<not> - int v < - (?m div 10)" using step(1) [OF j(4,3)] vv j(2) by linarith
      from step(2) [OF j(4,3) small] j True vv have
        e: "wrap w (- int v * 10) = - int v * 10" "\<not> wrap w (- int v * 10 - ?j) > - int v * 10" "wrap w (- int v * 10 - ?j) = - int ?v" by auto
      have "strl2rc_neg sg w (- int v) s (Suc n) = strl2rc_neg sg w (- int ?v) r n"
        unfolding s(1) strl2rc_neg.simps Let_def if_not_P [OF nj] if_not_P [OF small] e(1) e(3) if_not_P [OF e(2) [unfolded e(3)]] ..
      moreover have "fits w (- int ?v)" using True fit by blast
      note Suc.IH [OF this s(2)]
      ultimately show ?thesis using s(1) \<open>is_digit c\<close> by (simp del: of_nat_add of_nat_mult)
    next
      case False
      have "strl2rc_neg sg w (- int v) s (Suc n) = Some None"
      proof (cases "- int v < - (?m div 10)")
        case True
        with s(1) nj show ?thesis by (simp add: Let_def)
      next
        case small: False
        from step(2) [OF j(4,3) small] j False vv have
          e: "wrap w (- int v * 10) = - int v * 10" "wrap w (- int v * 10 - ?j) > - int v * 10" by auto
        show ?thesis
          unfolding s(1) strl2rc_neg.simps Let_def if_not_P [OF nj] if_not_P [OF small] e(1) if_P [OF e(2)] ..
      qed
      moreover have "\<not> fits w (- int (continue_number ?v (take n r)))" using False ge unfolding fit by linarith
      ultimately show ?thesis using s(1) by simp
    qed
  qed
qed simp

lemma strl2rc_eq:
  assumes w: "10 < w" and n: "0 < n" "n \<le> length s"
  shows "strl2rc sg w s (int n) =
    Some (if take n s = [45] then Some 0
          else case signed_value (take n s) of Some v \<Rightarrow> if fits w v then Some v else None | None \<Rightarrow> None)"
proof -
  from n obtain c r where s: "s = c # r" by (cases s) auto
  obtain k where k: "n = Suc k" using n(1) by (cases n) auto
  have z: "fits w (int 0)" "fits w (- int 0)" by (simp_all add: fits_def)
  show ?thesis
  proof (cases "c = 45")
    case True
    with strl2rc_neg_eq [OF w z(2), of k r sg] s k n(2) z show ?thesis
      by (cases "take k r = []") (auto simp: strl2rc_def signed_value_def natural_value_def number_def)
  next
    case False
    with strl2rc_pos_eq [OF w z(1), of n s sg] s k n(2) show ?thesis
      by (simp add: strl2rc_def signed_value_def natural_value_def number_def nat_add_distrib del: strl2rc_pos.simps)
  qed
qed

section \<open>The writers\<close>

function decimal :: "nat \<Rightarrow> byte list" where
  "decimal n = (if n < 10 then [of_nat n + 48] else decimal (n div 10) @ [of_nat (n mod 10) + 48])"
  by pat_completeness auto
termination by (relation "measure id") auto

declare decimal.simps [simp del]

lemma digit_char: "d < 10 \<Longrightarrow> is_digit (of_nat d + 48) \<and> digit_of (of_nat d + 48) = d"
proof -
  assume "d < 10"
  then have "d \<in> {0, 1, 2, 3, 4, 5, 6, 7, 8, 9}" by auto
  then show ?thesis by (auto simp: is_digit_def digit_of_def)
qed

lemma decimal_digits: "list_all is_digit (decimal n) \<and> number (decimal n) = n \<and> decimal n \<noteq> [] \<and> (\<forall>c \<in> set (decimal n). c \<noteq> 45)"
proof (induction n rule: decimal.induct)
  case (1 n)
  have "is_digit c \<Longrightarrow> c \<noteq> 45" for c by (auto simp: is_digit_def)
  with 1 digit_char [of n] digit_char [of "n mod 10"] show ?case
    by (subst (1 2 3 4) decimal.simps) (auto simp: number_def)
qed

text \<open>Exactly \<open>k\<close> digits, with leading zeros.\<close>

fun padded :: "nat \<Rightarrow> nat \<Rightarrow> byte list" where
  "padded 0 n = []"
| "padded (Suc k) n = padded k (n div 10) @ [of_nat (n mod 10) + 48]"

lemma length_padded [simp]: "length (padded k n) = k"
  by (induction k arbitrary: n) auto

lemma ucast_digit: "ucast (n mod 10 :: 'a::len word) = (of_nat (unat n mod 10) :: byte)" if "4 < LENGTH('a)" for n
proof -
  have "unat (n mod 10) = unat n mod 10"
  proof -
    have "(2 :: nat) ^ 4 < 2 ^ LENGTH('a)" using that by (intro power_strict_increasing) auto
    then have "unat (10 :: 'a word) = 10" by (simp add: unsigned_numeral take_bit_nat_eq_self)
    then show ?thesis by (simp add: unat_mod_distrib)
  qed
  then show ?thesis by (metis of_nat_unat)
qed

lemma unat_div_10: "unat (n div 10 :: 'a::len word) = unat n div 10" if "4 < LENGTH('a)" for n
proof -
  have "(2 :: nat) ^ 4 < 2 ^ LENGTH('a)" using that by (intro power_strict_increasing) auto
  then have "unat (10 :: 'a word) = 10" by (simp add: unsigned_numeral take_bit_nat_eq_self)
  then show ?thesis by (simp add: unat_div)
qed

lemma memcpy_snoc: "p + length xs < length dst \<Longrightarrow> memcpy (dst[p + length xs := x]) p xs = memcpy dst p (xs @ [x])"
  by (simp add: memcpy_def drop_nth_Cons [of "p + length xs"])

lemma put_digits_eq:
  fixes n :: "'a::len word"
  assumes "4 < LENGTH('a)"
  shows "p + k \<le> length dst \<Longrightarrow> put_digits dst p k n = memcpy dst p (padded k (unat n))"
proof (induction k arbitrary: dst n)
  case (Suc k)
  then have "put_digits dst p (Suc k) n = memcpy (dst[p + k := of_nat (unat n mod 10) + 48]) p (padded k (unat n div 10))"
    using ucast_digit [OF assms, of n] unat_div_10 [OF assms, of n] by simp
  also have "\<dots> = memcpy dst p (padded (Suc k) (unat n))"
    using Suc.prems memcpy_snoc [of p "padded k (unat n div 10)" dst] by simp
  finally show ?case .
qed simp

lemma digits_length:
  "padded k n = (if length (decimal n) \<le> k then replicate (k - length (decimal n)) 48 @ decimal n else drop (length (decimal n) - k) (decimal n))" if "0 < k"
  using that
proof (induction k arbitrary: n)
  case (Suc k)
  show ?case
  proof (cases "n < 10")
    case True
    have "padded k 0 = replicate k 48" for k by (induction k) (simp_all add: replicate_append_same)
    with True show ?thesis by (simp add: decimal.simps [of n])
  next
    case False
    then have d: "decimal n = decimal (n div 10) @ [of_nat (n mod 10) + 48]" by (simp add: decimal.simps [of n])
    have ne: "decimal (n div 10) \<noteq> []" using decimal_digits by blast
    show ?thesis
    proof (cases "k = 0")
      case True
      then show ?thesis using d ne by simp
    next
      case False
      then show ?thesis using Suc.IH [of "n div 10"] d by (simp add: Suc_diff_le)
    qed
  qed
qed simp

lemma power_decimal: "0 < k \<Longrightarrow> 10 ^ k \<le> n \<longleftrightarrow> k < length (decimal n)"
proof (induction k arbitrary: n)
  case (Suc k)
  show ?case
  proof (cases "n < 10")
    case True
    have "(10 :: nat) \<le> 10 ^ Suc k" by simp
    with True have "\<not> 10 ^ Suc k \<le> n" by linarith
    with True show ?thesis by (simp add: decimal.simps [of n])
  next
    case False
    then have l: "length (decimal n) = Suc (length (decimal (n div 10)))" by (simp add: decimal.simps [of n])
    have "10 ^ Suc k \<le> n \<longleftrightarrow> 10 ^ k \<le> n div 10" by (simp add: less_eq_div_iff_mult_less_eq mult.commute)
    moreover have "10 ^ k \<le> n div 10 \<longleftrightarrow> k < length (decimal (n div 10))"
    proof (cases "k = 0")
      case True
      then show ?thesis using False decimal_digits [of "n div 10"] by simp
    next
      case False
      with Suc.IH show ?thesis by simp
    qed
    ultimately show ?thesis using l by simp
  qed
qed simp

lemma bounds_eq: "digit_bounds = map (\<lambda>k. 10 ^ (k + 1) - 1) [0..<19]"
  by (simp add: digit_bounds_def upt_rec)

lemma takeWhile_upt: "length (takeWhile (\<lambda>k. k < l) [0..<n]) = min n l"
proof (induction n)
  case (Suc n)
  have "\<exists>x \<in> set [0..<n]. \<not> x < l" if "l < n" using that by auto
  with Suc show ?case by (cases "l < n") (auto simp: takeWhile_append)
qed simp

lemma case_range_eq: "unat n < 10 ^ 20 \<Longrightarrow> Suc (case_range n) = length (decimal (unat n))"
proof -
  assume n: "unat n < 10 ^ 20"
  let ?l = "length (decimal (unat n))"
  have "10 ^ (k + 1) - 1 < unat n \<longleftrightarrow> k < ?l - 1" for k
  proof -
    have "10 ^ (k + 1) - 1 < unat n \<longleftrightarrow> 10 ^ (k + 1) \<le> unat n" using zero_less_power [of "10 :: nat" "k + 1"] by linarith
    also have "\<dots> \<longleftrightarrow> k + 1 < ?l" by (rule power_decimal) simp
    finally show ?thesis by linarith
  qed
  then have "case_range n = min 19 (?l - 1)"
    by (simp add: case_range_def bounds_eq takeWhile_map comp_def takeWhile_upt)
  moreover have "?l \<le> 20" using power_decimal [of 20 "unat n"] n by linarith
  moreover have "?l \<noteq> 0" using decimal_digits by simp
  ultimately show ?thesis by simp
qed

lemma put_number_eq:
  fixes n :: "'a::len word"
  assumes w: "4 < LENGTH('a)" "LENGTH('a) \<le> 64" and m: "p + room \<le> length dst"
  shows "put_number n dst p room =
    (if length (decimal (unat n)) < room
     then Some (memcpy dst p (decimal (unat n) @ [0]), p + length (decimal (unat n))) else None)"
proof -
  let ?d = "decimal (unat n)"
  have "unat n < 2 ^ LENGTH('a)" by (rule unsigned_less)
  also have "(2 :: nat) ^ LENGTH('a) \<le> 2 ^ 64" using w(2) by (intro power_increasing) auto
  finally have l: "Suc (case_range n) = length ?d" by (intro case_range_eq) simp
  show ?thesis
  proof (cases "length ?d < room")
    case True
    have "padded (length ?d) (unat n) = ?d" using digits_length [of "length ?d" "unat n"] decimal_digits [of "unat n"] by simp
    then have "put_digits (dst[p + length ?d := 0]) p (length ?d) n = memcpy (dst[p + length ?d := 0]) p ?d"
      using True m by (subst put_digits_eq [OF w(1)]) simp_all
    also have "\<dots> = memcpy dst p (?d @ [0])" using True m by (intro memcpy_snoc) simp
    finally show ?thesis using True by (simp add: put_number_def Let_def l [symmetric] del: put_digits.simps)
  next
    case False
    with l show ?thesis by (simp add: put_number_def Let_def)
  qed
qed

text \<open>\<open>utoa_pad\<close> fills the whole room, with leading zeros.\<close>

lemma utoa_pad_eq:
  assumes "p + room \<le> length dst"
  shows "utoa_pad n dst p room =
    (if length (decimal (unat n)) < room
     then Some (memcpy dst p (padded (room - 1) (unat n) @ [0]), p + room - 1) else None)"
proof -
  let ?d = "decimal (unat n)"
  have "unat n < 2 ^ 32" by (rule order_less_le_trans [OF unsigned_less]) simp
  then have l: "Suc (case_range n) = length ?d" by (intro case_range_eq) simp
  show ?thesis
  proof (cases "length ?d < room")
    case True
    have "0 < length ?d" using decimal_digits by blast
    then have r: "room - 2 + 1 = room - 1" "2 \<le> room" using True by linarith+
    have "put_digits (dst[p + (room - 1) := 0]) p (room - 1) n = memcpy (dst[p + (room - 1) := 0]) p (padded (room - 1) (unat n))"
      using r assms by (subst put_digits_eq) simp_all
    also have "\<dots> = memcpy dst p (padded (room - 1) (unat n) @ [0])"
      using memcpy_snoc [of p "padded (room - 1) (unat n)" dst 0] r assms by simp
    finally have "put_digits (dst[p + (room - 1) := 0]) p (room - 1) n = memcpy dst p (padded (room - 1) (unat n) @ [0])" .
    moreover have "Suc (p + room - 2) = p + room - Suc 0" using r(2) by linarith
    ultimately show ?thesis using l True r by (simp add: utoa_pad_def Let_def del: put_digits.simps)
  next
    case False
    with l show ?thesis by (simp add: utoa_pad_def Let_def)
  qed
qed

lemma lltoa_eq:
  assumes n: "- (2 ^ 63) \<le> n" "n < 2 ^ 63" and m: "p + room \<le> length dst"
  shows "lltoa n dst p room =
    (let text = (if n < 0 then [45] else []) @ decimal (nat \<bar>n\<bar>)
     in if length text < room then Some (memcpy dst p (text @ [0]), p + length text) else None)"
proof (cases "n < 0")
  case False
  then have "unat (word_of_int n :: u64) = nat n" using n by (simp add: unat_eq_nat_uint uint_word_of_int_eq take_bit_int_eq_self)
  with False put_number_eq [of p room dst "word_of_int n :: u64"] m show ?thesis
    by (simp add: lltoa_def ulltoa_def Let_def)
next
  case True
  let ?u = "word_of_int (wrap 64 (- n)) :: u64"
  have "uint ?u = take_bit 64 (- n)"
    by (simp add: wrap_def uint_word_of_int_eq take_bit_signed_take_bit)
  also have "\<dots> = - n" using True n by (intro take_bit_int_eq_self) simp_all
  finally have u: "unat ?u = nat \<bar>n\<bar>" using True by (simp add: unat_eq_nat_uint)
  have ne: "decimal (nat \<bar>n\<bar>) \<noteq> []" using decimal_digits by blast
  show ?thesis
  proof (cases "room < 3")
    case True
    with \<open>n < 0\<close> ne show ?thesis by (cases "decimal (nat \<bar>n\<bar>)") (auto simp: lltoa_def Let_def)
  next
    case False
    have l: "(p + 1) + (room - 1) \<le> length (dst[p := 45])" using m False by simp
    have "memcpy (dst[p := 45]) (p + 1) xs = memcpy dst p (45 # xs)" for xs
      using m False by (simp add: memcpy_def take_Suc_conv_app_nth)
    with put_number_eq [OF _ _ l, of ?u] u False \<open>n < 0\<close> show ?thesis
      by (auto simp: lltoa_def ulltoa_def Let_def)
  qed
qed

section \<open>Sizes and times\<close>

lemma unat_u32: "unat (i :: u32) < 2 ^ 32"
  by (rule order_less_le_trans [OF unsigned_less]) simp

lemma u32_step:
  assumes d: "is_digit c"
  shows "v > 0xffffffff div 10 \<Longrightarrow> 2 ^ 32 \<le> unat v * 10"
    and "\<not> v > 0xffffffff div 10 \<Longrightarrow>
      (v * 10 > v * 10 + udigit sg c \<longleftrightarrow> 2 ^ 32 \<le> unat v * 10 + digit_of c)
      \<and> (unat v * 10 + digit_of c < 2 ^ 32 \<longrightarrow> unat (v * 10 + udigit sg c) = unat v * 10 + digit_of c)"
proof -
  have q: "unat (0xffffffff div 10 :: u32) = 429496729" by (simp add: unat_div)
  show "v > 0xffffffff div 10 \<Longrightarrow> 2 ^ 32 \<le> unat v * 10" using q by (simp add: word_less_nat_alt)
  assume "\<not> v > 0xffffffff div 10"
  then have s: "unat v * 10 < 2 ^ 32" using q by (simp add: word_less_nat_alt)
  have dl: "digit_of c < 10" using d by (rule digit_of_less)
  have u: "unat (v * 10) = unat v * 10" using s by (simp add: unat_word_ariths)
  have uj: "unat (udigit sg c) = digit_of c" using d dl by (simp add: udigit_value unsigned_of_nat take_bit_nat_eq_self)
  have sum: "unat (v * 10 + udigit sg c) = (unat v * 10 + digit_of c) mod 2 ^ 32" using u uj by (simp add: unat_word_ariths)
  let ?x = "unat v * 10 + digit_of c"
  have "?x mod 2 ^ 32 = (if ?x < 2 ^ 32 then ?x else ?x - 2 ^ 32)"
  proof (cases "?x < 2 ^ 32")
    case False
    have "?x - 2 ^ 32 < 2 ^ 32" using s dl by auto
    with False show ?thesis by (simp add: le_mod_geq)
  qed simp
  moreover have "2 ^ 32 \<le> ?x \<Longrightarrow> ?x - 2 ^ 32 < unat v * 10" using dl by auto
  ultimately show "(v * 10 > v * 10 + udigit sg c \<longleftrightarrow> 2 ^ 32 \<le> ?x) \<and> (?x < 2 ^ 32 \<longrightarrow> unat (v * 10 + udigit sg c) = ?x)"
    using sum u by (cases "?x < 2 ^ 32") (simp_all only: word_less_nat_alt, simp_all add: not_less)
qed

lemma size_digits_eq:
  assumes "c # r = dropWhile is_digit s"
  shows "continue_number (unat v) (takeWhile is_digit s) < 2 ^ 32 \<Longrightarrow>
      size_digits sg v s = Some (Inr (of_nat (continue_number (unat v) (takeWhile is_digit s)), c # r))"
    and "2 ^ 32 \<le> continue_number (unat v) (takeWhile is_digit s) \<Longrightarrow> \<exists>e. size_digits sg v s = Some (Inl e)"
  using assms
proof (induction s arbitrary: v)
  case (Cons x s)
  {
    case 1
    show ?case
    proof (cases "is_digit x")
      case False
      with 1 show ?thesis by (simp add: udigit_digit Let_def)
    next
      case d: True
      let ?v = "unat v * 10 + digit_of x"
      have ge: "?v \<le> continue_number ?v (takeWhile is_digit s)" by (rule continue_number_ge)
      with 1(1) d have fit: "?v < 2 ^ 32" by simp
      then have small: "\<not> v > 0xffffffff div 10" using u32_step(1) [OF d, of v] by linarith
      note st = u32_step(2) [OF d small, of sg]
      have "size_digits sg v (x # s) = size_digits sg (v * 10 + udigit sg x) s"
        using d small st fit by (simp add: udigit_digit Let_def)
      with Cons.IH(1) [of "v * 10 + udigit sg x"] 1 d st fit show ?thesis by simp
    qed
  next
    case 2
    show ?case
    proof (cases "is_digit x")
      case False
      with 2(1) unat_u32 [of v] show ?thesis by simp
    next
      case d: True
      let ?v = "unat v * 10 + digit_of x"
      show ?thesis
      proof (cases "v > 0xffffffff div 10 \<or> 2 ^ 32 \<le> ?v")
        case True
        then show ?thesis using d u32_step(2) [OF d, of v sg] by (auto simp: udigit_digit Let_def)
      next
        case False
        then have small: "\<not> v > 0xffffffff div 10" and fit: "?v < 2 ^ 32" by auto
        note st = u32_step(2) [OF d small, of sg]
        have "size_digits sg v (x # s) = size_digits sg (v * 10 + udigit sg x) s"
          using d small st fit by (simp add: udigit_digit Let_def)
        with Cons.IH(2) [of "v * 10 + udigit sg x"] 2 d st fit show ?thesis by simp
      qed
    qed
  }
qed simp_all

lemma shift_fits:
  fixes v :: u32
  assumes "k \<in> {10, 20, 30}"
  shows "v > drop_bit k 0xffffffff \<longleftrightarrow> 2 ^ 32 \<le> unat v * 2 ^ k"
    and "unat v * 2 ^ k < 2 ^ 32 \<Longrightarrow> push_bit k v = of_nat (unat v * 2 ^ k)"
proof -
  have "drop_bit k (0xffffffff :: u32) = of_nat (2 ^ (32 - k) - 1)" using assms by auto
  then have "unat (drop_bit k (0xffffffff :: u32)) = 2 ^ (32 - k) - 1"
    using assms by (auto simp: unsigned_of_nat take_bit_nat_eq_self)
  then show "v > drop_bit k 0xffffffff \<longleftrightarrow> 2 ^ 32 \<le> unat v * 2 ^ k" using assms by (auto simp: word_less_nat_alt)
  show "unat v * 2 ^ k < 2 ^ 32 \<Longrightarrow> push_bit k v = of_nat (unat v * 2 ^ k)"
    by (simp add: push_bit_eq_mult mult.commute)
qed

definition suffix_bits :: "byte list \<Rightarrow> nat option" where
  "suffix_bits u = (case u of [] \<Rightarrow> Some 0 | [c] \<Rightarrow> size_unit c | _ \<Rightarrow> None)"

lemma size_unit_cases: "size_unit c = Some k \<Longrightarrow> c \<noteq> 0 \<Longrightarrow> k \<in> {10, 20, 30}"
  by (auto simp: size_unit_def split: if_splits)

lemma parse_size_eq:
  assumes t: "0 \<notin> set t"
  shows "\<exists>e. parse_size_err sg (t @ 0 # r) = Some (case suffix_bits (dropWhile is_digit t) of
      Some k \<Rightarrow> let v = number (takeWhile is_digit t) * 2 ^ k in if v < 2 ^ 32 then Inr (of_nat v) else Inl e
    | None \<Rightarrow> Inl e)"
proof -
  let ?s = "t @ 0 # r" and ?ds = "takeWhile is_digit t" and ?u = "dropWhile is_digit t"
  have z: "\<not> is_digit 0" by (simp add: is_digit_def)
  have tw: "takeWhile is_digit ?s = ?ds" and dw: "dropWhile is_digit ?s = ?u @ 0 # r"
    using z by (induction t) auto
  obtain c w where cw: "?u @ 0 # r = c # w" by (cases "?u @ 0 # r") auto
  have n: "continue_number (unat (0 :: u32)) (takeWhile is_digit ?s) = number ?ds" by (simp add: tw number_def)
  note dig = size_digits_eq [where v = "0 :: u32" and s = ?s and sg = sg, unfolded n dw, OF cw [symmetric]]
  have c: "size_unit c = None \<Longrightarrow> suffix_bits ?u = None" "c = 0 \<longleftrightarrow> ?u = []" "?u \<noteq> [] \<Longrightarrow> hd ?u = c"
    using cw t set_dropWhileD [of _ is_digit t] by (cases ?u; auto simp: suffix_bits_def size_unit_def split: list.splits)+
  show ?thesis
  proof (cases "number ?ds < 2 ^ 32")
    case False
    from dig(2) False obtain e where e: "size_digits sg 0 ?s = Some (Inl e)" by auto
    have "\<not> number ?ds * 2 ^ k < 2 ^ 32" for k
    proof -
      have "number ?ds * 1 \<le> number ?ds * 2 ^ k" by (intro mult_le_mono2) simp
      with False show ?thesis by linarith
    qed
    then have "(case suffix_bits ?u of
      Some k \<Rightarrow> let v = number ?ds * 2 ^ k in if v < 2 ^ 32 then Inr (of_nat v :: u32) else Inl e
    | None \<Rightarrow> Inl e) = Inl e" by (simp add: Let_def split: option.split)
    with e show ?thesis by (intro exI [of _ e]) (simp add: parse_size_err_def)
  next
    case True
    let ?v = "of_nat (number ?ds) :: u32"
    from dig(1) True cw have sd: "size_digits sg 0 ?s = Some (Inr (?v, c # w))" by simp
    have uv: "unat ?v = number ?ds" using True by (simp add: unsigned_of_nat take_bit_nat_eq_self)
    show ?thesis
    proof (cases "?u = []")
      case True
      then have "c = 0" "suffix_bits ?u = Some 0" using c(2) by (simp_all only: suffix_bits_def list.case)
      with sd \<open>number ?ds < 2 ^ 32\<close> show ?thesis by (simp add: parse_size_err_def size_unit_def)
    next
      case ne: False
      then have c0: "c \<noteq> 0" using c(2) by simp
      show ?thesis
      proof (cases "size_unit c")
        case None
        with sd c(1) show ?thesis by (simp add: parse_size_err_def)
      next
        case (Some k)
        note k = size_unit_cases [OF Some c0]
        then have k0: "k \<noteq> 0" by auto
        from ne cw obtain d x where w: "w = d # x" "d = 0 \<longleftrightarrow> tl ?u = []"
          using t set_dropWhileD [of _ is_digit t] by (cases ?u; cases "tl ?u") auto
        have su: "suffix_bits ?u = (if d = 0 then Some k else None)"
          using ne w(2) Some cw by (cases ?u; cases "tl ?u") (auto simp: suffix_bits_def)
        show ?thesis
        proof (cases "2 ^ 32 \<le> number ?ds * 2 ^ k")
          case True
          then have "?v > drop_bit k 0xffffffff" using shift_fits(1) [OF k, of ?v] uv by simp
          with sd Some k0 su True show ?thesis by (simp add: parse_size_err_def)
        next
          case False
          then have "\<not> ?v > drop_bit k 0xffffffff" "push_bit k ?v = of_nat (number ?ds * 2 ^ k)"
            using shift_fits [OF k, of ?v] uv by simp_all
          with sd Some k0 su False w c0 show ?thesis by (simp add: parse_size_err_def Let_def)
        qed
      qed
    qed
  qed
qed

text \<open>Times: what the units stand for in microseconds.\<close>

definition suffix_us :: "byte list \<Rightarrow> nat option" where
  "suffix_us u = (if u = [115] then Some 1000000 else if u = [117, 115] then Some 1 else if u = [109, 115] then Some 1000
     else if u = [109] then Some 60000000 else if u = [104] then Some 3600000000 else if u = [100] then Some 86400000000 else None)"

definition unit_us :: "time_unit \<Rightarrow> nat" where
  "unit_us u = (case u of TIME_UNIT_US \<Rightarrow> 1 | TIME_UNIT_MS \<Rightarrow> 1000 | TIME_UNIT_S \<Rightarrow> 1000000
     | TIME_UNIT_MIN \<Rightarrow> 60000000 | TIME_UNIT_HOUR \<Rightarrow> 3600000000 | TIME_UNIT_DAY \<Rightarrow> 86400000000)"

lemma ceil_scale: "0 < b \<Longrightarrow> 0 < c \<Longrightarrow> (a * c + (b * c - 1)) div (b * c) = (a + (b - 1)) div b" for a b c :: nat
proof -
  assume p: "0 < b" "0 < c"
  let ?q = "(a + (b - 1)) div b"
  have "?q * b \<le> a + (b - 1)" by (simp add: div_times_less_eq_dividend)
  then have "?q * b < a + b" using p by linarith
  then have "?q * b * c < (a + b) * c" using p by simp
  then have 1: "?q * (b * c) \<le> a * c + (b * c - 1)" using p by (simp add: algebra_simps)
  have "a + (b - 1) < Suc ?q * b" using p by (metis dividend_less_times_div mult.commute mult_Suc_right add.commute)
  then have "a + b \<le> Suc ?q * b" using p by linarith
  then have "(a + b) * c \<le> Suc ?q * b * c" by simp
  moreover have "a * c + (b * c - 1) < (a + b) * c" using p by (simp add: algebra_simps)
  ultimately have 2: "a * c + (b * c - 1) < Suc ?q * (b * c)" unfolding mult.assoc by (rule less_le_trans [rotated])
  show ?thesis using 1 2 by (intro div_nat_eqI) (simp_all only: mult.commute [of "b * c"])
qed

lemma ceil_ratio: "0 < b \<Longrightarrow> 0 < d \<Longrightarrow> a * d = c * b \<Longrightarrow> (v * a + (b - 1)) div b = (v * c + (d - 1)) div d" for a b c d v :: nat
proof -
  assume p: "0 < b" "0 < d" and e: "a * d = c * b"
  have "(v * a + (b - 1)) div b = (v * a * d + (b * d - 1)) div (b * d)" using ceil_scale [OF p, of "v * a"] by simp
  also have "v * a * d = v * c * b" using e by (simp add: mult.assoc)
  also have "(v * c * b + (b * d - 1)) div (b * d) = (v * c + (d - 1)) div d"
    using ceil_scale [OF p(2,1), of "v * c"] by (simp add: mult.commute [of d b])
  finally show ?thesis .
qed

definition unit_table :: "(u64 \<times> u64) \<Rightarrow> time_unit \<Rightarrow> nat \<Rightarrow> bool" where
  "unit_table p out us = (case p of (imult, idiv) \<Rightarrow> case output_unit out of (omult, odiv) \<Rightarrow>
     case reduce_units imult idiv omult odiv of (im, dv, om, od) \<Rightarrow>
       unat (im * om) * unit_us out = us * unat (dv * od) \<and> 0 < unat (dv * od) \<and> unat (im * om) \<le> 86400000000
       \<and> unat (dv * od) \<le> 86400000000)"

lemma unit_table:
  "list_all (\<lambda>out. unit_table (1, 1) out 1000000 \<and> unit_table (1, 1000000) out 1 \<and> unit_table (1, 1000) out 1000
     \<and> unit_table (60, 1) out 60000000 \<and> unit_table (3600, 1) out 3600000000 \<and> unit_table (86400, 1) out 86400000000)
     [TIME_UNIT_US, TIME_UNIT_MS, TIME_UNIT_S, TIME_UNIT_MIN, TIME_UNIT_HOUR, TIME_UNIT_DAY]"
  by (simp add: unit_table_def reduce_units_def reduce_def output_unit_def unit_us_def)

lemma suffix_unit:
  assumes "suffix_us u = Some us"
  obtains c s p where "u @ 0 # r = c # s" "c \<noteq> 0" "input_unit c s = Some (Some p)" "unit_table p out us"
proof -
  have t: "unit_table (1, 1) out 1000000" "unit_table (1, 1000000) out 1" "unit_table (1, 1000) out 1000"
    "unit_table (60, 1) out 60000000" "unit_table (3600, 1) out 3600000000" "unit_table (86400, 1) out 86400000000"
    using unit_table by (cases out; simp)+
  show ?thesis
    by (rule that [of "hd u" "tl u @ 0 # r" "case input_unit (hd u) (tl u @ 0 # r) of Some (Some p) \<Rightarrow> p"])
      (use assms t in \<open>auto simp: suffix_us_def input_unit_def split: if_splits\<close>)
qed

lemma time_digits_eq:
  assumes "list_all is_digit ds" "\<not> is_digit c"
  shows "continue_number (unat v) ds < 2 ^ 64 \<Longrightarrow> time_digits sg v (ds @ c # s) = Some (of_nat (continue_number (unat v) ds), c # s)"
  using assms(1)
proof (induction ds arbitrary: v)
  case Nil
  with assms(2) show ?case by (simp add: udigit_digit Let_def)
next
  case (Cons d ds)
  then have d: "is_digit d" by simp
  have ge: "unat v * 10 + digit_of d \<le> continue_number (unat v * 10 + digit_of d) ds" by (rule continue_number_ge)
  then have "unat v * 10 + digit_of d < 2 ^ 64" using Cons.prems(1) by simp
  moreover have "unat (of_nat (digit_of d) :: u64) = digit_of d"
    using digit_of_less [OF d] by (simp add: unsigned_of_nat take_bit_nat_eq_self)
  ultimately have "unat (v * 10 + of_nat (digit_of d)) = unat v * 10 + digit_of d" by (simp add: unat_word_ariths)
  with Cons.IH [of "v * 10 + of_nat (digit_of d)"] Cons.prems d show ?case
    by (simp add: udigit_digit Let_def ucast_udigit [OF d])
qed

lemma time_result:
  fixes v :: u64
  assumes t: "unit_table (imult, idiv) out us" and v: "unat v \<le> 100000000"
    and r: "reduce_units imult idiv (fst (output_unit out)) (snd (output_unit out)) = (im, dv, om, od)"
  shows "unat ((v * (im * om) + (dv * od - 1)) div (dv * od)) = (unat v * us + (unit_us out - 1)) div unit_us out"
proof -
  let ?a = "unat (im * om)" and ?b = "unat (dv * od)"
  have tb: "?a * unit_us out = us * ?b" "0 < ?b" "?a \<le> 86400000000" "?b \<le> 86400000000"
    using t r by (simp_all add: unit_table_def case_prod_beta)
  have u: "0 < unit_us out" by (cases out) (simp_all add: unit_us_def)
  have va: "unat v * ?a \<le> 100000000 * 86400000000" using v tb(3) by (rule mult_le_mono)
  have "unat (v * (im * om)) = unat v * ?a" using va by (subst unat_mult_lem [THEN iffD1]) simp_all
  moreover have "unat (dv * od - 1) = ?b - 1" using tb(2) by (subst unat_sub) (simp_all add: word_le_nat_alt)
  ultimately have "unat (v * (im * om) + (dv * od - 1)) = unat v * ?a + (?b - 1)"
    using va tb(4) by (subst unat_add_lem [THEN iffD1]) simp_all
  then have "unat ((v * (im * om) + (dv * od - 1)) div (dv * od)) = (unat v * ?a + (?b - 1)) div ?b" by (simp add: unat_div)
  also have "\<dots> = (unat v * us + (unit_us out - 1)) div unit_us out" by (rule ceil_ratio [OF tb(2) u tb(1)])
  finally show ?thesis .
qed

lemma strl2rc_eqs:
  assumes "0 < n" "n \<le> length s"
  shows "strl2irc sg s (int n) =
      Some (if take n s = [45] then Some 0
            else case signed_value (take n s) of Some v \<Rightarrow> if - (2 ^ 31) \<le> v \<and> v < 2 ^ 31 then Some v else None | None \<Rightarrow> None)
    \<and> strl2llrc sg s (int n) =
      Some (if take n s = [45] then Some 0
            else case signed_value (take n s) of Some v \<Rightarrow> if - (2 ^ 63) \<le> v \<and> v < 2 ^ 63 then Some v else None | None \<Rightarrow> None)"
  using strl2rc_eq [OF _ assms, of 32 sg] strl2rc_eq [OF _ assms, of 64 sg]
  by (simp add: strl2irc_def strl2llrc_def fits_def split: option.split)

text \<open>The text that \<open>lltoa\<close> writes, and that no text of the same value is shorter.\<close>

definition signed_text :: "int \<Rightarrow> byte list" where
  "signed_text n = (if n < 0 then [45] else []) @ decimal (nat \<bar>n\<bar>)"

lemma decimal_length: "x < 10 ^ k \<Longrightarrow> 0 < k \<Longrightarrow> length (decimal x) \<le> k"
  using power_decimal [of k x] by linarith

lemma number_less: "list_all is_digit ds \<Longrightarrow> continue_number v ds < (v + 1) * 10 ^ length ds"
proof (induction ds arbitrary: v)
  case (Cons c ds)
  then have "continue_number v (c # ds) < (v * 10 + digit_of c + 1) * 10 ^ length ds" by simp
  also have "\<dots> \<le> (v + 1) * 10 * 10 ^ length ds" using Cons.prems digit_of_less [of c] by (intro mult_right_mono) auto
  finally show ?case by (simp add: algebra_simps)
qed simp

lemma decimal_value:
  "natural_value (decimal v) = Some v" "natural_value t = Some v \<Longrightarrow> length (decimal v) \<le> length t"
proof -
  show "natural_value (decimal v) = Some v" using decimal_digits [of v] by (simp add: natural_value_def)
  assume "natural_value t = Some v"
  then have "v < 10 ^ length t" "0 < length t"
    using number_less [of t 0] by (auto simp: natural_value_def number_def split: if_splits)
  then show "length (decimal v) \<le> length t" by (rule decimal_length)
qed

lemma signed_text:
  "signed_value (signed_text n) = Some n" "signed_value t = Some n \<Longrightarrow> length (signed_text n) \<le> length t" "signed_text n \<noteq> []"
    "signed_text n \<noteq> [45]"
proof -
  have d: "decimal x \<noteq> []" "hd (decimal x) \<noteq> 45" "decimal x \<noteq> [45]" for x
    using decimal_digits [of x] by (cases "decimal x"; force)+
  then show "signed_value (signed_text n) = Some n" "signed_text n \<noteq> []" "signed_text n \<noteq> [45]"
    by (auto simp: signed_value_def signed_text_def decimal_value(1))
  show "length (signed_text n) \<le> length t" if t: "signed_value t = Some n"
  proof (cases "t \<noteq> [] \<and> hd t = 45")
    case True
    with t obtain v where v: "natural_value (tl t) = Some v" "n = - int v" by (auto simp: signed_value_def)
    from decimal_value(2) [OF v(1)] True v(2) show ?thesis by (cases t) (auto simp: signed_text_def)
  next
    case False
    with t obtain v where v: "natural_value t = Some v" "n = int v" by (auto simp: signed_value_def)
    from decimal_value(2) [OF v(1)] v(2) show ?thesis by (simp add: signed_text_def)
  qed
qed

section \<open>Properties\<close>

text \<open>C32: \<open>strl2irc\<close> and \<open>strl2llrc\<close> accept a text of the given length, in either width, exactly when it is a decimal
  number - at least one digit, behind an optional minus sign - whose value fits the result type, and return
  that value, with one exception: a lone minus sign, which is no number, is accepted as zero. Every other text is
  refused, although only digits above 9 are tested: smaller characters are caught by the test for an
  overflow.\<close>
theorem strl2rc_exact:
  assumes "0 < n" "n \<le> length s"
  shows "strl2irc sg s (int n) =
      Some (if take n s = [45] then Some 0
            else case signed_value (take n s) of Some v \<Rightarrow> if - (2 ^ 31) \<le> v \<and> v < 2 ^ 31 then Some v else None | None \<Rightarrow> None)
    \<and> strl2llrc sg s (int n) =
      Some (if take n s = [45] then Some 0
            else case signed_value (take n s) of Some v \<Rightarrow> if - (2 ^ 63) \<le> v \<and> v < 2 ^ 63 then Some v else None | None \<Rightarrow> None)"
  using assms by (rule strl2rc_eqs)

theorem strl2rc_exact_witness: "strl2irc True [45, 50, 49, 52, 55, 52, 56, 51, 54, 52, 56, 32] (int 11) = Some (Some (- 2147483648))"
proof -
  let ?s = "[45, 50, 49, 52, 55, 52, 56, 51, 54, 52, 56, 32] :: byte list"
  have "strl2irc True ?s (int 11) = Some (if take 11 ?s = [45] then Some 0 else case signed_value (take 11 ?s) of
      Some v \<Rightarrow> if - (2 ^ 31) \<le> v \<and> v < 2 ^ 31 then Some v else None | None \<Rightarrow> None)"
    by (rule conjunct1 [OF strl2rc_exact]) simp_all
  also have "signed_value (take 11 ?s) = Some (- 2147483648)"
    by (simp add: signed_value_def natural_value_def is_digit_def number_def digit_of_def)
  finally show ?thesis by simp
qed

text \<open>C1: \<open>read_uint64\<close> returns the number the text starts with, or \<open>2^64-1\<close> when it is larger, and always
  goes on behind all of its digits.\<close>
theorem read_uint64_saturates:
  "read_uint64 sg s = (of_nat (min (number (takeWhile is_digit s)) (2 ^ 64 - 1)), dropWhile is_digit s)"
  by (rule read_uint64_eq)



text \<open>\<open>parse_size_err\<close> accepts exactly a decimal number followed by nothing or one of the letters k, m and g in
  either case, when the size fits 32 bits, and returns that size; in every other case it reports an error.
  It always returns.\<close>
lemma parse_size_exact:
  assumes "0 \<notin> set t"
  shows "\<exists>e. parse_size_err sg (t @ 0 # r) = Some (case suffix_bits (dropWhile is_digit t) of
      Some k \<Rightarrow> let v = number (takeWhile is_digit t) * 2 ^ k in if v < 2 ^ 32 then Inr (of_nat v) else Inl e
    | None \<Rightarrow> Inl e)"
  using assms by (rule parse_size_eq)

lemma parse_size_exact_witness: "parse_size_err True ([51, 107] @ 0 # []) = Some (Inr 3072)"
proof -
  have "0 \<notin> set ([51, 107] :: byte list)" by simp
  moreover have "dropWhile is_digit [51, 107] = [107]" "takeWhile is_digit [51, 107] = [51]" by (simp_all add: is_digit_def)
  ultimately show ?thesis using parse_size_exact [of "[51, 107]" True "[]"]
    by (simp add: suffix_bits_def size_unit_def number_def digit_of_def)
qed

text \<open>\<open>parse_time_err\<close> converts a number with a unit into the wanted unit, rounded up, exactly as long as the
  number is at most 100000000, and reports a result of \<open>2^31\<close> or more as an overflow; without a unit the
  number is taken as it is.\<close>
lemma parse_time_exact:
  assumes "list_all is_digit ds" "number ds \<le> 100000000" "suffix_us u = Some us \<or> u = [] \<and> us = unit_us out"
  shows "parse_time_err sg (ds @ u @ 0 # r) out =
    Some (let q = (number ds * us + (unit_us out - 1)) div unit_us out in if 2 ^ 31 \<le> q then Inl PARSE_TIME_OVER else Inr (of_nat q))"
proof -
  let ?v = "of_nat (number ds) :: u64"
  have v: "unat ?v = number ds" using assms(2) by (simp add: unsigned_of_nat take_bit_nat_eq_self)
  have pos: "0 < unit_us out" by (cases out) (simp_all add: unit_us_def)
  from assms(3) show ?thesis
  proof
    assume "u = [] \<and> us = unit_us out"
    then have u: "u = []" "us = unit_us out" by simp_all
    have "time_digits sg 0 (ds @ 0 # r) = Some (?v, 0 # r)"
      using time_digits_eq [OF assms(1), of 0 0 sg r] assms(2) by (simp add: number_def is_digit_def)
    moreover have "(number ds * unit_us out + (unit_us out - 1)) div unit_us out = number ds"
      using pos by (intro div_nat_eqI) (simp_all add: mult.commute)
    moreover have "reduce_units 1 1 1 1 = (1, 1, 1, 1)" by (simp add: reduce_units_def reduce_def)
    moreover have "ucast ?v = (of_nat (number ds) :: u32)" using v by (metis of_nat_unat)
    moreover have "\<not> ?v \<ge> 0x80000000" using v assms(2) by (simp add: word_le_nat_alt)
    ultimately show ?thesis using u assms(2) by (simp add: parse_time_err_def Let_def)
  next
    assume "suffix_us u = Some us"
    from suffix_unit [OF this, of r out] obtain c s p where
      c: "u @ 0 # r = c # s" "c \<noteq> 0" "input_unit c s = Some (Some p)" "unit_table p out us" .
    obtain imult idiv where p: "p = (imult, idiv)" by (cases p)
    obtain im dv om od where red: "reduce_units imult idiv (fst (output_unit out)) (snd (output_unit out)) = (im, dv, om, od)"
      by (metis prod_cases4)
    have "\<not> is_digit c" using c(3) by (auto simp: input_unit_def is_digit_def split: if_splits)
    then have td: "time_digits sg 0 (ds @ c # s) = Some (?v, c # s)"
      using time_digits_eq [OF assms(1), of c 0 sg s] assms(2) by (simp add: number_def)
    let ?q = "(?v * (im * om) + (dv * od - 1)) div (dv * od)"
    let ?n = "(number ds * us + (unit_us out - 1)) div unit_us out"
    have q: "unat ?q = ?n" using time_result [OF c(4) [unfolded p] _ red, of ?v] v assms(2) by simp
    have nz: "?q = 0 \<and> ?v \<noteq> 0 \<longleftrightarrow> False"
    proof -
      have "0 < us" using \<open>suffix_us u = Some us\<close> by (auto simp: suffix_us_def split: if_splits)
      then have "0 < ?n" if "0 < number ds"
      proof -
        have "1 \<le> number ds * us" using that \<open>0 < us\<close> by simp
        then have "unit_us out \<le> number ds * us + (unit_us out - 1)" using pos by linarith
        then show ?thesis using pos by (simp add: div_greater_zero_iff)
      qed
      with q have "?q \<noteq> 0" if "0 < number ds" using that by (metis less_not_refl unsigned_0)
      then show ?thesis by (cases "number ds = 0") auto
    qed
    have "parse_time_err sg (ds @ c # s) out = Some (if ?q \<ge> 0x80000000 then Inl PARSE_TIME_OVER else Inr (ucast ?q))"
      using td c(2,3) red nz p by (simp add: parse_time_err_def case_prod_beta Let_def)
    moreover have "?q \<ge> 0x80000000 \<longleftrightarrow> 2 ^ 31 \<le> ?n" using q by (simp add: word_le_nat_alt)
    moreover have "ucast ?q = (of_nat ?n :: u32)" using q by (metis of_nat_unat)
    ultimately show ?thesis using c(1) by (simp add: Let_def)
  qed
qed

lemma parse_time_exact_witness: "parse_time_err True ([57, 48] @ [109] @ 0 # []) TIME_UNIT_HOUR = Some (Inr 2)"
proof -
  have "list_all is_digit [57, 48]" "number [57, 48] = 90" "suffix_us [109] = Some 60000000"
    by (simp_all add: is_digit_def number_def digit_of_def suffix_us_def)
  from parse_time_exact [OF this(1) _ disjI1 [OF this(3)], of True "[]" TIME_UNIT_HOUR] this(2) show ?thesis
    by (simp add: unit_us_def)
qed

section \<open>Texts that are read differently from what the comments say\<close>

text \<open>\<open>strl2ic\<close> takes every character below the digits as a digit: "1 2" gives -58.\<close>

lemma strl2ic_low_characters: "strl2ic True [49, 32, 50] 3 = Some (- 58)"
  by code_simp

text \<open>\<open>strl2llrc_dotted\<close> has no lower bound for its two numbers: "-1.5" and "1.-1" are accepted, the latter as 1.65535.\<close>

lemma dotted_negative:
  "strl2llrc_dotted True [45, 49, 46, 53] = Some (Some (- 65531))" "strl2llrc_dotted True [49, 46, 45, 49] = Some (Some 131071)"
  by code_simp+

text \<open>
  \<open>parse_time_err\<close> does not notice when the number does not fit 64 bits: 18446744073709551621 seconds are 5.
  A lone \<open>u\<close> counts as seconds, and the text behind the unit is not looked at.
\<close>

lemma parse_time_wraps:
  "parse_time_err True (map of_char ''18446744073709551621s'' @ [0]) TIME_UNIT_S = Some (Inr 5)"
  "parse_time_err True (map of_char ''7u'' @ [0]) TIME_UNIT_S = Some (Inr 7)"
  "parse_time_err True (map of_char ''7seconds'' @ [0]) TIME_UNIT_S = Some (Inr 7)"
  by (simp_all add: parse_time_err_def Let_def udigit_def char_minus_0_def char_val_def input_unit_def output_unit_def
    reduce_units_def reduce_def)

text \<open>
  \<open>lltoa_r\<close> drops the minus sign when it is the first character of the buffer; \<open>ultoa_r\<close> writes before a
  buffer of one byte.
\<close>

lemma lltoa_r_drops_sign: "lltoa_r (- 5) [1, 1, 1] 3 = Some ([1, 53, 0], 1)" "ultoa_r 5 [1] 1 = None"
  by code_simp+

end
