(* ===== verification/Byte_Fifo.thy ===== *)
theory Byte_Fifo
  imports Prelude
begin

text \<open>
  The interface between a byte queue and the code that fills or empties it. A sink accepts
  blocks of bytes at its end or refuses one and stays as it was; a source gives its first bytes
  and forgets them. The clients' loops (feeding a list of blocks, reading until nothing is left)
  are proved here once, over any provider.
\<close>

fun feed :: "('s \<Rightarrow> byte list \<Rightarrow> int \<times> 's) \<Rightarrow> 's \<Rightarrow> byte list list \<Rightarrow> int list \<times> 's" where
  "feed push s [] = ([], s)"
| "feed push s (d # ds) =
     (let (r, s') = push s d; (rs, s'') = feed push s' ds in (r # rs, s''))"

partial_function (option) pull_all ::
  "('s \<Rightarrow> nat \<Rightarrow> (int \<times> byte list \<times> 's) option) \<Rightarrow> nat \<Rightarrow> 's \<Rightarrow> (byte list list \<times> 's) option" where
  "pull_all pull n s =
     Option.bind (pull s n) (\<lambda>(r, d, s').
       if r \<le> 0 then Some ([], s')
       else Option.bind (pull_all pull n s') (\<lambda>(ds, s''). Some (d # ds, s'')))"

text \<open>The blocks of a feed that were accepted.\<close>

definition accepted :: "int list \<Rightarrow> byte list list \<Rightarrow> byte list list" where
  "accepted rs ds = map snd (filter (\<lambda>(r, d). r = 0) (zip rs ds))"

lemma accepted_simps [simp]:
  "accepted [] ds = []" "accepted rs [] = []"
  "accepted (r # rs) (d # ds) = (if r = 0 then [d] else []) @ accepted rs ds"
  by (simp_all add: accepted_def)

lemma accepted_all: "length rs = length ds \<Longrightarrow> \<forall>r \<in> set rs. r = 0 \<Longrightarrow> accepted rs ds = ds"
  by (induction rs ds rule: list_induct2) simp_all

locale byte_sink =
  fixes push :: "'s \<Rightarrow> byte list \<Rightarrow> int \<times> 's"
    and content :: "'s \<Rightarrow> byte list"
    and inv :: "'s \<Rightarrow> bool"
  assumes push_law: "inv s \<Longrightarrow> push s d = (r, s') \<Longrightarrow>
      r = 0 \<and> inv s' \<and> content s' = content s @ d \<or> r = -1 \<and> s' = s"
begin

lemma push_inv: "inv s \<Longrightarrow> inv (snd (push s d))"
  using push_law [of s d "fst (push s d)" "snd (push s d)"] by auto

lemma feed_content:
  "inv s \<Longrightarrow> feed push s ds = (rs, s') \<Longrightarrow>
    inv s' \<and> length rs = length ds \<and> content s' = content s @ concat (accepted rs ds)"
proof (induction ds arbitrary: s rs)
  case (Cons d ds)
  obtain r s1 where p: "push s d = (r, s1)" by fastforce
  obtain rs1 s2 where f: "feed push s1 ds = (rs1, s2)" by fastforce
  from Cons.prems(2) p f have eq: "rs = r # rs1" "s' = s2" by simp_all
  from push_law [OF Cons.prems(1) p] show ?case
  proof
    assume a: "r = 0 \<and> inv s1 \<and> content s1 = content s @ d"
    with Cons.IH [of s1 rs1] f eq show ?thesis by auto
  next
    assume a: "r = -1 \<and> s1 = s"
    with Cons.IH [of s rs1] Cons.prems(1) f eq show ?thesis by auto
  qed
qed simp

end

locale byte_source =
  fixes pull :: "'s \<Rightarrow> nat \<Rightarrow> (int \<times> byte list \<times> 's) option"
    and content :: "'s \<Rightarrow> byte list"
    and inv :: "'s \<Rightarrow> bool"
  assumes pull_law: "inv s \<Longrightarrow> \<exists>s'. pull s n = Some (int (min n (length (content s))), take n (content s), s')
      \<and> inv s' \<and> content s' = drop n (content s)"
begin

text \<open>Reading until nothing is left returns, and gives exactly the content, block by block.\<close>

lemma pull_all_total:
  assumes "inv s" "0 < n"
  shows "\<exists>ds s'. pull_all pull n s = Some (ds, s') \<and> inv s' \<and> content s' = []
    \<and> concat ds = content s \<and> (\<forall>d \<in> set ds. d \<noteq> [] \<and> length d \<le> n)"
  using assms(1)
proof (induction "length (content s)" arbitrary: s rule: less_induct)
  case less
  obtain s' where s': "pull s n = Some (int (min n (length (content s))), take n (content s), s')"
      "inv s'" "content s' = drop n (content s)"
    using pull_law [OF less.prems] by blast
  show ?case
  proof (cases "content s = []")
    case True
    with s' show ?thesis by (subst pull_all.simps) simp
  next
    case False
    then have "length (content s') < length (content s)" using s'(3) assms(2) by simp
    from less.hyps [OF this s'(2)] obtain ds s'' where
      "pull_all pull n s' = Some (ds, s'')" "inv s''" "content s'' = []" "concat ds = content s'"
      "\<forall>d \<in> set ds. d \<noteq> [] \<and> length d \<le> n" by blast
    moreover from this(1) s'(1) False assms(2)
    have "pull_all pull n s = Some (take n (content s) # ds, s'')"
      by (subst pull_all.simps) (simp add: min_def)
    ultimately show ?thesis using s'(3) False assms(2) by simp
  qed
qed

end

locale byte_fifo = byte_sink + byte_source
begin

text \<open>What was pushed comes out, after what was there before, in order.\<close>

lemma push_then_pull_all:
  assumes "inv s" "push s d = (0, s1)" "0 < n"
  shows "\<exists>ds s'. pull_all pull n s1 = Some (ds, s') \<and> concat ds = content s @ d \<and> content s' = []"
proof -
  have "inv s1 \<and> content s1 = content s @ d" using push_law [OF assms(1,2)] by simp
  with pull_all_total [OF _ assms(3), of s1] show ?thesis by metis
qed

end

end
