(* ===== verification/Evbuffer.thy ===== *)
theory Evbuffer
  imports Byte_Fifo
begin

unbundle bit_operations_syntax

text \<open>
  libevent's \<open>struct evbuffer\<close> (\<open>buffer.c\<close>, \<open>evbuffer-internal.h\<close>): a byte queue kept as a
  list of memory chains. The linked list \<open>first .. last\<close> is a list of chain records. The field
  \<open>last_with_datap\<close> of the C structure is the address of the pointer that points at the last
  chain with data: \<open>&buf->first\<close> is index 0 here and \<open>&chain->next\<close> is one more than the index
  of that chain, so \<open>*last_with_datap\<close> is the chain at that index (none: \<open>NULL\<close>). \<open>last\<close> is
  the last element of the list.

  The constants are those of the build recorded in \<open>event-config.h\<close>: 32-bit \<open>size_t\<close> and a
  64-bit \<open>off_t\<close>. Sizes are natural numbers; the code's own overflow checks are kept, and the
  invariant shows that no sum leaves the range of \<open>size_t\<close>. \<open>mm_malloc\<close> is a parameter: for a
  requested size it gives nothing, or the (arbitrary) initial content of the block.
\<close>

definition EV_SIZE_MAX :: nat where "EV_SIZE_MAX = 2 ^ 32 - 1"
definition EVBUFFER_CHAIN_MAX :: nat where "EVBUFFER_CHAIN_MAX = EV_SIZE_MAX"
definition EVBUFFER_CHAIN_SIZE :: nat where "EVBUFFER_CHAIN_SIZE = 32"
definition MIN_BUFFER_SIZE :: nat where "MIN_BUFFER_SIZE = 512"
definition EVBUFFER_CHAIN_MAX_AUTO_SIZE :: nat where "EVBUFFER_CHAIN_MAX_AUTO_SIZE = 4096"
definition MAX_TO_REALIGN_IN_EXPAND :: nat where "MAX_TO_REALIGN_IN_EXPAND = 2048"

lemmas evb_consts = EV_SIZE_MAX_def EVBUFFER_CHAIN_MAX_def EVBUFFER_CHAIN_SIZE_def
  MIN_BUFFER_SIZE_def EVBUFFER_CHAIN_MAX_AUTO_SIZE_def MAX_TO_REALIGN_IN_EXPAND_def

definition EVBUFFER_IMMUTABLE :: u32 where "EVBUFFER_IMMUTABLE = 0x0008"
definition EVBUFFER_MEM_PINNED_R :: u32 where "EVBUFFER_MEM_PINNED_R = 0x0010"
definition EVBUFFER_MEM_PINNED_W :: u32 where "EVBUFFER_MEM_PINNED_W = 0x0020"
definition EVBUFFER_MEM_PINNED_ANY :: u32 where
  "EVBUFFER_MEM_PINNED_ANY = (EVBUFFER_MEM_PINNED_R OR EVBUFFER_MEM_PINNED_W)"
definition EVBUFFER_CB_ENABLED :: u32 where "EVBUFFER_CB_ENABLED = 1"
definition EVBUFFER_CB_NODEFER :: u32 where "EVBUFFER_CB_NODEFER = 2"

section \<open>Data\<close>

record chain =
  cbuf :: "byte list"
  misalign :: nat
  off :: nat
  flags :: u32

record cb_info =
  cb_index :: nat
  orig_size :: nat
  n_added :: nat
  n_deleted :: nat

record evbuffer =
  chains :: "chain list"
  last_with_datap :: nat
  total_len :: nat
  n_add_for_cb :: nat
  n_del_for_cb :: nat
  freeze_start :: bool
  freeze_end :: bool
  deferred_cbs :: bool
  callbacks :: "u32 list"
  cb_log :: "cb_info list"

type_synonym allocator = "nat \<Rightarrow> (nat \<Rightarrow> byte) option"

definition buffer_len :: "chain \<Rightarrow> nat" where
  "buffer_len c = length (cbuf c)"

definition CHAIN_SPACE_LEN :: "chain \<Rightarrow> nat" where
  "CHAIN_SPACE_LEN c = (if flags c AND EVBUFFER_IMMUTABLE \<noteq> 0 then 0
     else buffer_len c - (misalign c + off c))"

definition CHAIN_PINNED :: "chain \<Rightarrow> bool" where
  "CHAIN_PINNED c \<longleftrightarrow> flags c AND EVBUFFER_MEM_PINNED_ANY \<noteq> 0"

definition CHAIN_PINNED_R :: "chain \<Rightarrow> bool" where
  "CHAIN_PINNED_R c \<longleftrightarrow> flags c AND EVBUFFER_MEM_PINNED_R \<noteq> 0"

section \<open>Chains\<close>

text \<open>The doubling loop of \<open>evbuffer_chain_new\<close>: after \<open>k\<close> rounds \<open>to_alloc\<close> is \<open>512 << k\<close>.\<close>

function alloc_grow :: "nat \<Rightarrow> nat \<Rightarrow> nat" where
  "alloc_grow k sz =
     (if MIN_BUFFER_SIZE * 2 ^ k < sz then alloc_grow (Suc k) sz else MIN_BUFFER_SIZE * 2 ^ k)"
  by pat_completeness auto
termination
proof (relation "measure (\<lambda>(k, sz). sz - k)")
  fix k sz :: nat
  assume "MIN_BUFFER_SIZE * 2 ^ k < sz"
  moreover have "k < 2 ^ k" by (rule less_exp)
  moreover have "1 * 2 ^ k \<le> MIN_BUFFER_SIZE * (2 ^ k :: nat)" by (simp add: evb_consts)
  ultimately have "k < sz" by linarith
  then show "((Suc k, sz), (k, sz)) \<in> measure (\<lambda>(k, sz). sz - k)" by simp
qed simp

declare alloc_grow.simps [simp del]

definition evbuffer_chain_new :: "allocator \<Rightarrow> nat \<Rightarrow> chain option" where
  "evbuffer_chain_new mm_malloc sz =
     (if sz > EVBUFFER_CHAIN_MAX - EVBUFFER_CHAIN_SIZE then None
      else let need = sz + EVBUFFER_CHAIN_SIZE;
               to_alloc = (if need < EVBUFFER_CHAIN_MAX div 2 then alloc_grow 0 need else need)
           in case mm_malloc to_alloc of
                None \<Rightarrow> None
              | Some m \<Rightarrow> Some \<lparr>cbuf = map m [EVBUFFER_CHAIN_SIZE..<to_alloc], misalign = 0,
                                off = 0, flags = 0\<rparr>)"

definition evbuffer_chain_align :: "chain \<Rightarrow> chain" where
  "evbuffer_chain_align c =
     c\<lparr>cbuf := memcpy (cbuf c) 0 (mem_read (cbuf c) (misalign c) (off c)), misalign := 0\<rparr>"

definition evbuffer_chain_should_realign :: "chain \<Rightarrow> nat \<Rightarrow> bool" where
  "evbuffer_chain_should_realign c datlen \<longleftrightarrow>
     buffer_len c - off c \<ge> datlen \<and> off c < buffer_len c div 2 \<and> off c \<le> MAX_TO_REALIGN_IN_EXPAND"

text \<open>Storing bytes after, or before, the bytes a chain holds.\<close>

definition chain_append :: "chain \<Rightarrow> byte list \<Rightarrow> chain" where
  "chain_append c data =
     c\<lparr>cbuf := memcpy (cbuf c) (misalign c + off c) data, off := off c + length data\<rparr>"

definition chain_prepend :: "chain \<Rightarrow> byte list \<Rightarrow> chain" where
  "chain_prepend c data =
     c\<lparr>cbuf := memcpy (cbuf c) (misalign c - length data) data, off := off c + length data,
       misalign := misalign c - length data\<rparr>"

section \<open>Buffer management\<close>

definition evbuffer_new :: evbuffer where
  "evbuffer_new = \<lparr>chains = [], last_with_datap = 0, total_len = 0, n_add_for_cb = 0,
     n_del_for_cb = 0, freeze_start = False, freeze_end = False, deferred_cbs = False,
     callbacks = [], cb_log = []\<rparr>"

definition evbuffer_get_length :: "evbuffer \<Rightarrow> nat" where
  "evbuffer_get_length b = total_len b"

definition evbuffer_get_contiguous_space :: "evbuffer \<Rightarrow> nat" where
  "evbuffer_get_contiguous_space b = (case chains b of [] \<Rightarrow> 0 | c # _ \<Rightarrow> off c)"

definition evbuffer_freeze :: "evbuffer \<Rightarrow> bool \<Rightarrow> evbuffer" where
  "evbuffer_freeze b start = (if start then b\<lparr>freeze_start := True\<rparr> else b\<lparr>freeze_end := True\<rparr>)"

definition evbuffer_unfreeze :: "evbuffer \<Rightarrow> bool \<Rightarrow> evbuffer" where
  "evbuffer_unfreeze b start = (if start then b\<lparr>freeze_start := False\<rparr> else b\<lparr>freeze_end := False\<rparr>)"

text \<open>
  Callbacks: the flags of the registered entries are in \<open>callbacks\<close>, and the calls made are
  appended to \<open>cb_log\<close> as (entry, information passed).
\<close>

definition evbuffer_run_callbacks :: "evbuffer \<Rightarrow> bool \<Rightarrow> evbuffer" where
  "evbuffer_run_callbacks b running_deferred =
     (let mask = (if running_deferred \<or> deferred_cbs b then EVBUFFER_CB_NODEFER OR EVBUFFER_CB_ENABLED
                  else EVBUFFER_CB_ENABLED);
          masked_val = (if running_deferred then EVBUFFER_CB_ENABLED
                  else if deferred_cbs b then EVBUFFER_CB_NODEFER OR EVBUFFER_CB_ENABLED
                  else EVBUFFER_CB_ENABLED);
          clear = (running_deferred \<or> \<not> deferred_cbs b)
      in if callbacks b = [] then b\<lparr>n_add_for_cb := 0, n_del_for_cb := 0\<rparr>
         else if n_add_for_cb b = 0 \<and> n_del_for_cb b = 0 then b
         else let info = (\<lambda>i. \<lparr>cb_index = i,
                       orig_size = total_len b + n_del_for_cb b - n_add_for_cb b,
                       n_added = n_add_for_cb b, n_deleted = n_del_for_cb b\<rparr>);
                  called = filter (\<lambda>i. (callbacks b ! i) AND mask = masked_val) [0..<length (callbacks b)];
                  b1 = (if clear then b\<lparr>n_add_for_cb := 0, n_del_for_cb := 0\<rparr> else b)
              in b1\<lparr>cb_log := cb_log b @ map info called\<rparr>)"

definition evbuffer_invoke_callbacks :: "evbuffer \<Rightarrow> evbuffer" where
  "evbuffer_invoke_callbacks b =
     (if callbacks b = [] then b\<lparr>n_add_for_cb := 0, n_del_for_cb := 0\<rparr>
      else evbuffer_run_callbacks b False)"

text \<open>
  \<open>evbuffer_free_trailing_empty_chains\<close>: from \<open>last_with_datap\<close> on, the chains from the first
  empty and unpinned one are freed; the result is the buffer and the index of the pointer where
  a new chain goes.
\<close>

definition evbuffer_free_trailing_empty_chains :: "evbuffer \<Rightarrow> evbuffer \<times> nat" where
  "evbuffer_free_trailing_empty_chains b =
     (let ch = last_with_datap b
             + length (takeWhile (\<lambda>c. off c \<noteq> 0 \<or> CHAIN_PINNED c) (drop (last_with_datap b) (chains b)))
      in (b\<lparr>chains := take ch (chains b)\<rparr>, ch))"

definition evbuffer_chain_insert :: "evbuffer \<Rightarrow> chain \<Rightarrow> evbuffer" where
  "evbuffer_chain_insert b c =
     (let b1 = (if length (chains b) \<le> last_with_datap b then b\<lparr>chains := [c]\<rparr>
                else let (b0, chp) = evbuffer_free_trailing_empty_chains b;
                         b0' = b0\<lparr>chains := chains b0 @ [c]\<rparr>
                     in if off c \<noteq> 0 then b0'\<lparr>last_with_datap := chp\<rparr> else b0')
      in b1\<lparr>total_len := total_len b1 + off c\<rparr>)"

definition HAS_PINNED_R :: "evbuffer \<Rightarrow> bool" where
  "HAS_PINNED_R b \<longleftrightarrow> chains b \<noteq> [] \<and> CHAIN_PINNED_R (last (chains b))"

definition ZERO_CHAIN :: "evbuffer \<Rightarrow> evbuffer" where
  "ZERO_CHAIN b = b\<lparr>chains := [], last_with_datap := 0, total_len := 0\<rparr>"

definition COPY_CHAIN :: "evbuffer \<Rightarrow> evbuffer \<Rightarrow> evbuffer" where
  "COPY_CHAIN dst src = dst\<lparr>chains := chains src, last_with_datap := last_with_datap src,
     total_len := total_len src\<rparr>"

definition APPEND_CHAIN :: "evbuffer \<Rightarrow> evbuffer \<Rightarrow> evbuffer" where
  "APPEND_CHAIN dst src =
     (let (d, chp) = evbuffer_free_trailing_empty_chains dst
      in d\<lparr>chains := chains d @ chains src, last_with_datap := chp + last_with_datap src,
           total_len := total_len d + total_len src\<rparr>)"

definition PREPEND_CHAIN :: "evbuffer \<Rightarrow> evbuffer \<Rightarrow> evbuffer" where
  "PREPEND_CHAIN dst src =
     dst\<lparr>chains := chains src @ chains dst, total_len := total_len dst + total_len src,
         last_with_datap := (if length (chains dst) \<le> last_with_datap dst then last_with_datap src
            else length (chains src) + last_with_datap dst)\<rparr>"


section \<open>Operations on a buffer\<close>

text \<open>
  \<open>evbuffer_add\<close>. The part of the function after the choice of the chain is
  \<open>evbuffer_add_at\<close>: the data goes behind chain \<open>i\<close>, if need be after realigning it or with the
  rest in a new chain.
\<close>

definition evbuffer_count_added :: "evbuffer \<Rightarrow> nat \<Rightarrow> evbuffer" where
  "evbuffer_count_added b n =
     b\<lparr>total_len := total_len b + n, n_add_for_cb := n_add_for_cb b + n\<rparr>"

definition evbuffer_add_alloc_size :: "chain \<Rightarrow> nat \<Rightarrow> nat" where
  "evbuffer_add_alloc_size c datlen =
     (let to_alloc = (if buffer_len c \<le> EVBUFFER_CHAIN_MAX_AUTO_SIZE div 2
                      then 2 * buffer_len c else buffer_len c)
      in if datlen > to_alloc then datlen else to_alloc)"

definition evbuffer_add_at :: "allocator \<Rightarrow> evbuffer \<Rightarrow> nat \<Rightarrow> byte list \<Rightarrow> int \<times> evbuffer" where
  "evbuffer_add_at mm_malloc b i data =
     (let c = chains b ! i;
          mutable = (flags c AND EVBUFFER_IMMUTABLE = 0);
          remain = (if mutable then buffer_len c - misalign c - off c else 0)
      in if mutable \<and> remain \<ge> length data then
           (0, evbuffer_invoke_callbacks (evbuffer_count_added
                 (b\<lparr>chains := (chains b)[i := chain_append c data]\<rparr>) (length data)))
         else if mutable \<and> \<not> CHAIN_PINNED c \<and> evbuffer_chain_should_realign c (length data) then
           (0, evbuffer_invoke_callbacks (evbuffer_count_added
                 (b\<lparr>chains := (chains b)[i := chain_append (evbuffer_chain_align c) data]\<rparr>) (length data)))
         else
           (case evbuffer_chain_new mm_malloc (evbuffer_add_alloc_size c (length data)) of
                None \<Rightarrow> (-1, b)
              | Some tmp \<Rightarrow>
                  let b1 = (if remain \<noteq> 0
                            then evbuffer_count_added
                                   (b\<lparr>chains := (chains b)[i := chain_append c (take remain data)]\<rparr>) remain
                            else b);
                      rest = drop remain data;
                      b2 = evbuffer_chain_insert b1 (chain_append tmp rest)
                  in (0, evbuffer_invoke_callbacks (b2\<lparr>n_add_for_cb := n_add_for_cb b2 + length rest\<rparr>))))"

definition evbuffer_add :: "allocator \<Rightarrow> evbuffer \<Rightarrow> byte list \<Rightarrow> int \<times> evbuffer" where
  "evbuffer_add mm_malloc b data =
     (if freeze_end b then (-1, b)
      else if length data > EV_SIZE_MAX - total_len b then (-1, b)
      else if chains b = [] then
        (case evbuffer_chain_new mm_malloc (length data) of
           None \<Rightarrow> (-1, b)
         | Some c \<Rightarrow> evbuffer_add_at mm_malloc (evbuffer_chain_insert b c) 0 data)
      else evbuffer_add_at mm_malloc b
             (if last_with_datap b < length (chains b) then last_with_datap b
              else length (chains b) - 1) data)"

text \<open>\<open>evbuffer_prepend\<close>; the part after the choice of the first chain is \<open>evbuffer_prepend_at\<close>.\<close>

definition evbuffer_prepend_at :: "allocator \<Rightarrow> evbuffer \<Rightarrow> byte list \<Rightarrow> int \<times> evbuffer" where
  "evbuffer_prepend_at mm_malloc b data =
     (let c0 = hd (chains b);
          mutable = (flags c0 AND EVBUFFER_IMMUTABLE = 0);
          c = (if mutable \<and> off c0 = 0 then c0\<lparr>misalign := buffer_len c0\<rparr> else c0);
          b0 = b\<lparr>chains := c # tl (chains b)\<rparr>
      in if mutable \<and> misalign c \<ge> length data then
           (0, evbuffer_invoke_callbacks (evbuffer_count_added
                 (b0\<lparr>chains := chain_prepend c data # tl (chains b)\<rparr>) (length data)))
         else
           let m = (if mutable then misalign c else 0);
               b1 = (if m \<noteq> 0
                     then evbuffer_count_added
                            (b0\<lparr>chains := chain_prepend c (drop (length data - m) data) # tl (chains b)\<rparr>) m
                     else b0);
               rest = take (length data - m) data
           in case evbuffer_chain_new mm_malloc (length rest) of
                None \<Rightarrow> (-1, b1)
              | Some tmp \<Rightarrow>
                  let t = chain_prepend (tmp\<lparr>misalign := buffer_len tmp\<rparr>) rest
                  in (0, evbuffer_invoke_callbacks (evbuffer_count_added
                        (b1\<lparr>chains := t # chains b1, last_with_datap := Suc (last_with_datap b1)\<rparr>)
                        (length rest))))"

definition evbuffer_prepend :: "allocator \<Rightarrow> evbuffer \<Rightarrow> byte list \<Rightarrow> int \<times> evbuffer" where
  "evbuffer_prepend mm_malloc b data =
     (if freeze_start b then (-1, b)
      else if length data > EV_SIZE_MAX - total_len b then (-1, b)
      else if chains b = [] then
        (case evbuffer_chain_new mm_malloc (length data) of
           None \<Rightarrow> (-1, b)
         | Some c \<Rightarrow> evbuffer_prepend_at mm_malloc (evbuffer_chain_insert b c) data)
      else evbuffer_prepend_at mm_malloc b data)"

text \<open>
  \<open>evbuffer_drain\<close>. The loop of its second branch works on the remaining chains, the index of
  \<open>last_with_datap\<close> relative to them and the bytes still to drain; \<open>None\<close> is a \<open>NULL\<close> chain or a
  failed assertion.
\<close>

fun evbuffer_drain_loop :: "chain list \<Rightarrow> nat \<Rightarrow> nat \<Rightarrow> (chain list \<times> nat \<times> nat) option" where
  "evbuffer_drain_loop [] p remaining = None"
| "evbuffer_drain_loop (c # cs) p remaining =
     (if remaining \<ge> off c then
        (let r = remaining - off c
         in if CHAIN_PINNED_R c then
              (if r \<noteq> 0 then None
               else Some (c\<lparr>misalign := misalign c + off c, off := 0\<rparr> # cs,
                          if p \<le> 1 then 0 else p, r))
            else evbuffer_drain_loop cs (if p \<le> 1 then 0 else p - 1) r)
      else Some (c # cs, p, remaining))"

definition evbuffer_drain :: "evbuffer \<Rightarrow> nat \<Rightarrow> (int \<times> evbuffer) option" where
  "evbuffer_drain b len =
     (if total_len b = 0 then Some (0, b)
      else if freeze_start b then Some (-1, b)
      else if len \<ge> total_len b \<and> \<not> HAS_PINNED_R b then
        (let b1 = ZERO_CHAIN b
         in Some (0, evbuffer_invoke_callbacks (b1\<lparr>n_del_for_cb := n_del_for_cb b + total_len b\<rparr>)))
      else
        (let len' = (if len \<ge> total_len b then total_len b else len)
         in case evbuffer_drain_loop (chains b) (last_with_datap b) len' of
              Some (c # cs, p, remaining) \<Rightarrow>
                if remaining \<le> off c then
                  Some (0, evbuffer_invoke_callbacks
                    (b\<lparr>chains := c\<lparr>misalign := misalign c + remaining, off := off c - remaining\<rparr> # cs,
                       last_with_datap := p, total_len := total_len b - len',
                       n_del_for_cb := n_del_for_cb b + len'\<rparr>))
                else None
            | _ \<Rightarrow> None))"

text \<open>\<open>evbuffer_copyout\<close> from the start of the buffer; \<open>None\<close> is a failed assertion.\<close>

definition chain_bytes :: "chain \<Rightarrow> byte list" where
  "chain_bytes c = mem_read (cbuf c) (misalign c) (off c)"

fun evbuffer_copy_loop :: "chain list \<Rightarrow> nat \<Rightarrow> byte list option" where
  "evbuffer_copy_loop [] datlen = (if datlen = 0 then Some [] else None)"
| "evbuffer_copy_loop (c # cs) datlen =
     (if datlen \<noteq> 0 \<and> datlen \<ge> off c then
        map_option (\<lambda>rest. chain_bytes c @ rest) (evbuffer_copy_loop cs (datlen - off c))
      else Some (mem_read (cbuf c) (misalign c) datlen))"

text \<open>
  The code returns the number of bytes as an \<open>ev_ssize_t\<close>, and \<open>evbuffer_remove\<close> as an \<open>int\<close>. Below \<open>2^31\<close> bytes the
  conversion is the identity, as it is here. From there on the result would be negative, and \<open>evbuffer_remove\<close>
  would copy without draining; with the 32-bit \<open>size_t\<close> of this build that needs \<open>data_out\<close> and the chains to hold
  \<open>2^31\<close> bytes each, which is the whole of the address space.
\<close>

definition evbuffer_copyout :: "evbuffer \<Rightarrow> nat \<Rightarrow> (int \<times> byte list) option" where
  "evbuffer_copyout b datlen =
     (let n = (if datlen > total_len b then total_len b else datlen)
      in if n = 0 then Some (0, [])
         else if freeze_start b then Some (-1, [])
         else map_option (\<lambda>d. (int n, d)) (evbuffer_copy_loop (chains b) n))"

text \<open>\<open>evbuffer_remove\<close>: the return value, the bytes stored at \<open>data_out\<close> and the buffer.\<close>

definition evbuffer_remove :: "evbuffer \<Rightarrow> nat \<Rightarrow> (int \<times> byte list \<times> evbuffer) option" where
  "evbuffer_remove b datlen =
     (case evbuffer_copyout b datlen of
        None \<Rightarrow> None
      | Some (n, d) \<Rightarrow>
          if n > 0 then
            (case evbuffer_drain b (nat n) of
               None \<Rightarrow> None
             | Some (r, b') \<Rightarrow> Some (if r < 0 then -1 else n, d, b'))
          else Some (n, d, b))"

text \<open>
  \<open>evbuffer_add_buffer\<close> and \<open>evbuffer_prepend_buffer\<close> on two different buffers, for buffers
  without read-pinned chains (\<open>PRESERVE_PINNED\<close> then finds nothing to preserve and
  \<open>RESTORE_PINNED\<close> zeroes the source).
\<close>

definition move_buffer :: "(evbuffer \<Rightarrow> evbuffer \<Rightarrow> evbuffer) \<Rightarrow> evbuffer \<Rightarrow> evbuffer \<Rightarrow> evbuffer \<times> evbuffer" where
  "move_buffer link outbuf inbuf =
     (let o1 = (if total_len outbuf = 0 then COPY_CHAIN outbuf inbuf else link outbuf inbuf);
          i1 = ZERO_CHAIN inbuf
      in (evbuffer_invoke_callbacks (o1\<lparr>n_add_for_cb := n_add_for_cb o1 + total_len inbuf\<rparr>),
          evbuffer_invoke_callbacks (i1\<lparr>n_del_for_cb := n_del_for_cb i1 + total_len inbuf\<rparr>)))"

definition evbuffer_add_buffer :: "evbuffer \<Rightarrow> evbuffer \<Rightarrow> int \<times> evbuffer \<times> evbuffer" where
  "evbuffer_add_buffer outbuf inbuf =
     (if total_len inbuf = 0 then (0, outbuf, inbuf)
      else if freeze_end outbuf \<or> freeze_start inbuf then (-1, outbuf, inbuf)
      else (0, move_buffer APPEND_CHAIN outbuf inbuf))"

definition evbuffer_prepend_buffer :: "evbuffer \<Rightarrow> evbuffer \<Rightarrow> int \<times> evbuffer \<times> evbuffer" where
  "evbuffer_prepend_buffer outbuf inbuf =
     (if total_len inbuf = 0 then (0, outbuf, inbuf)
      else if freeze_start outbuf \<or> freeze_start inbuf then (-1, outbuf, inbuf)
      else (0, move_buffer PREPEND_CHAIN outbuf inbuf))"


section \<open>Invariant and abstraction\<close>

text \<open>
  A buffer stands for the bytes of its chains in order. The invariant is the one the comments of
  \<open>evbuffer-internal.h\<close> state: the data of a chain lies inside its block, \<open>total_len\<close> counts all
  bytes, and \<open>last_with_datap\<close> points at the last chain with data, or at the first chain if there
  is none. Read-pinned chains exist only while an IOCP read is in progress on Windows.
\<close>

definition evb_bytes :: "evbuffer \<Rightarrow> byte list" where
  "evb_bytes b = concat (map chain_bytes (chains b))"

definition chain_ok :: "chain \<Rightarrow> bool" where
  "chain_ok c \<longleftrightarrow> misalign c + off c \<le> buffer_len c \<and> 0 < buffer_len c \<and> \<not> CHAIN_PINNED_R c"

definition lwd_ok :: "chain list \<Rightarrow> nat \<Rightarrow> bool" where
  "lwd_ok cs p \<longleftrightarrow> (if cs = [] then p = 0
     else p < length cs \<and> (\<forall>c \<in> set (drop (Suc p) cs). off c = 0) \<and> (p = 0 \<or> off (cs ! p) \<noteq> 0))"

definition evb_inv :: "evbuffer \<Rightarrow> bool" where
  "evb_inv b \<longleftrightarrow> (\<forall>c \<in> set (chains b). chain_ok c) \<and> lwd_ok (chains b) (last_with_datap b)
     \<and> total_len b = length (evb_bytes b) \<and> total_len b \<le> EV_SIZE_MAX"

lemma length_chain_bytes [simp]: "chain_ok c \<Longrightarrow> length (chain_bytes c) = off c"
  by (simp add: chain_ok_def chain_bytes_def buffer_len_def)

lemma chain_bytes_empty: "off c = 0 \<Longrightarrow> chain_bytes c = []"
  by (simp add: chain_bytes_def)

lemma bytes_all_empty: "\<forall>c \<in> set cs. off c = 0 \<Longrightarrow> concat (map chain_bytes cs) = []"
  by (simp add: chain_bytes_empty)

subsection \<open>Chains\<close>

lemma alloc_grow_ge: "sz \<le> alloc_grow k sz \<and> MIN_BUFFER_SIZE \<le> alloc_grow k sz"
proof (induction k sz rule: alloc_grow.induct)
  case (1 k sz)
  then show ?case by (subst (1 2) alloc_grow.simps) auto
qed

lemma chain_new_SomeD:
  assumes "evbuffer_chain_new mm n = Some c"
  shows "off c = 0" "misalign c = 0" "flags c = 0" "n \<le> buffer_len c" "0 < buffer_len c" "chain_ok c"
proof -
  let ?a = "if n + EVBUFFER_CHAIN_SIZE < EVBUFFER_CHAIN_MAX div 2
    then alloc_grow 0 (n + EVBUFFER_CHAIN_SIZE) else n + EVBUFFER_CHAIN_SIZE"
  from assms obtain m where c: "c = \<lparr>cbuf = map m [EVBUFFER_CHAIN_SIZE..<?a], misalign = 0, off = 0, flags = 0\<rparr>"
    by (auto simp: evbuffer_chain_new_def Let_def split: if_splits option.splits)
  then show "off c = 0" "misalign c = 0" "flags c = 0" by simp_all
  show "n \<le> buffer_len c" "0 < buffer_len c"
    using alloc_grow_ge [of "n + EVBUFFER_CHAIN_SIZE" 0]
    by (auto simp: c buffer_len_def evb_consts)
  with c show "chain_ok c" by (simp add: chain_ok_def CHAIN_PINNED_R_def)
qed

lemma chain_new_fails_on_huge: "EVBUFFER_CHAIN_MAX - EVBUFFER_CHAIN_SIZE < n \<Longrightarrow> evbuffer_chain_new mm n = None"
  by (simp add: evbuffer_chain_new_def)

lemma chain_append_sel [simp]:
  "off (chain_append c d) = off c + length d" "misalign (chain_append c d) = misalign c"
  "flags (chain_append c d) = flags c"
  by (simp_all add: chain_append_def)

lemma chain_prepend_sel [simp]:
  "off (chain_prepend c d) = off c + length d" "misalign (chain_prepend c d) = misalign c - length d"
  "flags (chain_prepend c d) = flags c"
  by (simp_all add: chain_prepend_def)

lemma pinned_flags:
  "flags c' = flags c \<Longrightarrow> CHAIN_PINNED_R c' = CHAIN_PINNED_R c"
  by (simp add: CHAIN_PINNED_R_def)

lemma chain_append_ok:
  assumes "chain_ok c" "misalign c + off c + length d \<le> buffer_len c"
  shows "chain_ok (chain_append c d)" "chain_bytes (chain_append c d) = chain_bytes c @ d"
    "buffer_len (chain_append c d) = buffer_len c"
  using assms
  by (auto simp: chain_ok_def chain_bytes_def chain_append_def buffer_len_def CHAIN_PINNED_R_def
      mem_read_memcpy_end)

lemma chain_prepend_ok:
  assumes "chain_ok c" "length d \<le> misalign c"
  shows "chain_ok (chain_prepend c d)" "chain_bytes (chain_prepend c d) = d @ chain_bytes c"
    "buffer_len (chain_prepend c d) = buffer_len c"
proof -
  have "misalign c - length d + length d \<le> length (cbuf c)"
    using assms by (simp add: chain_ok_def buffer_len_def)
  from mem_read_memcpy_front [OF this, of "off c"] assms(2)
  show "chain_bytes (chain_prepend c d) = d @ chain_bytes c"
    by (simp add: chain_bytes_def chain_prepend_def add.commute)
  show "chain_ok (chain_prepend c d)" "buffer_len (chain_prepend c d) = buffer_len c"
    using assms by (auto simp: chain_ok_def chain_prepend_def buffer_len_def CHAIN_PINNED_R_def)
qed

lemma chain_align_ok:
  assumes "chain_ok c"
  shows "chain_ok (evbuffer_chain_align c)" "chain_bytes (evbuffer_chain_align c) = chain_bytes c"
    "buffer_len (evbuffer_chain_align c) = buffer_len c" "off (evbuffer_chain_align c) = off c"
    "misalign (evbuffer_chain_align c) = 0" "flags (evbuffer_chain_align c) = flags c"
proof -
  let ?d = "mem_read (cbuf c) (misalign c) (off c)"
  have len: "length ?d = off c" "0 + length ?d \<le> length (cbuf c)"
    using assms by (simp_all add: chain_ok_def buffer_len_def)
  show "chain_bytes (evbuffer_chain_align c) = chain_bytes c"
    using mem_read_memcpy_same [OF len(2)] len(1) by (simp add: evbuffer_chain_align_def chain_bytes_def)
  show sel: "buffer_len (evbuffer_chain_align c) = buffer_len c" "off (evbuffer_chain_align c) = off c"
    "misalign (evbuffer_chain_align c) = 0" "flags (evbuffer_chain_align c) = flags c"
    using length_memcpy [OF len(2)] by (simp_all add: evbuffer_chain_align_def buffer_len_def)
  show "chain_ok (evbuffer_chain_align c)"
    using assms sel pinned_flags [OF sel(4)] by (simp add: chain_ok_def)
qed

subsection \<open>Callbacks do not touch the bytes\<close>

lemma invoke_callbacks_sel [simp]:
  "chains (evbuffer_invoke_callbacks b) = chains b"
  "last_with_datap (evbuffer_invoke_callbacks b) = last_with_datap b"
  "total_len (evbuffer_invoke_callbacks b) = total_len b"
  "freeze_start (evbuffer_invoke_callbacks b) = freeze_start b"
  "freeze_end (evbuffer_invoke_callbacks b) = freeze_end b"
  "callbacks (evbuffer_invoke_callbacks b) = callbacks b"
  by (simp_all add: evbuffer_invoke_callbacks_def evbuffer_run_callbacks_def Let_def)

lemma evb_bytes_cong [simp]:
  "evb_bytes (evbuffer_invoke_callbacks b) = evb_bytes b"
  "evb_bytes (evbuffer_count_added b n) = evb_bytes b"
  by (simp_all add: evb_bytes_def evbuffer_count_added_def)

lemma count_added_sel [simp]:
  "chains (evbuffer_count_added b n) = chains b"
  "last_with_datap (evbuffer_count_added b n) = last_with_datap b"
  "total_len (evbuffer_count_added b n) = total_len b + n"
  "freeze_start (evbuffer_count_added b n) = freeze_start b"
  "freeze_end (evbuffer_count_added b n) = freeze_end b"
  by (simp_all add: evbuffer_count_added_def)

lemma evb_inv_invoke [simp]: "evb_inv (evbuffer_invoke_callbacks b) \<longleftrightarrow> evb_inv b"
  by (simp add: evb_inv_def)

lemma evb_inv_cong:
  assumes "chains b' = chains b" "last_with_datap b' = last_with_datap b" "total_len b' = total_len b"
  shows "evb_inv b' \<longleftrightarrow> evb_inv b" "evb_bytes b' = evb_bytes b"
  using assms by (simp_all add: evb_inv_def evb_bytes_def)

lemma evb_new_inv [simp]: "evb_inv evbuffer_new" "evb_bytes evbuffer_new = []"
  by (simp_all add: evb_inv_def evbuffer_new_def evb_bytes_def lwd_ok_def)


subsection \<open>Appending\<close>

lemma bytes_update:
  "i < length cs \<Longrightarrow> concat (map chain_bytes (cs[i := c]))
     = concat (map chain_bytes (take i cs)) @ chain_bytes c @ concat (map chain_bytes (drop (Suc i) cs))"
  by (simp add: upd_conv_take_nth_drop)

lemma bytes_split:
  "i < length cs \<Longrightarrow> concat (map chain_bytes cs)
     = concat (map chain_bytes (take i cs)) @ chain_bytes (cs ! i) @ concat (map chain_bytes (drop (Suc i) cs))"
  using bytes_update [of i cs "cs ! i"] by simp

lemma lwd_okD:
  assumes "lwd_ok cs p" "cs \<noteq> []"
  shows "p < length cs" "\<forall>c \<in> set (drop (Suc p) cs). off c = 0" "p \<noteq> 0 \<Longrightarrow> off (cs ! p) \<noteq> 0"
  using assms by (auto simp: lwd_ok_def)

text \<open>Growing the last chain with data appends to the buffer.\<close>

lemma grow_last_chain:
  assumes inv: "evb_inv b" and ne: "chains b \<noteq> []"
    and c': "chain_ok c'" "chain_bytes c' = chain_bytes (chains b ! last_with_datap b) @ d"
    and fits: "total_len b + length d \<le> EV_SIZE_MAX"
    and b': "chains b' = (chains b)[last_with_datap b := c']" "last_with_datap b' = last_with_datap b"
      "total_len b' = total_len b + length d"
  shows "evb_inv b' \<and> evb_bytes b' = evb_bytes b @ d"
proof -
  let ?p = "last_with_datap b" and ?cs = "chains b"
  have ok: "lwd_ok ?cs ?p" "\<forall>c \<in> set ?cs. chain_ok c" using inv by (simp_all add: evb_inv_def)
  note lwd = lwd_okD [OF ok(1) ne]
  note p = lwd(1)
  have empty: "concat (map chain_bytes (drop (Suc ?p) ?cs)) = []"
    by (rule bytes_all_empty) (rule lwd(2))
  have bytes: "evb_bytes b' = evb_bytes b @ d"
    using bytes_update [OF p, of c'] bytes_split [OF p] empty c'(2) b'(1) by (simp add: evb_bytes_def)
  have "off c' = length (chain_bytes c')" using c'(1) by simp
  also have "\<dots> = off (?cs ! ?p) + length d" using c'(2) ok(2) p by simp
  finally have "off c' \<noteq> 0 \<or> ?p = 0" using lwd ok ne by auto
  then have "lwd_ok (chains b') (last_with_datap b')"
    using lwd ok ne p b' by (auto simp: lwd_ok_def)
  moreover have "\<forall>c \<in> set (chains b'). chain_ok c"
    using ok(2) c'(1) b'(1) set_update_subset_insert [of ?cs ?p c'] by auto
  ultimately show ?thesis
    using inv bytes b' fits by (simp add: evb_inv_def)
qed

lemma free_trailing:
  assumes inv: "evb_inv b" and ne: "chains b \<noteq> []"
    and eq: "evbuffer_free_trailing_empty_chains b = (b0, ch)"
  shows "b0 = b\<lparr>chains := take ch (chains b)\<rparr>" "last_with_datap b \<le> ch" "ch \<le> length (chains b)"
    "evb_bytes b0 = evb_bytes b" "ch = last_with_datap b \<Longrightarrow> ch = 0"
proof -
  let ?p = "last_with_datap b" and ?cs = "chains b"
  let ?Q = "\<lambda>c. off c \<noteq> 0 \<or> CHAIN_PINNED c"
  have ok: "lwd_ok ?cs ?p" using inv by (simp add: evb_inv_def)
  note lwd = lwd_okD [OF ok ne]
  have ch: "ch = ?p + length (takeWhile ?Q (drop ?p ?cs))"
    and b0: "b0 = b\<lparr>chains := take ch ?cs\<rparr>"
    using eq by (auto simp: evbuffer_free_trailing_empty_chains_def Let_def)
  show "b0 = b\<lparr>chains := take ch ?cs\<rparr>" by (fact b0)
  show le: "?p \<le> ch" "ch \<le> length ?cs"
    using takeWhile_dropWhile_pos [of ?p ?cs ?Q] lwd(1) by (simp_all add: ch)
  have first: "ch = ?p \<Longrightarrow> off (?cs ! ?p) = 0"
    using lwd(1) by (auto simp: ch Cons_nth_drop_Suc [symmetric] split: if_splits)
  then show "ch = ?p \<Longrightarrow> ch = 0" using lwd(3) by auto
  have "\<forall>c \<in> set (drop ch ?cs). off c = 0"
  proof (cases "ch = ?p")
    case True
    then show ?thesis using first lwd by (auto simp: Cons_nth_drop_Suc [symmetric])
  next
    case False
    then have "set (drop ch ?cs) \<subseteq> set (drop (Suc ?p) ?cs)"
      using le by (intro set_drop_subset_set_drop) simp
    then show ?thesis using lwd(2) by auto
  qed
  then have "concat (map chain_bytes (drop ch ?cs)) = []" by (rule bytes_all_empty)
  moreover have "concat (map chain_bytes ?cs)
      = concat (map chain_bytes (take ch ?cs)) @ concat (map chain_bytes (drop ch ?cs))"
    by (metis append_take_drop_id concat_append map_append)
  ultimately show "evb_bytes b0 = evb_bytes b" by (simp add: evb_bytes_def b0)
qed

lemma chain_insert:
  assumes inv: "evb_inv b" and c: "chain_ok c" and fits: "total_len b + off c \<le> EV_SIZE_MAX"
  shows "evb_inv (evbuffer_chain_insert b c) \<and> evb_bytes (evbuffer_chain_insert b c) = evb_bytes b @ chain_bytes c"
proof (cases "chains b = []")
  case True
  then show ?thesis
    using inv c fits
    by (auto simp: evbuffer_chain_insert_def evb_inv_def lwd_ok_def evb_bytes_def)
next
  case False
  let ?p = "last_with_datap b" and ?cs = "chains b"
  have ok: "lwd_ok ?cs ?p" "\<forall>c \<in> set ?cs. chain_ok c" using inv by (simp_all add: evb_inv_def)
  note lwd = lwd_okD [OF ok(1) False]
  obtain b0 ch where eq: "evbuffer_free_trailing_empty_chains b = (b0, ch)" by fastforce
  note ft = free_trailing [OF inv False eq]
  let ?b' = "evbuffer_chain_insert b c"
  have b': "chains ?b' = take ch ?cs @ [c]"
    "last_with_datap ?b' = (if off c \<noteq> 0 then ch else ?p)" "total_len ?b' = total_len b + off c"
    using lwd(1) eq ft(1) by (simp_all add: evbuffer_chain_insert_def Let_def)
  have bytes: "evb_bytes ?b' = evb_bytes b @ chain_bytes c"
    using ft(1,4) b'(1) by (simp add: evb_bytes_def)
  have "lwd_ok (chains ?b') (last_with_datap ?b')"
  proof (cases "off c = 0")
    case True
    have "off x = 0" if "x \<in> set (drop (Suc ?p) (take ch ?cs @ [c]))" for x
    proof -
      from that have "x \<in> set (drop (Suc ?p) (take ch ?cs)) \<or> x = c"
        by (rule in_set_drop_snoc)
      then have "x \<in> set (drop (Suc ?p) ?cs) \<or> x = c"
        by (auto simp: drop_take dest: in_set_takeD)
      then show ?thesis using lwd(2) True by auto
    qed
    then have "\<forall>x \<in> set (drop (Suc ?p) (take ch ?cs @ [c])). off x = 0" by blast
    moreover have "?p = 0 \<or> off ((take ch ?cs @ [c]) ! ?p) \<noteq> 0"
      using ft(2,3,5) lwd(3) by (cases "?p = 0"; cases "ch = ?p") (auto simp: nth_append)
    ultimately show ?thesis using b' True ft(2,3) by (simp add: lwd_ok_def)
  qed (use b' ft(3) in \<open>simp add: lwd_ok_def nth_append\<close>)
  moreover have "\<forall>x \<in> set (chains ?b'). chain_ok x"
    using ok(2) c b'(1) by (auto dest: in_set_takeD)
  ultimately show ?thesis
    using inv bytes b' fits c by (simp add: evb_inv_def)
qed


lemma chains_insert_nonempty: "chains (evbuffer_chain_insert b c) \<noteq> []"
  by (auto simp: evbuffer_chain_insert_def Let_def split: prod.splits)

lemma evb_inv_chain_ok: "evb_inv b \<Longrightarrow> c \<in> set (chains b) \<Longrightarrow> chain_ok c"
  by (simp add: evb_inv_def)

text \<open>
  The three ways \<open>evbuffer_add_at\<close> ends: the chain grows in place, no memory for a new chain, or
  the chain takes a first part of the data and a new chain the rest.
\<close>

lemma add_at_cases [consumes 1, case_names grown no_memory split]:
  assumes c: "chain_ok (chains b ! i)"
  obtains (grown) c' where "evbuffer_add_at mm b i data = (0, evbuffer_invoke_callbacks
        (evbuffer_count_added (b\<lparr>chains := (chains b)[i := c']\<rparr>) (length data)))"
      "chain_ok c'" "chain_bytes c' = chain_bytes (chains b ! i) @ data" "buffer_len c' = buffer_len (chains b ! i)"
  | (no_memory) "evbuffer_add_at mm b i data = (-1, b)"
      "evbuffer_chain_new mm (evbuffer_add_alloc_size (chains b ! i) (length data)) = None"
  | (split) tmp rm c' b1 where
      "evbuffer_chain_new mm (evbuffer_add_alloc_size (chains b ! i) (length data)) = Some tmp"
      "rm \<le> length data" "length data \<le> buffer_len tmp"
      "chain_ok c'" "chain_bytes c' = chain_bytes (chains b ! i) @ take rm data" "buffer_len c' = buffer_len (chains b ! i)"
      "b1 = (if rm \<noteq> 0 then evbuffer_count_added (b\<lparr>chains := (chains b)[i := c']\<rparr>) rm else b)"
      "evbuffer_add_at mm b i data = (0, evbuffer_invoke_callbacks
         ((evbuffer_chain_insert b1 (chain_append tmp (drop rm data)))\<lparr>n_add_for_cb :=
            n_add_for_cb (evbuffer_chain_insert b1 (chain_append tmp (drop rm data))) + length (drop rm data)\<rparr>))"
proof -
  let ?c = "chains b ! i"
  let ?mut = "flags ?c AND EVBUFFER_IMMUTABLE = 0"
  let ?rem = "if ?mut then buffer_len ?c - misalign ?c - off ?c else 0"
  consider (direct) "?mut" "?rem \<ge> length data"
    | (realign) "?mut" "\<not> ?rem \<ge> length data" "\<not> CHAIN_PINNED ?c" "evbuffer_chain_should_realign ?c (length data)"
    | (new) "\<not> (?mut \<and> ?rem \<ge> length data)"
        "\<not> (?mut \<and> \<not> CHAIN_PINNED ?c \<and> evbuffer_chain_should_realign ?c (length data))"
    by blast
  then show ?thesis
  proof cases
    case direct
    then have room: "misalign ?c + off ?c + length data \<le> buffer_len ?c"
      using c by (auto simp: chain_ok_def)
    from direct have eq: "evbuffer_add_at mm b i data = (0, evbuffer_invoke_callbacks (evbuffer_count_added
        (b\<lparr>chains := (chains b)[i := chain_append ?c data]\<rparr>) (length data)))"
      by (simp add: evbuffer_add_at_def Let_def)
    show ?thesis by (rule grown [OF eq]) (simp_all add: chain_append_ok [OF c room])
  next
    case realign
    let ?a = "evbuffer_chain_align ?c"
    have room: "misalign ?a + off ?a + length data \<le> buffer_len ?a"
      using realign(4) c chain_align_ok [OF c]
      by (auto simp: evbuffer_chain_should_realign_def chain_ok_def)
    note a = chain_append_ok [OF chain_align_ok(1) [OF c] room]
    from realign have eq: "evbuffer_add_at mm b i data = (0, evbuffer_invoke_callbacks (evbuffer_count_added
        (b\<lparr>chains := (chains b)[i := chain_append ?a data]\<rparr>) (length data)))"
      by (simp add: evbuffer_add_at_def Let_def)
    show ?thesis by (rule grown [OF eq]) (simp_all add: a chain_align_ok(2,3) [OF c])
  next
    case new
    define rm where "rm = ?rem"
    have rm: "rm < length data \<or> rm = 0"
      using new(1) unfolding rm_def by (cases ?mut) auto
    show ?thesis
    proof (cases "evbuffer_chain_new mm (evbuffer_add_alloc_size ?c (length data))")
      case None
      have "evbuffer_add_at mm b i data = (-1, b)"
        unfolding evbuffer_add_at_def Let_def
        using None new by (simp only: if_False option.case)
      with None show ?thesis by (rule no_memory [rotated])
    next
      case (Some tmp)
      let ?c' = "chain_append ?c (take rm data)"
      define b1 where "b1 = (if rm \<noteq> 0 then evbuffer_count_added (b\<lparr>chains := (chains b)[i := ?c']\<rparr>) rm else b)"
      have eq: "evbuffer_add_at mm b i data = (0, evbuffer_invoke_callbacks
          ((evbuffer_chain_insert b1 (chain_append tmp (drop rm data)))\<lparr>n_add_for_cb :=
             n_add_for_cb (evbuffer_chain_insert b1 (chain_append tmp (drop rm data))) + length (drop rm data)\<rparr>))"
        unfolding evbuffer_add_at_def Let_def rm_def [symmetric] b1_def [symmetric]
        using Some new by (simp only: if_False option.case rm_def)
      have "length data \<le> evbuffer_add_alloc_size ?c (length data)"
        by (simp add: evbuffer_add_alloc_size_def Let_def)
      then have "length data \<le> buffer_len tmp" using chain_new_SomeD(4) [OF Some] by simp
      moreover have "misalign ?c + off ?c + length (take rm data) \<le> buffer_len ?c"
        using c rm by (auto simp: rm_def chain_ok_def split: if_splits)
      note chain_append_ok [OF c this]
      ultimately show ?thesis using split [OF Some _ _ _ _ _ b1_def eq] rm by auto
    qed
  qed
qed

lemma evbuffer_add_at_spec:
  assumes inv: "evb_inv b" and ne: "chains b \<noteq> []"
    and fits: "total_len b + length data \<le> EV_SIZE_MAX"
    and eq: "evbuffer_add_at mm b (last_with_datap b) data = (r, b')"
  shows "r = 0 \<and> evb_inv b' \<and> evb_bytes b' = evb_bytes b @ data \<or> r = -1 \<and> b' = b"
proof -
  let ?p = "last_with_datap b"
  have "lwd_ok (chains b) ?p" using inv by (simp add: evb_inv_def)
  then have p: "?p < length (chains b)" using ne by (rule lwd_okD(1))
  then have c: "chain_ok (chains b ! ?p)" using inv by (simp add: evb_inv_chain_ok)
  from c show ?thesis
  proof (cases rule: add_at_cases [where mm = mm and data = data])
    case (grown c')
    with eq have b': "r = 0" "b' = evbuffer_invoke_callbacks
        (evbuffer_count_added (b\<lparr>chains := (chains b)[?p := c']\<rparr>) (length data))" by simp_all
    have "evb_inv b' \<and> evb_bytes b' = evb_bytes b @ data"
      by (rule grow_last_chain [OF inv ne grown(2,3) fits]) (simp_all add: b')
    with b'(1) show ?thesis by simp
  next
    case no_memory
    with eq show ?thesis by simp
  next
    case (split tmp rm c' b1)
    note tmp = chain_new_SomeD [OF split(1)]
    have b1: "evb_inv b1 \<and> evb_bytes b1 = evb_bytes b @ take rm data \<and> total_len b1 = total_len b + rm"
    proof (cases "rm = 0")
      case False
      have "evb_inv b1 \<and> evb_bytes b1 = evb_bytes b @ take rm data"
        by (rule grow_last_chain [OF inv ne split(4,5)]) (use fits split(2,7) False in simp_all)
      then show ?thesis using False split(7) by simp
    qed (simp add: split(7) inv)
    have room: "misalign tmp + off tmp + length (drop rm data) \<le> buffer_len tmp"
      using tmp split(3) by simp
    note t = chain_append_ok(1,2) [OF tmp(6) room]
    let ?b2 = "evbuffer_chain_insert b1 (chain_append tmp (drop rm data))"
    have "evb_inv ?b2 \<and> evb_bytes ?b2 = evb_bytes b1 @ chain_bytes (chain_append tmp (drop rm data))"
      by (rule chain_insert) (use b1 t tmp fits split(2) in auto)
    then have b2: "evb_inv ?b2" "evb_bytes ?b2 = evb_bytes b @ data"
      using b1 t tmp by (simp_all add: chain_bytes_empty)
    from eq split(8) have "r = 0" and b': "b' = evbuffer_invoke_callbacks
        (?b2\<lparr>n_add_for_cb := n_add_for_cb ?b2 + length (drop rm data)\<rparr>)" by simp_all
    moreover have "evb_inv b' \<and> evb_bytes b' = evb_bytes b @ data"
      using b2 evb_inv_cong [of b' ?b2] unfolding b' by simp
    ultimately show ?thesis by simp
  qed
qed

lemma evbuffer_add_spec:
  assumes inv: "evb_inv b" and eq: "evbuffer_add mm b data = (r, b')"
  shows "r = 0 \<and> \<not> freeze_end b \<and> evb_inv b' \<and> evb_bytes b' = evb_bytes b @ data \<or> r = -1 \<and> b' = b"
proof (cases "freeze_end b \<or> length data > EV_SIZE_MAX - total_len b")
  case True
  with eq show ?thesis by (auto simp: evbuffer_add_def split: if_splits)
next
  case False
  then have fits: "total_len b + length data \<le> EV_SIZE_MAX" using inv by (auto simp: evb_inv_def)
  show ?thesis
  proof (cases "chains b = []")
    case empty: True
    show ?thesis
    proof (cases "evbuffer_chain_new mm (length data)")
      case None
      with eq False empty show ?thesis by (simp add: evbuffer_add_def)
    next
      case (Some c)
      note c = chain_new_SomeD [OF Some]
      let ?b1 = "evbuffer_chain_insert b c"
      have b1: "evb_inv ?b1" "evb_bytes ?b1 = evb_bytes b" "total_len ?b1 = total_len b" "?b1 = b\<lparr>chains := [c]\<rparr>"
        using chain_insert [OF inv c(6)] fits c(1) empty inv
        by (auto simp: chain_bytes_empty evbuffer_chain_insert_def evb_inv_def lwd_ok_def)
      have 0: "last_with_datap ?b1 = 0" using b1(4) empty inv by (simp add: evb_inv_def lwd_ok_def)
      have eq1: "evbuffer_add_at mm ?b1 0 data = (r, b')"
        using eq False empty Some by (simp add: evbuffer_add_def)
      have "r = 0 \<and> evb_inv b' \<and> evb_bytes b' = evb_bytes ?b1 @ data \<or> r = -1 \<and> b' = ?b1"
        using evbuffer_add_at_spec [OF b1(1) chains_insert_nonempty, of data mm r b'] eq1 fits b1(3) 0 by simp
      moreover have "fst (evbuffer_add_at mm ?b1 0 data) = 0"
        using b1(4) c by (simp add: evbuffer_add_at_def)
      ultimately show ?thesis using b1(2) eq1 False by auto
    qed
  next
    case ne: False
    have "last_with_datap b < length (chains b)"
      using inv ne by (simp add: evb_inv_def lwd_ok_def)
    then have "evbuffer_add_at mm b (last_with_datap b) data = (r, b')"
      using eq False ne by (simp add: evbuffer_add_def)
    from evbuffer_add_at_spec [OF inv ne fits this] False show ?thesis by auto
  qed
qed

text \<open>When appending must succeed.\<close>

definition alloc_ok :: "allocator \<Rightarrow> bool" where
  "alloc_ok mm \<longleftrightarrow> (\<forall>n. mm n \<noteq> None)"

lemma chain_new_alloc_ok:
  "alloc_ok mm \<Longrightarrow> n \<le> EVBUFFER_CHAIN_MAX - EVBUFFER_CHAIN_SIZE \<Longrightarrow> evbuffer_chain_new mm n \<noteq> None"
proof -
  assume mm: "alloc_ok mm" and n: "n \<le> EVBUFFER_CHAIN_MAX - EVBUFFER_CHAIN_SIZE"
  let ?a = "if n + EVBUFFER_CHAIN_SIZE < EVBUFFER_CHAIN_MAX div 2
    then alloc_grow 0 (n + EVBUFFER_CHAIN_SIZE) else n + EVBUFFER_CHAIN_SIZE"
  obtain m where "mm ?a = Some m" using mm unfolding alloc_ok_def by blast
  with n show ?thesis by (simp add: evbuffer_chain_new_def Let_def)
qed

lemma evbuffer_add_succeeds:
  assumes inv: "evb_inv b" and mm: "alloc_ok mm" and nf: "\<not> freeze_end b"
    and small: "total_len b + length data \<le> EV_SIZE_MAX" "length data \<le> EVBUFFER_CHAIN_MAX - EVBUFFER_CHAIN_SIZE"
    and blocks: "\<forall>c \<in> set (chains b). buffer_len c \<le> EVBUFFER_CHAIN_MAX - EVBUFFER_CHAIN_SIZE"
  shows "fst (evbuffer_add mm b data) = 0"
proof (cases "chains b = []")
  case True
  obtain c where c: "evbuffer_chain_new mm (length data) = Some c"
    using chain_new_alloc_ok [OF mm small(2)] by blast
  then have "fst (evbuffer_add_at mm (evbuffer_chain_insert b c) 0 data) = 0"
    using chain_new_SomeD [OF c] True by (simp add: evbuffer_add_at_def evbuffer_chain_insert_def)
  with c True nf small(1) show ?thesis by (simp add: evbuffer_add_def)
next
  case False
  let ?c = "chains b ! last_with_datap b"
  have p: "last_with_datap b < length (chains b)"
    using inv False by (simp add: evb_inv_def lwd_ok_def)
  then have "buffer_len ?c \<le> EVBUFFER_CHAIN_MAX - EVBUFFER_CHAIN_SIZE" using blocks by simp
  then have new: "evbuffer_chain_new mm (evbuffer_add_alloc_size ?c (length data)) \<noteq> None"
    using small(2) by (intro chain_new_alloc_ok mm) (auto simp: evb_consts evbuffer_add_alloc_size_def Let_def)
  have "fst (evbuffer_add_at mm b (last_with_datap b) data) = 0"
    using new by (auto simp: evbuffer_add_at_def Let_def)
  with p False nf small(1) show ?thesis by (simp add: evbuffer_add_def)
qed

subsection \<open>Draining and copying out\<close>

lemma drop_bytes_Cons:
  "chain_ok c \<Longrightarrow> drop n (chain_bytes c @ xs) = drop n (chain_bytes c) @ drop (n - off c) xs"
  by simp

lemma lwd_ok_tl: "lwd_ok (c # cs) p \<Longrightarrow> \<exists>d \<in> set cs. off d \<noteq> 0 \<Longrightarrow> lwd_ok cs (if p \<le> 1 then 0 else p - 1)"
  by (cases p) (auto simp: lwd_ok_def Cons_nth_drop_Suc [symmetric] nth_Cons' split: if_splits)

lemma drain_loop:
  assumes "\<forall>c \<in> set cs. chain_ok c" "lwd_ok cs p" "r < length (concat (map chain_bytes cs))"
  shows "\<exists>c cs' p' r'. evbuffer_drain_loop cs p r = Some (c # cs', p', r') \<and> r' < off c
    \<and> drop r (concat (map chain_bytes cs)) = drop r' (chain_bytes c) @ concat (map chain_bytes cs')
    \<and> lwd_ok (c # cs') p' \<and> set (c # cs') \<subseteq> set cs"
  using assms
proof (induction cs arbitrary: p r)
  case (Cons c cs)
  then have ok: "chain_ok c" and np: "\<not> CHAIN_PINNED_R c" by (simp_all add: chain_ok_def)
  show ?case
  proof (cases "r \<ge> off c")
    case True
    have r: "r - off c < length (concat (map chain_bytes cs))" using Cons.prems(3) ok True by simp
    then have "\<exists>d \<in> set cs. off d \<noteq> 0" using bytes_all_empty [of cs] by fastforce
    then have "lwd_ok cs (if p \<le> 1 then 0 else p - 1)" using Cons.prems(2) lwd_ok_tl by blast
    from Cons.IH [OF _ this r] Cons.prems(1) obtain d cs' p' r' where
      d: "evbuffer_drain_loop cs (if p \<le> 1 then 0 else p - 1) (r - off c) = Some (d # cs', p', r')"
        "r' < off d" "drop (r - off c) (concat (map chain_bytes cs)) = drop r' (chain_bytes d) @ concat (map chain_bytes cs')"
        "lwd_ok (d # cs') p'" "set (d # cs') \<subseteq> set cs"
      by auto
    have "evbuffer_drain_loop (c # cs) p r = Some (d # cs', p', r')"
      using True np d(1) by (simp add: Let_def)
    moreover have "drop r (concat (map chain_bytes (c # cs))) = drop r' (chain_bytes d) @ concat (map chain_bytes cs')"
      using True ok d(3) by simp
    ultimately show ?thesis using d by auto
  next
    case False
    then have "evbuffer_drain_loop (c # cs) p r = Some (c # cs, p, r)" by simp
    with False ok Cons.prems(2) show ?thesis by fastforce
  qed
qed simp

lemma chain_skip:
  assumes "chain_ok c" "r \<le> off c"
  shows "chain_ok (c\<lparr>misalign := misalign c + r, off := off c - r\<rparr>)"
    "chain_bytes (c\<lparr>misalign := misalign c + r, off := off c - r\<rparr>) = drop r (chain_bytes c)"
  using assms by (auto simp: chain_ok_def chain_bytes_def buffer_len_def CHAIN_PINNED_R_def mem_read_drop)

lemma evbuffer_drain_spec:
  assumes inv: "evb_inv b" and nf: "\<not> freeze_start b"
  shows "\<exists>b'. evbuffer_drain b n = Some (0, b') \<and> evb_inv b' \<and> evb_bytes b' = drop n (evb_bytes b)
    \<and> freeze_start b' = freeze_start b \<and> freeze_end b' = freeze_end b"
proof -
  have np: "\<not> HAS_PINNED_R b" using inv by (auto simp: HAS_PINNED_R_def evb_inv_def chain_ok_def)
  have len: "total_len b = length (evb_bytes b)" using inv by (simp add: evb_inv_def)
  consider "total_len b = 0" | "total_len b \<noteq> 0" "n \<ge> total_len b" | "n < total_len b" by linarith
  then show ?thesis
  proof cases
    case 1
    then show ?thesis using inv len by (simp add: evbuffer_drain_def)
  next
    case 2
    let ?b = "(ZERO_CHAIN b)\<lparr>n_del_for_cb := n_del_for_cb b + total_len b\<rparr>"
    have "evbuffer_drain b n = Some (0, evbuffer_invoke_callbacks ?b)"
      using 2 nf np by (simp add: evbuffer_drain_def)
    moreover have "evb_inv ?b" "evb_bytes ?b = drop n (evb_bytes b)"
        "freeze_start ?b = freeze_start b" "freeze_end ?b = freeze_end b"
      using 2 len by (simp_all add: evb_inv_def ZERO_CHAIN_def lwd_ok_def evb_bytes_def [of "_\<lparr>chains := []\<rparr>"])
        (simp_all add: evb_bytes_def)
    ultimately show ?thesis by simp
  next
    case 3
    have "\<forall>c \<in> set (chains b). chain_ok c" "lwd_ok (chains b) (last_with_datap b)"
      "n < length (concat (map chain_bytes (chains b)))"
      using inv 3 by (simp_all add: evb_inv_def evb_bytes_def)
    from drain_loop [OF this] obtain c cs' p' r' where
      l: "evbuffer_drain_loop (chains b) (last_with_datap b) n = Some (c # cs', p', r')" "r' < off c"
        "drop n (evb_bytes b) = drop r' (chain_bytes c) @ concat (map chain_bytes cs')"
        "lwd_ok (c # cs') p'" "set (c # cs') \<subseteq> set (chains b)"
      unfolding evb_bytes_def by blast
    have ok: "\<forall>d \<in> set (c # cs'). chain_ok d" using inv l(5) by (auto simp: evb_inv_def)
    let ?c = "c\<lparr>misalign := misalign c + r', off := off c - r'\<rparr>"
    note sk = chain_skip [of c r', OF _ less_imp_le [OF l(2)]]
    let ?b = "b\<lparr>chains := ?c # cs', last_with_datap := p', total_len := total_len b - n,
      n_del_for_cb := n_del_for_cb b + n\<rparr>"
    have bytes: "evb_bytes ?b = drop n (evb_bytes b)" using sk ok l(3) by (simp add: evb_bytes_def)
    have "lwd_ok (?c # cs') p'" using l(2,4) by (cases p') (auto simp: lwd_ok_def)
    then have "evb_inv ?b"
      using bytes sk ok inv len by (auto simp: evb_inv_def)
    moreover have "evbuffer_drain b n = Some (0, evbuffer_invoke_callbacks ?b)"
      using 3 nf l by (simp add: evbuffer_drain_def Let_def)
    ultimately show ?thesis using bytes by simp
  qed
qed

lemma copy_loop:
  "\<forall>c \<in> set cs. chain_ok c \<Longrightarrow> n \<le> length (concat (map chain_bytes cs)) \<Longrightarrow>
    evbuffer_copy_loop cs n = Some (take n (concat (map chain_bytes cs)))"
proof (induction cs arbitrary: n)
  case (Cons c cs)
  show ?case
  proof (cases "n \<noteq> 0 \<and> n \<ge> off c")
    case True
    then show ?thesis using Cons by simp
  next
    case False
    have "mem_read (cbuf c) (misalign c) n = take n (chain_bytes c)" if "n \<le> off c"
      using that unfolding chain_bytes_def by (rule mem_read_take)
    with False Cons.prems show ?thesis by auto
  qed
qed simp

lemma evbuffer_copyout_spec:
  assumes inv: "evb_inv b" and nf: "\<not> freeze_start b"
  shows "evbuffer_copyout b n = Some (int (min n (total_len b)), take n (evb_bytes b))"
proof -
  have len: "total_len b = length (evb_bytes b)" using inv by (simp add: evb_inv_def)
  have "evbuffer_copy_loop (chains b) (min n (total_len b)) = Some (take (min n (total_len b)) (evb_bytes b))"
    using copy_loop [of "chains b" "min n (total_len b)"] inv by (simp add: evb_inv_def evb_bytes_def)
  then show ?thesis
    using nf by (auto simp: evbuffer_copyout_def Let_def len min_def split: if_splits)
qed

lemma evbuffer_remove_spec:
  assumes inv: "evb_inv b" and nf: "\<not> freeze_start b"
  shows "\<exists>b'. evbuffer_remove b n = Some (int (min n (total_len b)), take n (evb_bytes b), b')
    \<and> evb_inv b' \<and> evb_bytes b' = drop n (evb_bytes b)
    \<and> freeze_start b' = freeze_start b \<and> freeze_end b' = freeze_end b"
proof -
  let ?k = "min n (total_len b)"
  have len: "total_len b = length (evb_bytes b)" using inv by (simp add: evb_inv_def)
  obtain b' where b': "evbuffer_drain b ?k = Some (0, b')" "evb_inv b'" "evb_bytes b' = drop ?k (evb_bytes b)"
      "freeze_start b' = freeze_start b" "freeze_end b' = freeze_end b"
    using evbuffer_drain_spec [OF inv nf, of ?k] by blast
  have "drop ?k (evb_bytes b) = drop n (evb_bytes b)" by (simp add: len min_def)
  then show ?thesis
    using evbuffer_copyout_spec [OF inv nf, of n] b' inv len
    by (cases "?k = 0") (auto simp: evbuffer_remove_def)
qed


subsection \<open>Prepending\<close>

lemma evb_inv_Cons:
  assumes "chains b = c # cs"
  shows "evb_inv b \<longleftrightarrow> chain_ok c \<and> (\<forall>d \<in> set cs. chain_ok d) \<and> lwd_ok (c # cs) (last_with_datap b)
    \<and> total_len b = length (evb_bytes b) \<and> total_len b \<le> EV_SIZE_MAX"
  using assms by (auto simp: evb_inv_def)

lemma lwd_ok_hd:
  "lwd_ok (c # cs) p \<Longrightarrow> off c' \<ge> off c \<Longrightarrow> lwd_ok (c' # cs) p"
  by (cases p) (auto simp: lwd_ok_def)

text \<open>Growing the first chain at its front prepends to the buffer.\<close>

lemma grow_first_chain:
  assumes inv: "evb_inv b" and cs: "chains b = c # cs"
    and c': "chain_ok c'" "chain_bytes c' = d @ chain_bytes c"
    and fits: "total_len b + length d \<le> EV_SIZE_MAX"
    and b': "chains b' = c' # cs" "last_with_datap b' = last_with_datap b" "total_len b' = total_len b + length d"
  shows "evb_inv b' \<and> evb_bytes b' = d @ evb_bytes b"
proof -
  have ok: "chain_ok c" using inv cs by (simp add: evb_inv_Cons)
  have bytes: "evb_bytes b' = d @ evb_bytes b" using b'(1) cs c'(2) by (simp add: evb_bytes_def)
  have "off c' = length d + off c" using length_chain_bytes [OF c'(1)] length_chain_bytes [OF ok] c'(2) by simp
  then have "lwd_ok (c' # cs) (last_with_datap b')"
    using inv cs b'(2) lwd_ok_hd [of c cs "last_with_datap b" c'] by (simp add: evb_inv_Cons)
  then show ?thesis
    using inv cs b' c'(1) bytes fits by (auto simp: evb_inv_Cons [OF cs] evb_inv_Cons [OF b'(1)])
qed

text \<open>A non-empty chain in front of a buffer whose first chain holds data.\<close>

lemma push_chain:
  assumes inv: "evb_inv b" and ne: "chains b \<noteq> []" "last_with_datap b = 0 \<Longrightarrow> off (hd (chains b)) \<noteq> 0"
    and t: "chain_ok t" and fits: "total_len b + off t \<le> EV_SIZE_MAX"
    and b': "chains b' = t # chains b" "last_with_datap b' = Suc (last_with_datap b)" "total_len b' = total_len b + off t"
  shows "evb_inv b' \<and> evb_bytes b' = chain_bytes t @ evb_bytes b"
proof -
  have bytes: "evb_bytes b' = chain_bytes t @ evb_bytes b" using b'(1) by (simp add: evb_bytes_def)
  have "lwd_ok (chains b) (last_with_datap b)" using inv by (simp add: evb_inv_def)
  then have "lwd_ok (t # chains b) (Suc (last_with_datap b))"
    using ne by (auto simp: lwd_ok_def hd_conv_nth)
  then show ?thesis
    using inv t b' bytes fits by (auto simp: evb_inv_def)
qed

text \<open>
  A failed \<open>evbuffer_prepend\<close> may already have stored the end of the data: the call returns -1
  and the buffer holds the last bytes of the data in front of its old content.
\<close>

lemma evbuffer_prepend_at_spec:
  assumes inv: "evb_inv b" and ne: "chains b \<noteq> []"
    and mut: "\<forall>c \<in> set (chains b). flags c AND EVBUFFER_IMMUTABLE = 0"
    and fits: "total_len b + length data \<le> EV_SIZE_MAX"
    and eq: "evbuffer_prepend_at mm b data = (r, b')"
  shows "evb_inv b' \<and> (r = 0 \<and> evb_bytes b' = data @ evb_bytes b
    \<or> r = -1 \<and> (\<exists>k \<le> length data. evb_bytes b' = drop k data @ evb_bytes b))"
proof -
  obtain c0 cs where cs: "chains b = c0 # cs" using ne by (cases "chains b") auto
  let ?c = "if off c0 = 0 then c0\<lparr>misalign := buffer_len c0\<rparr> else c0"
  let ?b0 = "b\<lparr>chains := ?c # cs\<rparr>"
  have m: "flags c0 AND EVBUFFER_IMMUTABLE = 0" using mut cs by simp
  have ok0: "chain_ok c0" using inv cs by (simp add: evb_inv_Cons)
  then have c: "chain_ok ?c" "chain_bytes ?c = chain_bytes c0" "off ?c = off c0"
    by (auto simp: chain_ok_def buffer_len_def CHAIN_PINNED_R_def chain_bytes_empty)
  have inv0: "evb_inv ?b0 \<and> evb_bytes ?b0 = [] @ evb_bytes b"
    by (rule grow_first_chain [OF inv cs c(1)]) (use c fits in simp_all)
  show ?thesis
  proof (cases "misalign ?c \<ge> length data")
    case True
    from eq m cs True have b': "r = 0" "b' = evbuffer_invoke_callbacks (evbuffer_count_added
        (?b0\<lparr>chains := chain_prepend ?c data # cs\<rparr>) (length data))"
      by (auto simp: evbuffer_prepend_at_def Let_def)
    have "evb_inv b' \<and> evb_bytes b' = data @ evb_bytes ?b0"
      by (rule grow_first_chain [of ?b0 ?c cs "chain_prepend ?c data"])
        (use inv0 chain_prepend_ok [OF c(1) True] fits in \<open>simp_all add: b'(2)\<close>)
    with inv0 b'(1) show ?thesis by simp
  next
    case False
    let ?m = "misalign ?c"
    let ?late = "drop (length data - ?m) data" and ?rest = "take (length data - ?m) data"
    define b1 where "b1 = (if ?m \<noteq> 0 then evbuffer_count_added
        (?b0\<lparr>chains := chain_prepend ?c ?late # cs\<rparr>) ?m else ?b0)"
    have late: "length ?late = ?m" using False by simp
    have inv1: "evb_inv b1 \<and> evb_bytes b1 = ?late @ evb_bytes b \<and> total_len b1 = total_len b + ?m
        \<and> last_with_datap b1 = last_with_datap b \<and> chains b1 \<noteq> [] \<and> off (hd (chains b1)) \<noteq> 0"
    proof (cases "?m = 0")
      case True
      then have "off c0 \<noteq> 0" using ok0 by (auto simp: chain_ok_def split: if_splits)
      with True inv0 show ?thesis by (simp add: b1_def)
    next
      case m0: False
      have le: "length ?late \<le> ?m" using late by simp
      have "evb_inv b1 \<and> evb_bytes b1 = ?late @ evb_bytes ?b0"
        by (rule grow_first_chain [of ?b0 ?c cs "chain_prepend ?c ?late"])
          (use inv0 chain_prepend_ok [OF c(1) le] fits late m0 False in \<open>simp_all add: b1_def\<close>)
      with inv0 late m0 show ?thesis by (simp add: b1_def)
    qed
    have eq1: "evbuffer_prepend_at mm b data = (case evbuffer_chain_new mm (length ?rest) of None \<Rightarrow> (-1, b1)
        | Some tmp \<Rightarrow> (0, evbuffer_invoke_callbacks (evbuffer_count_added
            (b1\<lparr>chains := chain_prepend (tmp\<lparr>misalign := buffer_len tmp\<rparr>) ?rest # chains b1,
                last_with_datap := Suc (last_with_datap b1)\<rparr>) (length ?rest))))"
      using False m cs by (auto simp: evbuffer_prepend_at_def Let_def b1_def split: option.splits)
    show ?thesis
    proof (cases "evbuffer_chain_new mm (length ?rest)")
      case None
      with eq eq1 have "r = -1" "b' = b1" by simp_all
      moreover have "length data - ?m \<le> length data" by simp
      ultimately show ?thesis using inv1 by blast
    next
      case (Some tmp)
      note tmp = chain_new_SomeD [OF Some]
      let ?fresh = "tmp\<lparr>misalign := buffer_len tmp\<rparr>"
      let ?t = "chain_prepend ?fresh ?rest"
      have t0: "chain_ok ?fresh" "length ?rest \<le> misalign ?fresh" "chain_bytes ?fresh = []"
        using tmp by (auto simp: chain_ok_def buffer_len_def CHAIN_PINNED_R_def chain_bytes_empty)
      note t = chain_prepend_ok [OF t0(1,2)]
      from eq eq1 Some have b': "r = 0" "b' = evbuffer_invoke_callbacks (evbuffer_count_added
          (b1\<lparr>chains := ?t # chains b1, last_with_datap := Suc (last_with_datap b1)\<rparr>) (length ?rest))"
        by simp_all
      have "evb_inv b' \<and> evb_bytes b' = chain_bytes ?t @ evb_bytes b1"
        by (rule push_chain) (use inv1 t tmp fits False in \<open>simp_all add: b'(2)\<close>)
      with inv1 t t0 b'(1) show ?thesis by simp
    qed
  qed
qed

lemma evbuffer_prepend_spec:
  assumes inv: "evb_inv b" and mut: "\<forall>c \<in> set (chains b). flags c AND EVBUFFER_IMMUTABLE = 0"
    and eq: "evbuffer_prepend mm b data = (r, b')"
  shows "evb_inv b' \<and> (r = 0 \<and> \<not> freeze_start b \<and> evb_bytes b' = data @ evb_bytes b
    \<or> r = -1 \<and> (\<exists>k \<le> length data. evb_bytes b' = drop k data @ evb_bytes b))"
proof (cases "freeze_start b \<or> length data > EV_SIZE_MAX - total_len b")
  case True
  with eq inv show ?thesis by (auto simp: evbuffer_prepend_def split: if_splits)
next
  case False
  then have fits: "total_len b + length data \<le> EV_SIZE_MAX" using inv by (auto simp: evb_inv_def)
  show ?thesis
  proof (cases "chains b = []")
    case ne: False
    with eq False have "evbuffer_prepend_at mm b data = (r, b')" by (simp add: evbuffer_prepend_def)
    from evbuffer_prepend_at_spec [OF inv ne mut fits this] False show ?thesis by auto
  next
    case empty: True
    show ?thesis
    proof (cases "evbuffer_chain_new mm (length data)")
      case None
      with eq False empty inv show ?thesis by (auto simp: evbuffer_prepend_def)
    next
      case (Some c)
      note c = chain_new_SomeD [OF Some]
      let ?b1 = "evbuffer_chain_insert b c"
      have b1: "evb_inv ?b1" "evb_bytes ?b1 = evb_bytes b" "total_len ?b1 = total_len b" "chains ?b1 = [c]"
        using chain_insert [OF inv c(6)] fits c(1) empty
        by (auto simp: chain_bytes_empty evbuffer_chain_insert_def)
      have "evbuffer_prepend_at mm ?b1 data = (r, b')"
        using eq False empty Some by (simp add: evbuffer_prepend_def)
      from evbuffer_prepend_at_spec [OF b1(1) _ _ _ this] b1 c(3) fits False show ?thesis by auto
    qed
  qed
qed

subsection \<open>Moving whole buffers\<close>

lemma lwd_data:
  assumes inv: "evb_inv b" and ne: "total_len b \<noteq> 0"
  shows "last_with_datap b < length (chains b)" "off (chains b ! last_with_datap b) \<noteq> 0"
proof -
  let ?cs = "chains b" and ?p = "last_with_datap b"
  have lenb: "total_len b = length (evb_bytes b)" using inv by (simp add: evb_inv_def)
  have cs: "?cs \<noteq> []" using lenb ne by (auto simp: evb_bytes_def)
  have ok: "lwd_ok ?cs ?p" using inv by (simp add: evb_inv_def)
  note lwd = lwd_okD [OF ok cs]
  show "?p < length ?cs" by (rule lwd(1))
  show "off (?cs ! ?p) \<noteq> 0"
  proof
    assume 0: "off (?cs ! ?p) = 0"
    with lwd(3) have "?p = 0" by auto
    with 0 lwd(1,2) have "\<forall>c \<in> set ?cs. off c = 0" by (cases ?cs) auto
    then show False using lenb ne bytes_all_empty [of ?cs] by (simp add: evb_bytes_def)
  qed
qed

lemma append_chain:
  assumes inv: "evb_inv dst" "evb_inv src" and ne: "chains dst \<noteq> []" "total_len src \<noteq> 0"
    and fits: "total_len dst + total_len src \<le> EV_SIZE_MAX"
  shows "evb_inv (APPEND_CHAIN dst src) \<and> evb_bytes (APPEND_CHAIN dst src) = evb_bytes dst @ evb_bytes src"
proof -
  obtain d ch where eq: "evbuffer_free_trailing_empty_chains dst = (d, ch)" by fastforce
  note ft = free_trailing [OF inv(1) ne(1) eq]
  let ?cs = "chains src" and ?p = "last_with_datap src"
  let ?b = "APPEND_CHAIN dst src"
  have b: "chains ?b = take ch (chains dst) @ ?cs" "last_with_datap ?b = ch + ?p"
      "total_len ?b = total_len dst + total_len src"
    using eq ft(1) by (simp_all add: APPEND_CHAIN_def)
  have bytes: "evb_bytes ?b = evb_bytes dst @ evb_bytes src"
    using ft(1,4) b(1) by (simp add: evb_bytes_def)
  have lenb: "total_len src = length (evb_bytes src)" using inv(2) by (simp add: evb_inv_def)
  have cs: "?cs \<noteq> []" using lenb ne(2) by (auto simp: evb_bytes_def)
  have ok: "lwd_ok ?cs ?p" using inv(2) by (simp add: evb_inv_def)
  note lwd = lwd_okD [OF ok cs]
  have "off (?cs ! ?p) \<noteq> 0" by (rule lwd_data(2) [OF inv(2) ne(2)])
  then have "lwd_ok (chains ?b) (last_with_datap ?b)"
    using lwd(1,2) cs ft(3) unfolding b by (simp add: lwd_ok_def nth_append)
  moreover have "\<forall>c \<in> set (chains ?b). chain_ok c"
    using inv b(1) by (auto simp: evb_inv_def dest: in_set_takeD)
  ultimately show ?thesis using bytes b(3) inv fits by (simp add: evb_inv_def)
qed

lemma prepend_chain:
  assumes inv: "evb_inv dst" "evb_inv src" and ne: "total_len dst \<noteq> 0"
    and fits: "total_len dst + total_len src \<le> EV_SIZE_MAX"
  shows "evb_inv (PREPEND_CHAIN dst src) \<and> evb_bytes (PREPEND_CHAIN dst src) = evb_bytes src @ evb_bytes dst"
proof -
  note p = lwd_data [OF inv(1) ne]
  have cs: "chains dst \<noteq> []" using p(1) by auto
  have "lwd_ok (chains dst) (last_with_datap dst)" using inv(1) by (simp add: evb_inv_def)
  note lwd = lwd_okD [OF this cs]
  have "lwd_ok (chains (PREPEND_CHAIN dst src)) (last_with_datap (PREPEND_CHAIN dst src))"
    using p lwd(2) cs by (simp add: PREPEND_CHAIN_def lwd_ok_def)
  then show ?thesis using inv fits by (auto simp: evb_inv_def PREPEND_CHAIN_def evb_bytes_def)
qed

lemma evb_inv_ZERO: "evb_inv (ZERO_CHAIN b)" "evb_bytes (ZERO_CHAIN b) = []"
  by (simp_all add: evb_inv_def ZERO_CHAIN_def evb_bytes_def lwd_ok_def)

lemma move_buffer_spec:
  assumes inv: "evb_inv outbuf" "evb_inv inbuf"
    and link: "total_len outbuf \<noteq> 0 \<Longrightarrow> evb_inv (link outbuf inbuf) \<and> evb_bytes (link outbuf inbuf) = bs"
    and none: "total_len outbuf = 0 \<Longrightarrow> bs = evb_bytes inbuf"
    and eq: "move_buffer link outbuf inbuf = (o', i')"
  shows "evb_inv o' \<and> evb_inv i' \<and> evb_bytes o' = bs \<and> evb_bytes i' = []"
proof -
  define o1 where "o1 = (if total_len outbuf = 0 then COPY_CHAIN outbuf inbuf else link outbuf inbuf)"
  have "evb_inv o1 \<and> evb_bytes o1 = bs"
  proof (cases "total_len outbuf = 0")
    case True
    with none inv(2) show ?thesis
      using evb_inv_cong [of o1 inbuf] by (simp add: o1_def COPY_CHAIN_def)
  next
    case ne: False
    from link [OF this] ne show ?thesis by (simp add: o1_def)
  qed
  moreover have "evb_inv (b\<lparr>n_add_for_cb := n\<rparr>) \<longleftrightarrow> evb_inv b" "evb_bytes (b\<lparr>n_add_for_cb := n\<rparr>) = evb_bytes b"
    "evb_inv (b\<lparr>n_del_for_cb := n\<rparr>) \<longleftrightarrow> evb_inv b" "evb_bytes (b\<lparr>n_del_for_cb := n\<rparr>) = evb_bytes b" for b n
    by (simp_all add: evb_inv_def evb_bytes_def)
  ultimately show ?thesis
    using evb_inv_ZERO [of inbuf] eq by (auto simp: move_buffer_def o1_def [symmetric] Let_def)
qed

lemma evbuffer_add_buffer_spec:
  assumes inv: "evb_inv outbuf" "evb_inv inbuf"
    and nf: "\<not> freeze_end outbuf" "\<not> freeze_start inbuf"
    and fits: "total_len outbuf + total_len inbuf \<le> EV_SIZE_MAX"
  shows "\<exists>o' i'. evbuffer_add_buffer outbuf inbuf = (0, o', i') \<and> evb_inv o' \<and> evb_inv i'
    \<and> evb_bytes o' = evb_bytes outbuf @ evb_bytes inbuf \<and> evb_bytes i' = []"
proof (cases "total_len inbuf = 0")
  case True
  then show ?thesis using inv by (simp add: evbuffer_add_buffer_def evb_inv_def)
next
  case False
  obtain o' i' where m: "move_buffer APPEND_CHAIN outbuf inbuf = (o', i')" by fastforce
  have "chains outbuf \<noteq> []" if "total_len outbuf \<noteq> 0"
    using that inv(1) by (auto simp: evb_inv_def evb_bytes_def)
  from append_chain [OF inv this False fits] inv(1)
  have "evb_inv o' \<and> evb_inv i' \<and> evb_bytes o' = evb_bytes outbuf @ evb_bytes inbuf \<and> evb_bytes i' = []"
    by (intro move_buffer_spec [OF inv _ _ m]) (auto simp: evb_inv_def)
  then show ?thesis using False nf m by (simp add: evbuffer_add_buffer_def)
qed

lemma evbuffer_prepend_buffer_spec:
  assumes inv: "evb_inv outbuf" "evb_inv inbuf"
    and nf: "\<not> freeze_start outbuf" "\<not> freeze_start inbuf"
    and fits: "total_len outbuf + total_len inbuf \<le> EV_SIZE_MAX"
  shows "\<exists>o' i'. evbuffer_prepend_buffer outbuf inbuf = (0, o', i') \<and> evb_inv o' \<and> evb_inv i'
    \<and> evb_bytes o' = evb_bytes inbuf @ evb_bytes outbuf \<and> evb_bytes i' = []"
proof (cases "total_len inbuf = 0")
  case True
  then show ?thesis using inv by (simp add: evbuffer_prepend_buffer_def evb_inv_def)
next
  case False
  obtain o' i' where m: "move_buffer PREPEND_CHAIN outbuf inbuf = (o', i')" by fastforce
  from prepend_chain [OF inv _ fits] inv(1)
  have "evb_inv o' \<and> evb_inv i' \<and> evb_bytes o' = evb_bytes inbuf @ evb_bytes outbuf \<and> evb_bytes i' = []"
    by (intro move_buffer_spec [OF inv _ _ m]) (auto simp: evb_inv_def)
  then show ?thesis using False nf m by (simp add: evbuffer_prepend_buffer_def)
qed


section \<open>The evbuffer as a byte queue\<close>

text \<open>
  The freeze flags do not change under the operations, so a buffer that may be read at its
  front stays so.
\<close>

lemma chain_insert_freeze [simp]:
  "freeze_start (evbuffer_chain_insert b c) = freeze_start b"
  "freeze_end (evbuffer_chain_insert b c) = freeze_end b"
  by (simp_all add: evbuffer_chain_insert_def evbuffer_free_trailing_empty_chains_def Let_def)

lemma add_at_freeze [simp]:
  "freeze_start (snd (evbuffer_add_at mm b i d)) = freeze_start b"
  "freeze_end (snd (evbuffer_add_at mm b i d)) = freeze_end b"
  by (simp_all add: evbuffer_add_at_def Let_def split: option.splits)

lemma add_freeze:
  "freeze_start (snd (evbuffer_add mm b d)) = freeze_start b"
  "freeze_end (snd (evbuffer_add mm b d)) = freeze_end b"
  by (simp_all add: evbuffer_add_def split: option.splits)

definition evb_readable :: "evbuffer \<Rightarrow> bool" where
  "evb_readable b \<longleftrightarrow> evb_inv b \<and> \<not> freeze_start b"

lemma evb_inv_total: "evb_inv b \<Longrightarrow> total_len b = length (evb_bytes b)"
  by (simp add: evb_inv_def)

interpretation evb_sink: byte_sink "evbuffer_add mm" evb_bytes evb_inv for mm
  by unfold_locales (use evbuffer_add_spec in blast)

interpretation evb_fifo: byte_fifo "evbuffer_add mm" evb_bytes evb_readable evbuffer_remove for mm
proof unfold_locales
  fix s d r s'
  assume "evb_readable s" "evbuffer_add mm s d = (r, s')"
  then show "r = 0 \<and> evb_readable s' \<and> evb_bytes s' = evb_bytes s @ d \<or> r = -1 \<and> s' = s"
    using evbuffer_add_spec [of s mm d r s'] add_freeze(1) [of mm s d] by (auto simp: evb_readable_def)
next
  fix s n
  assume "evb_readable s"
  then show "\<exists>s'. evbuffer_remove s n = Some (int (min n (length (evb_bytes s))), take n (evb_bytes s), s')
      \<and> evb_readable s' \<and> evb_bytes s' = drop n (evb_bytes s)"
    using evbuffer_remove_spec [of s n] by (auto simp: evb_readable_def evb_inv_total)
qed


section \<open>Blocks stay small when data arrives in small pieces\<close>

text \<open>
  Data added at most 8192 bytes at a time never makes a buffer allocate a block of more than
  16352 bytes, so such additions cannot run into the size limits of \<open>evbuffer_chain_new\<close>.
\<close>

definition small_blocks :: "evbuffer \<Rightarrow> bool" where
  "small_blocks b \<longleftrightarrow> (\<forall>c \<in> set (chains b). buffer_len c \<le> 16352)"

lemma alloc_grow_le: "k \<le> 5 \<Longrightarrow> sz \<le> 16384 \<Longrightarrow> alloc_grow k sz \<le> 16384"
proof (induction k sz rule: alloc_grow.induct)
  case (1 k sz)
  have "MIN_BUFFER_SIZE * 2 ^ 5 = (16384 :: nat)" by (simp add: evb_consts)
  then have 5: "MIN_BUFFER_SIZE * 2 ^ k < sz \<Longrightarrow> Suc k \<le> 5" using 1 by (cases "k = 5") auto
  have "(2 :: nat) ^ k \<le> 2 ^ 5" using 1 by (intro power_increasing) simp_all
  then have "MIN_BUFFER_SIZE * 2 ^ k \<le> 16384" by (simp add: evb_consts)
  with "1.IH" "1.prems" 5 show ?case by (subst alloc_grow.simps) auto
qed

lemma chain_new_small: "evbuffer_chain_new mm n = Some c \<Longrightarrow> n \<le> 16352 \<Longrightarrow> buffer_len c \<le> 16352"
  using alloc_grow_le [of 0 "n + EVBUFFER_CHAIN_SIZE"]
  by (auto simp: evbuffer_chain_new_def buffer_len_def evb_consts Let_def split: if_splits option.splits)

lemma small_insert: "small_blocks b \<Longrightarrow> buffer_len c \<le> 16352 \<Longrightarrow> small_blocks (evbuffer_chain_insert b c)"
  by (auto simp: small_blocks_def evbuffer_chain_insert_def evbuffer_free_trailing_empty_chains_def Let_def
      dest: in_set_takeD)

lemma small_update: "small_blocks b \<Longrightarrow> buffer_len c \<le> 16352 \<Longrightarrow> chains b' = (chains b)[i := c] \<Longrightarrow> small_blocks b'"
  using set_update_subset_insert [of "chains b" i c] by (auto simp: small_blocks_def)

lemma add_at_small:
  assumes inv: "evb_inv b" and i: "i < length (chains b)" and sm: "small_blocks b" "length data \<le> 16352"
  shows "small_blocks (snd (evbuffer_add_at mm b i data))"
proof -
  have c: "chain_ok (chains b ! i)" "buffer_len (chains b ! i) \<le> 16352"
    using inv i sm(1) by (simp_all add: evb_inv_chain_ok small_blocks_def)
  from c(1) show ?thesis
  proof (cases rule: add_at_cases [where mm = mm and data = data])
    case (grown c')
    have "small_blocks (b\<lparr>chains := (chains b)[i := c']\<rparr>)"
      by (rule small_update [OF sm(1)]) (use grown(4) c(2) in simp_all)
    with grown(1) show ?thesis by (simp add: small_blocks_def)
  next
    case no_memory
    then show ?thesis using sm by simp
  next
    case (split tmp rm c' b1)
    have "small_blocks b1"
      using split(6,7) c(2) sm(1) by (auto intro: small_update [OF sm(1), of c' _ i])
    moreover have "buffer_len tmp \<le> 16352"
      using c(2) sm(2) by (intro chain_new_small [OF split(1)])
        (simp add: evbuffer_add_alloc_size_def evb_consts Let_def)
    moreover have "buffer_len (chain_append tmp (drop rm data)) = buffer_len tmp"
      using chain_new_SomeD [OF split(1)] split(3) by (intro chain_append_ok) simp_all
    ultimately show ?thesis
      using small_insert [of b1 "chain_append tmp (drop rm data)"] split(8) by (simp add: small_blocks_def)
  qed
qed

lemma add_small:
  assumes inv: "evb_inv b" and sm: "small_blocks b" "length data \<le> 16352"
  shows "small_blocks (snd (evbuffer_add mm b data))"
proof (cases "chains b = []")
  case False
  then have "last_with_datap b < length (chains b)" using inv by (simp add: evb_inv_def lwd_ok_def)
  with False show ?thesis using add_at_small [OF inv _ sm] sm by (auto simp: evbuffer_add_def)
next
  case True
  show ?thesis
  proof (cases "evbuffer_chain_new mm (length data)")
    case (Some c)
    note c = chain_new_SomeD [OF Some]
    have "evb_inv (evbuffer_chain_insert b c)"
      using chain_insert [OF inv c(6)] c(1) inv by (simp add: evb_inv_def [of b])
    moreover have "small_blocks (evbuffer_chain_insert b c)"
      using small_insert [OF sm(1)] chain_new_small [OF Some sm(2)] by simp
    moreover have "0 < length (chains (evbuffer_chain_insert b c))" using chains_insert_nonempty by simp
    ultimately show ?thesis using True Some sm add_at_small by (simp add: evbuffer_add_def)
  qed (use True sm in \<open>simp add: evbuffer_add_def\<close>)
qed

lemma small_blocks_succeed:
  assumes "evb_inv b" "alloc_ok mm" "\<not> freeze_end b" "total_len b + length data \<le> EV_SIZE_MAX"
    "length data \<le> 16352" "small_blocks b"
  shows "fst (evbuffer_add mm b data) = 0"
  using assms by (intro evbuffer_add_succeeds) (auto simp: small_blocks_def evb_consts)

text \<open>A buffer that holds given bytes in one chain, with its end frozen as in a bufferevent's input.\<close>

definition filled :: "byte list \<Rightarrow> evbuffer" where
  "filled d = evbuffer_freeze (evbuffer_new\<lparr>chains := [\<lparr>cbuf = d, misalign = 0, off = length d, flags = 0\<rparr>],
     total_len := length d\<rparr>) False"

lemma filled_ok: "d \<noteq> [] \<Longrightarrow> length d \<le> EV_SIZE_MAX \<Longrightarrow> evb_readable (filled d) \<and> evb_bytes (filled d) = d"
  by (auto simp: filled_def evb_readable_def evbuffer_freeze_def evbuffer_new_def evb_inv_def evb_bytes_def
      chain_ok_def lwd_ok_def buffer_len_def evb_consts CHAIN_PINNED_R_def chain_bytes_def mem_read_def)

section \<open>Properties\<close>

text \<open>C16: An evbuffer is a byte stream. Whatever sizes the blocks have and whatever the allocator does,
  after feeding blocks and then reading until nothing is left, the reader has got what was in the buffer
  before followed by exactly the blocks whose \<open>evbuffer_add\<close> returned 0, in order; the reading ends and
  never gets an empty or oversized block.\<close>
theorem evbuffer_stream:
  assumes "evb_readable b" and "feed (evbuffer_add mm) b ds = (rs, b1)" and "0 < n"
  shows "\<exists>out b2. pull_all evbuffer_remove n b1 = Some (out, b2) \<and> evb_bytes b2 = []
    \<and> concat out = evb_bytes b @ concat (accepted rs ds) \<and> (\<forall>d \<in> set out. d \<noteq> [] \<and> length d \<le> n)"
proof -
  have "evb_readable b1 \<and> evb_bytes b1 = evb_bytes b @ concat (accepted rs ds)"
    using evb_fifo.feed_content [OF assms(1,2)] by simp
  with evb_fifo.pull_all_total [OF _ assms(3), of b1] show ?thesis by auto
qed

theorem evbuffer_stream_witness:
  "\<exists>out b2. pull_all evbuffer_remove 2 (snd (feed (evbuffer_add (\<lambda>_. None)) (filled [1, 2, 3]) [[], [4]])) = Some (out, b2)
    \<and> evb_bytes b2 = []"
  using evbuffer_stream [OF conjunct1 [OF filled_ok [of "[1, 2, 3]"]] surjective_pairing, of 2 "\<lambda>_. None" "[[], [4]]"]
  by (auto simp: evb_consts)

text \<open>\<open>evbuffer_add\<close> is all or nothing: it returns 0 and the bytes are at the end, or it returns -1
  and the buffer is as it was; and it returns 0 whenever the buffer is not frozen, no sum overflows and the
  allocator has memory. In all cases the invariant of the chains is kept.\<close>
lemma evbuffer_add_atomic:
  assumes inv: "evb_inv b" and eq: "evbuffer_add mm b data = (r, b')"
  shows "evb_inv b' \<and> (r = 0 \<and> evb_bytes b' = evb_bytes b @ data \<or> r = -1 \<and> b' = b)
    \<and> (alloc_ok mm \<and> \<not> freeze_end b \<and> total_len b + length data \<le> EV_SIZE_MAX
         \<and> length data \<le> EVBUFFER_CHAIN_MAX - EVBUFFER_CHAIN_SIZE
         \<and> (\<forall>c \<in> set (chains b). buffer_len c \<le> EVBUFFER_CHAIN_MAX - EVBUFFER_CHAIN_SIZE) \<longrightarrow> r = 0)"
  using evbuffer_add_spec [OF inv eq] evbuffer_add_succeeds [OF inv, of mm data] inv eq by auto

lemma evbuffer_new_ok: "evb_inv evbuffer_new" "evb_bytes evbuffer_new = []"
  by (simp_all add: evb_inv_def evbuffer_new_def evb_bytes_def lwd_ok_def)

lemma evbuffer_add_atomic_witness:
  "fst (evbuffer_add (\<lambda>_. Some (\<lambda>_. 0)) evbuffer_new [7, 8]) = 0"
  using evbuffer_add_atomic [OF evbuffer_new_ok(1) surjective_pairing, of "\<lambda>_. Some (\<lambda>_. 0)" "[7, 8]"]
  by (simp add: alloc_ok_def evbuffer_new_def evb_consts)

text \<open>C17: Draining, copying out and removing agree with the byte string of the buffer on every length,
  also past its end: \<open>drain\<close> drops, \<open>copyout\<close> reads without changing, \<open>remove\<close> does both; no assertion
  fails and the invariant is kept.\<close>
theorem evbuffer_consume:
  assumes "evb_inv b" "\<not> freeze_start b"
  shows "(\<exists>b'. evbuffer_drain b n = Some (0, b') \<and> evb_inv b' \<and> evb_bytes b' = drop n (evb_bytes b))
    \<and> evbuffer_copyout b n = Some (int (min n (length (evb_bytes b))), take n (evb_bytes b))
    \<and> (\<exists>b'. evbuffer_remove b n = Some (int (min n (length (evb_bytes b))), take n (evb_bytes b), b')
       \<and> evb_inv b' \<and> evb_bytes b' = drop n (evb_bytes b))"
  using evbuffer_drain_spec [OF assms, of n] evbuffer_copyout_spec [OF assms, of n]
    evbuffer_remove_spec [OF assms, of n] evb_inv_total [OF assms(1)] by auto

theorem evbuffer_consume_witness:
  "evbuffer_copyout (filled [1, 2, 3]) 2 = Some (2, [1, 2])"
  using evbuffer_consume [of "filled [1, 2, 3]" 2] filled_ok [of "[1, 2, 3]"]
  by (simp add: evb_readable_def evb_consts)

text \<open>C18: \<open>evbuffer_prepend\<close> puts the bytes in front when it returns 0. When it returns -1 it need not
  have left the buffer alone: when the first chain has some room and the new chain cannot be allocated, the
  buffer begins with a suffix of the data. Nothing else can happen, and the invariant is kept.\<close>
theorem evbuffer_prepend_partial:
  assumes "evb_inv b" "\<forall>c \<in> set (chains b). flags c AND EVBUFFER_IMMUTABLE = 0"
    and "evbuffer_prepend mm b data = (r, b')"
  shows "evb_inv b' \<and> (r = 0 \<and> evb_bytes b' = data @ evb_bytes b
    \<or> r = -1 \<and> (\<exists>k \<le> length data. evb_bytes b' = drop k data @ evb_bytes b))"
  using evbuffer_prepend_spec [OF assms] by auto

definition half_full :: evbuffer where
  "half_full = evbuffer_new\<lparr>chains := [\<lparr>cbuf = [0, 9], misalign = 1, off = 1, flags = 0\<rparr>], total_len := 1\<rparr>"

theorem evbuffer_prepend_partial_witness:
  "\<exists>b'. evbuffer_prepend (\<lambda>_. None) half_full [1, 2] = (-1, b') \<and> evb_bytes b' = [2, 9] \<and> evb_inv b'"
proof -
  have inv: "evb_inv half_full"
    by (simp add: half_full_def evb_inv_def evbuffer_new_def evb_bytes_def chain_bytes_def mem_read_def chain_ok_def
        lwd_ok_def buffer_len_def CHAIN_PINNED_R_def evb_consts)
  obtain r b' where eq: "evbuffer_prepend (\<lambda>_. None) half_full [1, 2] = (r, b')" by fastforce
  then have "r = -1 \<and> evb_bytes b' = [2, 9]"
    by (auto simp: evbuffer_prepend_def evbuffer_prepend_at_def half_full_def evbuffer_new_def evb_consts Let_def
        chain_prepend_def memcpy_def evb_bytes_def chain_bytes_def mem_read_def evbuffer_count_added_def
        evbuffer_chain_new_def)
  moreover have "evb_inv b'"
    using evbuffer_prepend_partial [OF inv _ eq] by (simp add: half_full_def)
  ultimately show ?thesis using eq by simp
qed

text \<open>C19: Moving a whole buffer in front of or behind another moves exactly its bytes and leaves it
  empty, without copying them, when the total size fits.\<close>
theorem evbuffer_move:
  assumes "evb_inv outbuf" "evb_inv inbuf" "\<not> freeze_start inbuf"
    and "total_len outbuf + total_len inbuf \<le> EV_SIZE_MAX"
  shows "(\<not> freeze_end outbuf \<longrightarrow> (\<exists>o' i'. evbuffer_add_buffer outbuf inbuf = (0, o', i') \<and> evb_inv o' \<and> evb_inv i'
      \<and> evb_bytes o' = evb_bytes outbuf @ evb_bytes inbuf \<and> evb_bytes i' = []))
    \<and> (\<not> freeze_start outbuf \<longrightarrow> (\<exists>o' i'. evbuffer_prepend_buffer outbuf inbuf = (0, o', i') \<and> evb_inv o' \<and> evb_inv i'
      \<and> evb_bytes o' = evb_bytes inbuf @ evb_bytes outbuf \<and> evb_bytes i' = []))"
  using evbuffer_add_buffer_spec [OF assms(1,2) _ assms(3,4)] evbuffer_prepend_buffer_spec [OF assms(1,2) _ assms(3,4)]
  by auto

theorem evbuffer_move_witness:
  "\<exists>o' i'. evbuffer_add_buffer evbuffer_new (filled [1, 2]) = (0, o', i') \<and> evb_bytes o' = [1, 2]"
proof -
  have f: "evb_inv (filled [1, 2])" "\<not> freeze_start (filled [1, 2])" "evb_bytes (filled [1, 2]) = [1, 2]"
    using filled_ok [of "[1, 2]"] by (simp_all add: evb_readable_def evb_consts)
  have "total_len evbuffer_new + total_len (filled [1, 2]) \<le> EV_SIZE_MAX"
    by (simp add: filled_def evbuffer_new_def evbuffer_freeze_def evb_consts)
  from evbuffer_move [OF evbuffer_new_ok(1) f(1,2) this] f(3) evbuffer_new_ok(2)
  show ?thesis by (auto simp: evbuffer_new_def)
qed

end
