(* ===== verification/Tail_Queue.thy ===== *)
theory Tail_Queue
  imports Prelude
begin

text \<open>
  The \<open>TAILQ\<close> macros of \<open>compat/sys/queue.h\<close> (the header \<open>fireServer.c\<close> keeps its
  clients with), at the level of pointers. A \<open>struct type **\<close> holds the address of a pointer
  variable: either the head's \<open>tqh_first\<close> or some element's \<open>tqe_next\<close>; this is the type
  \<open>slot\<close>. The two entry fields of every element are maps from element addresses. The macros
  are refined to operations on the list of the elements in queue order.
\<close>

type_synonym addr = nat

datatype slot = HeadFirst | NextOf addr

record tailq =
  tqh_first :: "addr option"
  tqh_last :: slot
  tqe_next :: "addr \<Rightarrow> addr option"
  tqe_prev :: "addr \<Rightarrow> slot"

text \<open>Reading and writing through a \<open>struct type **\<close>.\<close>

definition slot_get :: "tailq \<Rightarrow> slot \<Rightarrow> addr option" where
  "slot_get q s = (case s of HeadFirst \<Rightarrow> tqh_first q | NextOf a \<Rightarrow> tqe_next q a)"

definition slot_set :: "tailq \<Rightarrow> slot \<Rightarrow> addr option \<Rightarrow> tailq" where
  "slot_set q s v = (case s of HeadFirst \<Rightarrow> q\<lparr>tqh_first := v\<rparr>
     | NextOf a \<Rightarrow> q\<lparr>tqe_next := (tqe_next q)(a := v)\<rparr>)"

definition set_next :: "tailq \<Rightarrow> addr \<Rightarrow> addr option \<Rightarrow> tailq" where
  "set_next q a v = q\<lparr>tqe_next := (tqe_next q)(a := v)\<rparr>"

definition set_prev :: "tailq \<Rightarrow> addr \<Rightarrow> slot \<Rightarrow> tailq" where
  "set_prev q a s = q\<lparr>tqe_prev := (tqe_prev q)(a := s)\<rparr>"

section \<open>The macros\<close>

definition TAILQ_INIT :: "tailq \<Rightarrow> tailq" where
  "TAILQ_INIT q = q\<lparr>tqh_first := None, tqh_last := HeadFirst\<rparr>"

definition TAILQ_EMPTY :: "tailq \<Rightarrow> bool" where
  "TAILQ_EMPTY q \<longleftrightarrow> tqh_first q = None"

definition TAILQ_INSERT_HEAD :: "tailq \<Rightarrow> addr \<Rightarrow> tailq" where
  "TAILQ_INSERT_HEAD q elm =
     (let q1 = set_next q elm (tqh_first q);
          q2 = (case tqh_first q1 of
                  Some f \<Rightarrow> set_prev q1 f (NextOf elm)
                | None \<Rightarrow> q1\<lparr>tqh_last := NextOf elm\<rparr>);
          q3 = q2\<lparr>tqh_first := Some elm\<rparr>
      in set_prev q3 elm HeadFirst)"

definition TAILQ_INSERT_TAIL :: "tailq \<Rightarrow> addr \<Rightarrow> tailq" where
  "TAILQ_INSERT_TAIL q elm =
     (let q1 = set_next q elm None;
          q2 = set_prev q1 elm (tqh_last q1);
          q3 = slot_set q2 (tqh_last q2) (Some elm)
      in q3\<lparr>tqh_last := NextOf elm\<rparr>)"

definition TAILQ_INSERT_AFTER :: "tailq \<Rightarrow> addr \<Rightarrow> addr \<Rightarrow> tailq" where
  "TAILQ_INSERT_AFTER q listelm elm =
     (let q1 = set_next q elm (tqe_next q listelm);
          q2 = (case tqe_next q1 elm of
                  Some f \<Rightarrow> set_prev q1 f (NextOf elm)
                | None \<Rightarrow> q1\<lparr>tqh_last := NextOf elm\<rparr>);
          q3 = set_next q2 listelm (Some elm)
      in set_prev q3 elm (NextOf listelm))"

definition TAILQ_INSERT_BEFORE :: "tailq \<Rightarrow> addr \<Rightarrow> addr \<Rightarrow> tailq" where
  "TAILQ_INSERT_BEFORE q listelm elm =
     (let q1 = set_prev q elm (tqe_prev q listelm);
          q2 = set_next q1 elm (Some listelm);
          q3 = slot_set q2 (tqe_prev q2 listelm) (Some elm)
      in set_prev q3 listelm (NextOf elm))"

definition TAILQ_REMOVE :: "tailq \<Rightarrow> addr \<Rightarrow> tailq" where
  "TAILQ_REMOVE q elm =
     (let q1 = (case tqe_next q elm of
                  Some f \<Rightarrow> set_prev q f (tqe_prev q elm)
                | None \<Rightarrow> q\<lparr>tqh_last := tqe_prev q elm\<rparr>)
      in slot_set q1 (tqe_prev q1 elm) (tqe_next q1 elm))"

definition TAILQ_REPLACE :: "tailq \<Rightarrow> addr \<Rightarrow> addr \<Rightarrow> tailq" where
  "TAILQ_REPLACE q elm elm2 =
     (let q1 = set_next q elm2 (tqe_next q elm);
          q2 = (case tqe_next q1 elm2 of
                  Some f \<Rightarrow> set_prev q1 f (NextOf elm2)
                | None \<Rightarrow> q1\<lparr>tqh_last := NextOf elm2\<rparr>);
          q3 = set_prev q2 elm2 (tqe_prev q2 elm)
      in slot_set q3 (tqe_prev q3 elm2) (Some elm2))"

text \<open>
  \<open>TAILQ_LAST\<close> and \<open>TAILQ_PREV\<close> read an element's entry as if it were a head: the word after
  the pointer variable a slot names is \<open>tqh_last\<close> or that element's \<open>tqe_prev\<close>.
\<close>

definition slot_second :: "tailq \<Rightarrow> slot \<Rightarrow> slot" where
  "slot_second q s = (case s of HeadFirst \<Rightarrow> tqh_last q | NextOf a \<Rightarrow> tqe_prev q a)"

definition TAILQ_LAST :: "tailq \<Rightarrow> addr option" where
  "TAILQ_LAST q = slot_get q (slot_second q (tqh_last q))"

definition TAILQ_PREV :: "tailq \<Rightarrow> addr \<Rightarrow> addr option" where
  "TAILQ_PREV q elm = slot_get q (slot_second q (tqe_prev q elm))"

text \<open>
  \<open>TAILQ_FOREACH\<close> visits the elements from \<open>TAILQ_FIRST\<close> along \<open>TAILQ_NEXT\<close> until \<open>NULL\<close>.
  On a queue with a cycle it does not return, which is \<open>None\<close> here.
\<close>

partial_function (option) tailq_walk :: "tailq \<Rightarrow> addr option \<Rightarrow> addr list option" where
  "tailq_walk q var =
     (case var of None \<Rightarrow> Some []
      | Some a \<Rightarrow> Option.bind (tailq_walk q (tqe_next q a)) (\<lambda>rest. Some (a # rest)))"

definition TAILQ_FOREACH :: "tailq \<Rightarrow> addr list option" where
  "TAILQ_FOREACH q = tailq_walk q (tqh_first q)"

section \<open>What a well-formed queue represents\<close>

text \<open>
  \<open>links q s xs\<close>: the chain of pointers that starts in the variable at \<open>s\<close> goes through the
  elements \<open>xs\<close>, each pointing back to the variable that points at it, and ends in the
  variable whose address is \<open>tqh_last\<close>.
\<close>

fun links :: "tailq \<Rightarrow> slot \<Rightarrow> addr list \<Rightarrow> bool" where
  "links q s [] \<longleftrightarrow> slot_get q s = None \<and> tqh_last q = s"
| "links q s (x # xs) \<longleftrightarrow> slot_get q s = Some x \<and> tqe_prev q x = s \<and> links q (NextOf x) xs"

definition tailq_rep :: "tailq \<Rightarrow> addr list \<Rightarrow> bool" where
  "tailq_rep q xs \<longleftrightarrow> distinct xs \<and> links q HeadFirst xs"


section \<open>Segments of the chain\<close>

fun seg :: "tailq \<Rightarrow> slot \<Rightarrow> addr list \<Rightarrow> bool" where
  "seg q s [] \<longleftrightarrow> True"
| "seg q s (x # xs) \<longleftrightarrow> slot_get q s = Some x \<and> tqe_prev q x = s \<and> seg q (NextOf x) xs"

definition end_slot :: "slot \<Rightarrow> addr list \<Rightarrow> slot" where
  "end_slot s xs = (if xs = [] then s else NextOf (last xs))"

lemma end_slot_simps [simp]:
  "end_slot s [] = s"
  "end_slot s (x # xs) = end_slot (NextOf x) xs"
  "end_slot s (xs @ [y]) = NextOf y"
  by (simp_all add: end_slot_def)

lemma end_slot_append [simp]: "end_slot s (xs @ ys) = end_slot (end_slot s xs) ys"
  by (simp add: end_slot_def)

lemma links_append: "links q s (xs @ ys) \<longleftrightarrow> seg q s xs \<and> links q (end_slot s xs) ys"
  by (induction xs arbitrary: s) auto

lemma links_seg: "links q s xs \<longleftrightarrow> seg q s xs \<and> slot_get q (end_slot s xs) = None
    \<and> tqh_last q = end_slot s xs"
  using links_append [of q s xs "[]"] by simp

lemma seg_append: "seg q s (xs @ ys) \<longleftrightarrow> seg q s xs \<and> seg q (end_slot s xs) ys"
  by (induction xs arbitrary: s) auto

text \<open>A segment depends only on the pointer variables it passes through and its back pointers.\<close>

lemma seg_cong:
  assumes "xs \<noteq> [] \<Longrightarrow> slot_get q' s = slot_get q s"
    and "\<And>x. x \<in> set (butlast xs) \<Longrightarrow> tqe_next q' x = tqe_next q x"
    and "\<And>x. x \<in> set xs \<Longrightarrow> tqe_prev q' x = tqe_prev q x"
  shows "seg q' s xs \<longleftrightarrow> seg q s xs"
  using assms
proof (induction xs arbitrary: s)
  case Nil
  then show ?case by simp
next
  case (Cons x xs)
  have "seg q' (NextOf x) xs \<longleftrightarrow> seg q (NextOf x) xs"
  proof (rule Cons.IH)
    show "xs \<noteq> [] \<Longrightarrow> slot_get q' (NextOf x) = slot_get q (NextOf x)"
      using Cons.prems(2) [of x] by (simp add: slot_get_def)
    show "\<And>y. y \<in> set (butlast xs) \<Longrightarrow> tqe_next q' y = tqe_next q y"
      using Cons.prems(2) by (metis butlast.simps(2) in_set_butlastD list.set_intros(2) empty_iff list.set(1))
    show "\<And>y. y \<in> set xs \<Longrightarrow> tqe_prev q' y = tqe_prev q y"
      using Cons.prems(3) by simp
  qed
  with Cons.prems show ?case by auto
qed

lemmas tailq_write_defs = slot_set_def slot_get_def set_next_def set_prev_def

text \<open>The end slot of a segment is not one of the variables inside it.\<close>

lemma end_slot_notin:
  assumes "distinct xs" "end_slot HeadFirst xs = NextOf a"
  shows "a \<notin> set (butlast xs)"
proof -
  have "xs \<noteq> []" "last xs = a" using assms(2) by (auto simp: end_slot_def split: if_splits)
  then obtain ys where "xs = ys @ [a]" by (metis append_butlast_last_id)
  with assms(1) show ?thesis by simp
qed

lemma end_slot_in: "end_slot HeadFirst xs = NextOf a \<Longrightarrow> a \<in> set xs"
  by (auto simp: end_slot_def split: if_splits)

lemma end_slot_HeadFirst: "end_slot HeadFirst xs = HeadFirst \<longleftrightarrow> xs = []"
  by (simp add: end_slot_def)

section \<open>Refinement of the macros to list operations\<close>

lemma rep_init: "tailq_rep (TAILQ_INIT q) []"
  by (simp add: tailq_rep_def TAILQ_INIT_def slot_get_def)

lemma rep_distinct: "tailq_rep q xs \<Longrightarrow> distinct xs"
  by (simp add: tailq_rep_def)

lemma rep_first: "tailq_rep q xs \<Longrightarrow> tqh_first q = (case xs of [] \<Rightarrow> None | x # _ \<Rightarrow> Some x)"
  by (cases xs) (simp_all add: tailq_rep_def slot_get_def)

lemma rep_empty: "tailq_rep q xs \<Longrightarrow> TAILQ_EMPTY q \<longleftrightarrow> xs = []"
  by (cases xs) (simp_all add: TAILQ_EMPTY_def rep_first)

lemma walk_links: "links q (NextOf a) xs \<Longrightarrow> tailq_walk q (tqe_next q a) = Some xs"
proof (induction xs arbitrary: a)
  case Nil
  then show ?case by (simp add: slot_get_def tailq_walk.simps)
next
  case (Cons x xs)
  then have "tqe_next q a = Some x" "tailq_walk q (tqe_next q x) = Some xs"
    by (simp_all add: slot_get_def)
  then show ?case by (simp add: tailq_walk.simps [of q "Some x"])
qed

lemma rep_foreach: "tailq_rep q xs \<Longrightarrow> TAILQ_FOREACH q = Some xs"
proof (cases xs)
  case (Cons x ys)
  assume "tailq_rep q xs"
  with Cons have "tqh_first q = Some x" "tailq_walk q (tqe_next q x) = Some ys"
    by (auto simp: tailq_rep_def slot_get_def intro: walk_links)
  with Cons show ?thesis
    by (simp add: TAILQ_FOREACH_def tailq_walk.simps [of q "Some x"])
qed (simp add: tailq_rep_def TAILQ_FOREACH_def slot_get_def tailq_walk.simps)

lemma rep_unique: "tailq_rep q xs \<Longrightarrow> tailq_rep q ys \<Longrightarrow> xs = ys"
  using rep_foreach [of q xs] rep_foreach [of q ys] by simp

lemma rep_insert_tail:
  assumes rep: "tailq_rep q xs" and new: "elm \<notin> set xs"
  shows "tailq_rep (TAILQ_INSERT_TAIL q elm) (xs @ [elm])"
proof -
  let ?q = "TAILQ_INSERT_TAIL q elm" and ?t = "end_slot HeadFirst xs"
  have xs: "distinct xs" "seg q HeadFirst xs" "tqh_last q = ?t"
    using rep by (simp_all add: tailq_rep_def links_seg)
  have "seg ?q HeadFirst xs \<longleftrightarrow> seg q HeadFirst xs"
  proof (rule seg_cong)
    show "xs \<noteq> [] \<Longrightarrow> slot_get ?q HeadFirst = slot_get q HeadFirst"
      using xs(3) by (auto simp: TAILQ_INSERT_TAIL_def tailq_write_defs end_slot_def Let_def)
  next
    fix x assume x: "x \<in> set (butlast xs)"
    then have "x \<noteq> elm" using new by (auto dest: in_set_butlastD)
    with x xs show "tqe_next ?q x = tqe_next q x"
      by (auto simp: TAILQ_INSERT_TAIL_def tailq_write_defs Let_def dest: end_slot_notin split: slot.splits)
  next
    fix x assume "x \<in> set xs"
    with new show "tqe_prev ?q x = tqe_prev q x"
      by (auto simp: TAILQ_INSERT_TAIL_def tailq_write_defs Let_def split: slot.splits)
  qed
  moreover have "links ?q ?t [elm]"
    using xs(3) new
    by (auto simp: TAILQ_INSERT_TAIL_def tailq_write_defs Let_def dest: end_slot_in split: slot.splits)
  ultimately show ?thesis
    using xs new by (simp add: tailq_rep_def links_append del: links.simps)
qed

lemma rep_insert_head:
  assumes rep: "tailq_rep q xs" and new: "elm \<notin> set xs"
  shows "tailq_rep (TAILQ_INSERT_HEAD q elm) (elm # xs)"
proof (cases xs)
  case Nil
  with rep show ?thesis
    by (simp add: tailq_rep_def TAILQ_INSERT_HEAD_def tailq_write_defs Let_def)
next
  case (Cons x ys)
  let ?q = "TAILQ_INSERT_HEAD q elm"
  have q: "tqh_first q = Some x" "seg q (NextOf x) ys" "slot_get q (end_slot (NextOf x) ys) = None"
    "tqh_last q = end_slot (NextOf x) ys" "distinct (x # ys)" "elm \<notin> set (x # ys)"
    using rep new Cons by (simp_all add: tailq_rep_def links_seg slot_get_def)
  have "seg ?q (NextOf x) ys \<longleftrightarrow> seg q (NextOf x) ys"
    by (rule seg_cong) (use q in \<open>auto simp: TAILQ_INSERT_HEAD_def tailq_write_defs Let_def dest: in_set_butlastD\<close>)
  moreover have "slot_get ?q (end_slot (NextOf x) ys) = None" "tqh_last ?q = end_slot (NextOf x) ys"
    using q by (auto simp: TAILQ_INSERT_HEAD_def tailq_write_defs Let_def end_slot_def split: if_splits)
  ultimately show ?thesis
    using q Cons by (auto simp: tailq_rep_def links_seg TAILQ_INSERT_HEAD_def tailq_write_defs Let_def)
qed


text \<open>Frame rules for an update in the middle: the part before it and the part after it.\<close>

lemma links_frame:
  assumes "\<And>x. x \<in> set (a # xs) \<Longrightarrow> tqe_next q' x = tqe_next q x"
    and "\<And>x. x \<in> set xs \<Longrightarrow> tqe_prev q' x = tqe_prev q x"
    and "tqh_last q' = tqh_last q"
  shows "links q' (NextOf a) xs \<longleftrightarrow> links q (NextOf a) xs"
  using assms by (induction xs arbitrary: a) (auto simp: slot_get_def)

lemma rep_split:
  "tailq_rep q (as @ e # bs) \<longleftrightarrow> distinct (as @ e # bs) \<and> seg q HeadFirst as
     \<and> slot_get q (end_slot HeadFirst as) = Some e \<and> tqe_prev q e = end_slot HeadFirst as
     \<and> links q (NextOf e) bs"
  by (simp add: tailq_rep_def links_append)

lemma seg_prefix_frame:
  assumes "distinct as" "seg q HeadFirst as"
    and "as \<noteq> [] \<Longrightarrow> tqh_first q' = tqh_first q"
    and "\<And>x. x \<in> set as \<Longrightarrow> NextOf x \<noteq> end_slot HeadFirst as \<Longrightarrow> tqe_next q' x = tqe_next q x"
    and "\<And>x. x \<in> set as \<Longrightarrow> tqe_prev q' x = tqe_prev q x"
  shows "seg q' HeadFirst as"
proof -
  have "seg q' HeadFirst as \<longleftrightarrow> seg q HeadFirst as"
  proof (rule seg_cong)
    fix x assume "x \<in> set (butlast as)"
    then have "x \<in> set as" "NextOf x \<noteq> end_slot HeadFirst as"
      using assms(1) end_slot_notin [of as x] by (auto dest: in_set_butlastD)
    then show "tqe_next q' x = tqe_next q x" by (rule assms(4))
  qed (use assms in \<open>simp_all add: slot_get_def\<close>)
  with assms(2) show ?thesis by simp
qed

lemma rep_remove:
  assumes "tailq_rep q (as @ elm # bs)"
  shows "tailq_rep (TAILQ_REMOVE q elm) (as @ bs)"
proof -
  let ?q = "TAILQ_REMOVE q elm" and ?s = "end_slot HeadFirst as"
  note q = assms [unfolded rep_split]
  have "seg ?q HeadFirst as"
  proof (rule seg_prefix_frame [of as q])
    show "as \<noteq> [] \<Longrightarrow> tqh_first ?q = tqh_first q"
      using q by (auto simp: TAILQ_REMOVE_def tailq_write_defs Let_def end_slot_def split: option.splits)
    show "\<And>x. x \<in> set as \<Longrightarrow> NextOf x \<noteq> ?s \<Longrightarrow> tqe_next ?q x = tqe_next q x"
      using q by (auto simp: TAILQ_REMOVE_def tailq_write_defs Let_def split: slot.splits option.splits)
    show "\<And>x. x \<in> set as \<Longrightarrow> tqe_prev ?q x = tqe_prev q x"
      using q by (cases bs) (auto simp: TAILQ_REMOVE_def tailq_write_defs Let_def split: slot.splits option.splits)
  qed (use q in simp_all)
  moreover have "links ?q ?s bs"
  proof (cases bs)
    case Nil
    with q show ?thesis
      by (cases as rule: rev_cases) (auto simp: TAILQ_REMOVE_def tailq_write_defs Let_def)
  next
    case (Cons b cs)
    have "links ?q (NextOf b) cs \<longleftrightarrow> links q (NextOf b) cs"
      by (rule links_frame; cases as rule: rev_cases)
        (use q Cons in \<open>auto simp: TAILQ_REMOVE_def tailq_write_defs Let_def\<close>)
    with q Cons show ?thesis
      by (cases as rule: rev_cases) (auto simp: TAILQ_REMOVE_def tailq_write_defs Let_def)
  qed
  ultimately show ?thesis using q by (simp add: tailq_rep_def links_append)
qed

lemma rep_replace:
  assumes "tailq_rep q (as @ elm # bs)" and new: "elm2 \<notin> set (as @ elm # bs)"
  shows "tailq_rep (TAILQ_REPLACE q elm elm2) (as @ elm2 # bs)"
proof -
  let ?q = "TAILQ_REPLACE q elm elm2" and ?s = "end_slot HeadFirst as"
  note q = assms(1) [unfolded rep_split]
  have "seg ?q HeadFirst as"
  proof (rule seg_prefix_frame [of as q])
    show "as \<noteq> [] \<Longrightarrow> tqh_first ?q = tqh_first q"
      using q new by (auto simp: TAILQ_REPLACE_def tailq_write_defs Let_def end_slot_def split: option.splits)
    show "\<And>x. x \<in> set as \<Longrightarrow> NextOf x \<noteq> ?s \<Longrightarrow> tqe_next ?q x = tqe_next q x"
      using q new by (auto simp: TAILQ_REPLACE_def tailq_write_defs Let_def split: slot.splits option.splits)
    show "\<And>x. x \<in> set as \<Longrightarrow> tqe_prev ?q x = tqe_prev q x"
      using q new by (cases bs) (auto simp: TAILQ_REPLACE_def tailq_write_defs Let_def split: slot.splits option.splits)
  qed (use q in simp_all)
  moreover have "links ?q (NextOf elm2) bs"
  proof (cases bs)
    case Nil
    with q new show ?thesis
      by (cases as rule: rev_cases) (auto simp: TAILQ_REPLACE_def tailq_write_defs Let_def)
  next
    case (Cons b cs)
    have "links ?q (NextOf b) cs \<longleftrightarrow> links q (NextOf b) cs"
      by (rule links_frame; cases as rule: rev_cases)
        (use q new Cons in \<open>auto simp: TAILQ_REPLACE_def tailq_write_defs Let_def\<close>)
    with q new Cons show ?thesis
      by (cases as rule: rev_cases) (auto simp: TAILQ_REPLACE_def tailq_write_defs Let_def)
  qed
  moreover have "slot_get ?q ?s = Some elm2" "tqe_prev ?q elm2 = ?s"
    using q new
    by (cases as rule: rev_cases; cases bs; auto simp: TAILQ_REPLACE_def tailq_write_defs Let_def)+
  ultimately show ?thesis using q new by (auto simp: rep_split)
qed

lemma rep_insert_after:
  assumes "tailq_rep q (as @ l # bs)" and new: "elm \<notin> set (as @ l # bs)"
  shows "tailq_rep (TAILQ_INSERT_AFTER q l elm) (as @ l # elm # bs)"
proof -
  let ?q = "TAILQ_INSERT_AFTER q l elm" and ?s = "end_slot HeadFirst as"
  note q = assms(1) [unfolded rep_split]
  have "seg ?q HeadFirst as"
    by (rule seg_prefix_frame [of as q]; cases bs)
      (use q new in \<open>auto simp: TAILQ_INSERT_AFTER_def tailq_write_defs Let_def\<close>)
  moreover have "links ?q (NextOf elm) bs"
  proof (cases bs)
    case Nil
    with q new show ?thesis by (auto simp: TAILQ_INSERT_AFTER_def tailq_write_defs Let_def)
  next
    case (Cons b cs)
    have "links ?q (NextOf b) cs \<longleftrightarrow> links q (NextOf b) cs"
      by (rule links_frame) (use q new Cons in \<open>auto simp: TAILQ_INSERT_AFTER_def tailq_write_defs Let_def\<close>)
    with q new Cons show ?thesis by (auto simp: TAILQ_INSERT_AFTER_def tailq_write_defs Let_def)
  qed
  moreover have "slot_get ?q ?s = Some l" "tqe_prev ?q l = ?s" "tqe_next ?q l = Some elm"
      "tqe_prev ?q elm = NextOf l"
    using q new
    by (cases as rule: rev_cases; cases bs; auto simp: TAILQ_INSERT_AFTER_def tailq_write_defs Let_def)+
  ultimately show ?thesis using q new by (auto simp: rep_split slot_get_def)
qed

lemma rep_insert_before:
  assumes "tailq_rep q (as @ l # bs)" and new: "elm \<notin> set (as @ l # bs)"
  shows "tailq_rep (TAILQ_INSERT_BEFORE q l elm) (as @ elm # l # bs)"
proof -
  let ?q = "TAILQ_INSERT_BEFORE q l elm" and ?s = "end_slot HeadFirst as"
  note q = assms(1) [unfolded rep_split]
  have "seg ?q HeadFirst as"
    by (rule seg_prefix_frame [of as q]; cases as rule: rev_cases)
      (use q new in \<open>auto simp: TAILQ_INSERT_BEFORE_def tailq_write_defs Let_def\<close>)
  moreover have "links ?q (NextOf l) bs \<longleftrightarrow> links q (NextOf l) bs"
    by (rule links_frame; cases as rule: rev_cases)
      (use q new in \<open>auto simp: TAILQ_INSERT_BEFORE_def tailq_write_defs Let_def\<close>)
  moreover have "slot_get ?q ?s = Some elm" "tqe_prev ?q l = NextOf elm" "tqe_next ?q elm = Some l"
      "tqe_prev ?q elm = ?s"
    using q new
    by (cases as rule: rev_cases; auto simp: TAILQ_INSERT_BEFORE_def tailq_write_defs Let_def)+
  ultimately show ?thesis using q new by (auto simp: rep_split slot_get_def)
qed

lemma rep_last:
  assumes "tailq_rep q xs"
  shows "TAILQ_LAST q = (if xs = [] then None else Some (last xs))"
proof (cases xs rule: rev_cases)
  case Nil
  with assms show ?thesis by (simp add: tailq_rep_def TAILQ_LAST_def slot_second_def)
next
  case (snoc ys y)
  with assms have "tailq_rep q (ys @ y # [])" by simp
  then show ?thesis unfolding rep_split using snoc by (simp add: TAILQ_LAST_def slot_second_def)
qed

lemma rep_last_slot: "tailq_rep q xs \<Longrightarrow> slot_get q (tqh_last q) = None"
  by (simp add: tailq_rep_def links_seg)

lemma rep_prev:
  assumes "tailq_rep q (as @ e # bs)"
  shows "TAILQ_PREV q e = (if as = [] then None else Some (last as))"
proof (cases as rule: rev_cases)
  case Nil
  with assms show ?thesis
    using rep_last_slot [OF assms] unfolding rep_split by (simp add: TAILQ_PREV_def slot_second_def)
next
  case (snoc ys y)
  with assms have "tailq_rep q (ys @ y # e # bs)" "tqe_prev q e = NextOf y"
    by (simp_all add: rep_split)
  then show ?thesis unfolding rep_split using snoc by (simp add: TAILQ_PREV_def slot_second_def)
qed


section \<open>The interface a client of the queue relies on\<close>

text \<open>
  A container of distinct elements in arrival order: elements enter at the tail and leave from
  anywhere. \<open>fireServer.c\<close> uses its queue of clients only through these operations.
\<close>

datatype 'a store_op = Enter 'a | Leave 'a

fun legal_ops :: "'a list \<Rightarrow> 'a store_op list \<Rightarrow> bool" where
  "legal_ops xs [] \<longleftrightarrow> True"
| "legal_ops xs (Enter x # ops) \<longleftrightarrow> x \<notin> set xs \<and> legal_ops (xs @ [x]) ops"
| "legal_ops xs (Leave x # ops) \<longleftrightarrow> x \<in> set xs \<and> legal_ops (remove1 x xs) ops"

fun list_ops :: "'a list \<Rightarrow> 'a store_op list \<Rightarrow> 'a list" where
  "list_ops xs [] = xs"
| "list_ops xs (Enter x # ops) = list_ops (xs @ [x]) ops"
| "list_ops xs (Leave x # ops) = list_ops (remove1 x xs) ops"

locale ordered_store =
  fixes enter :: "'s \<Rightarrow> 'a \<Rightarrow> 's"
    and leave :: "'s \<Rightarrow> 'a \<Rightarrow> 's"
    and walk :: "'s \<Rightarrow> 'a list option"
    and rep :: "'s \<Rightarrow> 'a list \<Rightarrow> bool"
  assumes distinct_rep: "rep s xs \<Longrightarrow> distinct xs"
    and enter_rep: "rep s xs \<Longrightarrow> x \<notin> set xs \<Longrightarrow> rep (enter s x) (xs @ [x])"
    and leave_rep: "rep s xs \<Longrightarrow> x \<in> set xs \<Longrightarrow> rep (leave s x) (remove1 x xs)"
    and walk_rep: "rep s xs \<Longrightarrow> walk s = Some xs"
begin

definition apply_op :: "'s \<Rightarrow> 'a store_op \<Rightarrow> 's" where
  "apply_op s op = (case op of Enter x \<Rightarrow> enter s x | Leave x \<Rightarrow> leave s x)"

lemma run_rep:
  "rep s xs \<Longrightarrow> legal_ops xs ops \<Longrightarrow> rep (foldl apply_op s ops) (list_ops xs ops)"
proof (induction ops arbitrary: s xs)
  case (Cons op ops)
  then show ?case by (cases op) (auto simp: apply_op_def intro: enter_rep leave_rep)
qed simp

lemma run_walk:
  "rep s xs \<Longrightarrow> legal_ops xs ops \<Longrightarrow> walk (foldl apply_op s ops) = Some (list_ops xs ops)"
  by (rule walk_rep, rule run_rep)

lemma walk_determines: "rep s xs \<Longrightarrow> rep s ys \<Longrightarrow> xs = ys"
  using walk_rep [of s xs] walk_rep [of s ys] by simp

lemma enter_leave: "rep s xs \<Longrightarrow> x \<notin> set xs \<Longrightarrow> rep (leave (enter s x) x) xs"
  using leave_rep [OF enter_rep, of s xs x x] by (simp add: remove1_append)

end

lemma rep_remove1:
  assumes "tailq_rep q xs" "x \<in> set xs"
  shows "tailq_rep (TAILQ_REMOVE q x) (remove1 x xs)"
proof -
  obtain as bs where "xs = as @ x # bs" "x \<notin> set as" using split_list_first [OF assms(2)] by auto
  with rep_remove [of q as x bs] assms(1) show ?thesis by (simp add: remove1_append)
qed

interpretation tq: ordered_store TAILQ_INSERT_TAIL TAILQ_REMOVE TAILQ_FOREACH tailq_rep
  by unfold_locales (auto intro: rep_distinct rep_insert_tail rep_remove1 rep_foreach)

section \<open>Properties\<close>

text \<open>C15: Started with \<open>TAILQ_INIT\<close> on whatever the memory held, any sequence of insertions of elements
  that are not in the queue and removals of elements that are leaves a queue that \<open>TAILQ_FOREACH\<close> walks
  to its end and that holds exactly the elements of the same sequence on a list, in order of arrival.\<close>
theorem tailq_runs:
  assumes "legal_ops [] ops"
  shows "TAILQ_FOREACH (foldl tq.apply_op (TAILQ_INIT q) ops) = Some (list_ops [] ops)
    \<and> distinct (list_ops [] ops)"
  using tq.run_walk [OF rep_init assms] tq.distinct_rep [OF tq.run_rep [OF rep_init assms]] by blast

definition blank_queue :: tailq where
  "blank_queue = \<lparr>tqh_first = Some 5, tqh_last = HeadFirst, tqe_next = (\<lambda>_. Some 7), tqe_prev = (\<lambda>_. HeadFirst)\<rparr>"

theorem tailq_runs_witness:
  "TAILQ_FOREACH (foldl tq.apply_op (TAILQ_INIT blank_queue) [Enter 1, Enter 2, Enter 3, Leave 2]) = Some [1, 3]"
  using tailq_runs [of "[Enter 1, Enter 2, Enter 3, Leave 2]" blank_queue] by simp

text \<open>The remaining macros of \<open>sys/queue.h\<close> refine the list operations they stand for: inserting at
  the head, after or before an element and replacing an element change exactly that place of the list, and
  \<open>TAILQ_LAST\<close>, \<open>TAILQ_PREV\<close> and \<open>TAILQ_EMPTY\<close>, which read a queue head through an element's type,
  give the last element, the predecessor and emptiness.\<close>
lemma tailq_places:
  assumes rep: "tailq_rep q (as @ l # bs)" and new: "elm \<notin> set (as @ l # bs)"
  shows "tailq_rep (TAILQ_INSERT_HEAD q elm) (elm # as @ l # bs)
    \<and> tailq_rep (TAILQ_INSERT_AFTER q l elm) (as @ l # elm # bs)
    \<and> tailq_rep (TAILQ_INSERT_BEFORE q l elm) (as @ elm # l # bs)
    \<and> tailq_rep (TAILQ_REPLACE q l elm) (as @ elm # bs)
    \<and> TAILQ_LAST q = Some (last (l # bs))
    \<and> TAILQ_PREV q l = (if as = [] then None else Some (last as)) \<and> \<not> TAILQ_EMPTY q"
  using rep_insert_head [OF rep new] rep_insert_after [OF rep new] rep_insert_before [OF rep new]
    rep_replace [OF rep new] rep_last [OF rep] rep_prev [OF rep] rep_empty [OF rep] by auto

lemma tailq_places_witness:
  "TAILQ_FOREACH (TAILQ_INSERT_BEFORE (TAILQ_INSERT_TAIL (TAILQ_INSERT_TAIL (TAILQ_INIT blank_queue) 1) 2) 2 3) = Some [1, 3, 2]"
proof -
  have "tailq_rep (TAILQ_INSERT_TAIL (TAILQ_INSERT_TAIL (TAILQ_INIT blank_queue) 1) 2) ([1] @ 2 # [])"
    using tq.enter_rep [OF tq.enter_rep [OF rep_init, of 1], of 2] by simp
  from tailq_places [OF this, of 3] show ?thesis by (auto intro: tq.walk_rep)
qed

end
