(* ===== verification/Bufferevent.thy ===== *)
theory Bufferevent
  imports Evbuffer Tail_Queue Event_Flags
begin

text \<open>
  The part of libevent's \<open>struct bufferevent\<close> (\<open>bufferevent.c\<close>, \<open>bufferevent_sock.c\<close>) that the
  server and its clients use: creation on a socket, callbacks, enabling, reading, writing and
  freeing. The two events of a bufferevent are modelled by whether they are added to the event
  base; whether \<open>event_add\<close> succeeds is the parameter \<open>ev_ok\<close>. Locks and rate limits are not
  modelled (the programs enable neither).
\<close>

definition BEV_EVENT_EOF :: u16 where "BEV_EVENT_EOF = 0x10"
definition BEV_EVENT_ERROR :: u16 where "BEV_EVENT_ERROR = 0x20"
definition BEV_EVENT_CONNECTED :: u16 where "BEV_EVENT_CONNECTED = 0x80"
definition BEV_OPT_CLOSE_ON_FREE :: u32 where "BEV_OPT_CLOSE_ON_FREE = 1"
definition BEV_OPT_DEFER_CALLBACKS :: u32 where "BEV_OPT_DEFER_CALLBACKS = 4"
definition BEV_OPT_UNLOCK_CALLBACKS :: u32 where "BEV_OPT_UNLOCK_CALLBACKS = 8"

lemmas ev_flag_defs = EV_READ_def EV_WRITE_def EV_PERSIST_def BEV_EVENT_EOF_def BEV_EVENT_ERROR_def
  BEV_EVENT_CONNECTED_def BEV_OPT_CLOSE_ON_FREE_def BEV_OPT_DEFER_CALLBACKS_def BEV_OPT_UNLOCK_CALLBACKS_def

record 'cb bufferevent =
  bev_fd :: int
  bev_input :: evbuffer
  bev_output :: evbuffer
  bev_enabled :: u16
  bev_options :: u32
  bev_refcnt :: nat
  read_suspended :: bool
  write_suspended :: bool
  bev_readcb :: "'cb option"
  bev_writecb :: "'cb option"
  bev_errorcb :: "'cb option"
  bev_cbarg :: "addr option"
  ev_read_added :: bool
  ev_write_added :: bool

text \<open>
  \<open>bufferevent_init_common_\<close> on a freshly zeroed object; the parameters say whether the two
  buffers could be allocated.
\<close>

definition bufferevent_init_common ::
    "'cb bufferevent \<Rightarrow> bool \<Rightarrow> bool \<Rightarrow> u32 \<Rightarrow> int \<times> 'cb bufferevent" where
  "bufferevent_init_common bev input_ok output_ok options =
     (if \<not> input_ok then (-1, bev)
      else if \<not> output_ok then (-1, bev)
      else let bev1 = bev\<lparr>bev_input := evbuffer_new, bev_output := evbuffer_new, bev_refcnt := 1,
                          bev_enabled := EV_WRITE\<rparr>
           in if options AND (BEV_OPT_DEFER_CALLBACKS OR BEV_OPT_UNLOCK_CALLBACKS) = BEV_OPT_UNLOCK_CALLBACKS
              then (-1, bev1)
              else (0, bev1\<lparr>bev_options := options\<rparr>))"

definition bufferevent_socket_new ::
    "bool \<Rightarrow> bool \<Rightarrow> bool \<Rightarrow> int \<Rightarrow> u32 \<Rightarrow> 'cb bufferevent option" where
  "bufferevent_socket_new struct_ok input_ok output_ok fd options =
     (if \<not> struct_ok then None
      else let zero = \<lparr>bev_fd = fd, bev_input = evbuffer_new, bev_output = evbuffer_new, bev_enabled = 0,
                 bev_options = 0, bev_refcnt = 0, read_suspended = False, write_suspended = False,
                 bev_readcb = None, bev_writecb = None, bev_errorcb = None, bev_cbarg = None,
                 ev_read_added = False, ev_write_added = False\<rparr>
           in case bufferevent_init_common zero input_ok output_ok options of (r, bev) \<Rightarrow>
                if r < 0 then None
                else Some (bev\<lparr>bev_output := evbuffer_freeze
                                 ((bev_output bev)\<lparr>callbacks := EVBUFFER_CB_ENABLED # callbacks (bev_output bev)\<rparr>) True,
                               bev_input := evbuffer_freeze (bev_input bev) False\<rparr>))"

definition bufferevent_setcb ::
    "'cb bufferevent \<Rightarrow> 'cb option \<Rightarrow> 'cb option \<Rightarrow> 'cb option \<Rightarrow> addr option \<Rightarrow> 'cb bufferevent" where
  "bufferevent_setcb bev r w e arg =
     bev\<lparr>bev_readcb := r, bev_writecb := w, bev_errorcb := e, bev_cbarg := arg\<rparr>"

definition be_socket_enable :: "bool \<Rightarrow> 'cb bufferevent \<Rightarrow> u16 \<Rightarrow> int \<times> 'cb bufferevent" where
  "be_socket_enable ev_ok bev event =
     (if event AND EV_READ \<noteq> 0 \<and> \<not> ev_ok then (-1, bev)
      else let bev1 = (if event AND EV_READ \<noteq> 0 then bev\<lparr>ev_read_added := True\<rparr> else bev)
           in if event AND EV_WRITE \<noteq> 0 \<and> \<not> ev_ok then (-1, bev1)
              else (0, if event AND EV_WRITE \<noteq> 0 then bev1\<lparr>ev_write_added := True\<rparr> else bev1))"

definition bufferevent_enable :: "bool \<Rightarrow> 'cb bufferevent \<Rightarrow> u16 \<Rightarrow> int \<times> 'cb bufferevent" where
  "bufferevent_enable ev_ok bev event =
     (let impl1 = (if read_suspended bev then event AND NOT EV_READ else event);
          impl_events = (if write_suspended bev then impl1 AND NOT EV_WRITE else impl1);
          bev1 = bev\<lparr>bev_enabled := bev_enabled bev OR event\<rparr>
      in if impl_events \<noteq> 0
         then (case be_socket_enable ev_ok bev1 impl_events of (r, bev2) \<Rightarrow> (if r < 0 then -1 else 0, bev2))
         else (0, bev1))"

text \<open>The callback the output buffer runs when it changes: start writing.\<close>

definition bufferevent_socket_outbuf_cb :: "bool \<Rightarrow> 'cb bufferevent \<Rightarrow> cb_info \<Rightarrow> 'cb bufferevent" where
  "bufferevent_socket_outbuf_cb ev_ok bev info =
     (if n_added info \<noteq> 0 \<and> bev_enabled bev AND EV_WRITE \<noteq> 0 \<and> \<not> ev_write_added bev
         \<and> \<not> write_suspended bev
      then (if ev_ok then bev\<lparr>ev_write_added := True\<rparr> else bev)
      else bev)"

definition bufferevent_write :: "allocator \<Rightarrow> bool \<Rightarrow> 'cb bufferevent \<Rightarrow> byte list \<Rightarrow> int \<times> 'cb bufferevent" where
  "bufferevent_write mm ev_ok bev data =
     (case evbuffer_add mm (bev_output bev) data of (r, o') \<Rightarrow>
        (if r = -1 then -1 else 0,
         foldl (bufferevent_socket_outbuf_cb ev_ok) (bev\<lparr>bev_output := o'\<rparr>)
           (drop (length (cb_log (bev_output bev))) (cb_log o'))))"

text \<open>
  \<open>bufferevent_read\<close> converts the \<open>int\<close> of \<open>evbuffer_remove\<close> to \<open>size_t\<close>: -1 becomes the
  largest \<open>size_t\<close>. \<open>None\<close> is a failed assertion below.
\<close>

definition int_to_size_t :: "int \<Rightarrow> nat" where
  "int_to_size_t n = nat (n mod 2 ^ 32)"

definition bufferevent_read :: "'cb bufferevent \<Rightarrow> nat \<Rightarrow> (nat \<times> byte list \<times> 'cb bufferevent) option" where
  "bufferevent_read bev n =
     (case evbuffer_remove (bev_input bev) n of
        None \<Rightarrow> None
      | Some (r, data, i') \<Rightarrow> Some (int_to_size_t r, data, bev\<lparr>bev_input := i'\<rparr>))"

text \<open>
  Freeing drops the callbacks and one reference. With no reference left the object is finalised
  (\<open>None\<close>); while one of its own callbacks runs, libevent holds another reference.
\<close>

definition bufferevent_decref :: "'cb bufferevent \<Rightarrow> 'cb bufferevent option" where
  "bufferevent_decref bev =
     (if bev_refcnt bev - 1 \<noteq> 0 then Some (bev\<lparr>bev_refcnt := bev_refcnt bev - 1\<rparr>) else None)"

definition bufferevent_free :: "'cb bufferevent \<Rightarrow> 'cb bufferevent option" where
  "bufferevent_free bev = bufferevent_decref (bufferevent_setcb bev None None None None)"

section \<open>Invariant\<close>

text \<open>
  What \<open>bufferevent_socket_new\<close> sets up and the other operations keep: both buffers are well
  formed, the input can be read by the user and the output cannot, and the output buffer reports
  every addition to the socket's write event.
\<close>

definition bev_ok :: "'cb bufferevent \<Rightarrow> bool" where
  "bev_ok bev \<longleftrightarrow> evb_readable (bev_input bev) \<and> evb_inv (bev_output bev)
     \<and> \<not> freeze_end (bev_output bev) \<and> callbacks (bev_output bev) = [EVBUFFER_CB_ENABLED]
     \<and> \<not> deferred_cbs (bev_output bev)
     \<and> n_add_for_cb (bev_output bev) = 0 \<and> n_del_for_cb (bev_output bev) = 0"

lemma evb_freeze_inv [simp]: "evb_inv (evbuffer_freeze b s) \<longleftrightarrow> evb_inv b"
  "evb_bytes (evbuffer_freeze b s) = evb_bytes b"
  by (simp_all add: evbuffer_freeze_def evb_inv_def evb_bytes_def)

lemma evb_set_callbacks [simp]: "evb_inv (b\<lparr>callbacks := c\<rparr>) \<longleftrightarrow> evb_inv b"
  "evb_bytes (b\<lparr>callbacks := c\<rparr>) = evb_bytes b"
  by (simp_all add: evb_inv_def evb_bytes_def)

lemma socket_new_ok:
  assumes "bufferevent_socket_new a b c fd options = Some bev"
  shows "bev_ok bev" "evb_bytes (bev_input bev) = []" "evb_bytes (bev_output bev) = []"
    "bev_enabled bev = EV_WRITE" "bev_fd bev = fd" "\<not> ev_write_added bev" "\<not> write_suspended bev"
    "\<not> read_suspended bev" "bev_refcnt bev = 1"
  using assms
  by (auto simp: bufferevent_socket_new_def bufferevent_init_common_def Let_def bev_ok_def evb_readable_def
      split: if_splits) (simp_all add: evbuffer_freeze_def evbuffer_new_def)

subsection \<open>Writing\<close>

text \<open>One notification per successful addition, with the number of bytes added.\<close>

definition quiet :: "evbuffer \<Rightarrow> bool" where
  "quiet b \<longleftrightarrow> callbacks b = [EVBUFFER_CB_ENABLED] \<and> \<not> deferred_cbs b \<and> n_add_for_cb b = 0 \<and> n_del_for_cb b = 0"

lemma invoke_log:
  assumes "callbacks b = [EVBUFFER_CB_ENABLED]" "\<not> deferred_cbs b" "n_del_for_cb b = 0" "n_add_for_cb b = n"
  shows "quiet (evbuffer_invoke_callbacks b)"
    "\<exists>infos. cb_log (evbuffer_invoke_callbacks b) = cb_log b @ infos \<and> (\<forall>i \<in> set infos. n_added i = n)
       \<and> (n \<noteq> 0 \<longrightarrow> infos \<noteq> [])"
  using assms
  by (auto simp: evbuffer_invoke_callbacks_def evbuffer_run_callbacks_def Let_def quiet_def EVBUFFER_CB_ENABLED_def)

lemma chain_insert_frame [simp]:
  "callbacks (evbuffer_chain_insert b c) = callbacks b"
  "deferred_cbs (evbuffer_chain_insert b c) = deferred_cbs b"
  "n_add_for_cb (evbuffer_chain_insert b c) = n_add_for_cb b"
  "n_del_for_cb (evbuffer_chain_insert b c) = n_del_for_cb b"
  "cb_log (evbuffer_chain_insert b c) = cb_log b"
  by (simp_all add: evbuffer_chain_insert_def evbuffer_free_trailing_empty_chains_def Let_def)

lemma count_added_frame [simp]:
  "callbacks (evbuffer_count_added b n) = callbacks b"
  "deferred_cbs (evbuffer_count_added b n) = deferred_cbs b"
  "n_add_for_cb (evbuffer_count_added b n) = n_add_for_cb b + n"
  "n_del_for_cb (evbuffer_count_added b n) = n_del_for_cb b"
  "cb_log (evbuffer_count_added b n) = cb_log b"
  by (simp_all add: evbuffer_count_added_def)


definition noted :: "evbuffer \<Rightarrow> nat \<Rightarrow> evbuffer \<Rightarrow> bool" where
  "noted b n b' \<longleftrightarrow> quiet b' \<and> (\<exists>infos. cb_log b' = cb_log b @ infos \<and> (\<forall>i \<in> set infos. n_added i = n)
     \<and> (n \<noteq> 0 \<longrightarrow> infos \<noteq> []))"

lemma notedI:
  assumes "quiet b" "b' = evbuffer_invoke_callbacks x" "callbacks x = callbacks b" "deferred_cbs x = deferred_cbs b"
    "n_del_for_cb x = n_del_for_cb b" "n_add_for_cb x = n_add_for_cb b + n" "cb_log x = cb_log b"
  shows "noted b n b'"
  using invoke_log [of x n] assms by (auto simp: noted_def quiet_def)

lemma add_at_noted:
  assumes q: "quiet b" and c: "chain_ok (chains b ! i)" and eq: "evbuffer_add_at mm b i data = (0, b')"
  shows "noted b (length data) b'"
  using c
proof (cases rule: add_at_cases [where mm = mm and data = data])
  case (grown c')
  with eq have "b' = evbuffer_invoke_callbacks
      (evbuffer_count_added (b\<lparr>chains := (chains b)[i := c']\<rparr>) (length data))" by simp
  then show ?thesis by (rule notedI [OF q]) simp_all
next
  case no_memory
  with eq show ?thesis by simp
next
  case (split tmp rm c' b1)
  let ?b2 = "evbuffer_chain_insert b1 (chain_append tmp (drop rm data))"
  have "b' = evbuffer_invoke_callbacks (?b2\<lparr>n_add_for_cb := n_add_for_cb ?b2 + length (drop rm data)\<rparr>)"
    using eq split(8) by simp
  then show ?thesis
    by (rule notedI [OF q]) (use split(2,7) in simp_all)
qed

lemma add_noted:
  assumes inv: "evb_inv b" and q: "quiet b" and eq: "evbuffer_add mm b data = (0, b')"
  shows "noted b (length data) b'"
proof (cases "chains b = []")
  case True
  with eq obtain c where new: "evbuffer_chain_new mm (length data) = Some c"
    and c: "evbuffer_add_at mm (evbuffer_chain_insert b c) 0 data = (0, b')"
    by (auto simp: evbuffer_add_def split: if_splits option.splits)
  have "quiet (evbuffer_chain_insert b c)" using q by (simp add: quiet_def)
  moreover have "chain_ok (chains (evbuffer_chain_insert b c) ! 0)"
    using True chain_new_SomeD(6) [OF new] by (simp add: evbuffer_chain_insert_def)
  ultimately have "noted (evbuffer_chain_insert b c) (length data) b'" using c by (rule add_at_noted)
  then show ?thesis by (simp add: noted_def)
next
  case False
  then have p: "last_with_datap b < length (chains b)" using inv by (simp add: evb_inv_def lwd_ok_def)
  with False eq have "evbuffer_add_at mm b (last_with_datap b) data = (0, b')"
    by (auto simp: evbuffer_add_def split: if_splits)
  with q _ show ?thesis by (rule add_at_noted) (use inv p in \<open>simp add: evb_inv_chain_ok\<close>)
qed

lemma outbuf_cb_sel [simp]:
  "bev_output (bufferevent_socket_outbuf_cb e bev i) = bev_output bev"
  "bev_input (bufferevent_socket_outbuf_cb e bev i) = bev_input bev"
  "bev_enabled (bufferevent_socket_outbuf_cb e bev i) = bev_enabled bev"
  "write_suspended (bufferevent_socket_outbuf_cb e bev i) = write_suspended bev"
  "bev_cbarg (bufferevent_socket_outbuf_cb e bev i) = bev_cbarg bev"
  "bev_fd (bufferevent_socket_outbuf_cb e bev i) = bev_fd bev"
  "bev_refcnt (bufferevent_socket_outbuf_cb e bev i) = bev_refcnt bev"
  "bev_readcb (bufferevent_socket_outbuf_cb e bev i) = bev_readcb bev"
  "bev_errorcb (bufferevent_socket_outbuf_cb e bev i) = bev_errorcb bev"
  by (simp_all add: bufferevent_socket_outbuf_cb_def)

lemma outbuf_cbs_sel [simp]:
  "bev_output (foldl (bufferevent_socket_outbuf_cb e) bev is) = bev_output bev"
  "bev_input (foldl (bufferevent_socket_outbuf_cb e) bev is) = bev_input bev"
  "bev_enabled (foldl (bufferevent_socket_outbuf_cb e) bev is) = bev_enabled bev"
  "write_suspended (foldl (bufferevent_socket_outbuf_cb e) bev is) = write_suspended bev"
  "bev_cbarg (foldl (bufferevent_socket_outbuf_cb e) bev is) = bev_cbarg bev"
  "bev_fd (foldl (bufferevent_socket_outbuf_cb e) bev is) = bev_fd bev"
  "bev_refcnt (foldl (bufferevent_socket_outbuf_cb e) bev is) = bev_refcnt bev"
  "bev_readcb (foldl (bufferevent_socket_outbuf_cb e) bev is) = bev_readcb bev"
  "bev_errorcb (foldl (bufferevent_socket_outbuf_cb e) bev is) = bev_errorcb bev"
  by (induction "is" arbitrary: bev) simp_all

lemma outbuf_cbs_keep: "ev_write_added bev \<Longrightarrow> ev_write_added (foldl (bufferevent_socket_outbuf_cb e) bev is)"
  by (induction "is" arbitrary: bev) (simp_all add: bufferevent_socket_outbuf_cb_def)

lemma outbuf_cbs_add:
  assumes "is \<noteq> []" "\<forall>i \<in> set is. n_added i \<noteq> 0" "bev_enabled bev AND EV_WRITE \<noteq> 0" "\<not> write_suspended bev"
  shows "ev_write_added (foldl (bufferevent_socket_outbuf_cb True) bev is)"
proof (cases "is")
  case (Cons i js)
  with assms have "ev_write_added (bufferevent_socket_outbuf_cb True bev i)"
    by (simp add: bufferevent_socket_outbuf_cb_def)
  with Cons show ?thesis by (simp add: outbuf_cbs_keep)
qed (use assms in simp)

text \<open>The notifications of one addition of \<open>n\<close> bytes: the write event is added or nothing changes.\<close>

definition starts_writing :: "bool \<Rightarrow> 'cb bufferevent \<Rightarrow> bool" where
  "starts_writing ev_ok bev \<longleftrightarrow> ev_ok \<and> bev_enabled bev AND EV_WRITE \<noteq> 0 \<and> \<not> write_suspended bev"

lemma outbuf_cbs_exact:
  assumes "\<forall>i \<in> set is. n_added i = n" "n \<noteq> 0 \<longrightarrow> is \<noteq> []"
  shows "foldl (bufferevent_socket_outbuf_cb e) bev is
    = bev\<lparr>ev_write_added := ev_write_added bev \<or> n \<noteq> 0 \<and> starts_writing e bev\<rparr>"
proof -
  have "foldl (bufferevent_socket_outbuf_cb e) bev is
    = bev\<lparr>ev_write_added := ev_write_added bev \<or> is \<noteq> [] \<and> n \<noteq> 0 \<and> starts_writing e bev\<rparr>"
    using assms(1) by (induction "is" arbitrary: bev) (auto simp: bufferevent_socket_outbuf_cb_def starts_writing_def)
  then show ?thesis using assms(2) by (cases "n = 0") simp_all
qed

lemma bev_ok_quiet: "bev_ok bev \<Longrightarrow> quiet (bev_output bev)"
  by (simp add: bev_ok_def quiet_def)

text \<open>Writing either appends to the output and starts the write event, or changes nothing.\<close>

lemma bufferevent_write_spec:
  assumes ok: "bev_ok bev" and eq: "bufferevent_write mm e bev data = (r, bev')"
  shows "bev_ok bev' \<and> bev_input bev' = bev_input bev \<and> bev_cbarg bev' = bev_cbarg bev
    \<and> bev_enabled bev' = bev_enabled bev \<and> write_suspended bev' = write_suspended bev
    \<and> bev_fd bev' = bev_fd bev \<and> bev_refcnt bev' = bev_refcnt bev
    \<and> (r = 0 \<and> evb_bytes (bev_output bev') = evb_bytes (bev_output bev) @ data
       \<or> r = -1 \<and> bev_output bev' = bev_output bev)"
proof -
  obtain q o' where a: "evbuffer_add mm (bev_output bev) data = (q, o')" by fastforce
  have b': "r = (if q = -1 then -1 else 0)" "bev_output bev' = o'" "bev_input bev' = bev_input bev"
    "bev_cbarg bev' = bev_cbarg bev" "bev_enabled bev' = bev_enabled bev"
    "write_suspended bev' = write_suspended bev" "bev_fd bev' = bev_fd bev" "bev_refcnt bev' = bev_refcnt bev"
    using eq a by (auto simp: bufferevent_write_def)
  have inv: "evb_inv (bev_output bev)" using ok by (simp add: bev_ok_def)
  from evbuffer_add_spec [OF inv a]
  have cases: "q = 0 \<and> evb_inv o' \<and> evb_bytes o' = evb_bytes (bev_output bev) @ data \<or> q = -1 \<and> o' = bev_output bev"
    by auto
  have "quiet o'"
    using cases add_noted [OF inv bev_ok_quiet [OF ok], of mm data o'] a bev_ok_quiet [OF ok]
    by (auto simp: noted_def)
  moreover have "\<not> freeze_end o'"
    using add_freeze(2) [of mm "bev_output bev" data] a ok by (simp add: bev_ok_def)
  ultimately have "bev_ok bev'"
    using ok cases b' by (auto simp: bev_ok_def quiet_def)
  with cases b' show ?thesis by auto
qed

lemma bufferevent_write_starts:
  assumes ok: "bev_ok bev" and en: "bev_enabled bev AND EV_WRITE \<noteq> 0" "\<not> write_suspended bev"
    and eq: "bufferevent_write mm True bev data = (0, bev')" and ne: "data \<noteq> []"
  shows "ev_write_added bev'"
proof -
  obtain o' where a: "evbuffer_add mm (bev_output bev) data = (0, o')"
    and b': "bev' = foldl (bufferevent_socket_outbuf_cb True) (bev\<lparr>bev_output := o'\<rparr>)
      (drop (length (cb_log (bev_output bev))) (cb_log o'))"
    using eq evbuffer_add_spec [of "bev_output bev" mm data] ok
    by (fastforce simp: bufferevent_write_def bev_ok_def split: if_splits prod.splits)
  have "evb_inv (bev_output bev)" using ok by (simp add: bev_ok_def)
  from add_noted [OF this bev_ok_quiet [OF ok] a] obtain infos where
    "cb_log o' = cb_log (bev_output bev) @ infos" "\<forall>i \<in> set infos. n_added i = length data" "infos \<noteq> []"
    using ne by (auto simp: noted_def)
  with b' en ne show ?thesis by (auto intro: outbuf_cbs_add)
qed

lemma bufferevent_write_exact:
  assumes ok: "bev_ok bev" and eq: "bufferevent_write mm e bev data = (r, bev')"
  shows "bev' = (if r = 0 then bev\<lparr>bev_output := bev_output bev', ev_write_added := ev_write_added bev \<or> data \<noteq> []
            \<and> e \<and> bev_enabled bev AND EV_WRITE \<noteq> 0 \<and> \<not> write_suspended bev\<rparr> else bev)"
proof -
  obtain q o' where a: "evbuffer_add mm (bev_output bev) data = (q, o')" by fastforce
  have w: "r = (if q = -1 then -1 else 0)" "bev' = foldl (bufferevent_socket_outbuf_cb e) (bev\<lparr>bev_output := o'\<rparr>)
      (drop (length (cb_log (bev_output bev))) (cb_log o'))" "bev_output bev' = o'"
    using eq a by (auto simp: bufferevent_write_def)
  have inv: "evb_inv (bev_output bev)" using ok by (simp add: bev_ok_def)
  show ?thesis
  proof (cases "q = -1")
    case True
    then show ?thesis using evbuffer_add_spec [OF inv a] w by simp
  next
    case False
    then have "evbuffer_add mm (bev_output bev) data = (0, o')" using evbuffer_add_spec [OF inv a] a by simp
    from add_noted [OF inv bev_ok_quiet [OF ok] this] obtain infos where
      "cb_log o' = cb_log (bev_output bev) @ infos" "\<forall>i \<in> set infos. n_added i = length data" "length data \<noteq> 0 \<longrightarrow> infos \<noteq> []"
      by (auto simp: noted_def)
    then show ?thesis using w False outbuf_cbs_exact [of infos "length data" e "bev\<lparr>bev_output := o'\<rparr>"]
      by (simp add: starts_writing_def)
  qed
qed

text \<open>A write that must succeed.\<close>

lemma bufferevent_write_small:
  assumes ok: "bev_ok bev" and mm: "alloc_ok mm" and sm: "small_blocks (bev_output bev)" "length data \<le> 16352"
    and fits: "total_len (bev_output bev) + length data \<le> EV_SIZE_MAX"
    and eq: "bufferevent_write mm e bev data = (r, bev')"
  shows "r = 0" "small_blocks (bev_output bev')"
proof -
  obtain q o' where a: "evbuffer_add mm (bev_output bev) data = (q, o')" by fastforce
  have inv: "evb_inv (bev_output bev)" using ok by (simp add: bev_ok_def)
  have "q = 0"
    using small_blocks_succeed [OF inv mm _ fits sm(2,1)] a ok by (simp add: bev_ok_def)
  moreover have "small_blocks o'" using add_small [OF inv sm, of mm] a by simp
  ultimately show "r = 0" "small_blocks (bev_output bev')"
    using eq a by (auto simp: bufferevent_write_def)
qed

subsection \<open>Reading\<close>

lemma int_to_size_t_small: "0 \<le> n \<Longrightarrow> n < 2 ^ 32 \<Longrightarrow> int_to_size_t n = nat n"
  by (simp add: int_to_size_t_def)

lemma bufferevent_read_spec:
  assumes ok: "bev_ok bev"
  shows "\<exists>bev'. bufferevent_read bev n = Some (min n (length (evb_bytes (bev_input bev))), take n (evb_bytes (bev_input bev)), bev')
    \<and> bev_ok bev' \<and> evb_bytes (bev_input bev') = drop n (evb_bytes (bev_input bev))
    \<and> bev_output bev' = bev_output bev \<and> bev' = bev\<lparr>bev_input := bev_input bev'\<rparr>"
proof -
  have rd: "evb_readable (bev_input bev)" using ok by (simp add: bev_ok_def)
  then have small: "length (evb_bytes (bev_input bev)) < 2 ^ 32"
    by (auto simp: evb_readable_def evb_inv_def evb_consts)
  from evb_fifo.pull_law [OF rd, of n] obtain i' where i':
    "evbuffer_remove (bev_input bev) n = Some (int (min n (length (evb_bytes (bev_input bev)))), take n (evb_bytes (bev_input bev)), i')"
    "evb_readable i'" "evb_bytes i' = drop n (evb_bytes (bev_input bev))"
    by blast
  have "int_to_size_t (int (min n (length (evb_bytes (bev_input bev))))) = min n (length (evb_bytes (bev_input bev)))"
    using small by (subst int_to_size_t_small) auto
  then show ?thesis using i' ok by (auto simp: bufferevent_read_def bev_ok_def)
qed

section \<open>Properties\<close>

text \<open>C20: \<open>bufferevent_write\<close> either returns 0 and appends the bytes to what is to be sent, and then the write event
  is waiting exactly when it was before or when bytes were added, writing is enabled and not suspended and
  \<open>event_add\<close> succeeded (when that fails, the code returns 0 all the same); or it returns -1 and the bufferevent is
  what it was. No other field is changed in either case.\<close>
theorem bufferevent_write_or_not:
  assumes ok: "bev_ok bev" and eq: "bufferevent_write mm ev_ok bev data = (r, bev')"
  shows "bev_ok bev' \<and> (if r = 0
    then evb_bytes (bev_output bev') = evb_bytes (bev_output bev) @ data
      \<and> bev' = bev\<lparr>bev_output := bev_output bev', ev_write_added := ev_write_added bev \<or> data \<noteq> []
            \<and> ev_ok \<and> bev_enabled bev AND EV_WRITE \<noteq> 0 \<and> \<not> write_suspended bev\<rparr>
    else r = -1 \<and> bev' = bev)"
proof (cases "r = 0")
  case True
  have "bev_ok bev'" "evb_bytes (bev_output bev') = evb_bytes (bev_output bev) @ data"
    using bufferevent_write_spec [OF ok eq] True by simp_all
  moreover note bufferevent_write_exact [OF ok eq, unfolded True if_P [OF refl]]
  ultimately show ?thesis unfolding True if_P [OF refl] by (intro conjI)
next
  case False
  have "r = -1" "bev_ok bev'" using bufferevent_write_spec [OF ok eq] False by simp_all
  moreover have "bev' = bev" using bufferevent_write_exact [OF ok eq] False by simp
  ultimately show ?thesis by simp
qed

definition demo_bev :: "nat bufferevent option" where
  "demo_bev = bufferevent_socket_new True True True 7 0"

theorem bufferevent_write_or_not_witness:
  "\<exists>bev bev'. demo_bev = Some bev \<and> bufferevent_write (\<lambda>_. Some (\<lambda>_. 0)) True bev [1, 2] = (0, bev')
    \<and> evb_bytes (bev_output bev') = [1, 2] \<and> ev_write_added bev'"
proof -
  obtain bev where bev: "demo_bev = Some bev" "chains (bev_output bev) = []" "total_len (bev_output bev) = 0"
    by (simp add: demo_bev_def bufferevent_socket_new_def bufferevent_init_common_def Let_def evbuffer_freeze_def
        evbuffer_new_def BEV_OPT_DEFER_CALLBACKS_def BEV_OPT_UNLOCK_CALLBACKS_def)
  note new = socket_new_ok [OF bev(1) [unfolded demo_bev_def]]
  obtain r bev' where w: "bufferevent_write (\<lambda>_. Some (\<lambda>_. 0)) True bev [1, 2] = (r, bev')" by fastforce
  have "r = 0" by (rule bufferevent_write_small [OF new(1) _ _ _ _ w])
      (simp_all add: alloc_ok_def small_blocks_def bev(2,3) evb_consts)
  with bufferevent_write_or_not [OF new(1) w]
  have b: "evb_bytes (bev_output bev') = evb_bytes (bev_output bev) @ [1, 2]"
    "bev' = bev\<lparr>bev_output := bev_output bev', ev_write_added := ev_write_added bev \<or> [1, 2::8 word] \<noteq> []
            \<and> True \<and> bev_enabled bev AND EV_WRITE \<noteq> 0 \<and> \<not> write_suspended bev\<rparr>"
    by auto
  have "ev_write_added bev'" by (subst b(2)) (use new in \<open>simp add: EV_WRITE_def\<close>)
  with b(1) bev(1) w \<open>r = 0\<close> new show ?thesis by auto
qed

text \<open>\<open>bufferevent_read\<close> gives the first bytes of the input, at most as many as asked for, and
  removes exactly these; the -1 that it would turn into the largest \<open>size_t\<close> cannot come from a
  well-formed bufferevent, so a caller that tests the result for 0 sees every end of the input.\<close>
lemma bufferevent_read_bounded:
  assumes "bev_ok bev" and "bufferevent_read bev n = res"
  shows "\<exists>k data bev'. res = Some (k, data, bev') \<and> k \<le> n \<and> length data = k
    \<and> data @ evb_bytes (bev_input bev') = evb_bytes (bev_input bev)
    \<and> (k = 0 \<longleftrightarrow> n = 0 \<or> evb_bytes (bev_input bev) = []) \<and> bev_ok bev' \<and> bev_output bev' = bev_output bev"
  using bufferevent_read_spec [OF assms(1), of n] assms(2) by (auto simp: min_def)

lemma bufferevent_read_bounded_witness:
  "\<exists>bev bev'. demo_bev = Some bev \<and> bufferevent_read bev 8192 = Some (0, [], bev')"
proof -
  obtain bev where bev: "demo_bev = Some bev"
    by (simp add: demo_bev_def bufferevent_socket_new_def bufferevent_init_common_def Let_def
        BEV_OPT_DEFER_CALLBACKS_def BEV_OPT_UNLOCK_CALLBACKS_def)
  note new = socket_new_ok [OF bev [unfolded demo_bev_def]]
  from bufferevent_read_bounded [OF new(1) refl, of 8192] new(2) bev show ?thesis by auto
qed

end
