(* ===== verification/Fire_Server.thy ===== *)
theory Fire_Server
  imports Bufferevent "HOL-Library.Sublist"
begin

text \<open>
  \<open>source/FireServer/fireServer.c\<close>: the server that accepts connections on port 6088 and sends
  whatever one client writes to all the others. Its state is the tail queue of
  \<open>struct client\<close> objects, these objects, the bufferevents they own, the open descriptors and
  what was printed. The libevent callbacks are the steps; the results of system calls are
  parameters.
\<close>

definition O_NONBLOCK :: u32 where "O_NONBLOCK = 0x800"
definition DATA_SIZE :: nat where "DATA_SIZE = 8192"

datatype server_cb = Buffered_on_read | Buffered_on_error

record client =
  cl_fd :: int
  cl_buf_ev :: nat

record server =
  client_tailq :: tailq
  heap :: "addr \<Rightarrow> client option"
  bevs :: "nat \<Rightarrow> server_cb bufferevent option"
  open_fds :: "int list"
  console :: "string list"

section \<open>The functions of the file\<close>

text \<open>\<open>setnonblock\<close>; \<open>setfl\<close> is the result of \<open>fcntl(fd, F_SETFL, flags)\<close> as a function of the flags.\<close>

definition setnonblock :: "int \<Rightarrow> (u32 \<Rightarrow> int) \<Rightarrow> int" where
  "setnonblock getfl setfl =
     (if getfl < 0 then getfl
      else if setfl (word_of_int getfl OR O_NONBLOCK) < 0 then -1
      else 0)"

definition print :: "string \<Rightarrow> server \<Rightarrow> server" where
  "print msg s = s\<lparr>console := console s @ [msg]\<rparr>"

text \<open>The body of the loop over the clients in \<open>buffered_on_read\<close>; \<open>None\<close> is a dangling pointer.\<close>

definition write_to_client :: "allocator \<Rightarrow> bool \<Rightarrow> byte list \<Rightarrow> server \<Rightarrow> addr \<Rightarrow> server option" where
  "write_to_client mm ev_ok data s a =
     Option.bind (heap s a) (\<lambda>c.
     Option.bind (bevs s (cl_buf_ev c)) (\<lambda>b.
       Some (s\<lparr>bevs := (bevs s)(cl_buf_ev c := Some (snd (bufferevent_write mm ev_ok b data)))\<rparr>)))"

fun broadcast_loop :: "allocator \<Rightarrow> bool \<Rightarrow> addr \<Rightarrow> byte list \<Rightarrow> addr list \<Rightarrow> server \<Rightarrow> server option" where
  "broadcast_loop mm ev_ok this_client data [] s = Some s"
| "broadcast_loop mm ev_ok this_client data (client # rest) s =
     (if client \<noteq> this_client
      then Option.bind (write_to_client mm ev_ok data s client) (broadcast_loop mm ev_ok this_client data rest)
      else broadcast_loop mm ev_ok this_client data rest s)"

definition broadcast :: "allocator \<Rightarrow> bool \<Rightarrow> addr \<Rightarrow> byte list \<Rightarrow> server \<Rightarrow> server option" where
  "broadcast mm ev_ok this_client data s =
     Option.bind (TAILQ_FOREACH (client_tailq s)) (\<lambda>cs. broadcast_loop mm ev_ok this_client data cs s)"

text \<open>
  \<open>buffered_on_read\<close>. \<open>n\<close> is unsigned, so \<open>n <= 0\<close> is \<open>n = 0\<close>; an \<open>n\<close> larger than the array
  \<open>data\<close> would make the writes read past its end (\<open>None\<close>). A loop that does not end is \<open>None\<close> too.
\<close>

partial_function (option) buffered_on_read ::
    "allocator \<Rightarrow> bool \<Rightarrow> nat \<Rightarrow> addr \<Rightarrow> server \<Rightarrow> server option" where
  "buffered_on_read mm ev_ok bev arg s =
     Option.bind (bevs s bev) (\<lambda>b.
     Option.bind (bufferevent_read b DATA_SIZE) (\<lambda>(n, data, b').
       let s1 = s\<lparr>bevs := (bevs s)(bev := Some b')\<rparr>
       in if n = 0 then Some s1
          else if n > DATA_SIZE then None
          else Option.bind (broadcast mm ev_ok arg (take n data) s1) (buffered_on_read mm ev_ok bev arg)))"

definition buffered_on_error :: "u16 \<Rightarrow> addr \<Rightarrow> server \<Rightarrow> server option" where
  "buffered_on_error what arg s =
     (let s1 = (if what AND BEV_EVENT_EOF \<noteq> 0 then print ''Client disconnected.'' s
                else print ''Client socket error, disconnecting.'' s);
          s2 = s1\<lparr>client_tailq := TAILQ_REMOVE (client_tailq s1) arg\<rparr>
      in Option.bind (heap s2 arg) (\<lambda>c.
         Option.bind (bevs s2 (cl_buf_ev c)) (\<lambda>b.
           Some (s2\<lparr>bevs := (bevs s2)(cl_buf_ev c := bufferevent_free b),
                     open_fds := removeAll (cl_fd c) (open_fds s2),
                     heap := (heap s2)(arg := None)\<rparr>))))"

text \<open>
  \<open>on_accept\<close>. The environment says what \<open>accept\<close> and \<open>fcntl\<close> return, where \<open>calloc\<close> puts the
  client (\<open>None\<close>: no memory), which bufferevent \<open>bufferevent_socket_new\<close> creates (\<open>None\<close>: \<open>NULL\<close>)
  and whether the read event can be added. The code does not test the bufferevent for \<open>NULL\<close>
  before \<open>bufferevent_setcb\<close> writes through it.
\<close>

record accept_env =
  acc_fd :: int
  acc_getfl :: int
  acc_setfl :: "u32 \<Rightarrow> int"
  acc_client :: "addr option"
  acc_bev :: "nat option"
  acc_ev_ok :: bool

definition on_accept :: "accept_env \<Rightarrow> server \<Rightarrow> server run" where
  "on_accept env s =
     (let client_fd = acc_fd env
      in if client_fd < 0 then Done (print ''accept failed'' s)
         else
           let s1 = s\<lparr>open_fds := open_fds s @ [client_fd]\<rparr>;
               s2 = (if setnonblock (acc_getfl env) (acc_setfl env) < 0
                     then print ''failed to set client socket non-blocking'' s1 else s1)
           in case acc_client env of
                None \<Rightarrow> Exits 1
              | Some a \<Rightarrow>
                  (case (acc_bev env, bufferevent_socket_new (acc_bev env \<noteq> None) True True client_fd 0) of
                     (Some i, Some b) \<Rightarrow>
                       let b1 = bufferevent_setcb b (Some Buffered_on_read) None (Some Buffered_on_error) (Some a);
                           b2 = snd (bufferevent_enable (acc_ev_ok env) b1 EV_READ);
                           s3 = s2\<lparr>heap := (heap s2)(a \<mapsto> \<lparr>cl_fd = client_fd, cl_buf_ev = i\<rparr>),
                                   bevs := (bevs s2)(i \<mapsto> b2)\<rparr>;
                           s4 = s3\<lparr>client_tailq := TAILQ_INSERT_TAIL (client_tailq s3) a\<rparr>
                       in Done (print ''Accepted connection'' s4)
                   | _ \<Rightarrow> Undefined))"

text \<open>
  \<open>main\<close> up to the event loop, with the system calls it makes in order.
\<close>

datatype syscall = Socket | Bind | Listen | SetReuseAddr | SetNonblock | EventAdd

record boot_env =
  boot_socket :: int
  boot_bind :: int
  boot_listen :: int
  boot_getfl :: int
  boot_setfl :: "u32 \<Rightarrow> int"
  boot_memory :: tailq

definition fire_main :: "boot_env \<Rightarrow> syscall list \<times> server run" where
  "fire_main env =
     (if boot_socket env < 0 then ([Socket], Exits 1)
      else if boot_bind env < 0 then ([Socket, Bind], Exits 1)
      else if boot_listen env < 0 then ([Socket, Bind, Listen], Exits 1)
      else if setnonblock (boot_getfl env) (boot_setfl env) < 0
        then ([Socket, Bind, Listen, SetReuseAddr, SetNonblock], Exits 1)
      else ([Socket, Bind, Listen, SetReuseAddr, SetNonblock, EventAdd],
            Done \<lparr>client_tailq = TAILQ_INIT (boot_memory env), heap = (\<lambda>_. None), bevs = (\<lambda>_. None),
                  open_fds = [boot_socket env], console = [''Fire Server is running'']\<rparr>))"

section \<open>The callbacks as libevent runs them\<close>

text \<open>
  While a callback of a bufferevent runs, libevent holds a reference to it
  (\<open>bufferevent_incref_and_lock_\<close> and \<open>bufferevent_decref_and_unlock_\<close> around the call).
\<close>

definition bev_incref :: "nat \<Rightarrow> server \<Rightarrow> server option" where
  "bev_incref i s = Option.bind (bevs s i) (\<lambda>b.
     Some (s\<lparr>bevs := (bevs s)(i \<mapsto> b\<lparr>bev_refcnt := Suc (bev_refcnt b)\<rparr>)\<rparr>))"

definition bev_decref :: "nat \<Rightarrow> server \<Rightarrow> server option" where
  "bev_decref i s = Option.bind (bevs s i) (\<lambda>b. Some (s\<lparr>bevs := (bevs s)(i := bufferevent_decref b)\<rparr>))"

definition run_readcb :: "allocator \<Rightarrow> bool \<Rightarrow> nat \<Rightarrow> server \<Rightarrow> server option" where
  "run_readcb mm ev_ok i s =
     Option.bind (bev_incref i s) (\<lambda>s1.
     Option.bind (bevs s1 i) (\<lambda>b.
     Option.bind (case (bev_readcb b, bev_cbarg b) of
         (Some Buffered_on_read, Some a) \<Rightarrow> buffered_on_read mm ev_ok i a s1 | _ \<Rightarrow> Some s1) (bev_decref i)))"

definition run_eventcb :: "nat \<Rightarrow> u16 \<Rightarrow> server \<Rightarrow> server option" where
  "run_eventcb i what s =
     Option.bind (bev_incref i s) (\<lambda>s1.
     Option.bind (bevs s1 i) (\<lambda>b.
     Option.bind (case (bev_errorcb b, bev_cbarg b) of
         (Some Buffered_on_error, Some a) \<Rightarrow> buffered_on_error what a s1 | _ \<Rightarrow> Some s1) (bev_decref i)))"


section \<open>Invariant\<close>

text \<open>
  The queue holds the addresses \<open>xs\<close> of live \<open>struct client\<close> objects; each owns a well-formed
  bufferevent whose callbacks carry the client's address, on a descriptor that is open.
\<close>

definition client_of :: "server \<Rightarrow> addr \<Rightarrow> client" where
  "client_of s a = the (heap s a)"

definition bev_of :: "server \<Rightarrow> addr \<Rightarrow> server_cb bufferevent" where
  "bev_of s a = the (bevs s (cl_buf_ev (client_of s a)))"

definition client_ok :: "server \<Rightarrow> addr \<Rightarrow> bool" where
  "client_ok s a \<longleftrightarrow> heap s a \<noteq> None \<and> bevs s (cl_buf_ev (client_of s a)) \<noteq> None
     \<and> bev_ok (bev_of s a) \<and> bev_cbarg (bev_of s a) = Some a
     \<and> bev_readcb (bev_of s a) = Some Buffered_on_read \<and> bev_errorcb (bev_of s a) = Some Buffered_on_error
     \<and> bev_fd (bev_of s a) = cl_fd (client_of s a) \<and> cl_fd (client_of s a) \<in> set (open_fds s)
     \<and> 0 < bev_refcnt (bev_of s a)"

definition server_inv :: "server \<Rightarrow> addr list \<Rightarrow> bool" where
  "server_inv s xs \<longleftrightarrow> tailq_rep (client_tailq s) xs \<and> (\<forall>a \<in> set xs. client_ok s a)
     \<and> inj_on (\<lambda>a. cl_fd (client_of s a)) (set xs)"

definition received :: "server \<Rightarrow> addr \<Rightarrow> byte list" where
  "received s a = evb_bytes (bev_input (bev_of s a))"

definition to_send :: "server \<Rightarrow> addr \<Rightarrow> byte list" where
  "to_send s a = evb_bytes (bev_output (bev_of s a))"

definition roomy :: "server \<Rightarrow> addr \<Rightarrow> nat \<Rightarrow> bool" where
  "roomy s x n \<longleftrightarrow> small_blocks (bev_output (bev_of s x)) \<and> total_len (bev_output (bev_of s x)) + n \<le> EV_SIZE_MAX"

text \<open>What a step over the clients leaves alone.\<close>

definition same_clients :: "server \<Rightarrow> server \<Rightarrow> bool" where
  "same_clients s s' \<longleftrightarrow> client_tailq s' = client_tailq s \<and> heap s' = heap s \<and> open_fds s' = open_fds s
     \<and> console s' = console s"

definition frame :: "server \<Rightarrow> server \<Rightarrow> bool" where
  "frame s s' \<longleftrightarrow> same_clients s s'
     \<and> (\<forall>i. map_option bev_refcnt (bevs s' i) = map_option bev_refcnt (bevs s i))"

lemma frame_refl: "frame s s"
  by (simp add: frame_def same_clients_def)

lemma frame_trans: "frame s s' \<Longrightarrow> frame s' s'' \<Longrightarrow> frame s s''"
  by (simp add: frame_def same_clients_def)

lemma same_clients_client: "same_clients s s' \<Longrightarrow> client_of s' a = client_of s a"
  by (simp add: same_clients_def client_of_def)

lemma frame_client: "frame s s' \<Longrightarrow> client_of s' a = client_of s a"
  by (simp add: frame_def same_clients_client)

lemma client_bevs_distinct:
  "client_ok s a \<Longrightarrow> client_ok s x \<Longrightarrow> a \<noteq> x \<Longrightarrow> cl_buf_ev (client_of s a) \<noteq> cl_buf_ev (client_of s x)"
  by (auto simp: client_ok_def bev_of_def)

text \<open>Replacing one client's bufferevent by another well-formed one of the same client.\<close>

lemma update_client_bev:
  assumes inv: "server_inv s xs" and a: "a \<in> set xs"
    and b: "bev_ok b" "bev_cbarg b = Some a" "bev_readcb b = Some Buffered_on_read"
      "bev_errorcb b = Some Buffered_on_error" "bev_fd b = cl_fd (client_of s a)" "0 < bev_refcnt b"
    and s': "s' = s\<lparr>bevs := (bevs s)(cl_buf_ev (client_of s a) := Some b)\<rparr>"
  shows "server_inv s' xs \<and> same_clients s s' \<and> (bev_refcnt b = bev_refcnt (bev_of s a) \<longrightarrow> frame s s')
    \<and> bev_of s' a = b \<and> (\<forall>x \<in> set xs. x \<noteq> a \<longrightarrow> bev_of s' x = bev_of s x)"
proof -
  have ok: "\<And>x. x \<in> set xs \<Longrightarrow> client_ok s x" using inv by (simp add: server_inv_def)
  have cl: "client_of s' x = client_of s x" for x by (simp add: s' client_of_def)
  have ba: "bev_of s' a = b" by (simp add: bev_of_def cl) (simp add: s')
  have bx: "bev_of s' x = bev_of s x" if "x \<in> set xs" "x \<noteq> a" for x
    using client_bevs_distinct [OF ok [OF a] ok [OF that(1)]] that(2)
    by (simp add: bev_of_def cl) (simp add: s')
  have "client_ok s' x" if x: "x \<in> set xs" for x
  proof (cases "x = a")
    case True
    have "client_ok s a" by (rule ok [OF a])
    with True b ba show ?thesis by (simp add: client_ok_def cl) (simp add: s')
  next
    case False
    have "client_ok s x" by (rule ok [OF x])
    with bx [OF x False] show ?thesis by (simp add: client_ok_def cl) (simp add: s')
  qed
  moreover have "inj_on (\<lambda>a. cl_fd (client_of s' a)) (set xs)" using inv by (simp add: server_inv_def cl)
  moreover have "tailq_rep (client_tailq s') xs" using inv by (simp add: server_inv_def s')
  moreover have "same_clients s s'" by (simp add: same_clients_def s')
  moreover from this have "bev_refcnt b = bev_refcnt (bev_of s a) \<longrightarrow> frame s s'"
    using ok [OF a] by (auto simp: frame_def s' client_ok_def bev_of_def)
  ultimately show ?thesis using ba bx by (simp add: server_inv_def)
qed

section \<open>Broadcasting\<close>

text \<open>
  Either the block is appended to what the client still has to be sent, or (no memory, or the
  buffer full) its output is as before: \<open>bufferevent_write\<close>'s result is ignored by the code.
\<close>

definition delivered :: "allocator \<Rightarrow> byte list \<Rightarrow> server \<Rightarrow> server \<Rightarrow> addr \<Rightarrow> bool" where
  "delivered mm data s s' x \<longleftrightarrow>
     (to_send s' x = to_send s x @ data \<or> bev_output (bev_of s' x) = bev_output (bev_of s x))
     \<and> (alloc_ok mm \<and> roomy s x (length data) \<longrightarrow>
          to_send s' x = to_send s x @ data \<and> small_blocks (bev_output (bev_of s' x)))"

lemma write_to_client:
  assumes inv: "server_inv s xs" and a: "a \<in> set xs" and len: "length data \<le> DATA_SIZE"
  shows "\<exists>s'. write_to_client mm e data s a = Some s' \<and> server_inv s' xs \<and> frame s s'
    \<and> (\<forall>x \<in> set xs. x \<noteq> a \<longrightarrow> bev_of s' x = bev_of s x) \<and> received s' a = received s a
    \<and> delivered mm data s s' a"
proof -
  have ok: "client_ok s a" using inv a by (simp add: server_inv_def)
  then obtain c b where c: "heap s a = Some c" "bevs s (cl_buf_ev c) = Some b" "client_of s a = c" "bev_of s a = b"
    by (auto simp: client_ok_def client_of_def bev_of_def)
  obtain r b' where w: "bufferevent_write mm e b data = (r, b')" by fastforce
  have b: "bev_ok b" using ok c by (simp add: client_ok_def)
  note spec = bufferevent_write_spec [OF b w]
  have cbs: "bev_readcb b' = bev_readcb b" "bev_errorcb b' = bev_errorcb b"
    using w by (auto simp: bufferevent_write_def split: prod.splits)
  define s' where "s' = s\<lparr>bevs := (bevs s)(cl_buf_ev (client_of s a) := Some b')\<rparr>"
  have up: "server_inv s' xs \<and> frame s s' \<and> bev_of s' a = b' \<and> (\<forall>x \<in> set xs. x \<noteq> a \<longrightarrow> bev_of s' x = bev_of s x)"
    using update_client_bev [OF inv a _ _ _ _ _ _ s'_def] ok c spec cbs by (auto simp: client_ok_def)
  moreover have "write_to_client mm e data s a = Some s'"
    using c w by (simp add: write_to_client_def s'_def)
  moreover have "delivered mm data s s' a"
    using up c spec bufferevent_write_small [OF b _ _ _ _ w] len
    by (auto simp: delivered_def to_send_def roomy_def DATA_SIZE_def)
  moreover have "received s' a = received s a" using up c spec by (simp add: received_def)
  ultimately show ?thesis by blast
qed

lemma broadcast_loop:
  assumes "server_inv s xs" "set cs \<subseteq> set xs" "distinct cs" "length data \<le> DATA_SIZE"
  shows "\<exists>s'. broadcast_loop mm e this data cs s = Some s' \<and> server_inv s' xs \<and> frame s s'
    \<and> (\<forall>x \<in> set xs. received s' x = received s x)
    \<and> (\<forall>x \<in> set xs. x \<notin> set cs \<or> x = this \<longrightarrow> bev_of s' x = bev_of s x)
    \<and> (\<forall>x \<in> set cs. x \<noteq> this \<longrightarrow> delivered mm data s s' x)"
  using assms
proof (induction cs arbitrary: s)
  case Nil
  then show ?case by (simp add: frame_refl)
next
  case (Cons c cs)
  show ?case
  proof (cases "c = this")
    case True
    from Cons.IH [of s] Cons.prems obtain s' where
      "broadcast_loop mm e this data cs s = Some s'" "server_inv s' xs" "frame s s'"
      "\<forall>x \<in> set xs. received s' x = received s x"
      "\<forall>x \<in> set xs. x \<notin> set cs \<or> x = this \<longrightarrow> bev_of s' x = bev_of s x"
      "\<forall>x \<in> set cs. x \<noteq> this \<longrightarrow> delivered mm data s s' x" by auto
    with True show ?thesis by auto
  next
    case False
    have c: "c \<in> set xs" using Cons.prems(2) by simp
    from write_to_client [OF Cons.prems(1) c Cons.prems(4)] obtain s1 where
      s1: "write_to_client mm e data s c = Some s1" "server_inv s1 xs" "frame s s1"
        "\<forall>x \<in> set xs. x \<noteq> c \<longrightarrow> bev_of s1 x = bev_of s x" "received s1 c = received s c"
        "delivered mm data s s1 c" by blast
    from Cons.IH [of s1] Cons.prems s1(2) obtain s' where
      s': "broadcast_loop mm e this data cs s1 = Some s'" "server_inv s' xs" "frame s1 s'"
      "\<forall>x \<in> set xs. received s' x = received s1 x"
      "\<forall>x \<in> set xs. x \<notin> set cs \<or> x = this \<longrightarrow> bev_of s' x = bev_of s1 x"
      "\<forall>x \<in> set cs. x \<noteq> this \<longrightarrow> delivered mm data s1 s' x" by auto
    have rec: "received s1 x = received s x" if "x \<in> set xs" for x
      using s1(4,5) that by (cases "x = c") (auto simp: received_def)
    have "bev_of s' c = bev_of s1 c" using s'(5) c Cons.prems(3) by simp
    then have "delivered mm data s s' c" using s1(6) by (simp add: delivered_def to_send_def)
    moreover have "delivered mm data s s' x" if "x \<in> set cs" "x \<noteq> this" for x
    proof -
      have "x \<noteq> c" "x \<in> set xs" using that Cons.prems by auto
      then have "bev_of s1 x = bev_of s x" using s1(4) by simp
      moreover have "delivered mm data s1 s' x" using s'(6) that by blast
      ultimately show ?thesis by (simp add: delivered_def to_send_def roomy_def)
    qed
    ultimately have "\<forall>x \<in> set (c # cs). x \<noteq> this \<longrightarrow> delivered mm data s s' x" by auto
    moreover have "\<forall>x \<in> set xs. x \<notin> set (c # cs) \<or> x = this \<longrightarrow> bev_of s' x = bev_of s x"
      using s'(5) s1(4) False by auto
    ultimately show ?thesis
      using s1 s' rec False frame_trans [OF s1(3) s'(3)] by (intro exI [of _ s']) simp
  qed
qed

lemma broadcast:
  assumes inv: "server_inv s xs" and len: "length data \<le> DATA_SIZE"
  shows "\<exists>s'. broadcast mm e this data s = Some s' \<and> server_inv s' xs \<and> frame s s'
    \<and> (\<forall>x \<in> set xs. received s' x = received s x)
    \<and> (this \<in> set xs \<longrightarrow> bev_of s' this = bev_of s this)
    \<and> (\<forall>x \<in> set xs. x \<noteq> this \<longrightarrow> delivered mm data s s' x)"
proof -
  have rep: "tailq_rep (client_tailq s) xs" using inv by (simp add: server_inv_def)
  then have "TAILQ_FOREACH (client_tailq s) = Some xs" "distinct xs"
    by (rule tq.walk_rep, rule tq.distinct_rep)
  then show ?thesis
    using broadcast_loop [OF inv subset_refl _ len, of mm e this] by (auto simp: broadcast_def)
qed

text \<open>
  The whole callback: it returns, the input is used up, and every other client gets, block by
  block and in order, the blocks its buffer took; all of them when memory does not run out.
\<close>

definition got :: "allocator \<Rightarrow> byte list \<Rightarrow> server \<Rightarrow> server \<Rightarrow> addr \<Rightarrow> bool" where
  "got mm input s s' x \<longleftrightarrow>
     (\<exists>ds. subseq ds (blocks_of DATA_SIZE input) \<and> to_send s' x = to_send s x @ concat ds)
     \<and> (alloc_ok mm \<and> roomy s x (length input) \<longrightarrow> to_send s' x = to_send s x @ input)"

lemma delivered_roomy:
  assumes "client_ok s x" "client_ok s' x" "delivered mm data s s' x" "alloc_ok mm" "roomy s x (length data + n)"
  shows "roomy s' x n"
proof -
  have "evb_inv (bev_output (bev_of s x))" "evb_inv (bev_output (bev_of s' x))"
    using assms(1,2) by (simp_all add: client_ok_def bev_ok_def)
  then have len: "total_len (bev_output (bev_of s x)) = length (to_send s x)"
      "total_len (bev_output (bev_of s' x)) = length (to_send s' x)"
    by (simp_all add: to_send_def evb_inv_def)
  have r: "roomy s x (length data)" using assms(5) by (simp add: roomy_def)
  then have "to_send s' x = to_send s x @ data" "small_blocks (bev_output (bev_of s' x))"
    using assms(3,4) by (simp_all add: delivered_def)
  then show ?thesis using assms(5) len by (simp add: roomy_def)
qed

lemma got_step:
  assumes ok: "client_ok s x" "client_ok s1 x" and d: "delivered mm (take DATA_SIZE input) s s1 x"
    and g: "got mm (drop DATA_SIZE input) s1 s' x" and ne: "input \<noteq> []"
  shows "got mm input s s' x"
proof -
  have bl: "blocks_of DATA_SIZE input = take DATA_SIZE input # blocks_of DATA_SIZE (drop DATA_SIZE input)"
    using ne by (subst blocks_of.simps) (simp add: DATA_SIZE_def)
  obtain ds where ds: "subseq ds (blocks_of DATA_SIZE (drop DATA_SIZE input))"
      "to_send s' x = to_send s1 x @ concat ds" using g by (auto simp: got_def)
  have "\<exists>ds. subseq ds (blocks_of DATA_SIZE input) \<and> to_send s' x = to_send s x @ concat ds"
  proof (cases "to_send s1 x = to_send s x @ take DATA_SIZE input")
    case True
    then show ?thesis using ds bl by (intro exI [of _ "take DATA_SIZE input # ds"]) simp
  next
    case False
    then have "to_send s1 x = to_send s x" using d by (auto simp: delivered_def to_send_def)
    then show ?thesis using ds bl by (intro exI [of _ ds]) auto
  qed
  moreover have "to_send s' x = to_send s x @ input" if a: "alloc_ok mm" and r: "roomy s x (length input)"
  proof -
    have "roomy s x (length (take DATA_SIZE input) + length (drop DATA_SIZE input))"
      using r by (metis append_take_drop_id length_append)
    from delivered_roomy [OF ok d a this] have "to_send s' x = to_send s1 x @ drop DATA_SIZE input"
      using g a by (simp add: got_def)
    moreover have "roomy s x (length (take DATA_SIZE input))" using r by (auto simp: roomy_def)
    then have "to_send s1 x = to_send s x @ take DATA_SIZE input"
      using d a by (simp add: delivered_def)
    ultimately show ?thesis by simp
  qed
  ultimately show ?thesis by (simp add: got_def)
qed

lemma client_bev: "client_ok s a \<Longrightarrow> bevs s (cl_buf_ev (client_of s a)) = Some (bev_of s a)"
  by (auto simp: client_ok_def bev_of_def)

lemma read_step:
  assumes inv: "server_inv s xs" and a: "a \<in> set xs"
  shows "\<exists>b'. bufferevent_read (bev_of s a) n = Some (min n (length (received s a)), take n (received s a), b')
    \<and> (let s1 = s\<lparr>bevs := (bevs s)(cl_buf_ev (client_of s a) := Some b')\<rparr>
       in server_inv s1 xs \<and> frame s s1 \<and> received s1 a = drop n (received s a) \<and> to_send s1 a = to_send s a
          \<and> (\<forall>x \<in> set xs. x \<noteq> a \<longrightarrow> bev_of s1 x = bev_of s x))"
proof -
  have ok: "client_ok s a" using inv a by (simp add: server_inv_def)
  then have "bev_ok (bev_of s a)" by (simp add: client_ok_def)
  from bufferevent_read_spec [OF this, of n] obtain b' where
    b': "bufferevent_read (bev_of s a) n = Some (min n (length (received s a)), take n (received s a), b')"
      "bev_ok b'" "evb_bytes (bev_input b') = drop n (received s a)"
      "bev_output b' = bev_output (bev_of s a)" "b' = (bev_of s a)\<lparr>bev_input := bev_input b'\<rparr>"
    by (auto simp: received_def)
  from b'(5) obtain i where i: "b' = (bev_of s a)\<lparr>bev_input := i\<rparr>" by blast
  have sel: "bev_cbarg b' = bev_cbarg (bev_of s a)" "bev_readcb b' = bev_readcb (bev_of s a)"
    "bev_errorcb b' = bev_errorcb (bev_of s a)" "bev_fd b' = bev_fd (bev_of s a)"
    "bev_refcnt b' = bev_refcnt (bev_of s a)" by (simp_all add: i)
  define s1 where "s1 = s\<lparr>bevs := (bevs s)(cl_buf_ev (client_of s a) := Some b')\<rparr>"
  have "server_inv s1 xs \<and> frame s s1 \<and> bev_of s1 a = b' \<and> (\<forall>x \<in> set xs. x \<noteq> a \<longrightarrow> bev_of s1 x = bev_of s x)"
    using update_client_bev [OF inv a _ _ _ _ _ _ s1_def] ok sel b'(2) by (auto simp: client_ok_def)
  then show ?thesis using b' unfolding s1_def Let_def
    by (intro exI [of _ b']) (simp add: received_def to_send_def)
qed

lemma buffered_on_read:
  assumes "server_inv s xs" "a \<in> set xs"
  shows "\<exists>s'. buffered_on_read mm e (cl_buf_ev (client_of s a)) a s = Some s' \<and> server_inv s' xs \<and> frame s s'
    \<and> received s' a = [] \<and> to_send s' a = to_send s a
    \<and> (\<forall>x \<in> set xs. x \<noteq> a \<longrightarrow> received s' x = received s x \<and> got mm (received s a) s s' x)"
  using assms(1)
proof (induction "length (received s a)" arbitrary: s rule: less_induct)
  case less
  let ?i = "cl_buf_ev (client_of s a)" and ?in = "received s a"
  have ok: "client_ok s x" if "x \<in> set xs" for x using less.prems that by (simp add: server_inv_def)
  from read_step [OF less.prems assms(2), of DATA_SIZE] obtain b' where
    rd: "bufferevent_read (bev_of s a) DATA_SIZE = Some (min DATA_SIZE (length ?in), take DATA_SIZE ?in, b')"
    and st: "let s1 = s\<lparr>bevs := (bevs s)(?i := Some b')\<rparr>
       in server_inv s1 xs \<and> frame s s1 \<and> received s1 a = drop DATA_SIZE ?in \<and> to_send s1 a = to_send s a
          \<and> (\<forall>x \<in> set xs. x \<noteq> a \<longrightarrow> bev_of s1 x = bev_of s x)" by blast
  define s1 where "s1 = s\<lparr>bevs := (bevs s)(?i := Some b')\<rparr>"
  have s1: "server_inv s1 xs" "frame s s1" "received s1 a = drop DATA_SIZE ?in" "to_send s1 a = to_send s a"
    "\<And>x. x \<in> set xs \<Longrightarrow> x \<noteq> a \<Longrightarrow> bev_of s1 x = bev_of s x"
    using st by (simp_all add: Let_def flip: s1_def)
  have bev: "bevs s ?i = Some (bev_of s a)" by (rule client_bev [OF ok [OF assms(2)]])
  show ?case
  proof (cases "?in = []")
    case True
    have "buffered_on_read mm e ?i a s = Some s1"
      using rd bev True by (subst buffered_on_read.simps) (simp flip: s1_def)
    moreover have "got mm ?in s s1 x \<and> received s1 x = received s x" if "x \<in> set xs" "x \<noteq> a" for x
      using s1(5) [OF that] True by (auto simp: got_def to_send_def received_def intro!: exI [of _ "[]"])
    ultimately show ?thesis using s1 True by (intro exI [of _ s1]) simp
  next
    case False
    let ?d = "take DATA_SIZE ?in"
    from broadcast [OF s1(1), of ?d mm e a] obtain s2 where
      s2: "broadcast mm e a ?d s1 = Some s2" "server_inv s2 xs" "frame s1 s2"
        "\<forall>x \<in> set xs. received s2 x = received s1 x" "bev_of s2 a = bev_of s1 a"
        "\<forall>x \<in> set xs. x \<noteq> a \<longrightarrow> delivered mm ?d s1 s2 x" using assms(2) by auto
    have fr: "frame s s2" by (rule frame_trans [OF s1(2) s2(3)])
    have rec: "received s2 a = drop DATA_SIZE ?in" using s2(4) s1(3) assms(2) by simp
    then have "length (received s2 a) < length ?in" using False by (simp add: DATA_SIZE_def)
    from less.hyps [OF this s2(2)] obtain s' where
      s': "buffered_on_read mm e ?i a s2 = Some s'" "server_inv s' xs" "frame s2 s'"
        "received s' a = []" "to_send s' a = to_send s2 a"
        "\<forall>x \<in> set xs. x \<noteq> a \<longrightarrow> received s' x = received s2 x \<and> got mm (received s2 a) s2 s' x"
      by (auto simp: frame_client [OF fr])
    have n: "min DATA_SIZE (length ?in) \<noteq> 0" "\<not> DATA_SIZE < min DATA_SIZE (length ?in)"
      using False by (auto simp: DATA_SIZE_def)
    have "take (min DATA_SIZE (length ?in)) ?d = ?d" by (simp add: min_def)
    then have "buffered_on_read mm e ?i a s = Some s'"
      using rd bev n s2(1) s'(1)
      by (subst buffered_on_read.simps) (auto simp: min_def simp flip: s1_def split: if_splits)
    moreover have "received s' x = received s x \<and> got mm ?in s s' x" if x: "x \<in> set xs" "x \<noteq> a" for x
    proof -
      have b: "bev_of s1 x = bev_of s x" by (rule s1(5) [OF x])
      have "delivered mm ?d s1 s2 x" using s2(6) x by blast
      then have d: "delivered mm ?d s s2 x" by (simp add: delivered_def to_send_def roomy_def b)
      have ok2: "client_ok s2 x" using s2(2) x by (simp add: server_inv_def)
      have "got mm (drop DATA_SIZE ?in) s2 s' x" using s'(6) x rec by auto
      from got_step [OF ok [OF x(1)] ok2 d this False] show ?thesis
        using s'(6) s2(4) x b by (auto simp: received_def)
    qed
    moreover have "to_send s' a = to_send s a" using s'(5) s2(5) s1(4) by (simp add: to_send_def)
    ultimately show ?thesis using s' frame_trans [OF fr s'(3)] by blast
  qed
qed

section \<open>Clients coming and going\<close>

text \<open>What is left when client \<open>a\<close> is unlinked, its descriptor closed and its object freed.\<close>

definition without_client :: "server \<Rightarrow> addr \<Rightarrow> server_cb bufferevent option \<Rightarrow> server" where
  "without_client s a b = s\<lparr>client_tailq := TAILQ_REMOVE (client_tailq s) a,
     bevs := (bevs s)(cl_buf_ev (client_of s a) := b),
     open_fds := removeAll (cl_fd (client_of s a)) (open_fds s), heap := (heap s)(a := None)\<rparr>"

lemma without_client:
  assumes inv: "server_inv s xs" and a: "a \<in> set xs"
  shows "server_inv (without_client s a b) (remove1 a xs)"
    "x \<in> set (remove1 a xs) \<Longrightarrow> bev_of (without_client s a b) x = bev_of s x"
    "x \<noteq> a \<Longrightarrow> client_of (without_client s a b) x = client_of s x"
proof -
  have rep: "tailq_rep (client_tailq s) xs" using inv by (simp add: server_inv_def)
  then have d: "distinct xs" by (rule tq.distinct_rep)
  have sub: "x \<in> set xs \<and> x \<noteq> a" if "x \<in> set (remove1 a xs)" for x using that d by simp
  have cl: "client_of (without_client s a b) x = client_of s x" if "x \<noteq> a" for x
    using that by (simp add: without_client_def client_of_def)
  then show "x \<noteq> a \<Longrightarrow> client_of (without_client s a b) x = client_of s x" .
  have ok: "client_ok s x" if "x \<in> set xs" for x using inv that by (simp add: server_inv_def)
  have bev: "bev_of (without_client s a b) x = bev_of s x" if x: "x \<in> set (remove1 a xs)" for x
  proof -
    have "cl_buf_ev (client_of s a) \<noteq> cl_buf_ev (client_of s x)"
      using client_bevs_distinct [OF ok [OF a] ok, of x] sub [OF x] by blast
    then show ?thesis using sub [OF x] cl [of x]
      by (simp add: bev_of_def) (simp add: without_client_def)
  qed
  then show "x \<in> set (remove1 a xs) \<Longrightarrow> bev_of (without_client s a b) x = bev_of s x" .
  have inj: "inj_on (\<lambda>x. cl_fd (client_of s x)) (set xs)" using inv by (simp add: server_inv_def)
  have "client_ok (without_client s a b) x" if x: "x \<in> set (remove1 a xs)" for x
  proof -
    have "cl_fd (client_of s x) \<noteq> cl_fd (client_of s a)"
      using inj_onD [OF inj, of x a] sub [OF x] a by blast
    moreover have "cl_buf_ev (client_of s x) \<noteq> cl_buf_ev (client_of s a)"
      using client_bevs_distinct [OF ok [OF a] ok, of x] sub [OF x] by auto
    ultimately show ?thesis
      using ok [of x] sub [OF x] bev [OF x] cl [of x] by (simp add: client_ok_def) (simp add: without_client_def)
  qed
  moreover have "tailq_rep (client_tailq (without_client s a b)) (remove1 a xs)"
    using tq.leave_rep [OF rep a] by (simp add: without_client_def)
  moreover have "inj_on (\<lambda>x. cl_fd (client_of (without_client s a b) x)) (set (remove1 a xs))"
  proof (rule inj_onI)
    fix x y
    assume xy: "x \<in> set (remove1 a xs)" "y \<in> set (remove1 a xs)"
      and eq: "cl_fd (client_of (without_client s a b) x) = cl_fd (client_of (without_client s a b) y)"
    have x: "x \<in> set xs" "x \<noteq> a" and y: "y \<in> set xs" "y \<noteq> a" using sub [OF xy(1)] sub [OF xy(2)] by blast+
    from eq have "cl_fd (client_of s x) = cl_fd (client_of s y)" by (simp only: cl [OF x(2)] cl [OF y(2)])
    then show "x = y" by (rule inj_onD [OF inj _ x(1) y(1)])
  qed
  ultimately show "server_inv (without_client s a b) (remove1 a xs)" by (simp add: server_inv_def)
qed

lemma buffered_on_error_eq:
  assumes inv: "server_inv s xs" and a: "a \<in> set xs"
  shows "buffered_on_error what a s = Some (without_client
     (print (if what AND BEV_EVENT_EOF \<noteq> 0 then ''Client disconnected.'' else ''Client socket error, disconnecting.'') s)
     a (bufferevent_free (bev_of s a)))"
proof -
  have ok: "client_ok s a" using inv a by (simp add: server_inv_def)
  then obtain c where c: "heap s a = Some c" by (auto simp: client_ok_def)
  then have "client_of s a = c" by (simp add: client_of_def)
  with client_bev [OF ok] c show ?thesis
    by (simp add: buffered_on_error_def Let_def print_def without_client_def client_of_def)
qed

lemma print_inv [simp]: "server_inv (print m s) xs \<longleftrightarrow> server_inv s xs"
  "client_of (print m s) a = client_of s a" "bev_of (print m s) a = bev_of s a"
  by (simp_all add: print_def server_inv_def client_ok_def client_of_def bev_of_def)

text \<open>A new client in a fresh object, with a fresh bufferevent on a fresh descriptor.\<close>

definition fresh_client :: "server \<Rightarrow> addr list \<Rightarrow> accept_env \<Rightarrow> addr \<Rightarrow> nat \<Rightarrow> bool" where
  "fresh_client s xs env a i \<longleftrightarrow> acc_client env = Some a \<and> acc_bev env = Some i \<and> 0 \<le> acc_fd env
     \<and> a \<notin> set xs \<and> heap s a = None \<and> bevs s i = None \<and> acc_fd env \<notin> set (open_fds s)"

lemma on_accept_ok:
  assumes inv: "server_inv s xs" and fr: "fresh_client s xs env a i"
  shows "\<exists>s'. on_accept env s = Done s' \<and> server_inv s' (xs @ [a]) \<and> open_fds s' = open_fds s @ [acc_fd env]
    \<and> bev_refcnt (bev_of s' a) = 1 \<and> received s' a = [] \<and> to_send s' a = []
    \<and> bev_fd (bev_of s' a) = acc_fd env \<and> (acc_ev_ok env \<longrightarrow> ev_read_added (bev_of s' a))
    \<and> (\<forall>x \<in> set xs. bev_of s' x = bev_of s x \<and> client_of s' x = client_of s x)
    \<and> client_of s' a = \<lparr>cl_fd = acc_fd env, cl_buf_ev = i\<rparr>
    \<and> (n \<le> EV_SIZE_MAX \<longrightarrow> roomy s' a n) \<and> dom (heap s') = insert a (dom (heap s)) \<and> dom (bevs s') = insert i (dom (bevs s))"
proof -
  let ?fd = "acc_fd env"
  obtain b :: "server_cb bufferevent" where new: "bufferevent_socket_new True True True ?fd 0 = Some b"
    by (auto simp: bufferevent_socket_new_def bufferevent_init_common_def Let_def BEV_OPT_DEFER_CALLBACKS_def
        BEV_OPT_UNLOCK_CALLBACKS_def)
  note b = socket_new_ok [OF new]
  have rb: "chains (bev_output b) = []" "total_len (bev_output b) = 0"
    using new by (auto simp: bufferevent_socket_new_def bufferevent_init_common_def Let_def evbuffer_freeze_def
        evbuffer_new_def split: if_splits)
  define b2 where "b2 = snd (bufferevent_enable (acc_ev_ok env)
    (bufferevent_setcb b (Some Buffered_on_read) None (Some Buffered_on_error) (Some a)) EV_READ)"
  have b2: "bev_ok b2" "bev_cbarg b2 = Some a" "bev_readcb b2 = Some Buffered_on_read"
    "bev_errorcb b2 = Some Buffered_on_error" "bev_fd b2 = ?fd" "bev_refcnt b2 = 1"
    "bev_input b2 = bev_input b" "bev_output b2 = bev_output b" "acc_ev_ok env \<longrightarrow> ev_read_added b2"
    using b by (auto simp: b2_def bufferevent_enable_def be_socket_enable_def bufferevent_setcb_def Let_def
        bev_ok_def EV_READ_def EV_WRITE_def)
  obtain s' where s': "on_accept env s = Done s'" "client_tailq s' = TAILQ_INSERT_TAIL (client_tailq s) a"
    "heap s' = (heap s)(a \<mapsto> \<lparr>cl_fd = ?fd, cl_buf_ev = i\<rparr>)" "bevs s' = (bevs s)(i \<mapsto> b2)"
    "open_fds s' = open_fds s @ [?fd]"
    using fr new by (auto simp: on_accept_def fresh_client_def Let_def b2_def print_def)
  have ok: "client_ok s x" if "x \<in> set xs" for x using inv that by (simp add: server_inv_def)
  have cl: "client_of s' x = client_of s x" if "x \<in> set xs" for x
    using that s' fr by (auto simp: client_of_def fresh_client_def)
  have cla: "client_of s' a = \<lparr>cl_fd = ?fd, cl_buf_ev = i\<rparr>" by (simp add: client_of_def s')
  have bx: "bev_of s' x = bev_of s x" if "x \<in> set xs" for x
    using that s' fr cl [OF that] ok [OF that] by (auto simp: bev_of_def fresh_client_def client_ok_def)
  have ba: "bev_of s' a = b2" by (simp add: bev_of_def cla) (simp add: s')
  have new_ok: "client_ok s' a" using b2 ba by (simp add: client_ok_def cla) (simp add: s')
  have old_ok: "client_ok s' x" if x: "x \<in> set xs" for x
    using ok [OF x] bx [OF x] s' by (auto simp: client_ok_def cl [OF x])
  have "tailq_rep (client_tailq s') (xs @ [a])"
    using tq.enter_rep [of "client_tailq s" xs a] inv fr s'(2) by (simp add: server_inv_def fresh_client_def)
  moreover have "inj_on (\<lambda>x. cl_fd (client_of s' x)) (set (xs @ [a]))"
  proof -
    have "cl_fd (client_of s x) \<noteq> ?fd" if "x \<in> set xs" for x
      using ok [OF that] fr by (auto simp: client_ok_def fresh_client_def)
    moreover have "inj_on (\<lambda>x. cl_fd (client_of s x)) (set xs)" using inv by (simp add: server_inv_def)
    ultimately show ?thesis using cl cla by (fastforce simp: inj_on_def)
  qed
  ultimately have "server_inv s' (xs @ [a])" using new_ok old_ok by (auto simp: server_inv_def)
  then show ?thesis using s' ba b2 b rb bx cl cla
    by (intro exI [of _ s']) (simp add: received_def to_send_def roomy_def small_blocks_def)
qed

section \<open>The server as a state machine\<close>

text \<open>Between two callbacks nobody but the client holds a reference to its bufferevent.\<close>

definition idle :: "server \<Rightarrow> addr list \<Rightarrow> bool" where
  "idle s xs \<longleftrightarrow> server_inv s xs \<and> (\<forall>a \<in> set xs. bev_refcnt (bev_of s a) = 1)"

text \<open>Both callbacks on a client's bufferevent return, with the reference libevent holds given back.\<close>

lemma incref_client:
  assumes inv: "server_inv s xs" and a: "a \<in> set xs"
  shows "\<exists>s1. bev_incref (cl_buf_ev (client_of s a)) s = Some s1 \<and> server_inv s1 xs \<and> same_clients s s1
    \<and> bev_of s1 a = (bev_of s a)\<lparr>bev_refcnt := Suc (bev_refcnt (bev_of s a))\<rparr>
    \<and> (\<forall>x \<in> set xs. x \<noteq> a \<longrightarrow> bev_of s1 x = bev_of s x) \<and> dom (bevs s1) = dom (bevs s)"
proof -
  have ok: "client_ok s a" using inv a by (simp add: server_inv_def)
  define b where "b = (bev_of s a)\<lparr>bev_refcnt := Suc (bev_refcnt (bev_of s a))\<rparr>"
  define s1 where "s1 = s\<lparr>bevs := (bevs s)(cl_buf_ev (client_of s a) := Some b)\<rparr>"
  have "bev_ok b" using ok by (simp add: b_def bev_ok_def client_ok_def)
  then show ?thesis
    using update_client_bev [OF inv a _ _ _ _ _ _ s1_def] ok client_bev [OF ok]
    by (intro exI [of _ s1]) (auto simp: bev_incref_def b_def s1_def client_ok_def)
qed

lemma decref_client:
  assumes inv: "server_inv s xs" and a: "a \<in> set xs" and r: "bev_refcnt (bev_of s a) = Suc n" "n \<noteq> 0"
  shows "\<exists>s1. bev_decref (cl_buf_ev (client_of s a)) s = Some s1 \<and> server_inv s1 xs \<and> same_clients s s1
    \<and> bev_of s1 a = (bev_of s a)\<lparr>bev_refcnt := n\<rparr>
    \<and> (\<forall>x \<in> set xs. x \<noteq> a \<longrightarrow> bev_of s1 x = bev_of s x) \<and> dom (bevs s1) = dom (bevs s)"
proof -
  have ok: "client_ok s a" using inv a by (simp add: server_inv_def)
  define b where "b = (bev_of s a)\<lparr>bev_refcnt := n\<rparr>"
  define s1 where "s1 = s\<lparr>bevs := (bevs s)(cl_buf_ev (client_of s a) := Some b)\<rparr>"
  have "bev_ok b" using ok by (simp add: b_def bev_ok_def client_ok_def)
  then show ?thesis
    using update_client_bev [OF inv a _ _ _ _ _ _ s1_def] ok client_bev [OF ok] r
    by (intro exI [of _ s1]) (auto simp: bev_decref_def bufferevent_decref_def b_def s1_def client_ok_def)
qed

lemma frame_refcnt:
  assumes "frame s s'" "client_ok s a" "client_ok s' a"
  shows "bev_refcnt (bev_of s' a) = bev_refcnt (bev_of s a)"
proof -
  have "map_option bev_refcnt (bevs s' (cl_buf_ev (client_of s a))) = map_option bev_refcnt (bevs s (cl_buf_ev (client_of s a)))"
    using assms(1) by (simp add: frame_def)
  moreover have "bevs s (cl_buf_ev (client_of s a)) = Some (bev_of s a)" by (rule client_bev [OF assms(2)])
  moreover have "bevs s' (cl_buf_ev (client_of s a)) = Some (bev_of s' a)"
    using client_bev [OF assms(3)] frame_client [OF assms(1)] by simp
  ultimately show ?thesis by simp
qed

lemma frame_dom:
  assumes "frame s s'" shows "dom (bevs s') = dom (bevs s)"
proof -
  have "bevs s' i = None \<longleftrightarrow> bevs s i = None" for i
    using assms by (metis frame_def map_option_is_None)
  then show ?thesis by (auto simp: dom_def)
qed

lemma run_readcb_ok:
  assumes id: "idle s xs" and a: "a \<in> set xs"
  shows "\<exists>s'. run_readcb mm e (cl_buf_ev (client_of s a)) s = Some s' \<and> idle s' xs \<and> same_clients s s'
    \<and> received s' a = [] \<and> to_send s' a = to_send s a
    \<and> (\<forall>x \<in> set xs. x \<noteq> a \<longrightarrow> received s' x = received s x \<and> got mm (received s a) s s' x)
    \<and> dom (bevs s') = dom (bevs s)"
proof -
  have inv: "server_inv s xs" and ref: "\<And>x. x \<in> set xs \<Longrightarrow> bev_refcnt (bev_of s x) = 1"
    using id by (simp_all add: idle_def)
  let ?i = "cl_buf_ev (client_of s a)"
  from incref_client [OF inv a] obtain s1 where
    s1: "bev_incref ?i s = Some s1" "server_inv s1 xs" "same_clients s s1"
      "bev_of s1 a = (bev_of s a)\<lparr>bev_refcnt := Suc (bev_refcnt (bev_of s a))\<rparr>"
      "\<forall>x \<in> set xs. x \<noteq> a \<longrightarrow> bev_of s1 x = bev_of s x" "dom (bevs s1) = dom (bevs s)" by blast
  have i1: "cl_buf_ev (client_of s1 a) = ?i" by (simp add: same_clients_client [OF s1(3)])
  from buffered_on_read [OF s1(2) a, of mm e] obtain s2 where
    s2: "buffered_on_read mm e ?i a s1 = Some s2" "server_inv s2 xs" "frame s1 s2" "received s2 a = []"
      "to_send s2 a = to_send s1 a"
      "\<forall>x \<in> set xs. x \<noteq> a \<longrightarrow> received s2 x = received s1 x \<and> got mm (received s1 a) s1 s2 x"
    by (auto simp: i1)
  have ok1: "client_ok s1 x" and ok2: "client_ok s2 x" if "x \<in> set xs" for x
    using s1(2) s2(2) that by (simp_all add: server_inv_def)
  have i2: "cl_buf_ev (client_of s2 a) = ?i" using frame_client [OF s2(3)] i1 by simp
  have r2: "bev_refcnt (bev_of s2 x) = bev_refcnt (bev_of s1 x)" if "x \<in> set xs" for x
    by (rule frame_refcnt [OF s2(3) ok1 [OF that] ok2 [OF that]])
  have "bev_refcnt (bev_of s2 a) = Suc 1" using r2 [OF a] s1(4) ref [OF a] by simp
  from decref_client [OF s2(2) a this] obtain s3 where
    s3: "bev_decref ?i s2 = Some s3" "server_inv s3 xs" "same_clients s2 s3"
      "bev_of s3 a = (bev_of s2 a)\<lparr>bev_refcnt := 1\<rparr>" "\<forall>x \<in> set xs. x \<noteq> a \<longrightarrow> bev_of s3 x = bev_of s2 x"
      "dom (bevs s3) = dom (bevs s2)"
    by (auto simp: i2)
  have "bev_readcb (bev_of s1 a) = Some Buffered_on_read" "bev_cbarg (bev_of s1 a) = Some a"
    using ok1 [OF a] by (simp_all add: client_ok_def)
  then have "run_readcb mm e ?i s = Some s3"
    using s1(1) client_bev [OF ok1 [OF a]] s2(1) s3(1) by (simp add: run_readcb_def i1)
  moreover have "bev_refcnt (bev_of s3 x) = 1" if x: "x \<in> set xs" for x
    using s3(4,5) r2 [OF x] s1(5) ref [OF x] x by (cases "x = a") simp_all
  then have "idle s3 xs" using s3(2) by (simp add: idle_def)
  moreover have "same_clients s s3" using s1(3) s2(3) s3(3) by (simp add: same_clients_def frame_def)
  moreover have "received s3 x = received s2 x \<and> to_send s3 x = to_send s2 x" if "x \<in> set xs" for x
    using s3(4,5) that by (cases "x = a") (simp_all add: received_def to_send_def)
  moreover have "received s1 x = received s x \<and> to_send s1 x = to_send s x \<and> roomy s1 x n = roomy s x n"
    if "x \<in> set xs" for x n
    using s1(4,5) that by (cases "x = a") (simp_all add: received_def to_send_def roomy_def)
  moreover have "dom (bevs s3) = dom (bevs s)" using s3(6) frame_dom [OF s2(3)] s1(6) by simp
  ultimately show ?thesis using s2 a by (intro exI [of _ s3]) (simp add: got_def)
qed

lemma run_eventcb_ok:
  assumes id: "idle s xs" and a: "a \<in> set xs"
  shows "\<exists>s'. run_eventcb (cl_buf_ev (client_of s a)) what s = Some s' \<and> idle s' (remove1 a xs)
    \<and> heap s' = (heap s)(a := None) \<and> dom (bevs s') = dom (bevs s) - {cl_buf_ev (client_of s a)}
    \<and> open_fds s' = removeAll (cl_fd (client_of s a)) (open_fds s)
    \<and> (\<forall>x \<in> set (remove1 a xs). bev_of s' x = bev_of s x)"
proof -
  have inv: "server_inv s xs" and ref: "\<And>x. x \<in> set xs \<Longrightarrow> bev_refcnt (bev_of s x) = 1"
    using id by (simp_all add: idle_def)
  let ?i = "cl_buf_ev (client_of s a)"
  from incref_client [OF inv a] obtain s1 where
    s1: "bev_incref ?i s = Some s1" "server_inv s1 xs" "same_clients s s1"
      "bev_of s1 a = (bev_of s a)\<lparr>bev_refcnt := Suc (bev_refcnt (bev_of s a))\<rparr>"
      "\<forall>x \<in> set xs. x \<noteq> a \<longrightarrow> bev_of s1 x = bev_of s x" "dom (bevs s1) = dom (bevs s)" by blast
  have cl: "client_of s1 x = client_of s x" for x by (rule same_clients_client [OF s1(3)])
  define m where "m = (if what AND BEV_EVENT_EOF \<noteq> 0 then ''Client disconnected.'' else ''Client socket error, disconnecting.'')"
  define b where "b = bufferevent_free (bev_of s1 a)"
  define s2 where "s2 = without_client (print m s1) a b"
  have err: "buffered_on_error what a s1 = Some s2"
    using buffered_on_error_eq [OF s1(2) a, of what] by (simp add: s2_def m_def b_def)
  obtain b' where b': "b = Some b'" "bev_refcnt b' = 1"
    using s1(4) ref [OF a] by (simp add: b_def bufferevent_free_def bufferevent_decref_def bufferevent_setcb_def)
  have inv1: "server_inv (print m s1) xs" using s1(2) by simp
  have inv2: "server_inv s2 (remove1 a xs)"
    and bev2: "\<And>x. x \<in> set (remove1 a xs) \<Longrightarrow> bev_of s2 x = bev_of s1 x"
    and cl2: "\<And>x. x \<noteq> a \<Longrightarrow> client_of s2 x = client_of s x"
    unfolding s2_def using without_client [OF inv1 a, where b = b] by (simp_all add: cl)
  define s3 where "s3 = s2\<lparr>bevs := (bevs s2)(?i := None)\<rparr>"
  have i2: "bevs s2 ?i = Some b'" by (simp add: s2_def without_client_def print_def b' cl [unfolded client_of_def] client_of_def)
  then have dec: "bev_decref ?i s2 = Some s3"
    by (simp add: bev_decref_def bufferevent_decref_def b'(2) s3_def)
  have ok1: "client_ok s1 x" if "x \<in> set xs" for x using s1(2) that by (simp add: server_inv_def)
  have "bev_errorcb (bev_of s1 a) = Some Buffered_on_error" "bev_cbarg (bev_of s1 a) = Some a"
    using ok1 [OF a] by (simp_all add: client_ok_def)
  then have run: "run_eventcb ?i what s = Some s3"
    using s1(1) client_bev [OF ok1 [OF a]] err dec by (simp add: run_eventcb_def cl)
  have "distinct xs" using inv tq.distinct_rep by (auto simp: server_inv_def)
  then have sub: "x \<in> set xs \<and> x \<noteq> a" if "x \<in> set (remove1 a xs)" for x using that by simp
  have "cl_buf_ev (client_of s2 x) \<noteq> ?i" if x: "x \<in> set (remove1 a xs)" for x
  proof -
    have x': "x \<in> set xs" "x \<noteq> a" using sub [OF x] by simp_all
    then show ?thesis using client_bevs_distinct [OF ok1 [OF a] ok1 [OF x'(1)]] cl cl2 [OF x'(2)] by auto
  qed
  then have bev3: "bev_of s3 x = bev_of s2 x" if "x \<in> set (remove1 a xs)" for x
    using that by (simp add: s3_def bev_of_def client_of_def)
  have "client_ok s3 x" if x: "x \<in> set (remove1 a xs)" for x
  proof -
    have "client_ok s2 x" using inv2 x by (simp add: server_inv_def)
    with bev3 [OF x] \<open>\<And>x. x \<in> set (remove1 a xs) \<Longrightarrow> cl_buf_ev (client_of s2 x) \<noteq> ?i\<close> [OF x]
    show ?thesis by (simp add: client_ok_def) (simp add: s3_def client_of_def)
  qed
  then have "server_inv s3 (remove1 a xs)" using inv2 by (simp add: server_inv_def s3_def client_of_def)
  moreover have "bev_of s3 x = bev_of s x" if x: "x \<in> set (remove1 a xs)" for x
    using bev3 [OF x] bev2 [OF x] s1(5) sub [OF x] by simp
  moreover have "heap s3 = (heap s)(a := None)"
    using s1(3) by (simp add: s3_def s2_def without_client_def print_def same_clients_def)
  moreover have "dom (bevs s3) = dom (bevs s) - {?i}"
    using s1(6) i2 by (auto simp: s3_def s2_def without_client_def print_def cl [unfolded client_of_def] client_of_def)
  moreover have "open_fds s3 = removeAll (cl_fd (client_of s a)) (open_fds s)"
    using s1(3) by (simp add: s3_def s2_def without_client_def print_def same_clients_def client_of_def)
  moreover have "bev_refcnt (bev_of s x) = 1" if "x \<in> set (remove1 a xs)" for x
    using ref [of x] sub [OF that] by blast
  ultimately show ?thesis using run by (auto simp: idle_def intro!: exI [of _ s3])
qed

text \<open>
  A step is one event the loop of \<open>event_base_dispatch\<close> hands to the program: a connection, bytes
  that arrived on a bufferevent, an end of file or an error, or output that was sent. What
  libevent does to a buffer before it calls back (it appends what it read, it removes what it
  sent) is given by its effect. Descriptors, objects and bufferevents that \<open>accept\<close>, \<open>calloc\<close> and
  \<open>bufferevent_socket_new\<close> hand out are ones not in use.
\<close>

datatype server_event =
    Connection accept_env
  | Arrival nat "byte list"
  | Failure nat u16
  | Sent nat nat

definition fresh_env :: "server \<Rightarrow> accept_env \<Rightarrow> bool" where
  "fresh_env s env \<longleftrightarrow> acc_fd env \<notin> set (open_fds s)
     \<and> (case acc_client env of None \<Rightarrow> True | Some a \<Rightarrow> heap s a = None)
     \<and> (case acc_bev env of None \<Rightarrow> True | Some i \<Rightarrow> bevs s i = None)"

definition arrive :: "nat \<Rightarrow> evbuffer \<Rightarrow> server \<Rightarrow> server" where
  "arrive i inp s = s\<lparr>bevs := (bevs s)(i := map_option (\<lambda>b. b\<lparr>bev_input := inp\<rparr>) (bevs s i))\<rparr>"

definition leave :: "nat \<Rightarrow> evbuffer \<Rightarrow> server \<Rightarrow> server" where
  "leave i out s = s\<lparr>bevs := (bevs s)(i := map_option (\<lambda>b. b\<lparr>bev_output := out\<rparr>) (bevs s i))\<rparr>"

text \<open>
  A step is whatever libevent or the kernel may do next, with the outcome of the callback that handles it: an arrival
  appends bytes to the input of a live bufferevent and runs its read callback. Nothing is said about the outcome:
  a callback that follows a dangling pointer or does not return is a step to \<open>Undefined\<close>.
\<close>

definition outcome :: "server option \<Rightarrow> server run" where
  "outcome r = (case r of None \<Rightarrow> Undefined | Some s \<Rightarrow> Done s)"

inductive server_step :: "allocator \<Rightarrow> server \<Rightarrow> server_event \<Rightarrow> server run \<Rightarrow> bool" for mm :: allocator where
  connection: "fresh_env s env \<Longrightarrow> server_step mm s (Connection env) (on_accept env s)"
| arrival: "bevs s i = Some b \<Longrightarrow> evb_readable inp \<Longrightarrow> evb_bytes inp = evb_bytes (bev_input b) @ data
    \<Longrightarrow> server_step mm s (Arrival i data) (outcome (run_readcb mm e i (arrive i inp s)))"
| failure: "bevs s i = Some b \<Longrightarrow> server_step mm s (Failure i what) (outcome (run_eventcb i what s))"
| sent: "bevs s i = Some b \<Longrightarrow> bev_ok (b\<lparr>bev_output := out\<rparr>) \<Longrightarrow> evb_bytes out = drop n (evb_bytes (bev_output b))
    \<Longrightarrow> server_step mm s (Sent i n) (Done (leave i out s))"

inductive_cases server_stepE: "server_step mm s ev r"

inductive reachable :: "allocator \<Rightarrow> boot_env \<Rightarrow> server run \<Rightarrow> bool" for mm :: allocator and env :: boot_env where
  boot: "reachable mm env (snd (fire_main env))"
| step: "reachable mm env (Done s) \<Longrightarrow> server_step mm s ev r \<Longrightarrow> reachable mm env r"

text \<open>
  Nothing leaks and nothing dangles: the live objects are those of the clients in the queue, the
  live bufferevents are theirs, the open descriptors are the listening one and theirs.
\<close>

definition accounted :: "int \<Rightarrow> server \<Rightarrow> addr list \<Rightarrow> bool" where
  "accounted lfd s xs \<longleftrightarrow> idle s xs \<and> dom (heap s) = set xs
     \<and> dom (bevs s) = (\<lambda>a. cl_buf_ev (client_of s a)) ` set xs
     \<and> set (open_fds s) = insert lfd ((\<lambda>a. cl_fd (client_of s a)) ` set xs)
     \<and> lfd \<notin> (\<lambda>a. cl_fd (client_of s a)) ` set xs"

lemma accounted_boot:
  assumes "fire_main env = (calls, Done s)"
  shows "accounted (boot_socket env) s []"
proof -
  have "server_inv s []" "heap s = (\<lambda>_. None)" "bevs s = (\<lambda>_. None)" "open_fds s = [boot_socket env]"
    using assms rep_init by (auto simp: fire_main_def server_inv_def split: if_splits)
  then show ?thesis by (simp add: accounted_def idle_def)
qed

lemma idleD: "idle s xs \<Longrightarrow> server_inv s xs" "idle s xs \<Longrightarrow> a \<in> set xs \<Longrightarrow> client_ok s a"
  "idle s xs \<Longrightarrow> distinct xs"
  using tq.distinct_rep by (auto simp: idle_def server_inv_def)

lemma accounted_accept:
  assumes acc: "accounted lfd s xs" and fr: "fresh_client s xs env a i"
  shows "\<exists>s'. on_accept env s = Done s' \<and> accounted lfd s' (xs @ [a])"
proof -
  have id: "idle s xs" using acc by (simp add: accounted_def)
  from on_accept_ok [OF idleD(1) [OF id] fr] obtain s' where
    s': "on_accept env s = Done s'" "server_inv s' (xs @ [a])" "open_fds s' = open_fds s @ [acc_fd env]"
      "bev_refcnt (bev_of s' a) = 1" "\<forall>x \<in> set xs. bev_of s' x = bev_of s x \<and> client_of s' x = client_of s x"
      "client_of s' a = \<lparr>cl_fd = acc_fd env, cl_buf_ev = i\<rparr>"
      "dom (heap s') = insert a (dom (heap s))" "dom (bevs s') = insert i (dom (bevs s))" by blast
  have "idle s' (xs @ [a])" using s'(2,4,5) id by (simp add: idle_def)
  moreover have "f ` set (xs @ [a]) = insert (f a) (f ` set xs)" for f :: "addr \<Rightarrow> 'b" by simp
  moreover have "(\<lambda>x. cl_buf_ev (client_of s' x)) ` set xs = (\<lambda>x. cl_buf_ev (client_of s x)) ` set xs"
    "(\<lambda>x. cl_fd (client_of s' x)) ` set xs = (\<lambda>x. cl_fd (client_of s x)) ` set xs"
    using s'(5) by (simp_all cong: image_cong)
  moreover have "acc_fd env \<notin> set (open_fds s)" using fr by (simp add: fresh_client_def)
  ultimately show ?thesis using s' acc by (auto simp: accounted_def)
qed

lemma accounted_failure:
  assumes acc: "accounted lfd s xs" and a: "a \<in> set xs"
  shows "\<exists>s'. run_eventcb (cl_buf_ev (client_of s a)) what s = Some s' \<and> accounted lfd s' (remove1 a xs)"
proof -
  have id: "idle s xs" using acc by (simp add: accounted_def)
  from run_eventcb_ok [OF id a, of what] obtain s' where
    s': "run_eventcb (cl_buf_ev (client_of s a)) what s = Some s'" "idle s' (remove1 a xs)"
      "heap s' = (heap s)(a := None)" "dom (bevs s') = dom (bevs s) - {cl_buf_ev (client_of s a)}"
      "open_fds s' = removeAll (cl_fd (client_of s a)) (open_fds s)" by blast
  have xs: "set (remove1 a xs) = set xs - {a}" using idleD(3) [OF id] by simp
  have cl: "client_of s' x = client_of s x" if "x \<noteq> a" for x using s'(3) that by (simp add: client_of_def)
  have img: "(\<lambda>x. f (client_of s' x)) ` (set xs - {a}) = (\<lambda>x. f (client_of s x)) ` set xs - {f (client_of s a)}"
    if inj: "inj_on (\<lambda>x. f (client_of s x)) (set xs)" for f :: "client \<Rightarrow> 'b"
  proof -
    have "(\<lambda>x. f (client_of s' x)) ` (set xs - {a}) = (\<lambda>x. f (client_of s x)) ` (set xs - {a})"
      by (rule image_cong) (auto simp: cl)
    then show ?thesis using inj_on_image_set_diff [OF inj, of "set xs" "{a}"] a by simp
  qed
  have "inj_on (\<lambda>x. cl_fd (client_of s x)) (set xs)" using idleD(1) [OF id] by (simp add: server_inv_def)
  note fds = img [OF this]
  have "inj_on (\<lambda>x. cl_buf_ev (client_of s x)) (set xs)"
    using client_bevs_distinct idleD(2) [OF id] unfolding inj_on_def by metis
  note bes = img [OF this]
  have "cl_fd (client_of s a) \<noteq> lfd" using acc a by (auto simp: accounted_def)
  then show ?thesis using s' acc xs fds bes by (auto simp: accounted_def)
qed

lemma accounted_same:
  assumes "accounted lfd s xs" "idle s' xs" "same_clients s s'" "dom (bevs s') = dom (bevs s)"
  shows "accounted lfd s' xs"
  using assms by (simp add: accounted_def same_clients_def client_of_def)

lemma accounted_bevs:
  assumes acc: "accounted lfd s xs" and b: "bevs s i = Some b"
  obtains a where "a \<in> set xs" "i = cl_buf_ev (client_of s a)" "b = bev_of s a"
proof -
  have "i \<in> (\<lambda>a. cl_buf_ev (client_of s a)) ` set xs" using acc b unfolding accounted_def by blast
  then obtain a where a: "a \<in> set xs" "i = cl_buf_ev (client_of s a)" by blast
  have "client_ok s a" using acc a by (simp add: accounted_def idle_def server_inv_def)
  from client_bev [OF this] have "b = bev_of s a" using b a by simp
  with a that show ?thesis by blast
qed

lemma accounted_update:
  assumes acc: "accounted lfd s xs" and a: "a \<in> set xs"
    and b: "bev_ok b" "\<exists>inp out. b = (bev_of s a)\<lparr>bev_input := inp, bev_output := out\<rparr>"
    and s': "s' = s\<lparr>bevs := (bevs s)(cl_buf_ev (client_of s a) := Some b)\<rparr>"
  shows "accounted lfd s' xs \<and> same_clients s s' \<and> bev_of s' a = b \<and> (\<forall>x \<in> set xs. x \<noteq> a \<longrightarrow> bev_of s' x = bev_of s x)"
proof -
  have id: "idle s xs" using acc by (simp add: accounted_def)
  have ok: "client_ok s a" by (rule idleD(2) [OF id a])
  obtain inp out where b': "b = (bev_of s a)\<lparr>bev_input := inp, bev_output := out\<rparr>" using b(2) by blast
  have u: "server_inv s' xs \<and> same_clients s s' \<and> (bev_refcnt b = bev_refcnt (bev_of s a) \<longrightarrow> frame s s')
    \<and> bev_of s' a = b \<and> (\<forall>x \<in> set xs. x \<noteq> a \<longrightarrow> bev_of s' x = bev_of s x)"
    by (rule update_client_bev [OF idleD(1) [OF id] a b(1) _ _ _ _ _ s']) (use ok in \<open>simp_all add: b' client_ok_def\<close>)
  have "bev_refcnt (bev_of s' x) = 1" if x: "x \<in> set xs" for x
    using u x id by (cases "x = a") (auto simp: idle_def b')
  then have "idle s' xs" using u by (simp add: idle_def)
  moreover have "frame s s'" using u by (simp add: b')
  ultimately show ?thesis using accounted_same [OF acc] u frame_dom by blast
qed

text \<open>
  What the outcome of a step can be: a state that satisfies the invariant; the end of the process, with status 1 and only
  because there is no memory for a new client; undefined behaviour, only because there is none for its bufferevent.
\<close>

definition handled :: "int \<Rightarrow> server_event \<Rightarrow> server run \<Rightarrow> bool" where
  "handled lfd ev r \<longleftrightarrow> (case r of
       Done s \<Rightarrow> \<exists>xs. accounted lfd s xs
     | Exits n \<Rightarrow> n = 1 \<and> (\<exists>env. ev = Connection env \<and> 0 \<le> acc_fd env \<and> acc_client env = None)
     | Undefined \<Rightarrow> \<exists>env. ev = Connection env \<and> 0 \<le> acc_fd env \<and> acc_client env \<noteq> None \<and> acc_bev env = None)"

lemma accept_handled:
  assumes acc: "accounted lfd s xs" and fr: "fresh_env s env"
  shows "handled lfd (Connection env) (on_accept env s)"
proof (cases "acc_fd env < 0")
  case True
  then have "on_accept env s = Done (print ''accept failed'' s)" by (simp add: on_accept_def)
  moreover have "accounted lfd (print ''accept failed'' s) xs"
    using acc by (simp add: accounted_def idle_def) (simp add: print_def)
  ultimately show ?thesis by (auto simp: handled_def)
next
  case False
  show ?thesis
  proof (cases "\<exists>a i. acc_client env = Some a \<and> acc_bev env = Some i")
    case True
    then obtain a i where ai: "acc_client env = Some a" "acc_bev env = Some i" by blast
    have "a \<notin> dom (heap s)" using fr ai by (auto simp: fresh_env_def)
    then have "fresh_client s xs env a i"
      using fr ai False acc by (auto simp: fresh_env_def fresh_client_def accounted_def)
    from accounted_accept [OF acc this] show ?thesis by (auto simp: handled_def)
  next
    case none: False
    with False show ?thesis by (cases "acc_client env"; cases "acc_bev env") (auto simp: on_accept_def Let_def handled_def)
  qed
qed

lemma bev_input_update:
  assumes acc: "accounted lfd s xs" and a: "a \<in> set xs" and inp: "evb_readable inp"
  defines "s1 \<equiv> arrive (cl_buf_ev (client_of s a)) inp s"
  shows "accounted lfd s1 xs \<and> same_clients s s1 \<and> received s1 a = evb_bytes inp
    \<and> (\<forall>x. x \<in> set xs \<longrightarrow> to_send s1 x = to_send s x \<and> roomy s1 x = roomy s x
         \<and> (x \<noteq> a \<longrightarrow> received s1 x = received s x))"
proof -
  have ok: "client_ok s a" using acc a by (simp add: accounted_def idle_def server_inv_def)
  have s1: "s1 = s\<lparr>bevs := (bevs s)(cl_buf_ev (client_of s a) := Some ((bev_of s a)\<lparr>bev_input := inp\<rparr>))\<rparr>"
    using client_bev [OF ok] by (simp add: s1_def arrive_def)
  have bok: "bev_ok ((bev_of s a)\<lparr>bev_input := inp\<rparr>)" using ok inp by (simp add: client_ok_def bev_ok_def)
  have "\<exists>i out. (bev_of s a)\<lparr>bev_input := inp\<rparr> = (bev_of s a)\<lparr>bev_input := i, bev_output := out\<rparr>"
    by (intro exI [of _ inp] exI [of _ "bev_output (bev_of s a)"]) simp
  from accounted_update [OF acc a bok this s1]
  have u: "accounted lfd s1 xs" "same_clients s s1" "bev_of s1 a = (bev_of s a)\<lparr>bev_input := inp\<rparr>"
    "\<And>x. x \<in> set xs \<Longrightarrow> x \<noteq> a \<Longrightarrow> bev_of s1 x = bev_of s x" by blast+
  have "to_send s1 x = to_send s x \<and> roomy s1 x = roomy s x \<and> (x \<noteq> a \<longrightarrow> received s1 x = received s x)"
    if "x \<in> set xs" for x
    using u(3) u(4) [OF that] by (cases "x = a") (auto simp: to_send_def roomy_def received_def)
  then show ?thesis using u by (simp add: received_def)
qed

text \<open>The invariant holds in every state that is reached, and every step from there is handled.\<close>

lemma step_handled:
  assumes acc: "accounted lfd s xs" and st: "server_step mm s ev r"
  shows "handled lfd ev r"
  using st
proof (cases rule: server_step.cases)
  case (connection env)
  then show ?thesis using accept_handled [OF acc] by blast
next
  case (arrival i b inp data e)
  obtain a where a: "a \<in> set xs" "i = cl_buf_ev (client_of s a)" "b = bev_of s a"
    by (rule accounted_bevs [OF acc arrival(3)])
  from bev_input_update [OF acc a(1) arrival(4)] have
    s1: "accounted lfd (arrive i inp s) xs" "same_clients s (arrive i inp s)" by (simp_all add: a(2))
  have "idle (arrive i inp s) xs" using s1 by (simp add: accounted_def)
  note run = run_readcb_ok [OF this a(1), of mm e]
  have "cl_buf_ev (client_of (arrive i inp s) a) = i"
    using same_clients_client [OF s1(2), of a] a(2) by simp
  with run obtain s' where s': "run_readcb mm e i (arrive i inp s) = Some s'" "idle s' xs" "same_clients (arrive i inp s) s'"
    "dom (bevs s') = dom (bevs (arrive i inp s))" by auto
  then show ?thesis using accounted_same [OF s1(1) s'(2-4)] arrival(2) by (auto simp: handled_def outcome_def)
next
  case (failure i b what)
  obtain a where a: "a \<in> set xs" "i = cl_buf_ev (client_of s a)" "b = bev_of s a"
    by (rule accounted_bevs [OF acc failure(3)])
  from accounted_failure [OF acc a(1), of what] failure(2) a(2) show ?thesis by (auto simp: handled_def outcome_def)
next
  case (sent i b out n)
  obtain a where a: "a \<in> set xs" "i = cl_buf_ev (client_of s a)" "b = bev_of s a"
    by (rule accounted_bevs [OF acc sent(3)])
  have "leave i out s = s\<lparr>bevs := (bevs s)(cl_buf_ev (client_of s a) := Some (b\<lparr>bev_output := out\<rparr>))\<rparr>"
    using sent(3) a(2) by (simp add: leave_def)
  moreover have "\<exists>i o1. b\<lparr>bev_output := out\<rparr> = (bev_of s a)\<lparr>bev_input := i, bev_output := o1\<rparr>"
    by (intro exI [of _ "bev_input b"] exI [of _ out]) (simp add: a(3))
  ultimately have "accounted lfd (leave i out s) xs" using accounted_update [OF acc a(1) sent(4)] by blast
  then show ?thesis using sent(2) by (auto simp: handled_def)
qed

lemma reachable_accounted: "reachable mm env (Done s) \<Longrightarrow> \<exists>xs. accounted (boot_socket env) s xs"
proof (induction "Done s :: server run" arbitrary: s rule: reachable.induct)
  case boot
  then have "fire_main env = (fst (fire_main env), Done s)" by (metis prod.collapse)
  then show ?case using accounted_boot by blast
next
  case (step t ev)
  from step.hyps(2) obtain xs where "accounted (boot_socket env) t xs" by blast
  from step_handled [OF this step.hyps(3)] show ?case by (simp add: handled_def)
qed

section \<open>A server with two clients\<close>

text \<open>The state used to check the properties on an input: two clients, three bytes from the first.\<close>

definition demo_accept :: "int \<Rightarrow> addr \<Rightarrow> nat \<Rightarrow> accept_env" where
  "demo_accept fd a i = \<lparr>acc_fd = fd, acc_getfl = 2, acc_setfl = (\<lambda>_. 0), acc_client = Some a, acc_bev = Some i,
     acc_ev_ok = True\<rparr>"

definition demo_boot :: boot_env where
  "demo_boot = \<lparr>boot_socket = 3, boot_bind = 0, boot_listen = 0, boot_getfl = 2, boot_setfl = (\<lambda>_. 0),
     boot_memory = \<lparr>tqh_first = None, tqh_last = HeadFirst, tqe_next = (\<lambda>_. None), tqe_prev = (\<lambda>_. HeadFirst)\<rparr>\<rparr>"

definition state_of :: "server run \<Rightarrow> server \<Rightarrow> server" where
  "state_of r d = (case r of Done s \<Rightarrow> s | _ \<Rightarrow> d)"

definition demo0 :: server where
  "demo0 = \<lparr>client_tailq = TAILQ_INIT (boot_memory demo_boot), heap = (\<lambda>_. None), bevs = (\<lambda>_. None),
     open_fds = [3], console = [''Fire Server is running'']\<rparr>"
definition demo1 :: server where "demo1 = state_of (on_accept (demo_accept 4 100 10) demo0) demo0"
definition demo2 :: server where "demo2 = state_of (on_accept (demo_accept 5 200 20) demo1) demo1"
definition demo3 :: server where "demo3 = arrive 10 (filled [1, 2, 3]) demo2"

lemma demo0: "fire_main demo_boot = ([Socket, Bind, Listen, SetReuseAddr, SetNonblock, EventAdd], Done demo0)"
  by (simp add: fire_main_def demo_boot_def setnonblock_def demo0_def)

lemma demo2:
  "on_accept (demo_accept 4 100 10) demo0 = Done demo1" "fresh_env demo0 (demo_accept 4 100 10)"
  "on_accept (demo_accept 5 200 20) demo1 = Done demo2" "fresh_env demo1 (demo_accept 5 200 20)"
  "accounted 3 demo2 [100, 200]" "received demo2 100 = []" "to_send demo2 100 = []" "to_send demo2 200 = []"
  "client_of demo2 100 = \<lparr>cl_fd = 4, cl_buf_ev = 10\<rparr>" "roomy demo2 200 3"
proof -
  have a0: "accounted 3 demo0 []" using accounted_boot [OF demo0] by (simp add: demo_boot_def)
  have f0: "fresh_client demo0 [] (demo_accept 4 100 10) 100 10"
    by (simp add: fresh_client_def demo_accept_def demo0_def)
  have i0: "server_inv demo0 []" using a0 by (simp add: accounted_def idle_def)
  from on_accept_ok [OF i0 f0, of 3] accounted_accept [OF a0 f0]
  show e1: "on_accept (demo_accept 4 100 10) demo0 = Done demo1" and
    "fresh_env demo0 (demo_accept 4 100 10)"
    by (auto simp: demo1_def state_of_def fresh_env_def demo_accept_def demo0_def)
  from on_accept_ok [OF i0 f0, of 3] accounted_accept [OF a0 f0] e1
  have a1: "accounted 3 demo1 [100]" and s1: "received demo1 100 = []" "to_send demo1 100 = []"
    "open_fds demo1 = [3, 4]" "client_of demo1 100 = \<lparr>cl_fd = 4, cl_buf_ev = 10\<rparr>"
    "dom (heap demo1) = {100}" "dom (bevs demo1) = {10}"
    by (auto simp: demo_accept_def demo0_def)
  have "200 \<notin> dom (heap demo1)" "20 \<notin> dom (bevs demo1)" using s1(5,6) by simp_all
  then have n1: "heap demo1 200 = None" "bevs demo1 20 = None" by blast+
  have f1: "fresh_client demo1 [100] (demo_accept 5 200 20) 200 20"
    using n1 s1(3) by (simp add: fresh_client_def demo_accept_def)
  have i1: "server_inv demo1 [100]" using a1 by (simp add: accounted_def idle_def)
  from on_accept_ok [OF i1 f1, of 3]
  show e2: "on_accept (demo_accept 5 200 20) demo1 = Done demo2" and
    "fresh_env demo1 (demo_accept 5 200 20)"
    using n1 s1(3) by (auto simp: demo2_def state_of_def fresh_env_def demo_accept_def)
  from on_accept_ok [OF i1 f1, of 3] accounted_accept [OF a1 f1] e2 s1
  show "roomy demo2 200 3" "accounted 3 demo2 [100, 200]" "received demo2 100 = []" "to_send demo2 100 = []" "to_send demo2 200 = []"
    "client_of demo2 100 = \<lparr>cl_fd = 4, cl_buf_ev = 10\<rparr>"
    by (auto simp: received_def to_send_def evb_consts)
qed

lemma demo_reachable: "reachable mm demo_boot (Done demo2)"
proof -
  have "reachable mm demo_boot (Done demo0)" using reachable.boot [of mm demo_boot] demo0 by simp
  from reachable.step [OF this server_step.connection [OF demo2(2)]] have "reachable mm demo_boot (Done demo1)" by (simp add: demo2(1))
  from reachable.step [OF this server_step.connection [OF demo2(4)]] show ?thesis by (simp add: demo2(3))
qed

lemma demo3: "accounted 3 demo3 [100, 200]" "received demo3 100 = [1, 2, 3]" "to_send demo3 100 = []"
  "to_send demo3 200 = []" "cl_buf_ev (client_of demo3 100) = 10" "roomy demo3 200 3"
proof -
  have a: "100 \<in> set [100, 200]" "cl_buf_ev (client_of demo2 100) = 10" using demo2(9) by simp_all
  have f: "evb_readable (filled [1, 2, 3])" "evb_bytes (filled [1, 2, 3]) = [1, 2, 3]"
    using filled_ok [of "[1, 2, 3]"] by (simp_all add: evb_consts)
  from bev_input_update [OF demo2(5) a(1) f(1)] demo2 f(2) a(2) show "accounted 3 demo3 [100, 200]"
    "received demo3 100 = [1, 2, 3]" "to_send demo3 100 = []" "to_send demo3 200 = []"
    "cl_buf_ev (client_of demo3 100) = 10" "roomy demo3 200 3"
    by (auto simp: demo3_def same_clients_client)
qed

section \<open>Properties\<close>

text \<open>C1: In every state the server can reach, the queue of clients is a well-formed tail queue, and the live client
  objects, bufferevents and descriptors are exactly those of its clients (and the listening socket). Whatever happens
  next (a connection, any bytes arriving for any client, a failure, output being flushed), the callback that handles it
  returns in such a state again: no dangling pointer is followed and the read loop ends. The only exceptions are
  those of \<open>on_accept\<close>: the process exits when there is no memory for the new client, and the behaviour is
  undefined when there is none for its bufferevent.\<close>
theorem server_safe:
  assumes "reachable mm env (Done s)"
  shows "(\<exists>xs. accounted (boot_socket env) s xs) \<and> (\<forall>ev r. server_step mm s ev r \<longrightarrow> handled (boot_socket env) ev r)"
  using reachable_accounted [OF assms] step_handled by blast

theorem server_safe_witness:
  "\<exists>s' xs. run_readcb (\<lambda>_. None) True 10 demo3 = Some s' \<and> accounted 3 s' xs"
proof -
  have f: "evb_readable (filled [1, 2, 3])" "evb_bytes (filled [1, 2, 3]) = [1, 2, 3]"
    using filled_ok [of "[1, 2, 3]"] by (simp_all add: evb_consts)
  have c: "client_ok demo2 100" using demo2(5) by (simp add: accounted_def idle_def server_inv_def)
  have "bevs demo2 10 = Some (bev_of demo2 100)" using client_bev [OF c] demo2(9) by simp
  moreover have "evb_bytes (bev_input (bev_of demo2 100)) = []" using demo2(6) by (simp add: received_def)
  ultimately have "server_step (\<lambda>_. None) demo2 (Arrival 10 [1, 2, 3]) (outcome (run_readcb (\<lambda>_. None) True 10 demo3))"
    unfolding demo3_def by (intro server_step.arrival) (simp_all add: f)
  with server_safe [OF demo_reachable [of "\<lambda>_. None"]]
  have "handled 3 (Arrival 10 [1, 2, 3]) (outcome (run_readcb (\<lambda>_. None) True 10 demo3))" by (simp add: demo_boot_def)
  then show ?thesis by (auto simp: handled_def outcome_def split: option.splits)
qed

text \<open>C2: When memory does not run out, a read callback sends what its client wrote, unchanged and in
  order, to every other client and to no one else: the input is emptied, every other client's output
  grows by exactly these bytes, and the sender's own output does not change.\<close>
theorem broadcast_exact:
  assumes acc: "accounted lfd s xs" and a: "a \<in> set xs" and mm: "alloc_ok mm"
    and room: "\<forall>x \<in> set xs. x \<noteq> a \<longrightarrow> roomy s x (length (received s a))"
  shows "\<exists>s'. run_readcb mm e (cl_buf_ev (client_of s a)) s = Some s' \<and> accounted lfd s' xs
    \<and> received s' a = [] \<and> to_send s' a = to_send s a
    \<and> (\<forall>x \<in> set xs. x \<noteq> a \<longrightarrow> received s' x = received s x \<and> to_send s' x = to_send s x @ received s a)"
proof -
  have "idle s xs" using acc by (simp add: accounted_def)
  from run_readcb_ok [OF this a, of mm e] obtain s' where
    s': "run_readcb mm e (cl_buf_ev (client_of s a)) s = Some s'" "idle s' xs" "same_clients s s'"
      "received s' a = []" "to_send s' a = to_send s a" "dom (bevs s') = dom (bevs s)"
      "\<forall>x \<in> set xs. x \<noteq> a \<longrightarrow> received s' x = received s x \<and> got mm (received s a) s s' x" by blast
  moreover have "accounted lfd s' xs" by (rule accounted_same [OF acc s'(2,3,6)])
  ultimately show ?thesis using mm room by (auto simp: got_def)
qed

theorem broadcast_exact_witness:
  "\<exists>s'. run_readcb (\<lambda>_. Some (\<lambda>_. 0)) True 10 demo3 = Some s' \<and> received s' 100 = []
    \<and> to_send s' 100 = [] \<and> to_send s' 200 = [1, 2, 3]"
  using broadcast_exact [OF demo3(1), of 100 "\<lambda>_. Some (\<lambda>_. 0)" True] demo3 by (auto simp: alloc_ok_def numeral_3_eq_3)

text \<open>C3: Whatever the allocator does, a read callback returns with its client's input used up, and
  each other client has been sent some of the 8192-byte blocks it was cut into, whole and in order;
  the sender gets nothing back. (The code ignores the result of \<open>bufferevent_write\<close>, so a
  block can be lost.)\<close>
theorem broadcast_blocks:
  assumes "accounted lfd s xs" and "a \<in> set xs"
  shows "\<exists>s'. run_readcb mm e (cl_buf_ev (client_of s a)) s = Some s' \<and> accounted lfd s' xs
    \<and> received s' a = [] \<and> to_send s' a = to_send s a
    \<and> (\<forall>x \<in> set xs. x \<noteq> a \<longrightarrow> (\<exists>ds. subseq ds (blocks_of DATA_SIZE (received s a))
         \<and> to_send s' x = to_send s x @ concat ds))"
proof -
  have "idle s xs" using assms(1) by (simp add: accounted_def)
  from run_readcb_ok [OF this assms(2), of mm e] obtain s' where
    s': "run_readcb mm e (cl_buf_ev (client_of s a)) s = Some s'" "idle s' xs" "same_clients s s'"
      "received s' a = []" "to_send s' a = to_send s a" "dom (bevs s') = dom (bevs s)"
      "\<forall>x \<in> set xs. x \<noteq> a \<longrightarrow> received s' x = received s x \<and> got mm (received s a) s s' x" by blast
  moreover have "accounted lfd s' xs" by (rule accounted_same [OF assms(1) s'(2,3,6)])
  ultimately show ?thesis by (auto simp: got_def)
qed

theorem broadcast_blocks_witness:
  "\<exists>s' ds. run_readcb (\<lambda>_. None) True 10 demo3 = Some s' \<and> received s' 100 = [] \<and> to_send s' 200 = concat ds"
  using broadcast_blocks [OF demo3(1), of 100 "\<lambda>_. None" True] demo3 by auto

text \<open>C4: A client that disconnects or fails is unlinked from the queue, its object, its
  bufferevent and its descriptor are released and nothing else: the other clients keep their order
  and their buffers.\<close>
theorem disconnect:
  assumes "accounted lfd s xs" and "a \<in> set xs"
  shows "\<exists>s'. run_eventcb (cl_buf_ev (client_of s a)) what s = Some s' \<and> accounted lfd s' (remove1 a xs)
    \<and> TAILQ_FOREACH (client_tailq s') = Some (remove1 a xs)
    \<and> heap s' a = None \<and> bevs s' (cl_buf_ev (client_of s a)) = None
    \<and> cl_fd (client_of s a) \<notin> set (open_fds s')
    \<and> (\<forall>x \<in> set xs. x \<noteq> a \<longrightarrow> received s' x = received s x \<and> to_send s' x = to_send s x)"
proof -
  have id: "idle s xs" using assms(1) by (simp add: accounted_def)
  from run_eventcb_ok [OF id assms(2), of what] accounted_failure [OF assms, of what] obtain s' where
    s': "run_eventcb (cl_buf_ev (client_of s a)) what s = Some s'" "accounted lfd s' (remove1 a xs)"
      "heap s' = (heap s)(a := None)" "dom (bevs s') = dom (bevs s) - {cl_buf_ev (client_of s a)}"
      "open_fds s' = removeAll (cl_fd (client_of s a)) (open_fds s)"
      "\<forall>x \<in> set (remove1 a xs). bev_of s' x = bev_of s x" by auto
  have "set (remove1 a xs) = set xs - {a}" using idleD(3) [OF id] by simp
  moreover have "TAILQ_FOREACH (client_tailq s') = Some (remove1 a xs)"
    using s'(2) tq.walk_rep by (simp add: accounted_def idle_def server_inv_def)
  moreover have "cl_buf_ev (client_of s a) \<notin> dom (bevs s')" using s'(4) by simp
  then have "bevs s' (cl_buf_ev (client_of s a)) = None" by blast
  ultimately show ?thesis using s' by (simp add: received_def to_send_def)
qed

theorem disconnect_witness:
  "\<exists>s'. run_eventcb 10 BEV_EVENT_EOF demo3 = Some s' \<and> accounted 3 s' [200]
    \<and> TAILQ_FOREACH (client_tailq s') = Some [200]"
  using disconnect [OF demo3(1), of 100 BEV_EVENT_EOF] demo3 by auto

text \<open>C5: What \<open>on_accept\<close> does on each of its branches. A failed \<open>accept\<close> changes no client;
  without memory for the client the process exits with status 1; without memory for the bufferevent it
  writes through a null pointer, because the code does not test it; otherwise exactly one client is
  appended to the queue, on the accepted descriptor, with empty buffers and reading enabled, and the
  clients before it are untouched.\<close>
theorem accept_branches:
  assumes acc: "accounted lfd s xs" and fr: "fresh_env s env"
  shows "if acc_fd env < 0 then (\<exists>s'. on_accept env s = Done s' \<and> accounted lfd s' xs)
    else (case (acc_client env, acc_bev env) of
        (None, _) \<Rightarrow> on_accept env s = Exits 1
      | (Some a, None) \<Rightarrow> on_accept env s = Undefined
      | (Some a, Some i) \<Rightarrow> (\<exists>s'. on_accept env s = Done s' \<and> accounted lfd s' (xs @ [a])
          \<and> client_of s' a = \<lparr>cl_fd = acc_fd env, cl_buf_ev = i\<rparr> \<and> received s' a = [] \<and> to_send s' a = []
          \<and> (acc_ev_ok env \<longrightarrow> ev_read_added (bev_of s' a)) \<and> (\<forall>x \<in> set xs. bev_of s' x = bev_of s x)))"
proof (cases "acc_fd env < 0")
  case True
  then have "on_accept env s = Done (print ''accept failed'' s)" by (simp add: on_accept_def)
  moreover have "accounted lfd (print ''accept failed'' s) xs"
    using acc by (simp add: accounted_def idle_def) (simp add: print_def)
  ultimately show ?thesis using True by simp
next
  case fd: False
  have id: "server_inv s xs" using acc by (simp add: accounted_def idle_def)
  show ?thesis
  proof (cases "\<exists>a i. acc_client env = Some a \<and> acc_bev env = Some i")
    case True
    then obtain a i where ai: "acc_client env = Some a" "acc_bev env = Some i" by blast
    have "a \<notin> dom (heap s)" using fr ai by (auto simp: fresh_env_def)
    then have f: "fresh_client s xs env a i"
      using fr ai fd acc by (auto simp: fresh_env_def fresh_client_def accounted_def)
    from on_accept_ok [OF id f] accounted_accept [OF acc f] show ?thesis using fd ai by auto
  next
    case False
    with fd show ?thesis by (cases "acc_client env"; cases "acc_bev env") (auto simp: on_accept_def Let_def)
  qed
qed

theorem accept_branches_witness:
  "\<exists>s'. on_accept (demo_accept 4 100 10) demo0 = Done s' \<and> accounted 3 s' [100] \<and> to_send s' 100 = []"
proof -
  have "accounted 3 demo0 []" using accounted_boot [OF demo0] by (simp add: demo_boot_def)
  from accept_branches [OF this demo2(2)] show ?thesis by (auto simp: demo_accept_def)
qed

text \<open>\<open>main\<close> enters the event loop exactly when every system call it checks succeeds, and then with
  no client and only the listening socket open. It asks for \<open>SO_REUSEADDR\<close> only after the socket is
  bound, when the option no longer has an effect on \<open>bind\<close>.\<close>
lemma boot_order:
  "((\<exists>s. snd (fire_main env) = Done s) \<longleftrightarrow> 0 \<le> boot_socket env \<and> 0 \<le> boot_bind env \<and> 0 \<le> boot_listen env
     \<and> 0 \<le> setnonblock (boot_getfl env) (boot_setfl env))
  \<and> (\<forall>s. snd (fire_main env) = Done s \<longrightarrow> accounted (boot_socket env) s [] \<and> open_fds s = [boot_socket env])
  \<and> (SetReuseAddr \<in> set (fst (fire_main env)) \<longrightarrow> take 4 (fst (fire_main env)) = [Socket, Bind, Listen, SetReuseAddr])"
proof (intro conjI allI impI)
  show "(\<exists>s. snd (fire_main env) = Done s) \<longleftrightarrow> 0 \<le> boot_socket env \<and> 0 \<le> boot_bind env \<and> 0 \<le> boot_listen env
     \<and> 0 \<le> setnonblock (boot_getfl env) (boot_setfl env)" by (auto simp: fire_main_def)
  fix s
  assume s: "snd (fire_main env) = Done s"
  then have "fire_main env = (fst (fire_main env), Done s)" by (metis prod.collapse)
  from accounted_boot [OF this] show "accounted (boot_socket env) s []" .
  show "open_fds s = [boot_socket env]" using s by (auto simp: fire_main_def split: if_splits)
next
  assume "SetReuseAddr \<in> set (fst (fire_main env))"
  then show "take 4 (fst (fire_main env)) = [Socket, Bind, Listen, SetReuseAddr]"
    by (auto simp: fire_main_def split: if_splits)
qed

lemma boot_order_witness: "accounted 3 demo0 []"
  using boot_order [of demo_boot] demo0 by (simp add: demo_boot_def)

end
