(* ===== verification/C_String.thy ===== *)
theory C_String
  imports Prelude
begin

text \<open>
  Character arrays and the string functions of the C library on them. An array is the list of
  its bytes; a string in it ends at the first zero byte. Reading or writing past the end of an
  array has no defined result (\<open>None\<close>).
\<close>

definition cstr :: "byte list \<Rightarrow> byte list option" where
  "cstr m = (if 0 \<in> set m then Some (takeWhile (\<lambda>b. b \<noteq> 0) m) else None)"

definition strcpy :: "byte list \<Rightarrow> byte list \<Rightarrow> byte list option" where
  "strcpy dst src = Option.bind (cstr src) (\<lambda>s.
     if length s < length dst then Some (memcpy dst 0 (s @ [0])) else None)"

definition strcat :: "byte list \<Rightarrow> byte list \<Rightarrow> byte list option" where
  "strcat dst src = Option.bind (cstr dst) (\<lambda>d. Option.bind (cstr src) (\<lambda>s.
     if length d + length s < length dst then Some (memcpy dst (length d) (s @ [0])) else None))"

text \<open>The array of a string literal.\<close>

definition literal :: "string \<Rightarrow> byte list" where
  "literal s = map of_char s @ [0]"

definition no_nul :: "byte list \<Rightarrow> bool" where
  "no_nul s \<longleftrightarrow> 0 \<notin> set s"

lemma cstr_append: "no_nul s \<Longrightarrow> cstr (s @ 0 # r) = Some s"
  by (induction s) (auto simp: cstr_def no_nul_def)

lemma cstr_Some: "cstr m = Some s \<Longrightarrow> no_nul s \<and> (\<exists>r. m = s @ 0 # r)"
proof -
  assume a: "cstr m = Some s"
  then have s: "0 \<in> set m" "s = takeWhile (\<lambda>b. b \<noteq> 0) m" by (auto simp: cstr_def split: if_splits)
  have "no_nul s" using s(2) set_takeWhileD by (fastforce simp: no_nul_def)
  moreover have "\<exists>r. m = takeWhile (\<lambda>b. b \<noteq> 0) m @ 0 # r"
    using s(1) by (induction m) auto
  ultimately show ?thesis using s(2) by simp
qed

lemma strcpy_ok:
  assumes "no_nul s" "length s < length dst"
  shows "strcpy dst (s @ 0 # r) = Some (s @ 0 # drop (Suc (length s)) dst)"
  using assms by (simp add: strcpy_def cstr_append memcpy_def)

lemma strcpy_none: "no_nul s \<Longrightarrow> \<not> length s < length dst \<Longrightarrow> strcpy dst (s @ 0 # r) = None"
  by (simp add: strcpy_def cstr_append)

lemma strcat_ok:
  assumes "no_nul d" "no_nul s" "length s \<le> length t"
  shows "strcat (d @ 0 # t) (s @ 0 # r) = Some ((d @ s) @ 0 # drop (length s) t)"
  using assms by (simp add: strcat_def cstr_append memcpy_def)

lemma strcat_none: "no_nul d \<Longrightarrow> no_nul s \<Longrightarrow> \<not> length s \<le> length t \<Longrightarrow> strcat (d @ 0 # t) (s @ 0 # r) = None"
  by (auto simp: strcat_def cstr_append)

end
