(* ===== verification/Fire_Client.thy ===== *)
theory Fire_Client
  imports Bufferevent C_String
begin

text \<open>
  The programs around the server: \<open>fireClientSend.c\<close> (one message to the server),
  \<open>fireClientRead.c\<close> (prints what the server sends), the function they share in
  \<open>Headres/fireHeadres.h\<close>, and the load generator \<open>sourceTestClient/fireTestClient.c\<close>. Local
  arrays that the code does not initialise are parameters (\<open>junk\<close>); \<open>Undefined\<close> is an access
  outside an array.
\<close>

definition SERVER_PORT :: int where "SERVER_PORT = 6088"
definition SERVER_ADDR :: string where "SERVER_ADDR = ''192.168.1.1''"

section \<open>Connecting\<close>

text \<open>
  \<open>tcp_connect_server\<close>: what the calls return, and the descriptors left open. \<open>inet_aton\<close> and the
  address it fills belong to the C library.
\<close>

record connect_env =
  con_aton :: int
  con_socket :: int
  con_connect :: int

definition tcp_connect_server :: "connect_env \<Rightarrow> int list \<Rightarrow> int \<times> int list" where
  "tcp_connect_server env fds =
     (if con_aton env = 0 then (-1, fds)
      else if con_socket env = -1 then (con_socket env, fds)
      else if con_connect env = -1 then (-1, removeAll (con_socket env) (fds @ [con_socket env]))
      else (con_socket env, fds @ [con_socket env]))"

section \<open>fireClientSend\<close>

text \<open>The usage check and the program; \<open>send\<close> says what \<open>send\<close> returns for a descriptor and bytes. The
  outcome is the exit status and the bytes handed to \<open>send\<close>.\<close>

definition usage :: "nat \<Rightarrow> unit run" where
  "usage argc = (if argc = 1 then Exits 0 else Done ())"

definition send_message :: "byte list \<Rightarrow> byte list \<Rightarrow> byte list option" where
  "send_message junk arg =
     Option.bind (strcpy junk (literal ''[FIRE]:'')) (\<lambda>str.
     Option.bind (strcat str arg) (\<lambda>str.
     strcat str (literal [CHR 0x0A])))"

definition fire_client_send ::
    "byte list \<Rightarrow> connect_env \<Rightarrow> (int \<Rightarrow> byte list \<Rightarrow> int) \<Rightarrow> byte list list \<Rightarrow> (int \<times> byte list) run" where
  "fire_client_send junk env send argv =
     run_bind (usage (length argv)) (\<lambda>_.
       let (sockfd, _) = tcp_connect_server env []
       in if length argv < 2 then Undefined
          else run_bind (run_of_option (Option.bind (send_message junk (argv ! 1)) cstr)) (\<lambda>str.
            if send sockfd str < 0 then Done (1, str) else Done (0, str)))"

section \<open>fireClientRead\<close>

datatype reader_cb = Read_cb | Event_cb

text \<open>\<open>doExec\<close>: the command line it builds, and the one it passes to \<open>system\<close>, which is the array
  \<open>str\<close> that nothing was stored in.\<close>

definition doExec :: "byte list \<Rightarrow> byte list \<Rightarrow> (byte list \<times> byte list) option" where
  "doExec junk client_message =
     Option.bind (strcpy (replicate 128 0) (literal ''./script/'')) (\<lambda>command.
     Option.bind (strcat command client_message) (\<lambda>command.
     Option.bind (cstr command) (\<lambda>cmd.
     Option.bind (cstr junk) (\<lambda>str. Some (cmd, str)))))"

definition event_cb :: "u16 \<Rightarrow> string" where
  "event_cb events =
     (if events AND BEV_EVENT_CONNECTED \<noteq> 0 then ''connected to server successed!''
      else if events AND BEV_EVENT_ERROR \<noteq> 0 then ''connect error happened!''
      else '''')"

text \<open>\<open>read_cb\<close>: the text printed and the bufferevent afterwards.\<close>

definition read_cb :: "'cb bufferevent \<Rightarrow> (byte list \<times> 'cb bufferevent) option" where
  "read_cb bev =
     (case evbuffer_copyout (bev_input bev) 8192 of
        None \<Rightarrow> None
      | Some (n, data) \<Rightarrow> Option.bind (cstr (memcpy (replicate 8192 0) 0 data)) (\<lambda>msg. Some (msg, bev)))"

text \<open>\<open>cmd_msg_cb\<close>: \<open>rd\<close> is what \<open>read\<close> returns, \<open>None\<close> for -1, and at most the 1024 bytes it is given.\<close>

definition cmd_msg_cb :: "byte list \<Rightarrow> byte list option \<Rightarrow> byte list option run" where
  "cmd_msg_cb junk rd =
     (case rd of
        None \<Rightarrow> Done None
      | Some data \<Rightarrow>
          let msg = memcpy junk 0 data
          in if length data < length junk
             then (case cstr (msg[length data := 0]) of None \<Rightarrow> Undefined | Some s \<Rightarrow> Done (Some s))
             else Undefined)"

text \<open>The bufferevent as \<open>main\<close> leaves it when it starts the loop (\<open>None\<close>: a null pointer was written).\<close>

definition fire_client_read :: "connect_env \<Rightarrow> bool \<Rightarrow> bool \<Rightarrow> reader_cb bufferevent option" where
  "fire_client_read env mem ev_ok =
     (let (sockfd, _) = tcp_connect_server env []
      in case bufferevent_socket_new mem mem mem sockfd BEV_OPT_CLOSE_ON_FREE of
           None \<Rightarrow> None
         | Some bev \<Rightarrow>
             Some (snd (bufferevent_enable ev_ok (bufferevent_setcb bev (Some Read_cb) None (Some Event_cb) None)
               (EV_READ OR EV_PERSIST))))"

section \<open>fireTestClient\<close>

record counters =
  total_bytes_read :: u64
  total_messages_read :: u64

text \<open>\<open>readcb\<close>: everything received goes back. The callback of the output buffer runs as for a write.\<close>

definition readcb :: "bool \<Rightarrow> 'cb bufferevent \<Rightarrow> counters \<Rightarrow> 'cb bufferevent \<times> counters" where
  "readcb ev_ok bev cnt =
     (let c1 = cnt\<lparr>total_messages_read := total_messages_read cnt + 1,
                   total_bytes_read := total_bytes_read cnt + of_nat (evbuffer_get_length (bev_input bev))\<rparr>;
          (r, o', i') = evbuffer_add_buffer (bev_output bev) (bev_input bev)
      in (foldl (bufferevent_socket_outbuf_cb ev_ok) (bev\<lparr>bev_output := o', bev_input := i'\<rparr>)
            (drop (length (cb_log (bev_output bev))) (cb_log o')), c1))"

definition eventcb :: "u16 \<Rightarrow> string list" where
  "eventcb events =
     (if events AND BEV_EVENT_CONNECTED \<noteq> 0 then [''TCP_NODELAY'']
      else if events AND BEV_EVENT_ERROR \<noteq> 0 then [''NOT Connected'']
      else [])"

definition message :: "nat \<Rightarrow> byte list" where
  "message block_size = map (\<lambda>i. of_nat (i mod 128)) [0..<block_size]"

text \<open>The loop of \<open>main\<close> that opens the sessions: \<open>conn i\<close> is what \<open>bufferevent_socket_connect\<close> returns for
  session \<open>i\<close>. A failed connection ends the program with -1 and the sessions already open as they are.\<close>

fun open_sessions ::
    "allocator \<Rightarrow> bool \<Rightarrow> bool \<Rightarrow> (nat \<Rightarrow> int) \<Rightarrow> byte list \<Rightarrow> nat \<Rightarrow> nat \<Rightarrow> unit bufferevent list \<Rightarrow>
     (int \<times> unit bufferevent list) option" where
  "open_sessions mm mem ev_ok conn msg i 0 bevs = Some (0, bevs)"
| "open_sessions mm mem ev_ok conn msg i (Suc n) bevs =
     (case bufferevent_socket_new mem mem mem (-1) BEV_OPT_CLOSE_ON_FREE of
        None \<Rightarrow> None
      | Some b \<Rightarrow>
          let b1 = bufferevent_setcb b (Some ()) None (Some ()) None;
              b2 = snd (bufferevent_enable ev_ok b1 (EV_READ OR EV_WRITE));
              b3 = snd (bufferevent_write mm ev_ok b2 msg)
          in if conn i < 0 then Some (-1, bevs)
             else open_sessions mm mem ev_ok conn msg (Suc i) n (bevs @ [b3]))"

definition fire_test_client ::
    "allocator \<Rightarrow> bool \<Rightarrow> bool \<Rightarrow> (nat \<Rightarrow> int) \<Rightarrow> nat \<Rightarrow> nat \<Rightarrow> nat \<Rightarrow> (int \<times> unit bufferevent list) option" where
  "fire_test_client mm mem ev_ok conn argc block_size session_count =
     (if argc \<noteq> 5 then Some (1, [])
      else open_sessions mm mem ev_ok conn (message block_size) 0 session_count [])"

section \<open>What the programs do\<close>

definition fire_tag :: "byte list" where
  "fire_tag = [0x5B, 0x46, 0x49, 0x52, 0x45, 0x5D, 0x3A]"

lemma literals:
  "literal ''[FIRE]:'' = fire_tag @ [0]" "literal [CHR 0x0A] = [0x0A, 0]"
  "literal ''./script/'' = [0x2E, 0x2F, 0x73, 0x63, 0x72, 0x69, 0x70, 0x74, 0x2F] @ [0]"
  by (simp_all add: literal_def fire_tag_def)

lemma fire_tag: "no_nul fire_tag" "length fire_tag = 7"
  by (simp_all add: fire_tag_def no_nul_def)

text \<open>The message is the tag, the argument and a newline, when that and its zero byte fit the array.\<close>

lemma send_message:
  assumes junk: "length junk = 128" and arg: "no_nul arg"
  shows "Option.bind (send_message junk (arg @ 0 # r)) cstr =
    (if length arg \<le> 119 then Some (fire_tag @ arg @ [0x0A]) else None)"
proof -
  have s1: "strcpy junk (literal ''[FIRE]:'') = Some (fire_tag @ 0 # drop 8 junk)"
    using strcpy_ok [OF fire_tag(1), of junk "[]"] junk fire_tag(2) by (simp add: literals)
  show ?thesis
  proof (cases "length arg \<le> 120")
    case True
    then have s2: "strcat (fire_tag @ 0 # drop 8 junk) (arg @ 0 # r) = Some ((fire_tag @ arg) @ 0 # drop (length arg) (drop 8 junk))"
      using strcat_ok [OF fire_tag(1) arg, of "drop 8 junk" r] junk by simp
    have nn: "no_nul (fire_tag @ arg)" "no_nul [0x0A :: byte]" using fire_tag(1) arg by (auto simp: no_nul_def)
    show ?thesis
    proof (cases "length arg \<le> 119")
      case True
      then have "strcat ((fire_tag @ arg) @ 0 # drop (length arg) (drop 8 junk)) [0x0A, 0]
          = Some (((fire_tag @ arg) @ [0x0A]) @ 0 # drop 1 (drop (length arg) (drop 8 junk)))"
        using strcat_ok [OF nn, of "drop (length arg) (drop 8 junk)" "[]"] junk by simp
      moreover have "cstr (((fire_tag @ arg) @ [0x0A]) @ 0 # x) = Some ((fire_tag @ arg) @ [0x0A])" for x
        by (rule cstr_append) (use nn in \<open>auto simp: no_nul_def\<close>)
      ultimately show ?thesis using s1 s2 True by (simp add: send_message_def literals)
    next
      case False
      then have "strcat ((fire_tag @ arg) @ 0 # drop (length arg) (drop 8 junk)) [0x0A, 0] = None"
        using strcat_none [OF nn, of "drop (length arg) (drop 8 junk)" "[]"] junk by simp
      then show ?thesis using s1 s2 False by (simp add: send_message_def literals)
    qed
  next
    case False
    then have "strcat (fire_tag @ 0 # drop 8 junk) (arg @ 0 # r) = None"
      using strcat_none [OF fire_tag(1) arg, of "drop 8 junk" r] junk by simp
    then show ?thesis using s1 False by (simp add: send_message_def)
  qed
qed

lemma read_cb_copy:
  assumes "evb_readable (bev_input bev)"
  defines "d \<equiv> take 8192 (evb_bytes (bev_input bev))"
  shows "read_cb bev = (if length d = 8192 \<and> no_nul d then None else Some (takeWhile (\<lambda>b. b \<noteq> 0) d, bev))"
proof -
  have c: "evbuffer_copyout (bev_input bev) 8192 = Some (int (min 8192 (total_len (bev_input bev))), d)"
    using assms evbuffer_copyout_spec by (simp add: evb_readable_def)
  have len: "length d \<le> 8192" by (simp add: d_def)
  have m: "memcpy (replicate 8192 0) 0 d = d @ replicate (8192 - length d) 0"
    by (simp add: memcpy_def)
  have "takeWhile (\<lambda>b. b \<noteq> 0) (d @ replicate k 0) = takeWhile (\<lambda>b. b \<noteq> (0 :: byte)) d" for k
    by (cases k) (induction d, auto)+
  then show ?thesis using c len by (auto simp: read_cb_def m cstr_def no_nul_def)
qed

lemma append_chain_frame [simp]:
  "callbacks (APPEND_CHAIN b c) = callbacks b" "deferred_cbs (APPEND_CHAIN b c) = deferred_cbs b"
  "n_add_for_cb (APPEND_CHAIN b c) = n_add_for_cb b" "n_del_for_cb (APPEND_CHAIN b c) = n_del_for_cb b"
  "cb_log (APPEND_CHAIN b c) = cb_log b" "freeze_end (APPEND_CHAIN b c) = freeze_end b"
  by (simp_all add: APPEND_CHAIN_def evbuffer_free_trailing_empty_chains_def Let_def)

lemma add_buffer_noted:
  assumes q: "quiet outbuf" and eq: "evbuffer_add_buffer outbuf inbuf = (0, o', i')" and ne: "total_len inbuf \<noteq> 0"
  shows "noted outbuf (total_len inbuf) o'" "freeze_end o' = freeze_end outbuf" "freeze_start i' = freeze_start inbuf"
proof -
  define o1 where "o1 = (if total_len outbuf = 0 then COPY_CHAIN outbuf inbuf else APPEND_CHAIN outbuf inbuf)"
  have o': "o' = evbuffer_invoke_callbacks (o1\<lparr>n_add_for_cb := n_add_for_cb o1 + total_len inbuf\<rparr>)"
    and i': "i' = evbuffer_invoke_callbacks ((ZERO_CHAIN inbuf)\<lparr>n_del_for_cb := n_del_for_cb (ZERO_CHAIN inbuf) + total_len inbuf\<rparr>)"
    using eq ne by (auto simp: evbuffer_add_buffer_def move_buffer_def o1_def Let_def split: if_splits)
  have o1: "callbacks o1 = callbacks outbuf" "deferred_cbs o1 = deferred_cbs outbuf" "n_add_for_cb o1 = n_add_for_cb outbuf"
    "n_del_for_cb o1 = n_del_for_cb outbuf" "cb_log o1 = cb_log outbuf" "freeze_end o1 = freeze_end outbuf"
    by (simp_all add: o1_def COPY_CHAIN_def)
  show "noted outbuf (total_len inbuf) o'" by (rule notedI [OF q o']) (simp_all add: o1)
  show "freeze_end o' = freeze_end outbuf" "freeze_start i' = freeze_start inbuf"
    by (simp_all add: o' i' o1 ZERO_CHAIN_def)
qed

text \<open>Echoing: what came in goes out, and the write event waits for it.\<close>

lemma readcb_spec:
  assumes ok: "bev_ok bev" and fits: "total_len (bev_output bev) + total_len (bev_input bev) \<le> EV_SIZE_MAX"
    and eq: "readcb e bev cnt = (bev', cnt')"
  shows "bev_ok bev' \<and> evb_bytes (bev_output bev') = evb_bytes (bev_output bev) @ evb_bytes (bev_input bev)
    \<and> evb_bytes (bev_input bev') = []
    \<and> total_bytes_read cnt' = total_bytes_read cnt + of_nat (length (evb_bytes (bev_input bev)))
    \<and> total_messages_read cnt' = total_messages_read cnt + 1"
proof -
  have inv: "evb_inv (bev_output bev)" "evb_inv (bev_input bev)"
    and nf: "\<not> freeze_end (bev_output bev)" "\<not> freeze_start (bev_input bev)"
    using ok by (simp_all add: bev_ok_def evb_readable_def)
  from evbuffer_add_buffer_spec [OF inv nf fits] obtain o' i' where
    m: "evbuffer_add_buffer (bev_output bev) (bev_input bev) = (0, o', i')" "evb_inv o'" "evb_inv i'"
      "evb_bytes o' = evb_bytes (bev_output bev) @ evb_bytes (bev_input bev)" "evb_bytes i' = []" by blast
  have b': "bev_output bev' = o'" "bev_input bev' = i'"
    and c': "total_bytes_read cnt' = total_bytes_read cnt + of_nat (total_len (bev_input bev))"
      "total_messages_read cnt' = total_messages_read cnt + 1"
    using eq m(1) by (auto simp: readcb_def Let_def evbuffer_get_length_def)
  have "quiet o' \<and> freeze_end o' = freeze_end (bev_output bev) \<and> freeze_start i' = freeze_start (bev_input bev)"
  proof (cases "total_len (bev_input bev) = 0")
    case True
    with m(1) show ?thesis using bev_ok_quiet [OF ok] by (simp add: evbuffer_add_buffer_def)
  next
    case False
    from add_buffer_noted [OF bev_ok_quiet [OF ok] m(1) False] show ?thesis by (simp add: noted_def)
  qed
  then have "bev_ok bev'" using m(2,3) nf b' by (simp add: bev_ok_def quiet_def evb_readable_def)
  then show ?thesis using m(4,5) b' c' inv(2) by (simp add: evb_inv_def)
qed

text \<open>A session before its connection: the message waits in the output.\<close>

lemma session_setup:
  assumes mm: "alloc_ok mm" and len: "length msg \<le> 16352"
  shows "\<exists>b. (bufferevent_socket_new True True True (-1) BEV_OPT_CLOSE_ON_FREE :: unit bufferevent option) = Some b
    \<and> (let b3 = snd (bufferevent_write mm e (snd (bufferevent_enable e
            (bufferevent_setcb b (Some ()) None (Some ()) None) (EV_READ OR EV_WRITE))) msg)
       in bev_ok b3 \<and> evb_bytes (bev_output b3) = msg \<and> evb_bytes (bev_input b3) = [])"
proof -
  obtain b :: "unit bufferevent" where b: "bufferevent_socket_new True True True (-1) BEV_OPT_CLOSE_ON_FREE = Some b"
    "chains (bev_output b) = []" "total_len (bev_output b) = 0"
    by (simp add: bufferevent_socket_new_def bufferevent_init_common_def Let_def evbuffer_freeze_def
        evbuffer_new_def ev_flag_defs)
  note new = socket_new_ok [OF b(1)]
  define b2 where "b2 = snd (bufferevent_enable e (bufferevent_setcb b (Some ()) None (Some ()) None) (EV_READ OR EV_WRITE))"
  have b2: "bev_output b2 = bev_output b" "bev_input b2 = bev_input b"
    by (simp_all add: b2_def bufferevent_enable_def be_socket_enable_def bufferevent_setcb_def Let_def split: prod.splits)
  then have ok: "bev_ok b2" using new(1) by (simp add: bev_ok_def)
  obtain r b3 where w: "bufferevent_write mm e b2 msg = (r, b3)" by fastforce
  have "r = 0"
    by (rule bufferevent_write_small [OF ok mm _ len _ w]) (use b2 b len in \<open>simp_all add: small_blocks_def evb_consts\<close>)
  with bufferevent_write_spec [OF ok w] new b2 w b(1) show ?thesis
    by (intro exI [of _ b]) (simp flip: b2_def)
qed

lemma open_sessions_spec:
  assumes "alloc_ok mm" "length msg \<le> 16352"
  shows "\<exists>r bs. open_sessions mm True e conn msg i n bevs = Some (r, bevs @ bs)
    \<and> (\<forall>b \<in> set bs. bev_ok b \<and> evb_bytes (bev_output b) = msg \<and> evb_bytes (bev_input b) = [])
    \<and> (r = 0 \<and> length bs = n \<or> r = -1 \<and> length bs < n \<and> conn (i + length bs) < 0)"
proof (induction n arbitrary: i bevs)
  case 0
  then show ?case by simp
next
  case (Suc n)
  obtain b :: "unit bufferevent" where
    b: "bufferevent_socket_new True True True (-1) BEV_OPT_CLOSE_ON_FREE = Some b"
    using session_setup [OF assms, of e] by blast
  define b3 where "b3 = snd (bufferevent_write mm e (snd (bufferevent_enable e
            (bufferevent_setcb b (Some ()) None (Some ()) None) (EV_READ OR EV_WRITE))) msg)"
  have b3: "bev_ok b3 \<and> evb_bytes (bev_output b3) = msg \<and> evb_bytes (bev_input b3) = []"
    using session_setup [OF assms, of e] b by (auto simp: b3_def Let_def)
  show ?case
  proof (cases "conn i < 0")
    case True
    with b show ?thesis by (intro exI [of _ "-1"] exI [of _ "[]"]) (simp add: Let_def)
  next
    case False
    with b have "open_sessions mm True e conn msg i (Suc n) bevs = open_sessions mm True e conn msg (Suc i) n (bevs @ [b3])"
      by (simp add: Let_def b3_def)
    moreover from Suc.IH [of "Suc i" "bevs @ [b3]"] obtain r bs where
      "open_sessions mm True e conn msg (Suc i) n (bevs @ [b3]) = Some (r, (bevs @ [b3]) @ bs)"
      "\<forall>b \<in> set bs. bev_ok b \<and> evb_bytes (bev_output b) = msg \<and> evb_bytes (bev_input b) = []"
      "r = 0 \<and> length bs = n \<or> r = -1 \<and> length bs < n \<and> conn (Suc i + length bs) < 0" by blast
    ultimately show ?thesis using b3 by (intro exI [of _ r] exI [of _ "b3 # bs"]) auto
  qed
qed

text \<open>\<open>doExec\<close> runs whatever its array \<open>str\<close> happens to hold, not the command it was given.\<close>

lemma doExec_ignores_message:
  "doExec junk m = Some (cmd, run) \<Longrightarrow> cstr junk = Some run"
  by (auto simp: doExec_def bind_eq_Some_conv)

section \<open>Properties\<close>

text \<open>C21: \<open>fireClientSend\<close> with one argument sends the tag, the argument and a newline, in one call, and
  exits with 1 exactly when \<open>send\<close> fails (a failed connection shows only there). An argument longer than
  119 bytes overruns its 128-byte array; without an argument it exits with 0 before connecting.\<close>
theorem send_client:
  assumes junk: "length junk = 128" and arg: "no_nul arg"
  shows "fire_client_send junk env send [prog] = Exits 0
    \<and> fire_client_send junk env send [prog, arg @ 0 # r] =
        (if length arg \<le> 119
         then Done (if send (fst (tcp_connect_server env [])) (fire_tag @ arg @ [0x0A]) < 0 then 1 else 0,
                    fire_tag @ arg @ [0x0A])
         else Undefined)"
  using send_message [OF assms, of r]
  by (auto simp: fire_client_send_def usage_def Let_def split: prod.splits)

theorem send_client_witness:
  "fire_client_send (replicate 128 7) \<lparr>con_aton = 1, con_socket = 3, con_connect = 0\<rparr> (\<lambda>fd m. int (length m)) [[0x61, 0], [0x68, 0x69, 0]]
    = Done (0, fire_tag @ [0x68, 0x69, 0x0A])"
  using send_client [of "replicate 128 7" "[0x68, 0x69]" "\<lparr>con_aton = 1, con_socket = 3, con_connect = 0\<rparr>"
      "\<lambda>fd m. int (length m)" "[0x61, 0]" "[]"]
  by (simp add: no_nul_def)

text \<open>C22: \<open>read_cb\<close> prints the input up to its first zero byte, at most 8191 bytes of it, and leaves the
  input as it was (it never drains), so the same bytes are printed again at the next event. When the
  first 8192 bytes of the input hold no zero byte, \<open>printf\<close> reads past the end of the array.\<close>
theorem reader_prints:
  assumes "evb_readable (bev_input bev)"
  shows "read_cb bev =
    (let d = take 8192 (evb_bytes (bev_input bev))
     in if length d = 8192 \<and> no_nul d then None else Some (takeWhile (\<lambda>b. b \<noteq> 0) d, bev))"
  using read_cb_copy [OF assms] by (simp add: Let_def)

definition demo_reader :: "reader_cb bufferevent option" where
  "demo_reader = map_option (\<lambda>b. b\<lparr>bev_input := filled [0x68, 0x69]\<rparr>)
     (fire_client_read \<lparr>con_aton = 1, con_socket = 3, con_connect = 0\<rparr> True True)"

theorem reader_prints_witness:
  "\<exists>bev. demo_reader = Some bev \<and> read_cb bev = Some ([0x68, 0x69], bev)"
proof -
  have f: "evb_readable (filled [0x68, 0x69])" "evb_bytes (filled [0x68, 0x69]) = [0x68, 0x69]"
    using filled_ok [of "[0x68, 0x69]"] by (simp_all add: evb_consts)
  obtain bev where bev: "demo_reader = Some bev" "bev_input bev = filled [0x68, 0x69]"
    by (simp add: demo_reader_def fire_client_read_def tcp_connect_server_def bufferevent_socket_new_def
        bufferevent_init_common_def Let_def ev_flag_defs)
  with reader_prints [of bev] f show ?thesis by (auto simp: no_nul_def)
qed

text \<open>\<open>cmd_msg_cb\<close> echoes the line it read up to its first zero byte, except that a read that fills its
  1024-byte array makes it store the terminating zero one past the end.\<close>
lemma cmd_msg_overrun:
  assumes "length junk = 1024" and "length data \<le> 1024"
  shows "cmd_msg_cb junk (Some data) = (if length data = 1024 then Undefined
    else Done (Some (takeWhile (\<lambda>b. b \<noteq> 0) data)))"
proof (cases "length data = 1024")
  case True
  with assms show ?thesis by (simp add: cmd_msg_cb_def)
next
  case False
  with assms have lt: "length data < 1024" by simp
  then obtain x xs where j: "drop (length data) junk = x # xs"
    using assms(1) by (cases "drop (length data) junk") auto
  then have "(memcpy junk 0 data)[length data := 0] = data @ 0 # xs" by (simp add: memcpy_def)
  moreover have "takeWhile (\<lambda>b. b \<noteq> 0) (data @ 0 # xs) = takeWhile (\<lambda>b. b \<noteq> (0 :: byte)) data"
    by (induction data) auto
  ultimately show ?thesis using lt assms(1) by (simp add: cmd_msg_cb_def cstr_def)
qed

lemma cmd_msg_overrun_witness:
  "cmd_msg_cb (replicate 1024 5) (Some (replicate 1024 0x61)) = Undefined"
  using cmd_msg_overrun [of "replicate 1024 5" "replicate 1024 0x61"] by simp

text \<open>The load generator sends everything back: when the two buffers of a session fit together, its
  read callback moves the whole input behind the output, empties the input and counts the bytes and
  one message.\<close>
lemma echo_back:
  assumes "bev_ok bev" and "total_len (bev_output bev) + total_len (bev_input bev) \<le> EV_SIZE_MAX"
  shows "case readcb e bev cnt of (bev', cnt') \<Rightarrow>
      bev_ok bev' \<and> evb_bytes (bev_output bev') = evb_bytes (bev_output bev) @ evb_bytes (bev_input bev)
      \<and> evb_bytes (bev_input bev') = []
      \<and> total_bytes_read cnt' = total_bytes_read cnt + of_nat (length (evb_bytes (bev_input bev)))
      \<and> total_messages_read cnt' = total_messages_read cnt + 1"
  using readcb_spec [OF assms, of e cnt] by (cases "readcb e bev cnt") auto

lemma echo_back_witness:
  "\<exists>bev. demo_reader = Some bev \<and> total_bytes_read (snd (readcb True bev \<lparr>total_bytes_read = 5, total_messages_read = 1\<rparr>)) = 7"
proof -
  have f: "evb_readable (filled [0x68, 0x69])" "evb_bytes (filled [0x68, 0x69]) = [0x68, 0x69]"
    using filled_ok [of "[0x68, 0x69]"] by (simp_all add: evb_consts)
  obtain b :: "reader_cb bufferevent" where b: "bufferevent_socket_new True True True 3 BEV_OPT_CLOSE_ON_FREE = Some b"
    and out: "total_len (bev_output b) = 0"
    by (simp add: bufferevent_socket_new_def bufferevent_init_common_def Let_def ev_flag_defs evbuffer_freeze_def evbuffer_new_def)
  obtain bev where bev: "demo_reader = Some bev" "bev_input bev = filled [0x68, 0x69]" "bev_output bev = bev_output b"
    using b by (simp add: demo_reader_def fire_client_read_def tcp_connect_server_def Let_def bufferevent_enable_def
        be_socket_enable_def bufferevent_setcb_def ev_flag_defs split: prod.splits)
  have "bev_ok bev" using socket_new_ok(1) [OF b] f bev by (simp add: bev_ok_def)
  moreover have "total_len (bev_input bev) = 2" using evb_inv_total f bev(2) by (simp add: evb_readable_def)
  ultimately show ?thesis
    using echo_back [of bev "\<lparr>total_bytes_read = 5, total_messages_read = 1\<rparr>" True] bev f out
    by (auto simp: evb_consts split: prod.splits)
qed

end
