(* ===== verification/Ist.thy ===== *)
theory Ist
  imports Prelude "HOL-Library.Monad_Syntax" "HOL-Library.Sublist"
begin

text \<open>
  HAProxy's indirect strings (\<open>include/common/ist.h\<close>): a pointer and a length, without storage of
  their own. All of them point into one memory \<open>m\<close>, a list of bytes indexed by address, so that
  two strings may share bytes; address 0 is \<open>NULL\<close>. An access to address 0 or beyond the memory
  has no defined result (\<open>None\<close>). \<open>istdiff\<close>'s \<open>int\<close> results are computed at their width; lengths
  and addresses are the natural numbers that \<open>size_t\<close> holds, and stay in its range because they
  stay inside the memory.
\<close>

record ist =
  ptr :: nat
  len :: nat

abbreviation ist2 :: "nat \<Rightarrow> nat \<Rightarrow> ist" where
  "ist2 p l \<equiv> \<lparr>ptr = p, len = l\<rparr>"

definition NULL :: nat where "NULL = 0"

definition rd :: "byte list \<Rightarrow> nat \<Rightarrow> byte option" where
  "rd m a = (if a \<noteq> NULL \<and> a < length m then Some (m ! a) else None)"

definition wr :: "byte list \<Rightarrow> nat \<Rightarrow> byte \<Rightarrow> byte list option" where
  "wr m a b = (if a \<noteq> NULL \<and> a < length m then Some (m[a := b]) else None)"

section \<open>The conversion tables\<close>

definition ist_lc :: "byte list" where
  "ist_lc = [
   0x00, 0x01, 0x02, 0x03, 0x04, 0x05, 0x06, 0x07, 0x08, 0x09, 0x0a, 0x0b, 0x0c, 0x0d, 0x0e, 0x0f,
   0x10, 0x11, 0x12, 0x13, 0x14, 0x15, 0x16, 0x17, 0x18, 0x19, 0x1a, 0x1b, 0x1c, 0x1d, 0x1e, 0x1f,
   0x20, 0x21, 0x22, 0x23, 0x24, 0x25, 0x26, 0x27, 0x28, 0x29, 0x2a, 0x2b, 0x2c, 0x2d, 0x2e, 0x2f,
   0x30, 0x31, 0x32, 0x33, 0x34, 0x35, 0x36, 0x37, 0x38, 0x39, 0x3a, 0x3b, 0x3c, 0x3d, 0x3e, 0x3f,
   0x40, 0x61, 0x62, 0x63, 0x64, 0x65, 0x66, 0x67, 0x68, 0x69, 0x6a, 0x6b, 0x6c, 0x6d, 0x6e, 0x6f,
   0x70, 0x71, 0x72, 0x73, 0x74, 0x75, 0x76, 0x77, 0x78, 0x79, 0x7a, 0x5b, 0x5c, 0x5d, 0x5e, 0x5f,
   0x60, 0x61, 0x62, 0x63, 0x64, 0x65, 0x66, 0x67, 0x68, 0x69, 0x6a, 0x6b, 0x6c, 0x6d, 0x6e, 0x6f,
   0x70, 0x71, 0x72, 0x73, 0x74, 0x75, 0x76, 0x77, 0x78, 0x79, 0x7a, 0x7b, 0x7c, 0x7d, 0x7e, 0x7f,
   0x80, 0x81, 0x82, 0x83, 0x84, 0x85, 0x86, 0x87, 0x88, 0x89, 0x8a, 0x8b, 0x8c, 0x8d, 0x8e, 0x8f,
   0x90, 0x91, 0x92, 0x93, 0x94, 0x95, 0x96, 0x97, 0x98, 0x99, 0x9a, 0x9b, 0x9c, 0x9d, 0x9e, 0x9f,
   0xa0, 0xa1, 0xa2, 0xa3, 0xa4, 0xa5, 0xa6, 0xa7, 0xa8, 0xa9, 0xaa, 0xab, 0xac, 0xad, 0xae, 0xaf,
   0xb0, 0xb1, 0xb2, 0xb3, 0xb4, 0xb5, 0xb6, 0xb7, 0xb8, 0xb9, 0xba, 0xbb, 0xbc, 0xbd, 0xbe, 0xbf,
   0xc0, 0xc1, 0xc2, 0xc3, 0xc4, 0xc5, 0xc6, 0xc7, 0xc8, 0xc9, 0xca, 0xcb, 0xcc, 0xcd, 0xce, 0xcf,
   0xd0, 0xd1, 0xd2, 0xd3, 0xd4, 0xd5, 0xd6, 0xd7, 0xd8, 0xd9, 0xda, 0xdb, 0xdc, 0xdd, 0xde, 0xdf,
   0xe0, 0xe1, 0xe2, 0xe3, 0xe4, 0xe5, 0xe6, 0xe7, 0xe8, 0xe9, 0xea, 0xeb, 0xec, 0xed, 0xee, 0xef,
   0xf0, 0xf1, 0xf2, 0xf3, 0xf4, 0xf5, 0xf6, 0xf7, 0xf8, 0xf9, 0xfa, 0xfb, 0xfc, 0xfd, 0xfe, 0xff]"

definition ist_uc :: "byte list" where
  "ist_uc = [
   0x00, 0x01, 0x02, 0x03, 0x04, 0x05, 0x06, 0x07, 0x08, 0x09, 0x0a, 0x0b, 0x0c, 0x0d, 0x0e, 0x0f,
   0x10, 0x11, 0x12, 0x13, 0x14, 0x15, 0x16, 0x17, 0x18, 0x19, 0x1a, 0x1b, 0x1c, 0x1d, 0x1e, 0x1f,
   0x20, 0x21, 0x22, 0x23, 0x24, 0x25, 0x26, 0x27, 0x28, 0x29, 0x2a, 0x2b, 0x2c, 0x2d, 0x2e, 0x2f,
   0x30, 0x31, 0x32, 0x33, 0x34, 0x35, 0x36, 0x37, 0x38, 0x39, 0x3a, 0x3b, 0x3c, 0x3d, 0x3e, 0x3f,
   0x40, 0x41, 0x42, 0x43, 0x44, 0x45, 0x46, 0x47, 0x48, 0x49, 0x4a, 0x4b, 0x4c, 0x4d, 0x4e, 0x4f,
   0x50, 0x51, 0x52, 0x53, 0x54, 0x55, 0x56, 0x57, 0x58, 0x59, 0x5a, 0x5b, 0x5c, 0x5d, 0x5e, 0x5f,
   0x60, 0x41, 0x42, 0x43, 0x44, 0x45, 0x46, 0x47, 0x48, 0x49, 0x4a, 0x4b, 0x4c, 0x4d, 0x4e, 0x4f,
   0x50, 0x51, 0x52, 0x53, 0x54, 0x55, 0x56, 0x57, 0x58, 0x59, 0x5a, 0x7b, 0x7c, 0x7d, 0x7e, 0x7f,
   0x80, 0x81, 0x82, 0x83, 0x84, 0x85, 0x86, 0x87, 0x88, 0x89, 0x8a, 0x8b, 0x8c, 0x8d, 0x8e, 0x8f,
   0x90, 0x91, 0x92, 0x93, 0x94, 0x95, 0x96, 0x97, 0x98, 0x99, 0x9a, 0x9b, 0x9c, 0x9d, 0x9e, 0x9f,
   0xa0, 0xa1, 0xa2, 0xa3, 0xa4, 0xa5, 0xa6, 0xa7, 0xa8, 0xa9, 0xaa, 0xab, 0xac, 0xad, 0xae, 0xaf,
   0xb0, 0xb1, 0xb2, 0xb3, 0xb4, 0xb5, 0xb6, 0xb7, 0xb8, 0xb9, 0xba, 0xbb, 0xbc, 0xbd, 0xbe, 0xbf,
   0xc0, 0xc1, 0xc2, 0xc3, 0xc4, 0xc5, 0xc6, 0xc7, 0xc8, 0xc9, 0xca, 0xcb, 0xcc, 0xcd, 0xce, 0xcf,
   0xd0, 0xd1, 0xd2, 0xd3, 0xd4, 0xd5, 0xd6, 0xd7, 0xd8, 0xd9, 0xda, 0xdb, 0xdc, 0xdd, 0xde, 0xdf,
   0xe0, 0xe1, 0xe2, 0xe3, 0xe4, 0xe5, 0xe6, 0xe7, 0xe8, 0xe9, 0xea, 0xeb, 0xec, 0xed, 0xee, 0xef,
   0xf0, 0xf1, 0xf2, 0xf3, 0xf4, 0xf5, 0xf6, 0xf7, 0xf8, 0xf9, 0xfa, 0xfb, 0xfc, 0xfd, 0xfe, 0xff]"

section \<open>Making and trimming\<close>

text \<open>\<open>ist(str)\<close>: the length of a zero-terminated string is counted.\<close>

function count_to_nul :: "byte list \<Rightarrow> nat \<Rightarrow> nat \<Rightarrow> nat option" where
  "count_to_nul m x l = (if x + l < length m then do {
      c \<leftarrow> rd m (x + l);
      if c = 0 then Some l else count_to_nul m x (l + 1) } else None)"
  by pat_completeness auto
termination by (relation "measure (\<lambda>(m, x, l). length m - (x + l))") auto

declare count_to_nul.simps [simp del]

definition ist_of_str :: "byte list \<Rightarrow> nat \<Rightarrow> ist option" where
  "ist_of_str m str = (if str = NULL then Some (ist2 str 0) else do { l \<leftarrow> count_to_nul m str 0; Some (ist2 str l) })"

definition ist0 :: "byte list \<Rightarrow> ist \<Rightarrow> (byte list \<times> nat) option" where
  "ist0 m s = do { m \<leftarrow> wr m (ptr s + len s) 0; Some (m, ptr s) }"

definition istlen :: "ist \<Rightarrow> nat" where "istlen s = len s"

definition istnext :: "ist \<Rightarrow> ist" where
  "istnext s = (if len s \<noteq> 0 then ist2 (ptr s + 1) (len s - 1) else s)"

definition isttrim :: "ist \<Rightarrow> nat \<Rightarrow> ist" where
  "isttrim s n = (if len s > n then s\<lparr>len := n\<rparr> else s)"

definition istzero :: "byte list \<Rightarrow> ist \<Rightarrow> nat \<Rightarrow> (byte list \<times> ist) option" where
  "istzero m s n =
     (if n = 0 then Some (m, s\<lparr>len := 0\<rparr>)
      else let r = (if len s > n - 1 then s\<lparr>len := n - 1\<rparr> else s)
           in do { m \<leftarrow> wr m (ptr r + len r) 0; Some (m, r) })"

section \<open>Copying\<close>

text \<open>
  Every copy of the file is this loop: \<open>n\<close> bytes, one after the other, each through the table
  (or unchanged), from the lowest address up.
\<close>

fun copy_loop :: "(byte \<Rightarrow> byte) \<Rightarrow> byte list \<Rightarrow> nat \<Rightarrow> nat \<Rightarrow> nat \<Rightarrow> byte list option" where
  "copy_loop f m dst src 0 = Some m"
| "copy_loop f m dst src (Suc n) = do {
     c \<leftarrow> rd m src;
     m \<leftarrow> wr m dst (f c);
     copy_loop f m (dst + 1) (src + 1) n }"

definition lower :: "byte \<Rightarrow> byte" where "lower c = ist_lc ! unat c"
definition upper :: "byte \<Rightarrow> byte" where "upper c = ist_uc ! unat c"

definition istpad :: "byte list \<Rightarrow> nat \<Rightarrow> ist \<Rightarrow> (byte list \<times> ist) option" where
  "istpad m buf s = do {
     m \<leftarrow> copy_loop id m buf (ptr s) (len s);
     m \<leftarrow> wr m (buf + len s) 0;
     Some (m, ist2 buf (len s)) }"

definition istcpy :: "byte list \<Rightarrow> ist \<Rightarrow> ist \<Rightarrow> nat \<Rightarrow> (byte list \<times> ist \<times> int) option" where
  "istcpy m dst src count =
     (let count = (if count > len src then len src else count) in do {
        m \<leftarrow> copy_loop id m (ptr dst) (ptr src) count;
        let dst = dst\<lparr>len := count\<rparr>;
        Some (m, dst, if len dst = len src then int (len src) else -1) })"

definition istscpy :: "byte list \<Rightarrow> ist \<Rightarrow> ist \<Rightarrow> nat \<Rightarrow> (byte list \<times> ist \<times> int) option" where
  "istscpy m dst src count =
     (if count = 0 then Some (m, dst\<lparr>len := 0\<rparr>, -1)
      else let count = (if count > len src then len src + 1 else count) in do {
        m \<leftarrow> copy_loop id m (ptr dst) (ptr src) (count - 1);
        let dst = dst\<lparr>len := count - 1\<rparr>;
        m \<leftarrow> wr m (ptr dst + len dst) 0;
        Some (m, dst, if len dst = len src then int (len src) else -1) })"

text \<open>
  Appending: \<open>l\<close> is \<open>dst->len\<close>, \<open>s\<close> and \<open>e\<close> the next and the end address of the source. The
  loop stops when the destination has \<open>count\<close> bytes or the source is used up.
\<close>

function cat_loop ::
    "byte list \<Rightarrow> nat \<Rightarrow> nat \<Rightarrow> nat \<Rightarrow> nat \<Rightarrow> nat \<Rightarrow> (byte list \<times> nat \<times> nat) option" where
  "cat_loop m p l s e count =
     (if l < count \<and> s \<noteq> e then do {
        c \<leftarrow> rd m s;
        m \<leftarrow> wr m (p + l) c;
        cat_loop m p (l + 1) (s + 1) e count }
      else Some (m, l, s))"
  by pat_completeness auto
termination by (relation "measure (\<lambda>(m, p, l, s, e, count). count - l)") auto

declare cat_loop.simps [simp del]

definition istcat :: "byte list \<Rightarrow> ist \<Rightarrow> ist \<Rightarrow> nat \<Rightarrow> (byte list \<times> ist \<times> int) option" where
  "istcat m dst src count = do {
     (m, l, s) \<leftarrow> cat_loop m (ptr dst) (len dst) (ptr src) (ptr src + len src) count;
     let dst = dst\<lparr>len := l\<rparr>;
     Some (m, dst, if s = ptr src + len src then int (len dst) else -1) }"

definition istscat :: "byte list \<Rightarrow> ist \<Rightarrow> ist \<Rightarrow> nat \<Rightarrow> (byte list \<times> ist \<times> int) option" where
  "istscat m dst src count =
     (if count = 0 then Some (m, dst, -1)
      else do {
        (m, l, s) \<leftarrow> cat_loop m (ptr dst) (len dst) (ptr src) (ptr src + len src) (count - 1);
        let dst = dst\<lparr>len := l\<rparr>;
        m \<leftarrow> wr m (ptr dst + len dst) 0;
        Some (m, dst, if s = ptr src + len src then int (len dst) else -1) })"

definition ist2bin_by :: "(byte \<Rightarrow> byte) \<Rightarrow> byte list \<Rightarrow> nat \<Rightarrow> ist \<Rightarrow> (byte list \<times> ist) option" where
  "ist2bin_by f m dst src = do {
     m \<leftarrow> copy_loop f m dst (ptr src) (len src);
     Some (m, ist2 dst (len src)) }"

definition ist2str_by :: "(byte \<Rightarrow> byte) \<Rightarrow> byte list \<Rightarrow> nat \<Rightarrow> ist \<Rightarrow> (byte list \<times> ist) option" where
  "ist2str_by f m dst src = do {
     m \<leftarrow> copy_loop f m dst (ptr src) (len src);
     m \<leftarrow> wr m (dst + len src) 0;
     Some (m, ist2 dst (len src)) }"

definition ist2bin where "ist2bin = ist2bin_by id"
definition ist2bin_lc where "ist2bin_lc = ist2bin_by lower"
definition ist2bin_uc where "ist2bin_uc = ist2bin_by upper"
definition ist2str where "ist2str = ist2str_by id"
definition ist2str_lc where "ist2str_lc = ist2str_by lower"
definition ist2str_uc where "ist2str_uc = ist2str_by upper"

section \<open>Comparing\<close>

text \<open>A \<open>size_t\<close> expression returned as \<open>int\<close>.\<close>

definition as_int :: "int \<Rightarrow> int" where
  "as_int x = sint (word_of_int x :: 32 word)"

fun istdiff_loop :: "byte list \<Rightarrow> nat \<Rightarrow> nat \<Rightarrow> nat \<Rightarrow> nat \<Rightarrow> int option" where
  "istdiff_loop m lp 0 rp rl = Some (as_int (- int rl))"
| "istdiff_loop m lp (Suc ll) rp 0 = Some 1"
| "istdiff_loop m lp (Suc ll) rp (Suc rl) = do {
     a \<leftarrow> rd m lp;
     b \<leftarrow> rd m rp;
     if a = b then istdiff_loop m (lp + 1) ll (rp + 1) rl else Some (uint a - uint b) }"

definition istdiff :: "byte list \<Rightarrow> ist \<Rightarrow> ist \<Rightarrow> int option" where
  "istdiff m l r = istdiff_loop m (ptr l) (len l) (ptr r) (len r)"

text \<open>
  The loop of \<open>istmatch\<close>, \<open>isteq\<close> and \<open>isteqi\<close>: \<open>n\<close> pairs of bytes, of which \<open>same\<close> says
  whether they count as equal.
\<close>

fun match_loop :: "(byte \<Rightarrow> byte \<Rightarrow> bool) \<Rightarrow> byte list \<Rightarrow> nat \<Rightarrow> nat \<Rightarrow> nat \<Rightarrow> bool option" where
  "match_loop same m lp rp 0 = Some True"
| "match_loop same m lp rp (Suc n) = do {
     a \<leftarrow> rd m lp;
     b \<leftarrow> rd m rp;
     if \<not> same a b then Some False else match_loop same m (lp + 1) (rp + 1) n }"

definition istmatch :: "byte list \<Rightarrow> ist \<Rightarrow> ist \<Rightarrow> bool option" where
  "istmatch m l r =
     (if len l < len r then Some False else match_loop (=) m (ptr l) (ptr r) (len r))"

definition istnmatch :: "byte list \<Rightarrow> ist \<Rightarrow> ist \<Rightarrow> nat \<Rightarrow> bool option" where
  "istnmatch m l r count =
     (let l = (if len l > count then l\<lparr>len := count\<rparr> else l);
          r = (if len r > count then r\<lparr>len := count\<rparr> else r) in istmatch m l r)"

definition isteq :: "byte list \<Rightarrow> ist \<Rightarrow> ist \<Rightarrow> bool option" where
  "isteq m l r =
     (if len l \<noteq> len r then Some False else match_loop (=) m (ptr l) (ptr r) (len l))"

definition isteqi :: "byte list \<Rightarrow> ist \<Rightarrow> ist \<Rightarrow> bool option" where
  "isteqi m l r =
     (if len l \<noteq> len r then Some False
      else match_loop (\<lambda>a b. \<not> (a \<noteq> b \<and> ist_lc ! unat a \<noteq> ist_lc ! unat b)) m (ptr l) (ptr r) (len l))"

definition istneq :: "byte list \<Rightarrow> ist \<Rightarrow> ist \<Rightarrow> nat \<Rightarrow> bool option" where
  "istneq m l r count =
     (let l = (if len l > count then l\<lparr>len := count\<rparr> else l);
          r = (if len r > count then r\<lparr>len := count\<rparr> else r) in isteq m l r)"

section \<open>Searching\<close>

function istchr_loop :: "byte list \<Rightarrow> nat \<Rightarrow> nat \<Rightarrow> byte \<Rightarrow> nat option" where
  "istchr_loop m s e chr =
     (if s \<ge> e then Some NULL
      else do { c \<leftarrow> rd m s; if c \<noteq> chr then istchr_loop m (s + 1) e chr else Some s })"
  by pat_completeness auto
termination by (relation "measure (\<lambda>(m, s, e, chr). e - s)") auto

declare istchr_loop.simps [simp del]

definition istchr :: "byte list \<Rightarrow> ist \<Rightarrow> byte \<Rightarrow> nat option" where
  "istchr m s chr = istchr_loop m (ptr s) (ptr s + len s) chr"

fun find_loop :: "(byte \<Rightarrow> bool) \<Rightarrow> byte list \<Rightarrow> nat \<Rightarrow> nat \<Rightarrow> ist option" where
  "find_loop stop m p 0 = Some (ist2 p 0)"
| "find_loop stop m p (Suc l) = do {
     c \<leftarrow> rd m p;
     if stop c then Some (ist2 (p + 1 - 1) (l + 1)) else find_loop stop m (p + 1) l }"

definition istfind :: "byte list \<Rightarrow> ist \<Rightarrow> byte \<Rightarrow> ist option" where
  "istfind m s chr = find_loop (\<lambda>c. c = chr) m (ptr s) (len s)"

definition istskip :: "byte list \<Rightarrow> ist \<Rightarrow> byte \<Rightarrow> ist option" where
  "istskip m s chr = find_loop (\<lambda>c. c \<noteq> chr) m (ptr s) (len s)"

lemma find_loop_len: "find_loop stop m p l = Some r \<Longrightarrow> len r \<le> l"
  by (induction stop m p l rule: find_loop.induct) (force simp: bind_eq_Some_conv split: if_splits)+

text \<open>The \<open>for\<close> loop of \<open>istist\<close>: \<open>n\<close> further bytes of the pattern are compared.\<close>

fun istist_cmp :: "byte list \<Rightarrow> nat \<Rightarrow> nat \<Rightarrow> nat \<Rightarrow> bool option" where
  "istist_cmp m rp pp 0 = Some True"
| "istist_cmp m rp pp (Suc n) = do {
     a \<leftarrow> rd m rp;
     b \<leftarrow> rd m (pp + 1);
     if a \<noteq> b then Some False else istist_cmp m (rp + 1) (pp + 1) n }"

text \<open>Going back to the label \<open>loop\<close> is the recursive call.\<close>

function istist :: "byte list \<Rightarrow> ist \<Rightarrow> ist \<Rightarrow> ist option" where
  "istist m ret pat =
     (if len pat = 0 then Some ret
      else (case rd m (ptr pat) of None \<Rightarrow> None | Some c0 \<Rightarrow>
        (case istfind m ret c0 of None \<Rightarrow> None | Some found \<Rightarrow>
          if len found < len pat then Some (ist2 NULL 0)
          else (let ret = istnext found in
            case istist_cmp m (ptr ret) (ptr pat) (len pat - 1) of None \<Rightarrow> None
            | Some all \<Rightarrow> if \<not> all then istist m ret pat
                         else Some (ist2 (ptr ret - 1) (len ret + 1))))))"
  by pat_completeness auto
termination
  by (relation "measure (\<lambda>(m, ret, pat). len ret)")
    (auto simp: istfind_def istnext_def dest!: find_loop_len)

declare istist.simps [simp del]

section \<open>Strings as sequences of bytes\<close>

definition ist_ok :: "byte list \<Rightarrow> ist \<Rightarrow> bool" where
  "ist_ok m s \<longleftrightarrow> (len s \<noteq> 0 \<longrightarrow> ptr s \<noteq> NULL) \<and> ptr s + len s \<le> length m"

definition bytes :: "byte list \<Rightarrow> ist \<Rightarrow> byte list" where
  "bytes m s = mem_read m (ptr s) (len s)"

lemma rd_Some [simp]: "a \<noteq> NULL \<Longrightarrow> a < length m \<Longrightarrow> rd m a = Some (m ! a)"
  by (simp add: rd_def)

lemma mem_read_Suc: "p + Suc n \<le> length m \<Longrightarrow> mem_read m p (Suc n) = m ! p # mem_read m (Suc p) n"
  by (simp add: mem_read_def drop_nth_Cons)

lemma NULL_Suc [simp]: "Suc p \<noteq> NULL"
  by (simp add: NULL_def)

lemma length_bytes: "ist_ok m s \<Longrightarrow> length (bytes m s) = len s"
  by (simp add: ist_ok_def bytes_def)

lemma table_values: "list_all (\<lambda>n. let c = word_of_nat n :: byte in
    lower c = (if 0x41 \<le> c \<and> c \<le> 0x5a then c + 0x20 else c) \<and>
    upper c = (if 0x61 \<le> c \<and> c \<le> 0x7a then c - 0x20 else c)) [0..<256]"
  by code_simp

lemma tables:
  "lower c = (if 0x41 \<le> c \<and> c \<le> 0x5a then c + 0x20 else c)"
  "upper c = (if 0x61 \<le> c \<and> c \<le> 0x7a then c - 0x20 else c)"
proof -
  have "unat c < 2 ^ LENGTH(8)" by (rule unsigned_less)
  then have u: "unat c < 256" by simp
  then have "let c = word_of_nat (unat c) :: byte in
    lower c = (if 0x41 \<le> c \<and> c \<le> 0x5a then c + 0x20 else c) \<and>
    upper c = (if 0x61 \<le> c \<and> c \<le> 0x7a then c - 0x20 else c)"
    using table_values unfolding list_all_iff by (metis atLeastLessThan_iff set_upt zero_le)
  then show "lower c = (if 0x41 \<le> c \<and> c \<le> 0x5a then c + 0x20 else c)"
    "upper c = (if 0x61 \<le> c \<and> c \<le> 0x7a then c - 0x20 else c)" by (simp_all add: Let_def)
qed

section \<open>Comparisons\<close>

lemma match_loop_eq:
  "(n \<noteq> 0 \<longrightarrow> lp \<noteq> NULL \<and> rp \<noteq> NULL) \<Longrightarrow> lp + n \<le> length m \<Longrightarrow> rp + n \<le> length m \<Longrightarrow>
   match_loop same m lp rp n = Some (list_all2 same (mem_read m lp n) (mem_read m rp n))"
  by (induction same m lp rp n rule: match_loop.induct) (auto simp: mem_read_Suc)

lemma isteq_eq:
  assumes "ist_ok m l" "ist_ok m r"
  shows "isteq m l r = Some (bytes m l = bytes m r)"
proof (cases "len l = len r")
  case True
  then show ?thesis using assms match_loop_eq [of "len l" "ptr l" "ptr r" m "(=)"]
    by (simp add: isteq_def ist_ok_def bytes_def list.rel_eq)
next
  case False
  then have "bytes m l \<noteq> bytes m r" using assms length_bytes by metis
  then show ?thesis using False by (simp add: isteq_def)
qed

lemma isteqi_eq:
  assumes "ist_ok m l" "ist_ok m r"
  shows "isteqi m l r = Some (map lower (bytes m l) = map lower (bytes m r))"
proof (cases "len l = len r")
  case True
  have "(\<lambda>a b. \<not> (a \<noteq> b \<and> ist_lc ! unat a \<noteq> ist_lc ! unat b)) = (\<lambda>a b. lower a = lower b)"
    by (auto simp: lower_def fun_eq_iff)
  moreover have "list_all2 (\<lambda>a b. lower a = lower b) xs ys = (map lower xs = map lower ys)" for xs ys
    by (simp add: list_all2_conv_all_nth list_eq_iff_nth_eq) (metis nth_map)
  ultimately show ?thesis using True assms match_loop_eq [of "len l" "ptr l" "ptr r" m "\<lambda>a b. lower a = lower b"]
    by (simp add: isteqi_def ist_ok_def bytes_def)
next
  case False
  then have "map lower (bytes m l) \<noteq> map lower (bytes m r)" using assms length_bytes by (metis length_map)
  then show ?thesis using False by (simp add: isteqi_def)
qed

lemma istmatch_eq:
  assumes "ist_ok m l" "ist_ok m r"
  shows "istmatch m l r = Some (prefix (bytes m r) (bytes m l))"
proof (cases "len l < len r")
  case True
  then have "\<not> prefix (bytes m r) (bytes m l)" using assms length_bytes by (metis leD prefix_length_le)
  then show ?thesis using True by (simp add: istmatch_def)
next
  case False
  have "match_loop (=) m (ptr l) (ptr r) (len r) = Some (mem_read m (ptr l) (len r) = bytes m r)"
    using assms False match_loop_eq [of "len r" "ptr l" "ptr r" m "(=)"]
    by (cases "len l = 0") (simp_all add: ist_ok_def bytes_def list.rel_eq)
  moreover have "mem_read m (ptr l) (len r) = take (len r) (bytes m l)"
    using False by (simp add: bytes_def mem_read_take)
  moreover have "(take (len r) (bytes m l) = bytes m r) = prefix (bytes m r) (bytes m l)"
    using length_bytes [OF assms(2)] by (metis prefix_def append_eq_conv_conj take_is_prefix)
  ultimately show ?thesis using False by (simp add: istmatch_def)
qed

lemma ist_ok_shorter: "ist_ok m s \<Longrightarrow> n \<le> len s \<Longrightarrow> ist_ok m (s\<lparr>len := n\<rparr>)"
  by (auto simp: ist_ok_def)

lemma shorten:
  assumes "ist_ok m s"
  shows "ist_ok m (if len s > n then s\<lparr>len := n\<rparr> else s)"
    "bytes m (if len s > n then s\<lparr>len := n\<rparr> else s) = take n (bytes m s)"
proof -
  show "ist_ok m (if len s > n then s\<lparr>len := n\<rparr> else s)" using assms ist_ok_shorter by simp
  show "bytes m (if len s > n then s\<lparr>len := n\<rparr> else s) = take n (bytes m s)"
    using length_bytes [OF assms] by (auto simp: bytes_def mem_read_take)
qed

text \<open>C39: the comparisons of strings are the ones of the sequences of bytes they stand for:
  prefix, equality, equality up to the case of ASCII letters, and prefix and equality of the first
  \<open>count\<close> bytes. They read nothing but the bytes of the two strings.
\<close>

theorem ist_comparisons:
  assumes "ist_ok m l" "ist_ok m r"
  shows "istmatch m l r = Some (prefix (bytes m r) (bytes m l)) \<and>
    isteq m l r = Some (bytes m l = bytes m r) \<and>
    isteqi m l r = Some (map lower (bytes m l) = map lower (bytes m r)) \<and>
    istnmatch m l r n = Some (prefix (take n (bytes m r)) (take n (bytes m l))) \<and>
    istneq m l r n = Some (take n (bytes m l) = take n (bytes m r))"
  using assms istmatch_eq isteq_eq isteqi_eq shorten
  by (simp only: istnmatch_def istneq_def Let_def)

text \<open>The order of strings: the first different byte decides, as unsigned numbers.\<close>

lemma as_int_small: "0 \<le> x \<Longrightarrow> x < 2 ^ 31 \<Longrightarrow> as_int (- x) = - x"
  unfolding as_int_def signed_of_int by (simp add: signed_take_bit_int_eq_self)

lemma istdiff_loop_order:
  "(ll \<noteq> 0 \<longrightarrow> lp \<noteq> NULL) \<Longrightarrow> (rl \<noteq> 0 \<longrightarrow> rp \<noteq> NULL) \<Longrightarrow> lp + ll \<le> length m \<Longrightarrow> rp + rl \<le> length m \<Longrightarrow>
   rl < 2 ^ 31 \<Longrightarrow>
   \<exists>d. istdiff_loop m lp ll rp rl = Some d \<and> (d = 0 \<longleftrightarrow> mem_read m lp ll = mem_read m rp rl) \<and>
     (d < 0 \<longleftrightarrow> ord_class.lexordp (mem_read m lp ll) (mem_read m rp rl))"
proof (induction m lp ll rp rl rule: istdiff_loop.induct)
  case (1 m lp rp rl)
  then have "as_int (- int rl) = - int rl" by (intro as_int_small) simp_all
  moreover have "length (mem_read m rp rl) = rl" using 1 by simp
  then have "mem_read m rp rl = [] \<longleftrightarrow> rl = 0" by (metis length_0_conv)
  ultimately show ?case by (cases "mem_read m rp rl") auto
next
  case (2 m lp ll rp)
  then show ?case by (simp add: mem_read_Suc)
next
  case (3 m lp ll rp rl)
  have b: "rd m lp = Some (m ! lp)" "rd m rp = Some (m ! rp)" using 3 by simp_all
  show ?case
  proof (cases "m ! lp = m ! rp")
    case True
    then show ?thesis using 3 b by (simp add: mem_read_Suc)
  next
    case False
    then have "uint (m ! lp) \<noteq> uint (m ! rp)" by (metis word_uint_eq_iff)
    then show ?thesis using 3 b False by (auto simp: mem_read_Suc word_less_def)
  qed
qed

text \<open>\<open>istdiff\<close> orders strings by their bytes: its sign is the lexicographic order, and it is
  zero for equal strings only. That holds for lengths below \<open>2 ^ 31\<close>: the length of the second
  string is returned as an \<open>int\<close>.
\<close>

lemma istdiff_order:
  assumes "ist_ok m l" "ist_ok m r" "len r < 2 ^ 31"
  shows "\<exists>d. istdiff m l r = Some d \<and> (d = 0 \<longleftrightarrow> bytes m l = bytes m r) \<and>
    (d < 0 \<longleftrightarrow> ord_class.lexordp (bytes m l) (bytes m r)) \<and>
    (d > 0 \<longleftrightarrow> ord_class.lexordp (bytes m r) (bytes m l))"
proof -
  obtain d where d: "istdiff m l r = Some d" "d = 0 \<longleftrightarrow> bytes m l = bytes m r"
    "d < 0 \<longleftrightarrow> ord_class.lexordp (bytes m l) (bytes m r)"
    using istdiff_loop_order [of "len l" "ptr l" "len r" "ptr r" m] assms
    unfolding istdiff_def ist_ok_def bytes_def by auto
  have "ord_class.lexordp (bytes m l) (bytes m r) \<or> bytes m l = bytes m r \<or>
      ord_class.lexordp (bytes m r) (bytes m l)"
    by (rule lexordp_linear)
  moreover have "\<not> (ord_class.lexordp (bytes m l) (bytes m r) \<and> ord_class.lexordp (bytes m r) (bytes m l))"
    using lexordp_antisym by blast
  moreover have "\<not> ord_class.lexordp (bytes m l) (bytes m l)" by (rule lexordp_irreflexive')
  ultimately have "d > 0 \<longleftrightarrow> ord_class.lexordp (bytes m r) (bytes m l)"
    using d(2,3) by (metis linorder_neqE_linordered_idom order_less_asym)
  then show ?thesis using d by blast
qed

text \<open>Beyond that length the empty string compares equal to one of four gigabytes.\<close>

lemma istdiff_wraps: "istdiff m (ist2 p 0) (ist2 q (2 ^ 32)) = Some 0"
  by (simp add: istdiff_def as_int_def)

section \<open>Searches\<close>

lemma find_loop_eq:
  "(l \<noteq> 0 \<longrightarrow> p \<noteq> NULL) \<Longrightarrow> p + l \<le> length m \<Longrightarrow>
   find_loop stop m p l =
     (let n = length (takeWhile (\<lambda>c. \<not> stop c) (mem_read m p l)) in Some (ist2 (p + n) (l - n)))"
  by (induction stop m p l rule: find_loop.induct) (auto simp: mem_read_Suc Let_def)

lemma find_loop_suffix:
  assumes "ist_ok m s"
  shows "\<exists>r n. find_loop stop m (ptr s) (len s) = Some r \<and> n \<le> len s \<and> r = ist2 (ptr s + n) (len s - n) \<and>
    ist_ok m r \<and> bytes m r = dropWhile (\<lambda>c. \<not> stop c) (bytes m s) \<and>
    n = length (takeWhile (\<lambda>c. \<not> stop c) (bytes m s))"
proof -
  define n where "n = length (takeWhile (\<lambda>c. \<not> stop c) (bytes m s))"
  have n: "n \<le> len s" using length_bytes [OF assms] length_takeWhile_le [of "\<lambda>c. \<not> stop c" "bytes m s"]
    by (simp add: n_def)
  let ?r = "ist2 (ptr s + n) (len s - n)"
  have f: "find_loop stop m (ptr s) (len s) = Some ?r"
    using assms find_loop_eq [of "len s" "ptr s" m stop] by (simp add: ist_ok_def n_def bytes_def Let_def)
  have "bytes m ?r = drop n (bytes m s)" using n by (simp add: bytes_def mem_read_drop)
  moreover have "\<dots> = dropWhile (\<lambda>c. \<not> stop c) (bytes m s)" by (simp add: n_def dropWhile_eq_drop)
  moreover have "ist_ok m ?r" using assms n by (auto simp: ist_ok_def NULL_def)
  ultimately show ?thesis using f n n_def by (intro exI [of _ ?r] exI [of _ n]) simp
qed

text \<open>Where a sequence first occurs in another.\<close>

fun first_at :: "byte list \<Rightarrow> byte list \<Rightarrow> nat option" where
  "first_at pat [] = (if pat = [] then Some 0 else None)"
| "first_at pat (x # xs) = (if prefix pat (x # xs) then Some 0 else map_option Suc (first_at pat xs))"

lemma first_at_Some: "first_at pat xs = Some n \<Longrightarrow> prefix pat (drop n xs) \<and> (\<forall>k<n. \<not> prefix pat (drop k xs))"
proof (induction xs arbitrary: n)
  case (Cons x xs)
  show ?case
  proof (cases "prefix pat (x # xs)")
    case False
    then obtain k where k: "first_at pat xs = Some k" "n = Suc k" using Cons(2) by auto
    then show ?thesis using Cons(1) [OF k(1)] False by (auto simp: less_Suc_eq_0_disj)
  qed (use Cons(2) in simp)
qed (auto split: if_splits)

lemma first_at_None: "first_at pat xs = None \<longleftrightarrow> \<not> sublist pat xs"
  by (induction xs) (auto simp: sublist_Cons_right)

lemma first_at_skip: "\<forall>x \<in> set xs. x \<noteq> c \<Longrightarrow> first_at (c # p) (xs @ ys) = map_option ((+) (length xs)) (first_at (c # p) ys)"
  by (induction xs; cases "first_at (c # p) ys") auto

lemma first_at_short: "length xs < length pat \<Longrightarrow> first_at pat xs = None"
  unfolding first_at_None by (auto dest: sublist_length_le)

lemma istist_cmp_eq:
  "(n \<noteq> 0 \<longrightarrow> rp \<noteq> NULL) \<Longrightarrow> rp + n \<le> length m \<Longrightarrow> pp + 1 + n \<le> length m \<Longrightarrow>
   istist_cmp m rp pp n = Some (mem_read m rp n = mem_read m (pp + 1) n)"
  by (induction m rp pp n rule: istist_cmp.induct) (auto simp: mem_read_Suc)

lemma istist_eq:
  "ist_ok m s \<Longrightarrow> ist_ok m pat \<Longrightarrow>
   istist m s pat = Some (case first_at (bytes m pat) (bytes m s) of
     None \<Rightarrow> ist2 NULL 0 | Some n \<Rightarrow> ist2 (ptr s + n) (len s - n))"
proof (induction m s pat rule: istist.induct)
  case (1 m s pat)
  show ?case
  proof (cases "len pat = 0")
    case True
    then have "bytes m pat = []" by (simp add: bytes_def)
    then have "first_at (bytes m pat) (bytes m s) = Some 0" by (cases "bytes m s") simp_all
    then show ?thesis using True by (subst istist.simps) simp
  next
    case False
    then obtain k where k: "len pat = Suc k" by (cases "len pat") auto
    define c0 p where "c0 = m ! ptr pat" and "p = mem_read m (ptr pat + 1) k"
    have c0: "rd m (ptr pat) = Some c0" and pat: "bytes m pat = c0 # p"
      using 1(3) k by (simp_all add: ist_ok_def bytes_def c0_def p_def mem_read_Suc)
    obtain f n where f: "istfind m s c0 = Some f" "n \<le> len s" "f = ist2 (ptr s + n) (len s - n)" "ist_ok m f"
      "bytes m f = dropWhile (\<lambda>c. c \<noteq> c0) (bytes m s)" "n = length (takeWhile (\<lambda>c. c \<noteq> c0) (bytes m s))"
      using find_loop_suffix [OF 1(2), of "\<lambda>c. c = c0"] unfolding istfind_def by blast
    have skip: "first_at (bytes m pat) (bytes m s) = map_option ((+) n) (first_at (bytes m pat) (bytes m f))"
      using first_at_skip [of "takeWhile (\<lambda>c. c \<noteq> c0) (bytes m s)" c0 p "bytes m f"] f(5,6) pat
      by (auto dest: set_takeWhileD)
    show ?thesis
    proof (cases "len f < len pat")
      case True
      then have "first_at (bytes m pat) (bytes m f) = None"
        using length_bytes [OF f(4)] length_bytes [OF 1(3)] by (intro first_at_short) simp
      then show ?thesis using k c0 f(1) True skip by (subst istist.simps) simp
    next
      case large: False
      define r where "r = istnext f"
      have lf: "len f = Suc (len r)" "ptr r = Suc (ptr f)" "len r \<ge> k"
        using large k f(3) by (auto simp: r_def istnext_def)
      have r: "ist_ok m r" using f(4) lf unfolding ist_ok_def by simp
      have "bytes m f = m ! ptr f # bytes m r"
        using f(4) lf by (simp add: bytes_def ist_ok_def mem_read_Suc)
      moreover from this have "m ! ptr f = c0"
        using f(5) hd_dropWhile [of "\<lambda>c. c \<noteq> c0" "bytes m s"] by (metis dropWhile_eq_Nil_conv list.distinct(1) list.sel(1))
      ultimately have bf: "bytes m f = c0 # bytes m r" by simp
      have "mem_read m (ptr r) k = take k (bytes m r)" using lf by (simp add: bytes_def mem_read_take)
      moreover have "length p = k" using 1(3) k by (simp add: p_def ist_ok_def)
      moreover have "istist_cmp m (ptr r) (ptr pat) k = Some (mem_read m (ptr r) k = p)"
        unfolding p_def using r lf 1(3) k by (intro istist_cmp_eq) (auto simp: ist_ok_def)
      ultimately have cmp: "istist_cmp m (ptr r) (ptr pat) (len pat - 1) = Some (prefix p (bytes m r))"
        using k by (simp add: prefix_def) (metis append_eq_conv_conj append_take_drop_id)
      show ?thesis
      proof (cases "prefix p (bytes m r)")
        case True
        then have "first_at (bytes m pat) (bytes m f) = Some 0" unfolding bf pat by simp
        then show ?thesis using k c0 f(1-3) large skip cmp True lf
          by (subst istist.simps) (simp add: Let_def r_def)
      next
        case no: False
        then have "first_at (bytes m pat) (bytes m f) = map_option Suc (first_at (bytes m pat) (bytes m r))"
          unfolding bf pat by simp
        moreover have "istist m r pat = Some (case first_at (bytes m pat) (bytes m r) of
            None \<Rightarrow> ist2 NULL 0 | Some n \<Rightarrow> ist2 (ptr r + n) (len r - n))"
          using 1(1) [OF False c0 f(1) large r_def] cmp no r 1(3) by blast
        moreover have "istist m s pat = istist m r pat"
          using k c0 f(1) large cmp no by (subst istist.simps) (simp add: Let_def r_def)
        ultimately show ?thesis using skip lf f(3)
          by (cases "first_at (bytes m pat) (bytes m r)") auto
      qed
    qed
  qed
qed

lemma istchr_loop_eq:
  "(s < e \<longrightarrow> s \<noteq> NULL) \<Longrightarrow> e \<le> length m \<Longrightarrow>
   istchr_loop m s e chr = (let n = length (takeWhile (\<lambda>c. c \<noteq> chr) (mem_read m s (e - s)))
      in Some (if s + n < e then s + n else NULL))"
proof (induction m s e chr rule: istchr_loop.induct)
  case (1 m s e chr)
  show ?case
  proof (cases "s \<ge> e")
    case True
    then show ?thesis by (subst istchr_loop.simps) simp
  next
    case False
    then have r: "mem_read m s (e - s) = m ! s # mem_read m (Suc s) (e - Suc s)"
      using mem_read_Suc [of s "e - Suc s" m] 1(3) by (simp add: Suc_diff_Suc)
    have c: "rd m s = Some (m ! s)" using False 1(2,3) by simp
    show ?thesis using False c 1(1) [OF False c] 1(3) r
      by (subst istchr_loop.simps) (simp add: Let_def)
  qed
qed

text \<open>the searches find the first place: \<open>istchr\<close> and \<open>istfind\<close> of a character, \<open>istskip\<close> of
  any other character, \<open>istist\<close> of a whole string; each says so when there is none, and each
  result is a part of the string that was searched.
\<close>

lemma ist_searches:
  assumes "ist_ok m s" "ist_ok m pat"
  shows "(\<exists>r. istfind m s c = Some r \<and> ist_ok m r \<and> ptr r + len r = ptr s + len s \<and>
            bytes m r = dropWhile (\<lambda>x. x \<noteq> c) (bytes m s)) \<and>
    (\<exists>r. istskip m s c = Some r \<and> ist_ok m r \<and> ptr r + len r = ptr s + len s \<and>
            bytes m r = dropWhile (\<lambda>x. x = c) (bytes m s)) \<and>
    istchr m s c = Some (if c \<in> set (bytes m s) then ptr s + length (takeWhile (\<lambda>x. x \<noteq> c) (bytes m s)) else NULL) \<and>
    istist m s pat = Some (case first_at (bytes m pat) (bytes m s) of
      None \<Rightarrow> ist2 NULL 0 | Some n \<Rightarrow> ist2 (ptr s + n) (len s - n))"
proof (intro conjI)
  show "\<exists>r. istfind m s c = Some r \<and> ist_ok m r \<and> ptr r + len r = ptr s + len s \<and>
      bytes m r = dropWhile (\<lambda>x. x \<noteq> c) (bytes m s)"
    using find_loop_suffix [OF assms(1), of "\<lambda>x. x = c"] unfolding istfind_def by force
  show "\<exists>r. istskip m s c = Some r \<and> ist_ok m r \<and> ptr r + len r = ptr s + len s \<and>
      bytes m r = dropWhile (\<lambda>x. x = c) (bytes m s)"
    using find_loop_suffix [OF assms(1), of "\<lambda>x. x \<noteq> c"] unfolding istskip_def by force
  have "length (takeWhile (\<lambda>x. x \<noteq> c) (bytes m s)) < len s \<longleftrightarrow> c \<in> set (bytes m s)"
    using length_bytes [OF assms(1)] by (metis (mono_tags, lifting) length_takeWhile_le nat_less_le
        nth_length_takeWhile nth_mem takeWhile_eq_all_conv takeWhile_eq_take take_all_iff order_refl)
  then show "istchr m s c = Some (if c \<in> set (bytes m s)
      then ptr s + length (takeWhile (\<lambda>x. x \<noteq> c) (bytes m s)) else NULL)"
    using assms(1) istchr_loop_eq [of "ptr s" "ptr s + len s" m c]
    by (auto simp: istchr_def ist_ok_def bytes_def Let_def)
  show "istist m s pat = Some (case first_at (bytes m pat) (bytes m s) of
      None \<Rightarrow> ist2 NULL 0 | Some n \<Rightarrow> ist2 (ptr s + n) (len s - n))"
    using assms by (rule istist_eq)
qed

section \<open>Copies\<close>

text \<open>Where a copy may write: a room of \<open>n\<close> bytes, apart from the bytes of the source.\<close>

definition room_for :: "byte list \<Rightarrow> nat \<Rightarrow> nat \<Rightarrow> ist \<Rightarrow> bool" where
  "room_for m p n src \<longleftrightarrow> p \<noteq> NULL \<and> p + n \<le> length m \<and> (p + n \<le> ptr src \<or> ptr src + len src \<le> p)"

lemma wr_Some [simp]: "a \<noteq> NULL \<Longrightarrow> a < length m \<Longrightarrow> wr m a b = Some (memcpy m a [b])"
  by (simp add: wr_def memcpy_def upd_conv_take_nth_drop)

lemma memcpy_join: "p + length a + length b \<le> length m \<Longrightarrow> memcpy (memcpy m p a) (p + length a) b = memcpy m p (a @ b)"
  by (simp add: memcpy_def ac_simps)

lemma memcpy_Cons: "p + Suc (length b) \<le> length m \<Longrightarrow> memcpy (memcpy m p [x]) (Suc p) b = memcpy m p (x # b)"
  using memcpy_join [of p "[x]" b m] by simp

lemma copy_loop_eq:
  "(n \<noteq> 0 \<longrightarrow> dst \<noteq> NULL \<and> src \<noteq> NULL) \<Longrightarrow> dst + n \<le> length m \<Longrightarrow> src + n \<le> length m \<Longrightarrow>
   dst + n \<le> src \<or> src + n \<le> dst \<Longrightarrow>
   copy_loop f m dst src n = Some (memcpy m dst (map f (mem_read m src n)))"
proof (induction f m dst src n rule: copy_loop.induct)
  case (1 f m dst src)
  then show ?case by simp
next
  case (2 f m dst src n)
  define x where "x = f (m ! src)"
  have "mem_read (memcpy m dst [x]) (Suc src) n = mem_read m (Suc src) n"
    using 2(3-5) by (auto simp: mem_read_memcpy_before mem_read_memcpy_after)
  moreover have "copy_loop f (memcpy m dst [x]) (Suc dst) (Suc src) n =
      Some (memcpy (memcpy m dst [x]) (Suc dst) (map f (mem_read (memcpy m dst [x]) (Suc src) n)))"
    using 2 x_def by auto
  moreover have "length (mem_read m (Suc src) n) = n" using 2(4) by simp
  ultimately show ?case using 2(2-4) by (simp add: mem_read_Suc memcpy_Cons flip: x_def)
qed

lemma cat_loop_eq:
  "(k \<noteq> 0 \<longrightarrow> p \<noteq> NULL \<and> s \<noteq> NULL) \<Longrightarrow> k = min (count - l) (e - s) \<Longrightarrow> s \<le> e \<Longrightarrow> e \<le> length m \<Longrightarrow>
   p + l + k \<le> length m \<Longrightarrow> p + l + k \<le> s \<or> e \<le> p + l \<Longrightarrow>
   cat_loop m p l s e count = Some (memcpy m (p + l) (mem_read m s k), l + k, s + k)"
proof (induction m p l s e count arbitrary: k rule: cat_loop.induct)
  case (1 m p l s e count)
  show ?case
  proof (cases "l < count \<and> s \<noteq> e")
    case False
    then have "k = 0" using 1(3,4) by auto
    then show ?thesis using False 1(6) by (subst cat_loop.simps) auto
  next
    case True
    then have "k \<noteq> 0" using 1(3,4) by auto
    then obtain j where k: "k = Suc j" using not0_implies_Suc by blast
    define m1 where "m1 = memcpy m (p + l) [m ! s]"
    have w: "rd m s = Some (m ! s)" "wr m (p + l) (m ! s) = Some m1"
      using 1(2,4-6) True k unfolding m1_def by (auto simp: NULL_def)
    have l1: "length m1 = length m" using 1(6) k by (simp add: m1_def)
    have "cat_loop m1 p (l + 1) (s + 1) e count = Some (memcpy m1 (p + (l + 1)) (mem_read m1 (s + 1) j), l + 1 + j, s + 1 + j)"
    proof (rule 1(1) [OF True w])
      show "j \<noteq> 0 \<longrightarrow> p \<noteq> NULL \<and> s + 1 \<noteq> NULL" using 1(2) k by simp
      show "j = min (count - (l + 1)) (e - (s + 1))" using 1(3) k by linarith
      show "s + 1 \<le> e" using 1(4) True by linarith
      show "e \<le> length m1" "p + (l + 1) + j \<le> length m1" using 1(5,6) k l1 by simp_all
      show "p + (l + 1) + j \<le> s + 1 \<or> e \<le> p + (l + 1)" using 1(7) k by linarith
    qed
    moreover have "mem_read m1 (s + 1) j = mem_read m (s + 1) j"
      using 1(3,5-7) k unfolding m1_def by (auto simp: mem_read_memcpy_before mem_read_memcpy_after)
    moreover have "s + k \<le> length m" using 1(3-5) by auto
    then have "length (mem_read m (Suc s) j) = j" "mem_read m s k = m ! s # mem_read m (Suc s) j"
      using k by (simp_all add: mem_read_Suc)
    ultimately show ?thesis using True w k 1(6)
      by (subst cat_loop.simps) (simp add: m1_def memcpy_Cons)
  qed
qed

lemma copy_bytes:
  assumes "ist_ok m src" "room_for m p k src" "n \<le> k" "n \<le> len src"
  shows "copy_loop f m p (ptr src) n = Some (memcpy m p (map f (take n (bytes m src))))"
proof -
  have "mem_read m (ptr src) n = take n (bytes m src)" using assms(4) by (simp add: bytes_def mem_read_take)
  then show ?thesis using copy_loop_eq [of n p "ptr src" m f] assms
    unfolding ist_ok_def room_for_def by auto
qed

lemma copy_bytes_nul:
  assumes "ist_ok m src" "room_for m p k src" "n < k" "n \<le> len src"
  shows "copy_loop f m p (ptr src) n = Some (memcpy m p (map f (take n (bytes m src)))) \<and>
    wr (memcpy m p (map f (take n (bytes m src)))) (p + n) 0 = Some (memcpy m p (map f (take n (bytes m src)) @ [0]))"
proof -
  have l: "length (map f (take n (bytes m src))) = n" using length_bytes [OF assms(1)] assms(4) by simp
  have "memcpy (memcpy m p (map f (take n (bytes m src)))) (p + n) [0] = memcpy m p (map f (take n (bytes m src)) @ [0])"
    using memcpy_join [of p "map f (take n (bytes m src))" "[0]" m] l assms(2,3) by (simp add: room_for_def)
  moreover have "p + n \<noteq> NULL" "p + n < length (memcpy m p (map f (take n (bytes m src))))"
    using assms(2,3) l by (simp_all add: room_for_def NULL_def)
  ultimately show ?thesis using copy_bytes [OF assms(1,2) _ assms(4)] assms(3) by simp
qed

lemma cat_bytes:
  assumes "ist_ok m src" "room_for m (ptr dst) count src" "len dst \<le> c" "c \<le> count"
  shows "cat_loop m (ptr dst) (len dst) (ptr src) (ptr src + len src) c =
    (let n = min (c - len dst) (len src) in
     Some (memcpy m (ptr dst + len dst) (take (c - len dst) (bytes m src)), len dst + n, ptr src + n))"
proof -
  define n where "n = min (c - len dst) (len src)"
  have n: "n \<le> len src" "n \<le> c - len dst" by (simp_all add: n_def)
  have r: "ptr dst \<noteq> NULL" "ptr dst + count \<le> length m" "ptr dst + count \<le> ptr src \<or> ptr src + len src \<le> ptr dst"
    and s: "len src \<noteq> 0 \<longrightarrow> ptr src \<noteq> NULL" "ptr src + len src \<le> length m"
    using assms(1,2) by (simp_all add: room_for_def ist_ok_def)
  have m: "mem_read m (ptr src) n = take (c - len dst) (bytes m src)"
    using length_bytes [OF assms(1)] by (simp add: bytes_def mem_read_def n_def)
  have "cat_loop m (ptr dst) (len dst) (ptr src) (ptr src + len src) c =
      Some (memcpy m (ptr dst + len dst) (mem_read m (ptr src) n), len dst + n, ptr src + n)"
  proof (rule cat_loop_eq)
    show "n \<noteq> 0 \<longrightarrow> ptr dst \<noteq> NULL \<and> ptr src \<noteq> NULL" using n(1) r(1) s(1) by linarith
    show "n = min (c - len dst) (ptr src + len src - ptr src)" by (simp add: n_def)
    show "ptr dst + len dst + n \<le> length m" using n(2) r(2) assms(3,4) by linarith
    show "ptr dst + len dst + n \<le> ptr src \<or> ptr src + len src \<le> ptr dst + len dst"
      using n(2) r(3) assms(3,4) by linarith
  qed (use s in simp_all)
  then show ?thesis unfolding m by (simp add: n_def Let_def)
qed

lemma take_min_bytes: "ist_ok m s \<Longrightarrow> take (min n (len s)) (bytes m s) = take n (bytes m s)"
  using length_bytes [of m s] by (simp add: min_def)

lemma istcpy_eq:
  assumes "ist_ok m src" "room_for m (ptr dst) count src"
  shows "istcpy m dst src count =
      Some (memcpy m (ptr dst) (take count (bytes m src)), ist2 (ptr dst) (min count (len src)),
            if len src \<le> count then int (len src) else -1)"
proof -
  define n where "n = min count (len src)"
  have "(if count > len src then len src else count) = n" "n \<le> count" "n \<le> len src" "(n = len src) = (len src \<le> count)"
    by (auto simp: n_def)
  moreover have "take n (bytes m src) = take count (bytes m src)" unfolding n_def by (rule take_min_bytes [OF assms(1)])
  ultimately show ?thesis
    unfolding istcpy_def Let_def n_def [symmetric] using copy_bytes [OF assms, of n id] by simp
qed

lemma istscpy_eq:
  assumes "ist_ok m src" "room_for m (ptr dst) count src"
  shows "count \<noteq> 0 \<longrightarrow> istscpy m dst src count =
      Some (memcpy m (ptr dst) (take (count - 1) (bytes m src) @ [0]), ist2 (ptr dst) (min (count - 1) (len src)),
            if len src < count then int (len src) else -1)"
proof
  assume c: "count \<noteq> 0"
  define n where "n = min (count - 1) (len src)"
  have "(if count > len src then len src + 1 else count) - 1 = n" "n < count" "n \<le> len src" "(n = len src) = (len src < count)"
    using c by (auto simp: n_def)
  moreover have "take n (bytes m src) = take (count - 1) (bytes m src)"
    unfolding n_def by (rule take_min_bytes [OF assms(1)])
  ultimately show "istscpy m dst src count =
      Some (memcpy m (ptr dst) (take (count - 1) (bytes m src) @ [0]), ist2 (ptr dst) (min (count - 1) (len src)),
            if len src < count then int (len src) else -1)"
    unfolding istscpy_def Let_def n_def [symmetric] using c copy_bytes_nul [OF assms, of n id] by simp
qed

lemma istcat_eq:
  assumes "ist_ok m src" "room_for m (ptr dst) count src"
  shows "len dst \<le> count \<longrightarrow> istcat m dst src count =
      Some (memcpy m (ptr dst + len dst) (take (count - len dst) (bytes m src)),
            ist2 (ptr dst) (min count (len dst + len src)),
            if len dst + len src \<le> count then int (len dst + len src) else -1)"
proof
  assume c: "len dst \<le> count"
  define n where "n = min (count - len dst) (len src)"
  have n: "len dst + n = min count (len dst + len src)" "(n = len src) = (len dst + len src \<le> count)"
    using c by (auto simp: n_def)
  have "cat_loop m (ptr dst) (len dst) (ptr src) (ptr src + len src) count =
      Some (memcpy m (ptr dst + len dst) (take (count - len dst) (bytes m src)), len dst + n, ptr src + n)"
    using cat_bytes [OF assms c order_refl] by (simp add: n_def Let_def)
  then show "istcat m dst src count =
      Some (memcpy m (ptr dst + len dst) (take (count - len dst) (bytes m src)),
            ist2 (ptr dst) (min count (len dst + len src)),
            if len dst + len src \<le> count then int (len dst + len src) else -1)"
    unfolding istcat_def n(1) [symmetric] n(2) [symmetric] by simp
qed

lemma istscat_eq:
  assumes "ist_ok m src" "room_for m (ptr dst) count src"
  shows "len dst < count \<longrightarrow> istscat m dst src count =
      Some (memcpy m (ptr dst + len dst) (take (count - 1 - len dst) (bytes m src) @ [0]),
            ist2 (ptr dst) (min (count - 1) (len dst + len src)),
            if len dst + len src < count then int (len dst + len src) else -1)"
proof
  assume c: "len dst < count"
  define n where "n = min (count - 1 - len dst) (len src)"
  define w where "w = take (count - 1 - len dst) (bytes m src)"
  have n: "len dst + n = min (count - 1) (len dst + len src)" "(n = len src) = (len dst + len src < count)"
    using c by (auto simp: n_def)
  have w: "length w = n" using length_bytes [OF assms(1)] by (simp add: w_def n_def)
  have "n \<le> count - 1 - len dst" by (simp add: n_def)
  then have b: "ptr dst + len dst + n < length m" "ptr dst \<noteq> NULL"
    using assms(2) c unfolding room_for_def by linarith+
  then have nul: "wr (memcpy m (ptr dst + len dst) w) (ptr dst + (len dst + n)) 0 = Some (memcpy m (ptr dst + len dst) (w @ [0]))"
    using w memcpy_join [of "ptr dst + len dst" w "[0]" m] by (simp add: NULL_def add.assoc)
  have "len dst \<le> count - 1" using c by simp
  then have "cat_loop m (ptr dst) (len dst) (ptr src) (ptr src + len src) (count - 1) =
      Some (memcpy m (ptr dst + len dst) w, len dst + n, ptr src + n)"
    using cat_bytes [OF assms, of "count - 1"] by (simp add: n_def w_def Let_def)
  then show "istscat m dst src count =
      Some (memcpy m (ptr dst + len dst) (take (count - 1 - len dst) (bytes m src) @ [0]),
            ist2 (ptr dst) (min (count - 1) (len dst + len src)),
            if len dst + len src < count then int (len dst + len src) else -1)"
    unfolding istscat_def n(1) [symmetric] n(2) [symmetric] w_def [symmetric] using c nul by simp
qed

text \<open>the bounded copies, with \<open>count\<close> bytes of room at the destination that are not bytes of
  the source: each stores as much of the source as fits (\<open>istscpy\<close> and \<open>istscat\<close> followed by a zero
  byte), changes nothing outside those \<open>count\<close> bytes, and returns the length of the result, or -1
  exactly if the source did not fit. \<open>istscat\<close> needs a destination shorter than \<open>count\<close>.
\<close>

lemma ist_copies:
  assumes "ist_ok m src" "room_for m (ptr dst) count src"
  shows "istcpy m dst src count =
      Some (memcpy m (ptr dst) (take count (bytes m src)), ist2 (ptr dst) (min count (len src)),
            if len src \<le> count then int (len src) else -1) \<and>
    (count \<noteq> 0 \<longrightarrow> istscpy m dst src count =
      Some (memcpy m (ptr dst) (take (count - 1) (bytes m src) @ [0]), ist2 (ptr dst) (min (count - 1) (len src)),
            if len src < count then int (len src) else -1)) \<and>
    (len dst \<le> count \<longrightarrow> istcat m dst src count =
      Some (memcpy m (ptr dst + len dst) (take (count - len dst) (bytes m src)),
            ist2 (ptr dst) (min count (len dst + len src)),
            if len dst + len src \<le> count then int (len dst + len src) else -1)) \<and>
    (len dst < count \<longrightarrow> istscat m dst src count =
      Some (memcpy m (ptr dst + len dst) (take (count - 1 - len dst) (bytes m src) @ [0]),
            ist2 (ptr dst) (min (count - 1) (len dst + len src)),
            if len dst + len src < count then int (len dst + len src) else -1))"
  using istcpy_eq [OF assms] istscpy_eq [OF assms] istcat_eq [OF assms] istscat_eq [OF assms] by blast

text \<open>
  A destination that already has \<open>count\<close> bytes, which the comment of \<open>istscat\<close> allows, has the
  byte after its room overwritten.
\<close>

lemma istscat_overruns:
  assumes "len dst = count" "count \<noteq> 0" "ptr dst \<noteq> NULL" "ptr dst + count < length m"
  shows "\<exists>d r. istscat m dst src count = Some (memcpy m (ptr dst + count) [0], d, r)"
proof -
  have "cat_loop m (ptr dst) (len dst) (ptr src) (ptr src + len src) (count - 1) = Some (m, len dst, ptr src)"
    using assms(1) by (subst cat_loop.simps) auto
  then show ?thesis using assms by (simp add: istscat_def Let_def NULL_def)
qed

text \<open>The conversions store the whole source, changed byte by byte.\<close>

lemma ist2bin_by_eq:
  assumes "ist_ok m src" "room_for m p (len src) src"
  shows "ist2bin_by f m p src = Some (memcpy m p (map f (bytes m src)), ist2 p (len src))"
  using copy_bytes [OF assms order_refl order_refl, of f] length_bytes [OF assms(1)]
  by (simp add: ist2bin_by_def)

lemma ist2str_by_eq:
  assumes "ist_ok m src" "room_for m p (len src + 1) src"
  shows "ist2str_by f m p src = Some (memcpy m p (map f (bytes m src) @ [0]), ist2 p (len src))"
  using copy_bytes_nul [OF assms, of "len src" f] length_bytes [OF assms(1)]
  by (simp add: ist2str_by_def)

lemma istpad_eq:
  assumes "ist_ok m s" "room_for m p (len s + 1) s"
  shows "istpad m p s = Some (memcpy m p (bytes m s @ [0]), ist2 p (len s))"
  using copy_bytes_nul [OF assms, of "len s" id] length_bytes [OF assms(1)]
  by (simp add: istpad_def)

section \<open>Witnesses\<close>

definition example_memory :: "byte list" where
  "example_memory = [0, 0x61, 0x62, 0x41, 0x62, 0, 0, 0, 0, 0]"

lemma ist_comparisons_witness:
  "istmatch example_memory (ist2 1 2) (ist2 3 2) = Some False \<and> isteqi example_memory (ist2 1 2) (ist2 3 2) = Some True"
proof -
  have b: "bytes example_memory (ist2 1 2) = [0x61, 0x62]" "bytes example_memory (ist2 3 2) = [0x41, 0x62]"
    by (simp_all add: bytes_def example_memory_def mem_read_def)
  show ?thesis
    using ist_comparisons [of example_memory "ist2 1 2" "ist2 3 2", unfolded b]
    by (simp add: ist_ok_def NULL_def example_memory_def tables)
qed

lemma istdiff_order_witness:
  "\<exists>d. istdiff example_memory (ist2 1 2) (ist2 3 2) = Some d \<and> d > 0"
proof -
  have b: "bytes example_memory (ist2 1 2) = [0x61, 0x62]" "bytes example_memory (ist2 3 2) = [0x41, 0x62]"
    by (simp_all add: bytes_def example_memory_def mem_read_def)
  show ?thesis
    using istdiff_order [of example_memory "ist2 1 2" "ist2 3 2", unfolded b]
    by (auto simp: ist_ok_def NULL_def example_memory_def)
qed

lemma ist_searches_witness:
  "istist example_memory (ist2 1 4) (ist2 3 2) = Some (ist2 3 2) \<and> istchr example_memory (ist2 1 4) 0x62 = Some 2"
proof -
  have b: "bytes example_memory (ist2 1 4) = [0x61, 0x62, 0x41, 0x62]" "bytes example_memory (ist2 3 2) = [0x41, 0x62]"
    by (simp_all add: bytes_def example_memory_def mem_read_def)
  show ?thesis
    using ist_searches [of example_memory "ist2 1 4" "ist2 3 2" "0x62", unfolded b]
    by (simp add: ist_ok_def NULL_def example_memory_def)
qed

lemma ist_copies_witness:
  "istcat example_memory (ist2 5 1) (ist2 1 4) 3 =
     Some (memcpy example_memory 6 [0x61, 0x62], ist2 5 3, -1)"
proof -
  have b: "bytes example_memory (ist2 1 4) = [0x61, 0x62, 0x41, 0x62]"
    by (simp add: bytes_def example_memory_def mem_read_def)
  show ?thesis
    using ist_copies [of example_memory "ist2 1 4" "ist2 5 1" 3, unfolded b]
    by (simp add: ist_ok_def room_for_def NULL_def example_memory_def)
qed

end
