(* ===== verification/Base64.thy ===== *)
theory Base64
  imports Prelude "HOL-Library.Monad_Syntax"
begin

text \<open>
  The two Base64 codecs of the tree: HAProxy's (\<open>src/base64.c\<close>) with its 30-bit integer format,
  and shadowsocks-libev's (\<open>src/base64.c\<close>). Input and output arrays are lists of bytes; a read
  or a write outside an array has no defined result (\<open>None\<close>). All codecs write their output from
  its start without gaps, so the bytes they write are collected and stored at the end.
\<close>

definition byte_at :: "byte list \<Rightarrow> nat \<Rightarrow> byte option" where
  "byte_at a i = (if i < length a then Some (a ! i) else None)"

definition store :: "byte list \<Rightarrow> nat \<Rightarrow> byte list \<Rightarrow> byte list option" where
  "store out p w = (if p + length w \<le> length out then Some (memcpy out p w) else None)"

section \<open>HAProxy\<close>

definition base64tab :: "byte list" where
  "base64tab = [
   0x41, 0x42, 0x43, 0x44, 0x45, 0x46, 0x47, 0x48, 0x49, 0x4a, 0x4b, 0x4c, 0x4d, 0x4e, 0x4f, 0x50,
   0x51, 0x52, 0x53, 0x54, 0x55, 0x56, 0x57, 0x58, 0x59, 0x5a, 0x61, 0x62, 0x63, 0x64, 0x65, 0x66,
   0x67, 0x68, 0x69, 0x6a, 0x6b, 0x6c, 0x6d, 0x6e, 0x6f, 0x70, 0x71, 0x72, 0x73, 0x74, 0x75, 0x76,
   0x77, 0x78, 0x79, 0x7a, 0x30, 0x31, 0x32, 0x33, 0x34, 0x35, 0x36, 0x37, 0x38, 0x39, 0x2b, 0x2f, 0]"

definition base64rev :: "byte list" where
  "base64rev = [
   0x62, 0x23, 0x23, 0x23, 0x63, 0x58, 0x59, 0x5a, 0x5b, 0x5c, 0x5d, 0x5e, 0x5f, 0x60, 0x61, 0x23,
   0x23, 0x23, 0x64, 0x23, 0x23, 0x23, 0x24, 0x25, 0x26, 0x27, 0x28, 0x29, 0x2a, 0x2b, 0x2c, 0x2d,
   0x2e, 0x2f, 0x30, 0x31, 0x32, 0x33, 0x34, 0x35, 0x36, 0x37, 0x38, 0x39, 0x3a, 0x3b, 0x3c, 0x3d,
   0x23, 0x23, 0x23, 0x23, 0x23, 0x23, 0x3e, 0x3f, 0x40, 0x41, 0x42, 0x43, 0x44, 0x45, 0x46, 0x47,
   0x48, 0x49, 0x4a, 0x4b, 0x4c, 0x4d, 0x4e, 0x4f, 0x50, 0x51, 0x52, 0x53, 0x54, 0x55, 0x56, 0x57, 0]"

definition B64BASE :: byte where "B64BASE = 0x23"
definition B64CMIN :: byte where "B64CMIN = 0x2b"
definition B64CMAX :: byte where "B64CMAX = 0x7a"
definition B64PADV :: byte where "B64PADV = 64"

definition tab :: "byte \<Rightarrow> byte" where "tab x = base64tab ! unat x"

text \<open>The \<open>while\<close> loop of \<open>a2base64\<close> and what follows it: \<open>ilen\<close> bytes of \<open>inp\<close> are left.\<close>

fun a2base64_loop :: "byte list \<Rightarrow> nat \<Rightarrow> byte list option" where
  "a2base64_loop inp ilen =
     (if ilen \<ge> 3 then (case inp of
          a # b # c # r \<Rightarrow> do {
            w \<leftarrow> a2base64_loop r (ilen - 3);
            Some ([tab (drop_bit 2 a),
                   tab (or (push_bit 4 (and a 0x03)) (drop_bit 4 b)),
                   tab (or (push_bit 2 (and b 0x0f)) (drop_bit 6 c)),
                   tab (and c 0x3f)] @ w) }
        | _ \<Rightarrow> None)
      else if ilen = 0 then Some [0]
      else if ilen = 1 then (case inp of
          a # r \<Rightarrow> Some [tab (drop_bit 2 a), tab (push_bit 4 (and a 0x03)), 0x3d, 0x3d, 0]
        | _ \<Rightarrow> None)
      else (case inp of
          a # b # r \<Rightarrow> Some [tab (drop_bit 2 a), tab (or (push_bit 4 (and a 0x03)) (drop_bit 4 b)),
                             tab (push_bit 2 (and b 0x0f)), 0x3d, 0]
        | _ \<Rightarrow> None))"

declare a2base64_loop.simps [simp del]

text \<open>\<open>int convlen\<close> overflows for an input of more than about 1.6 GB: undefined.\<close>

definition a2base64 :: "byte list \<Rightarrow> nat \<Rightarrow> byte list \<Rightarrow> int \<Rightarrow> (int \<times> byte list) option" where
  "a2base64 inp ilen out olen =
     (let convlen = int ((ilen + 2) div 3 * 4) in
      if convlen \<ge> 2 ^ 31 then None
      else if convlen \<ge> olen then Some (-1, out)
      else do {
        w \<leftarrow> a2base64_loop inp ilen;
        out' \<leftarrow> store out 0 w;
        Some (convlen, out') })"

text \<open>One character: \<open>None\<close> where \<open>base64dec\<close> and \<open>b64tos30\<close> return -1 because of it.\<close>

definition b64_value :: "byte \<Rightarrow> byte option" where
  "b64_value c =
     (let b = c - B64CMIN in
      if b > B64CMAX - B64CMIN then None
      else let b = base64rev ! unat b - B64BASE - 1 in
        if sint b < 0 then None else Some b)"

text \<open>
  The loop of \<open>base64dec\<close>: \<open>t\<close> holds the values read of the current group, so \<open>i\<close> is its
  length.
\<close>

fun base64dec_loop ::
    "byte list \<Rightarrow> nat \<Rightarrow> byte list \<Rightarrow> nat \<Rightarrow> byte list \<Rightarrow> nat \<Rightarrow> (int \<times> byte list) option" where
  "base64dec_loop inp ilen t pad out convlen =
     (if ilen = 0 then Some (int convlen, out) else (case inp of
        [] \<Rightarrow> None
      | c # r \<Rightarrow> (case b64_value c of
          None \<Rightarrow> Some (-1, out)
        | Some b \<Rightarrow>
            if pad \<noteq> 0 \<and> b \<noteq> B64PADV then Some (-1, out)
            else if pad \<noteq> 0 \<and> length t < 2 then Some (-1, out)
            else
              let pad = (if b = B64PADV then pad + 1 else pad); t = t @ [b] in
              if length t = 4 then do {
                out \<leftarrow> store out convlen
                  [push_bit 2 (t ! 0) + drop_bit 4 (t ! 1),
                   push_bit 4 (t ! 1) + drop_bit 2 (t ! 2),
                   push_bit 6 (t ! 2) + t ! 3];
                base64dec_loop r (ilen - 1) [] 0 out (convlen + (3 - pad)) }
              else base64dec_loop r (ilen - 1) t pad out convlen)))"

declare base64dec_loop.simps [simp del]

text \<open>For \<open>ilen = 0\<close> the length check reads \<open>in[ilen - 1]\<close>, which is not a byte of the input.\<close>

definition base64dec :: "byte list \<Rightarrow> nat \<Rightarrow> byte list \<Rightarrow> nat \<Rightarrow> (int \<times> byte list) option" where
  "base64dec inp ilen out olen =
     (if ilen mod 4 \<noteq> 0 then Some (-1, out)
      else if ilen = 0 then None
      else do {
        c1 \<leftarrow> byte_at inp (ilen - 1);
        c2 \<leftarrow> byte_at inp (ilen - 2);
        if olen < ilen div 4 * 3 - (if c1 = 0x3d then 1 else 0) - (if c2 = 0x3d then 1 else 0)
        then Some (-2, out)
        else base64dec_loop inp ilen [] 0 out 0 })"

text \<open>Five characters for the low 30 bits of an integer, the highest first.\<close>

fun s30tob64_loop :: "nat \<Rightarrow> u32 \<Rightarrow> byte list" where
  "s30tob64_loop 0 inp = []"
| "s30tob64_loop (Suc n) inp =
     base64tab ! unat (and (drop_bit 24 inp) 0x3f) # s30tob64_loop n (push_bit 6 inp)"

definition s30tob64 :: "u32 \<Rightarrow> byte list \<Rightarrow> byte list option" where
  "s30tob64 inp out = store out 0 (s30tob64_loop 5 inp @ [0])"

fun b64tos30_loop :: "nat \<Rightarrow> byte list \<Rightarrow> u32 \<Rightarrow> int option" where
  "b64tos30_loop 0 inp out = Some (sint out)"
| "b64tos30_loop (Suc n) [] out = None"
| "b64tos30_loop (Suc n) (c # r) out = (case b64_value c of
       None \<Rightarrow> Some (-1)
     | Some b \<Rightarrow> if b = B64PADV then Some (-1)
                else b64tos30_loop n r (push_bit 6 out + ucast b))"

definition b64tos30 :: "byte list \<Rightarrow> int option" where
  "b64tos30 inp = b64tos30_loop 5 inp 0"

subsection \<open>Sextets of bits\<close>

text \<open>Three bytes are four values of six bits, and these give the bytes back.\<close>

lemma and_masks:
  "and a (0x03 :: byte) = take_bit 2 a" "and a (0x0f :: byte) = take_bit 4 a" "and a (0x3f :: byte) = take_bit 6 a"
  by (simp_all add: take_bit_eq_mask mask_eq_exp_minus_1)

lemma Suc_Suc_minus_2: "2 \<le> n \<Longrightarrow> Suc (Suc (n - 2)) = n" by simp
lemma sextets_0: "push_bit 2 (drop_bit 2 a) + drop_bit 4 (or (push_bit 4 (and a 0x03)) (drop_bit 4 b)) = (a :: byte)"
  unfolding and_masks
  by (subst disjunctive_add) (auto simp: bit_simps Suc_Suc_minus_2 intro!: bit_eqI)

lemma sextets_1: "push_bit 4 (or (push_bit 4 (and a 0x03)) (drop_bit 4 b)) + drop_bit 2 (or (push_bit 2 (and b 0x0f)) (drop_bit 6 c)) = (b :: byte)"
  unfolding and_masks
  by (subst disjunctive_add) (auto simp: bit_simps intro!: bit_eqI)

lemma sextets_2: "push_bit 6 (or (push_bit 2 (and b 0x0f)) (drop_bit 6 c)) + and c 0x3f = (c :: byte)"
  unfolding and_masks
  by (subst disjunctive_add) (auto simp: bit_simps intro!: bit_eqI)

lemma less_64: "(\<And>n. bit s n \<Longrightarrow> n < 6) \<Longrightarrow> s < (64 :: byte)"
proof -
  assume "\<And>n. bit s n \<Longrightarrow> n < 6"
  then have "take_bit 6 s = s" by (auto simp: bit_simps intro!: bit_eqI)
  then have "unat s = take_bit 6 (unat s)" by (metis unsigned_take_bit_eq)
  moreover have "take_bit 6 (unat s) < 2 ^ 6" by (rule take_bit_nat_less_exp)
  ultimately show ?thesis by (simp add: word_less_nat_alt)
qed

lemma bit_byte: "bit (a :: byte) n \<Longrightarrow> n < 8"
  using bit_imp_le_length [of a n] by simp

lemma sextets_less: "drop_bit 2 (a :: byte) < 64" "or (push_bit 4 (and a 0x03)) (drop_bit 4 b) < (64 :: byte)"
  "or (push_bit 2 (and b 0x0f)) (drop_bit 6 c) < (64 :: byte)" "and c 0x3f < (64 :: byte)"
  unfolding and_masks
  by (rule less_64; fastforce simp: bit_simps dest: bit_byte)+

lemma sextets_less_0: "push_bit 4 (and a 0x03) < (64 :: byte)" "push_bit 2 (and a 0x0f) < (64 :: byte)"
 using sextets_less(2)[of a 0] sextets_less(3)[of a 0] by simp_all

lemma tab_values: "list_all (\<lambda>n. b64_value (tab (word_of_nat n)) = Some (word_of_nat n)) [0..<64]"
  by code_simp

lemma b64_value_tab: "s < 64 \<Longrightarrow> b64_value (tab s) = Some s"
proof -
  assume "s < 64"
  then have u: "unat s < 64" by (simp add: word_less_nat_alt)
  have "b64_value (tab (word_of_nat n)) = Some (word_of_nat n)" if "n < 64" for n
    using tab_values that unfolding list_all_iff by simp
  from this [OF u] show ?thesis by simp
qed

lemma pad_value: "b64_value 0x3d = Some B64PADV"
  by code_simp

subsection \<open>Encoding\<close>

text \<open>The text of RFC 1421 for a sequence of bytes.\<close>

fun b64_text :: "byte list \<Rightarrow> byte list" where
  "b64_text [] = []"
| "b64_text [a] = [tab (drop_bit 2 a), tab (push_bit 4 (and a 0x03)), 0x3d, 0x3d]"
| "b64_text [a, b] = [tab (drop_bit 2 a), tab (or (push_bit 4 (and a 0x03)) (drop_bit 4 b)),
                      tab (push_bit 2 (and b 0x0f)), 0x3d]"
| "b64_text (a # b # c # r) =
     tab (drop_bit 2 a) # tab (or (push_bit 4 (and a 0x03)) (drop_bit 4 b)) #
     tab (or (push_bit 2 (and b 0x0f)) (drop_bit 6 c)) # tab (and c 0x3f) # b64_text r"

lemma length_b64_text: "length (b64_text xs) = (length xs + 2) div 3 * 4"
proof (induction xs rule: b64_text.induct)
  case (4 a b c xs)
  have "(length (a # b # c # xs) + 2) div 3 = ((length xs + 2) + 3) div 3"
    by (rule arg_cong [where f = "\<lambda>n. n div 3"]) simp
  also have "\<dots> = (length xs + 2) div 3 + 1" by (rule div_add_self2) simp
  finally show ?case using 4 by (simp only: b64_text.simps list.size add_mult_distrib)
qed simp_all

lemma a2base64_loop_text: "a2base64_loop (xs @ r) (length xs) = Some (b64_text xs @ [0])"
proof (induction xs rule: b64_text.induct)
  case (4 a b c xs)
  then show ?case by (subst a2base64_loop.simps) simp
qed (subst a2base64_loop.simps, simp)+

lemma a2base64_spec:
  assumes "int (length (b64_text xs)) < 2 ^ 31" "olen \<le> int (length out)"
  shows "a2base64 (xs @ r) (length xs) out olen =
    (if int (length (b64_text xs)) < olen
     then Some (int (length (b64_text xs)), b64_text xs @ 0 # drop (length (b64_text xs) + 1) out)
     else Some (-1, out))"
proof -
  have "int (length (b64_text xs)) < olen \<Longrightarrow>
      store out 0 (b64_text xs @ [0]) = Some (b64_text xs @ 0 # drop (length (b64_text xs) + 1) out)"
    using assms(2) by (simp add: store_def memcpy_def)
  then show ?thesis
    using assms unfolding a2base64_def length_b64_text [symmetric] Let_def a2base64_loop_text
    by simp
qed

subsection \<open>Decoding\<close>

lemma dec_step:
  "b64_value c = Some b \<Longrightarrow> b \<noteq> B64PADV \<Longrightarrow> length t < 3 \<Longrightarrow>
   base64dec_loop (c # r) (Suc n) t 0 out k = base64dec_loop r n (t @ [b]) 0 out k"
  by (subst base64dec_loop.simps) simp

lemma dec_step_pad:
  "pad = 0 \<or> 2 \<le> length t \<Longrightarrow> length t < 3 \<Longrightarrow>
   base64dec_loop (0x3d # r) (Suc n) t pad out k = base64dec_loop r n (t @ [B64PADV]) (Suc pad) out k"
  by (subst base64dec_loop.simps) (auto simp: pad_value)

lemma dec_group:
  "b64_value c = Some b \<Longrightarrow> (b \<noteq> B64PADV \<and> pad = 0 \<or> b = B64PADV) \<Longrightarrow>
   base64dec_loop (c # r) (Suc n) [t0, t1, t2] pad out k = do {
     out \<leftarrow> store out k [push_bit 2 t0 + drop_bit 4 t1, push_bit 4 t1 + drop_bit 2 t2, push_bit 6 t2 + b];
     base64dec_loop r n [] 0 out (k + (3 - (if b = B64PADV then Suc pad else pad))) }"
  by (subst base64dec_loop.simps) (auto simp: eval_nat_numeral)

lemma not_pad: "s < 64 \<Longrightarrow> s \<noteq> B64PADV"
  by (auto simp: B64PADV_def)

lemma dec_group_4:
  assumes "s0 < 64" "s1 < 64" "s2 < 64" "s3 < 64"
  shows "base64dec_loop (tab s0 # tab s1 # tab s2 # tab s3 # r) (Suc (Suc (Suc (Suc n)))) [] 0 out k = do {
     out \<leftarrow> store out k [push_bit 2 s0 + drop_bit 4 s1, push_bit 4 s1 + drop_bit 2 s2, push_bit 6 s2 + s3];
     base64dec_loop r n [] 0 out (k + 3) }"
  using assms by (simp add: dec_step dec_group b64_value_tab not_pad)

lemma dec_group_3:
  assumes "s0 < 64" "s1 < 64" "s2 < 64"
  shows "base64dec_loop (tab s0 # tab s1 # tab s2 # 0x3d # r) (Suc (Suc (Suc (Suc n)))) [] 0 out k = do {
     out \<leftarrow> store out k [push_bit 2 s0 + drop_bit 4 s1, push_bit 4 s1 + drop_bit 2 s2, push_bit 6 s2 + B64PADV];
     base64dec_loop r n [] 0 out (k + 2) }"
  using assms dec_group [OF pad_value, of 0 r n s0 s1 s2 out k]
  by (simp add: dec_step b64_value_tab not_pad)

lemma dec_group_2:
  assumes "s0 < 64" "s1 < 64"
  shows "base64dec_loop (tab s0 # tab s1 # 0x3d # 0x3d # r) (Suc (Suc (Suc (Suc n)))) [] 0 out k = do {
     out \<leftarrow> store out k [push_bit 2 s0 + drop_bit 4 s1, push_bit 4 s1 + drop_bit 2 B64PADV, push_bit 6 B64PADV + B64PADV];
     base64dec_loop r n [] 0 out (k + 1) }"
  using assms dec_group [OF pad_value, of 1 r n s0 s1 B64PADV out k]
  by (simp add: dec_step dec_step_pad b64_value_tab not_pad)

text \<open>
  What the loop leaves in the output for the text of \<open>xs\<close>: the bytes, and nothing beyond the
  last group of three. A group that does not fit is a write past the end.
\<close>

definition decodes_to :: "(int \<times> byte list) option \<Rightarrow> byte list \<Rightarrow> nat \<Rightarrow> byte list \<Rightarrow> nat \<Rightarrow> bool" where
  "decodes_to res out k xs need \<longleftrightarrow>
     (if k + need \<le> length out
      then \<exists>out'. res = Some (int (k + length xs), out') \<and> take (k + length xs) out' = take k out @ xs
             \<and> length out' = length out \<and> drop (k + need) out' = drop (k + need) out
      else res = None)"

lemma store_3: "store out k [x, y, z] = (if k + 3 \<le> length out then Some (memcpy out k [x, y, z]) else None)"
  by (simp add: store_def eval_nat_numeral)

lemma take_memcpy: "k + length w \<le> length out \<Longrightarrow> take (k + length w) (memcpy out k w) = take k out @ w"
  by (simp add: memcpy_def)

lemma drop_memcpy: "k + length w \<le> n \<Longrightarrow> k + length w \<le> length out \<Longrightarrow> drop n (memcpy out k w) = drop n out"
  by (simp add: memcpy_def)

lemma dec_end: "base64dec_loop r 0 t pad out k = Some (int k, out)"
  by (subst base64dec_loop.simps) simp

lemma decodes_to_step:
  assumes fits: "k + 3 \<le> length out" and out1: "length out1 = length out" "take (k + 3) out1 = take k out @ ys"
    "\<And>m. drop (k + 3 + m) out1 = drop (k + 3 + m) out"
    and ys: "length ys = 3" and rest: "decodes_to res out1 (k + 3) xs need"
  shows "decodes_to res out k (ys @ xs) (3 + need)"
proof (cases "k + 3 + need \<le> length out")
  case True
  then obtain out' where o: "res = Some (int (k + 3 + length xs), out')"
    "take (k + 3 + length xs) out' = take (k + 3) out1 @ xs"
    "length out' = length out1" "drop (k + 3 + need) out' = drop (k + 3 + need) out1"
    using rest out1(1) unfolding decodes_to_def by auto
  have e: "k + length (ys @ xs) = k + 3 + length xs" "k + (3 + need) = k + 3 + need"
    using ys by simp_all
  show ?thesis unfolding decodes_to_def e using True o out1 by simp
next
  case False
  then show ?thesis using rest out1(1) by (simp add: decodes_to_def add.assoc)
qed

lemma base64dec_loop_text:
  "k \<le> length out \<Longrightarrow> decodes_to (base64dec_loop (b64_text xs @ r) (length (b64_text xs)) [] 0 out k) out k xs ((length xs + 2) div 3 * 3)"
proof (induction xs arbitrary: out k rule: b64_text.induct)
  case 1
  then show ?case by (simp add: decodes_to_def dec_end)
next
  case (2 a)
  have "take (Suc k) (memcpy out k [a, y, z]) = take k out @ [a]" if "k + 3 \<le> length out" for y z
    using that by (simp add: memcpy_def)
  then show ?case
    using dec_group_2 [OF sextets_less(1) sextets_less_0(1), of a a r 0 out k] sextets_0 [of a 0]
    by (simp add: decodes_to_def store_3 dec_end drop_memcpy)
next
  case (3 a b)
  have "take (Suc (Suc k)) (memcpy out k [a, b, z]) = take k out @ [a, b]" if "k + 3 \<le> length out" for z
    using that by (simp add: memcpy_def)
  then show ?case
    using dec_group_3 [OF sextets_less(1,2) sextets_less_0(2), of a a b b r 0 out k] sextets_0 [of a b] sextets_1 [of a b 0]
    by (simp add: decodes_to_def store_3 dec_end drop_memcpy)
next
  case (4 a b c xs)
  let ?out = "memcpy out k [a, b, c]"
  let ?need = "(length xs + 2) div 3 * 3"
  have need: "(length (a # b # c # xs) + 2) div 3 * 3 = 3 + ?need"
  proof -
    have "(length (a # b # c # xs) + 2) div 3 = ((length xs + 2) + 3) div 3"
      by (rule arg_cong [where f = "\<lambda>n. n div 3"]) simp
    also have "\<dots> = (length xs + 2) div 3 + 1" by (rule div_add_self2) simp
    finally show ?thesis by simp
  qed
  have step: "base64dec_loop (b64_text (a # b # c # xs) @ r) (length (b64_text (a # b # c # xs))) [] 0 out k =
      (if k + 3 \<le> length out
       then base64dec_loop (b64_text xs @ r) (length (b64_text xs)) [] 0 ?out (k + 3) else None)"
    using dec_group_4 [OF sextets_less(1-4), of a a b b c c "b64_text xs @ r" "length (b64_text xs)" out k]
      sextets_0 [of a b] sextets_1 [of a b c] sextets_2 [of b c]
    by (simp add: store_3)
  show ?case
  proof (cases "k + 3 \<le> length out")
    case True
    have "take (k + 3) ?out = take k out @ [a, b, c]" "drop (k + 3 + m) ?out = drop (k + 3 + m) out" for m
      using True by (simp_all add: memcpy_def numeral_3_eq_3 add.commute)
    then have "decodes_to (base64dec_loop (b64_text xs @ r) (length (b64_text xs)) [] 0 ?out (k + 3))
        out k ([a, b, c] @ xs) (3 + ?need)"
      using True by (intro decodes_to_step [OF True _ _ _ _ 4(1)]) simp_all
    then show ?thesis unfolding step need using True by simp
  next
    case False
    then show ?thesis unfolding step need decodes_to_def by simp
  qed
qed

lemma b64_text_padding:
  "xs \<noteq> [] \<Longrightarrow> 4 \<le> length (b64_text xs) \<and>
   (length xs mod 3 \<noteq> 0 \<longrightarrow> b64_text xs ! (length (b64_text xs) - 1) = 0x3d) \<and>
   (length xs mod 3 = 1 \<longrightarrow> b64_text xs ! (length (b64_text xs) - 2) = 0x3d)"
proof (induction xs rule: b64_text.induct)
  case (4 a b c xs)
  have m: "length (a # b # c # xs) mod 3 = length xs mod 3"
    by (simp add: mod_add_self2 flip: numeral_3_eq_3 add_Suc_right) presburger
  show ?case
  proof (cases "xs = []")
    case False
    then have "4 \<le> length (b64_text xs)" using 4 by simp
    moreover define k where "k = length (b64_text xs) - 4"
    ultimately have "length (b64_text xs) = Suc (Suc (Suc (Suc k)))" by linarith
    then show ?thesis using 4 False unfolding m by simp
  qed simp
qed simp_all

lemma base64dec_text:
  assumes "xs \<noteq> []" "length xs \<le> olen"
  shows "decodes_to (base64dec (b64_text xs @ r) (length (b64_text xs)) out olen) out 0 xs ((length xs + 2) div 3 * 3)"
proof -
  let ?n = "length (b64_text xs)"
  have p: "4 \<le> ?n" and c: "length xs mod 3 \<noteq> 0 \<longrightarrow> b64_text xs ! (?n - 1) = 0x3d"
    "length xs mod 3 = 1 \<longrightarrow> b64_text xs ! (?n - 2) = 0x3d"
    using b64_text_padding [OF assms(1)] by simp_all
  have b: "byte_at (b64_text xs @ r) (?n - 1) = Some (b64_text xs ! (?n - 1))"
    "byte_at (b64_text xs @ r) (?n - 2) = Some (b64_text xs ! (?n - 2))"
    using p by (auto simp: byte_at_def nth_append)
  have g: "n mod 3 = 0 \<and> (n + 2) div 3 * 3 = n \<or> n mod 3 = 1 \<and> (n + 2) div 3 * 3 = n + 2 \<or>
      n mod 3 = 2 \<and> (n + 2) div 3 * 3 = n + 1" for n :: nat by presburger
  have fits: "\<not> olen < (length xs + 2) div 3 * 3 - (if b64_text xs ! (?n - 1) = 0x3d then 1 else 0)
      - (if b64_text xs ! (?n - 2) = 0x3d then 1 else 0)"
    using g [of "length xs"]
  proof (elim disjE conjE)
    assume m: "length xs mod 3 = 1" "(length xs + 2) div 3 * 3 = length xs + 2"
    then show ?thesis using c assms(2) unfolding m(2) by simp
  next
    assume m: "length xs mod 3 = 2" "(length xs + 2) div 3 * 3 = length xs + 1"
    then show ?thesis using c assms(2) unfolding m(2) by simp
  next
    assume m: "length xs mod 3 = 0" "(length xs + 2) div 3 * 3 = length xs"
    then show ?thesis using assms(2) unfolding m(2) by simp
  qed
  have "?n mod 4 = 0" "?n div 4 = (length xs + 2) div 3" by (simp_all add: length_b64_text)
  then have "base64dec (b64_text xs @ r) ?n out olen = base64dec_loop (b64_text xs @ r) ?n [] 0 out 0"
    unfolding base64dec_def using p b fits by auto
  then show ?thesis using base64dec_loop_text [of 0 out xs r] by simp
qed

text \<open>C31: what \<open>a2base64\<close> writes, \<open>base64dec\<close> reads back, if the output has room for whole groups
  of three bytes. The length check asks for less: given exactly as many bytes as the text stands
  for, the decoder writes past the end of the output whenever the text ends in padding.
\<close>

theorem base64_roundtrip:
  assumes "xs \<noteq> []" "length xs \<le> olen" "int (length (b64_text xs)) < 2 ^ 31" "length (b64_text xs) < length buf"
  shows "\<exists>buf'. a2base64 xs (length xs) buf (int (length buf)) = Some (int (length (b64_text xs)), buf') \<and>
    (let dec = base64dec buf' (length (b64_text xs)) out olen in
      if (length xs + 2) div 3 * 3 \<le> length out
      then \<exists>out'. dec = Some (int (length xs), out') \<and> take (length xs) out' = xs
      else dec = None)"
proof -
  obtain buf' where "a2base64 xs (length xs) buf (int (length buf)) = Some (int (length (b64_text xs)), buf')"
    "buf' = b64_text xs @ 0 # drop (length (b64_text xs) + 1) buf"
    using a2base64_spec [of xs "int (length buf)" buf "[]"] assms(3,4) by simp
  moreover from this have "decodes_to (base64dec buf' (length (b64_text xs)) out olen) out 0 xs ((length xs + 2) div 3 * 3)"
    using base64dec_text [OF assms(1,2)] by simp
  ultimately show ?thesis by (auto simp: decodes_to_def Let_def split: if_splits)
qed

subsection \<open>30-bit integers\<close>

lemma base64tab_value: "d < (64 :: u32) \<Longrightarrow> b64_value (base64tab ! unat d) = Some (ucast d)"
proof -
  assume "d < 64"
  then have "unat d < 64" by (simp add: word_less_nat_alt)
  then have "(ucast d :: byte) < 64" "unat (ucast d :: byte) = unat d"
    by (simp_all add: word_less_nat_alt unsigned_ucast_eq take_bit_eq_mod)
  then show ?thesis using b64_value_tab [of "ucast d"] by (simp add: tab_def)
qed

lemma join_sextet: "push_bit 6 (take_bit m (drop_bit 6 y)) + take_bit 6 y = take_bit (m + 6) (y :: u32)"
proof -
  have s: "6 \<le> n \<Longrightarrow> 6 + (n - 6) = n" for n :: nat by simp
  show ?thesis by (subst disjunctive_add) (auto simp: bit_simps s intro!: bit_eqI)
qed

lemma take6_less: "take_bit 6 (y :: u32) < 64"
  using take_bit_nat_less_exp [of 6 "unat y"] by (simp add: word_less_nat_alt unsigned_take_bit_eq)

lemma and_63: "and y (0x3f :: u32) = take_bit 6 y"
  by (simp add: take_bit_eq_mask mask_eq_exp_minus_1)

lemma s30_digit: "k \<le> 24 \<Longrightarrow> and (drop_bit 24 (push_bit k x)) 0x3f = take_bit 6 (drop_bit (24 - k) (x :: u32))"
  unfolding and_63 by (auto simp: bit_simps intro!: bit_eqI)

lemma s30_step:
  "b64tos30_loop (Suc n) (base64tab ! unat (take_bit 6 y) # r) (take_bit m (drop_bit 6 y)) =
   b64tos30_loop n r (take_bit (m + 6) y)"
proof -
  have "(ucast (take_bit 6 y) :: byte) < 64"
    using take6_less [of y] by (simp add: word_less_nat_alt unsigned_ucast_eq take_bit_eq_mod)
  moreover have "ucast (ucast (take_bit 6 y) :: byte) = take_bit 6 y"
    by (auto simp: bit_simps intro!: bit_eqI)
  ultimately show ?thesis
    using base64tab_value [OF take6_less, of y] not_pad join_sextet [of m y] by simp
qed

lemma s30tob64_loop_digits:
  "s30tob64_loop 5 x = map (\<lambda>k. base64tab ! unat (take_bit 6 (drop_bit k x))) [24, 18, 12, 6, 0]"
  using s30_digit [of 0 x] s30_digit [of 6 x] s30_digit [of 12 x] s30_digit [of 18 x] s30_digit [of 24 x]
  by (simp add: eval_nat_numeral)

lemma b64tos30_digits: "b64tos30 (s30tob64_loop 5 x @ r) = Some (uint (take_bit 30 x))"
proof -
  have "b64tos30 (s30tob64_loop 5 x @ r) = b64tos30_loop 0 r (take_bit 30 x)"
    using s30_step [of 4 "drop_bit 24 x" _ 0] s30_step [of 3 "drop_bit 18 x" _ 6]
      s30_step [of 2 "drop_bit 12 x" _ 12] s30_step [of 1 "drop_bit 6 x" _ 18] s30_step [of 0 x _ 24]
    unfolding b64tos30_def s30tob64_loop_digits by (simp add: eval_nat_numeral)
  moreover have "sint (take_bit 30 x) = uint (take_bit 30 x)"
    by (auto simp: sint_uint unsigned_take_bit_eq signed_take_bit_take_bit)
  ultimately show ?thesis by simp
qed

text \<open>the five characters of \<open>s30tob64\<close> give back the low 30 bits of the number; the text is
  terminated and nothing after it is touched.
\<close>

lemma s30_roundtrip:
  assumes "6 \<le> length out"
  shows "\<exists>out'. s30tob64 x out = Some out' \<and> b64tos30 out' = Some (uint x mod 2 ^ 30) \<and>
           out' ! 5 = 0 \<and> drop 6 out' = drop 6 out \<and> length out' = length out"
proof -
  have l: "length (s30tob64_loop 5 x) = 5" by (simp add: s30tob64_loop_digits)
  then have "s30tob64 x out = Some (s30tob64_loop 5 x @ 0 # drop 6 out)"
    using assms by (simp add: s30tob64_def store_def memcpy_def)
  moreover have "b64tos30 (s30tob64_loop 5 x @ 0 # drop 6 out) = Some (uint x mod 2 ^ 30)"
    unfolding b64tos30_digits unsigned_take_bit_eq by (simp add: take_bit_int_def)
  ultimately show ?thesis using l assms by (simp add: nth_append)
qed

section \<open>Shadowsocks-libev\<close>

definition map2 :: "byte list" where
  "map2 = [
   0xff, 0xff, 0x3e, 0xff, 0xff, 0x34, 0x35, 0x36, 0x37, 0x38, 0x39, 0x3a, 0x3b, 0x3c, 0x3d, 0xff,
   0xff, 0xff, 0xff, 0xff, 0xff, 0xff, 0x00, 0x01, 0x02, 0x03, 0x04, 0x05, 0x06, 0x07, 0x08, 0x09,
   0x0a, 0x0b, 0x0c, 0x0d, 0x0e, 0x0f, 0x10, 0x11, 0x12, 0x13, 0x14, 0x15, 0x16, 0x17, 0x18, 0x19,
   0xff, 0xff, 0xff, 0xff, 0x3f, 0xff, 0x1a, 0x1b, 0x1c, 0x1d, 0x1e, 0x1f, 0x20, 0x21, 0x22, 0x23,
   0x24, 0x25, 0x26, 0x27, 0x28, 0x29, 0x2a, 0x2b, 0x2c, 0x2d, 0x2e, 0x2f, 0x30, 0x31, 0x32, 0x33]"

definition b64 :: "byte list" where
  "b64 = [
   0x41, 0x42, 0x43, 0x44, 0x45, 0x46, 0x47, 0x48, 0x49, 0x4a, 0x4b, 0x4c, 0x4d, 0x4e, 0x4f, 0x50,
   0x51, 0x52, 0x53, 0x54, 0x55, 0x56, 0x57, 0x58, 0x59, 0x5a, 0x61, 0x62, 0x63, 0x64, 0x65, 0x66,
   0x67, 0x68, 0x69, 0x6a, 0x6b, 0x6c, 0x6d, 0x6e, 0x6f, 0x70, 0x71, 0x72, 0x73, 0x74, 0x75, 0x76,
   0x77, 0x78, 0x79, 0x7a, 0x30, 0x31, 0x32, 0x33, 0x34, 0x35, 0x36, 0x37, 0x38, 0x39, 0x2d, 0x5f, 0]"

text \<open>
  \<open>base64_decode\<close>: \<open>w\<close> are the bytes written so far. \<open>in[i] - 43\<close> is taken as an \<open>unsigned int\<close>;
  it is below the size of \<open>map2\<close> exactly when the difference of the bytes is. \<open>v\<close> is an \<open>int\<close> the
  code lets overflow (32 bits are kept), and only its low 12 bits are ever read.
\<close>

fun ss_decode_loop :: "byte list \<Rightarrow> nat \<Rightarrow> u32 \<Rightarrow> byte list \<Rightarrow> int \<Rightarrow> (int \<times> byte list) option" where
  "ss_decode_loop [] i v w out_size = None"
| "ss_decode_loop (c # r) i v w out_size =
     (if c = 0 \<or> c = 0x3d then Some (int (length w), w)
      else
        let index = unat (c - 43) in
        if index \<ge> length map2 \<or> map2 ! index = 0xff then Some (-1, w)
        else
          let v = push_bit 6 v + ucast (map2 ! index);
              w = (if i mod 4 \<noteq> 0 \<and> int (length w) < out_size
                   then w @ [ucast (drop_bit (6 - 2 * (i mod 4)) v)] else w)
          in ss_decode_loop r (i + 1) v w out_size)"

definition ss_base64_decode :: "byte list \<Rightarrow> byte list \<Rightarrow> int \<Rightarrow> (int \<times> byte list) option" where
  "ss_base64_decode out inp out_size = do {
     (ret, w) \<leftarrow> ss_decode_loop inp 0 0 [] out_size;
     out' \<leftarrow> store out 0 w;
     Some (ret, out') }"

text \<open>
  \<open>base64_encode\<close>: the inner \<open>do\<close> loop emits characters while more than six bits are waiting, or
  any at all after the last byte.
\<close>

function ss_emit :: "bool \<Rightarrow> u32 \<Rightarrow> int \<Rightarrow> byte list \<Rightarrow> byte list \<times> int" where
  "ss_emit last_byte i_bits i_shift w =
     (let w = w @ [b64 ! unat (and (drop_bit (nat i_shift) (push_bit 6 i_bits)) 0x3f)];
          i_shift' = i_shift - 6
      in if i_shift' > 6 \<or> last_byte \<and> i_shift' > 0 then ss_emit last_byte i_bits i_shift' w
         else (w, i_shift'))"
  by pat_completeness auto
termination by (relation "measure (\<lambda>(last_byte, i_bits, i_shift, w). nat i_shift)") auto

declare ss_emit.simps [simp del]

fun ss_encode_loop :: "byte list \<Rightarrow> nat \<Rightarrow> u32 \<Rightarrow> int \<Rightarrow> byte list \<Rightarrow> byte list option" where
  "ss_encode_loop inp 0 i_bits i_shift w = Some w"
| "ss_encode_loop [] (Suc n) i_bits i_shift w = None"
| "ss_encode_loop (c # r) (Suc n) i_bits i_shift w =
     (let i_bits = push_bit 8 i_bits + ucast c;
          (w, i_shift) = ss_emit (n = 0) i_bits (i_shift + 8) w
      in ss_encode_loop r n i_bits i_shift w)"

function ss_pad :: "byte list \<Rightarrow> byte list" where
  "ss_pad w = (if length w mod 4 \<noteq> 0 then ss_pad (w @ [0x3d]) else w)"
  by pat_completeness auto
termination by (relation "measure (\<lambda>w. 3 * length w mod 4)") (auto, presburger)

declare ss_pad.simps [simp del]

definition BASE64_SIZE :: "int \<Rightarrow> int" where
  "BASE64_SIZE x = (x + 2) div 3 * 4 + 1"

text \<open>The result is \<open>False\<close> for \<open>NULL\<close>; \<open>UINT_MAX / 4\<close> bytes and more are refused.\<close>

definition ss_base64_encode :: "byte list \<Rightarrow> int \<Rightarrow> byte list \<Rightarrow> nat \<Rightarrow> (bool \<times> byte list) option" where
  "ss_base64_encode out out_size inp in_size =
     (if in_size \<ge> (2 ^ 32 - 1) div 4 \<or> out_size < BASE64_SIZE (int in_size) then Some (False, out)
      else do {
        w \<leftarrow> ss_encode_loop inp in_size 0 0 [];
        out' \<leftarrow> store out 0 (ss_pad w @ [0]);
        Some (True, out') })"

subsection \<open>Encoding and decoding\<close>

text \<open>The values of six bits that stand for a sequence of bytes, without padding.\<close>

definition sx0 :: "byte \<Rightarrow> byte" where "sx0 a = drop_bit 2 a"
definition sx1 :: "byte \<Rightarrow> byte \<Rightarrow> byte" where "sx1 a b = or (push_bit 4 (and a 0x03)) (drop_bit 4 b)"
definition sx2 :: "byte \<Rightarrow> byte \<Rightarrow> byte" where "sx2 b c = or (push_bit 2 (and b 0x0f)) (drop_bit 6 c)"
definition sx3 :: "byte \<Rightarrow> byte" where "sx3 c = and c 0x3f"

lemmas sx_defs = sx0_def sx1_def sx2_def sx3_def

lemma sx_less: "sx0 a < 64" "sx1 a b < 64" "sx2 b c < 64" "sx3 c < 64"
  unfolding sx_defs by (rule sextets_less)+

fun sextets :: "byte list \<Rightarrow> byte list" where
  "sextets [] = []"
| "sextets [a] = [sx0 a, sx1 a 0]"
| "sextets [a, b] = [sx0 a, sx1 a b, sx2 b 0]"
| "sextets (a # b # c # r) = [sx0 a, sx1 a b, sx2 b c, sx3 c] @ sextets r"

lemma bit_shift_in: "bit (push_bit 8 v + ucast (c :: byte) :: u32) n = (n < 32 \<and> (if n < 8 then bit c n else bit v (n - 8)))"
  by (subst disjunctive_add) (auto simp: bit_simps dest: bit_imp_le_length)

text \<open>What one turn of the inner loop emits: the six bits below position \<open>s\<close>.\<close>

lemma bit_byte_ge: "8 \<le> n \<Longrightarrow> \<not> bit (a :: byte) n"
  using bit_byte by (meson leD)

definition six :: "u32 \<Rightarrow> nat \<Rightarrow> byte" where
  "six v s = ucast (and (drop_bit s (push_bit 6 v)) 0x3f)"

lemma six_index: "unat (and (drop_bit s (push_bit 6 v)) (0x3f :: u32)) = unat (six v s)"
proof -
  have "unat (take_bit 6 (drop_bit s (push_bit 6 v))) < 64" using take6_less [of "drop_bit s (push_bit 6 v)"]
   by (simp add: word_less_nat_alt)
  then show ?thesis unfolding six_def and_63 by (simp add: unsigned_ucast_eq take_bit_eq_mod)
qed

lemma bit_six: "bit (six v s) n = (n < 6 \<and> 6 \<le> s + n \<and> s + n < 32 \<and> bit v (s + n - 6))"
  unfolding six_def and_63 by (auto simp: bit_simps)

lemma six_values:
  fixes a b c :: byte and v v1 v2 v3 :: u32
  assumes v: "v1 = push_bit 8 v + ucast a" "v2 = push_bit 8 v1 + ucast b" "v3 = push_bit 8 v2 + ucast c"
  shows "six v1 8 = sx0 a" "six v1 2 = sx1 a 0" "six v2 10 = sx1 a b" "six v2 4 = sx2 b 0"
    "six v3 12 = sx2 b c" "six v3 6 = sx3 c" "six v1 14 = sx3 (ucast v)"
proof -
  have b: "n < LENGTH(8) \<Longrightarrow> n \<in> {0, 1, 2, 3, 4, 5, 6, 7}" for n by auto
  show "six v1 8 = sx0 a" "six v1 2 = sx1 a 0" "six v2 10 = sx1 a b" "six v2 4 = sx2 b 0"
    "six v3 12 = sx2 b c" "six v3 6 = sx3 c" "six v1 14 = sx3 (ucast v)"
    unfolding sx_defs and_masks
    by (rule bit_word_eqI, drule b, elim insertE emptyE; simp add: bit_six v bit_shift_in bit_simps bit_byte_ge)+
qed

lemma low_byte: "ucast (push_bit 8 v + ucast c :: u32) = (c :: byte)"
  by (rule bit_word_eqI) (auto simp: bit_ucast_iff bit_shift_in)

definition emit_chars :: "byte list \<Rightarrow> byte list" where
  "emit_chars ss = map (\<lambda>x. b64 ! unat x) ss"

lemma ss_emit_step:
  "ss_emit lastb v i w =
     (if i - 6 > 6 \<or> lastb \<and> i - 6 > 0 then ss_emit lastb v (i - 6) (w @ emit_chars [six v (nat i)])
      else (w @ emit_chars [six v (nat i)], i - 6))"
  by (subst ss_emit.simps) (simp add: Let_def six_index emit_chars_def)

lemma emit_append [simp]: "emit_chars (a @ b) = emit_chars a @ emit_chars b"
  by (simp add: emit_chars_def)

lemma ss_encode_loop_sextets:
  "(i = 0 \<or> i = 6 \<and> xs \<noteq> []) \<Longrightarrow>
   ss_encode_loop (xs @ r) (length xs) v i w =
   Some (w @ emit_chars ((if i = 6 then [sx3 (ucast v)] else []) @ sextets xs))"
proof (induction xs arbitrary: v i w rule: sextets.induct)
  case 1
  then show ?case by (simp add: emit_chars_def)
next
  case (2 a)
  note s = six_values(1,2,7) [OF refl refl refl, of v a]
  show ?case using 2 by (auto simp: ss_emit_step s emit_chars_def)
next
  case (3 a b)
  note s = six_values(1,2,7) [OF refl refl refl, of v a] six_values(3,4) [OF refl refl refl, of v a b]
  show ?case using 3 by (auto simp: ss_emit_step s emit_chars_def)
next
  case (4 a b c xs)
  note s = six_values(1,2,7) [OF refl refl refl, of v a] six_values(3,4) [OF refl refl refl, of v a b]
    six_values(5,6) [OF refl refl refl, of v a b c]
  show ?case
  proof (cases "xs = []")
    case True
    then show ?thesis using 4(2) by (auto simp: ss_emit_step s emit_chars_def)
  next
    case False
    show ?thesis using 4(2) False by (auto simp: ss_emit_step s low_byte emit_chars_def 4(1))
  qed
qed
lemma ss_encode_text: "ss_encode_loop (xs @ r) (length xs) 0 0 [] = Some (emit_chars (sextets xs))"
  using ss_encode_loop_sextets [of 0 xs r 0 "[]"] by simp

lemma length_sextets: "length (sextets xs) \<le> (length xs + 2) div 3 * 4"
proof (induction xs rule: sextets.induct)
  case (4 a b c xs)
  have "(length (a # b # c # xs) + 2) div 3 = ((length xs + 2) + 3) div 3"
    by (rule arg_cong [where f = "\<lambda>n. n div 3"]) simp
  also have "\<dots> = (length xs + 2) div 3 + 1" by (rule div_add_self2) simp
  finally show ?case using 4 by (simp add: add_mult_distrib)
qed simp_all

text \<open>The padding completes the last group of four.\<close>

lemma ss_pad_eq: "\<exists>n. ss_pad w = w @ replicate n 0x3d \<and> length (ss_pad w) = (length w + 3) div 4 * 4"
proof (induction w rule: ss_pad.induct)
  case (1 w)
  show ?case
  proof (cases "length w mod 4 = 0")
    case True
    then have "ss_pad w = w" by (subst ss_pad.simps) simp
    moreover have "(length w + 3) div 4 * 4 = length w" using True by presburger
    ultimately show ?thesis by (intro exI [of _ 0]) simp
  next
    case False
    then have e: "ss_pad w = ss_pad (w @ [0x3d])" by (subst ss_pad.simps) simp
    obtain n where n: "ss_pad (w @ [0x3d]) = (w @ [0x3d]) @ replicate n 0x3d"
      "length (ss_pad (w @ [0x3d])) = (length (w @ [0x3d :: byte]) + 3) div 4 * 4"
      using 1 False by blast
    have "(length w + 1 + 3) div 4 = (length w + 3) div 4" using False by presburger
    then show ?thesis unfolding e n using n by (intro exI [of _ "Suc n"]) simp
  qed
qed

text \<open>The decoder, one sextet at a time.\<close>

lemma map2_values: "list_all (\<lambda>n. let c = b64 ! n in c \<noteq> 0 \<and> c \<noteq> 0x3d \<and>
   unat (c - 43) < length map2 \<and> map2 ! unat (c - 43) = word_of_nat n) [0..<64]"
  by code_simp

definition ss_put :: "nat \<Rightarrow> byte \<Rightarrow> int \<Rightarrow> byte list \<Rightarrow> byte list" where
  "ss_put i x out_size w = (if i mod 4 \<noteq> 0 \<and> int (length w) < out_size then w @ [x] else w)"

lemma ss_decode_step:
  assumes "s < (64 :: byte)"
  shows "ss_decode_loop (b64 ! unat s # r) i v w n =
    (let v = push_bit 6 v + ucast s in ss_decode_loop r (i + 1) v
       (ss_put i (ucast (drop_bit (6 - 2 * (i mod 4)) v)) n w) n)"
proof -
  have u: "unat s < 64" using assms by (simp add: word_less_nat_alt)
  then have m: "b64 ! unat s \<noteq> 0" "b64 ! unat s \<noteq> 0x3d" "unat (b64 ! unat s - 43) < length map2"
    "map2 ! unat (b64 ! unat s - 43) = s"
    using map2_values unfolding list_all_iff by (auto simp: Let_def)
  have "s \<noteq> 0xff" using assms by (auto simp: word_less_nat_alt)
  then show ?thesis using m by (simp add: Let_def ss_put_def)
qed

lemma bit_sextet_in:
  fixes s :: byte
  shows "s < 64 \<Longrightarrow> bit (push_bit 6 v + ucast s :: u32) n = (n < 32 \<and> (if n < 6 then bit s n else bit v (n - 6)))"
proof -
  assume "s < 64"
  then have "unat s < 2 ^ 6" by (simp add: word_less_nat_alt)
  then have "take_bit 6 (unat s) = unat s" by (rule take_bit_nat_eq_self)
  then have "take_bit 6 s = s" by (metis unsigned_take_bit_eq word_unat_eq_iff)
  then have "\<not> bit s n" if "6 \<le> n" for n using that by (metis bit_take_bit_iff leD)
  then show ?thesis by (subst disjunctive_add) (auto simp: bit_simps dest: bit_imp_le_length)
qed

lemma sextet_bytes:
  fixes a b c :: byte and v v1 v2 v3 v4 :: u32
  assumes v: "v1 = push_bit 6 v + ucast (sx0 a)" "v2 = push_bit 6 v1 + ucast (sx1 a b)"
    "v3 = push_bit 6 v2 + ucast (sx2 b c)" "v4 = push_bit 6 v3 + ucast (sx3 c)"
  shows "ucast (drop_bit 4 v2) = a" "ucast (drop_bit 2 v3) = b" "ucast v4 = c"
proof -
  have e: "n < LENGTH(8) \<Longrightarrow> n \<in> {0, 1, 2, 3, 4, 5, 6, 7}" for n by auto
  note m = bit_sextet_in [OF sx_less(1)] bit_sextet_in [OF sx_less(2)]
    bit_sextet_in [OF sx_less(3)] bit_sextet_in [OF sx_less(4)]
  have s: "bit (sx0 a) n = bit a (n + 2)" "bit (sx1 a b) n = (4 \<le> n \<and> n < 6 \<and> bit a (n - 4) \<or> bit b (n + 4))"
    "bit (sx2 b c) n = (2 \<le> n \<and> n < 6 \<and> bit b (n - 2) \<or> bit c (n + 6))" "bit (sx3 c) n = (n < 6 \<and> bit c n)" for n
    unfolding sx_defs and_masks by (auto simp: bit_simps bit_byte_ge add.commute)
  show "ucast (drop_bit 4 v2) = a" "ucast (drop_bit 2 v3) = b" "ucast v4 = c"
    unfolding v
    by (rule bit_word_eqI, drule e, elim insertE emptyE; simp add: m s bit_simps bit_byte_ge flip: numeral_2_eq_2 numeral_3_eq_3)+
qed

lemma ss_put_take:
  "ss_put i x n (take (nat n) ys) = (if i mod 4 \<noteq> 0 then take (nat n) (ys @ [x]) else take (nat n) ys)"
  by (auto simp: ss_put_def not_less)

lemma ss_decode_end:
  "t = 0 \<or> t = 0x3d \<Longrightarrow> ss_decode_loop (t # r) i v w n = Some (int (length w), w)"
  by auto

lemma emit_chars_simps: "emit_chars [] = []" "emit_chars (s # ss) = (b64 ! unat s) # emit_chars ss"
  by (simp_all add: emit_chars_def)

lemma mod_4_cases: "i mod 4 = 0 \<Longrightarrow> (i + 1) mod 4 = 1 \<and> (i + 2) mod 4 = 2 \<and> (i + 3) mod 4 = 3 \<and> (3 + i) mod 4 = 3 \<and>
   (i + 4) mod 4 = (0 :: nat) \<and> (4 + i) mod 4 = 0"
  by presburger

lemma ss_decode_text:
  "i mod 4 = 0 \<Longrightarrow> t = 0 \<or> t = 0x3d \<Longrightarrow>
   ss_decode_loop (emit_chars (sextets xs) @ t # r) i v (take (nat n) ys) n =
   Some (int (length (take (nat n) (ys @ xs))), take (nat n) (ys @ xs))"
proof (induction xs arbitrary: i v ys rule: sextets.induct)
  case 1
  then show ?case by (simp add: emit_chars_simps ss_decode_end)
next
  case (2 a)
  note m = mod_4_cases [OF 2(1)]
  show ?case using 2 m sextet_bytes(1) [OF refl refl refl refl, of v a 0]
    by (simp add: emit_chars_simps ss_decode_step sx_less Let_def ss_put_take ss_decode_end del: ss_decode_loop.simps take_append)
next
  case (3 a b)
  note m = mod_4_cases [OF 3(1)]
  show ?case using 3 m sextet_bytes(1) [OF refl refl refl refl, of v a b] sextet_bytes(2) [OF refl refl refl refl, of v a b 0]
    by (simp add: emit_chars_simps ss_decode_step sx_less Let_def ss_put_take ss_decode_end del: ss_decode_loop.simps take_append)
next
  case (4 a b c xs)
  note m = mod_4_cases [OF 4(2)]
  show ?case using 4 m sextet_bytes(1) [OF refl refl refl refl, of v a b] sextet_bytes(2,3) [OF refl refl refl refl, of v a b c]
    by (simp add: emit_chars_simps ss_decode_step sx_less Let_def ss_put_take ss_decode_end del: ss_decode_loop.simps take_append)
qed

lemma emit_chars_length [simp]: "length (emit_chars ss) = length ss"
  by (simp add: emit_chars_def)

text \<open>what \<open>base64_encode\<close> writes into an output of \<open>BASE64_SIZE\<close> bytes is terminated, ends inside
  the output, and is decoded by \<open>base64_decode\<close> to the bytes it came from, or to as many of them
  as the decoder's output may take.
\<close>

lemma ss_base64_roundtrip:
  assumes "length xs < (2 ^ 32 - 1) div 4" "BASE64_SIZE (int (length xs)) \<le> out_size" "out_size \<le> int (length buf)"
    and "nat n \<le> length out"
  shows "\<exists>buf'. ss_base64_encode buf out_size xs (length xs) = Some (True, buf') \<and> length buf' = length buf \<and>
     drop (nat out_size) buf' = drop (nat out_size) buf \<and>
     ss_base64_decode out buf' n =
       Some (int (min (nat n) (length xs)), take (nat n) xs @ drop (min (nat n) (length xs)) out)"
proof -
  let ?t = "emit_chars (sextets xs)"
  obtain k where pad: "ss_pad ?t = ?t @ replicate k 0x3d" "length (ss_pad ?t) = (length ?t + 3) div 4 * 4"
    using ss_pad_eq by blast
  have "(length ?t + 3) div 4 \<le> (length xs + 2) div 3" using length_sextets [of xs] by simp
  then have "length (ss_pad ?t) + 1 \<le> (length xs + 2) div 3 * 4 + 1" unfolding pad(2) by simp
  moreover have "BASE64_SIZE (int (length xs)) = int ((length xs + 2) div 3 * 4 + 1)"
    by (simp add: BASE64_SIZE_def zdiv_int add.commute)
  then have "(length xs + 2) div 3 * 4 + 1 \<le> nat out_size" using assms(2) by linarith
  ultimately have fits: "length (ss_pad ?t) + 1 \<le> nat out_size" "length (ss_pad ?t) + 1 \<le> length buf"
    using assms(3) by simp_all
  define buf' where "buf' = memcpy buf 0 (ss_pad ?t @ [0])"
  have enc: "ss_base64_encode buf out_size xs (length xs) = Some (True, buf')"
    using assms(1,2) fits(2) ss_encode_text [of xs "[]"]
    by (simp add: ss_base64_encode_def store_def buf'_def)
  have keep: "length buf' = length buf" "drop (nat out_size) buf' = drop (nat out_size) buf"
    using fits drop_memcpy [of 0 "ss_pad ?t @ [0]" "nat out_size" buf] unfolding buf'_def by simp_all
  obtain c r where c: "replicate k 0x3d @ 0 # drop (length (ss_pad ?t) + 1) buf = c # r" "c = 0 \<or> c = 0x3d"
    by (cases k) auto
  have "buf' = ?t @ c # r"
    unfolding buf'_def memcpy_def c(1) [symmetric] by (simp add: pad(1))
  then have "ss_decode_loop buf' 0 0 [] n = Some (int (length (take (nat n) xs)), take (nat n) xs)"
    using ss_decode_text [of 0 c xs r 0 n "[]"] c(2) by simp
  then have "ss_base64_decode out buf' n =
      Some (int (min (nat n) (length xs)), take (nat n) xs @ drop (min (nat n) (length xs)) out)"
    using assms(4) by (simp add: ss_base64_decode_def store_def memcpy_def min.commute)
  then show ?thesis using enc keep by blast
qed

text \<open>
  Against its own comment, \<open>base64dec\<close> takes one value followed by three padding characters,
  and answers with zero bytes.
\<close>

lemma base64dec_lone_value:
  assumes "3 \<le> length out" "s < 64" "1 \<le> olen"
  shows "\<exists>out'. base64dec [tab s, 0x3d, 0x3d, 0x3d] 4 out olen = Some (0, out')"
proof -
  have "base64dec_loop [tab s, 0x3d, 0x3d, 0x3d] (Suc (Suc (Suc (Suc 0)))) [] 0 out 0 =
      Some (0, memcpy out 0 [push_bit 2 s + drop_bit 4 B64PADV, push_bit 4 B64PADV + drop_bit 2 B64PADV,
        push_bit 6 B64PADV + B64PADV])"
    using assms(1,2) dec_group [OF pad_value, of "Suc (Suc 0)" "[]" 0 s B64PADV B64PADV out 0]
    by (simp add: dec_step b64_value_tab not_pad dec_step_pad store_3 dec_end)
  moreover have "Suc (Suc (Suc (Suc 0))) = 4" by simp
  moreover have "base64dec [tab s, 0x3d, 0x3d, 0x3d] 4 out olen = base64dec_loop [tab s, 0x3d, 0x3d, 0x3d] 4 [] 0 out 0"
    using assms(3) by (simp add: base64dec_def byte_at_def)
  ultimately show ?thesis by metis
qed

section \<open>Witnesses\<close>

definition four_bytes :: "byte list" where "four_bytes = [1, 2, 3, 4]"

lemma four_bytes_simps: "length four_bytes = 4" "four_bytes \<noteq> []" "length (b64_text four_bytes) = 8"
  by (simp_all add: four_bytes_def)

lemma base64_roundtrip_witness:
  "\<exists>buf'. a2base64 four_bytes 4 (replicate 20 0) 20 = Some (8, buf') \<and>
    (\<exists>out'. base64dec buf' 8 (replicate 6 0) 4 = Some (4, out') \<and> take 4 out' = four_bytes)"
  using base64_roundtrip [of four_bytes 4 "replicate 20 0" "replicate 6 0"]
  by (simp add: four_bytes_simps Let_def)

lemma s30_roundtrip_witness:
  "\<exists>out'. s30tob64 0x40000007 (replicate 6 1) = Some out' \<and> b64tos30 out' = Some 7 \<and> out' ! 5 = 0 \<and>
     drop 6 out' = drop 6 (replicate 6 (1 :: byte)) \<and> length out' = length (replicate 6 (1 :: byte))"
  using s30_roundtrip [of "replicate 6 1" "0x40000007"] by simp

lemma ss_base64_roundtrip_witness:
  "\<exists>buf'. ss_base64_encode (replicate 9 1) 9 four_bytes 4 = Some (True, buf') \<and>
     length buf' = length (replicate 9 (1::byte)) \<and> drop (nat 9) buf' = drop (nat 9) (replicate 9 (1::byte)) \<and>
     ss_base64_decode [0, 0, 0] buf' 3 =
       Some (int (min (nat 3) 4), take (nat 3) four_bytes @ drop (min (nat 3) 4) [0, 0, 0])"
  using ss_base64_roundtrip [of four_bytes 9 "replicate 9 1" 3 "[0, 0, 0]"]
  unfolding four_bytes_simps by (simp add: BASE64_SIZE_def)

end
