(* ===== verification/Sni_Parser.thy ===== *)
theory Sni_Parser
  imports C_String "HOL-Library.Monad_Syntax"
begin

text \<open>
  Shadowsocks-libev reads the name of the wanted host out of the first packet of a proxied
  connection: from the server name extension of a TLS client hello (\<open>src/tls.c\<close>) or from the
  \<open>Host:\<close> header of an HTTP request (\<open>src/http.c\<close>).

  The packet is the array \<open>d\<close> of its bytes; a pointer into it is an offset. A read outside the
  array has no defined result (\<open>None\<close>). A parser returns the code's \<open>int\<close> and the array it
  stored in \<open>*hostname\<close>, if it stored one. \<open>alloc n\<close> says whether \<open>malloc(n)\<close> succeeds, and
  \<open>char_val\<close> is the value of a plain \<open>char\<close>, which is signed or not as the platform has it.
\<close>

definition char_at :: "byte list \<Rightarrow> nat \<Rightarrow> byte option" where
  "char_at d i = (if i < length d then Some (d ! i) else None)"

text \<open>\<open>strncpy\<close> of \<open>n\<close> bytes: it stops reading at a zero byte and fills up with zero bytes.\<close>

definition strncpy :: "byte list \<Rightarrow> nat \<Rightarrow> byte list option" where
  "strncpy src n =
     (let s = takeWhile (\<lambda>b. b \<noteq> 0) (take n src)
      in if n \<le> length src \<or> length s < length src
         then Some (s @ replicate (n - length s) 0) else None)"

text \<open>A big-endian 16-bit length: \<open>((unsigned char)d[i] << 8) + (unsigned char)d[i + 1]\<close>.\<close>

definition read16 :: "byte list \<Rightarrow> nat \<Rightarrow> nat option" where
  "read16 d i = do { hi \<leftarrow> char_at d i; lo \<leftarrow> char_at d (i + 1); Some (unat hi * 2 ^ 8 + unat lo) }"

section \<open>TLS: the server name of a client hello\<close>

definition TLS_HEADER_LEN :: nat where "TLS_HEADER_LEN = 5"
definition TLS_HANDSHAKE_CONTENT_TYPE :: byte where "TLS_HANDSHAKE_CONTENT_TYPE = 0x16"
definition TLS_HANDSHAKE_TYPE_CLIENT_HELLO :: byte where "TLS_HANDSHAKE_TYPE_CLIENT_HELLO = 1"

type_synonym parsed = "(int \<times> byte list option) option"

function server_name_loop :: "(nat \<Rightarrow> bool) \<Rightarrow> byte list \<Rightarrow> nat \<Rightarrow> nat \<Rightarrow> nat \<Rightarrow> parsed" where
  "server_name_loop alloc d base data_len pos =
     (if pos + 3 < data_len then do {
        len \<leftarrow> read16 d (base + pos + 1);
        if pos + 3 + len > data_len then Some (-5, None)
        else do {
          name_type \<leftarrow> char_at d (base + pos);
          if name_type = 0 then
            (if \<not> alloc (len + 1) then Some (-4, None)
             else do {
               name \<leftarrow> strncpy (drop (base + pos + 3) d) len;
               Some (int len, Some (name @ [0])) })
          else server_name_loop alloc d base data_len (pos + 3 + len) } }
      else if pos \<noteq> data_len then Some (-5, None)
      else Some (-2, None))"
  by pat_completeness auto
termination by (relation "measure (\<lambda>(alloc, d, base, data_len, pos). data_len - pos)") auto

definition parse_server_name_extension :: "(nat \<Rightarrow> bool) \<Rightarrow> byte list \<Rightarrow> nat \<Rightarrow> nat \<Rightarrow> parsed" where
  "parse_server_name_extension alloc d base data_len = server_name_loop alloc d base data_len 2"

function extensions_loop :: "(nat \<Rightarrow> bool) \<Rightarrow> byte list \<Rightarrow> nat \<Rightarrow> nat \<Rightarrow> nat \<Rightarrow> parsed" where
  "extensions_loop alloc d base data_len pos =
     (if pos + 4 \<le> data_len then do {
        len \<leftarrow> read16 d (base + pos + 2);
        t0 \<leftarrow> char_at d (base + pos);
        is_sni \<leftarrow> (if t0 = 0 then do { t1 \<leftarrow> char_at d (base + pos + 1); Some (t1 = 0) } else Some False);
        if is_sni then
          (if pos + 4 + len > data_len then Some (-5, None)
           else parse_server_name_extension alloc d (base + pos + 4) len)
        else extensions_loop alloc d base data_len (pos + 4 + len) }
      else if pos \<noteq> data_len then Some (-5, None)
      else Some (-2, None))"
  by pat_completeness auto
termination by (relation "measure (\<lambda>(alloc, d, base, data_len, pos). data_len - pos)") auto

definition parse_extensions :: "(nat \<Rightarrow> bool) \<Rightarrow> byte list \<Rightarrow> nat \<Rightarrow> nat \<Rightarrow> parsed" where
  "parse_extensions alloc d base data_len = extensions_loop alloc d base data_len 0"

declare server_name_loop.simps [simp del] extensions_loop.simps [simp del]

text \<open>
  \<open>parse_tls_header\<close>: the caller's \<open>hostname\<close> pointer may be \<open>NULL\<close>. The function follows the
  source from its first length check to its last.
\<close>

definition tls_client_hello :: "(nat \<Rightarrow> bool) \<Rightarrow> byte list \<Rightarrow> nat \<Rightarrow> int \<Rightarrow> int \<Rightarrow> parsed" where
  "tls_client_hello alloc d data_len major minor = do {
     let pos = TLS_HEADER_LEN;
     if pos + 1 > data_len then Some (-5, None) else do {
     msg_type \<leftarrow> char_at d pos;
     if msg_type \<noteq> TLS_HANDSHAKE_TYPE_CLIENT_HELLO then Some (-5, None) else do {
     let pos = pos + 38;
     if pos + 1 > data_len then Some (-5, None) else do {
     session_len \<leftarrow> char_at d pos;
     let pos = pos + (1 + unat session_len);
     if pos + 2 > data_len then Some (-5, None) else do {
     cipher_len \<leftarrow> read16 d pos;
     let pos = pos + (2 + cipher_len);
     if pos + 1 > data_len then Some (-5, None) else do {
     compression_len \<leftarrow> char_at d pos;
     let pos = pos + (1 + unat compression_len);
     if pos = data_len \<and> major = 3 \<and> minor = 0 then Some (-2, None)
     else if pos + 2 > data_len then Some (-5, None) else do {
     len \<leftarrow> read16 d pos;
     let pos = pos + 2;
     if pos + len > data_len then Some (-5, None)
     else parse_extensions alloc d pos len }}}}}}}"

definition parse_tls_header ::
    "bool \<Rightarrow> (nat \<Rightarrow> bool) \<Rightarrow> byte list \<Rightarrow> nat \<Rightarrow> bool \<Rightarrow> parsed" where
  "parse_tls_header char_signed alloc d data_len hostname_null =
     (if hostname_null then Some (-3, None)
      else if data_len < TLS_HEADER_LEN then Some (-1, None)
      else do {
        d0 \<leftarrow> char_at d 0;
        ssl2 \<leftarrow> (if and d0 0x80 \<noteq> 0 then do { d2 \<leftarrow> char_at d 2; Some (d2 = 1) } else Some False);
        if ssl2 then Some (-2, None)
        else if d0 \<noteq> TLS_HANDSHAKE_CONTENT_TYPE then Some (-5, None)
        else do {
          major \<leftarrow> char_at d 1;
          minor \<leftarrow> char_at d 2;
          if char_val char_signed major < 3 then Some (-2, None)
          else do {
            rec_len \<leftarrow> read16 d 3;
            let len = rec_len + TLS_HEADER_LEN;
            let data_len = min data_len len;
            if data_len < len then Some (-1, None)
            else tls_client_hello alloc d data_len
                   (char_val char_signed major) (char_val char_signed minor) } } })"

subsection \<open>Reads at an offset\<close>

lemma char_at_Some: "i < length d \<Longrightarrow> char_at d i = Some (d ! i)"
  by (simp add: char_at_def)

lemma char_at_drop: "drop i d = x # r \<Longrightarrow> char_at d i = Some x"
proof -
  assume a: "drop i d = x # r"
  then have "i < length d" by (metis drop_all list.distinct(1) not_le)
  then show ?thesis using a by (simp add: char_at_def drop_nth_Cons)
qed

lemma drop_append_drop: "drop i d = a @ r \<Longrightarrow> drop (i + length a) d = r"
  by (metis add.commute append_eq_conv_conj drop_drop)

lemma drop_length: "drop i d = a @ r \<Longrightarrow> a @ r \<noteq> [] \<Longrightarrow> i + length a \<le> length d"
proof -
  assume a: "drop i d = a @ r" "a @ r \<noteq> []"
  then have "length (drop i d) = length a + length r" by simp
  moreover have "i < length d" using a by (metis drop_all not_le)
  ultimately show ?thesis by simp
qed

lemma read16_Some: "i + 1 < length d \<Longrightarrow> \<exists>n. read16 d i = Some n"
  by (simp add: read16_def char_at_def)

definition be16 :: "nat \<Rightarrow> byte list" where
  "be16 n = [of_nat (n div 2 ^ 8), of_nat (n mod 2 ^ 8)]"

lemma length_be16 [simp]: "length (be16 n) = 2"
  by (simp add: be16_def)

lemma read16_be16: "drop i d = be16 n @ r \<Longrightarrow> n < 2 ^ 16 \<Longrightarrow> read16 d i = Some n"
proof -
  assume a: "drop i d = be16 n @ r" "n < 2 ^ 16"
  have "char_at d i = Some (of_nat (n div 2 ^ 8))"
    using a(1) by (intro char_at_drop [of _ _ _ "of_nat (n mod 2 ^ 8) # r"]) (simp add: be16_def)
  moreover have "drop (i + 1) d = of_nat (n mod 2 ^ 8) # r"
    using drop_append_drop [of i d "[of_nat (n div 2 ^ 8)]"] a(1) by (simp add: be16_def)
  then have "char_at d (i + 1) = Some (of_nat (n mod 2 ^ 8))" by (rule char_at_drop)
  moreover have "unat (of_nat (n div 2 ^ 8) :: byte) = n div 2 ^ 8"
    using a(2) by (simp add: unat_of_nat take_bit_eq_mod less_mult_imp_div_less)
  moreover have "unat (of_nat (n mod 2 ^ 8) :: byte) = n mod 2 ^ 8"
    by (simp add: unat_of_nat take_bit_eq_mod)
  ultimately show ?thesis by (simp add: read16_def)
qed

lemma strncpy_no_nul: "no_nul s \<Longrightarrow> strncpy (s @ r) (length s) = Some s"
proof -
  assume "no_nul s"
  then have "takeWhile (\<lambda>b. b \<noteq> 0) s = s" by (induction s) (auto simp: no_nul_def)
  then show ?thesis by (simp add: strncpy_def Let_def del: takeWhile_eq_all_conv)
qed

lemma strncpy_Some: "n \<le> length src \<Longrightarrow> \<exists>a. strncpy src n = Some a \<and> length a = n"
proof -
  assume "n \<le> length src"
  moreover have "length (takeWhile (\<lambda>b. b \<noteq> 0) (take n src)) \<le> length (take n src)"
    by (rule length_takeWhile_le)
  ultimately show ?thesis by (simp add: strncpy_def Let_def)
qed

subsection \<open>No read leaves the packet\<close>

text \<open>What every run of the parser ends with: an error and no name, or a name and its length.\<close>

definition parse_outcome :: "int set \<Rightarrow> parsed \<Rightarrow> bool" where
  "parse_outcome errs p \<longleftrightarrow> (\<exists>r h. p = Some (r, h) \<and>
     (r \<in> errs \<and> h = None \<or> (\<exists>name. h = Some (name @ [0]) \<and> r = int (length name))))"

abbreviation tls_outcome :: "parsed \<Rightarrow> bool" where
  "tls_outcome \<equiv> parse_outcome {-1, -2, -3, -4, -5}"

lemma parse_outcome_error [simp]: "parse_outcome errs (Some (r, None)) \<longleftrightarrow> r \<in> errs"
  by (auto simp: parse_outcome_def)

lemma parse_outcome_bind:
  "\<exists>x. m = Some x \<Longrightarrow> (\<And>x. m = Some x \<Longrightarrow> parse_outcome errs (f x)) \<Longrightarrow> parse_outcome errs (m \<bind> f)"
  by auto

lemma parse_outcome_if:
  "(c \<Longrightarrow> parse_outcome errs p) \<Longrightarrow> (\<not> c \<Longrightarrow> parse_outcome errs q) \<Longrightarrow> parse_outcome errs (if c then p else q)"
  by simp

lemma server_name_loop_outcome:
  "base + data_len \<le> length d \<Longrightarrow> tls_outcome (server_name_loop alloc d base data_len pos)"
proof (induction alloc d base data_len pos rule: server_name_loop.induct)
  case (1 alloc d base data_len pos)
  show ?case
  proof (cases "pos + 3 < data_len")
    case True
    then obtain len where len: "read16 d (base + pos + 1) = Some len"
      using 1(2) read16_Some [of "base + pos + 1" d] by auto
    obtain t where t: "char_at d (base + pos) = Some t"
      using True 1(2) by (auto simp: char_at_Some)
    have ih: "\<not> pos + 3 + len > data_len \<Longrightarrow> t \<noteq> 0 \<Longrightarrow>
       tls_outcome (server_name_loop alloc d base data_len (pos + 3 + len))"
      using 1(1) [OF True len _ t] 1(2) by blast
    have cp: "pos + 3 + len \<le> data_len \<Longrightarrow>
       \<exists>a. strncpy (drop (base + pos + 3) d) len = Some a \<and> length a = len"
      using 1(2) by (intro strncpy_Some) simp
    show ?thesis
    proof (cases "t = 0 \<and> pos + 3 + len \<le> data_len \<and> alloc (len + 1)")
      case True
      then obtain a where "strncpy (drop (base + pos + 3) d) len = Some a" "length a = len"
        using cp by blast
      then show ?thesis using True \<open>pos + 3 < data_len\<close> len t
        by (subst server_name_loop.simps) (simp add: parse_outcome_def)
    next
      case False
      then show ?thesis using \<open>pos + 3 < data_len\<close> len t ih
        by (subst server_name_loop.simps) auto
    qed
  next
    case False
    then show ?thesis by (subst server_name_loop.simps) simp
  qed
qed

lemma extensions_loop_outcome:
  "base + data_len \<le> length d \<Longrightarrow> tls_outcome (extensions_loop alloc d base data_len pos)"
proof (induction alloc d base data_len pos rule: extensions_loop.induct)
  case (1 alloc d base data_len pos)
  show ?case
  proof (cases "pos + 4 \<le> data_len")
    case True
    then obtain len where len: "read16 d (base + pos + 2) = Some len"
      using 1(2) read16_Some [of "base + pos + 2" d] by auto
    obtain t0 where t0: "char_at d (base + pos) = Some t0"
      using True 1(2) by (auto simp: char_at_Some)
    obtain t1 where t1: "char_at d (base + pos + 1) = Some t1"
      using True 1(2) by (auto simp: char_at_Some)
    define is_sni where "is_sni = (t0 = 0 \<and> t1 = 0)"
    then have s: "(if t0 = 0 then do { t1 \<leftarrow> char_at d (base + pos + 1); Some (t1 = 0) }
        else Some False) = Some is_sni"
      using t1 by simp
    have ih: "\<not> is_sni \<Longrightarrow> tls_outcome (extensions_loop alloc d base data_len (pos + 4 + len))"
      using 1(1) [OF True len t0 s] 1(2) by blast
    have sn: "pos + 4 + len \<le> data_len \<Longrightarrow>
        tls_outcome (parse_server_name_extension alloc d (base + pos + 4) len)"
      unfolding parse_server_name_extension_def using 1(2) by (intro server_name_loop_outcome) simp
    show ?thesis using True ih sn len t0 t1 is_sni_def
      by (subst extensions_loop.simps) (simp add: not_less)
  next
    case False
    then show ?thesis by (subst extensions_loop.simps) simp
  qed
qed

lemma tls_client_hello_outcome:
  assumes "data_len \<le> length d"
  shows "tls_outcome (tls_client_hello alloc d data_len major minor)"
proof -
  have ch: "\<And>i. \<not> i + 1 > data_len \<Longrightarrow> \<exists>b. char_at d i = Some b"
    using assms by (simp add: char_at_def)
  have rd: "\<And>i. \<not> i + 2 > data_len \<Longrightarrow> \<exists>n. read16 d i = Some n"
    using assms by (intro read16_Some) simp
  have ex: "\<And>pos len. \<not> pos + len > data_len \<Longrightarrow> tls_outcome (parse_extensions alloc d pos len)"
    unfolding parse_extensions_def using assms by (intro extensions_loop_outcome) simp
  show ?thesis
    unfolding tls_client_hello_def Let_def
    by (intro parse_outcome_if parse_outcome_bind ch rd ex) simp_all
qed

text \<open>C27: a name is found only inside the bytes that were received.\<close>

theorem tls_no_overread:
  assumes "data_len \<le> length d"
  shows "tls_outcome (parse_tls_header char_signed alloc d data_len hostname_null)"
proof -
  have ch: "i < data_len \<Longrightarrow> \<exists>b. char_at d i = Some b" for i
    using assms by (simp add: char_at_def)
  have rd: "i + 1 < data_len \<Longrightarrow> \<exists>n. read16 d i = Some n" for i
    using assms by (intro read16_Some) simp
  have hello: "n \<le> data_len \<Longrightarrow> tls_outcome (tls_client_hello alloc d n major minor)" for n major minor
    using assms by (intro tls_client_hello_outcome) simp
  have ssl2: "\<exists>b. (if and x 0x80 \<noteq> 0 then do { d2 \<leftarrow> char_at d 2; Some (d2 = 1) }
      else Some False) = Some b" if "\<not> data_len < TLS_HEADER_LEN" for x :: byte
    using ch [of 2] that by (auto simp: TLS_HEADER_LEN_def)
  show ?thesis
    unfolding parse_tls_header_def Let_def
    by (intro parse_outcome_if parse_outcome_bind ch rd hello ssl2)
      (simp_all add: TLS_HEADER_LEN_def)
qed

subsection \<open>The name of a well-formed client hello is found\<close>

text \<open>The bytes of a client hello, field by field (RFC 5246, RFC 6066).\<close>

definition vec8 :: "byte list \<Rightarrow> byte list" where "vec8 b = of_nat (length b) # b"
definition vec16 :: "byte list \<Rightarrow> byte list" where "vec16 b = be16 (length b) @ b"

definition tls_extension :: "nat \<Rightarrow> byte list \<Rightarrow> byte list" where
  "tls_extension ty body = be16 ty @ vec16 body"

definition server_name :: "byte \<Rightarrow> byte list \<Rightarrow> byte list" where
  "server_name ty name = ty # vec16 name"

definition tls_record :: "byte \<Rightarrow> byte \<Rightarrow> byte list \<Rightarrow> byte list" where
  "tls_record major minor body = 0x16 # major # minor # vec16 body"

definition client_hello_body ::
    "byte list \<Rightarrow> byte list \<Rightarrow> byte list \<Rightarrow> byte list \<Rightarrow> byte list \<Rightarrow> byte list" where
  "client_hello_body fixed session ciphers compression exts =
     1 # fixed @ vec8 session @ vec16 ciphers @ vec8 compression @ vec16 exts"

definition server_name_list ::
    "byte list \<Rightarrow> (byte \<times> byte list) list \<Rightarrow> byte list \<Rightarrow> byte list \<Rightarrow> byte list" where
  "server_name_list list_len others name more_names =
     list_len @ concat (map (\<lambda>(t, s). server_name t s) others) @ server_name 0 name @ more_names"

definition extension_list ::
    "(nat \<times> byte list) list \<Rightarrow> byte list \<Rightarrow> byte list \<Rightarrow> byte list" where
  "extension_list before sni after =
     concat (map (\<lambda>(t, b). tls_extension t b) before) @ tls_extension 0 sni @ after"

lemma length_vecs [simp]:
  "length (vec8 b) = Suc (length b)" "length (vec16 b) = 2 + length b"
  "length (server_name ty b) = 3 + length b" "length (tls_extension n b) = 4 + length b"
  by (simp_all add: vec8_def vec16_def server_name_def tls_extension_def)

lemma length_concat_member: "x \<in> set xs \<Longrightarrow> length (f x) \<le> length (concat (map f xs))"
  by (induction xs) auto

lemma server_name_loop_skip:
  assumes "drop (base + pos) d = server_name ty name @ r" "ty \<noteq> 0" "length name < 2 ^ 16"
    and "pos + 3 + length name \<le> data_len" "pos + 3 < data_len"
  shows "server_name_loop alloc d base data_len pos =
         server_name_loop alloc d base data_len (pos + 3 + length name)"
proof -
  have "char_at d (base + pos) = Some ty"
    using assms(1) by (intro char_at_drop [of _ _ _ "vec16 name @ r"]) (simp add: server_name_def)
  moreover have "drop (base + pos + 1) d = be16 (length name) @ name @ r"
    using drop_append_drop [of "base + pos" d "[ty]"] assms(1) by (simp add: server_name_def vec16_def)
  then have "read16 d (base + pos + 1) = Some (length name)" using assms(3) by (rule read16_be16)
  ultimately show ?thesis using assms(2,4,5) by (subst server_name_loop.simps) simp
qed

lemma server_name_loop_hit:
  assumes d: "drop (base + pos) d = server_name 0 name @ r" and n: "no_nul name" "name \<noteq> []"
    and l: "length name < 2 ^ 16" "pos + 3 + length name \<le> data_len" and m: "alloc (length name + 1)"
  shows "server_name_loop alloc d base data_len pos = Some (int (length name), Some (name @ [0]))"
proof -
  have "char_at d (base + pos) = Some 0"
    using d by (intro char_at_drop [of _ _ _ "vec16 name @ r"]) (simp add: server_name_def)
  moreover have d1: "drop (base + pos + 1) d = be16 (length name) @ name @ r"
    using drop_append_drop [of "base + pos" d "[0]"] d by (simp add: server_name_def vec16_def)
  then have "read16 d (base + pos + 1) = Some (length name)" using l(1) by (rule read16_be16)
  moreover have "drop (base + pos + 3) d = name @ r"
    using drop_append_drop [OF d1] by (simp add: eval_nat_numeral)
  then have "strncpy (drop (base + pos + 3) d) (length name) = Some name"
    using n(1) by (simp add: strncpy_no_nul)
  moreover have "pos + 3 < data_len" using n(2) l(2) by (cases name) auto
  ultimately show ?thesis using l(2) m by (subst server_name_loop.simps) simp
qed

text \<open>Entries of another type before the host name are passed over.\<close>

lemma server_name_loop_finds:
  assumes "drop (base + pos) d = concat (map (\<lambda>(t, s). server_name t s) others) @ server_name 0 name @ r"
    and "\<forall>(t, s) \<in> set others. t \<noteq> 0 \<and> length s < 2 ^ 16"
    and "no_nul name" "name \<noteq> []" "length name < 2 ^ 16" "alloc (length name + 1)"
    and "pos + length (concat (map (\<lambda>(t, s). server_name t s) others)) + 3 + length name \<le> data_len"
  shows "server_name_loop alloc d base data_len pos = Some (int (length name), Some (name @ [0]))"
  using assms
proof (induction others arbitrary: pos)
  case Nil
  then show ?case by (intro server_name_loop_hit) simp_all
next
  case (Cons x others)
  obtain t s where x: "x = (t, s)" by (cases x)
  let ?rest = "concat (map (\<lambda>(t, s). server_name t s) others) @ server_name 0 name @ r"
  have d: "drop (base + pos) d = server_name t s @ ?rest" using Cons(2) x by simp
  have "server_name_loop alloc d base data_len pos = server_name_loop alloc d base data_len (pos + 3 + length s)"
    using Cons(3,8) x by (intro server_name_loop_skip [OF d]) auto
  also have "\<dots> = Some (int (length name), Some (name @ [0]))"
  proof (rule Cons(1))
    show "drop (base + (pos + 3 + length s)) d = ?rest"
      using drop_append_drop [OF d] by (simp add: add.assoc)
  qed (use Cons(3-8) x in auto)
  finally show ?case .
qed

lemma extensions_loop_skip:
  assumes "drop (base + pos) d = tls_extension ty body @ r" "ty \<noteq> 0" "ty < 2 ^ 16" "length body < 2 ^ 16"
    and "pos + 4 + length body \<le> data_len"
  shows "extensions_loop alloc d base data_len pos =
         extensions_loop alloc d base data_len (pos + 4 + length body)"
proof -
  have d: "drop (base + pos) d = of_nat (ty div 2 ^ 8) # of_nat (ty mod 2 ^ 8) # vec16 body @ r"
    using assms(1) by (simp add: tls_extension_def be16_def)
  have c0: "char_at d (base + pos) = Some (of_nat (ty div 2 ^ 8))"
    using d by (rule char_at_drop)
  have c1: "char_at d (base + pos + 1) = Some (of_nat (ty mod 2 ^ 8))"
    using drop_append_drop [of "base + pos" d "[of_nat (ty div 2 ^ 8)]"] d by (intro char_at_drop) simp
  have "drop (base + pos + 2) d = be16 (length body) @ body @ r"
    using drop_append_drop [of "base + pos" d "[of_nat (ty div 2 ^ 8), of_nat (ty mod 2 ^ 8)]"] d
    by (simp add: vec16_def)
  then have l: "read16 d (base + pos + 2) = Some (length body)" using assms(4) by (rule read16_be16)
  have "unat (of_nat (ty div 2 ^ 8) :: byte) = ty div 2 ^ 8" "unat (of_nat (ty mod 2 ^ 8) :: byte) = ty mod 2 ^ 8"
    using assms(3) by (simp_all add: unat_of_nat take_bit_eq_mod less_mult_imp_div_less)
  then have "\<not> ((of_nat (ty div 2 ^ 8) :: byte) = 0 \<and> (of_nat (ty mod 2 ^ 8) :: byte) = 0)"
    using assms(2) by (metis div_mult_mod_eq mult_zero_left add_0 unat_0)
  then show ?thesis using c0 c1 l assms(5) by (subst extensions_loop.simps) auto
qed

lemma extensions_loop_finds:
  assumes "drop (base + pos) d = concat (map (\<lambda>(t, b). tls_extension t b) exts) @ tls_extension 0 sni @ r"
    and "\<forall>(t, b) \<in> set exts. t \<noteq> 0 \<and> t < 2 ^ 16 \<and> length b < 2 ^ 16" "length sni < 2 ^ 16"
    and "pos + length (concat (map (\<lambda>(t, b). tls_extension t b) exts)) + 4 + length sni \<le> data_len"
  shows "\<exists>sni_base. drop sni_base d = sni @ r \<and>
    extensions_loop alloc d base data_len pos = parse_server_name_extension alloc d sni_base (length sni)"
  using assms
proof (induction exts arbitrary: pos)
  case Nil
  then have d: "drop (base + pos) d = be16 0 @ be16 (length sni) @ sni @ r"
    by (simp add: tls_extension_def vec16_def)
  have b: "be16 0 = [0, 0]" by (simp add: be16_def)
  have c0: "char_at d (base + pos) = Some 0" using d b by (intro char_at_drop) simp
  have "drop (base + pos + 1) d = 0 # be16 (length sni) @ sni @ r"
    using drop_append_drop [of "base + pos" d "[0]"] d b by simp
  then have c1: "char_at d (base + pos + 1) = Some 0" by (rule char_at_drop)
  have d2: "drop (base + pos + 2) d = be16 (length sni) @ sni @ r"
    using drop_append_drop [OF d] by simp
  then have l: "read16 d (base + pos + 2) = Some (length sni)" using Nil(3) by (rule read16_be16)
  have "drop (base + pos + 4) d = sni @ r" using drop_append_drop [OF d2] by (simp add: eval_nat_numeral)
  moreover have "extensions_loop alloc d base data_len pos =
      parse_server_name_extension alloc d (base + pos + 4) (length sni)"
    using c0 c1 l Nil(4) by (subst extensions_loop.simps) simp
  ultimately show ?case by blast
next
  case (Cons x exts)
  obtain t b where x: "x = (t, b)" by (cases x)
  let ?rest = "concat (map (\<lambda>(t, b). tls_extension t b) exts) @ tls_extension 0 sni @ r"
  have d: "drop (base + pos) d = tls_extension t b @ ?rest" using Cons(2) x by simp
  have "extensions_loop alloc d base data_len pos = extensions_loop alloc d base data_len (pos + 4 + length b)"
    using Cons(3,5) x by (intro extensions_loop_skip [OF d]) auto
  moreover have "drop (base + (pos + 4 + length b)) d = ?rest"
    using drop_append_drop [OF d] by (simp add: add.assoc)
  then have "\<exists>sni_base. drop sni_base d = sni @ r \<and>
      extensions_loop alloc d base data_len (pos + 4 + length b) =
      parse_server_name_extension alloc d sni_base (length sni)"
    using Cons(3-5) x by (intro Cons(1)) auto
  ultimately show ?case by simp
qed

lemma char_at_vec8: "drop i d = vec8 b @ r \<Longrightarrow> char_at d i = Some (of_nat (length b))"
  by (rule char_at_drop) (simp add: vec8_def)

lemma read16_vec16: "drop i d = vec16 b @ r \<Longrightarrow> length b < 2 ^ 16 \<Longrightarrow> read16 d i = Some (length b)"
  unfolding vec16_def append_assoc by (rule read16_be16)

lemma unat_length8: "n < 256 \<Longrightarrow> unat (of_nat n :: byte) = n"
  by (simp add: unat_of_nat take_bit_eq_mod)

text \<open>The fixed fields, the session, the cipher suites and the compression methods are skipped.\<close>

lemma tls_client_hello_skips:
  assumes d: "drop 5 d = client_hello_body fixed session ciphers compression exts @ r"
    and f: "length fixed = 37" and l: "length session < 256" "length ciphers < 2 ^ 16"
      "length compression < 256" "length exts < 2 ^ 16"
    and n: "data_len = 5 + length (client_hello_body fixed session ciphers compression exts)"
  shows "\<exists>base. drop base d = exts @ r \<and> base + length exts = data_len \<and>
    tls_client_hello alloc d data_len major minor = parse_extensions alloc d base (length exts)"
proof -
  define p1 where "p1 = 5 + 38 + (1 + length session)"
  define p2 where "p2 = p1 + (2 + length ciphers)"
  define p3 where "p3 = p2 + (1 + length compression)"
  have t: "char_at d 5 = Some 1"
    using d by (intro char_at_drop) (simp add: client_hello_body_def)
  have d0: "drop (5 + 38) d = vec8 session @ vec16 ciphers @ vec8 compression @ vec16 exts @ r"
    using drop_append_drop [of 5 d "1 # fixed"] d f by (simp add: client_hello_body_def)
  note c0 = char_at_vec8 [OF d0]
  have d1: "drop p1 d = vec16 ciphers @ vec8 compression @ vec16 exts @ r"
    using drop_append_drop [OF d0] by (simp add: p1_def)
  note c1 = read16_vec16 [OF d1 l(2)]
  have d2: "drop p2 d = vec8 compression @ vec16 exts @ r"
    using drop_append_drop [OF d1] by (simp add: p2_def)
  note c2 = char_at_vec8 [OF d2]
  have d3: "drop p3 d = vec16 exts @ r"
    using drop_append_drop [OF d2] by (simp add: p3_def)
  note c3 = read16_vec16 [OF d3 l(4)]
  have d4: "drop (p3 + 2) d = exts @ r"
    using drop_append_drop [of p3 d "be16 (length exts)"] d3 by (simp add: vec16_def)
  have n': "data_len = p3 + 2 + length exts"
    using n f by (simp add: client_hello_body_def p1_def p2_def p3_def)
  have le: "5 + 1 \<le> data_len" "5 + 38 + 1 \<le> data_len" "p1 + 2 \<le> data_len" "p2 + 1 \<le> data_len"
    "p3 + 2 \<le> data_len" "p3 \<noteq> data_len"
    unfolding n' by (simp_all add: p1_def p2_def p3_def)
  have u: "unat (of_nat (length session) :: byte) = length session"
    "unat (of_nat (length compression) :: byte) = length compression"
    using l by (simp_all add: unat_length8)
  have "tls_client_hello alloc d data_len major minor = parse_extensions alloc d (p3 + 2) (length exts)"
    unfolding tls_client_hello_def Let_def TLS_HEADER_LEN_def TLS_HANDSHAKE_TYPE_CLIENT_HELLO_def
      t Option.bind.bind_lunit c0 u p1_def [symmetric] c1 p2_def [symmetric] c2 p3_def [symmetric] c3
    using le by (simp add: n')
  then show ?thesis using d4 n' by (intro exI [of _ "p3 + 2"]) simp
qed

text \<open>C26: the host name of a client hello is what the parser returns, whatever other extensions
  stand before the server name extension and whatever entries of another type stand before
  the host name in its list, whatever follows, and whatever the session, the cipher suites
  and the compression methods are.
\<close>

theorem tls_finds_name:
  assumes body: "body = client_hello_body fixed session ciphers compression
      (extension_list before (server_name_list list_len others name more_names) after)"
    and sizes: "length fixed = 37" "length session < 256" "length compression < 256" "length body < 2 ^ 16"
      "length list_len = 2"
    and before: "\<forall>(t, b) \<in> set before. t \<noteq> 0 \<and> t < 2 ^ 16"
    and others: "\<forall>(t, s) \<in> set others. t \<noteq> 0"
    and name: "no_nul name" "name \<noteq> []" "alloc (length name + 1)"
    and version: "3 \<le> char_val char_signed major"
  shows "parse_tls_header char_signed alloc (tls_record major minor body @ trailing)
           (length (tls_record major minor body @ trailing)) False
         = Some (int (length name), Some (name @ [0]))"
proof -
  define d where "d = tls_record major minor body @ trailing"
  define s where "s = server_name_list list_len others name more_names"
  define xs where "xs = extension_list before s after"
  have d5: "drop 5 d = body @ trailing" by (simp add: d_def tls_record_def vec16_def be16_def)
  have lxs: "length ciphers < 2 ^ 16" "length xs < 2 ^ 16"
    using sizes(4) unfolding body s_def [symmetric] xs_def [symmetric] client_hello_body_def by simp_all
  have ls: "length s < 2 ^ 16" "length name < 2 ^ 16"
    using lxs(2) unfolding xs_def s_def extension_list_def server_name_list_def
    by simp_all
  have xs: "xs = concat (map (\<lambda>(t, b). tls_extension t b) before) @ tls_extension 0 s @ after"
    by (simp add: xs_def extension_list_def)
  have s: "s = list_len @ concat (map (\<lambda>(t, s). server_name t s) others) @ server_name 0 name @ more_names"
    by (simp add: s_def server_name_list_def)
  have lb: "length b < 2 ^ 16" if "(t, b) \<in> set before" for t b
    using length_concat_member [OF that, of "\<lambda>(t, b). tls_extension t b"] lxs(2) unfolding xs by simp
  have lo: "length v < 2 ^ 16" if "(t, v) \<in> set others" for t v
    using length_concat_member [OF that, of "\<lambda>(t, s). server_name t s"] ls(1) unfolding s by simp
  obtain base where base: "drop base d = xs @ trailing" "base + length xs = 5 + length body"
    and hello: "tls_client_hello alloc d (5 + length body) (char_val char_signed major) (char_val char_signed minor)
        = parse_extensions alloc d base (length xs)"
    using tls_client_hello_skips [OF d5 [unfolded body s_def [symmetric] xs_def [symmetric]]
        sizes(1,2) lxs(1) sizes(3) lxs(2) refl, of alloc "char_val char_signed major" "char_val char_signed minor"]
    unfolding body s_def [symmetric] xs_def [symmetric] by blast
  obtain sb where sb: "drop sb d = s @ after @ trailing"
    and ex: "parse_extensions alloc d base (length xs) = parse_server_name_extension alloc d sb (length s)"
    unfolding parse_extensions_def
    using extensions_loop_finds [of base 0 d before s "after @ trailing" "length xs" alloc] base(1) before lb ls(1)
    by (auto simp: xs)
  have "drop (sb + 2) d = concat (map (\<lambda>(t, s). server_name t s) others) @
      server_name 0 name @ more_names @ after @ trailing"
    using drop_append_drop [of sb d list_len] sb sizes(5) unfolding s by simp
  then have names: "parse_server_name_extension alloc d sb (length s) = Some (int (length name), Some (name @ [0]))"
    unfolding parse_server_name_extension_def using others lo name ls(2) sizes(5)
    by (intro server_name_loop_finds [where others = others]) (auto simp: s)
  have header: "char_at d 0 = Some 0x16" "char_at d 1 = Some major" "char_at d 2 = Some minor"
    "read16 d 3 = Some (length body)"
    using read16_vec16 [of 3 d body trailing] sizes(4)
    by (simp_all add: d_def tls_record_def char_at_def)
  have "length d = 5 + length body + length trailing" by (simp add: d_def tls_record_def)
  then have "parse_tls_header char_signed alloc d (length d) False
      = tls_client_hello alloc d (5 + length body) (char_val char_signed major) (char_val char_signed minor)"
    unfolding parse_tls_header_def using header version
    by (simp add: TLS_HEADER_LEN_def TLS_HANDSHAKE_CONTENT_TYPE_def Let_def add.commute)
  then show ?thesis using hello ex names unfolding d_def by simp
qed

text \<open>A client hello with two extensions and two server names, followed by more bytes.\<close>

lemma tls_no_overread_witness:
  "tls_outcome (parse_tls_header True (\<lambda>n. True) [0x16, 3, 1, 0, 2, 1, 0] 7 False)"
  by (rule tls_no_overread) simp

definition example_hello :: "byte list" where
  "example_hello = client_hello_body (replicate 37 0) [1, 2] [0, 0x2f] [0]
     (extension_list [(10, [0, 2, 0, 23])] (server_name_list [0, 8] [(1, [7])] [0x61, 0x2e, 0x62] []) [0, 11])"

lemma tls_finds_name_witness:
  "parse_tls_header True (\<lambda>n. n < 10) (tls_record 3 1 example_hello @ [9]) 
     (length (tls_record 3 1 example_hello @ [9])) False = Some (3, Some [0x61, 0x2e, 0x62, 0])"
proof -
  have l: "length example_hello < 2 ^ 16"
    by (simp add: example_hello_def client_hello_body_def extension_list_def server_name_list_def)
  have "parse_tls_header True (\<lambda>n. n < 10) (tls_record 3 1 example_hello @ [9]) 
     (length (tls_record 3 1 example_hello @ [9])) False
     = Some (int (length [0x61, 0x2e, 0x62 :: byte]), Some ([0x61, 0x2e, 0x62] @ [0]))"
    by (rule tls_finds_name [OF example_hello_def _ _ _ l])
      (simp_all add: no_nul_def char_val_def)
  then show ?thesis by simp
qed

end
