(* ===== verification/Http_Host.thy ===== *)
theory Http_Host
  imports Sni_Parser
begin

text \<open>
  The \<open>Host:\<close> header of an HTTP request, as shadowsocks-libev looks for it (\<open>src/http.c\<close>). The
  conventions are those of \<open>Sni_Parser\<close>; \<open>*len\<close> and \<open>data_len\<close> are C \<open>int\<close>s here, which the
  code lets go below zero. \<open>isdigit\<close>, \<open>isblank\<close> and \<open>strncasecmp\<close> are those of the C locale.
\<close>

definition CR :: byte where "CR = 13"
definition LF :: byte where "LF = 10"

definition isdigit :: "byte \<Rightarrow> bool" where "isdigit b \<longleftrightarrow> 0x30 \<le> b \<and> b \<le> 0x39"
definition isblank :: "byte \<Rightarrow> bool" where "isblank b \<longleftrightarrow> b = 0x20 \<or> b = 9"
definition tolower :: "byte \<Rightarrow> byte" where
  "tolower b = (if 0x41 \<le> b \<and> b \<le> 0x5a then b + 0x20 else b)"

text \<open>\<open>strncasecmp(header, data, strlen(header)) == 0\<close>.\<close>

fun casecmp_eq :: "byte list \<Rightarrow> byte list \<Rightarrow> nat \<Rightarrow> bool option" where
  "casecmp_eq [] d p = Some True"
| "casecmp_eq (h # hs) d p = do {
     c \<leftarrow> char_at d p;
     if tolower h \<noteq> tolower c then Some False else casecmp_eq hs d (p + 1) }"

function skip_line :: "byte list \<Rightarrow> nat \<Rightarrow> int \<Rightarrow> (nat \<times> int) option" where
  "skip_line d p len =
     (if len > 2 then do {
        a \<leftarrow> char_at d p;
        if a = CR then Some (p, len)
        else do {
          b \<leftarrow> char_at d (p + 1);
          if b = LF then Some (p, len) else skip_line d (p + 1) (len - 1) } }
      else Some (p, len))"
  by pat_completeness auto
termination by (relation "measure (\<lambda>(d, p, len). nat len)") auto

function header_span :: "byte list \<Rightarrow> nat \<Rightarrow> int \<Rightarrow> nat \<Rightarrow> nat option" where
  "header_span d p len h =
     (if len > int h + 1 then do {
        a \<leftarrow> char_at d (p + h);
        if a = CR then Some h
        else do {
          b \<leftarrow> char_at d (p + h + 1);
          if b = LF then Some h else header_span d p len (h + 1) } }
      else Some h)"
  by pat_completeness auto
termination by (relation "measure (\<lambda>(d, p, len, h). nat (len - int h))") auto

declare skip_line.simps [simp del] header_span.simps [simp del]

text \<open>\<open>next_header\<close> returns the length of the next header, its position and what is left.\<close>

definition next_header :: "byte list \<Rightarrow> nat \<Rightarrow> int \<Rightarrow> (nat \<times> nat \<times> int) option" where
  "next_header d p len = do {
     (p1, len1) \<leftarrow> skip_line d p len;
     let p = p1 + 2;
     let len = len1 - 2;
     h \<leftarrow> header_span d p len 0;
     Some (h, p, len) }"

function eat_blanks :: "byte list \<Rightarrow> nat \<Rightarrow> nat \<Rightarrow> nat \<Rightarrow> nat option" where
  "eat_blanks d p header_len len =
     (if header_len < len then do {
        c \<leftarrow> char_at d (p + header_len);
        if isblank c then eat_blanks d p (header_len + 1) len else Some header_len }
      else Some header_len)"
  by pat_completeness auto
termination by (relation "measure (\<lambda>(d, p, header_len, len). len - header_len)") auto

declare eat_blanks.simps [simp del]

text \<open>\<open>get_header\<close> terminates because every header it passes over shortens the rest.\<close>

lemma skip_line_le: "skip_line d p len = Some (p', len') \<Longrightarrow> len' \<le> len"
proof (induction d p len rule: skip_line.induct)
  case (1 d p len)
  show ?case
  proof (cases "len > 2")
    case False
    then show ?thesis using 1(2) by (subst (asm) skip_line.simps) simp
  next
    case True
    with 1(2) obtain a where a: "char_at d p = Some a"
      by (subst (asm) skip_line.simps) (auto simp: bind_eq_Some_conv)
    show ?thesis
    proof (cases "a = CR")
      case True
      then show ?thesis using 1(2) \<open>len > 2\<close> a by (subst (asm) skip_line.simps) simp
    next
      case False
      with 1(2) True a obtain b where b: "char_at d (p + 1) = Some b"
        by (subst (asm) skip_line.simps) (auto simp: bind_eq_Some_conv)
      show ?thesis
      proof (cases "b = LF")
        case True
        then show ?thesis using 1(2) \<open>len > 2\<close> False a b by (subst (asm) skip_line.simps) simp
      next
        case nlf: False
        have "skip_line d (p + 1) (len - 1) = Some (p', len')"
          using 1(2) True False nlf a b by (subst (asm) skip_line.simps) simp
        then have "len' \<le> len - 1" by (rule 1(1) [OF True a False b nlf])
        then show ?thesis by simp
      qed
    qed
  qed
qed

lemma header_span_0: "len \<le> 1 \<Longrightarrow> header_span d p len 0 = Some 0"
  by (subst header_span.simps) simp

lemma next_header_less:
  "next_header d p len = Some (h, p', len') \<Longrightarrow> h \<noteq> 0 \<Longrightarrow> nat len' < nat len"
proof -
  assume a: "next_header d p len = Some (h, p', len')" "h \<noteq> 0"
  then obtain p1 len1 where s: "skip_line d p len = Some (p1, len1)" "len' = len1 - 2"
    "header_span d p' len' 0 = Some h"
    by (auto simp: next_header_def bind_eq_Some_conv Let_def)
  have "1 < len'" using s(3) a(2) header_span_0 [of len' d p'] by (cases "len' \<le> 1") auto
  then show ?thesis using skip_line_le [OF s(1)] s(2) by simp
qed

function get_header ::
    "(nat \<Rightarrow> bool) \<Rightarrow> byte list \<Rightarrow> byte list \<Rightarrow> nat \<Rightarrow> int \<Rightarrow> parsed" where
  "get_header alloc header d p len = (case next_header d p len of
       None \<Rightarrow> None
     | Some (l, p', len') \<Rightarrow>
         if l \<noteq> 0 then do {
           matches \<leftarrow> (if l > length header then casecmp_eq header d p' else Some False);
           if matches then do {
             header_len \<leftarrow> eat_blanks d p' (length header) l;
             if \<not> alloc (l - header_len + 1) then Some (-4, None)
             else do {
               v \<leftarrow> strncpy (drop (p' + header_len) d) (l - header_len);
               Some (int (l - header_len), Some (v @ [0])) } }
           else get_header alloc header d p' len' }
         else if len' = 0 then Some (-1, None)
         else Some (-2, None))"
  by pat_completeness auto
termination
  by (relation "measure (\<lambda>(alloc, header, d, p, len). nat len)") (auto dest: next_header_less)

declare get_header.simps [simp del]

text \<open>
  The loop that cuts the port off the host name: \<open>i\<close> counts down from \<open>result\<close>. The code passes a plain \<open>char\<close> to
  \<open>isdigit\<close>; for a negative one the C standard says nothing, and the libraries the program is built with (glibc,
  musl, BSD) look it up in a table that covers it, or compare, and answer that it is no digit, as here.
\<close>

fun trim_port :: "byte list \<Rightarrow> nat \<Rightarrow> int \<Rightarrow> parsed" where
  "trim_port v 0 result = Some (result, Some v)"
| "trim_port v (Suc i) result = do {
     c \<leftarrow> char_at v i;
     if c = 0x3a then Some (int i, Some (v[i := 0]))
     else if \<not> isdigit c then Some (result, Some v)
     else trim_port v i result }"

text \<open>The \<open>size_t\<close> length becomes an \<open>int\<close> in the call of \<open>get_header\<close>.\<close>

definition int_of_size :: "nat \<Rightarrow> int" where
  "int_of_size n = sint (word_of_nat n :: 32 word)"

definition host_header :: "byte list" where
  "host_header = [0x48, 0x6f, 0x73, 0x74, 0x3a]"

definition parse_http_header :: "(nat \<Rightarrow> bool) \<Rightarrow> byte list \<Rightarrow> nat \<Rightarrow> bool \<Rightarrow> parsed" where
  "parse_http_header alloc d data_len hostname_null =
     (if hostname_null then Some (-3, None)
      else if data_len = 0 then Some (-1, None)
      else (case get_header alloc host_header d 0 (int_of_size data_len) of
          Some (result, Some v) \<Rightarrow>
            if result < 0 then Some (result, Some v) else trim_port v (nat result) result
        | r \<Rightarrow> r))"

section \<open>No read leaves the request\<close>

lemma skip_line_ok:
  "int p + len \<le> int (length d) \<Longrightarrow> \<exists>k. skip_line d p len = Some (p + k, len - int k)"
proof (induction d p len rule: skip_line.induct)
  case (1 d p len)
  show ?case
  proof (cases "len > 2 \<and> d ! p \<noteq> CR \<and> d ! (p + 1) \<noteq> LF")
    case True
    then have c: "char_at d p = Some (d ! p)" "char_at d (p + 1) = Some (d ! (p + 1))"
      using 1(2) by (simp_all add: char_at_def)
    have "skip_line d p len = skip_line d (p + 1) (len - 1)"
      using True c by (subst skip_line.simps) simp
    moreover obtain k where "skip_line d (p + 1) (len - 1) = Some (p + 1 + k, len - 1 - int k)"
      using 1(1) [OF _ c(1) _ c(2)] True 1(2) by auto
    ultimately show ?thesis by (intro exI [of _ "k + 1"]) simp
  next
    case False
    then have "skip_line d p len = Some (p, len)"
      using 1(2) by (subst skip_line.simps) (auto simp: char_at_def)
    then show ?thesis by (intro exI [of _ 0]) simp
  qed
qed

lemma header_span_ok:
  "int p + len \<le> int (length d) \<Longrightarrow>
   \<exists>k. header_span d p len h = Some (h + k) \<and> (k \<noteq> 0 \<longrightarrow> int (h + k) < len)"
proof (induction d p len h rule: header_span.induct)
  case (1 d p len h)
  show ?case
  proof (cases "len > int h + 1 \<and> d ! (p + h) \<noteq> CR \<and> d ! (p + h + 1) \<noteq> LF")
    case True
    then have c: "char_at d (p + h) = Some (d ! (p + h))" "char_at d (p + h + 1) = Some (d ! (p + h + 1))"
      using 1(2) by (simp_all add: char_at_def)
    have "header_span d p len h = header_span d p len (h + 1)"
      using True c by (subst header_span.simps) simp
    moreover obtain k where "header_span d p len (h + 1) = Some (h + 1 + k)"
        "k \<noteq> 0 \<longrightarrow> int (h + 1 + k) < len"
      using 1(1) [OF _ c(1) _ c(2)] True 1(2) by auto
    moreover have "int (h + 1) < len" using True by simp
    ultimately show ?thesis by (intro exI [of _ "k + 1"]) (cases k, auto)
  next
    case False
    then have "header_span d p len h = Some h"
      using 1(2) by (subst header_span.simps) (auto simp: char_at_def)
    then show ?thesis by (intro exI [of _ 0]) simp
  qed
qed

lemma next_header_ok:
  assumes "int p + len \<le> int (length d)"
  shows "\<exists>h k. next_header d p len = Some (h, p + k + 2, len - int k - 2) \<and>
    (h \<noteq> 0 \<longrightarrow> int h < len - int k - 2)"
proof -
  obtain k where k: "skip_line d p len = Some (p + k, len - int k)"
    using skip_line_ok [OF assms] by blast
  have "int (p + k + 2) + (len - int k - 2) \<le> int (length d)" using assms by simp
  then obtain h where "header_span d (p + k + 2) (len - int k - 2) 0 = Some h"
      "h \<noteq> 0 \<longrightarrow> int h < len - int k - 2"
    using header_span_ok [of "p + k + 2" "len - int k - 2" d 0] by auto
  then show ?thesis using k by (auto simp: next_header_def Let_def)
qed

lemma casecmp_eq_ok: "p + length h \<le> length d \<Longrightarrow> \<exists>b. casecmp_eq h d p = Some b"
  by (induction h arbitrary: p) (auto simp: char_at_def)

lemma eat_blanks_ok:
  "p + len \<le> length d \<Longrightarrow> h \<le> len \<Longrightarrow> \<exists>k. eat_blanks d p h len = Some k \<and> h \<le> k \<and> k \<le> len"
proof (induction d p h len rule: eat_blanks.induct)
  case (1 d p h len)
  show ?case
  proof (cases "h < len \<and> isblank (d ! (p + h))")
    case True
    then have c: "char_at d (p + h) = Some (d ! (p + h))" using 1(2) by (simp add: char_at_def)
    have "eat_blanks d p h len = eat_blanks d p (h + 1) len"
      using True c by (subst eat_blanks.simps) simp
    moreover obtain k where "eat_blanks d p (h + 1) len = Some k" "h + 1 \<le> k" "k \<le> len"
      using 1(1) [OF _ c] True 1(2) by auto
    ultimately show ?thesis by auto
  next
    case False
    then have "eat_blanks d p h len = Some h"
      using 1(2,3) by (subst eat_blanks.simps) (auto simp: char_at_def)
    then show ?thesis using 1(3) by simp
  qed
qed

lemma get_header_outcome:
  "int p + len \<le> int (length d) \<Longrightarrow> parse_outcome {-1, -2, -4} (get_header alloc header d p len)"
proof (induction alloc header d p len rule: get_header.induct)
  case (1 alloc header d p len)
  obtain l k where n: "next_header d p len = Some (l, p + k + 2, len - int k - 2)"
    and l: "l \<noteq> 0 \<longrightarrow> int l < len - int k - 2"
    using next_header_ok [OF 1(2)] by blast
  define p' len' where "p' = p + k + 2" and "len' = len - int k - 2"
  have n': "next_header d p len = Some (l, p', len')" using n by (simp add: p'_def len'_def)
  have b: "int p' + len' \<le> int (length d)" using 1(2) by (simp add: p'_def len'_def)
  have lb: "l \<noteq> 0 \<Longrightarrow> p' + l \<le> length d" using l b by (simp add: p'_def len'_def)
  show ?case
  proof (cases "l = 0")
    case True
    then show ?thesis using n' by (subst get_header.simps) simp
  next
    case False
    obtain m where m: "(if l > length header then casecmp_eq header d p' else Some False) = Some m"
      using casecmp_eq_ok [of p' header d] lb [OF False] by (cases "l > length header") auto
    have ih: "\<not> m \<Longrightarrow> parse_outcome {-1, -2, -4} (get_header alloc header d p' len')"
      using 1(1) [OF n' refl refl False m] b by blast
    have hit: "m \<Longrightarrow> \<exists>h v. eat_blanks d p' (length header) l = Some h \<and>
        strncpy (drop (p' + h) d) (l - h) = Some v \<and> length v = l - h"
    proof -
      assume m
      then have "length header \<le> l" using m by (simp split: if_splits)
      then obtain h where h: "eat_blanks d p' (length header) l = Some h" "h \<le> l"
        using eat_blanks_ok [of p' l d "length header"] lb [OF False] by auto
      have "l - h \<le> length (drop (p' + h) d)" using lb [OF False] h(2) by simp
      then show ?thesis using strncpy_Some h(1) by blast
    qed
    show ?thesis
    proof (cases m)
      case True
      then show ?thesis using n' False m hit
        by (subst get_header.simps) (auto simp: parse_outcome_def)
    next
      case nm: False
      then show ?thesis using n' False m ih by (subst get_header.simps) auto
    qed
  qed
qed

text \<open>A run ends with an error and no name, or with a terminated name inside its array.\<close>

definition http_outcome :: "parsed \<Rightarrow> bool" where
  "http_outcome p \<longleftrightarrow> (\<exists>r h. p = Some (r, h) \<and>
     (r \<in> {-1, -2, -3, -4} \<and> h = None \<or>
      (\<exists>v n. h = Some v \<and> r = int n \<and> n < length v \<and> v ! n = 0)))"

lemma trim_port_outcome:
  "n \<le> m \<Longrightarrow> m < length v \<Longrightarrow> v ! m = 0 \<Longrightarrow> http_outcome (trim_port v n (int m))"
proof (induction n)
  case 0
  then show ?case by (simp add: http_outcome_def)
next
  case (Suc n)
  have "http_outcome (Some (int n, Some (v[n := 0])))"
    using Suc(2,3) by (auto simp: http_outcome_def)
  moreover have "http_outcome (Some (int m, Some v))"
    using Suc(3,4) by (auto simp: http_outcome_def)
  moreover have "char_at v n = Some (v ! n)" using Suc(2,3) by (simp add: char_at_def)
  ultimately show ?case using Suc by simp
qed

lemma int_of_size_small: "n < 2 ^ 31 \<Longrightarrow> int_of_size n = int n"
  by (simp add: int_of_size_def signed_of_nat signed_take_bit_int_eq_self)

text \<open>C29: the search for the host name reads no byte outside the request, ends, and returns
  either an error and no name or a name that ends inside its array where the result says.
\<close>

theorem http_no_overread:
  assumes "data_len \<le> length d" "data_len < 2 ^ 31"
  shows "http_outcome (parse_http_header alloc d data_len hostname_null)"
proof (cases "hostname_null \<or> data_len = 0")
  case True
  then show ?thesis by (auto simp: parse_http_header_def http_outcome_def)
next
  case False
  have "int_of_size data_len = int data_len" using assms(2) by (rule int_of_size_small)
  then obtain r h where g: "get_header alloc host_header d 0 (int_of_size data_len) = Some (r, h)"
    and o1: "r \<in> {-1, -2, -4} \<and> h = None \<or> (\<exists>name. h = Some (name @ [0]) \<and> r = int (length name))"
    using get_header_outcome [of 0 "int_of_size data_len" d alloc host_header] assms
    by (auto simp: parse_outcome_def)
  from o1 show ?thesis
  proof (elim disjE exE)
    assume "r \<in> {-1, -2, -4} \<and> h = None"
    then show ?thesis using False g by (auto simp: parse_http_header_def http_outcome_def)
  next
    fix name
    assume n: "h = Some (name @ [0]) \<and> r = int (length name)"
    then have "http_outcome (trim_port (name @ [0]) (length name) (int (length name)))"
      by (intro trim_port_outcome) simp_all
    then show ?thesis using False g n by (simp add: parse_http_header_def)
  qed
qed

section \<open>The host of a complete request is found\<close>

definition line_text :: "byte list \<Rightarrow> bool" where
  "line_text l \<longleftrightarrow> CR \<notin> set l \<and> LF \<notin> set l"

definition crlf :: "byte list" where "crlf = [CR, LF]"

definition header_lines :: "byte list list \<Rightarrow> byte list" where
  "header_lines ls = concat (map (\<lambda>l. l @ crlf) ls)"

text \<open>The lines the search stops at: longer than the name of the header, and starting with it.\<close>

definition starts_with :: "byte list \<Rightarrow> byte list \<Rightarrow> bool" where
  "starts_with header l \<longleftrightarrow>
     length header < length l \<and> map tolower (take (length header) l) = map tolower header"

lemma CR_LF [simp]: "CR \<noteq> LF" "LF \<noteq> CR"
  by (simp_all add: CR_def LF_def)

lemma nth_drop_eq: "drop p d = l \<Longrightarrow> i < length l \<Longrightarrow> d ! (p + i) = l ! i"
  by (metis nth_drop add_leE drop_all length_drop less_imp_le_nat list.size(3) nat_le_linear not_less_zero)

lemma casecmp_eq_take:
  "drop p d = l \<Longrightarrow> length h \<le> length l \<Longrightarrow>
   casecmp_eq h d p = Some (map tolower (take (length h) l) = map tolower h)"
proof (induction h arbitrary: p l)
  case Nil
  then show ?case by simp
next
  case (Cons c h)
  then obtain x r where l: "l = x # r" by (cases l) auto
  have "char_at d p = Some x" using Cons(2) l by (intro char_at_drop) simp
  moreover have "drop (p + 1) d = r" using drop_append_drop [of p d "[x]" r] Cons(2) l by simp
  then have "casecmp_eq h d (p + 1) = Some (map tolower (take (length h) r) = map tolower h)"
    using Cons(3) l by (intro Cons(1)) simp_all
  ultimately show ?case using l by auto
qed

lemma skip_line_text:
  "drop p d = l @ CR # r \<Longrightarrow> line_text l \<Longrightarrow> r \<noteq> [] \<Longrightarrow> len = int (length l + 1 + length r) \<Longrightarrow>
   skip_line d p len = Some (p + length l, len - int (length l))"
proof (induction l arbitrary: p len)
  case Nil
  then have "char_at d p = Some CR" by (intro char_at_drop) simp
  then show ?case by (subst skip_line.simps) simp
next
  case (Cons x l)
  have d: "drop (p + 1) d = l @ CR # r" using drop_append_drop [of p d "[x]"] Cons(2) by simp
  have "char_at d p = Some x" using Cons(2) by (intro char_at_drop) simp
  moreover have "\<exists>y. char_at d (p + 1) = Some y \<and> y \<noteq> LF"
    using char_at_drop [of "p + 1" d "hd (l @ [CR])" "tl (l @ CR # r)"] d Cons(3)
    by (cases l) (auto simp: line_text_def)
  moreover have "len > 2" using Cons(4,5) by (cases r) auto
  moreover have "x \<noteq> CR" using Cons(3) by (auto simp: line_text_def)
  ultimately have "skip_line d p len = skip_line d (p + 1) (len - 1)"
    by (subst skip_line.simps) auto
  also have "\<dots> = Some (p + 1 + length l, len - 1 - int (length l))"
    using Cons(3-5) d by (intro Cons(1)) (simp_all add: line_text_def)
  finally show ?case by simp
qed

lemma header_span_eq:
  assumes "\<forall>i<n. d ! (p + i) \<noteq> CR \<and> d ! (p + i + 1) \<noteq> LF" "int n + 1 = len \<or> int n + 1 < len \<and> d ! (p + n) = CR"
    and "int p + len \<le> int (length d)" "h \<le> n"
  shows "header_span d p len h = Some n"
  using assms
proof (induction d p len h rule: header_span.induct)
  case (1 d p len h)
  show ?case
  proof (cases "h = n")
    case True
    then show ?thesis using 1(3,4) by (subst header_span.simps) (auto simp: char_at_def)
  next
    case False
    then have h: "h < n" "len > int h + 1" using 1(3,5) by auto
    then have c: "char_at d (p + h) = Some (d ! (p + h))" "char_at d (p + h + 1) = Some (d ! (p + h + 1))"
      using 1(4) by (simp_all add: char_at_def)
    have ne: "d ! (p + h) \<noteq> CR" "d ! (p + h + 1) \<noteq> LF" using 1(2) h(1) by auto
    have "header_span d p len h = header_span d p len (h + 1)"
      using c ne h by (subst header_span.simps) simp
    also have "\<dots> = Some n" using h by (intro 1(1) [OF h(2) c(1) ne(1) c(2) ne(2) 1(2-4)]) simp
    finally show ?thesis .
  qed
qed

text \<open>A complete header is measured whole; one that is cut off loses its last byte.\<close>

lemma header_span_line:
  assumes d: "drop p d = l @ t" and t: "t = CR # LF # r \<or> t = [x] \<and> x \<noteq> CR \<and> x \<noteq> LF"
    and l: "line_text l" and len: "len = int (length d) - int p" and p: "p \<le> length d"
  shows "header_span d p len 0 = Some (length l)"
proof (rule header_span_eq)
  have n: "\<And>i. i < length l + length t \<Longrightarrow> d ! (p + i) = (l @ t) ! i"
    using nth_drop_eq [OF d] by simp
  have "length (drop p d) = length l + length t" unfolding d by simp
  then have lt: "len = int (length l) + int (length t)" using len p by simp
  have t0: "1 \<le> length t" "hd t \<noteq> LF" using t by auto
  show "\<forall>i<length l. d ! (p + i) \<noteq> CR \<and> d ! (p + i + 1) \<noteq> LF"
  proof (intro allI impI)
    fix i
    assume i: "i < length l"
    have "d ! (p + i) = l ! i" using n [of i] i by (simp add: nth_append)
    moreover have "d ! (p + i + 1) = (if i + 1 < length l then l ! (i + 1) else hd t)"
      using n [of "i + 1"] i t0(1) by (cases t; cases "i + 1 = length l") (auto simp: nth_append)
    ultimately show "d ! (p + i) \<noteq> CR \<and> d ! (p + i + 1) \<noteq> LF"
      using l i t0(2) unfolding line_text_def by (auto simp: in_set_conv_nth)
  qed
  show "int (length l) + 1 = len \<or> int (length l) + 1 < len \<and> d ! (p + length l) = CR"
    using t lt n [of "length l"] by auto
qed (use len p in simp_all)

lemma next_header_line:
  assumes d: "drop p d = l0 @ CR # LF # l @ t" and t: "t = CR # LF # r \<or> t = [x] \<and> x \<noteq> CR \<and> x \<noteq> LF"
    and l: "line_text l0" "line_text l" and len: "len = int (length d) - int p"
  shows "next_header d p len = Some (length l, p + length l0 + 2, len - int (length l0) - 2)"
    and "drop (p + length l0 + 2) d = l @ t" "p + length l0 + 2 \<le> length d"
proof -
  have "length (drop p d) = length l0 + 2 + length l + length t" unfolding d by simp
  moreover have "p < length d" using d by (metis drop_all not_le list.distinct(1) append_is_Nil_conv)
  ultimately have n: "length d = p + length l0 + 2 + length l + length t" by simp
  have d1: "drop (p + length l0 + 2) d = l @ t"
    using drop_append_drop [of p d "l0 @ [CR, LF]" "l @ t"] d by (simp add: add.assoc)
  have "skip_line d p len = Some (p + length l0, len - int (length l0))"
    using d l(1) by (rule skip_line_text) (simp_all add: len n)
  moreover have "header_span d (p + length l0 + 2) (len - int (length l0) - 2) 0 = Some (length l)"
    using header_span_line [OF d1 t l(2)] by (simp add: len n)
  ultimately show "next_header d p len = Some (length l, p + length l0 + 2, len - int (length l0) - 2)"
    by (simp add: next_header_def Let_def)
  show "drop (p + length l0 + 2) d = l @ t" by (rule d1)
  show "p + length l0 + 2 \<le> length d" using n by simp
qed

lemma eat_blanks_eq:
  assumes "\<forall>i. h \<le> i \<and> i < n \<longrightarrow> isblank (d ! (p + i))" "n = len \<or> \<not> isblank (d ! (p + n))"
    and "h \<le> n" "n \<le> len" "p + len \<le> length d"
  shows "eat_blanks d p h len = Some n"
  using assms
proof (induction d p h len rule: eat_blanks.induct)
  case (1 d p h len)
  show ?case
  proof (cases "h = n")
    case True
    then show ?thesis using 1(3,5,6) by (subst eat_blanks.simps) (auto simp: char_at_def)
  next
    case False
    then have h: "h < len" "isblank (d ! (p + h))" using 1(2,4,5) by auto
    then have c: "char_at d (p + h) = Some (d ! (p + h))" using 1(6) by (simp add: char_at_def)
    have "eat_blanks d p h len = eat_blanks d p (h + 1) len" using c h by (subst eat_blanks.simps) simp
    also have "\<dots> = Some n" using 1(2-6) False by (intro 1(1) [OF h(1) c h(2)]) auto
    finally show ?thesis .
  qed
qed

lemma eat_blanks_line:
  assumes "drop p d = hdr @ blanks @ value @ t" "\<forall>b \<in> set blanks. isblank b"
    and "value = [] \<or> \<not> isblank (hd value)" "len = length (hdr @ blanks @ value)"
  shows "eat_blanks d p (length hdr) len = Some (length hdr + length blanks)"
proof (cases "len = 0")
  case True
  then show ?thesis using assms(4) by (subst eat_blanks.simps) simp
next
  case False
  have n: "\<And>i. i < length (hdr @ blanks @ value @ t) \<Longrightarrow> d ! (p + i) = (hdr @ blanks @ value @ t) ! i"
    using nth_drop_eq [OF assms(1)] by simp
  have "length (drop p d) = length (hdr @ blanks @ value @ t)" unfolding assms(1) ..
  then have "length d - p = len + length t" using assms(4) by simp
  then have l: "p + len \<le> length d" using False by linarith
  show ?thesis
  proof (rule eat_blanks_eq)
    show "\<forall>i. length hdr \<le> i \<and> i < length hdr + length blanks \<longrightarrow> isblank (d ! (p + i))"
      using n assms(2) by (auto simp: nth_append)
    show "length hdr + length blanks = len \<or> \<not> isblank (d ! (p + (length hdr + length blanks)))"
      using n [of "length hdr + length blanks"] assms(3,4) by (cases "value") (auto simp: nth_append)
  qed (use assms(4) l in simp_all)
qed

lemma get_header_hit:
  assumes d: "drop p d = l0 @ CR # LF # (hdr @ blanks @ value) @ t"
    and t: "t = CR # LF # r \<or> t = [x] \<and> x \<noteq> CR \<and> x \<noteq> LF"
    and l: "line_text l0" "line_text (hdr @ blanks @ value)" and len: "len = int (length d) - int p"
    and h: "map tolower hdr = map tolower header" "blanks @ value \<noteq> []" "header \<noteq> []"
    and b: "\<forall>b \<in> set blanks. isblank b" "value = [] \<or> \<not> isblank (hd value)"
    and v: "no_nul value" "alloc (length value + 1)"
  shows "get_header alloc header d p len = Some (int (length value), Some (value @ [0]))"
proof -
  define p' where "p' = p + length l0 + 2"
  define n where "n = length (hdr @ blanks @ value)"
  note nx = next_header_line [OF d t l len, folded p'_def n_def]
  have lh: "length header = length hdr" using h(1) by (metis length_map)
  have "casecmp_eq header d p' = Some (map tolower (take (length header) ((hdr @ blanks @ value) @ t)) = map tolower header)"
    using nx(2) lh by (intro casecmp_eq_take) simp_all
  then have m: "casecmp_eq header d p' = Some True" using lh h(1) by simp
  have d': "drop p' d = hdr @ blanks @ value @ t" using nx(2) by simp
  have e: "eat_blanks d p' (length header) n = Some (length hdr + length blanks)"
    unfolding lh using d' b n_def by (rule eat_blanks_line)
  have dv: "drop (p' + (length hdr + length blanks)) d = value @ t"
    using drop_append_drop [of p' d "hdr @ blanks"] d' by simp
  have "n - (length hdr + length blanks) = length value" by (simp add: n_def)
  moreover have "strncpy (drop (p' + (length hdr + length blanks)) d) (length value) = Some value"
    unfolding dv using v(1) by (rule strncpy_no_nul)
  moreover have "n \<noteq> 0" "n > length header" using h(2,3) lh by (auto simp: n_def)
  ultimately show ?thesis using nx(1) m e v(2) by (subst get_header.simps) simp
qed

lemma get_header_search:
  assumes "drop p d = l0 @ crlf @ header_lines before @ (hdr @ blanks @ value) @ t"
    and t: "t = CR # LF # r \<or> t = [x] \<and> x \<noteq> CR \<and> x \<noteq> LF"
    and "line_text l0" "\<forall>l \<in> set before. line_text l \<and> l \<noteq> [] \<and> \<not> starts_with header l"
    and "len = int (length d) - int p"
    and l: "line_text (hdr @ blanks @ value)" and h: "map tolower hdr = map tolower header" "blanks @ value \<noteq> []" "header \<noteq> []"
    and b: "\<forall>b \<in> set blanks. isblank b" "value = [] \<or> \<not> isblank (hd value)"
    and v: "no_nul value" "alloc (length value + 1)"
  shows "get_header alloc header d p len = Some (int (length value), Some (value @ [0]))"
  using assms(1,3-5)
proof (induction before arbitrary: p l0 len)
  case Nil
  then have d: "drop p d = l0 @ CR # LF # (hdr @ blanks @ value) @ t"
    by (simp add: crlf_def header_lines_def)
  show ?case by (rule get_header_hit [OF d t Nil(2) l Nil(4)]) (fact h b v)+
next
  case (Cons l1 before)
  define rest where "rest = header_lines before @ (hdr @ blanks @ value) @ t"
  define p' where "p' = p + length l0 + 2"
  have d: "drop p d = l0 @ CR # LF # l1 @ CR # LF # rest"
    using Cons(2) by (simp add: crlf_def header_lines_def rest_def)
  have l1: "line_text l1" "l1 \<noteq> []" "\<not> starts_with header l1" using Cons(4) by simp_all
  note nx = next_header_line [OF d disjI1 [OF refl] Cons(3) l1(1) Cons(5), folded p'_def]
  have m: "(if length l1 > length header then casecmp_eq header d p' else Some False) = Some False"
    using casecmp_eq_take [OF nx(2), of header] l1(3) by (auto simp: starts_with_def)
  have len': "len - int (length l0) - 2 = int (length d) - int p'" using Cons(5) by (simp add: p'_def)
  have "get_header alloc header d p len = get_header alloc header d p' (int (length d) - int p')"
    using nx(1) l1(2) m unfolding len' by (subst get_header.simps) simp
  also have "\<dots> = Some (int (length value), Some (value @ [0]))"
    using nx(2) l1(1) Cons(4) by (intro Cons(1)) (auto simp: crlf_def rest_def)
  finally show ?case .
qed

section \<open>The port is cut off\<close>

definition host_part :: "byte list \<Rightarrow> byte list" where
  "host_part v = (case dropWhile isdigit (rev v) of [] \<Rightarrow> v | c # r \<Rightarrow> if c = 0x3a then rev r else v)"

lemma no_nul_host_part: "no_nul v \<Longrightarrow> no_nul (host_part v)"
proof -
  assume "no_nul v"
  moreover have "set (dropWhile isdigit (rev v)) \<subseteq> set v" using set_dropWhileD by fastforce
  ultimately show ?thesis unfolding host_part_def no_nul_def
    by (cases "dropWhile isdigit (rev v)") (auto simp del: dropWhile_eq_Nil_conv)
qed

lemma trim_port_host_part:
  "v = a @ b \<Longrightarrow> \<forall>x \<in> set b. isdigit x \<Longrightarrow>
   \<exists>s. trim_port (v @ [0]) (length a) (int (length v)) = Some (int (length (host_part v)), Some (host_part v @ 0 # s))"
proof (induction a arbitrary: b rule: rev_induct)
  case Nil
  then have "dropWhile isdigit (rev v) = []" by simp
  then have "host_part v = v" by (simp add: host_part_def del: dropWhile_eq_Nil_conv)
  then show ?case by simp
next
  case (snoc c a)
  have v: "v @ [0] = a @ c # b @ [0]" "v = a @ c # b" using snoc(2) by simp_all
  have c: "char_at (v @ [0]) (length a) = Some c" unfolding v(1) by (simp add: char_at_def)
  have hp: "\<not> isdigit c \<Longrightarrow> host_part v = (if c = 0x3a then a else v)"
    using snoc(3) by (simp add: host_part_def v(2) dropWhile_append)
  have nd: "\<not> isdigit 0x3a" by (simp add: isdigit_def)
  consider "c = 0x3a" | "c \<noteq> 0x3a" "\<not> isdigit c" | "c \<noteq> 0x3a" "isdigit c" by blast
  then show ?case
  proof cases
    case 1
    then have "(v @ [0])[length a := 0] = a @ 0 # b @ [0]" unfolding v(1) by (simp add: list_update_append)
    then show ?thesis using 1 c hp nd by simp
  next
    case 2
    then show ?thesis using c hp by simp
  next
    case 3
    then show ?thesis using snoc(1) [of "c # b"] snoc(3) v(2) c by simp
  qed
qed

lemma parse_http_search:
  assumes d: "d = l0 @ crlf @ header_lines before @ (hdr @ blanks @ value) @ t"
    and t: "t = CR # LF # r \<or> t = [x] \<and> x \<noteq> CR \<and> x \<noteq> LF"
    and ls: "line_text l0" "\<forall>l \<in> set before. line_text l \<and> l \<noteq> [] \<and> \<not> starts_with host_header l"
    and n: "length d < 2 ^ 31"
    and l: "line_text (hdr @ blanks @ value)" and h: "map tolower hdr = map tolower host_header" "blanks @ value \<noteq> []"
    and b: "\<forall>b \<in> set blanks. isblank b" "value = [] \<or> \<not> isblank (hd value)"
    and v: "no_nul value" "alloc (length value + 1)"
  shows "\<exists>v. parse_http_header alloc d (length d) False = Some (int (length (host_part value)), Some v)
           \<and> cstr v = Some (host_part value)"
proof -
  have "get_header alloc host_header d 0 (int_of_size (length d)) = Some (int (length value), Some (value @ [0]))"
  proof (rule get_header_search)
    show "drop 0 d = l0 @ crlf @ header_lines before @ (hdr @ blanks @ value) @ t" using d by simp
    show "int_of_size (length d) = int (length d) - int 0" using int_of_size_small [OF n] by simp
  qed (use t ls l h b v in \<open>simp_all add: host_header_def\<close>)
  moreover obtain s where s: "trim_port (value @ [0]) (length value) (int (length value)) =
      Some (int (length (host_part value)), Some (host_part value @ 0 # s))"
    using trim_port_host_part [of "value" "value" "[]"] by auto
  moreover have "length d \<noteq> 0" by (simp add: d crlf_def)
  ultimately have "parse_http_header alloc d (length d) False =
      Some (int (length (host_part value)), Some (host_part value @ 0 # s))"
    by (simp add: parse_http_header_def)
  then show ?thesis using cstr_append [OF no_nul_host_part [OF v(1)]] by blast
qed

text \<open>C28: the first \<open>Host:\<close> header of a request, in any case, gives the host name: the value
  without the blanks before it and without the port after it, whatever headers come before
  and whatever follows.
\<close>

theorem http_finds_host:
  assumes "d = request @ crlf @ header_lines before @ (hdr @ blanks @ value) @ crlf @ rest"
    and "line_text request" "\<forall>l \<in> set before. line_text l \<and> l \<noteq> [] \<and> \<not> starts_with host_header l"
    and "length d < 2 ^ 31" "line_text (hdr @ blanks @ value)"
    and "map tolower hdr = map tolower host_header" "blanks @ value \<noteq> []"
    and "\<forall>b \<in> set blanks. isblank b" "value = [] \<or> \<not> isblank (hd value)"
    and "no_nul value" "alloc (length value + 1)"
  shows "\<exists>v. parse_http_header alloc d (length d) False = Some (int (length (host_part value)), Some v)
           \<and> cstr v = Some (host_part value)"
proof (rule parse_http_search)
  show "d = request @ crlf @ header_lines before @ (hdr @ blanks @ value) @ CR # LF # rest"
    using assms(1) by (simp add: crlf_def)
qed (use assms(2-) in simp_all)

text \<open>C30: a request cut off inside its \<open>Host:\<close> header is not reported as incomplete: the parser
  returns the part of the name that has arrived, without its last byte.
\<close>

theorem http_truncated_host:
  assumes "d = request @ crlf @ header_lines before @ (hdr @ blanks @ value) @ [x]"
    and "x \<noteq> CR" "x \<noteq> LF"
    and "line_text request" "\<forall>l \<in> set before. line_text l \<and> l \<noteq> [] \<and> \<not> starts_with host_header l"
    and "length d < 2 ^ 31" "line_text (hdr @ blanks @ value)"
    and "map tolower hdr = map tolower host_header" "blanks @ value \<noteq> []"
    and "\<forall>b \<in> set blanks. isblank b" "value = [] \<or> \<not> isblank (hd value)"
    and "no_nul value" "alloc (length value + 1)"
  shows "\<exists>v. parse_http_header alloc d (length d) False = Some (int (length (host_part value)), Some v)
           \<and> cstr v = Some (host_part value)"
proof (rule parse_http_search)
  show "d = request @ crlf @ header_lines before @ (hdr @ blanks @ value) @ [x]" by (fact assms(1))
qed (use assms(2-) in simp_all)

section \<open>Witnesses\<close>

definition example_request :: "byte list" where
  "example_request = [0x47, 0x45, 0x54, 0x20, 0x2f]"

definition example_host :: "byte list" where
  "example_host = [0x61, 0x2e, 0x62, 0x3a, 0x38, 0x30]"

lemma example_host_part: "host_part example_host = [0x61, 0x2e, 0x62]"
  by (simp add: host_part_def example_host_def isdigit_def)

lemma http_no_overread_witness:
  "http_outcome (parse_http_header (\<lambda>n. True) example_request 5 False)"
  by (rule http_no_overread) (simp_all add: example_request_def)

definition example_packet :: "byte list" where
  "example_packet = example_request @ crlf @ header_lines [[0x41, 0x3a]] @
     ([0x68, 0x4f, 0x73, 0x74, 0x3a] @ [0x20] @ example_host) @ crlf @ crlf"

lemma http_finds_host_witness:
  "\<exists>v. parse_http_header (\<lambda>n. n < 100) example_packet (length example_packet) False = Some (3, Some v)
     \<and> cstr v = Some [0x61, 0x2e, 0x62]"
  using http_finds_host [OF example_packet_def, of "\<lambda>n. n < 100", unfolded example_host_part]
  by (simp add: example_packet_def example_request_def example_host_def header_lines_def crlf_def
      line_text_def CR_def LF_def starts_with_def host_header_def tolower_def isblank_def no_nul_def)

definition example_cut :: "byte list" where
  "example_cut = example_request @ crlf @ header_lines [] @
     (host_header @ [0x20] @ [0x61, 0x2e]) @ [0x62]"

lemma http_truncated_host_witness:
  "\<exists>v. parse_http_header (\<lambda>n. n < 100) example_cut (length example_cut) False = Some (2, Some v)
     \<and> cstr v = Some [0x61, 0x2e]"
proof -
  have h: "host_part [0x61, 0x2e] = [0x61, 0x2e :: byte]"
    by (simp add: host_part_def isdigit_def)
  show ?thesis
    using http_truncated_host [OF example_cut_def, of "\<lambda>n. n < 100", unfolded h]
    by (simp add: example_cut_def example_request_def header_lines_def crlf_def
        line_text_def CR_def LF_def host_header_def tolower_def isblank_def no_nul_def)
qed

end
